(* ===== verification/Prelude.thy ===== *)
theory Prelude
  imports Main "HOL-Library.Word" "HOL-Library.Sublist"
begin

text \<open>
  Shared vocabulary of the development: the machine types of the crate, the outcome of an
  operation that may panic, the bit-counting methods of Rust's unsigned integers
  (\<open>trailing_zeros\<close>, \<open>leading_zeros\<close>, \<open>trailing_ones\<close>, \<open>count_ones\<close>), the two functions
  the crate takes from the package \<open>fast_slice_utils\<close> (a parameter of the model, since that
  package is not part of the repository), and the generic facts on bits, prefixes and lists
  that the component theories use.
\<close>

unbundle bit_operations_syntax

type_synonym u8 = "8 word"
type_synonym u16 = "16 word"
type_synonym u32 = "32 word"
type_synonym u64 = "64 word"

text \<open>A path, and a key inside a node, is a slice of bytes.\<close>

type_synonym path = "u8 list"

named_theorems ring_simps "unfolding rules of the algebraic-result layer"
named_theorems mask_simps "bit-level characterisations of the byte-mask operations"
named_theorems slot_simps "accessor/mutator rules of the list-node layout"

subsection \<open>Operations that may panic\<close>

text \<open>\<open>Panic\<close> stands for an unwinding panic (a failed \<open>unwrap\<close>, an index out of range, an
  \<open>unreachable!()\<close> that was reached).\<close>

datatype 'a outcome = Ret 'a | Panic

fun bind_outcome :: "'a outcome \<Rightarrow> ('a \<Rightarrow> 'b outcome) \<Rightarrow> 'b outcome" where
  "bind_outcome (Ret a) f = f a"
| "bind_outcome Panic f = Panic"

definition index_outcome :: "'a list \<Rightarrow> nat \<Rightarrow> 'a outcome" where
  "index_outcome xs i = (if i < length xs then Ret (xs ! i) else Panic)"

lemma bind_outcome_Ret_iff:
  "bind_outcome m f = Ret b \<longleftrightarrow> (\<exists>a. m = Ret a \<and> f a = Ret b)"
  by (cases m) auto

subsection \<open>Ranges of indices\<close>

lemma upt_split: "a \<le> b \<Longrightarrow> b \<le> c \<Longrightarrow> [a..<c] = [a..<b] @ [b..<c]"
  using upt_add_eq_append[of a b "c - b"] by simp

lemma upt_shift: "[a..<a + n] = map (\<lambda>i. a + i) [0..<n]"
  by (induction n) auto

lemma find_append:
  "find P (xs @ ys) = (case find P xs of Some x \<Rightarrow> Some x | None \<Rightarrow> find P ys)"
  by (induction xs) auto

lemma find_map_comp: "find P (map f xs) = map_option f (find (P \<circ> f) xs)"
  by (induction xs) auto

subsection \<open>Bit counting on unsigned integers\<close>

definition trailing_zeros :: "'a::len word \<Rightarrow> nat" where
  "trailing_zeros w = length (takeWhile (\<lambda>i. \<not> bit w i) [0..<LENGTH('a)])"

definition trailing_ones :: "'a::len word \<Rightarrow> nat" where
  "trailing_ones w = length (takeWhile (\<lambda>i. bit w i) [0..<LENGTH('a)])"

definition leading_zeros :: "'a::len word \<Rightarrow> nat" where
  "leading_zeros w = length (takeWhile (\<lambda>i. \<not> bit w (LENGTH('a) - 1 - i)) [0..<LENGTH('a)])"

definition count_ones :: "'a::len word \<Rightarrow> nat" where
  "count_ones w = length (filter (bit w) [0..<LENGTH('a)])"

text \<open>The first index of a range that fails a predicate, through \<open>takeWhile\<close>.\<close>

lemma length_takeWhile_upt_le: "length (takeWhile P [0..<n]) \<le> n"
  using length_takeWhile_le[of P "[0..<n]"] by simp

lemma length_takeWhile_upt_sat:
  assumes "i < length (takeWhile P [0..<n])"
  shows "P i"
proof -
  have "takeWhile P [0..<n] ! i = [0..<n] ! i"
    using assms by (rule takeWhile_nth)
  moreover have "i < n"
    using assms length_takeWhile_upt_le[of P n] by simp
  moreover have "takeWhile P [0..<n] ! i \<in> set (takeWhile P [0..<n])"
    using assms by (rule nth_mem)
  ultimately show ?thesis
    by (auto dest: set_takeWhileD)
qed

lemma length_takeWhile_upt_stop:
  assumes "length (takeWhile P [0..<n]) < n"
  shows "\<not> P (length (takeWhile P [0..<n]))"
  using nth_length_takeWhile[of P "[0..<n]"] assms by simp

lemma length_takeWhile_upt_eqI:
  assumes "k \<le> n" and "\<And>i. i < k \<Longrightarrow> P i" and "k < n \<Longrightarrow> \<not> P k"
  shows "length (takeWhile P [0..<n]) = k"
proof (rule linorder_cases[of "length (takeWhile P [0..<n])" k])
  assume "length (takeWhile P [0..<n]) < k"
  then show ?thesis
    using assms(1,2) length_takeWhile_upt_stop[of P n] by fastforce
next
  assume "k < length (takeWhile P [0..<n])"
  then show ?thesis
    using assms(3) length_takeWhile_upt_sat[of k P n] length_takeWhile_upt_le[of P n]
    by fastforce
qed

lemma trailing_zeros_le: "trailing_zeros (w :: 'a::len word) \<le> LENGTH('a)"
  by (simp add: trailing_zeros_def length_takeWhile_upt_le)

lemma trailing_zeros_below: "i < trailing_zeros w \<Longrightarrow> \<not> bit w i"
  unfolding trailing_zeros_def by (drule length_takeWhile_upt_sat)

lemma trailing_zeros_bit:
  fixes w :: "'a::len word"
  assumes "trailing_zeros w < LENGTH('a)"
  shows "bit w (trailing_zeros w)"
  using length_takeWhile_upt_stop[of "\<lambda>i. \<not> bit w i" "LENGTH('a)"] assms
  by (simp add: trailing_zeros_def)

lemma trailing_zeros_eqI:
  fixes w :: "'a::len word"
  assumes "bit w k" and "\<And>i. i < k \<Longrightarrow> \<not> bit w i"
  shows "trailing_zeros w = k"
  unfolding trailing_zeros_def
  using assms bit_imp_le_length[OF assms(1)]
  by (intro length_takeWhile_upt_eqI) auto

lemma trailing_zeros_less_iff:
  fixes w :: "'a::len word"
  shows "trailing_zeros w < LENGTH('a) \<longleftrightarrow> w \<noteq> 0"
proof
  assume "trailing_zeros w < LENGTH('a)"
  then show "w \<noteq> 0" using trailing_zeros_bit by fastforce
next
  assume "w \<noteq> 0"
  then obtain i where i: "bit w i"
    by (auto simp: bit_eq_iff)
  then show "trailing_zeros w < LENGTH('a)"
    using trailing_zeros_below[of i w] bit_imp_le_length[OF i] trailing_zeros_le[of w]
    by (meson leI le_less_trans linorder_not_less)
qed

lemma trailing_zeros_least:
  fixes w :: "'a::len word"
  assumes "bit w i"
  shows "trailing_zeros w \<le> i"
  using assms trailing_zeros_below[of i w] by (meson leI)

lemma leading_zeros_le: "leading_zeros (w :: 'a::len word) \<le> LENGTH('a)"
  by (simp add: leading_zeros_def length_takeWhile_upt_le)

lemma leading_zeros_above: "i < leading_zeros w \<Longrightarrow> \<not> bit (w :: 'a::len word) (LENGTH('a) - 1 - i)"
  unfolding leading_zeros_def by (drule length_takeWhile_upt_sat)

lemma leading_zeros_bit:
  fixes w :: "'a::len word"
  assumes "leading_zeros w < LENGTH('a)"
  shows "bit w (LENGTH('a) - 1 - leading_zeros w)"
  using length_takeWhile_upt_stop[of "\<lambda>i. \<not> bit w (LENGTH('a) - 1 - i)" "LENGTH('a)"] assms
  by (simp add: leading_zeros_def)

lemma leading_zeros_less_iff:
  fixes w :: "'a::len word"
  shows "leading_zeros w < LENGTH('a) \<longleftrightarrow> w \<noteq> 0"
proof
  assume "leading_zeros w < LENGTH('a)"
  then show "w \<noteq> 0" using leading_zeros_bit by fastforce
next
  assume "w \<noteq> 0"
  then obtain i where i: "bit w i" by (auto simp: bit_eq_iff)
  have l: "i < LENGTH('a)" using bit_imp_le_length[OF i] .
  show "leading_zeros w < LENGTH('a)"
  proof (rule ccontr)
    assume "\<not> ?thesis"
    then have "\<not> bit w (LENGTH('a) - 1 - (LENGTH('a) - 1 - i))"
      using l by (intro leading_zeros_above) auto
    then show False using i l by simp
  qed
qed

lemma leading_zeros_greatest:
  fixes w :: "'a::len word"
  assumes "bit w i"
  shows "i \<le> LENGTH('a) - 1 - leading_zeros w"
proof (rule ccontr)
  assume n: "\<not> ?thesis"
  have l: "i < LENGTH('a)" using bit_imp_le_length[OF assms] .
  then have "\<not> bit w (LENGTH('a) - 1 - (LENGTH('a) - 1 - i))"
    using n by (intro leading_zeros_above) auto
  then show False using assms l by simp
qed

lemma trailing_ones_le: "trailing_ones (w :: 'a::len word) \<le> LENGTH('a)"
  by (simp add: trailing_ones_def length_takeWhile_upt_le)

lemma trailing_ones_below: "i < trailing_ones w \<Longrightarrow> bit w i"
  unfolding trailing_ones_def by (drule length_takeWhile_upt_sat)

lemma trailing_ones_stop:
  fixes w :: "'a::len word"
  assumes "trailing_ones w < LENGTH('a)"
  shows "\<not> bit w (trailing_ones w)"
  using length_takeWhile_upt_stop[of "\<lambda>i. bit w i" "LENGTH('a)"] assms
  by (simp add: trailing_ones_def)

lemma count_ones_card: "count_ones (w :: 'a::len word) = card {i. i < LENGTH('a) \<and> bit w i}"
proof -
  have "count_ones w = card (set (filter (bit w) [0..<LENGTH('a)]))"
    unfolding count_ones_def by (rule distinct_card[symmetric]) simp
  then show ?thesis by (simp add: conj_commute)
qed

lemma count_ones_le: "count_ones (w :: 'a::len word) \<le> LENGTH('a)"
  unfolding count_ones_def by (rule order.trans[OF length_filter_le]) simp

subsection \<open>Single bits of a word\<close>

lemma and_1_nonzero_iff [ring_simps]: "m AND 1 \<noteq> (0 :: 'a::len word) \<longleftrightarrow> bit m 0"
  using and_exp_eq_0_iff_not_bit[of m 0] by simp

lemma bit_2_word_iff: "bit (2 :: u64) n \<longleftrightarrow> n = 1"
  using bit_exp_iff[of 1 n, where ?'a = u64] by (cases "n = 1") (simp_all add: possible_bit_word)

lemma bit_exp_word_iff: "i < 64 \<Longrightarrow> bit (2 ^ i :: u64) j \<longleftrightarrow> j = i"
  using bit_exp_iff[of i j, where ?'a = u64] by (cases "j = i") (simp_all add: possible_bit_word)

lemma and_2_nonzero_iff [ring_simps]: "m AND 2 \<noteq> (0 :: u64) \<longleftrightarrow> bit m 1"
  using and_exp_eq_0_iff_not_bit[of m 1] by simp

subsection \<open>The slice helpers of \<open>fast_slice_utils\<close>\<close>

text \<open>
  \<open>find_prefix_overlap(a, b)\<close> and \<open>starts_with(slice, prefix)\<close> come from a package outside the
  repository. Every definition of the model that calls them takes them as the argument \<open>S\<close>; the
  predicate \<open>slice_utils_ok\<close> states their documented behaviour: the number of leading bytes two
  slices share, and whether a slice begins with another. \<open>std_slice_utils\<close> is a concrete pair
  that satisfies it.
\<close>

record slice_utils =
  find_prefix_overlap :: "path \<Rightarrow> path \<Rightarrow> nat"
  starts_with :: "path \<Rightarrow> path \<Rightarrow> bool"

definition lcp_len :: "path \<Rightarrow> path \<Rightarrow> nat" where
  "lcp_len a b = length (longest_common_prefix a b)"

definition slice_utils_ok :: "slice_utils \<Rightarrow> bool" where
  "slice_utils_ok S \<longleftrightarrow>
     (\<forall>a b. find_prefix_overlap S a b = lcp_len a b) \<and>
     (\<forall>a b. starts_with S a b = prefix b a)"

definition std_slice_utils :: slice_utils where
  "std_slice_utils = \<lparr>find_prefix_overlap = lcp_len, starts_with = (\<lambda>a b. prefix b a)\<rparr>"

lemma std_slice_utils_ok: "slice_utils_ok std_slice_utils"
  by (simp add: slice_utils_ok_def std_slice_utils_def)

lemma slice_utils_okD [simp]:
  assumes "slice_utils_ok S"
  shows "find_prefix_overlap S a b = lcp_len a b"
    and "starts_with S a b = prefix b a"
  using assms by (simp_all add: slice_utils_ok_def)

lemma lcp_len_simps [simp]:
  "lcp_len [] b = 0"
  "lcp_len a [] = 0"
  "lcp_len (x # a) (y # b) = (if x = y then Suc (lcp_len a b) else 0)"
  by (simp_all add: lcp_len_def)

lemma lcp_len_commute: "lcp_len a b = lcp_len b a"
  by (induction a arbitrary: b) (case_tac b; simp)+

lemma lcp_len_le: "lcp_len a b \<le> length a" "lcp_len a b \<le> length b"
  by (induction a arbitrary: b) (case_tac b; simp)+

lemma take_lcp_len: "take (lcp_len a b) a = take (lcp_len a b) b"
  by (induction a arbitrary: b) (case_tac b; simp)+

lemma lcp_len_prefix: "prefix a b \<Longrightarrow> lcp_len a b = length a"
  by (induction a arbitrary: b) (case_tac b; simp)+

lemma lcp_len_full_iff: "lcp_len a b = length a \<longleftrightarrow> prefix a b"
proof (induction a arbitrary: b)
  case (Cons x a) then show ?case by (cases b) auto
qed simp

lemma lcp_len_pos_iff: "0 < lcp_len a b \<longleftrightarrow> a \<noteq> [] \<and> b \<noteq> [] \<and> hd a = hd b"
  by (cases a; cases b; simp)

lemma lcp_len_diverge:
  "lcp_len a b < length a \<Longrightarrow> lcp_len a b < length b \<Longrightarrow> a ! lcp_len a b \<noteq> b ! lcp_len a b"
proof (induction a arbitrary: b)
  case (Cons x a) then show ?case by (cases b) auto
qed simp

lemma not_prefix_append_same: "prefix a b \<longleftrightarrow> take (length a) b = a"
  by (metis append_eq_conv_conj prefix_def)

end
