(* ===== verification/Ring.thy ===== *)
theory Ring
  imports Prelude
begin

text \<open>
  The algebraic-result layer of \<open>src/ring.rs\<close>: \<open>AlgebraicResult\<close>, \<open>AlgebraicStatus\<close> and
  \<open>FatAlgebraicResult\<close> with every method, the default in-place implementation, \<open>join_all\<close>, and the
  lattice implementations on \<open>Option<V>\<close>, \<open>()\<close>, \<open>bool\<close> and the unsigned integers.  The locale
  \<open>lattice_impl\<close> is the contract the crate's documentation gives for the identity masks;
  the clients of the \<open>Lattice\<close> trait are proved once inside it and it is interpreted on each
  implementation.
\<close>

subsection \<open>\<open>AlgebraicResult\<close>\<close>

text \<open>The variants \<open>None\<close>, \<open>Identity(u64)\<close>, \<open>Element(V)\<close>; \<open>None\<close> is renamed.\<close>

datatype 'v algebraic_result = RNone | Identity u64 | Element 'v

definition SELF_IDENT :: u64 where "SELF_IDENT = 0x1"
definition COUNTER_IDENT :: u64 where "COUNTER_IDENT = 0x2"

fun is_none :: "'v algebraic_result \<Rightarrow> bool" where
  "is_none RNone = True" | "is_none _ = False"

fun is_identity :: "'v algebraic_result \<Rightarrow> bool" where
  "is_identity (Identity _) = True" | "is_identity _ = False"

fun is_element :: "'v algebraic_result \<Rightarrow> bool" where
  "is_element (Element _) = True" | "is_element _ = False"

fun identity_mask :: "'v algebraic_result \<Rightarrow> u64 option" where
  "identity_mask RNone = None"
| "identity_mask (Identity m) = Some m"
| "identity_mask (Element _) = None"

fun invert_identity :: "'v algebraic_result \<Rightarrow> 'v algebraic_result" where
  "invert_identity RNone = RNone"
| "invert_identity (Identity m) =
     Identity (push_bit 1 (m AND SELF_IDENT) OR drop_bit 1 (m AND COUNTER_IDENT))"
| "invert_identity (Element v) = Element v"

fun map_result :: "('v \<Rightarrow> 'u) \<Rightarrow> 'v algebraic_result \<Rightarrow> 'u algebraic_result" where
  "map_result f RNone = RNone"
| "map_result f (Identity m) = Identity m"
| "map_result f (Element v) = Element (f v)"

fun map_into_option :: "'v algebraic_result \<Rightarrow> (nat \<Rightarrow> 'v option) \<Rightarrow> 'v option" where
  "map_into_option (Element v) ident_f = Some v"
| "map_into_option RNone ident_f = None"
| "map_into_option (Identity m) ident_f = ident_f (trailing_zeros m)"

text \<open>Indexing the \<open>idents\<close> table out of range panics.\<close>

fun into_option :: "'v algebraic_result \<Rightarrow> 'v list \<Rightarrow> 'v option outcome" where
  "into_option (Element v) idents = Ret (Some v)"
| "into_option RNone idents = Ret None"
| "into_option (Identity m) idents =
     bind_outcome (index_outcome idents (trailing_zeros m)) (\<lambda>v. Ret (Some v))"

fun unwrap :: "'v algebraic_result \<Rightarrow> 'v list \<Rightarrow> 'v outcome" where
  "unwrap (Element v) idents = Ret v"
| "unwrap RNone idents = Panic"
| "unwrap (Identity m) idents = index_outcome idents (trailing_zeros m)"

fun unwrap_or_else :: "'v algebraic_result \<Rightarrow> (nat \<Rightarrow> 'v) \<Rightarrow> (unit \<Rightarrow> 'v) \<Rightarrow> 'v" where
  "unwrap_or_else (Element v) ident_f none_f = v"
| "unwrap_or_else RNone ident_f none_f = none_f ()"
| "unwrap_or_else (Identity m) ident_f none_f = ident_f (trailing_zeros m)"

fun unwrap_or :: "'v algebraic_result \<Rightarrow> 'v list \<Rightarrow> 'v \<Rightarrow> 'v outcome" where
  "unwrap_or (Element v) idents none = Ret v"
| "unwrap_or RNone idents none = Ret none"
| "unwrap_or (Identity m) idents none = index_outcome idents (trailing_zeros m)"

text \<open>\<open>merge\<close>: composes the results of two fields.  The two closures give the field's value in
  the argument of the given index (\<open>None\<close> when that argument has no such field).\<close>

fun merge_result :: "'v algebraic_result \<Rightarrow> 'b algebraic_result \<Rightarrow> (nat \<Rightarrow> 'v option)
    \<Rightarrow> (nat \<Rightarrow> 'b option) \<Rightarrow> ('v option \<Rightarrow> 'b option \<Rightarrow> 'u algebraic_result) \<Rightarrow> 'u algebraic_result" where
  "merge_result RNone b self_idents b_idents merge_f =
     (case b of
        RNone \<Rightarrow> RNone
      | Element b_v \<Rightarrow> merge_f None (Some b_v)
      | Identity b_mask \<Rightarrow>
          (if self_idents 0 = None then Identity b_mask
           else merge_f None (b_idents (trailing_zeros b_mask))))"
| "merge_result (Identity self_mask) b self_idents b_idents merge_f =
     (case b of
        RNone \<Rightarrow>
          (if b_idents 0 = None then Identity self_mask
           else merge_f (self_idents (trailing_zeros self_mask)) None)
      | Element b_v \<Rightarrow> merge_f (self_idents (trailing_zeros self_mask)) (Some b_v)
      | Identity b_mask \<Rightarrow>
          (let combined_mask = self_mask AND b_mask in
           if 0 < combined_mask then Identity combined_mask
           else merge_f (self_idents (trailing_zeros self_mask)) (b_idents (trailing_zeros b_mask))))"
| "merge_result (Element self_v) b self_idents b_idents merge_f =
     (case b of
        RNone \<Rightarrow> merge_f (Some self_v) None
      | Element b_v \<Rightarrow> merge_f (Some self_v) (Some b_v)
      | Identity b_mask \<Rightarrow> merge_f (Some self_v) (b_idents (trailing_zeros b_mask)))"

fun flatten_result :: "'v option algebraic_result \<Rightarrow> 'v algebraic_result" where
  "flatten_result (Element v) = (case v of Some v' \<Rightarrow> Element v' | None \<Rightarrow> RNone)"
| "flatten_result RNone = RNone"
| "flatten_result (Identity m) = Identity m"

subsection \<open>\<open>AlgebraicStatus\<close>\<close>

datatype algebraic_status = SElement | SIdentity | SNone

text \<open>The derived \<open>Ord\<close>: declaration order, \<open>Element\<close> lowest and \<open>None\<close> highest.\<close>

fun status_rank :: "algebraic_status \<Rightarrow> nat" where
  "status_rank SElement = 0" | "status_rank SIdentity = 1" | "status_rank SNone = 2"

instantiation algebraic_status :: linorder
begin
definition less_eq_algebraic_status :: "algebraic_status \<Rightarrow> algebraic_status \<Rightarrow> bool" where
  "less_eq_algebraic_status a b \<longleftrightarrow> status_rank a \<le> status_rank b"
definition less_algebraic_status :: "algebraic_status \<Rightarrow> algebraic_status \<Rightarrow> bool" where
  "less_algebraic_status a b \<longleftrightarrow> status_rank a < status_rank b"
instance
proof
  fix a b :: algebraic_status
  show "a \<le> b \<Longrightarrow> b \<le> a \<Longrightarrow> a = b"
    by (cases a; cases b; simp add: less_eq_algebraic_status_def)
qed (auto simp: less_eq_algebraic_status_def less_algebraic_status_def)
end

fun status_is_none :: "algebraic_status \<Rightarrow> bool" where
  "status_is_none SNone = True" | "status_is_none _ = False"
fun status_is_identity :: "algebraic_status \<Rightarrow> bool" where
  "status_is_identity SIdentity = True" | "status_is_identity _ = False"
fun status_is_element :: "algebraic_status \<Rightarrow> bool" where
  "status_is_element SElement = True" | "status_is_element _ = False"

fun merge_status :: "algebraic_status \<Rightarrow> algebraic_status \<Rightarrow> bool \<Rightarrow> bool \<Rightarrow> algebraic_status" where
  "merge_status SNone b self_none b_none =
     (case b of
        SNone \<Rightarrow> SNone
      | SElement \<Rightarrow> SElement
      | SIdentity \<Rightarrow> (if self_none then SIdentity else SElement))"
| "merge_status SIdentity b self_none b_none =
     (case b of
        SElement \<Rightarrow> SElement
      | SIdentity \<Rightarrow> SIdentity
      | SNone \<Rightarrow> (if b_none then SIdentity else SElement))"
| "merge_status SElement b self_none b_none = SElement"

fun from_status :: "algebraic_status \<Rightarrow> (unit \<Rightarrow> 'v) \<Rightarrow> 'v algebraic_result" where
  "from_status SNone element_f = RNone"
| "from_status SIdentity element_f = Identity SELF_IDENT"
| "from_status SElement element_f = Element (element_f ())"

fun status :: "'v algebraic_result \<Rightarrow> algebraic_status" where
  "status RNone = SNone"
| "status (Element _) = SElement"
| "status (Identity m) = (if 0 < m AND SELF_IDENT then SIdentity else SElement)"

subsection \<open>\<open>FatAlgebraicResult\<close>\<close>

record 'v fat_algebraic_result =
  fat_identity_mask :: u64
  fat_element :: "'v option"

definition fat_new :: "u64 \<Rightarrow> 'v option \<Rightarrow> 'v fat_algebraic_result" where
  "fat_new m e = \<lparr>fat_identity_mask = m, fat_element = e\<rparr>"

definition fat_none :: "'v fat_algebraic_result" where
  "fat_none = \<lparr>fat_identity_mask = 0, fat_element = None\<rparr>"

definition fat_of_element :: "'v \<Rightarrow> 'v fat_algebraic_result" where
  "fat_of_element e = \<lparr>fat_identity_mask = 0, fat_element = Some e\<rparr>"

definition from_fat :: "'v fat_algebraic_result \<Rightarrow> 'v algebraic_result" where
  "from_fat src =
     (if 0 < fat_identity_mask src then Identity (fat_identity_mask src)
      else case fat_element src of Some e \<Rightarrow> Element e | None \<Rightarrow> RNone)"

fun from_binary_op_result :: "'v algebraic_result \<Rightarrow> 'v \<Rightarrow> 'v \<Rightarrow> 'v fat_algebraic_result" where
  "from_binary_op_result RNone a b = fat_none"
| "from_binary_op_result (Element v) a b = fat_of_element v"
| "from_binary_op_result (Identity m) a b =
     (if 0 < m AND SELF_IDENT then fat_new m (Some a) else fat_new m (Some b))"

definition fat_map :: "('v \<Rightarrow> 'u) \<Rightarrow> 'v fat_algebraic_result \<Rightarrow> 'u fat_algebraic_result" where
  "fat_map f r = \<lparr>fat_identity_mask = fat_identity_mask r, fat_element = map_option f (fat_element r)\<rparr>"

text \<open>A shift by an amount of the width or more: the release build takes the amount modulo 64
  (a debug build panics).\<close>

definition shl64 :: "u64 \<Rightarrow> nat \<Rightarrow> u64" where
  "shl64 x n = push_bit (n mod 64) x"

definition fat_join :: "('v \<Rightarrow> 'v \<Rightarrow> 'v algebraic_result) \<Rightarrow> 'v fat_algebraic_result \<Rightarrow> 'v \<Rightarrow> nat
    \<Rightarrow> 'v fat_algebraic_result" where
  "fat_join pjoin self arg arg_idx =
     (case fat_element self of
        None \<Rightarrow> fat_new (fat_identity_mask self OR shl64 1 arg_idx) (Some arg)
      | Some self_element \<Rightarrow>
          (case pjoin self_element arg of
             RNone \<Rightarrow> fat_none
           | Element e \<Rightarrow> fat_of_element e
           | Identity m \<Rightarrow>
               (if 0 < m AND SELF_IDENT then
                  fat_new (fat_identity_mask self OR shl64 (m AND COUNTER_IDENT) (arg_idx - 1))
                    (Some self_element)
                else fat_new (shl64 (m AND COUNTER_IDENT) (arg_idx - 1)) (Some arg))))"

subsection \<open>In-place operations and \<open>join_all\<close>\<close>

text \<open>The new value of \<open>*self_ref\<close> and the returned status.\<close>

fun in_place_default_impl :: "'s algebraic_result \<Rightarrow> 's \<Rightarrow> 'o \<Rightarrow> ('s \<Rightarrow> 's) \<Rightarrow> ('o \<Rightarrow> 's)
    \<Rightarrow> 's \<times> algebraic_status" where
  "in_place_default_impl RNone self_ref other default_f convert_f = (default_f self_ref, SNone)"
| "in_place_default_impl (Element v) self_ref other default_f convert_f = (v, SElement)"
| "in_place_default_impl (Identity m) self_ref other default_f convert_f =
     (if 0 < m AND SELF_IDENT then (self_ref, SIdentity) else (convert_f other, SElement))"

definition join_into_default :: "('v \<Rightarrow> 'v \<Rightarrow> 'v algebraic_result) \<Rightarrow> 'v \<Rightarrow> 'v \<Rightarrow> 'v \<times> algebraic_status" where
  "join_into_default pjoin self other =
     in_place_default_impl (pjoin self other) self other (\<lambda>s. s) (\<lambda>e. e)"

fun join_all_loop :: "('v \<Rightarrow> 'v \<Rightarrow> 'v algebraic_result) \<Rightarrow> 'v fat_algebraic_result \<Rightarrow> nat \<Rightarrow> 'v list
    \<Rightarrow> 'v fat_algebraic_result" where
  "join_all_loop pjoin result i [] = result"
| "join_all_loop pjoin result i (next_x # xs) =
     join_all_loop pjoin (fat_join pjoin result next_x i) (Suc i) xs"

fun join_all :: "('v \<Rightarrow> 'v \<Rightarrow> 'v algebraic_result) \<Rightarrow> 'v list \<Rightarrow> 'v algebraic_result" where
  "join_all pjoin [] = RNone"
| "join_all pjoin (first # xs) =
     from_fat (join_all_loop pjoin (fat_new SELF_IDENT (Some first)) 1 xs)"

subsection \<open>Lattice implementations on \<open>Option<V>\<close>, \<open>()\<close>, \<open>bool\<close> and integers\<close>

fun option_pjoin :: "('v \<Rightarrow> 'v \<Rightarrow> 'v algebraic_result) \<Rightarrow> 'v option \<Rightarrow> 'v option \<Rightarrow> 'v option algebraic_result" where
  "option_pjoin pjoin None None = RNone"
| "option_pjoin pjoin None (Some _) = Identity COUNTER_IDENT"
| "option_pjoin pjoin (Some l) None = Identity SELF_IDENT"
| "option_pjoin pjoin (Some l) (Some r) = map_result Some (pjoin l r)"

fun option_join_into :: "('v \<Rightarrow> 'v \<Rightarrow> 'v \<times> algebraic_status) \<Rightarrow> 'v option \<Rightarrow> 'v option
    \<Rightarrow> 'v option \<times> algebraic_status" where
  "option_join_into join_into None None = (None, SNone)"
| "option_join_into join_into None (Some r) = (Some r, SElement)"
| "option_join_into join_into (Some l) None = (Some l, SIdentity)"
| "option_join_into join_into (Some l) (Some r) = map_prod Some (\<lambda>s. s) (join_into l r)"

fun option_pmeet :: "('v \<Rightarrow> 'v \<Rightarrow> 'v algebraic_result) \<Rightarrow> 'v option \<Rightarrow> 'v option \<Rightarrow> 'v option algebraic_result" where
  "option_pmeet pmeet None other = RNone"
| "option_pmeet pmeet (Some l) None = RNone"
| "option_pmeet pmeet (Some l) (Some r) = map_result Some (pmeet l r)"

fun option_psubtract :: "('v \<Rightarrow> 'v \<Rightarrow> 'v algebraic_result) \<Rightarrow> 'v option \<Rightarrow> 'v option
    \<Rightarrow> 'v option algebraic_result" where
  "option_psubtract psubtract None other = RNone"
| "option_psubtract psubtract (Some s) None = Identity SELF_IDENT"
| "option_psubtract psubtract (Some s) (Some oth) = map_result Some (psubtract s oth)"

definition unit_pjoin :: "unit \<Rightarrow> unit \<Rightarrow> unit algebraic_result" where
  "unit_pjoin self other = Identity (SELF_IDENT OR COUNTER_IDENT)"
definition unit_pmeet :: "unit \<Rightarrow> unit \<Rightarrow> unit algebraic_result" where
  "unit_pmeet self other = Identity (SELF_IDENT OR COUNTER_IDENT)"
definition unit_psubtract :: "unit \<Rightarrow> unit \<Rightarrow> unit algebraic_result" where
  "unit_psubtract self other = RNone"

definition left_biased_pjoin :: "'v \<Rightarrow> 'v \<Rightarrow> 'v algebraic_result" where
  "left_biased_pjoin a b =
     (if a = b then Identity (SELF_IDENT OR COUNTER_IDENT) else Identity SELF_IDENT)"

text \<open>The implementations for \<open>usize\<close>, \<open>u64\<close>, \<open>u32\<close>, \<open>u16\<close> and \<open>u8\<close> are the same at every width.\<close>

definition int_pjoin :: "'w::len word \<Rightarrow> 'w word \<Rightarrow> 'w word algebraic_result" where
  "int_pjoin self other = left_biased_pjoin self other"
definition int_pmeet :: "'w::len word \<Rightarrow> 'w word \<Rightarrow> 'w word algebraic_result" where
  "int_pmeet self other = Identity SELF_IDENT"
definition int_psubtract :: "'w::len word \<Rightarrow> 'w word \<Rightarrow> 'w word algebraic_result" where
  "int_psubtract self other = (if self = other then RNone else Element self)"

definition bool_psubtract :: "bool \<Rightarrow> bool \<Rightarrow> bool algebraic_result" where
  "bool_psubtract self other = (if self = other then RNone else Identity SELF_IDENT)"
definition bool_pjoin :: "bool \<Rightarrow> bool \<Rightarrow> bool algebraic_result" where
  "bool_pjoin self other = (if \<not> self \<and> other then Identity COUNTER_IDENT else Identity SELF_IDENT)"
definition bool_pmeet :: "bool \<Rightarrow> bool \<Rightarrow> bool algebraic_result" where
  "bool_pmeet self other = (if self \<and> \<not> other then Identity COUNTER_IDENT else Identity SELF_IDENT)"

subsection \<open>Identity masks of binary operations\<close>

lemma ident_bits [simp]:
  "SELF_IDENT AND SELF_IDENT = 1" "COUNTER_IDENT AND SELF_IDENT = 0"
  "(SELF_IDENT OR COUNTER_IDENT) AND SELF_IDENT = 1"
  "SELF_IDENT AND COUNTER_IDENT = 0" "COUNTER_IDENT AND COUNTER_IDENT = 2"
  "(SELF_IDENT OR COUNTER_IDENT) AND COUNTER_IDENT = 2"
  by (simp_all add: SELF_IDENT_def COUNTER_IDENT_def)

lemma ident_trailing_zeros [simp]:
  "trailing_zeros SELF_IDENT = 0" "trailing_zeros COUNTER_IDENT = 1"
  "trailing_zeros (SELF_IDENT OR COUNTER_IDENT) = 0"
  by (rule trailing_zeros_eqI; simp add: SELF_IDENT_def COUNTER_IDENT_def bit_simps)+

lemma ident_nonzero [simp]:
  "0 < SELF_IDENT" "0 < COUNTER_IDENT" "0 < SELF_IDENT OR COUNTER_IDENT"
  "SELF_IDENT \<noteq> 0" "COUNTER_IDENT \<noteq> 0" "SELF_IDENT OR COUNTER_IDENT \<noteq> 0"
  by (simp_all add: SELF_IDENT_def COUNTER_IDENT_def)

lemma ident_distinct [simp]:
  "SELF_IDENT \<noteq> COUNTER_IDENT" "COUNTER_IDENT \<noteq> SELF_IDENT"
  "SELF_IDENT OR COUNTER_IDENT \<noteq> SELF_IDENT" "SELF_IDENT OR COUNTER_IDENT \<noteq> COUNTER_IDENT"
  by (simp_all add: SELF_IDENT_def COUNTER_IDENT_def)

text \<open>The documented conditions on the result of an operation of arity two: an identity mask is
  non-zero, has no bit beyond the two arguments, and has both only if the arguments are equal
  (\<open>eqv\<close> is the equality of the value type: a hash map is equal to a map with the same entries
  in another iteration order).\<close>

definition ident_ok :: "('a \<Rightarrow> 'a \<Rightarrow> bool) \<Rightarrow> 'a \<Rightarrow> 'a \<Rightarrow> 'v algebraic_result \<Rightarrow> bool" where
  "ident_ok eqv a b r = (case r of
     Identity m \<Rightarrow> m = SELF_IDENT \<or> m = COUNTER_IDENT \<or> (m = (SELF_IDENT OR COUNTER_IDENT) \<and> eqv a b)
   | _ \<Rightarrow> True)"

text \<open>The element a result stands for, given the arguments.\<close>

fun resolve :: "'v algebraic_result \<Rightarrow> 'v \<Rightarrow> 'v \<Rightarrow> 'v option" where
  "resolve RNone a b = None"
| "resolve (Element v) a b = Some v"
| "resolve (Identity m) a b = Some (if 0 < m AND SELF_IDENT then a else b)"

lemma ident_ok_simps [simp]:
  "ident_ok eqv a b RNone" "ident_ok eqv a b (Element v)"
  "ident_ok eqv a b (Identity SELF_IDENT)" "ident_ok eqv a b (Identity COUNTER_IDENT)"
  "ident_ok eqv a b (Identity (SELF_IDENT OR COUNTER_IDENT)) = eqv a b"
  by (simp_all add: ident_ok_def)

lemma ident_okE:
  assumes "ident_ok eqv a b (Identity m)"
  obtains "m = SELF_IDENT" | "m = COUNTER_IDENT" | "m = (SELF_IDENT OR COUNTER_IDENT)" "eqv a b"
  using assms by (auto simp: ident_ok_def)

lemma resolve_map: "resolve (map_result f r) (f a) (f b) = map_option f (resolve r a b)"
  by (cases r) auto

lemma into_option_resolve:
  "ident_ok eqv a b r \<Longrightarrow> into_option r [a, b] = Ret (resolve r a b)"
  by (cases r) (auto elim!: ident_okE simp: index_outcome_def)

lemma status_resolve:
  "ident_ok eqv a b r \<Longrightarrow> status r = SIdentity \<Longrightarrow> resolve r a b = Some a"
  by (cases r) (auto split: if_splits)

subsection \<open>The contract of the \<open>Lattice\<close> trait\<close>

locale lattice_impl =
  fixes eqv :: "'v \<Rightarrow> 'v \<Rightarrow> bool"
    and pjoin :: "'v \<Rightarrow> 'v \<Rightarrow> 'v algebraic_result"
    and pmeet :: "'v \<Rightarrow> 'v \<Rightarrow> 'v algebraic_result"
  assumes eqv_refl: "eqv a a"
    and eqv_sym: "eqv a b \<Longrightarrow> eqv b a"
    and eqv_trans: "eqv a b \<Longrightarrow> eqv b c \<Longrightarrow> eqv a c"
    and pjoin_ident: "ident_ok eqv a b (pjoin a b)"
    and pmeet_ident: "ident_ok eqv a b (pmeet a b)"
begin

lemma join_into_default_status: "snd (join_into_default pjoin a b) = status (pjoin a b)"
  by (cases "pjoin a b") (auto simp: join_into_default_def)

lemma join_into_default_value:
  "fst (join_into_default pjoin a b) = (case resolve (pjoin a b) a b of None \<Rightarrow> a | Some v \<Rightarrow> v)"
  by (cases "pjoin a b") (auto simp: join_into_default_def)

lemma invert_identity_resolve:
  assumes "ident_ok eqv a b r"
  shows "rel_option eqv (resolve (invert_identity r) b a) (resolve r a b)"
proof (cases r)
  case (Identity m)
  with assms have "ident_ok eqv a b (Identity m :: 'v algebraic_result)" by simp
  then show ?thesis
    using Identity
    by (cases rule: ident_okE)
      (auto simp: SELF_IDENT_def COUNTER_IDENT_def eqv_refl eqv_sym)
qed (auto simp: eqv_refl)

lemma option_ident:
  "ident_ok (rel_option eqv) a b (option_pjoin pjoin a b)"
  "ident_ok (rel_option eqv) a b (option_pmeet pmeet a b)"
proof -
  have *: "ident_ok (rel_option eqv) (Some x) (Some y) (map_result Some (pjoin x y))"
    "ident_ok (rel_option eqv) (Some x) (Some y) (map_result Some (pmeet x y))" for x y
    using pjoin_ident[of x y] pmeet_ident[of x y]
    by (auto simp: ident_ok_def split: algebraic_result.splits)
  show "ident_ok (rel_option eqv) a b (option_pjoin pjoin a b)"
    by (cases "(pjoin, a, b)" rule: option_pjoin.cases) (auto simp: *)
  show "ident_ok (rel_option eqv) a b (option_pmeet pmeet a b)"
    by (cases "(pmeet, a, b)" rule: option_pmeet.cases) (auto simp: *)
qed

end

lemma lattice_impl_option:
  assumes "lattice_impl eqv pjoin pmeet"
  shows "lattice_impl (rel_option eqv) (option_pjoin pjoin) (option_pmeet pmeet)"
proof -
  have r: "\<And>a. eqv a a" and s: "\<And>a b. eqv a b \<Longrightarrow> eqv b a"
    and t: "\<And>a b c. eqv a b \<Longrightarrow> eqv b c \<Longrightarrow> eqv a c"
    using lattice_impl.eqv_refl[OF assms] lattice_impl.eqv_sym[OF assms]
      lattice_impl.eqv_trans[OF assms] by blast+
  show ?thesis
  proof (unfold_locales, goal_cases)
    case (1 a) then show ?case by (cases a) (auto intro: r)
  next
    case (2 a b) then show ?case by (cases a; cases b) (auto intro: s)
  next
    case (3 a b c) then show ?case by (cases a; cases b; cases c) (auto intro: t)
  qed (rule lattice_impl.option_ident[OF assms])+
qed

locale dist_lattice_impl = lattice_impl +
  fixes psubtract :: "'v \<Rightarrow> 'v \<Rightarrow> 'v algebraic_result"
  assumes psubtract_ident: "psubtract a b = Identity m \<Longrightarrow> m = SELF_IDENT"
begin

lemma option_psubtract_ident: "option_psubtract psubtract a b = Identity m \<Longrightarrow> m = SELF_IDENT"
  by (cases "(psubtract, a, b)" rule: option_psubtract.cases)
    (auto elim!: map_result.elims dest: psubtract_ident)

end

subsection \<open>The implementations satisfy the contract\<close>

interpretation unit_lattice: dist_lattice_impl "(=)" unit_pjoin unit_pmeet unit_psubtract
  by unfold_locales (auto simp: unit_pjoin_def unit_pmeet_def unit_psubtract_def)

interpretation int_lattice: dist_lattice_impl "(=)"
  "int_pjoin :: 'w::len word \<Rightarrow> 'w word \<Rightarrow> 'w word algebraic_result" int_pmeet int_psubtract
  by unfold_locales
    (auto simp: int_pjoin_def left_biased_pjoin_def int_pmeet_def int_psubtract_def split: if_splits)

interpretation bool_lattice: dist_lattice_impl "(=)" bool_pjoin bool_pmeet bool_psubtract
  by unfold_locales
    (auto simp: bool_pjoin_def bool_pmeet_def bool_psubtract_def split: if_splits)

interpretation option_bool_lattice: lattice_impl "rel_option (=)"
  "option_pjoin bool_pjoin" "option_pmeet bool_pmeet"
  by (rule lattice_impl_option) unfold_locales

interpretation option_int_lattice: lattice_impl "rel_option (=)"
  "option_pjoin (int_pjoin :: 'w::len word \<Rightarrow> 'w word \<Rightarrow> 'w word algebraic_result)"
  "option_pmeet int_pmeet"
  by (rule lattice_impl_option) unfold_locales

end
