(* ===== verification/Ring_Laws.thy ===== *)
theory Ring_Laws
  imports Ring
begin

text \<open>
  What the algebraic-result layer of \<open>src/ring.rs\<close> promises: the identity masks of a composed
  result (\<open>merge\<close>), its agreement with \<open>AlgebraicStatus::merge\<close>, the soundness of \<open>join_all\<close>
  and the width at which its masks stop being right, the agreement of \<open>Option\<close>'s in-place join with
  the default one, and what the boolean operations compute.
\<close>

subsection \<open>Composing results\<close>

lemma mask_pos_iff: "0 < (m :: u64) AND SELF_IDENT \<longleftrightarrow> bit m 0"
  using and_1_nonzero_iff[of m] by (simp add: SELF_IDENT_def word_neq_0_conv)

lemma mask_counter_pos_iff: "(m :: u64) AND COUNTER_IDENT \<noteq> 0 \<longleftrightarrow> bit m 1"
  by (simp add: COUNTER_IDENT_def and_2_nonzero_iff)

text \<open>\<open>AlgebraicStatus::merge\<close> computes the status of the merged result: merging two
  \<open>AlgebraicResult\<close>s and then taking the status is merging the statuses, with the flags telling
  whether the argument's own field was absent, whenever the merge closure builds a new element.\<close>

theorem status_merge_result:
  assumes "\<And>x y. is_element (merge_f x y)"
  shows "status (merge_result a b self_idents b_idents merge_f) =
         merge_status (status a) (status b) (self_idents 0 = None) (b_idents 0 = None)"
proof -
  have el: "status (merge_f x y) = SElement" for x y
    using assms[of x y] by (cases "merge_f x y") auto
  have both: "0 < m AND n" if "bit m 0" "bit n 0" for m n :: u64
  proof -
    have "bit (m AND n) 0" using that by (simp add: bit_and_iff)
    then show ?thesis by (metis bit_0_eq bot_fun_def bot_bool_def word_neq_0_conv)
  qed
  show ?thesis
    by (cases a; cases b)
      (auto simp: el both mask_pos_iff bit_and_iff Let_def split: if_splits)
qed

theorem status_merge_result_witness:
  "status (merge_result (Identity 1) (Identity 3) (\<lambda>i. Some (i > 0)) (\<lambda>i. None) (\<lambda>x y. Element (x, y :: nat option)))
     = SIdentity"
  using status_merge_result[of "\<lambda>x y. Element (x, y)" "Identity 1" "Identity 3" "\<lambda>i. Some (i > 0)" "\<lambda>i. None"]
  by (simp add: SELF_IDENT_def)

text \<open>The closures \<open>PathMap\<close> and the cofree pass to \<open>merge\<close>: the field of the argument with the
  given index.\<close>

definition field_idents :: "'v option \<Rightarrow> 'v option \<Rightarrow> nat \<Rightarrow> 'v option" where
  "field_idents a b i = (if i = 0 then a else b)"

definition pair_element :: "'v option \<Rightarrow> 'b option \<Rightarrow> ('v option \<times> 'b option) algebraic_result" where
  "pair_element x y = Element (x, y)"

text \<open>The field of the composed value: absent where the field's operation annihilated it.\<close>

definition field_value :: "'v algebraic_result \<Rightarrow> 'v option \<Rightarrow> 'v option \<Rightarrow> 'v option" where
  "field_value r a b = (case r of RNone \<Rightarrow> None | Element v \<Rightarrow> Some v
     | Identity m \<Rightarrow> if 0 < m AND SELF_IDENT then a else b)"

lemma field_idents_0 [simp]: "field_idents a b 0 = a"
  by (simp add: field_idents_def)

lemma field_idents_trailing:
  "ident_ok eqv a b (Identity m) \<Longrightarrow> field_idents x y (trailing_zeros m) = (if 0 < m AND SELF_IDENT then x else y)"
  by (auto elim!: ident_okE simp: field_idents_def)

text \<open>C35: When each of two field results is sound for its field (an identity bit is set only for an
  argument that equals it), a field result \<open>None\<close> whose field \<open>self\<close> does not have is one the other
  argument does not have either (as in a join, where only two absent fields give \<open>None\<close>), and not both are
  \<open>None\<close>, the merged result stands for the pair of the two fields' values.\<close>

theorem merge_result_sound:
  assumes ok: "ident_ok (=) a1 b1 r1" "ident_ok (=) a2 b2 r2"
    and absent: "r1 = RNone \<Longrightarrow> a1 = None \<Longrightarrow> b1 = None" "r2 = RNone \<Longrightarrow> a2 = None \<Longrightarrow> b2 = None"
    and both: "\<not> (r1 = RNone \<and> r2 = RNone)"
  shows "resolve (merge_result r1 r2 (field_idents a1 b1) (field_idents a2 b2) pair_element) (a1, a2) (b1, b2)
       = Some (field_value r1 a1 b1, field_value r2 a2 b2)"
proof (cases r1; cases r2)
  fix m n assume I: "r1 = Identity m" "r2 = Identity n"
  note F = field_idents_trailing[OF ok(1)[unfolded I], where x = a1 and y = b1] field_idents_trailing[OF ok(2)[unfolded I], where x = a2 and y = b2]
  show ?thesis
    using ok F unfolding I
    by (elim ident_okE)
      (simp_all add: pair_element_def field_value_def SELF_IDENT_def COUNTER_IDENT_def)
next
  fix n assume I: "r1 = RNone" "r2 = Identity n"
  show ?thesis using ok absent unfolding I
    by (auto simp: field_idents_trailing pair_element_def field_value_def)
next
  fix m assume I: "r1 = Identity m" "r2 = RNone"
  show ?thesis using ok absent unfolding I
    by (auto simp: field_idents_trailing pair_element_def field_value_def)
qed (use ok both in \<open>auto simp: field_idents_trailing pair_element_def field_value_def\<close>)

theorem merge_result_sound_witness:
  "resolve (merge_result (Identity 1) (Element False) (field_idents (Some True) None)
       (field_idents (Some True) (Some False)) pair_element) (Some True, Some True) (None, Some False)
     = Some (Some True, Some False)"
  using merge_result_sound[of "Some True" None "Identity 1" "Some True" "Some False" "Element False"]
  by (simp add: ident_ok_def SELF_IDENT_def field_value_def)

subsection \<open>\<open>join_all\<close>\<close>

text \<open>The reference: joining the arguments one after another.\<close>

fun join_seq :: "('v \<Rightarrow> 'v \<Rightarrow> 'v algebraic_result) \<Rightarrow> 'v option \<Rightarrow> 'v list \<Rightarrow> 'v option" where
  "join_seq pjoin acc [] = acc"
| "join_seq pjoin acc (x # xs) =
     join_seq pjoin (case acc of None \<Rightarrow> Some x | Some a \<Rightarrow> resolve (pjoin a x) a x) xs"

text \<open>What a fat result carries after the arguments \<open>seen\<close>: each mask bit names one of them, and that
  argument is equal to the element.\<close>

definition fat_inv :: "('v \<Rightarrow> 'v \<Rightarrow> bool) \<Rightarrow> 'v list \<Rightarrow> 'v fat_algebraic_result \<Rightarrow> bool" where
  "fat_inv eqv seen r \<longleftrightarrow> (\<forall>j. bit (fat_identity_mask r) j \<longrightarrow>
     j < length seen \<and> (\<exists>v. fat_element r = Some v \<and> eqv v (seen ! j)))"

lemma shl64_one_bit: "i < 64 \<Longrightarrow> bit (shl64 1 i) j \<longleftrightarrow> j = i"
  by (simp add: shl64_def bit_exp_word_iff)

lemma and_counter_bit: "bit (m AND COUNTER_IDENT) k \<longleftrightarrow> k = 1 \<and> bit m 1"
  unfolding COUNTER_IDENT_def bit_and_iff bit_2_word_iff by auto

lemma shl64_counter_bit:
  assumes "0 < i" "i < 64"
  shows "bit (shl64 (m AND COUNTER_IDENT) (i - 1)) j \<longleftrightarrow> j = i \<and> bit m 1"
proof -
  have "(i - 1) mod 64 = i - 1" using assms by simp
  then have "bit (shl64 (m AND COUNTER_IDENT) (i - 1)) j \<longleftrightarrow>
      i - 1 \<le> j \<and> j < 64 \<and> j - (i - 1) = 1 \<and> bit m 1"
    unfolding shl64_def bit_push_bit_iff and_counter_bit by (simp add: possible_bit_word)
  moreover have "i - 1 \<le> j \<and> j < 64 \<and> j - (i - 1) = 1 \<longleftrightarrow> j = i"
    using assms by linarith
  ultimately show ?thesis by blast
qed

lemma ident_both_bits: "ident_ok eqv a b (Identity m) \<Longrightarrow> bit m 0 \<Longrightarrow> bit m 1 \<Longrightarrow> eqv a b"
  by (auto elim!: ident_okE simp: SELF_IDENT_def COUNTER_IDENT_def bit_2_word_iff bit_1_iff)

context lattice_impl
begin

lemma fat_join_element:
  "fat_element (fat_join pjoin r x i) =
      (case fat_element r of None \<Rightarrow> Some x | Some a \<Rightarrow> resolve (pjoin a x) a x)"
  by (auto simp: fat_join_def fat_new_def fat_none_def fat_of_element_def
      split: option.splits algebraic_result.splits)

lemma fat_join_inv:
  assumes inv: "fat_inv eqv seen r" and len: "seen \<noteq> []" "length seen < 64"
  shows "fat_inv eqv (seen @ [x]) (fat_join pjoin r x (length seen))"
proof (cases "fat_element r")
  case None
  then have "fat_identity_mask r = 0"
    using inv by (auto simp: fat_inv_def bit_eq_iff)
  then show ?thesis
    using None len
    by (auto simp: fat_join_def fat_new_def fat_inv_def shl64_one_bit eqv_refl)
next
  case (Some a)
  have old: "j < length seen \<and> eqv a (seen ! j)" if "bit (fat_identity_mask r) j" for j
    using inv that Some by (auto simp: fat_inv_def)
  have pos: "0 < length seen" using len by simp
  show ?thesis
  proof (cases "pjoin a x")
    case (Identity m)
    note both = ident_both_bits[OF pjoin_ident[of a x, unfolded Identity]]
    show ?thesis
      using Some Identity old both
      by (auto simp: fat_join_def fat_new_def fat_inv_def mask_pos_iff bit_or_iff nth_append
          shl64_counter_bit[OF pos len(2), unfolded One_nat_def] eqv_refl
          intro: less_SucI)
  qed (use Some in \<open>auto simp: fat_join_def fat_inv_def fat_none_def fat_of_element_def\<close>)
qed

lemma join_all_loop_inv:
  assumes "fat_inv eqv seen r" "seen \<noteq> []" "length seen + length xs \<le> 64"
  shows "fat_inv eqv (seen @ xs) (join_all_loop pjoin r (length seen) xs) \<and>
    fat_element (join_all_loop pjoin r (length seen) xs) = join_seq pjoin (fat_element r) xs"
  using assms
proof (induction xs arbitrary: seen r)
  case (Cons x xs)
  have "fat_inv eqv (seen @ [x]) (fat_join pjoin r x (length seen))"
    using Cons.prems by (intro fat_join_inv) auto
  from Cons.IH[OF this] Cons.prems show ?case
    by (simp add: fat_join_element)
qed simp

lemma join_all_sound:
  assumes "xs \<noteq> []" "length xs \<le> 64"
  shows "case join_all pjoin xs of
      RNone \<Rightarrow> join_seq pjoin None xs = None
    | Element v \<Rightarrow> join_seq pjoin None xs = Some v
    | Identity m \<Rightarrow> m \<noteq> 0 \<and> (\<forall>j. bit m j \<longrightarrow> j < length xs \<and>
        (\<exists>v. join_seq pjoin None xs = Some v \<and> eqv v (xs ! j)))"
proof -
  obtain x ys where xs: "xs = x # ys" using assms by (cases xs) auto
  let ?r = "fat_new SELF_IDENT (Some x)"
  have "fat_inv eqv [x] ?r"
    by (auto simp: fat_inv_def fat_new_def SELF_IDENT_def bit_1_iff eqv_refl)
  from join_all_loop_inv[OF this, of ys] assms xs
  have inv: "fat_inv eqv xs (join_all_loop pjoin ?r 1 ys)"
    and el: "fat_element (join_all_loop pjoin ?r 1 ys) = join_seq pjoin None xs"
    by (auto simp: fat_new_def)
  show ?thesis
    using inv el unfolding xs
    by (auto simp: from_fat_def fat_inv_def word_neq_0_conv split: option.splits)
qed

end

text \<open>What the boolean operations compute.\<close>

lemma bool_ops_resolve [ring_simps]:
  "resolve (bool_pjoin a b) a b = Some (a \<or> b)"
  "resolve (bool_pmeet a b) a b = Some (a \<and> b)"
  "resolve (bool_psubtract a b) a b = (if a = b then None else Some a)"
  by (auto simp: bool_pjoin_def bool_pmeet_def bool_psubtract_def)

text \<open>C36: For every implementation of the \<open>Lattice\<close> contract, \<open>join_all\<close> over 1 to 64 arguments
  is the sequential join, and every bit of an identity mask it returns names an argument that is
  equal to the join.\<close>

theorem join_all_correct:
  assumes "lattice_impl eqv pjoin pmeet" and "xs \<noteq> []" and "length xs \<le> 64"
  shows "case join_all pjoin xs of
      RNone \<Rightarrow> join_seq pjoin None xs = None
    | Element v \<Rightarrow> join_seq pjoin None xs = Some v
    | Identity m \<Rightarrow> m \<noteq> 0 \<and> (\<forall>j. bit m j \<longrightarrow> j < length xs \<and>
        (\<exists>v. join_seq pjoin None xs = Some v \<and> eqv v (xs ! j)))"
  by (rule lattice_impl.join_all_sound[OF assms])

theorem join_all_correct_witness:
  "join_all bool_pjoin [False, True, False] = Identity 2 \<and> join_seq bool_pjoin None [False, True, False] = Some True"
proof -
  have r: "join_all bool_pjoin [False, True, False] = Identity 2"
    by (simp add: bool_pjoin_def fat_join_def fat_new_def from_fat_def shl64_def
        SELF_IDENT_def COUNTER_IDENT_def)
  have "\<exists>v. join_seq bool_pjoin None [False, True, False] = Some v \<and> v = [False, True, False] ! 1"
    using join_all_correct[OF bool_lattice.lattice_impl_axioms, of "[False, True, False]"]
    unfolding r by (auto simp: bit_2_iff dest!: spec[of _ 1])
  then have "join_seq bool_pjoin None [False, True, False] = Some True" by fastforce
  then show ?thesis using r by blast
qed

lemma join_all_loop_False:
  "join_all_loop bool_pjoin (fat_new SELF_IDENT (Some False)) i (replicate n False @ xs) =
   join_all_loop bool_pjoin (fat_new SELF_IDENT (Some False)) (i + n) xs"
proof (induction n arbitrary: i)
  case (Suc n)
  have "fat_join bool_pjoin (fat_new SELF_IDENT (Some False)) False i = fat_new SELF_IDENT (Some False)"
    by (simp add: fat_join_def fat_new_def bool_pjoin_def shl64_def)
  with Suc show ?case by simp
qed simp

text \<open>C37: The bound is needed.  \<open>join_all\<close> shifts by the argument's index, modulo 64 where overflow is not
  checked.  For every \<open>n\<close> above 64 that is not a multiple of 64, joining \<open>n\<close> times \<open>false\<close> and then
  \<open>true\<close> is reported as identical to the argument of index \<open>n mod 64\<close>, which is \<open>false\<close>, although the join
  is \<open>true\<close>.\<close>

theorem join_all_wide_mask:
  assumes "64 < n" "n mod 64 \<noteq> 0"
  shows "\<exists>m. join_all bool_pjoin (replicate n False @ [True]) = Identity m \<and> (\<forall>j. bit m j \<longleftrightarrow> j = n mod 64) \<and>
    join_seq bool_pjoin None (replicate n False @ [True]) = Some True \<and>
    (replicate n False @ [True]) ! (n mod 64) = False"
proof -
  obtain k where n: "n = Suc k" using assms(1) by (cases n) auto
  have k: "k mod 64 = n mod 64 - 1" "k mod 64 < 63"
    using assms(2) mod_Suc[of k 64] unfolding n by (auto split: if_splits)
  let ?m = "shl64 COUNTER_IDENT k"
  have bits: "bit ?m j \<longleftrightarrow> j = n mod 64" for j
  proof -
    have "bit COUNTER_IDENT i \<longleftrightarrow> i = 1" for i
      by (auto simp: COUNTER_IDENT_def bit_2_iff possible_bit_word)
    then have "bit ?m j \<longleftrightarrow> k mod 64 \<le> j \<and> j < 64 \<and> j - k mod 64 = 1"
      by (auto simp: shl64_def bit_push_bit_iff possible_bit_word)
    moreover have "n mod 64 = Suc (k mod 64)" using k assms(2) by simp
    ultimately show ?thesis using k(2) by linarith
  qed
  then have pos: "0 < ?m" by (metis bit_0_eq bot_fun_def bot_bool_def word_neq_0_conv)
  have "fat_join bool_pjoin (fat_new SELF_IDENT (Some False)) True n = fat_new ?m (Some True)"
    by (simp add: fat_join_def fat_new_def bool_pjoin_def n)
  then have "join_all bool_pjoin (replicate n False @ [True]) = Identity ?m"
    unfolding n replicate.simps append.simps join_all.simps join_all_loop_False join_all_loop.simps
    using pos by (simp add: from_fat_def) (simp add: fat_new_def)
  moreover have "join_seq bool_pjoin (Some False) (replicate i False @ [True]) = Some True" for i
    by (induction i) (simp_all add: bool_pjoin_def)
  then have "join_seq bool_pjoin None (replicate n False @ [True]) = Some True" by (simp add: n)
  moreover have "n mod 64 < n" using assms(1) by (meson less_trans mod_less_divisor zero_less_numeral)
  then have "(replicate n False @ [True]) ! (n mod 64) = False" by (simp add: nth_append)
  ultimately show ?thesis using bits by blast
qed

theorem join_all_wide_mask_witness:
  "\<exists>m. join_all bool_pjoin (replicate 65 False @ [True]) = Identity m \<and> bit m 1 \<and> (replicate 65 False @ [True]) ! 1 = False"
  using join_all_wide_mask[of 65] by auto

subsection \<open>In-place joins\<close>

text \<open>\<open>Option\<close>'s own \<open>join_into\<close> agrees with the default one derived from its \<open>pjoin\<close>, in the
  value left behind and in the returned status.\<close>

theorem option_join_into_default:
  "option_join_into (join_into_default pjoin) a b = join_into_default (option_pjoin pjoin) a b"
proof (cases "(pjoin, a, b)" rule: option_pjoin.cases)
  case (4 p l r)
  then show ?thesis
    by (cases "pjoin l r") (auto simp: join_into_default_def)
qed (auto simp: join_into_default_def)

text \<open>Swapping the arguments and inverting the identity bits gives the same element, for every
  implementation of the contract.\<close>

theorem invert_identity_swap:
  assumes "lattice_impl eqv pjoin pmeet"
  shows "rel_option eqv (resolve (invert_identity (pmeet a b)) b a) (resolve (pmeet a b) a b)"
  by (rule lattice_impl.invert_identity_resolve[OF assms lattice_impl.pmeet_ident[OF assms]])

theorem invert_identity_swap_witness:
  "rel_option (=) (resolve (invert_identity (bool_pmeet True False)) False True) (Some False)"
  using invert_identity_swap[OF bool_lattice.lattice_impl_axioms, of True False]
  by (simp add: bool_pmeet_def)

end
