(* ===== verification/Byte_Mask_Search.thy ===== *)
theory Byte_Mask_Search
  imports Byte_Mask
begin

text \<open>
  The searches of \<open>ByteMask\<close> (\<open>src/utils/mod.rs\<close>) against a reference: the ascending list
  \<open>bits m\<close> of the set positions.  \<open>index_of\<close> is the length of its part below a byte,
  \<open>indexed_bit\<close> its \<open>n\<close>th element from either end, \<open>next_bit\<close> and \<open>prev_bit\<close> the nearest
  element above and below; the constructors from ranges set exactly the range.
\<close>

subsection \<open>Words and their bit lists\<close>

definition word_bits :: "u64 \<Rightarrow> nat list" where
  "word_bits w = filter (bit w) [0..<64]"

definition rank :: "byte_mask \<Rightarrow> nat \<Rightarrow> nat" where
  "rank m n = length (filter (mbit m) [0..<n])"

lemma set_word_bits [simp]: "set (word_bits w) = {i. bit w i}"
  by (auto simp: word_bits_def dest: bit_imp_le_length)

lemma word_bits_sorted [simp]: "sorted (word_bits w)" "distinct (word_bits w)"
  by (simp_all add: word_bits_def sorted_wrt_filter)

lemma length_word_bits: "length (word_bits w) = count_ones w"
  by (simp add: word_bits_def count_ones_def)

lemma word_bits_nil_iff: "word_bits w = [] \<longleftrightarrow> w = 0"
  by (auto simp: word_bits_def filter_empty_conv bit_eq_iff)

lemma bit_clear_pow: "bit (w :: u64) i \<Longrightarrow> bit (w XOR 2 ^ i) j \<longleftrightarrow> bit w j \<and> j \<noteq> i"
  using bit_imp_le_length[of w i] by (auto simp: bit_xor_iff bit_pow_u64)

lemma word_bits_low:
  assumes "w \<noteq> 0"
  shows "word_bits w = trailing_zeros w # word_bits (w XOR 2 ^ trailing_zeros w)"
proof (rule sorted_distinct_set_unique)
  let ?t = "trailing_zeros w"
  have t: "bit w ?t"
    using assms trailing_zeros_bit[of w] trailing_zeros_less_iff[of w] by simp
  show "sorted (?t # word_bits (w XOR 2 ^ ?t))" "distinct (?t # word_bits (w XOR 2 ^ ?t))"
    using t by (auto simp: bit_clear_pow dest: trailing_zeros_least)
  show "set (word_bits w) = set (?t # word_bits (w XOR 2 ^ ?t))"
    using t by (auto simp: bit_clear_pow)
qed simp_all

lemma word_bits_high:
  fixes w :: u64
  assumes "w \<noteq> 0"
  shows "word_bits w = word_bits (w XOR 2 ^ (63 - leading_zeros w)) @ [63 - leading_zeros w]"
proof (rule sorted_distinct_set_unique)
  let ?t = "63 - leading_zeros w"
  have t: "bit w ?t"
    using assms leading_zeros_bit[of w] leading_zeros_less_iff[of w] by simp
  have g: "i \<le> ?t" if "bit w i" for i
    using leading_zeros_greatest[OF that] by simp
  show "sorted (word_bits (w XOR 2 ^ ?t) @ [?t])" "distinct (word_bits (w XOR 2 ^ ?t) @ [?t])"
    using t g by (auto simp: bit_clear_pow sorted_append)
  show "set (word_bits w) = set (word_bits (w XOR 2 ^ ?t) @ [?t])"
    using t by (auto simp: bit_clear_pow)
qed simp_all

subsection \<open>Splitting the positions into words\<close>

lemma filter_word:
  assumes "q < 4" "r \<le> 64"
  shows "filter (mbit m) [64 * q..<64 * q + r] = map (\<lambda>i. 64 * q + i) (filter (bit (word_at m q)) [0..<r])"
proof -
  have "filter (mbit m) [64 * q..<64 * q + r]
      = map (\<lambda>i. 64 * q + i) (filter (mbit m \<circ> (\<lambda>i. 64 * q + i)) [0..<r])"
    by (simp only: upt_shift filter_map)
  also have "filter (mbit m \<circ> (\<lambda>i. 64 * q + i)) [0..<r] = filter (bit (word_at m q)) [0..<r]"
    using assms by (intro filter_cong) (auto simp: mbit_word)
  finally show ?thesis .
qed

lemma rank_0 [simp]: "rank m 0 = 0"
  by (simp add: rank_def)

lemma rank_mono: "a \<le> b \<Longrightarrow> rank m a \<le> rank m b"
  by (simp add: rank_def upt_split[of 0 a b])

lemma rank_le: "rank m n \<le> n"
  unfolding rank_def by (rule order.trans[OF length_filter_le]) simp

lemma rank_word:
  assumes "q < 4" "r \<le> 64"
  shows "rank m (64 * q + r) = rank m (64 * q) + length (filter (bit (word_at m q)) [0..<r])"
  unfolding rank_def upt_add_eq_append[OF zero_le, of "64 * q" r] filter_append length_append
    filter_word[OF assms] length_map ..

lemma rank_next_word: "q < 4 \<Longrightarrow> rank m (64 * (q + 1)) = rank m (64 * q) + count_ones (word_at m q)"
  using rank_word[of q 64 m] unfolding word_bits_def[symmetric] length_word_bits
  by (simp add: add.commute)

lemma length_bits: "length (bits m) = rank m 256"
  by (simp add: bits_def rank_def)

lemma bits_split:
  assumes "q < 4"
  shows "bits m = filter (mbit m) [0..<64 * q] @ map (\<lambda>i. 64 * q + i) (word_bits (word_at m q))
      @ filter (mbit m) [64 * q + 64..<256]"
proof -
  have "[0..<256] = [0..<64 * q] @ [64 * q..<64 * q + 64] @ [64 * q + 64..<256]"
    using assms by (simp add: upt_split[of 0 "64 * q" 256] upt_split[of "64 * q" "64 * q + 64" 256] del: upt_Suc)
  then show ?thesis
    unfolding bits_def by (simp add: filter_word[OF assms] word_bits_def del: upt_Suc)
qed

lemma rank_words:
  "rank m 64 = count_ones (word_at m 0)"
  "rank m 128 = count_ones (word_at m 0) + count_ones (word_at m 1)"
  "rank m 192 = count_ones (word_at m 0) + count_ones (word_at m 1) + count_ones (word_at m 2)"
  "rank m 256 = count_bits m"
  using rank_next_word[of 0 m] rank_next_word[of 1 m] rank_next_word[of 2 m] rank_next_word[of 3 m]
  by (simp_all add: count_bits_def)


lemma rank_byte_less: "rank m (unat (k :: u8)) < 256"
  using rank_le[of m "unat k"] unat_u8_less[of k] by simp

subsection \<open>\<open>index_of\<close>\<close>

lemma unat_to_u8 [simp]: "n < 256 \<Longrightarrow> unat (to_u8 n) = n"
  by (simp add: to_u8_def unat_of_nat take_bit_nat_eq_self)

lemma to_u8_unat [simp]: "to_u8 (unat k) = k"
  by (simp add: to_u8_def)

lemma bit_drop_ones: "j < 64 \<Longrightarrow> bit (drop_bit (63 - j) (NOT 0 :: u64)) i \<longleftrightarrow> i \<le> j"
  by (auto simp: bit_drop_bit_eq bit_NOT_u64 bit_mask_iff possible_bit_word)

lemma bit_push_ones: "bit (push_bit j (NOT 0 :: u64)) i \<longleftrightarrow> j \<le> i \<and> i < 64"
  by (auto simp: bit_push_bit_iff bit_NOT_u64 bit_mask_iff possible_bit_word)

lemma count_ones_low_part:
  assumes "j < 64"
  shows "count_ones (w AND drop_bit (63 - j) (NOT 0 :: u64)) = length (filter (bit w) [0..<j + 1])"
proof -
  let ?P = "\<lambda>i. bit w i \<and> i \<le> j"
  have "word_bits (w AND drop_bit (63 - j) (NOT 0)) = filter ?P [0..<64]"
    unfolding word_bits_def by (intro filter_cong) (auto simp only: bit_and_iff bit_drop_ones[OF assms])
  also have "\<dots> = filter ?P [0..<j + 1] @ filter ?P [j + 1..<64]"
    using assms upt_split[of 0 "j + 1" 64] by (simp del: upt_Suc)
  also have "filter ?P [j + 1..<64] = []"
    by (auto simp: filter_empty_conv)
  also have "filter ?P [0..<j + 1] = filter (bit w) [0..<j + 1]"
    by (intro filter_cong) auto
  finally show ?thesis by (simp add: length_word_bits[symmetric])
qed

lemma index_of_rank: "index_of m b = to_u8 (rank m (unat b))"
proof (cases "b = 0")
  case False
  define n where "n = unat b - 1"
  have n: "unat b = n + 1" "n < 255" "unat (b - 1) = n"
    using False unat_u8_less[of b] unat_eq_zero[of b] unat_minus_one[OF False]
    by (auto simp: n_def)
  define q r where "q = n div 64" and "r = n mod 64"
  have qr: "n = 64 * q + r" "q < 4" "r < 64"
    using n(2) by (auto simp: q_def r_def)
  have part: "count_ones (word_at m q AND drop_bit (63 - r) (NOT 0)) = rank m (n + 1) - rank m (64 * q)"
    using rank_word[of q "r + 1" m] qr count_ones_low_part[of r "word_at m q"] by simp
  have ge: "rank m (64 * q) \<le> rank m (n + 1)"
    using qr by (intro rank_mono) simp
  have msk: "unat ((b - 1) AND 63) = r"
    by (simp add: and_63_mod n(3) r_def)
  have le: "b \<le> 0x40 \<longleftrightarrow> q = 0" "b \<le> 0x80 \<longleftrightarrow> q \<le> 1" "b \<le> 0xc0 \<longleftrightarrow> q \<le> 2"
    unfolding word_le_nat_alt n(1) using qr by auto
  have "q = 0 \<or> q = 1 \<or> q = 2 \<or> q = 3" using qr(2) by auto
  then show ?thesis
    using False part ge rank_words[of m]
    unfolding index_of_def msk le n(1) Let_def
    by (elim disjE) simp_all
qed (simp add: index_of_def to_u8_def)


subsection \<open>\<open>indexed_bit\<close>\<close>

lemma indexed_loc_forward:
  "n < count_ones w \<Longrightarrow> indexed_loc True w n = word_bits w ! n"
proof (induction n arbitrary: w)
  case 0
  then have "w \<noteq> 0" by (auto simp: count_ones_def)
  then show ?case by (subst word_bits_low) simp_all
next
  case (Suc n)
  then have w: "w \<noteq> 0" by (auto simp: count_ones_def)
  let ?w = "w XOR 2 ^ trailing_zeros w"
  have "n < count_ones ?w"
    using Suc.prems word_bits_low[OF w] by (simp add: length_word_bits[symmetric])
  then show ?case
    using Suc.IH[of ?w] word_bits_low[OF w] by simp
qed

lemma indexed_loc_backward:
  "n < count_ones w \<Longrightarrow> indexed_loc False w n = rev (word_bits w) ! n"
proof (induction n arbitrary: w)
  case 0
  then have "w \<noteq> 0" by (auto simp: count_ones_def)
  then show ?case by (subst word_bits_high) simp_all
next
  case (Suc n)
  then have w: "w \<noteq> 0" by (auto simp: count_ones_def)
  let ?w = "w XOR 2 ^ (63 - leading_zeros w)"
  have "n < count_ones ?w"
    using Suc.prems word_bits_high[OF w] by (simp add: length_word_bits[symmetric])
  then show ?case
    using Suc.IH[of ?w] word_bits_high[OF w] by simp
qed

lemma byte_of_word:
  assumes "i < 4" "r < 64"
  shows "push_bit 6 i OR r = 64 * i + (r :: nat)"
proof -
  have "push_bit 6 i OR r = push_bit 6 i + r"
  proof (rule disjunctive_add[symmetric])
    have "take_bit 6 r = r" using assms(2) by (simp add: take_bit_nat_eq_self)
    then show "\<not> bit (push_bit 6 i) n \<or> \<not> bit r n" for n
      by (metis bit_push_bit_iff bit_take_bit_iff linorder_not_less)
  qed
  then show ?thesis by (simp add: push_bit_eq_mult mult.commute)
qed


text \<open>Forwards, the word found is the one whose ranks enclose \<open>idx\<close>; backwards the same with the
  ranks counted from the top.\<close>

lemma indexed_word_forward:
  assumes "i < 4" "rank bm (64 * i) \<le> idx"
  shows "(rank bm 256 \<le> idx \<and> indexed_word True bm idx i (rank bm (64 * i)) (rank bm (64 * (i + 1))) = None)
    \<or> (\<exists>j < 4. indexed_word True bm idx i (rank bm (64 * i)) (rank bm (64 * (i + 1))) = Some (j, rank bm (64 * j))
         \<and> rank bm (64 * j) \<le> idx \<and> idx < rank bm (64 * (j + 1)))"
  using assms
proof (induction "4 - i" arbitrary: i)
  case (Suc d)
  have nxt: "rank bm (64 * (i + 1)) + count_ones (word_at bm (i + 1)) = rank bm (64 * (i + 1 + 1))" if "i < 3"
    using rank_next_word[of "i + 1" bm] that by simp
  consider "idx < rank bm (64 * (i + 1))" | "\<not> idx < rank bm (64 * (i + 1))" "i = 3"
    | "\<not> idx < rank bm (64 * (i + 1))" "i < 3"
    using Suc.prems by linarith
  then show ?case
  proof cases
    case 3
    then show ?thesis
      using Suc.hyps(1)[of "i + 1"] Suc.hyps(2) nxt by (subst (1 2) indexed_word.simps) auto
  qed (use Suc.prems in \<open>subst (1 2) indexed_word.simps, auto\<close>)+
qed simp

lemma indexed_word_backward:
  assumes "i < 4" "rank bm 256 - rank bm (64 * (i + 1)) \<le> idx"
  shows "(rank bm 256 \<le> idx \<and>
      indexed_word False bm idx i (rank bm 256 - rank bm (64 * (i + 1))) (rank bm 256 - rank bm (64 * i)) = None)
    \<or> (\<exists>j < 4. indexed_word False bm idx i (rank bm 256 - rank bm (64 * (i + 1))) (rank bm 256 - rank bm (64 * i))
           = Some (j, rank bm 256 - rank bm (64 * (j + 1)))
         \<and> rank bm 256 - rank bm (64 * (j + 1)) \<le> idx \<and> idx < rank bm 256 - rank bm (64 * j))"
  using assms
proof (induction i)
  case 0
  then show ?case by (subst (1 2) indexed_word.simps) auto
next
  case (Suc i)
  have nxt: "rank bm 256 - rank bm (64 * Suc i) + count_ones (word_at bm i) = rank bm 256 - rank bm (64 * i)"
    using rank_next_word[of i bm] Suc.prems(1) rank_mono[of "64 * Suc i" 256 bm] by simp
  consider "idx < rank bm 256 - rank bm (64 * Suc i)" | "\<not> idx < rank bm 256 - rank bm (64 * Suc i)"
    by linarith
  then show ?case
  proof cases
    case 2
    then show ?thesis
      using Suc nxt by (subst (1 2) indexed_word.simps) auto
  qed (use Suc.prems in \<open>subst (1 2) indexed_word.simps, auto\<close>)
qed

lemma nth_bits_word:
  assumes "j < 4" "n < count_ones (word_at m j)"
  shows "bits m ! (rank m (64 * j) + n) = 64 * j + word_bits (word_at m j) ! n"
  using assms bits_split[OF assms(1), of m]
  by (simp add: nth_append rank_def length_word_bits)

lemma word_bits_nth_less: "n < count_ones w \<Longrightarrow> word_bits w ! n < 64"
  using nth_mem[of n "word_bits w"] by (auto simp: length_word_bits simp del: nth_mem dest: bit_imp_le_length)

lemma indexed_bit_forward:
  "indexed_bit True m n = (if n < length (bits m) then Some (to_u8 (bits m ! n)) else None)"
proof -
  have w0: "indexed_word True m n 0 0 (count_ones (word_at m 0)) = indexed_word True m n 0 (rank m (64 * 0)) (rank m (64 * (0 + 1)))"
    using rank_words(1)[of m] by simp
  from indexed_word_forward[of 0 m n] consider
    (none) "rank m 256 \<le> n" "indexed_word True m n 0 0 (count_ones (word_at m 0)) = None"
    | (some) j where "j < 4" "indexed_word True m n 0 0 (count_ones (word_at m 0)) = Some (j, rank m (64 * j))"
        "rank m (64 * j) \<le> n" "n < rank m (64 * (j + 1))"
    unfolding w0 by auto
  then show ?thesis
  proof cases
    case some
    let ?k = "n - rank m (64 * j)"
    have k: "?k < count_ones (word_at m j)" using some rank_next_word[of j m] by simp
    have "n < length (bits m)"
      using some rank_mono[of "64 * (j + 1)" 256 m] by (simp add: length_bits)
    then show ?thesis
      using some nth_bits_word[OF some(1) k] indexed_loc_forward[OF k] word_bits_nth_less[OF k]
      by (simp add: indexed_bit_def byte_of_word)
  qed (simp add: indexed_bit_def length_bits)
qed

lemma indexed_bit_backward:
  "indexed_bit False m n = (if n < length (bits m) then Some (to_u8 (rev (bits m) ! n)) else None)"
proof -
  have w0: "indexed_word False m n 3 0 (count_ones (word_at m 3))
      = indexed_word False m n 3 (rank m 256 - rank m (64 * (3 + 1))) (rank m 256 - rank m (64 * 3))"
    using rank_next_word[of 3 m] by simp
  from indexed_word_backward[of 3 m n] consider
    (none) "rank m 256 \<le> n" "indexed_word False m n 3 0 (count_ones (word_at m 3)) = None"
    | (some) j where "j < 4" "indexed_word False m n 3 0 (count_ones (word_at m 3)) = Some (j, rank m 256 - rank m (64 * (j + 1)))"
        "rank m 256 - rank m (64 * (j + 1)) \<le> n" "n < rank m 256 - rank m (64 * j)"
    unfolding w0 by auto
  then show ?thesis
  proof cases
    case some
    let ?k = "n - (rank m 256 - rank m (64 * (j + 1)))" and ?c = "count_ones (word_at m j)"
    have le: "rank m (64 * (j + 1)) \<le> rank m 256" using some(1) by (intro rank_mono) simp
    have nx: "rank m (64 * (j + 1)) = rank m (64 * j) + ?c" by (rule rank_next_word[OF some(1)])
    have k: "?k < ?c" using some(3,4) nx le by linarith
    have n: "n < length (bits m)" using some(4) by (simp add: length_bits)
    have ix: "rank m 256 - Suc n = rank m (64 * j) + (?c - Suc ?k)"
      using some(3,4) nx le by linarith
    have "rev (bits m) ! n = 64 * j + word_bits (word_at m j) ! (?c - Suc ?k)"
      using n k nth_bits_word[OF some(1), of "?c - Suc ?k" m] by (simp add: rev_nth length_bits ix)
    moreover have "word_bits (word_at m j) ! (?c - Suc ?k) < 64"
      using k by (intro word_bits_nth_less) simp
    ultimately show ?thesis
      using some n k indexed_loc_backward[OF k]
      by (simp add: indexed_bit_def rev_nth length_word_bits byte_of_word)
  qed (simp add: indexed_bit_def length_bits)
qed


subsection \<open>\<open>next_bit\<close> and \<open>prev_bit\<close>\<close>

lemma find_filter: "find P xs = (if filter P xs = [] then None else Some (hd (filter P xs)))"
  by (induction xs) auto

lemma find_rev_filter: "find P (rev xs) = (if filter P xs = [] then None else Some (last (filter P xs)))"
  by (simp add: find_filter rev_filter[symmetric] hd_rev)

lemma filter_map_word:
  assumes "q < 4" "b \<le> 64"
  shows "filter (mbit m) [64 * q + a..<64 * q + b] = map (\<lambda>i. 64 * q + i) (filter (bit (word_at m q)) [a..<b])"
proof -
  have "map (\<lambda>i. 64 * q + i) [a..<b] = [64 * q + a..<64 * q + b]"
    by (induction b) auto
  then have "filter (mbit m) [64 * q + a..<64 * q + b] = map (\<lambda>i. 64 * q + i) (filter (mbit m \<circ> (\<lambda>i. 64 * q + i)) [a..<b])"
    by (metis filter_map)
  also have "filter (mbit m \<circ> (\<lambda>i. 64 * q + i)) [a..<b] = filter (bit (word_at m q)) [a..<b]"
    using assms by (intro filter_cong) (auto simp: mbit_word)
  finally show ?thesis .
qed

lemma filter_word_above:
  assumes "lo \<le> 64"
  shows "filter (bit w) [lo..<64] = word_bits (w AND push_bit lo (NOT 0))"
proof -
  let ?P = "\<lambda>i. bit w i \<and> lo \<le> i"
  have "word_bits (w AND push_bit lo (NOT 0)) = filter ?P [0..<64]"
    unfolding word_bits_def by (intro filter_cong) (auto simp only: bit_and_iff bit_push_ones set_upt atLeastLessThan_iff)
  also have "\<dots> = filter ?P [0..<lo] @ filter ?P [lo..<64]"
    using assms upt_split[of 0 lo 64] by (simp del: upt_Suc)
  also have "filter ?P [0..<lo] = []"
    by (auto simp: filter_empty_conv)
  also have "filter ?P [lo..<64] = filter (bit w) [lo..<64]"
    by (intro filter_cong) auto
  finally show ?thesis by simp
qed

lemma filter_word_below:
  assumes "hi < 64"
  shows "filter (bit w) [0..<hi + 1] = word_bits (w AND drop_bit (63 - hi) (NOT 0))"
proof -
  let ?P = "\<lambda>i. bit w i \<and> i \<le> hi"
  have "word_bits (w AND drop_bit (63 - hi) (NOT 0)) = filter ?P [0..<64]"
    unfolding word_bits_def by (intro filter_cong) (auto simp only: bit_and_iff bit_drop_ones[OF assms])
  also have "\<dots> = filter ?P [0..<hi + 1] @ filter ?P [hi + 1..<64]"
    using assms upt_split[of 0 "hi + 1" 64] by (simp del: upt_Suc)
  also have "filter ?P [hi + 1..<64] = []"
    by (auto simp: filter_empty_conv)
  also have "filter ?P [0..<hi + 1] = filter (bit w) [0..<hi + 1]"
    by (intro filter_cong) auto
  finally show ?thesis by simp
qed


lemma hd_word_bits:
  "(if map f (word_bits w) = [] then None else Some (hd (map f (word_bits w))))
   = (if trailing_zeros w < 64 then Some (f (trailing_zeros w)) else None)"
proof (cases "w = 0")
  case False
  have "hd (word_bits w) = trailing_zeros w"
    by (simp add: word_bits_low[OF False])
  then show ?thesis
    using False trailing_zeros_less_iff[of w] by (simp add: word_bits_nil_iff hd_map)
qed (use trailing_zeros_less_iff[of w] in \<open>simp add: word_bits_nil_iff\<close>)

lemma last_word_bits:
  "(if map f (word_bits w) = [] then None else Some (last (map f (word_bits w))))
   = (if leading_zeros w < 64 then Some (f (63 - leading_zeros w)) else None)"
proof (cases "w = 0")
  case False
  have "last (word_bits w) = 63 - leading_zeros w"
    by (simp add: word_bits_high[OF False])
  then show ?thesis
    using False leading_zeros_less_iff[of w] by (simp add: word_bits_nil_iff last_map)
qed (use leading_zeros_less_iff[of w] in \<open>simp add: word_bits_nil_iff\<close>)

lemma find_word_above:
  assumes "q < 4" "lo \<le> 64"
  shows "find (mbit m) [64 * q + lo..<64 * (q + 1)] =
    (let cnt = trailing_zeros (word_at m q AND push_bit lo (NOT 0))
     in if cnt < 64 then Some (64 * q + cnt) else None)"
proof -
  have "filter (mbit m) [64 * q + lo..<64 * (q + 1)]
      = map (\<lambda>i. 64 * q + i) (word_bits (word_at m q AND push_bit lo (NOT 0)))"
    using filter_map_word[of q 64 m lo] assms filter_word_above[of lo "word_at m q"]
    by (simp add: add.commute)
  then show ?thesis
    unfolding find_filter Let_def by (simp only: hd_word_bits)
qed

lemma diff_shift:
  "(if c < 64 then Some (k + (63 - c)) else None) = (if c < 64 then Some (k + 63 - c) else (None :: nat option))"
  by auto

lemma find_word_below:
  assumes "q < 4" "hi < 64"
  shows "find (mbit m) (rev [64 * q..<64 * q + (hi + 1)]) =
    (let cnt = leading_zeros (word_at m q AND drop_bit (63 - hi) (NOT 0))
     in if cnt < 64 then Some (64 * q + 63 - cnt) else None)"
proof -
  have "filter (mbit m) [64 * q..<64 * q + (hi + 1)]
      = map (\<lambda>i. 64 * q + i) (word_bits (word_at m q AND drop_bit (63 - hi) (NOT 0)))"
    using filter_map_word[of q "hi + 1" m 0, unfolded filter_word_below[OF assms(2)]] assms
    by (simp only: add_0_right Suc_leI Suc_eq_plus1[symmetric])
  then show ?thesis
    unfolding find_rev_filter Let_def by (simp only: last_word_bits diff_shift)
qed

text \<open>The words above (below) the one the search starts in are searched whole.\<close>

definition find_up :: "byte_mask \<Rightarrow> nat \<Rightarrow> u64 \<Rightarrow> nat option" where
  "find_up m q w = (let cnt = trailing_zeros (word_at m q AND w) in if cnt < 64 then Some (64 * q + cnt) else None)"

definition find_down :: "byte_mask \<Rightarrow> nat \<Rightarrow> u64 \<Rightarrow> nat option" where
  "find_down m q w = (let cnt = leading_zeros (word_at m q AND w) in if cnt < 64 then Some (64 * q + 63 - cnt) else None)"

fun or_else_opt :: "'a option \<Rightarrow> 'a option \<Rightarrow> 'a option" where
  "or_else_opt (Some x) y = Some x"
| "or_else_opt None y = y"

lemma find_append_opt: "find P (xs @ ys) = or_else_opt (find P xs) (find P ys)"
  by (induction xs) auto

lemma find_from:
  assumes "q < 4" "lo \<le> 64"
  shows "find (mbit m) [64 * q + lo..<256] = or_else_opt (find_up m q (push_bit lo (NOT 0))) (find (mbit m) [64 * (q + 1)..<256])"
proof -
  have "[64 * q + lo..<256] = [64 * q + lo..<64 * (q + 1)] @ [64 * (q + 1)..<256]"
    using assms by (intro upt_split) simp_all
  then show ?thesis
    using find_word_above[OF assms, of m] by (simp only: find_append_opt find_up_def)
qed

lemma find_to:
  assumes "q < 4" "hi < 64"
  shows "find (mbit m) (rev [0..<64 * q + (hi + 1)]) = or_else_opt (find_down m q (drop_bit (63 - hi) (NOT 0))) (find (mbit m) (rev [0..<64 * q]))"
proof -
  have "rev [0..<64 * q + (hi + 1)] = rev [64 * q..<64 * q + (hi + 1)] @ rev [0..<64 * q]"
    using assms upt_split[of 0 "64 * q" "64 * q + (hi + 1)"] by simp
  then show ?thesis
    using find_word_below[OF assms, of m] by (simp only: find_append_opt find_down_def)
qed

lemma find_up_whole:
  "find (mbit m) [64..<256] = or_else_opt (find_up m 1 (NOT 0)) (find (mbit m) [128..<256])"
  "find (mbit m) [128..<256] = or_else_opt (find_up m 2 (NOT 0)) (find (mbit m) [192..<256])"
  "find (mbit m) [192..<256] = find_up m 3 (NOT 0)"
  using find_from[of 1 0 m] find_from[of 2 0 m] find_from[of 3 0 m]
  by (simp_all del: upt_rec_numeral upt_Suc) (cases "find_up m 3 (- 1)"; simp)

lemma find_down_whole:
  "find (mbit m) (rev [0..<192]) = or_else_opt (find_down m 2 (NOT 0)) (find (mbit m) (rev [0..<128]))"
  "find (mbit m) (rev [0..<128]) = or_else_opt (find_down m 1 (NOT 0)) (find (mbit m) (rev [0..<64]))"
  "find (mbit m) (rev [0..<64]) = find_down m 0 (NOT 0)"
  using find_to[of 2 63 m] find_to[of 1 63 m] find_to[of 0 63 m]
  by (simp_all del: upt_rec_numeral upt_Suc) (cases "find_down m 0 (- 1)"; simp)

lemma word_idx_cases:
  assumes "unat (b :: u8) = 64 * q + lo" "lo < 64"
  shows "drop_bit 6 b = word_of_nat q" "unat (b AND 63) = lo" "q < 4"
proof -
  show "q < 4" using assms unat_u8_less[of b] by simp
  have "drop_bit 6 b = word_of_nat (unat (b div 64))"
    by (simp add: drop_6_div del: unat_div_64)
  then show "drop_bit 6 b = word_of_nat q" using assms by simp
  show "unat (b AND 63) = lo" using assms by (simp add: and_63_mod)
qed

lemma or_else_if:
  "map_option f (or_else_opt (find_up m q w) y) =
    (let cnt = trailing_zeros (word_at m q AND w) in if cnt < 64 then Some (f (64 * q + cnt)) else map_option f y)"
  "map_option f (or_else_opt (find_down m q w) y) =
    (let cnt = leading_zeros (word_at m q AND w) in if cnt < 64 then Some (f (64 * q + 63 - cnt)) else map_option f y)"
  "map_option f (find_up m q w) =
    (let cnt = trailing_zeros (word_at m q AND w) in if cnt < 64 then Some (f (64 * q + cnt)) else None)"
  "map_option f (find_down m q w) =
    (let cnt = leading_zeros (word_at m q AND w) in if cnt < 64 then Some (f (64 * q + 63 - cnt)) else None)"
  by (auto simp: find_up_def find_down_def Let_def)

lemma next_bit_find: "next_bit m b = map_option to_u8 (find (mbit m) [unat b + 1..<256])"
proof (cases "b = 255")
  case False
  define n where "n = unat b + 1"
  have "unat b \<noteq> unat (255 :: u8)" using False by (metis to_u8_unat)
  then have n: "n < 256" "unat (b + 1) = n"
    using unat_u8_less[of b] by (auto simp: n_def unat_word_ariths)
  define q lo where "q = n div 64" and "lo = n mod 64"
  have qr: "unat (b + 1) = 64 * q + lo" "n = 64 * q + lo" "q < 4" "lo < 64"
    using n by (auto simp: q_def lo_def)
  note w = word_idx_cases[OF qr(1,4)]
  have "q = 0 \<or> q = 1 \<or> q = 2 \<or> q = 3" using qr(3) by auto
  then have "next_bit m b = map_option to_u8 (find (mbit m) [64 * q + lo..<256])"
    unfolding find_from[OF qr(3) less_imp_le[OF qr(4)]] next_bit_def w(1,2) Let_def
    using False find_up_whole[of m]
    by (elim disjE) (simp_all add: or_else_if Let_def del: upt_rec_numeral upt_Suc push_bit_minus_one)
  then show ?thesis unfolding n_def[symmetric] qr(2) .
qed (simp add: next_bit_def)

lemma prev_bit_find: "prev_bit m b = map_option to_u8 (find (mbit m) (rev [0..<unat b]))"
proof (cases "b = 0")
  case False
  define n where "n = unat b - 1"
  have n: "unat b = n + 1" "n < 255" "unat (b - 1) = n"
    using False unat_u8_less[of b] unat_eq_zero[of b] unat_minus_one[OF False]
    by (auto simp: n_def)
  define q hi where "q = n div 64" and "hi = n mod 64"
  have qr: "unat (b - 1) = 64 * q + hi" "n + 1 = 64 * q + (hi + 1)" "q < 4" "hi < 64"
    using n by (auto simp: q_def hi_def)
  note w = word_idx_cases[OF qr(1,4)]
  have "q = 0 \<or> q = 1 \<or> q = 2 \<or> q = 3" using qr(3) by auto
  then have "prev_bit m b = map_option to_u8 (find (mbit m) (rev [0..<64 * q + (hi + 1)]))"
    unfolding find_to[OF qr(3,4)] prev_bit_def w(1,2) Let_def
    using False find_down_whole[of m]
    by (elim disjE) (simp_all add: or_else_if Let_def del: upt_rec_numeral upt_Suc drop_bit_minus_one)
  then show ?thesis unfolding n(1) qr(2) .
qed (simp add: prev_bit_def)


subsection \<open>Inclusive ranges\<close>

lemma drop_2_NOT_0: "drop_bit 2 (NOT 0 :: u8) = 63"
  by (simp add: mask_eq_exp_minus_1)

lemma range_block_fields:
  "block_start (block_range_new s e) = s div 64" "block_end (block_range_new s e) = e div 64"
  "bit_start (block_range_new s e) = s mod 64" "bit_end (block_range_new s e) = e mod 64"
  unfolding block_range_new_def drop_2_NOT_0 by (simp_all add: drop_6_div and_63_mod)

lemma bit_u64_block:
  assumes "n < 4" "r < 64"
  shows "bit (u64_block (block_range_new s e) (word_of_nat n)) r \<longleftrightarrow>
    unat s \<le> 64 * n + r \<and> 64 * n + r \<le> unat e"
proof -
  have un: "unat (word_of_nat n :: u8) = n"
    using assms by (simp add: unat_of_nat take_bit_nat_eq_self)
  have s: "unat s = 64 * (unat s div 64) + unat s mod 64" and e: "unat e = 64 * (unat e div 64) + unat e mod 64"
    by simp_all
  have c: "word_of_nat n < s div 64 \<longleftrightarrow> n < unat s div 64" "e div 64 < word_of_nat n \<longleftrightarrow> unat e div 64 < n"
    "word_of_nat n = s div 64 \<longleftrightarrow> n = unat s div 64" "word_of_nat n = e div 64 \<longleftrightarrow> n = unat e div 64"
    by (simp_all add: word_less_nat_alt un word_unat_eq_iff)
  have h: "unat (63 - e mod 64) = 63 - unat e mod 64"
    by (subst unat_sub) (simp_all add: word_le_nat_alt less_Suc_eq_le[symmetric])
  define sq sr eq er where d: "sq = unat s div 64" "sr = unat s mod 64" "eq = unat e div 64" "er = unat e mod 64"
  have lt: "sr < 64" "er < 64" by (simp_all add: d)
  have m: "unat (s mod 64) = sr" "unat (63 - e mod 64) = 63 - er" by (simp_all add: d h)
  have block: "u64_block (block_range_new s e) (word_of_nat n) =
    (if n < sq \<or> eq < n then 0 else push_bit (if n = sq then sr else 0) (NOT 0) AND
       drop_bit (63 - (if n = eq then er else 63)) (NOT 0))"
    unfolding u64_block_def range_block_fields c Let_def d[symmetric]
    by (simp add: m d(1-3)[symmetric] h d(4)[symmetric] if_distrib[of unat] del: push_bit_minus_one drop_bit_minus_one cong: if_cong)
  have "(if n = eq then er else 63) < 64" using lt by simp
  then have bits: "bit (push_bit (if n = sq then sr else 0) (NOT 0) AND
       drop_bit (63 - (if n = eq then er else 63)) (NOT 0 :: u64)) r
     \<longleftrightarrow> ((if n = sq then sr else 0) \<le> r \<and> r < 64) \<and> r \<le> (if n = eq then er else 63)"
    by (simp only: bit_and_iff bit_drop_ones bit_push_ones)
  have "unat s \<le> 64 * n + r \<longleftrightarrow> \<not> n < sq \<and> (n = sq \<longrightarrow> sr \<le> r)"
    using s[folded d] lt assms(2) by auto
  moreover have "64 * n + r \<le> unat e \<longleftrightarrow> \<not> eq < n \<and> (n = eq \<longrightarrow> r \<le> er)"
    using e[folded d] lt assms(2) by auto
  ultimately show ?thesis
    using bits assms(2) unfolding block by (auto simp del: push_bit_minus_one drop_bit_minus_one split: if_splits)
qed

lemma mbit_range_blocks:
  "mbit (range_blocks s e) n \<longleftrightarrow> unat s \<le> n \<and> n \<le> unat e"
proof (cases "n < 256")
  case True
  define q r where "q = n div 64" and "r = n mod 64"
  have qr: "n = 64 * q + r" "q < 4" "r < 64" using True by (auto simp: q_def r_def)
  have "word_at (range_blocks s e) q = u64_block (block_range_new s e) (word_of_nat q)"
    using qr(2) by (auto simp: range_blocks_def Let_def less_Suc_eq numeral_eq_Suc)
  then show ?thesis
    using bit_u64_block[OF qr(2,3), of s e] mbit_word[OF qr(2,3), of "range_blocks s e"] qr(1) by simp
next
  case False
  then show ?thesis using unat_u8_less[of e] by (auto simp: mbit_def)
qed

lemma mbit_inclusive_ranges [mask_simps]:
  "mbit (set_inclusive_bit_range m s e) n \<longleftrightarrow> mbit m n \<or> unat s \<le> n \<and> n \<le> unat e"
  "mbit (clear_inclusive_bit_range m s e) n \<longleftrightarrow> mbit m n \<and> \<not> (unat s \<le> n \<and> n \<le> unat e)"
  "mbit (toggle_inclusive_bit_range m s e) n \<longleftrightarrow> mbit m n \<noteq> (unat s \<le> n \<and> n \<le> unat e)"
  unfolding set_inclusive_bit_range_def clear_inclusive_bit_range_def toggle_inclusive_bit_range_def
    mask_or_def[symmetric] mask_andn_def[symmetric] mask_xor_def[symmetric]
  by (simp_all add: mask_simps mbit_range_blocks)

subsection \<open>\<open>from_range\<close> and \<open>subset\<close>\<close>

lemma mbit_fold_full:
  assumes "\<forall>w \<in> set ws. w < 4"
  shows "mbit (fold (\<lambda>w m. word_set m w (NOT 0)) ws m) n \<longleftrightarrow> (if n div 64 \<in> set ws then True else mbit m n)"
  using assms
proof (induction ws arbitrary: m)
  case (Cons w ws)
  have "bit (NOT 0 :: u64) (n mod 64)" by (simp only: bit_NOT_u64) simp
  then show ?case using Cons by (auto simp: mbit_word_set)
qed simp

lemma mbit_from_range:
  "mbit (from_range sb eb) n \<longleftrightarrow> start_of_bound sb \<le> n \<and> n < end_of_bound eb"
proof -
  define s e where "s = start_of_bound sb" and "e = end_of_bound eb - 1"
  have e256: "end_of_bound eb \<le> 256"
    by (cases eb) (use unat_u8_less in \<open>auto simp: Suc_le_eq less_imp_le\<close>)
  show ?thesis
  proof (cases "end_of_bound eb \<le> s")
    case True
    then show ?thesis by (simp add: from_range_def s_def)
  next
    case False
    then have e: "end_of_bound eb = e + 1" "s \<le> e" "e < 256"
      using e256 by (auto simp: e_def)
    define sq sr eq er where d: "sq = s div 64" "sr = s mod 64" "eq = e div 64" "er = e mod 64"
    have se: "s = 64 * sq + sr" "e = 64 * eq + er" "sr < 64" "er < 64" "sq < 4" "eq < 4"
      using e by (auto simp: d)
    define q r where "q = n div 64" and "r = n mod 64"
    have qr: "n = 64 * q + r" "r < 64" by (simp_all add: q_def r_def)
    have spec: "s \<le> n \<and> n < e + 1 \<longleftrightarrow> sq \<le> q \<and> q \<le> eq \<and> (q = sq \<longrightarrow> sr \<le> r) \<and> (q = eq \<longrightarrow> r \<le> er)"
      using se qr by auto
    show ?thesis
    proof (cases "sq = eq")
      case True
      then have le: "sr \<le> er" using e(2) se by simp
      have "from_range sb eb = word_set EMPTY sq (push_bit sr (drop_bit (64 - (er - sr + 1)) (NOT 0)))"
        unfolding from_range_def s_def[symmetric] e(1) Let_def
        using e(2) True by (simp add: d EMPTY_def u64_MAX_def)
      moreover have "bit (push_bit sr (drop_bit (64 - (er - sr + 1)) (NOT 0 :: u64))) r \<longleftrightarrow> sr \<le> r \<and> r \<le> er"
        using le se qr by (auto simp: bit_push_bit_iff bit_drop_bit_eq bit_NOT_u64 bit_mask_iff possible_bit_word)
      ultimately show ?thesis
        unfolding s_def[symmetric] e(1) spec
        using se True by (auto simp: mbit_word_set q_def[symmetric] r_def[symmetric] simp del: push_bit_minus_one drop_bit_minus_one)
    next
      case False
      then have lt: "sq < eq" using e(2) se by simp
      let ?f = "fold (\<lambda>w m. word_set m w (NOT 0)) [sq + 1..<eq] (word_set EMPTY sq (push_bit sr (NOT 0)))"
      have fr: "from_range sb eb = word_set ?f eq (drop_bit (63 - er) (NOT 0))"
        unfolding from_range_def s_def[symmetric] e(1) Let_def
        using e(2) False by (simp add: d EMPTY_def u64_MAX_def)
      have "mbit ?f n \<longleftrightarrow> (if sq < q \<and> q < eq then True else q = sq \<and> sr \<le> r)"
        using se qr(2) bit_push_ones[of sr r]
        by (subst mbit_fold_full) (auto simp: mbit_word_set q_def[symmetric] r_def[symmetric] simp del: push_bit_minus_one)
      then show ?thesis
        unfolding s_def[symmetric] e(1) spec fr mbit_word_set[OF se(6)] q_def[symmetric] r_def[symmetric]
          bit_drop_ones[OF se(4)]
        using lt by auto
    qed
  qed
qed

lemma mbit_or_at:
  assumes "k < 256"
  shows "mbit (word_set m (k div 64) (word_at m (k div 64) OR push_bit (k mod 64) 1)) n \<longleftrightarrow> mbit m n \<or> n = k"
  using mbit_set_bit[of m "to_u8 k" n] assms by (simp add: set_bit_def Let_def)

lemma subset_fold:
  assumes "k \<le> 256"
  shows "mbit (fold (\<lambda>j bm. if i AND j = j
       then word_set bm (j div 64) (word_at bm (j div 64) OR push_bit (j mod 64) 1) else bm) [0..<k] EMPTY) n
    \<longleftrightarrow> n < k \<and> i AND n = n"
  using assms
proof (induction k)
  case (Suc k)
  then have k: "k < 256" by simp
  show ?case
    using Suc.IH k by (auto simp: mbit_or_at[OF k] less_Suc_eq simp del: push_bit_of_1)
qed simp

lemma subset_row_bit: "mbit (subset_row i) n \<longleftrightarrow> n < 256 \<and> i AND n = n"
  unfolding subset_row_def by (rule subset_fold) simp

lemma test_bit_subset: "test_bit (subset b) k \<longleftrightarrow> b AND k = k"
proof -
  have "unat b AND unat k = unat k \<longleftrightarrow> b AND k = k"
    by (metis unsigned_and_eq to_u8_unat)
  then show ?thesis
    by (simp add: subset_def test_bit_mbit subset_row_bit unat_u8_less)
qed

subsection \<open>The lattice of masks\<close>

lemma bitmask_result_ident: "ident_ok (=) a b (bitmask_algebraic_result r a b)"
  by (auto simp: bitmask_algebraic_result_def Let_def)

lemma bitmask_result_resolve:
  "resolve (bitmask_algebraic_result r a b) a b = (if r = EMPTY then None else Some r)"
  by (auto simp: bitmask_algebraic_result_def is_empty_mask_iff Let_def SELF_IDENT_def COUNTER_IDENT_def)

lemma andn_eq_counter: "mask_andn a b = b \<Longrightarrow> mask_andn a b = EMPTY"
  by (auto simp: byte_mask_eq_iff mask_simps)

interpretation mask_lattice: dist_lattice_impl "(=)" mask_pjoin mask_pmeet mask_psubtract
proof (unfold_locales, goal_cases)
  case (6 a b m)
  then show ?case
    using andn_eq_counter[of a b]
    by (auto simp: mask_psubtract_def mask_andn_def bitmask_algebraic_result_def is_empty_mask_iff Let_def
        split: if_splits)
qed (auto simp: mask_pjoin_def mask_pmeet_def bitmask_result_ident)



subsection \<open>Properties\<close>

lemma filter_less_bits: "b \<le> 256 \<Longrightarrow> filter (\<lambda>n. n < b) (bits m) = filter (mbit m) [0..<b]"
proof -
  assume "b \<le> 256"
  then have "filter (\<lambda>n. n < b \<and> mbit m n) [0..<256]
      = filter (\<lambda>n. n < b \<and> mbit m n) [0..<b] @ filter (\<lambda>n. n < b \<and> mbit m n) [b..<256]"
    using upt_split[of 0 b 256] by (simp del: upt_Suc)
  moreover have "filter (\<lambda>n. n < b \<and> mbit m n) [b..<256] = []"
    by (auto simp: filter_empty_conv)
  moreover have "filter (\<lambda>n. n < b \<and> mbit m n) [0..<b] = filter (mbit m) [0..<b]"
    by (intro filter_cong) auto
  ultimately show ?thesis by (simp add: bits_def conj_commute)
qed

lemma nth_rank_bits:
  assumes "mbit m n"
  shows "rank m n < length (bits m) \<and> bits m ! rank m n = n"
proof -
  have n: "n < 256" by (rule mbit_less[OF assms])
  have "[0..<256] = [0..<n] @ n # [Suc n..<256]"
    using n upt_split[of 0 n 256] upt_conv_Cons[OF n] by simp
  then have "bits m = filter (mbit m) [0..<n] @ n # filter (mbit m) [Suc n..<256]"
    using assms by (simp add: bits_def del: upt_Suc upt_rec_numeral)
  then show ?thesis by (simp add: rank_def)
qed

text \<open>\<open>ByteMask::next_bit\<close> and \<open>prev_bit\<close> return the nearest set byte strictly above and
  strictly below the given one, and \<open>None\<close> exactly when there is none.\<close>

theorem next_prev_bit_nearest:
  "next_bit m b = map_option to_u8 (find (\<lambda>n. test_bit m (to_u8 n)) [unat b + 1..<256]) \<and>
   prev_bit m b = map_option to_u8 (find (\<lambda>n. test_bit m (to_u8 n)) (rev [0..<unat b]))"
proof -
  have "find (\<lambda>n. test_bit m (to_u8 n)) xs = find (mbit m) xs" if "set xs \<subseteq> {0..<256}" for xs
    using that by (intro find_cong) (auto simp: test_bit_mbit)
  then show ?thesis
    using unat_u8_less[of b] by (simp add: next_bit_find prev_bit_find del: upt_Suc)
qed

text \<open>\<open>indexed_bit\<close> returns the \<open>n\<close>th set byte from the low or the high end and \<open>None\<close> past
  the number of set bits, and \<open>index_of\<close> the number of set bytes below its argument, which always
  fits the \<open>u8\<close> it is returned in.\<close>

theorem indexed_bit_and_index_of:
  "indexed_bit True m n = (if n < count_bits m then Some (to_u8 (bits m ! n)) else None) \<and>
   indexed_bit False m n = (if n < count_bits m then Some (to_u8 (rev (bits m) ! n)) else None) \<and>
   unat (index_of m b) = length (filter (\<lambda>k. k < unat b) (bits m))"
  using unat_u8_less[of b] rank_byte_less[of m b]
  by (simp add: indexed_bit_forward indexed_bit_backward length_bits rank_words(4)[symmetric]
      index_of_rank filter_less_bits rank_def)

text \<open>C38: For a set byte, \<open>indexed_bit\<close> inverts \<open>index_of\<close>: this is how a dense node maps a byte to
  the position of its value and back.\<close>

theorem index_of_indexed_bit:
  assumes "test_bit m b"
  shows "indexed_bit True m (unat (index_of m b)) = Some b"
  using nth_rank_bits[of m "unat b"] rank_byte_less[of m b] assms
  by (simp add: test_bit_mbit indexed_bit_forward index_of_rank)

theorem index_of_indexed_bit_witness:
  "indexed_bit True (ByteMask 5 0 1 0) (unat (index_of (ByteMask 5 0 1 0) 128)) = Some 128"
  by (rule index_of_indexed_bit) (simp add: test_bit_def)

text \<open>\<open>from_range\<close> sets exactly the bytes of the range, for every form of its bounds (also
  \<open>Excluded(255)\<close> as a start), and the three inclusive-range updates change exactly the bytes of
  the range, for ranges within a word, across words and over whole words.\<close>

theorem range_updates_exact:
  "(test_bit (from_range sb eb) k \<longleftrightarrow> start_of_bound sb \<le> unat k \<and> unat k < end_of_bound eb) \<and>
   (test_bit (set_inclusive_bit_range m s e) k \<longleftrightarrow> test_bit m k \<or> (s \<le> k \<and> k \<le> e)) \<and>
   (test_bit (clear_inclusive_bit_range m s e) k \<longleftrightarrow> test_bit m k \<and> \<not> (s \<le> k \<and> k \<le> e)) \<and>
   (test_bit (toggle_inclusive_bit_range m s e) k \<longleftrightarrow> test_bit m k \<noteq> (s \<le> k \<and> k \<le> e))"
  by (simp add: mask_simps mbit_from_range word_le_nat_alt)

text \<open>The lattice operations of \<open>ByteMask\<close> stand for union, intersection and difference, with
  \<open>None\<close> for the empty mask, and report an argument as the identity whenever the result is equal
  to it (so never as a new element).\<close>

theorem mask_lattice_correct:
  "resolve (mask_pjoin a b) a b = (if mask_or a b = EMPTY then None else Some (mask_or a b)) \<and>
   resolve (mask_pmeet a b) a b = (if mask_and a b = EMPTY then None else Some (mask_and a b)) \<and>
   resolve (mask_psubtract a b) a b = (if mask_andn a b = EMPTY then None else Some (mask_andn a b)) \<and>
   mask_pjoin a b \<noteq> Element a \<and> mask_pmeet a b \<noteq> Element a \<and> mask_psubtract a b \<noteq> Element a \<and>
   mask_pjoin a b \<noteq> Element b \<and> mask_pmeet a b \<noteq> Element b \<and> mask_psubtract a b \<noteq> Element b"
proof -
  have "bitmask_algebraic_result r x y \<noteq> Element x" "bitmask_algebraic_result r x y \<noteq> Element y" for r x y
    by (auto simp: bitmask_algebraic_result_def Let_def)
  then show ?thesis
    by (simp add: mask_pjoin_def mask_pmeet_def mask_psubtract_def mask_or_def mask_and_def mask_andn_def
        bitmask_result_resolve)
qed

end
