(* ===== verification/Node_Types.thy ===== *)
theory Node_Types
  imports Byte_Mask_Search
begin

text \<open>
  The trie's nodes (\<open>src/trie_node.rs\<close>, \<open>src/line_list_node.rs\<close>, \<open>src/dense_byte_node.rs\<close>,
  \<open>src/empty_node.rs\<close>) as values.  \<open>TrieNodeODRc\<close> is a reference-counted pointer with
  copy-on-write (\<open>make_mut\<close> clones a shared node before it is changed), so an operation on one
  owner never shows through another: a node is modelled by its contents, and an operation that
  takes \<open>&mut self\<close> returns the new contents.  The payload containers are polymorphic in the type
  \<open>'c\<close> of onward links; \<open>node\<close> ties the knot.
\<close>

subsection \<open>Payloads and slots\<close>

text \<open>\<open>ValOrChild\<close>; in a slot the flag \<open>is_child_ptr\<close> says which field of the union is live.\<close>

datatype ('c, 'v) val_or_child = Val 'v | Child 'c

fun is_child :: "('c, 'v) val_or_child \<Rightarrow> bool" where
  "is_child (Val v) = False"
| "is_child (Child c) = True"

fun into_child :: "('c, 'v) val_or_child \<Rightarrow> 'c outcome" where
  "into_child (Child c) = Ret c"
| "into_child (Val v) = Panic"

fun into_val :: "('c, 'v) val_or_child \<Rightarrow> 'v outcome" where
  "into_val (Val v) = Ret v"
| "into_val (Child c) = Panic"

type_synonym ('c, 'v) slot = "path \<times> ('c, 'v) val_or_child"

text \<open>A \<open>LineListNode\<close>: two optional slots.\<close>

datatype ('c, 'v) list_node = LN (slot0: "('c, 'v) slot option") (slot1: "('c, 'v) slot option")

text \<open>\<open>OrdinaryCoFree\<close> / \<open>CellCoFree\<close>: the entry of a byte node (the cell variant boxes the same pair).\<close>

datatype ('c, 'v) cofree = CoFree (cf_rec: "'c option") (cf_val: "'v option")

text \<open>A \<open>ByteNode\<close>: the mask of the occupied bytes and their entries in ascending byte order.\<close>

datatype ('c, 'v) byte_node = BN (bn_mask: byte_mask) (bn_values: "('c, 'v) cofree list")

text \<open>\<open>TrieNodeODRc\<close>: the empty sentinel or a pointer to a node.\<close>

datatype 'v node = EmptyN | ListN "('v node, 'v) list_node" | ByteN "('v node, 'v) byte_node"

type_synonym 'v voc = "('v node, 'v) val_or_child"
type_synonym 'v lnode = "('v node, 'v) list_node"
type_synonym 'v bnode = "('v node, 'v) byte_node"

text \<open>Rust's \<open>Result\<close>.\<close>

datatype ('a, 'e) result = Ok 'a | Err 'e

fun unwrap_result :: "('a, 'e) result \<Rightarrow> 'a outcome" where
  "unwrap_result (Ok a) = Ret a"
| "unwrap_result (Err e) = Panic"

text \<open>\<open>TrieNodeODRc::is_empty\<close> (the sentinel's tag).\<close>

fun is_empty_odrc :: "'v node \<Rightarrow> bool" where
  "is_empty_odrc EmptyN = True"
| "is_empty_odrc _ = False"

lemma is_empty_odrc_iff [simp]: "is_empty_odrc n \<longleftrightarrow> n = EmptyN"
  by (cases n) auto

subsection \<open>Recursion over the onward links\<close>

fun slot_children :: "('c, 'v) slot option \<Rightarrow> 'c list" where
  "slot_children (Some (k, Child c)) = [c]"
| "slot_children _ = []"

definition cf_children :: "('c, 'v) cofree \<Rightarrow> 'c list" where
  "cf_children cf = (case cf_rec cf of Some c \<Rightarrow> [c] | None \<Rightarrow> [])"

fun node_children :: "'v node \<Rightarrow> 'v node list" where
  "node_children EmptyN = []"
| "node_children (ListN ln) = slot_children (slot0 ln) @ slot_children (slot1 ln)"
| "node_children (ByteN bn) = concat (map cf_children (bn_values bn))"

lemma node_children_size: "c \<in> set (node_children n) \<Longrightarrow> size c < size n"
proof (cases n)
  case (ListN ln)
  assume c: "c \<in> set (node_children n)"
  obtain s0 s1 where ln: "ln = LN s0 s1" by (cases ln)
  have "c \<in> set (slot_children s0) \<or> c \<in> set (slot_children s1)"
    using c by (simp add: ListN ln)
  then show ?thesis
    by (cases s0 rule: slot_children.cases; cases s1 rule: slot_children.cases)
      (auto simp: ListN ln)
next
  case (ByteN bn)
  assume c: "c \<in> set (node_children n)"
  obtain m cfs where bn: "bn = BN m cfs" by (cases bn)
  obtain cf where cf: "cf \<in> set cfs" "c \<in> set (cf_children cf)"
    using c by (auto simp: ByteN bn)
  then have "cf_rec cf = Some c" by (auto simp: cf_children_def split: option.splits)
  then have "size c \<le> size_cofree size (\<lambda>_. 0) cf" by (cases cf) simp
  also have "\<dots> \<le> size_list (size_cofree size (\<lambda>_. 0)) cfs"
    by (rule size_list_estimation'[OF cf(1) order_refl])
  also have "\<dots> < size n" by (simp add: ByteN bn)
  finally show ?thesis .
qed simp

lemma node_induct [case_names node]:
  fixes P :: "'v node \<Rightarrow> bool"
  assumes "\<And>n. (\<And>c. c \<in> set (node_children n) \<Longrightarrow> P c) \<Longrightarrow> P n"
  shows "P n"
proof (rule measure_induct_rule[of size])
  fix n :: "'v node" assume IH: "\<And>y :: 'v node. size y < size n \<Longrightarrow> P y"
  show "P n" by (rule assms) (rule IH, erule node_children_size)
qed

subsection \<open>Byte nodes\<close>

text \<open>\<open>Vec::insert\<close> and \<open>Vec::remove\<close>.\<close>

definition vec_insert :: "nat \<Rightarrow> 'a \<Rightarrow> 'a list \<Rightarrow> 'a list" where
  "vec_insert i x xs = take i xs @ x # drop i xs"

definition vec_remove :: "nat \<Rightarrow> 'a list \<Rightarrow> 'a list" where
  "vec_remove i xs = take i xs @ drop (Suc i) xs"

definition new_byte_node :: "('c, 'v) byte_node" where
  "new_byte_node = BN EMPTY []"

text \<open>The code reads the entry with \<open>get_unchecked\<close>; its index is in range in every node that
  satisfies \<open>bn_ok\<close> below.\<close>

definition bn_get :: "('c, 'v) byte_node \<Rightarrow> u8 \<Rightarrow> ('c, 'v) cofree option" where
  "bn_get bn k =
     (if test_bit (bn_mask bn) k then
        let ix = unat (index_of (bn_mask bn) k)
        in if ix < length (bn_values bn) then Some (bn_values bn ! ix) else None
      else None)"

text \<open>The two shapes of every update: replace the entry of an occupied byte, or set the byte's bit
  and insert its entry at the byte's index.\<close>

definition bn_replace :: "u8 \<Rightarrow> ('c, 'v) cofree \<Rightarrow> ('c, 'v) byte_node \<Rightarrow> ('c, 'v) byte_node" where
  "bn_replace k cf bn = BN (bn_mask bn) ((bn_values bn)[unat (index_of (bn_mask bn) k) := cf])"

definition bn_insert :: "u8 \<Rightarrow> ('c, 'v) cofree \<Rightarrow> ('c, 'v) byte_node \<Rightarrow> ('c, 'v) byte_node" where
  "bn_insert k cf bn =
     BN (set_bit (bn_mask bn) k) (vec_insert (unat (index_of (bn_mask bn) k)) cf (bn_values bn))"

definition bn_delete :: "u8 \<Rightarrow> ('c, 'v) byte_node \<Rightarrow> ('c, 'v) byte_node" where
  "bn_delete k bn =
     BN (clear_bit (bn_mask bn) k) (vec_remove (unat (index_of (bn_mask bn) k)) (bn_values bn))"

definition set_child :: "u8 \<Rightarrow> 'c \<Rightarrow> ('c, 'v) byte_node \<Rightarrow> 'c option \<times> ('c, 'v) byte_node" where
  "set_child k node bn =
     (case bn_get bn k of
        Some cf \<Rightarrow> (cf_rec cf, bn_replace k (CoFree (Some node) (cf_val cf)) bn)
      | None \<Rightarrow> (None, bn_insert k (CoFree (Some node) None) bn))"

definition set_val :: "u8 \<Rightarrow> 'v \<Rightarrow> ('c, 'v) byte_node \<Rightarrow> 'v option \<times> ('c, 'v) byte_node" where
  "set_val k val bn =
     (case bn_get bn k of
        Some cf \<Rightarrow> (cf_val cf, bn_replace k (CoFree (cf_rec cf) (Some val)) bn)
      | None \<Rightarrow> (None, bn_insert k (CoFree None (Some val)) bn))"

definition set_dangling_cf :: "u8 \<Rightarrow> ('c, 'v) byte_node \<Rightarrow> bool \<times> ('c, 'v) byte_node" where
  "set_dangling_cf k bn =
     (case bn_get bn k of
        Some cf \<Rightarrow> (False, bn)
      | None \<Rightarrow> (True, bn_insert k (CoFree None None) bn))"

definition bn_remove :: "u8 \<Rightarrow> ('c, 'v) byte_node \<Rightarrow> ('c, 'v) cofree option \<times> ('c, 'v) byte_node" where
  "bn_remove k bn =
     (case bn_get bn k of Some cf \<Rightarrow> (Some cf, bn_delete k bn) | None \<Rightarrow> (None, bn))"

fun bn_set_payload_owned :: "u8 \<Rightarrow> ('c, 'v) val_or_child \<Rightarrow> ('c, 'v) byte_node \<Rightarrow> ('c, 'v) byte_node" where
  "bn_set_payload_owned k (Child child) bn = snd (set_child k child bn)"
| "bn_set_payload_owned k (Val val) bn = snd (set_val k val bn)"

text \<open>The structural invariant: one entry per set bit.\<close>

definition bn_ok :: "('c, 'v) byte_node \<Rightarrow> bool" where
  "bn_ok bn \<longleftrightarrow> length (bn_values bn) = count_bits (bn_mask bn)"


subsection \<open>Reading after an update\<close>

lemma rank_Suc: "rank m (Suc n) = rank m n + (if mbit m n then 1 else 0)"
  by (simp add: rank_def)

lemma rank_less: "mbit m j \<Longrightarrow> j < k \<Longrightarrow> rank m j < rank m k"
  using rank_mono[of "Suc j" k m] by (simp add: rank_Suc)

lemma rank_set_bit:
  assumes "\<not> mbit m (unat k)"
  shows "rank (set_bit m k) n = rank m n + (if unat k < n then 1 else 0)"
  by (induction n) (use assms in \<open>auto simp: rank_Suc mbit_set_bit less_Suc_eq\<close>)

lemma rank_clear_bit:
  assumes "mbit m (unat k)"
  shows "rank m n = rank (clear_bit m k) n + (if unat k < n then 1 else 0)"
  by (induction n) (use assms in \<open>auto simp: rank_Suc mbit_clear_bit less_Suc_eq\<close>)

lemma unat_index_of: "unat (index_of m k) = rank m (unat k)"
  by (simp add: index_of_rank rank_byte_less)

lemma length_vec_insert [simp]: "length (vec_insert i x xs) = Suc (length xs)"
  by (simp add: vec_insert_def)

lemma vec_insert_nth:
  "i \<le> length xs \<Longrightarrow> vec_insert i x xs ! n = (if n < i then xs ! n else if n = i then x else xs ! (n - 1))"
  by (auto simp: vec_insert_def nth_append nth_Cons split: nat.splits intro: arg_cong[of _ _ "(!) xs"])

lemma length_vec_remove [simp]: "i < length xs \<Longrightarrow> length (vec_remove i xs) = length xs - 1"
  by (simp add: vec_remove_def)

lemma vec_remove_nth:
  "i < length xs \<Longrightarrow> vec_remove i xs ! n = (if n < i then xs ! n else xs ! Suc n)"
  by (auto simp: vec_remove_def nth_append intro: arg_cong[of _ _ "(!) xs"])

lemma set_vec_insert [simp]: "set (vec_insert i x xs) = insert x (set xs)"
proof -
  have "set (take i xs) \<union> set (drop i xs) = set xs"
    by (metis append_take_drop_id set_append)
  then show ?thesis by (auto simp: vec_insert_def)
qed

lemma set_vec_remove_subset: "set (vec_remove i xs) \<subseteq> set xs"
  by (auto simp: vec_remove_def dest: in_set_takeD in_set_dropD)

lemma bn_ok_BN: "bn_ok (BN m cfs) \<longleftrightarrow> length cfs = rank m 256"
  by (simp add: bn_ok_def rank_words)

lemma bn_index_less: "bn_ok (BN m cfs) \<Longrightarrow> mbit m n \<Longrightarrow> rank m n < length cfs"
  unfolding bn_ok_BN by (metis mbit_less rank_less)

lemma bn_get_alt:
  "bn_ok (BN m cfs) \<Longrightarrow>
   bn_get (BN m cfs) k = (if mbit m (unat k) then Some (cfs ! rank m (unat k)) else None)"
  by (simp add: bn_get_def test_bit_mbit unat_index_of bn_index_less)

lemma bn_get_mem: "bn_get bn k = Some cf \<Longrightarrow> cf \<in> set (bn_values bn)"
  by (auto simp: bn_get_def Let_def split: if_splits)

lemma unat_eq_iff_u8: "unat (a :: u8) = unat b \<longleftrightarrow> a = b"
  by (metis to_u8_unat)

lemma bn_ok_new [simp]: "bn_ok new_byte_node"
  by (simp add: new_byte_node_def bn_ok_BN rank_def)

lemma bn_get_new [simp]: "bn_get new_byte_node k = None"
  by (simp add: new_byte_node_def bn_get_def test_bit_mbit)

lemma bn_get_replace:
  assumes "bn_ok bn" "bn_get bn k \<noteq> None"
  shows "bn_ok (bn_replace k cf bn)"
    and "bn_get (bn_replace k cf bn) j = (if j = k then Some cf else bn_get bn j)"
proof -
  obtain m cfs where bn: "bn = BN m cfs" by (cases bn)
  have ok: "bn_ok (BN m cfs)" using assms(1) bn by simp
  note get = bn_get_alt[OF ok]
  have k: "mbit m (unat k)" using assms(2) by (simp add: bn get split: if_splits)
  show ok': "bn_ok (bn_replace k cf bn)"
    using assms(1) by (simp add: bn bn_replace_def bn_ok_BN)
  then have get': "bn_get (bn_replace k cf bn) j =
      (if mbit m (unat j) then Some (cfs[rank m (unat k) := cf] ! rank m (unat j)) else None)"
    by (simp add: bn bn_replace_def bn_get_alt unat_index_of)
  have "rank m (unat j) \<noteq> rank m (unat k)" if "mbit m (unat j)" "j \<noteq> k"
    using that k rank_less[of m "unat j" "unat k"] rank_less[of m "unat k" "unat j"] unat_eq_iff_u8[of j k]
    by (metis linorder_neqE_nat less_irrefl)
  then show "bn_get (bn_replace k cf bn) j = (if j = k then Some cf else bn_get bn j)"
    using k bn_index_less[OF ok k] unfolding get' by (auto simp: bn get)
qed

lemma bn_get_insert:
  assumes "bn_ok bn" "bn_get bn k = None"
  shows "bn_ok (bn_insert k cf bn)"
    and "bn_get (bn_insert k cf bn) j = (if j = k then Some cf else bn_get bn j)"
proof -
  obtain m cfs where bn: "bn = BN m cfs" by (cases bn)
  have okm: "bn_ok (BN m cfs)" using assms(1) bn by simp
  note get = bn_get_alt[OF okm]
  have k: "\<not> mbit m (unat k)" using assms(2) by (simp add: bn get split: if_splits)
  have ok: "length cfs = rank m 256" using assms(1) by (simp add: bn bn_ok_BN)
  have le: "rank m (unat k) \<le> length cfs"
    unfolding ok using unat_u8_less[of k] by (intro rank_mono) simp
  show "bn_ok (bn_insert k cf bn)"
    using ok unat_u8_less[of k] by (simp add: bn bn_insert_def bn_ok_BN rank_set_bit[OF k])
  then have get': "bn_get (bn_insert k cf bn) j = (if mbit m (unat j) \<or> j = k
      then Some (vec_insert (rank m (unat k)) cf cfs ! (rank m (unat j) + (if unat k < unat j then 1 else 0))) else None)"
    by (simp add: bn bn_insert_def bn_get_alt unat_index_of rank_set_bit[OF k] mbit_set_bit unat_eq_iff_u8)
  have "rank m (unat j) < rank m (unat k)" if "mbit m (unat j)" "unat j < unat k"
    using that by (rule rank_less)
  moreover have "rank m (unat k) \<le> rank m (unat j)" if "unat k < unat j"
    using that by (intro rank_mono) simp
  ultimately show "bn_get (bn_insert k cf bn) j = (if j = k then Some cf else bn_get bn j)"
    using k unat_eq_iff_u8[of j k] le unfolding get'
    by (auto simp: bn get vec_insert_nth not_less le_less)
qed

lemma bn_get_delete:
  assumes "bn_ok bn" "bn_get bn k \<noteq> None"
  shows "bn_ok (bn_delete k bn)"
    and "bn_get (bn_delete k bn) j = (if j = k then None else bn_get bn j)"
proof -
  obtain m cfs where bn: "bn = BN m cfs" by (cases bn)
  have ok: "bn_ok (BN m cfs)" using assms(1) bn by simp
  note get = bn_get_alt[OF ok]
  have k: "mbit m (unat k)" using assms(2) by (simp add: bn get split: if_splits)
  note rk = rank_clear_bit[OF k]
  have len: "rank m (unat k) < length cfs" by (rule bn_index_less[OF ok k])
  show "bn_ok (bn_delete k bn)"
    using ok len rk[of 256] unat_u8_less[of k] by (simp add: bn bn_delete_def bn_ok_BN unat_index_of)
  then have get': "bn_get (bn_delete k bn) j = (if mbit m (unat j) \<and> j \<noteq> k
      then Some (vec_remove (rank m (unat k)) cfs ! rank (clear_bit m k) (unat j)) else None)"
    by (simp add: bn bn_delete_def bn_get_alt unat_index_of mbit_clear_bit unat_eq_iff_u8)
  have "rank m (unat j) < rank m (unat k)" if "mbit m (unat j)" "unat j < unat k"
    using that by (rule rank_less)
  moreover have "rank m (unat k) < rank m (unat j)" if "unat k < unat j"
    using that k by (intro rank_less)
  ultimately show "bn_get (bn_delete k bn) j = (if j = k then None else bn_get bn j)"
    using unat_eq_iff_u8[of j k] len rk[of "unat j"] unfolding get'
    by (auto simp: bn get vec_remove_nth split: if_splits)
qed

lemma set_child_spec:
  assumes "bn_ok bn"
  shows "bn_ok (snd (set_child k n bn))"
    and "bn_get (snd (set_child k n bn)) j =
      (if j = k then Some (CoFree (Some n) (Option.bind (bn_get bn k) cf_val)) else bn_get bn j)"
  using assms bn_get_replace[of bn k] bn_get_insert[of bn k]
  by (auto simp: set_child_def split: option.splits)

lemma set_val_spec:
  assumes "bn_ok bn"
  shows "bn_ok (snd (set_val k v bn))"
    and "bn_get (snd (set_val k v bn)) j =
      (if j = k then Some (CoFree (Option.bind (bn_get bn k) cf_rec) (Some v)) else bn_get bn j)"
    and "fst (set_val k v bn) = Option.bind (bn_get bn k) cf_val"
  using assms bn_get_replace[of bn k] bn_get_insert[of bn k]
  by (auto simp: set_val_def split: option.splits)

lemma set_dangling_cf_spec:
  assumes "bn_ok bn"
  shows "bn_ok (snd (set_dangling_cf k bn))"
    and "bn_get (snd (set_dangling_cf k bn)) j =
      (if j = k \<and> bn_get bn k = None then Some (CoFree None None) else bn_get bn j)"
  using assms bn_get_insert[of bn k]
  by (auto simp: set_dangling_cf_def split: option.splits)

end
