(* ===== verification/List_Node.thy ===== *)
theory List_Node
  imports Node_Types
begin

text \<open>
  The operations of \<open>LineListNode\<close> (\<open>src/line_list_node.rs\<close>) on its two slots: the primitives that
  read, fill, split, take and swap a slot, the insertion \<open>set_payload_abstract\<close> with its splits,
  continuation nodes and its upgrade to a byte node, and the structural check \<open>validate_node\<close>.
  The packed representation (the header bits and the shared key buffer) is abstracted to two optional
  slots.  \<open>S\<close> is the pair of slice helpers the code imports.
\<close>

definition KEY_BYTES_CNT :: nat where "KEY_BYTES_CNT = 42"

subsection \<open>Reading the slots\<close>

definition new_list_node :: "('c, 'v) list_node" where
  "new_list_node = LN None None"

fun slot_key :: "('c, 'v) slot option \<Rightarrow> path" where
  "slot_key (Some (k, p)) = k"
| "slot_key None = []"

definition is_used :: "('c, 'v) slot option \<Rightarrow> bool" where
  "is_used s \<longleftrightarrow> s \<noteq> None"

fun is_used_child :: "('c, 'v) slot option \<Rightarrow> bool" where
  "is_used_child (Some (k, p)) = is_child p"
| "is_used_child None = False"

fun is_used_value :: "('c, 'v) slot option \<Rightarrow> bool" where
  "is_used_value (Some (k, p)) = (\<not> is_child p)"
| "is_used_value None = False"

definition used_slot_count :: "('c, 'v) list_node \<Rightarrow> nat outcome" where
  "used_slot_count ln =
     (case (slot0 ln, slot1 ln) of
        (None, None) \<Rightarrow> Ret 0
      | (Some _, None) \<Rightarrow> Ret 1
      | (Some _, Some _) \<Rightarrow> Ret 2
      | (None, Some _) \<Rightarrow> Panic)"

definition is_available_1 :: "('c, 'v) list_node \<Rightarrow> bool" where
  "is_available_1 ln \<longleftrightarrow> \<not> is_used (slot1 ln) \<and> length (slot_key (slot0 ln)) < KEY_BYTES_CNT"

definition get_both_keys :: "('c, 'v) list_node \<Rightarrow> path \<times> path" where
  "get_both_keys ln = (slot_key (slot0 ln), slot_key (slot1 ln))"

fun slot_val_at :: "('c, 'v) slot option \<Rightarrow> path \<Rightarrow> 'v option" where
  "slot_val_at (Some (k, Val v)) key = (if k = key then Some v else None)"
| "slot_val_at _ key = None"

text \<open>\<open>get_val\<close>, \<open>contains_val\<close>.\<close>

definition ln_get_val :: "('c, 'v) list_node \<Rightarrow> path \<Rightarrow> 'v option" where
  "ln_get_val ln key =
     (case slot_val_at (slot0 ln) key of Some v \<Rightarrow> Some v | None \<Rightarrow> slot_val_at (slot1 ln) key)"

definition ln_contains_val :: "('c, 'v) list_node \<Rightarrow> path \<Rightarrow> bool" where
  "ln_contains_val ln key \<longleftrightarrow>
     (is_used_value (slot0 ln) \<and> slot_key (slot0 ln) = key) \<or>
     (is_used_value (slot1 ln) \<and> slot_key (slot1 ln) = key)"

text \<open>The slot's onward link when its key is a prefix of \<open>key\<close>, with the key's length.\<close>

fun child_along :: "('c, 'v) slot option \<Rightarrow> path \<Rightarrow> (nat \<times> 'c) option" where
  "child_along (Some (k, Child c)) key =
     (if length k \<le> length key \<and> k = take (length k) key then Some (length k, c) else None)"
| "child_along _ key = None"

text \<open>\<open>node_get_child\<close>\<close>

definition ln_get_child :: "('c, 'v) list_node \<Rightarrow> path \<Rightarrow> (nat \<times> 'c) option" where
  "ln_get_child ln key =
     (case child_along (slot0 ln) key of Some r \<Rightarrow> Some r | None \<Rightarrow> child_along (slot1 ln) key)"

text \<open>\<open>get_child_mut\<close>: the same search, but an empty link ends it with \<open>None\<close>.  The second
  definition is the write through the returned reference.\<close>

definition ln_get_child_mut :: "'v lnode \<Rightarrow> path \<Rightarrow> (nat \<times> 'v node) option" where
  "ln_get_child_mut ln key =
     (case child_along (slot0 ln) key of
        Some (n, c) \<Rightarrow> if is_empty_odrc c then None else Some (n, c)
      | None \<Rightarrow>
          (case child_along (slot1 ln) key of
             Some (n, c) \<Rightarrow> if is_empty_odrc c then None else Some (n, c)
           | None \<Rightarrow> None))"

definition ln_put_child :: "'v lnode \<Rightarrow> path \<Rightarrow> 'v node \<Rightarrow> 'v lnode" where
  "ln_put_child ln key c =
     (if child_along (slot0 ln) key \<noteq> None then LN (Some (slot_key (slot0 ln), Child c)) (slot1 ln)
      else LN (slot0 ln) (Some (slot_key (slot1 ln), Child c)))"

definition ln_replace_child :: "'v lnode \<Rightarrow> path \<Rightarrow> 'v node \<Rightarrow> 'v lnode outcome" where
  "ln_replace_child ln key new_node =
     (case ln_get_child_mut ln key of
        None \<Rightarrow> Panic
      | Some _ \<Rightarrow> Ret (ln_put_child ln key new_node))"

subsection \<open>Changing the slots\<close>

definition set_payload_0 :: "path \<Rightarrow> ('c, 'v) val_or_child \<Rightarrow> ('c, 'v) list_node \<Rightarrow> ('c, 'v) list_node" where
  "set_payload_0 key payload ln = LN (Some (key, payload)) None"

definition set_payload_1 :: "path \<Rightarrow> ('c, 'v) val_or_child \<Rightarrow> ('c, 'v) list_node \<Rightarrow> ('c, 'v) list_node" where
  "set_payload_1 key payload ln = LN (slot0 ln) (Some (key, payload))"

definition shift_1_to_0 :: "('c, 'v) list_node \<Rightarrow> ('c, 'v) list_node" where
  "shift_1_to_0 ln = (if is_used (slot1 ln) then LN (slot1 ln) None else LN None None)"

definition take_payload_0 :: "('c, 'v) list_node \<Rightarrow> ('c, 'v) val_or_child option \<times> ('c, 'v) list_node" where
  "take_payload_0 ln =
     (case slot0 ln of None \<Rightarrow> (None, ln) | Some (k, p) \<Rightarrow> (Some p, shift_1_to_0 ln))"

definition take_payload_1 :: "('c, 'v) list_node \<Rightarrow> ('c, 'v) val_or_child option \<times> ('c, 'v) list_node" where
  "take_payload_1 ln =
     (case slot1 ln of None \<Rightarrow> (None, ln) | Some (k, p) \<Rightarrow> (Some p, LN (slot0 ln) None))"

text \<open>\<open>swap_payload\<close> requires an occupied slot.\<close>

definition swap_payload_0 :: "('c, 'v) val_or_child \<Rightarrow> ('c, 'v) list_node \<Rightarrow> ('c, 'v) val_or_child option \<times> ('c, 'v) list_node" where
  "swap_payload_0 new_payload ln =
     (case slot0 ln of
        None \<Rightarrow> (None, ln)
      | Some (k, p) \<Rightarrow> (Some p, LN (Some (k, new_payload)) (slot1 ln)))"

definition swap_payload_1 :: "('c, 'v) val_or_child \<Rightarrow> ('c, 'v) list_node \<Rightarrow> ('c, 'v) val_or_child option \<times> ('c, 'v) list_node" where
  "swap_payload_1 new_payload ln =
     (case slot1 ln of
        None \<Rightarrow> (None, ln)
      | Some (k, p) \<Rightarrow> (Some p, LN (slot0 ln) (Some (k, new_payload))))"

definition shorten_key_len_0 :: "nat \<Rightarrow> ('c, 'v) list_node \<Rightarrow> ('c, 'v) list_node" where
  "shorten_key_len_0 new_len ln = LN (map_option (\<lambda>(k, p). (take new_len k, p)) (slot0 ln)) (slot1 ln)"

definition shorten_key_len_1 :: "nat \<Rightarrow> ('c, 'v) list_node \<Rightarrow> ('c, 'v) list_node" where
  "shorten_key_len_1 new_len ln = LN (slot0 ln) (map_option (\<lambda>(k, p). (take new_len k, p)) (slot1 ln))"

text \<open>\<open>split_0\<close> and \<open>split_1\<close>: the tail of the key moves with the payload to a new node.\<close>

definition split_0 :: "nat \<Rightarrow> 'v lnode \<Rightarrow> 'v lnode" where
  "split_0 idx ln =
     (case slot0 ln of
        None \<Rightarrow> ln
      | Some (k, p) \<Rightarrow>
          (let child_node = set_payload_0 (drop idx k) p new_list_node
           in LN (Some (take idx k, Child (ListN child_node))) (slot1 ln)))"

definition split_1 :: "nat \<Rightarrow> 'v lnode \<Rightarrow> 'v lnode" where
  "split_1 idx ln =
     (case slot1 ln of
        None \<Rightarrow> ln
      | Some (k, p) \<Rightarrow>
          (let child_node = set_payload_0 (drop idx k) p new_list_node
           in LN (slot0 ln) (Some (take idx k, Child (ListN child_node)))))"

text \<open>\<open>get_payload_exact_key_mut\<close> with the swap its callers do through it: the replaced payload.\<close>

definition holds_exact :: "('c, 'v) slot option \<Rightarrow> bool \<Rightarrow> path \<Rightarrow> bool" where
  "holds_exact s is_ch key =
     (case s of None \<Rightarrow> False | Some (k, p) \<Rightarrow> is_child p = is_ch \<and> key = k)"

definition swap_payload_exact_key ::
  "path \<Rightarrow> ('c, 'v) val_or_child \<Rightarrow> ('c, 'v) list_node \<Rightarrow> (('c, 'v) val_or_child \<times> ('c, 'v) list_node) option" where
  "swap_payload_exact_key key payload ln =
     (if holds_exact (slot0 ln) (is_child payload) key then
        Some (snd (the (slot0 ln)), LN (Some (key, payload)) (slot1 ln))
      else if holds_exact (slot1 ln) (is_child payload) key then
        Some (snd (the (slot1 ln)), LN (slot0 ln) (Some (key, payload)))
      else None)"

fun is_dangling :: "('v node, 'v) slot option \<Rightarrow> bool" where
  "is_dangling (Some (k, Child c)) = is_empty_odrc c"
| "is_dangling _ = False"

definition remove_dangling_payload_along_key :: "slice_utils \<Rightarrow> path \<Rightarrow> 'v lnode \<Rightarrow> 'v lnode" where
  "remove_dangling_payload_along_key S key ln =
     (let ln = (if is_dangling (slot0 ln) \<and> starts_with S key (slot_key (slot0 ln))
                then snd (take_payload_0 ln) else ln)
      in if is_dangling (slot1 ln) \<and> starts_with S key (slot_key (slot1 ln))
         then snd (take_payload_1 ln) else ln)"

text \<open>\<open>should_swap_keys\<close>\<close>

definition should_swap_keys :: "path \<Rightarrow> path \<Rightarrow> bool" where
  "should_swap_keys key0 key1 \<longleftrightarrow>
     hd key1 < hd key0 \<or> (hd key0 = hd key1 \<and> length key1 < length key0)"

subsection \<open>Keys that do not fit\<close>

text \<open>Continuation nodes carry \<open>KEY_BYTES_CNT\<close> bytes each; the loop builds them from the last.\<close>

definition set_payload_0_no_overflow :: "path \<Rightarrow> 'v voc \<Rightarrow> 'v lnode \<Rightarrow> bool \<times> 'v lnode" where
  "set_payload_0_no_overflow key payload ln =
     (if length key \<le> KEY_BYTES_CNT then (False, set_payload_0 key payload ln)
      else
        let node_cnt = (length key - 1) div KEY_BYTES_CNT;
            child_node_key = drop (node_cnt * KEY_BYTES_CNT) key;
            child_node = set_payload_0 child_node_key payload new_list_node;
            next_node = fold (\<lambda>idx next_node.
                ListN (set_payload_0 (take KEY_BYTES_CNT (drop (idx * KEY_BYTES_CNT) key)) (Child next_node) new_list_node))
              (rev [1..<node_cnt]) (ListN child_node)
        in (True, set_payload_0 (take KEY_BYTES_CNT key) (Child next_node) ln))"

lemma split_0_shrinks:
  "\<not> is_available_1 ln \<Longrightarrow> \<not> is_used (slot1 ln) \<Longrightarrow>
   length (slot_key (slot0 (split_0 (KEY_BYTES_CNT div 2) ln))) < length (slot_key (slot0 ln))"
  by (cases "slot0 ln") (auto simp: is_available_1_def KEY_BYTES_CNT_def split_0_def)

text \<open>In the two functions below slot 1 is unused (\<open>debug_assert!\<close>), so the retry happens once:
  after \<open>split_0\<close> the key of slot 0 has half the buffer.  For an occupied slot 1 the model
  returns the node unchanged.\<close>

function set_payload_1_no_overflow :: "path \<Rightarrow> 'v voc \<Rightarrow> 'v lnode \<Rightarrow> bool \<times> 'v lnode" where
  "set_payload_1_no_overflow key payload ln =
     (if is_available_1 ln then
        let remaining_key_bytes = KEY_BYTES_CNT - length (slot_key (slot0 ln)) in
        if length key \<le> remaining_key_bytes then (False, set_payload_1 key payload ln)
        else
          let child_node = snd (set_payload_0_no_overflow (drop remaining_key_bytes key) payload new_list_node)
          in (True, set_payload_1 (take remaining_key_bytes key) (Child (ListN child_node)) ln)
      else if is_used (slot1 ln) then (False, ln)
      else
        (True, snd (set_payload_1_no_overflow key payload (split_0 (KEY_BYTES_CNT div 2) ln))))"
  by pat_completeness auto
termination
  by (relation "measure (\<lambda>(k, p, ln). length (slot_key (slot0 ln)))")
    (auto intro: split_0_shrinks)

function set_payload_0_shift_existing :: "path \<Rightarrow> 'v voc \<Rightarrow> 'v lnode \<Rightarrow> bool \<times> 'v lnode" where
  "set_payload_0_shift_existing key payload ln =
     (if is_available_1 ln then
        let remaining_key_bytes = KEY_BYTES_CNT - length (slot_key (slot0 ln));
            (new_key, new_payload, created_sub_branch) =
              (if length key \<le> remaining_key_bytes then (key, payload, False)
               else
                 let child_node = snd (set_payload_0_no_overflow (drop remaining_key_bytes key) payload new_list_node)
                 in (take remaining_key_bytes key, Child (ListN child_node), True))
        in (created_sub_branch, LN (Some (new_key, new_payload)) (slot0 ln))
      else if is_used (slot1 ln) then (False, ln)
      else
        (True, snd (set_payload_0_shift_existing key payload (split_0 (KEY_BYTES_CNT div 2) ln))))"
  by pat_completeness auto
termination
  by (relation "measure (\<lambda>(k, p, ln). length (slot_key (slot0 ln)))")
    (auto intro: split_0_shrinks)

declare set_payload_1_no_overflow.simps [simp del] set_payload_0_shift_existing.simps [simp del]

subsection \<open>The upgrade to a byte node\<close>

definition transplant_slot :: "'v bnode \<Rightarrow> ('v node, 'v) slot option \<Rightarrow> 'v bnode" where
  "transplant_slot replacement_node s =
     (case s of
        None \<Rightarrow> replacement_node
      | Some (key, payload) \<Rightarrow>
          if 1 < length key then
            snd (set_child (hd key) (ListN (set_payload_0 (tl key) payload new_list_node)) replacement_node)
          else bn_set_payload_owned (hd key) payload replacement_node)"

definition convert_to_dense :: "'v lnode \<Rightarrow> 'v bnode" where
  "convert_to_dense ln = transplant_slot (transplant_slot new_byte_node (slot0 ln)) (slot1 ln)"

subsection \<open>\<open>set_payload_abstract\<close>\<close>

definition used_slots :: "('c, 'v) list_node \<Rightarrow> nat" where
  "used_slots ln = (if is_used (slot0 ln) then 1 else 0) + (if is_used (slot1 ln) then 1 else 0)"

text \<open>The list node behind the link a split has just made.\<close>

fun list_in_slot :: "('v node, 'v) slot option \<Rightarrow> 'v lnode" where
  "list_in_slot (Some (k, Child (ListN ln))) = ln"
| "list_in_slot _ = new_list_node"

text \<open>\<open>overlap\<close> as the code adjusts it before a split: never the whole of either key.\<close>

definition split_overlap :: "nat \<Rightarrow> path \<Rightarrow> path \<Rightarrow> nat" where
  "split_overlap overlap node_key key =
     (if overlap = length node_key \<or> overlap = length key then overlap - 1 else overlap)"

text \<open>The result: the replaced payload, the flag that the key now leads to a new sub-node and the
  node; or the byte node that must take the node's place.  A positive overlap means that \<open>key\<close> is
  not empty; the test makes the recursion well-founded for every \<open>S\<close>.  The code reports a replaced
  value of a sub-node, and never the replaced link of one.\<close>

type_synonym 'v set_result = "('v voc option \<times> bool \<times> 'v lnode, 'v node) result"

fun sub_node_result :: "bool \<Rightarrow> ('v lnode \<Rightarrow> 'v lnode) \<Rightarrow> 'v set_result \<Rightarrow> 'v set_result" where
  "sub_node_result is_ch rebuild (Ok (old, _, child)) = Ok (if is_ch then None else old, True, rebuild child)"
| "sub_node_result is_ch rebuild (Err replacement) = Err replacement"

lemma remove_dangling_used: "used_slots (remove_dangling_payload_along_key S key ln) \<le> used_slots ln"
  by (cases ln) (auto simp: remove_dangling_payload_along_key_def take_payload_0_def take_payload_1_def
      shift_1_to_0_def used_slots_def is_used_def Let_def split: option.splits)

lemma take_payload_used:
  "is_used (slot0 ln) \<Longrightarrow> used_slots (snd (take_payload_0 ln)) < used_slots ln"
  "is_used (slot1 ln) \<Longrightarrow> used_slots (snd (take_payload_1 ln)) < used_slots ln"
  by (cases ln; auto simp: take_payload_0_def take_payload_1_def shift_1_to_0_def used_slots_def is_used_def
      split: option.splits)+

function set_payload_abstract :: "slice_utils \<Rightarrow> path \<Rightarrow> 'v voc \<Rightarrow> 'v lnode \<Rightarrow> 'v set_result" where
  "set_payload_abstract S key payload ln0 =
     (case swap_payload_exact_key key payload ln0 of
        Some (old, ln') \<Rightarrow> Ok (Some old, False, ln')
      | None \<Rightarrow>
        (let ln = remove_dangling_payload_along_key S key ln0 in
         if \<not> is_used (slot0 ln) then
           (let (created_subnode, ln') = set_payload_0_no_overflow key payload ln
            in Ok (None, created_subnode, ln'))
         else
           let key0 = slot_key (slot0 ln); overlap = find_prefix_overlap S key key0 in
           if 0 < overlap \<and> is_child payload \<and> overlap = length key \<and>
              (is_used_child (slot0 ln) \<or> length key < length key0) then
             set_payload_abstract S key payload (snd (take_payload_0 ln))
           else if 0 < overlap \<and> key \<noteq> [] \<and> 0 < split_overlap overlap key0 key then
             (let ov = split_overlap overlap key0 key; sp = split_0 ov ln
              in sub_node_result (is_child payload)
                   (\<lambda>child. LN (Some (slot_key (slot0 sp), Child (ListN child))) (slot1 sp))
                   (set_payload_abstract S (drop ov key) payload (list_in_slot (slot0 sp))))
           else if \<not> is_used (slot1 ln) then
             (let (created_subnode, ln') =
                (if should_swap_keys key0 key then set_payload_0_shift_existing key payload ln
                 else set_payload_1_no_overflow key payload ln)
              in Ok (None, created_subnode, ln'))
           else
             let key1 = slot_key (slot1 ln); overlap = find_prefix_overlap S key key1 in
             if 0 < overlap \<and> is_child payload \<and> overlap = length key \<and>
                (is_used_child (slot1 ln) \<or> length key < length key1) then
               set_payload_abstract S key payload (snd (take_payload_1 ln))
             else if 0 < overlap \<and> key \<noteq> [] \<and> 0 < split_overlap overlap key1 key then
               (let ov = split_overlap overlap key1 key; sp = split_1 ov ln
                in sub_node_result (is_child payload)
                     (\<lambda>child. LN (slot0 sp) (Some (slot_key (slot1 sp), Child (ListN child))))
                     (set_payload_abstract S (drop ov key) payload (list_in_slot (slot1 sp))))
             else
               let dense_node = convert_to_dense ln in
               if 1 < length key then
                 (case set_payload_abstract S (drop 1 key) payload new_list_node of
                    Ok (_, _, child_node) \<Rightarrow>
                      Err (ByteN (snd (set_child (hd key) (ListN child_node) dense_node)))
                  | Err replacement \<Rightarrow> Err (ByteN (snd (set_child (hd key) (ListN new_list_node) dense_node))))
               else Err (ByteN (bn_set_payload_owned (hd key) payload dense_node))))"
  by pat_completeness auto

termination
proof (relation "measures [\<lambda>(S, key, p, ln). length key, \<lambda>(S, key, p, ln). used_slots ln]", goal_cases)
  case 1 show ?case by simp
next
  case (2 S key p ln0)
  then show ?case
    using take_payload_used(1) remove_dangling_used[of S key ln0] by (auto intro: less_le_trans)
next
  case (3 S key p ln0)
  then show ?case by (cases key) auto
next
  case (4 S key p ln0)
  then show ?case
    using take_payload_used(2) remove_dangling_used[of S key ln0] by (auto intro: less_le_trans)
next
  case (5 S key p ln0)
  then show ?case by (cases key) auto
next
  case (6 S key p ln0)
  have "1 < length key" by fact
  then show ?case by (cases key) auto
qed

declare set_payload_abstract.simps [simp del]

end
