(* ===== verification/Trie_Den.thy ===== *)
theory Trie_Den
  imports List_Node
begin

text \<open>
  What a trie node stands for, and when it is well formed.  \<open>den n\<close> is the partial map from paths
  to values below the node \<open>n\<close>: a list node contributes its two slots, a byte node the entry of the
  first byte.  \<open>validate_node\<close> is the check of the same name in \<open>src/line_list_node.rs\<close>; \<open>wf_node\<close>
  asks it of every list node below \<open>n\<close>, together with the invariant of the byte nodes.
\<close>

subsection \<open>The denotation\<close>

definition slot_den :: "('c \<Rightarrow> path \<Rightarrow> 'v option) \<Rightarrow> ('c, 'v) slot option \<Rightarrow> path \<Rightarrow> 'v option" where
  "slot_den D s q =
     (case s of
        None \<Rightarrow> None
      | Some (k, Val v) \<Rightarrow> if q = k then Some v else None
      | Some (k, Child c) \<Rightarrow> if prefix k q then D c (drop (length k) q) else None)"

definition ln_den :: "('c \<Rightarrow> path \<Rightarrow> 'v option) \<Rightarrow> ('c, 'v) list_node \<Rightarrow> path \<Rightarrow> 'v option" where
  "ln_den D ln q = or_else_opt (slot_den D (slot0 ln) q) (slot_den D (slot1 ln) q)"

definition cf_den :: "('c \<Rightarrow> path \<Rightarrow> 'v option) \<Rightarrow> ('c, 'v) cofree \<Rightarrow> path \<Rightarrow> 'v option" where
  "cf_den D cf q =
     (if q = [] then cf_val cf else case cf_rec cf of Some c \<Rightarrow> D c q | None \<Rightarrow> None)"

definition bn_den :: "('c \<Rightarrow> path \<Rightarrow> 'v option) \<Rightarrow> ('c, 'v) byte_node \<Rightarrow> path \<Rightarrow> 'v option" where
  "bn_den D bn q =
     (case q of
        [] \<Rightarrow> None
      | b # rest \<Rightarrow> (case bn_get bn b of Some cf \<Rightarrow> cf_den D cf rest | None \<Rightarrow> None))"

fun node_den :: "('v node \<Rightarrow> path \<Rightarrow> 'v option) \<Rightarrow> 'v node \<Rightarrow> path \<Rightarrow> 'v option" where
  "node_den D EmptyN q = None"
| "node_den D (ListN ln) q = ln_den D ln q"
| "node_den D (ByteN bn) q = bn_den D bn q"

lemma slot_den_cong:
  "(\<And>c q. c \<in> set (slot_children s) \<Longrightarrow> D c q = D' c q) \<Longrightarrow> slot_den D s q = slot_den D' s q"
  by (cases s rule: slot_children.cases) (auto simp: slot_den_def)

lemma bn_get_child_mem:
  "bn_get bn b = Some cf \<Longrightarrow> cf_rec cf = Some c \<Longrightarrow> c \<in> set (node_children (ByteN bn))"
  using bn_get_mem[of bn b cf] by (force simp: cf_children_def)

lemma node_den_cong [fundef_cong]:
  assumes "n = n'" "q = q'" "\<And>c p. c \<in> set (node_children n') \<Longrightarrow> D c p = D' c p"
  shows "node_den D n q = node_den D' n' q'"
proof (cases n')
  case (ListN ln)
  then show ?thesis
    using assms slot_den_cong[of "slot0 ln" D D' q'] slot_den_cong[of "slot1 ln" D D' q'] by (simp add: ln_den_def)
next
  case (ByteN bn)
  then show ?thesis
    using assms bn_get_child_mem[of bn]
    by (auto simp: bn_den_def cf_den_def split: list.splits option.splits)
qed (use assms in simp)

function den :: "'v node \<Rightarrow> path \<Rightarrow> 'v option" where
  "den n q = node_den den n q"
  by auto
termination
  by (relation "measure (\<lambda>(n, q). size n)") (auto dest: node_children_size)

declare den.simps [simp del]

lemma den_simps [simp]:
  "den EmptyN q = None"
  "den (ListN ln) q = ln_den den ln q"
  "den (ByteN bn) q = bn_den den bn q"
  by (simp_all add: den.simps)

subsection \<open>Well-formedness\<close>

text \<open>The lexicographic order of byte slices.\<close>

fun path_less :: "path \<Rightarrow> path \<Rightarrow> bool" where
  "path_less (a # as) (b # bs) = (a < b \<or> (a = b \<and> path_less as bs))"
| "path_less [] (b # bs) = True"
| "path_less as [] = False"


text \<open>The shape \<open>validate_node\<close> describes, spelled out for the two slots.  It leaves two things to
  the code: slot 1 is filled after slot 0, and two values never have the same key.\<close>

fun wf_slots :: "('v node, 'v) slot option \<Rightarrow> ('v node, 'v) slot option \<Rightarrow> bool" where
  "wf_slots None None = True"
| "wf_slots (Some (k0, p0)) None = (k0 \<noteq> [] \<and> length k0 \<le> KEY_BYTES_CNT)"
| "wf_slots None (Some s) = False"
| "wf_slots (Some (k0, p0)) (Some (k1, p1)) =
     (k0 \<noteq> [] \<and> k1 \<noteq> [] \<and> length k0 + length k1 \<le> KEY_BYTES_CNT \<and>
      (hd k0 < hd k1 \<or>
       hd k0 = hd k1 \<and> length k0 = 1 \<and>
       (if length k1 = 1 then is_child p0 \<noteq> is_child p1 \<and> p0 \<noteq> Child EmptyN \<and> p1 \<noteq> Child EmptyN
        else \<not> is_child p0)))"

definition wf_list :: "'v lnode \<Rightarrow> bool" where
  "wf_list ln = wf_slots (slot0 ln) (slot1 ln)"

fun local_ok :: "'v node \<Rightarrow> bool" where
  "local_ok EmptyN = True"
| "local_ok (ListN ln) = wf_list ln"
| "local_ok (ByteN bn) = bn_ok bn"

function wf_node :: "'v node \<Rightarrow> bool" where
  "wf_node n = (local_ok n \<and> (\<forall>c \<in> set (node_children n). wf_node c))"
  by auto
termination
  by (relation "measure size") (auto dest: node_children_size)

declare wf_node.simps [simp del]

definition wf_payload :: "'v voc \<Rightarrow> bool" where
  "wf_payload p = (case p of Val v \<Rightarrow> True | Child c \<Rightarrow> wf_node c)"

definition wf_slot :: "('v node, 'v) slot option \<Rightarrow> bool" where
  "wf_slot s = (case s of None \<Rightarrow> True | Some (k, p) \<Rightarrow> wf_payload p)"

lemma wf_slot_simps [simp]: "wf_slot None" "wf_slot (Some (k, p)) = wf_payload p"
  by (simp_all add: wf_slot_def)

lemma wf_payload_simps [simp]: "wf_payload (Val v)" "wf_payload (Child c) = wf_node c"
  by (simp_all add: wf_payload_def)

lemma wf_slot_children: "wf_slot s \<longleftrightarrow> (\<forall>c \<in> set (slot_children s). wf_node c)"
  by (cases s rule: slot_children.cases) auto

lemma wf_node_simps [simp]:
  "wf_node EmptyN"
  "wf_node (ListN ln) \<longleftrightarrow> wf_list ln \<and> wf_slot (slot0 ln) \<and> wf_slot (slot1 ln)"
  "wf_node (ByteN bn) \<longleftrightarrow> bn_ok bn \<and> (\<forall>cf \<in> set (bn_values bn). \<forall>c. cf_rec cf = Some c \<longrightarrow> wf_node c)"
  by (auto simp: wf_node.simps[of EmptyN] wf_node.simps[of "ListN ln"] wf_node.simps[of "ByteN bn"]
      wf_slot_children cf_children_def split: option.splits)

lemma path_less_hd: "a \<noteq> [] \<Longrightarrow> b \<noteq> [] \<Longrightarrow> hd a \<noteq> hd b \<Longrightarrow> path_less a b \<longleftrightarrow> hd a < hd b"
  by (cases a; cases b) auto

lemma path_less_prefix: "prefix a b \<Longrightarrow> \<not> path_less b a"
  by (induction a arbitrary: b) (case_tac b; auto)+



end
