(* ===== verification/List_Set.thy ===== *)
theory List_Set
  imports Trie_Den
begin

text \<open>
  \<open>set_payload_abstract\<close> writes what it is asked to write.  The first part proves the helpers of
  \<open>src/line_list_node.rs\<close> (keys that overflow the node, the second slot, the move into a byte
  node), the last the insertion itself, by induction on the key's length and the number of
  occupied slots.
\<close>

subsection \<open>Single slots\<close>

lemma slot_den_simps [simp]:
  "slot_den D None q = None"
  "slot_den D (Some (k, Val v)) q = (if q = k then Some v else None)"
  "slot_den D (Some (k, Child c)) q = (if prefix k q then D c (drop (length k) q) else None)"
  by (simp_all add: slot_den_def)

lemma or_else_opt_None [simp]: "or_else_opt x None = x"
  by (cases x) auto

lemma or_else_opt_eq_None [simp]: "or_else_opt x y = None \<longleftrightarrow> x = None \<and> y = None"
  by (cases x) auto

lemma prefix_append_iff: "prefix (a @ b) q \<longleftrightarrow> prefix a q \<and> prefix b (drop (length a) q)"
  by (auto simp: prefix_def)

lemma prefix_take_iff:
  "r \<le> length k \<Longrightarrow> prefix k q \<longleftrightarrow> prefix (take r k) q \<and> prefix (drop r k) (drop r q)"
  using prefix_append_iff[of "take r k" "drop r k" q] by simp

lemma eq_take_iff:
  "r \<le> length k \<Longrightarrow> q = k \<longleftrightarrow> prefix (take r k) q \<and> drop r q = drop r k"
  by (metis append_eq_conv_conj append_take_drop_id length_take min.absorb2 prefix_def take_is_prefix)

lemma slot_den_drop:
  assumes "r \<le> length k"
  shows "slot_den D (Some (k, p)) q =
      (if prefix (take r k) q then slot_den D (Some (drop r k, p)) (drop r q) else None)"
proof -
  have l: "length (take r k) = r" using assms by simp
  show ?thesis
  proof (cases p)
    case (Val v)
    then show ?thesis using eq_take_iff[OF assms, of q] l by auto
  next
    case (Child d)
    have "drop (length k) q = drop (length k - r) (drop r q)" using assms by simp
    then show ?thesis using Child prefix_take_iff[OF assms, of q] l by auto
  qed
qed

text \<open>A slot whose key is cut, with a link to a node that stands for the rest.\<close>

lemma slot_den_chain:
  assumes "r \<le> length key" and "\<And>q. D c q = slot_den D (Some (drop r key, p)) q"
  shows "slot_den D (Some (take r key, Child c)) q = slot_den D (Some (key, p)) q"
  using assms(1) slot_den_drop[OF assms(1), of D p q] assms(2) by simp

lemma ln_den_LN [simp]: "ln_den D (LN s0 s1) q = or_else_opt (slot_den D s0 q) (slot_den D s1 q)"
  by (simp add: ln_den_def)

lemma wf_list_LN [simp]: "wf_list (LN s0 s1) = wf_slots s0 s1"
  by (simp add: wf_list_def)

lemma set_payload_0_simp [simp]: "set_payload_0 key p ln = LN (Some (key, p)) None"
  by (simp add: set_payload_0_def)

lemma set_payload_1_simp [simp]: "set_payload_1 key p ln = LN (slot0 ln) (Some (key, p))"
  by (simp add: set_payload_1_def)

lemma wf_slots_None [simp]: "wf_slots s None \<longleftrightarrow> (case s of None \<Rightarrow> True | Some (k, p) \<Rightarrow> k \<noteq> [] \<and> length k \<le> KEY_BYTES_CNT)"
  by (cases s) auto

lemma wf_den_Nil: "wf_node n \<Longrightarrow> den n [] = None"
proof (cases n)
  case (ListN ln)
  assume "wf_node n"
  then have "wf_slots (slot0 ln) (slot1 ln)" by (simp add: ListN wf_list_def)
  then show ?thesis
    by (cases "(slot0 ln, slot1 ln)" rule: wf_slots.cases)
      (auto simp: ListN ln_den_def slot_den_def split: val_or_child.splits)
qed (auto simp: bn_den_def)

subsection \<open>Continuation nodes\<close>

lemma continuation_chain:
  assumes "i \<le> n" "n * KEY_BYTES_CNT < length key" "length key \<le> Suc n * KEY_BYTES_CNT" "wf_payload p"
  defines "chain \<equiv> fold (\<lambda>idx next_node.
      ListN (set_payload_0 (take KEY_BYTES_CNT (drop (idx * KEY_BYTES_CNT) key)) (Child next_node) new_list_node))
    (rev [i..<n]) (ListN (set_payload_0 (drop (n * KEY_BYTES_CNT) key) p new_list_node))"
  shows "wf_node chain" and "den chain q = slot_den den (Some (drop (i * KEY_BYTES_CNT) key, p)) q"
proof -
  let ?f = "\<lambda>idx next_node. ListN (set_payload_0 (take KEY_BYTES_CNT (drop (idx * KEY_BYTES_CNT) key)) (Child next_node) new_list_node)"
  let ?c = "\<lambda>i. fold ?f (rev [i..<n]) (ListN (set_payload_0 (drop (n * KEY_BYTES_CNT) key) p new_list_node))"
  have "wf_node (?c i) \<and> (\<forall>q. den (?c i) q = slot_den den (Some (drop (i * KEY_BYTES_CNT) key, p)) q)"
    using assms(1)
  proof (induction i rule: inc_induct)
    case base
    then show ?case using assms(2-4) by auto
  next
    case (step j)
    have split: "rev [j..<n] = rev [Suc j..<n] @ [j]" using step.hyps by (simp add: upt_rec)
    have "Suc j * KEY_BYTES_CNT \<le> n * KEY_BYTES_CNT" using step.hyps by (intro mult_le_mono1) simp
    then have le: "KEY_BYTES_CNT \<le> length (drop (j * KEY_BYTES_CNT) key)" using assms(2) by simp
    have d: "drop (Suc j * KEY_BYTES_CNT) key = drop KEY_BYTES_CNT (drop (j * KEY_BYTES_CNT) key)"
      by (simp add: add.commute)
    have "den (?c j) q = slot_den den (Some (drop (j * KEY_BYTES_CNT) key, p)) q" for q
      using slot_den_chain[OF le, of den "?c (Suc j)" p q] step.IH unfolding split d by simp
    moreover have "wf_node (?c j)" using step.IH le unfolding split by (auto simp: KEY_BYTES_CNT_def)
    ultimately show ?case by blast
  qed
  then show "wf_node chain" "den chain q = slot_den den (Some (drop (i * KEY_BYTES_CNT) key, p)) q"
    unfolding chain_def by blast+
qed
definition wf_pair :: "path \<Rightarrow> 'v voc \<Rightarrow> path \<Rightarrow> 'v voc \<Rightarrow> bool" where
  "wf_pair k0 p0 k1 p1 \<longleftrightarrow>
     hd k0 < hd k1 \<or>
     hd k0 = hd k1 \<and> length k0 = 1 \<and>
     (if length k1 = 1 then is_child p0 \<noteq> is_child p1 \<and> p0 \<noteq> Child EmptyN \<and> p1 \<noteq> Child EmptyN
      else \<not> is_child p0)"

lemma wf_slots_pair [simp]:
  "wf_slots (Some (k0, p0)) (Some (k1, p1)) \<longleftrightarrow>
     k0 \<noteq> [] \<and> k1 \<noteq> [] \<and> length k0 + length k1 \<le> KEY_BYTES_CNT \<and> wf_pair k0 p0 k1 p1"
  by (simp add: wf_pair_def)

declare wf_slots.simps(4) [simp del]

lemma set_payload_0_no_overflow_spec:
  assumes "key \<noteq> []" "wf_payload p"
  obtains k' p' where
    "set_payload_0_no_overflow key p ln = (KEY_BYTES_CNT < length key, LN (Some (k', p')) None)"
    "wf_node (ListN (LN (Some (k', p')) None))"
    "\<And>q. slot_den den (Some (k', p')) q = slot_den den (Some (key, p)) q"
    "length key \<le> KEY_BYTES_CNT \<Longrightarrow> k' = key \<and> p' = p"
proof (cases "length key \<le> KEY_BYTES_CNT")
  case True
  show ?thesis by (rule that[of key p]) (use True assms in \<open>auto simp: set_payload_0_no_overflow_def\<close>)
next
  case False
  define n where "n = (length key - 1) div KEY_BYTES_CNT"
  have n: "n * KEY_BYTES_CNT < length key" "length key \<le> Suc n * KEY_BYTES_CNT" "1 \<le> n"
    using False by (auto simp: n_def KEY_BYTES_CNT_def)
  define chain where "chain = fold (\<lambda>idx next_node.
      ListN (set_payload_0 (take KEY_BYTES_CNT (drop (idx * KEY_BYTES_CNT) key)) (Child next_node) new_list_node))
    (rev [1..<n]) (ListN (set_payload_0 (drop (n * KEY_BYTES_CNT) key) p new_list_node))"
  have "wf_node chain" and d: "\<And>q. den chain q = slot_den den (Some (drop KEY_BYTES_CNT key, p)) q"
    using continuation_chain[OF n(3,1,2) assms(2)] unfolding chain_def by (simp_all del: set_payload_0_simp)
  show ?thesis
  proof (rule that)
    show "set_payload_0_no_overflow key p ln =
        (KEY_BYTES_CNT < length key, LN (Some (take KEY_BYTES_CNT key, Child chain)) None)"
      using False by (simp add: set_payload_0_no_overflow_def Let_def chain_def n_def)
    show "wf_node (ListN (LN (Some (take KEY_BYTES_CNT key, Child chain)) None))"
      using \<open>wf_node chain\<close> assms(1) by (simp add: KEY_BYTES_CNT_def)
    show "slot_den den (Some (take KEY_BYTES_CNT key, Child chain)) q = slot_den den (Some (key, p)) q" for q
      using slot_den_chain[of KEY_BYTES_CNT key den chain p q] False d by simp
  qed (use False in simp)
qed

text \<open>What the two helpers that fill the second slot of a node with one full slot produce.\<close>

definition placed :: "path \<Rightarrow> 'v voc \<Rightarrow> ('v node, 'v) slot option \<Rightarrow> bool \<times> 'v lnode \<Rightarrow> bool" where
  "placed key p s r \<longleftrightarrow>
     wf_node (ListN (snd r)) \<and>
     (\<forall>q. ln_den den (snd r) q = or_else_opt (slot_den den s q) (slot_den den (Some (key, p)) q) \<or>
          ln_den den (snd r) q = or_else_opt (slot_den den (Some (key, p)) q) (slot_den den s q)) \<and>
     (\<not> fst r \<longrightarrow> slot0 (snd r) = Some (key, p) \<or> slot1 (snd r) = Some (key, p))"

lemma wf_pair_hd_iff:
  "k1 \<noteq> [] \<Longrightarrow> 0 < r \<Longrightarrow> wf_pair k0 p0 (take r k1) p1 \<longleftrightarrow>
     hd k0 < hd k1 \<or> hd k0 = hd k1 \<and> length k0 = 1 \<and>
     (if min (length k1) r = 1 then is_child p0 \<noteq> is_child p1 \<and> p0 \<noteq> Child EmptyN \<and> p1 \<noteq> Child EmptyN
      else \<not> is_child p0)"
  by (simp add: wf_pair_def)

text \<open>The tail of a key that is moved to a node of its own.\<close>

lemma split_0_half:
  assumes "length k0 = KEY_BYTES_CNT" "wf_payload p0"
  defines "c \<equiv> ListN (LN (Some (drop 21 k0, p0)) None)"
  shows "split_0 (KEY_BYTES_CNT div 2) (LN (Some (k0, p0)) s1) = LN (Some (take 21 k0, Child c)) s1"
    and "wf_node c" and "slot_den den (Some (take 21 k0, Child c)) q = slot_den den (Some (k0, p0)) q"
  using assms slot_den_chain[of 21 k0 den c p0 q] by (simp_all add: split_0_def KEY_BYTES_CNT_def)

lemma set_payload_1_no_overflow_spec:
  assumes "wf_node (ListN (LN (Some (k0, p0)) None))" "key \<noteq> []" "wf_payload p" "wf_pair k0 p0 key p"
  shows "placed key p (Some (k0, p0)) (set_payload_1_no_overflow key p (LN (Some (k0, p0)) None))"
proof -
  have room: "placed key p (Some (k, pk)) (set_payload_1_no_overflow key p (LN (Some (k, pk)) None))"
    if k: "k \<noteq> []" "length k < KEY_BYTES_CNT" "wf_payload pk" "wf_pair k pk key p" for k pk
  proof -
    let ?r = "KEY_BYTES_CNT - length k"
    have av: "is_available_1 (LN (Some (k, pk)) None)" using k by (simp add: is_available_1_def is_used_def)
    show ?thesis
    proof (cases "length key \<le> ?r")
      case True
      then show ?thesis using k assms(2,3) av
        by (simp add: set_payload_1_no_overflow.simps placed_def)
    next
      case False
      then have "drop ?r key \<noteq> []" by simp
      then obtain k' p' where c: "set_payload_0_no_overflow (drop ?r key) p new_list_node =
          (KEY_BYTES_CNT < length (drop ?r key), LN (Some (k', p')) None)"
        "wf_node (ListN (LN (Some (k', p')) None))"
        "\<And>q. slot_den den (Some (k', p')) q = slot_den den (Some (drop ?r key, p)) q"
        using set_payload_0_no_overflow_spec[of "drop ?r key" p new_list_node] assms(3) by metis
      have e: "set_payload_1_no_overflow key p (LN (Some (k, pk)) None) =
          (True, LN (Some (k, pk)) (Some (take ?r key, Child (ListN (LN (Some (k', p')) None)))))"
        using av False c(1) by (simp add: set_payload_1_no_overflow.simps)
      have "wf_pair k pk (take ?r key) (Child (ListN (LN (Some (k', p')) None)))"
        using k(2,4) False by (subst wf_pair_hd_iff) (auto simp: assms(2) wf_pair_def KEY_BYTES_CNT_def)
      moreover have "length (take ?r key) = ?r" "take ?r key \<noteq> []" using False k(2) assms(2) by auto
      moreover have "slot_den den (Some (take ?r key, Child (ListN (LN (Some (k', p')) None)))) q = slot_den den (Some (key, p)) q" for q
        using slot_den_chain[of ?r key den "ListN (LN (Some (k', p')) None)" p q] False c(3) by simp
      ultimately show ?thesis using k c(2) unfolding e placed_def
        by (simp del: slot_den_simps add: slot_den_simps(1))
    qed
  qed
  show ?thesis
  proof (cases "length k0 = KEY_BYTES_CNT")
    case True
    let ?ln = "LN (Some (k0, p0)) None" and ?c = "ListN (LN (Some (drop 21 k0, p0)) None)"
    have wf0: "wf_payload p0" using assms(1) by simp
    have "set_payload_1_no_overflow key p ?ln =
        (True, snd (set_payload_1_no_overflow key p (split_0 (KEY_BYTES_CNT div 2) ?ln)))"
      using True by (subst set_payload_1_no_overflow.simps) (simp add: is_available_1_def is_used_def)
    moreover have "placed key p (Some (take 21 k0, Child ?c)) (set_payload_1_no_overflow key p (LN (Some (take 21 k0, Child ?c)) None))"
      using True assms(4) split_0_half(2)[OF True wf0]
      by (intro room) (auto simp: wf_pair_def KEY_BYTES_CNT_def)
    ultimately show ?thesis
      using split_0_half(3)[OF True wf0] unfolding placed_def split_0_half(1)[OF True wf0] by simp
  qed (use room assms in simp)
qed

lemma set_payload_0_shift_existing_spec:
  assumes "wf_node (ListN (LN (Some (k0, p0)) None))" "key \<noteq> []" "wf_payload p" "wf_pair key p k0 p0"
  shows "placed key p (Some (k0, p0)) (set_payload_0_shift_existing key p (LN (Some (k0, p0)) None))"
proof -
  have room: "placed key p (Some (k, pk)) (set_payload_0_shift_existing key p (LN (Some (k, pk)) None))"
    if k: "k \<noteq> []" "length k < KEY_BYTES_CNT" "wf_payload pk" "wf_pair key p k pk" for k pk
  proof -
    let ?r = "KEY_BYTES_CNT - length k"
    have av: "is_available_1 (LN (Some (k, pk)) None)" using k by (simp add: is_available_1_def is_used_def)
    show ?thesis
    proof (cases "length key \<le> ?r")
      case True
      then show ?thesis using k assms(2,3) av
        by (simp add: set_payload_0_shift_existing.simps placed_def)
    next
      case False
      then have "drop ?r key \<noteq> []" by simp
      then obtain k' p' where c: "set_payload_0_no_overflow (drop ?r key) p new_list_node =
          (KEY_BYTES_CNT < length (drop ?r key), LN (Some (k', p')) None)"
        "wf_node (ListN (LN (Some (k', p')) None))"
        "\<And>q. slot_den den (Some (k', p')) q = slot_den den (Some (drop ?r key, p)) q"
        using set_payload_0_no_overflow_spec[of "drop ?r key" p new_list_node] assms(3) by metis
      have e: "set_payload_0_shift_existing key p (LN (Some (k, pk)) None) =
          (True, LN (Some (take ?r key, Child (ListN (LN (Some (k', p')) None)))) (Some (k, pk)))"
        using av False c(1) by (simp add: set_payload_0_shift_existing.simps)
      have "hd key < hd k" using k(2,4) False by (auto simp: wf_pair_def)
      then have "wf_pair (take ?r key) (Child (ListN (LN (Some (k', p')) None))) k pk"
        using k(2) assms(2) by (simp add: wf_pair_def)
      moreover have "length (take ?r key) = ?r" "take ?r key \<noteq> []" using False k(2) assms(2) by auto
      moreover have "slot_den den (Some (take ?r key, Child (ListN (LN (Some (k', p')) None)))) q = slot_den den (Some (key, p)) q" for q
        using slot_den_chain[of ?r key den "ListN (LN (Some (k', p')) None)" p q] False c(3) by simp
      ultimately show ?thesis using k c(2) unfolding e placed_def
        by (simp del: slot_den_simps add: slot_den_simps(1))
    qed
  qed
  show ?thesis
  proof (cases "length k0 = KEY_BYTES_CNT")
    case True
    let ?ln = "LN (Some (k0, p0)) None" and ?c = "ListN (LN (Some (drop 21 k0, p0)) None)"
    have wf0: "wf_payload p0" using assms(1) by simp
    have "set_payload_0_shift_existing key p ?ln =
        (True, snd (set_payload_0_shift_existing key p (split_0 (KEY_BYTES_CNT div 2) ?ln)))"
      using True by (subst set_payload_0_shift_existing.simps) (simp add: is_available_1_def is_used_def)
    moreover have "placed key p (Some (take 21 k0, Child ?c)) (set_payload_0_shift_existing key p (LN (Some (take 21 k0, Child ?c)) None))"
      using True assms(4) split_0_half(2)[OF True wf0]
      by (intro room) (auto simp: wf_pair_def KEY_BYTES_CNT_def)
    ultimately show ?thesis
      using split_0_half(3)[OF True wf0] unfolding placed_def split_0_half(1)[OF True wf0] by simp
  qed (use room assms in simp)
qed
subsection \<open>The paths a slot speaks for\<close>

definition covers :: "path \<Rightarrow> 'v voc \<Rightarrow> path \<Rightarrow> bool" where
  "covers k p q = (if is_child p then strict_prefix k q else q = k)"

text \<open>The map after \<open>p\<close> has been written at \<open>k\<close>: a value takes the place of the value at \<open>k\<close>, a
  link that of everything strictly below \<open>k\<close>.\<close>

definition write_den :: "path \<Rightarrow> 'v voc \<Rightarrow> (path \<Rightarrow> 'v option) \<Rightarrow> path \<Rightarrow> 'v option" where
  "write_den k p old q = (if covers k p q then slot_den den (Some (k, p)) q else old q)"

lemma slot_den_covers:
  "wf_payload p \<Longrightarrow> \<not> covers k p q \<Longrightarrow> slot_den den (Some (k, p)) q = None"
  by (cases p) (auto simp: covers_def wf_den_Nil strict_prefix_def)

text \<open>Two slots are apart when their first bytes differ, or one holds the value of that byte and
  the other leads on.\<close>

definition leads_on :: "path \<Rightarrow> ('c, 'v) val_or_child \<Rightarrow> bool" where
  "leads_on k p \<longleftrightarrow> 1 < length k \<or> is_child p"

definition apart :: "path \<Rightarrow> 'v voc \<Rightarrow> path \<Rightarrow> 'v voc \<Rightarrow> bool" where
  "apart k p k' p' \<longleftrightarrow> hd k \<noteq> hd k' \<or> leads_on k p \<noteq> leads_on k' p'"

lemma apart_commute: "apart k p k' p' = apart k' p' k p"
  by (auto simp: apart_def)

lemma covers_hd: "k \<noteq> [] \<Longrightarrow> covers k p q \<Longrightarrow> q \<noteq> [] \<and> hd q = hd k \<and> (tl q \<noteq> []) = leads_on k p"
  by (cases k; cases q; cases p) (auto simp: covers_def leads_on_def strict_prefix_def)

lemma apart_disjoint:
  "k \<noteq> [] \<Longrightarrow> k' \<noteq> [] \<Longrightarrow> apart k p k' p' \<Longrightarrow> covers k p q \<Longrightarrow> \<not> covers k' p' q"
  unfolding apart_def using covers_hd[of k p q] covers_hd[of k' p' q] by auto

lemma slot_den_apart:
  "k \<noteq> [] \<Longrightarrow> k' \<noteq> [] \<Longrightarrow> apart k p k' p' \<Longrightarrow> wf_payload p' \<Longrightarrow> covers k p q \<Longrightarrow>
   slot_den den (Some (k', p')) q = None"
  by (intro slot_den_covers) (auto dest: apart_disjoint)

lemma wf_pair_apart: "k0 \<noteq> [] \<Longrightarrow> k1 \<noteq> [] \<Longrightarrow> wf_pair k0 p0 k1 p1 \<Longrightarrow> apart k0 p0 k1 p1"
  by (cases k0; cases k1) (auto simp: wf_pair_def apart_def leads_on_def split: if_splits)

lemma wf_pairI:
  assumes "apart k0 p0 k1 p1" "hd k0 < hd k1 \<or> hd k0 = hd k1 \<and> length k0 = 1"
    and "k0 = k1 \<Longrightarrow> p0 \<noteq> Child EmptyN \<and> p1 \<noteq> Child EmptyN" "k1 \<noteq> []"
  shows "wf_pair k0 p0 k1 p1"
  using assms by (cases k0; cases k1) (auto simp: wf_pair_def apart_def leads_on_def)

lemma or_else_write:
  assumes "k \<noteq> []" "k' \<noteq> []" "apart k p k' p'" "wf_payload p" "wf_payload p'"
  shows "or_else_opt (slot_den den (Some (k', p')) q) (slot_den den (Some (k, p)) q) =
         write_den k p (slot_den den (Some (k', p'))) q"
    and "or_else_opt (slot_den den (Some (k, p)) q) (slot_den den (Some (k', p')) q) =
         write_den k p (slot_den den (Some (k', p'))) q"
  using assms slot_den_apart[of k k' p p' q] slot_den_covers[of p k q]
  unfolding write_den_def by (auto simp del: slot_den_simps)

lemma covers_drop:
  assumes "r < length k"
  shows "covers k p q \<longleftrightarrow> prefix (take r k) q \<and> covers (drop r k) p (drop r q)"
proof -
  have l: "r \<le> length k" using assms by simp
  show ?thesis
    using prefix_take_iff[OF l, of q] eq_take_iff[OF l, of q]
    by (auto simp: covers_def strict_prefix_def)
qed

lemma write_den_drop:
  assumes "r < length k" "take r k' = take r k" "r \<le> length k'"
  shows "(if prefix (take r k') q then write_den (drop r k) p (slot_den den (Some (drop r k', p'))) (drop r q) else None)
       = write_den k p (slot_den den (Some (k', p'))) q"
  using assms(1) unfolding write_den_def covers_drop[OF assms(1)] slot_den_drop[OF assms(3), of den p']
    slot_den_drop[OF less_imp_le[OF assms(1)], of den p] assms(2) by (auto simp del: slot_den_simps)

subsection \<open>Moving slots into a byte node\<close>

definition occupied :: "'v bnode \<Rightarrow> u8 \<Rightarrow> bool \<Rightarrow> bool" where
  "occupied bn b on =
     (case bn_get bn b of
        None \<Rightarrow> False
      | Some cf \<Rightarrow> if on then cf_rec cf \<noteq> None else cf_val cf \<noteq> None)"

definition wf_byte :: "'v bnode \<Rightarrow> bool" where
  "wf_byte bn \<longleftrightarrow> bn_ok bn \<and> (\<forall>b cf c. bn_get bn b = Some cf \<longrightarrow> cf_rec cf = Some c \<longrightarrow> wf_node c)"

lemma rank_surj: "i < rank m N \<Longrightarrow> \<exists>n < N. mbit m n \<and> rank m n = i"
proof (induction N)
  case (Suc N)
  then show ?case by (cases "i < rank m N") (auto simp: rank_Suc less_Suc_eq split: if_splits)
qed simp

lemma bn_values_mem:
  assumes "bn_ok bn" "cf \<in> set (bn_values bn)"
  shows "\<exists>b. bn_get bn b = Some cf"
proof -
  obtain m cfs where bn: "bn = BN m cfs" by (cases bn)
  have ok: "bn_ok (BN m cfs)" using assms(1) bn by simp
  obtain i where i: "i < length cfs" "cfs ! i = cf" using assms(2) by (auto simp: bn in_set_conv_nth)
  then have "i < rank m 256" using ok by (simp add: bn_ok_BN)
  then obtain n where n: "mbit m n" "rank m n = i" by (auto dest: rank_surj)
  then have "n < 256" by (simp add: mbit_less)
  then have "unat (of_nat n :: u8) = n" by (simp add: unat_of_nat)
  then show ?thesis using n i bn_get_alt[OF ok, of "of_nat n"] by (auto simp: bn)
qed

lemma wf_byte_iff: "wf_node (ByteN bn) \<longleftrightarrow> wf_byte bn"
proof
  assume "wf_node (ByteN bn)"
  then show "wf_byte bn" using bn_get_mem[of bn] by (auto simp: wf_byte_def)
next
  assume w: "wf_byte bn"
  obtain m cfs where bn: "bn = BN m cfs" by (cases bn)
  have ok: "bn_ok bn" using w by (simp add: wf_byte_def)
  have "\<exists>b. bn_get bn b = Some cf" if "cf \<in> set cfs" for cf
    using bn_values_mem[OF ok] that by (simp add: bn)
  then show "wf_node (ByteN bn)" using w by (auto simp: wf_byte_def bn)
qed

lemma set_child_wf: "wf_byte bn \<Longrightarrow> wf_node n \<Longrightarrow> wf_byte (snd (set_child b n bn))"
  unfolding wf_byte_def using set_child_spec[of bn b n] by (auto split: if_splits)

lemma set_val_wf: "wf_byte bn \<Longrightarrow> wf_byte (snd (set_val b v bn))"
  unfolding wf_byte_def using set_val_spec[of bn b v]
  by (auto split: if_splits bind_splits simp: bind_eq_Some_conv)

lemma set_child_den:
  assumes "wf_byte bn" "wf_node n" "\<not> occupied bn b True"
  shows "bn_den den (snd (set_child b n bn)) q =
      or_else_opt (if prefix [b] q then den n (tl q) else None) (bn_den den bn q)"
    and "occupied (snd (set_child b n bn)) b' on \<longleftrightarrow> occupied bn b' on \<or> b' = b \<and> on"
  using assms set_child_spec[of bn b n]
  by (auto simp: bn_den_def occupied_def cf_den_def wf_byte_def wf_den_Nil
      split: list.splits option.splits if_splits)

lemma set_val_den:
  assumes "wf_byte bn" "\<not> occupied bn b False"
  shows "bn_den den (snd (set_val b v bn)) q =
      or_else_opt (if q = [b] then Some v else None) (bn_den den bn q)"
    and "occupied (snd (set_val b v bn)) b' on \<longleftrightarrow> occupied bn b' on \<or> b' = b \<and> \<not> on"
  using assms set_val_spec[of bn b v]
  by (auto simp: bn_den_def occupied_def cf_den_def wf_byte_def wf_den_Nil
      split: list.splits option.splits if_splits)

text \<open>The common step: the first byte goes to the byte node and a node for the rest below it.\<close>

definition add_entry :: "path \<Rightarrow> 'v voc \<Rightarrow> 'v node \<Rightarrow> 'v bnode \<Rightarrow> 'v bnode" where
  "add_entry key p n bn =
     (if 1 < length key then snd (set_child (hd key) n bn) else bn_set_payload_owned (hd key) p bn)"

lemma add_entry_spec:
  assumes "wf_byte bn" "key \<noteq> []" "wf_payload p" "\<not> occupied bn (hd key) (leads_on key p)"
    and "1 < length key \<Longrightarrow> wf_node n" "\<And>q. 1 < length key \<Longrightarrow> den n q = slot_den den (Some (tl key, p)) q"
  shows "wf_byte (add_entry key p n bn)"
    and "bn_den den (add_entry key p n bn) q = or_else_opt (slot_den den (Some (key, p)) q) (bn_den den bn q)"
    and "occupied (add_entry key p n bn) b on \<longleftrightarrow> occupied bn b on \<or> b = hd key \<and> on = leads_on key p"
proof -
  obtain b r where k: "key = b # r" using assms(2) by (cases key) auto
  have t: "slot_den den (Some (key, p)) q = (if prefix [b] q then slot_den den (Some (r, p)) (tl q) else None)"
    using slot_den_drop[of 1 key den p q] k by (simp add: drop_Suc del: slot_den_simps)
  show "wf_byte (add_entry key p n bn)"
    using assms(1,3,5) set_child_wf set_val_wf by (cases p) (auto simp: add_entry_def)
  show "bn_den den (add_entry key p n bn) q = or_else_opt (slot_den den (Some (key, p)) q) (bn_den den bn q)"
  proof (cases "r = []")
    case True
    then show ?thesis
      using assms(1,3,4) set_child_den(1)[of bn _ b q] set_val_den(1)[of bn b _ q] t
      by (cases p) (auto simp: add_entry_def k leads_on_def prefix_Cons)
  next
    case False
    then show ?thesis
      unfolding t using assms set_child_den(1)[of bn n b q] by (simp add: add_entry_def k leads_on_def)
  qed
  show "occupied (add_entry key p n bn) b' on \<longleftrightarrow> occupied bn b' on \<or> b' = hd key \<and> on = leads_on key p" for b' on
    using assms(1,3,4,5) set_child_den(2)[of bn _ b] set_val_den(2)[of bn b]
    by (cases p; cases "r = []") (auto simp: add_entry_def k leads_on_def)
qed

lemma transplant_slot_entry:
  "transplant_slot bn (Some (k, p)) = add_entry k p (ListN (LN (Some (tl k, p)) None)) bn"
  by (simp add: transplant_slot_def add_entry_def)

lemma transplant_slot_spec:
  assumes "wf_byte bn" "k \<noteq> []" "length k \<le> KEY_BYTES_CNT" "wf_payload p" "\<not> occupied bn (hd k) (leads_on k p)"
  shows "wf_byte (transplant_slot bn (Some (k, p)))"
    and "bn_den den (transplant_slot bn (Some (k, p))) q = or_else_opt (slot_den den (Some (k, p)) q) (bn_den den bn q)"
    and "occupied (transplant_slot bn (Some (k, p))) b on \<longleftrightarrow> occupied bn b on \<or> b = hd k \<and> on = leads_on k p"
proof -
  have "1 < length k \<Longrightarrow> wf_node (ListN (LN (Some (tl k, p)) None))"
    using assms(3,4) by (cases k) auto
  note e = add_entry_spec[OF assms(1,2,4,5) this]
  show "wf_byte (transplant_slot bn (Some (k, p)))"
    "bn_den den (transplant_slot bn (Some (k, p))) q = or_else_opt (slot_den den (Some (k, p)) q) (bn_den den bn q)"
    "occupied (transplant_slot bn (Some (k, p))) b on \<longleftrightarrow> occupied bn b on \<or> b = hd k \<and> on = leads_on k p"
    unfolding transplant_slot_entry by (rule e, simp_all)+
qed

lemma new_byte_node_facts [simp]:
  "wf_byte new_byte_node" "bn_den D new_byte_node q = None" "\<not> occupied new_byte_node b on"
  by (auto simp: wf_byte_def bn_den_def occupied_def split: list.splits)

lemma convert_to_dense_spec:
  assumes "wf_node (ListN (LN (Some (k0, p0)) (Some (k1, p1))))"
  defines "bn \<equiv> convert_to_dense (LN (Some (k0, p0)) (Some (k1, p1)))"
  shows "wf_byte bn"
    and "bn_den den bn q = or_else_opt (slot_den den (Some (k0, p0)) q) (slot_den den (Some (k1, p1)) q)"
    and "occupied bn b on \<longleftrightarrow> b = hd k0 \<and> on = leads_on k0 p0 \<or> b = hd k1 \<and> on = leads_on k1 p1"
proof -
  have k: "k0 \<noteq> []" "k1 \<noteq> []" "length k0 \<le> KEY_BYTES_CNT" "length k1 \<le> KEY_BYTES_CNT" "wf_payload p0" "wf_payload p1"
    and ap: "apart k0 p0 k1 p1"
    using assms(1) wf_pair_apart by auto
  let ?b0 = "transplant_slot new_byte_node (Some (k0, p0))"
  note s0 = transplant_slot_spec[OF new_byte_node_facts(1) k(1,3,5) new_byte_node_facts(3)]
  have "\<not> occupied ?b0 (hd k1) (leads_on k1 p1)"
    using ap unfolding s0(3) by (auto simp: apart_def)
  note s1 = transplant_slot_spec[OF s0(1) k(2,4,6) this]
  have bn: "bn = transplant_slot ?b0 (Some (k1, p1))" by (simp add: bn_def convert_to_dense_def)
  show "wf_byte bn" unfolding bn by (rule s1(1))
  show "occupied bn b on \<longleftrightarrow> b = hd k0 \<and> on = leads_on k0 p0 \<or> b = hd k1 \<and> on = leads_on k1 p1"
    unfolding bn s1(3) s0(3) by simp
  show "bn_den den bn q = or_else_opt (slot_den den (Some (k0, p0)) q) (slot_den den (Some (k1, p1)) q)"
    unfolding bn s1(2) s0(2) or_else_write(1)[OF k(2,1) ap[unfolded apart_commute[of k0]] k(6,5)]
      using or_else_write(2)[OF k(2,1) ap[unfolded apart_commute[of k0]] k(6,5)] by simp
qed

subsection \<open>Preconditions and result of an insertion\<close>

definition slots_of :: "'v lnode \<Rightarrow> (path \<times> 'v voc) set" where
  "slots_of ln = set_option (slot0 ln) \<union> set_option (slot1 ln)"

lemma slots_of_simps [simp]: "slots_of (LN s0 s1) = set_option s0 \<union> set_option s1"
  by (simp add: slots_of_def)

text \<open>The caller has descended as far as the links go: no link lies on the way to \<open>key\<close>, and the
  empty link is only written where there is no path yet.\<close>

definition can_write :: "path \<Rightarrow> 'v voc \<Rightarrow> 'v lnode \<Rightarrow> bool" where
  "can_write key pl ln \<longleftrightarrow>
     key \<noteq> [] \<and> wf_payload pl \<and> wf_node (ListN ln) \<and>
     (\<forall>k p. (k, p) \<in> slots_of ln \<longrightarrow>
        (is_child p \<and> strict_prefix k key \<longrightarrow> p = Child EmptyN) \<and>
        (pl = Child EmptyN \<longrightarrow> \<not> prefix key k))"

definition written :: "path \<Rightarrow> 'v voc \<Rightarrow> 'v lnode \<Rightarrow> 'v set_result \<Rightarrow> bool" where
  "written key pl ln r =
     (case r of
        Ok (old, created_subnode, ln') \<Rightarrow>
          wf_node (ListN ln') \<and> ln_den den ln' = write_den key pl (ln_den den ln) \<and>
          (\<not> is_child pl \<longrightarrow> old = map_option Val (ln_den den ln key)) \<and>
          (\<not> created_subnode \<longrightarrow> (key, pl) \<in> slots_of ln')
      | Err n \<Rightarrow>
          is_used (slot1 ln) \<and> (\<exists>bn. n = ByteN bn) \<and> wf_node n \<and>
          den n = write_den key pl (ln_den den ln) \<and>
          (\<not> is_child pl \<longrightarrow> ln_den den ln key = None))"

lemma wf_slot_elem: "wf_node (ListN ln) \<Longrightarrow> (k, p) \<in> slots_of ln \<Longrightarrow> k \<noteq> [] \<and> length k \<le> KEY_BYTES_CNT \<and> wf_payload p"
  by (cases ln; cases "(slot0 ln, slot1 ln)" rule: wf_slots.cases) auto

lemma swap_exact_slots:
  "swap_payload_exact_key key pl (LN s0 s1) = Some (old, ln') \<Longrightarrow>
     (s0 = Some (key, old) \<and> is_child old = is_child pl \<and> ln' = LN (Some (key, pl)) s1) \<or>
     (s1 = Some (key, old) \<and> is_child old = is_child pl \<and> ln' = LN s0 (Some (key, pl)))"
  by (auto simp: swap_payload_exact_key_def holds_exact_def split: if_splits option.splits prod.splits)

lemma covers_kind: "is_child p = is_child p' \<Longrightarrow> covers k p = covers k p'"
  by (simp add: covers_def fun_eq_iff)

text \<open>Writing the payload of one slot again, with the other slot apart from it.\<close>

lemma rewrite_slot:
  assumes "wf_payload old" "wf_payload pl" "is_child old = is_child pl"
    and "\<And>q. covers key pl q \<Longrightarrow> other q = None"
  shows "or_else_opt (slot_den den (Some (key, pl)) q) (other q) =
           write_den key pl (\<lambda>q. or_else_opt (slot_den den (Some (key, old)) q) (other q)) q"
    and "or_else_opt (other q) (slot_den den (Some (key, pl)) q) =
           write_den key pl (\<lambda>q. or_else_opt (other q) (slot_den den (Some (key, old)) q)) q"
  using assms slot_den_covers[of old key q] slot_den_covers[of pl key q] covers_kind[OF assms(3)]
  unfolding write_den_def by (auto simp del: slot_den_simps)

lemma covers_self: "covers key pl key \<longleftrightarrow> \<not> is_child pl"
  by (simp add: covers_def strict_prefix_def)

lemma den_at_slot: "\<not> is_child p \<Longrightarrow> map_option Val (slot_den den (Some (key, p)) key) = Some p"
  by (cases p) auto

lemma written_exact:
  assumes w: "can_write key pl (LN s0 s1)" and s: "swap_payload_exact_key key pl (LN s0 s1) = Some (old, ln')"
  shows "written key pl (LN s0 s1) (Ok (Some old, False, ln'))"
proof -
  have key: "key \<noteq> []" "wf_payload pl" and wf: "wf_node (ListN (LN s0 s1))" using w by (auto simp: can_write_def)
  have ne: "pl \<noteq> Child EmptyN" if "(key, old) \<in> slots_of (LN s0 s1)" using w that by (auto simp: can_write_def)
  consider (0) "s0 = Some (key, old)" "ln' = LN (Some (key, pl)) s1"
    | (1) "s1 = Some (key, old)" "ln' = LN s0 (Some (key, pl))"
    using swap_exact_slots[OF s] by auto
  note c = this
  have kind: "is_child old = is_child pl" using swap_exact_slots[OF s] by auto
  from c show ?thesis
  proof cases
    case 0
    have wo: "wf_payload old" using wf 0 by simp
    have other: "slot_den den s1 q = None" if "covers key pl q" for q
    proof (cases s1)
      case (Some e)
      obtain k1 p1 where e: "e = (k1, p1)" by (cases e)
      have "apart key old k1 p1" "k1 \<noteq> []" "wf_payload p1" using wf 0 Some e wf_pair_apart by auto
      then show ?thesis using slot_den_apart[of key k1 old p1 q] key that covers_kind[OF kind] Some e by simp
    qed simp
    have "wf_slots (Some (key, pl)) s1" using wf 0 ne kind by (cases s1) (auto simp: wf_pair_def split: if_splits)
    moreover have "ln_den den ln' = write_den key pl (ln_den den (LN s0 s1))"
      using rewrite_slot(1)[OF wo key(2) kind other] by (auto simp: 0 fun_eq_iff ln_den_LN[abs_def])
    ultimately show ?thesis
      using key wf 0 kind den_at_slot[of old key] other[of key]
      by (auto simp: written_def covers_self simp del: slot_den_simps)
  next
    case 1
    then obtain k0 p0 where s0: "s0 = Some (k0, p0)" using wf by (cases s0) auto
    have wo: "wf_payload old" using wf 1 by simp
    have other: "slot_den den s0 q = None" if "covers key pl q" for q
    proof -
      have "apart key old k0 p0" "k0 \<noteq> []" "wf_payload p0" using wf 1 s0 wf_pair_apart by (auto simp: apart_commute)
      then show ?thesis using slot_den_apart[of key k0 old p0 q] key that covers_kind[OF kind] s0 by simp
    qed
    have "wf_slots s0 (Some (key, pl))" using wf 1 s0 ne kind by (auto simp: wf_pair_def split: if_splits)
    moreover have "ln_den den ln' = write_den key pl (ln_den den (LN s0 s1))"
      using rewrite_slot(2)[OF wo key(2) kind other] by (auto simp: 1 fun_eq_iff ln_den_LN[abs_def])
    ultimately show ?thesis
      using key wf 1 kind den_at_slot[of old key] other[of key]
      by (auto simp: written_def covers_self simp del: slot_den_simps)
  qed
qed
subsection \<open>Dangling links along the key\<close>

lemma is_dangling_iff: "is_dangling s \<longleftrightarrow> (\<exists>k. s = Some (k, Child EmptyN))"
  by (cases s rule: is_dangling.cases) auto

lemma dangling_den: "is_dangling s \<Longrightarrow> slot_den den s q = None"
  by (auto simp: is_dangling_iff)

lemma remove_dangling_spec:
  fixes key :: path assumes S: "slice_utils_ok S" and wf: "wf_node (ListN ln)"
  defines "ln' \<equiv> remove_dangling_payload_along_key S key ln"
  shows "wf_node (ListN ln')" and "ln_den den ln' = ln_den den ln" and "slots_of ln' \<subseteq> slots_of ln"
    and "(k, Child EmptyN) \<in> slots_of ln' \<Longrightarrow> \<not> prefix k key"
    and "used_slots ln' \<le> used_slots ln" and "is_used (slot1 ln') \<Longrightarrow> is_used (slot1 ln)"
proof -
  obtain s0 s1 where ln: "ln = LN s0 s1" by (cases ln)
  have wf': "wf_slots s0 s1" using wf ln by simp
  note defs = ln'_def ln remove_dangling_payload_along_key_def take_payload_0_def take_payload_1_def shift_1_to_0_def
    is_dangling_iff used_slots_def is_used_def S Let_def
  consider (none) "s0 = None" "s1 = None" | (one) k0 p0 where "s0 = Some (k0, p0)" "s1 = None"
    | (two) k0 p0 k1 p1 where "s0 = Some (k0, p0)" "s1 = Some (k1, p1)"
    using wf' by (cases "(s0, s1)" rule: wf_slots.cases) auto
  note cases = this
  have "wf_node (ListN ln') \<and> ln_den den ln' = ln_den den ln \<and> slots_of ln' \<subseteq> slots_of ln \<and>
      ((k, Child EmptyN) \<in> slots_of ln' \<longrightarrow> \<not> prefix k key) \<and>
      used_slots ln' \<le> used_slots ln \<and> (is_used (slot1 ln') \<longrightarrow> is_used (slot1 ln))"
    using cases
  proof cases
    case none then show ?thesis by (auto simp: defs)
  next
    case one
    then show ?thesis using wf ln by (auto simp: defs fun_eq_iff)
  next
    case two
    have ap: "wf_pair k0 p0 k1 p1" "k0 \<noteq> []" "k1 \<noteq> []" using wf' two by auto
    have np: "\<not> (p0 = Child EmptyN \<and> p1 = Child EmptyN \<and> prefix k0 key \<and> prefix k1 key)"
      using ap by (cases k0; cases k1; cases key) (auto simp: wf_pair_def split: if_splits)
    show ?thesis
      using wf ln two np S by (auto simp: defs fun_eq_iff)
  qed
  then show "wf_node (ListN ln')" "ln_den den ln' = ln_den den ln" "slots_of ln' \<subseteq> slots_of ln"
    "(k, Child EmptyN) \<in> slots_of ln' \<Longrightarrow> \<not> prefix k key"
    "used_slots ln' \<le> used_slots ln" "is_used (slot1 ln') \<Longrightarrow> is_used (slot1 ln)"
    by blast+
qed

subsection \<open>The induction\<close>

text \<open>What the insertion knows of each slot once it has tried to replace a payload at exactly \<open>key\<close>
  and has removed the dangling links on the way.\<close>

definition clear_of :: "path \<Rightarrow> 'v voc \<Rightarrow> path \<Rightarrow> 'v voc \<Rightarrow> bool" where
  "clear_of key pl k p \<longleftrightarrow>
     k \<noteq> [] \<and> wf_payload p \<and> length k \<le> KEY_BYTES_CNT \<and>
     (is_child p \<longrightarrow> \<not> strict_prefix k key) \<and> \<not> (k = key \<and> is_child p = is_child pl) \<and>
     (k = key \<longrightarrow> p \<noteq> Child EmptyN) \<and> (pl = Child EmptyN \<longrightarrow> \<not> prefix key k)"

text \<open>The test of the insertion for a link that swallows the slot.\<close>

definition swallows :: "path \<Rightarrow> 'v voc \<Rightarrow> path \<Rightarrow> 'v voc \<Rightarrow> bool" where
  "swallows key pl k p \<longleftrightarrow>
     0 < lcp_len key k \<and> is_child pl \<and> lcp_len key k = length key \<and> (is_child p \<or> length key < length k)"

definition splits_at :: "path \<Rightarrow> path \<Rightarrow> nat" where
  "splits_at key k = (if 0 < lcp_len key k then split_overlap (lcp_len key k) k key else 0)"

lemma swallows_prefix:
  assumes "clear_of key pl k p" "swallows key pl k p"
  shows "strict_prefix key k" and "is_child pl"
  using assms by (auto simp: swallows_def lcp_len_full_iff clear_of_def strict_prefix_def)

lemma swallowed_den:
  assumes "clear_of key pl k p" "swallows key pl k p"
  shows "\<not> covers key pl q \<Longrightarrow> slot_den den (Some (k, p)) q = None"
proof (rule slot_den_covers)
  show "wf_payload p" using assms(1) by (simp add: clear_of_def)
  assume "\<not> covers key pl q"
  then show "\<not> covers k p q"
    using swallows_prefix[OF assms] by (auto simp: covers_def prefix_order.less_le_trans
        dest: prefix_order.less_trans)
qed

lemma splits_at_less:
  assumes "0 < splits_at key k"
  shows "splits_at key k < length key" "splits_at key k < length k" "take (splits_at key k) key = take (splits_at key k) k"
proof -
  let ?o = "lcp_len key k"
  have o: "?o \<le> length key" "?o \<le> length k" "0 < ?o"
    using assms lcp_len_le[of key k] by (auto simp: splits_at_def split: if_splits)
  show "splits_at key k < length key" "splits_at key k < length k"
    using o by (auto simp: splits_at_def split_overlap_def simp del: length_greater_0_conv)
  have "splits_at key k \<le> ?o" by (auto simp: splits_at_def split_overlap_def)
  then show "take (splits_at key k) key = take (splits_at key k) k"
    using take_lcp_len[of key k] by (metis min.absorb1 take_take)
qed

lemma not_split_apart:
  assumes "key \<noteq> []" "clear_of key pl k p" "\<not> swallows key pl k p" "splits_at key k = 0"
  shows "apart key pl k p"
proof (cases "hd key = hd k")
  case True
  have k: "k \<noteq> []" using assms(2) by (simp add: clear_of_def)
  obtain b r r' where e: "key = b # r" "k = b # r'" using assms(1) k True by (cases key; cases k) auto
  consider "r = []" | "r' = []" using assms(4) by (cases r; cases r') (auto simp: e splits_at_def split_overlap_def split: if_splits)
  then show ?thesis
    using assms(2,3) by cases (auto simp: e clear_of_def swallows_def apart_def leads_on_def strict_prefix_def)
qed (simp add: apart_def)
text \<open>The insertion, for each number of occupied slots, in these terms.\<close>

definition into_slot_0 :: "bool \<Rightarrow> nat \<Rightarrow> path \<Rightarrow> ('v node, 'v) slot option \<Rightarrow> 'v set_result \<Rightarrow> 'v set_result" where
  "into_slot_0 is_ch r k s1 = sub_node_result is_ch (\<lambda>child. LN (Some (take r k, Child (ListN child))) s1)"

definition into_slot_1 :: "bool \<Rightarrow> nat \<Rightarrow> path \<Rightarrow> ('v node, 'v) slot option \<Rightarrow> 'v set_result \<Rightarrow> 'v set_result" where
  "into_slot_1 is_ch r k s0 = sub_node_result is_ch (\<lambda>child. LN s0 (Some (take r k, Child (ListN child))))"

lemma splits_at_tests:
  "(0 < lcp_len key k \<and> is_child pl \<and> lcp_len key k = length key \<and> (is_used_child (Some (k, p)) \<or> length key < length k))
     = swallows key pl k p"
  "(0 < lcp_len key k \<and> key \<noteq> [] \<and> 0 < split_overlap (lcp_len key k) k key) = (0 < splits_at key k)"
  "0 < splits_at key k \<Longrightarrow> split_overlap (lcp_len key k) k key = splits_at key k"
  by (cases key; auto simp: swallows_def splits_at_def)+

lemma split_slot_simps:
  "split_0 r (LN (Some (k, p)) s1) = LN (Some (take r k, Child (ListN (LN (Some (drop r k, p)) None)))) s1"
  "split_1 r (LN s0 (Some (k, p))) = LN s0 (Some (take r k, Child (ListN (LN (Some (drop r k, p)) None))))"
  "snd (take_payload_0 (LN (Some (k, p)) s1)) = LN s1 None"
  "snd (take_payload_1 (LN s0 (Some (k, p)))) = LN s0 None"
  by (cases s1; simp add: split_0_def split_1_def take_payload_0_def take_payload_1_def shift_1_to_0_def is_used_def)+

lemma set_step_none:
  assumes S: "slice_utils_ok S" and no_swap: "swap_payload_exact_key key pl ln0 = None"
    and ln: "remove_dangling_payload_along_key S key ln0 = LN None None"
  shows "set_payload_abstract S key pl ln0 =
     Ok (None, fst (set_payload_0_no_overflow key pl (LN None None)), snd (set_payload_0_no_overflow key pl (LN None None)))"
  using ln no_swap by (subst set_payload_abstract.simps) (simp add: is_used_def split: prod.splits)

lemma set_step_one:
  assumes S: "slice_utils_ok S" and no_swap: "swap_payload_exact_key key pl ln0 = None"
    and ln: "remove_dangling_payload_along_key S key ln0 = LN (Some (k0, p0)) None"
  shows "set_payload_abstract S key pl ln0 =
     (if swallows key pl k0 p0 then set_payload_abstract S key pl (LN None None)
      else if 0 < splits_at key k0 then
        into_slot_0 (is_child pl) (splits_at key k0) k0 None
          (set_payload_abstract S (drop (splits_at key k0) key) pl (LN (Some (drop (splits_at key k0) k0, p0)) None))
      else
        let r = (if should_swap_keys k0 key then set_payload_0_shift_existing key pl (LN (Some (k0, p0)) None)
                 else set_payload_1_no_overflow key pl (LN (Some (k0, p0)) None))
        in Ok (None, fst r, snd r))"
  by (subst set_payload_abstract.simps)
    (simp add: ln no_swap slice_utils_okD[OF S] is_used_def Let_def splits_at_tests[simplified] split_slot_simps
      into_slot_0_def case_prod_beta cong: if_cong)

lemma set_step_two:
  assumes S: "slice_utils_ok S" and no_swap: "swap_payload_exact_key key pl ln0 = None"
    and ln: "remove_dangling_payload_along_key S key ln0 = LN (Some (k0, p0)) (Some (k1, p1))"
  shows "set_payload_abstract S key pl ln0 =
     (if swallows key pl k0 p0 then set_payload_abstract S key pl (LN (Some (k1, p1)) None)
      else if 0 < splits_at key k0 then
        into_slot_0 (is_child pl) (splits_at key k0) k0 (Some (k1, p1))
          (set_payload_abstract S (drop (splits_at key k0) key) pl (LN (Some (drop (splits_at key k0) k0, p0)) None))
      else if swallows key pl k1 p1 then set_payload_abstract S key pl (LN (Some (k0, p0)) None)
      else if 0 < splits_at key k1 then
        into_slot_1 (is_child pl) (splits_at key k1) k1 (Some (k0, p0))
          (set_payload_abstract S (drop (splits_at key k1) key) pl (LN (Some (drop (splits_at key k1) k1, p1)) None))
      else
        let dense_node = convert_to_dense (LN (Some (k0, p0)) (Some (k1, p1))) in
        if 1 < length key then
          (case set_payload_abstract S (drop 1 key) pl new_list_node of
             Ok (_, _, child_node) \<Rightarrow> Err (ByteN (snd (set_child (hd key) (ListN child_node) dense_node)))
           | Err replacement \<Rightarrow> Err (ByteN (snd (set_child (hd key) (ListN new_list_node) dense_node))))
        else Err (ByteN (bn_set_payload_owned (hd key) pl dense_node)))"
  by (subst set_payload_abstract.simps)
    (simp add: ln no_swap slice_utils_okD[OF S] is_used_def Let_def splits_at_tests[simplified] split_slot_simps
      into_slot_0_def into_slot_1_def cong: if_cong)
subsection \<open>Composing the steps\<close>

lemma ln_den_fun:
  "ln_den D (LN s None) = slot_den D s"
  "ln_den D (LN s0 s1) = (\<lambda>q. or_else_opt (slot_den D s0 q) (slot_den D s1 q))"
  by (simp_all add: fun_eq_iff)

lemma written_transfer:
  "written key pl ln R \<Longrightarrow> ln_den den ln = ln_den den ln0 \<Longrightarrow> (is_used (slot1 ln) \<Longrightarrow> is_used (slot1 ln0)) \<Longrightarrow>
   written key pl ln0 R"
  by (auto simp: written_def split: result.splits)

lemma written_swallow:
  assumes "written key pl (LN s None) R" "clear_of key pl k p" "swallows key pl k p"
  shows "written key pl (LN (Some (k, p)) s) R" and "written key pl (LN s (Some (k, p))) R"
proof -
  have "write_den key pl (ln_den den (LN (Some (k, p)) s)) = write_den key pl (ln_den den (LN s None))"
    "write_den key pl (ln_den den (LN s (Some (k, p)))) = write_den key pl (ln_den den (LN s None))"
    using swallowed_den[OF assms(2,3)] by (auto simp: write_den_def fun_eq_iff simp del: slot_den_simps(2,3))
  then show "written key pl (LN (Some (k, p)) s) R" "written key pl (LN s (Some (k, p))) R"
    using assms(1) swallows_prefix(2)[OF assms(2,3)] by (auto simp: written_def is_used_def split: result.splits)
qed

lemma split_slot_den:
  assumes r: "0 < splits_at key k"
    and d: "ln_den den child = write_den (drop (splits_at key k) key) pl (slot_den den (Some (drop (splits_at key k) k, p)))"
  shows "slot_den den (Some (take (splits_at key k) k, Child (ListN child))) q = write_den key pl (slot_den den (Some (k, p))) q"
proof -
  note l = splits_at_less[OF r]
  have "length (take (splits_at key k) k) = splits_at key k" using l(2) by simp
  then show ?thesis
    using write_den_drop[OF l(1) l(3)[symmetric] less_imp_le[OF l(2)], of q pl p] d by (simp split: if_splits)
qed

lemma write_den_or_else:
  assumes "\<And>q. covers key pl q \<Longrightarrow> other q = None"
  shows "or_else_opt (write_den key pl f q) (other q) = write_den key pl (\<lambda>q. or_else_opt (f q) (other q)) q"
    and "or_else_opt (other q) (write_den key pl f q) = write_den key pl (\<lambda>q. or_else_opt (other q) (f q)) q"
  using assms by (auto simp: write_den_def)

lemma written_into_slot:
  assumes R: "written (drop (splits_at key k) key) pl (LN (Some (drop (splits_at key k) k, p)) None) R"
    and r: "0 < splits_at key k"
    and other: "\<And>q. covers key pl q \<Longrightarrow> slot_den den s q = None" "wf_slot s"
  shows "(\<And>child. wf_slots (Some (take (splits_at key k) k, Child (ListN child))) s) \<Longrightarrow>
         written key pl (LN (Some (k, p)) s) (into_slot_0 (is_child pl) (splits_at key k) k s R)"
    and "(\<And>child. wf_slots s (Some (take (splits_at key k) k, Child (ListN child)))) \<Longrightarrow>
         written key pl (LN s (Some (k, p))) (into_slot_1 (is_child pl) (splits_at key k) k s R)"
proof -
  obtain old cr child where R': "R = Ok (old, cr, child)"
    using R by (cases R) (auto simp: written_def is_used_def)
  have d: "ln_den den child = write_den (drop (splits_at key k) key) pl (slot_den den (Some (drop (splits_at key k) k, p)))"
    using R by (simp add: written_def R' ln_den_LN[abs_def])
  note sd = split_slot_den[OF r d] and l = splits_at_less[OF r]
  have pr: "prefix (take (splits_at key k) k) key" by (metis l(3) take_is_prefix)
  have old: "old = map_option Val (slot_den den (Some (k, p)) key)" if "\<not> is_child pl"
    using R that slot_den_drop[OF less_imp_le[OF l(2)], of den p key] pr
    by (simp add: written_def R' ln_den_fun(1) del: slot_den_simps)
  have wf: "wf_node (ListN child)" using R by (simp add: written_def R')
  note w = write_den_or_else[where other = "slot_den den s", OF other(1)]
  show "written key pl (LN (Some (k, p)) s) (into_slot_0 (is_child pl) (splits_at key k) k s R)"
    if "\<And>child. wf_slots (Some (take (splits_at key k) k, Child (ListN child))) s"
    using that[of child] other wf old sd w(1)
    by (auto simp: written_def into_slot_0_def R' covers_self fun_eq_iff ln_den_fun(2) simp del: slot_den_simps)
  show "written key pl (LN s (Some (k, p))) (into_slot_1 (is_child pl) (splits_at key k) k s R)"
    if "\<And>child. wf_slots s (Some (take (splits_at key k) k, Child (ListN child)))"
    using that[of child] other wf old sd w(2)
    by (auto simp: written_def into_slot_1_def R' covers_self fun_eq_iff ln_den_fun(2) simp del: slot_den_simps)
qed

lemma written_placed:
  assumes "placed key pl (Some (k, p)) r" "apart key pl k p" "key \<noteq> []" "wf_payload pl" "clear_of key pl k p"
  shows "written key pl (LN (Some (k, p)) None) (Ok (None, fst r, snd r))"
proof -
  have k: "k \<noteq> []" "wf_payload p" using assms(5) by (auto simp: clear_of_def)
  have "ln_den den (snd r) = write_den key pl (ln_den den (LN (Some (k, p)) None))"
    using assms(1) or_else_write[OF assms(3) k(1) assms(2,4) k(2)] unfolding placed_def ln_den_fun(1)
    by (auto simp: fun_eq_iff simp del: slot_den_simps)
  moreover have "slot_den den (Some (k, p)) key = None" if "\<not> is_child pl"
    using slot_den_apart[OF assms(3) k(1) assms(2) k(2)] that by (simp add: covers_self)
  ultimately show ?thesis
    using assms(1) by (auto simp: written_def placed_def slots_of_def simp del: slot_den_simps(2,3))
qed

lemma written_none:
  assumes "key \<noteq> []" "wf_payload pl"
  shows "written key pl (LN None None) (Ok (None, fst (set_payload_0_no_overflow key pl (LN None None)),
           snd (set_payload_0_no_overflow key pl (LN None None))))"
proof -
  obtain k' p' where s: "set_payload_0_no_overflow key pl (LN None None) = (KEY_BYTES_CNT < length key, LN (Some (k', p')) None)"
    "wf_node (ListN (LN (Some (k', p')) None))"
    "\<And>q. slot_den den (Some (k', p')) q = slot_den den (Some (key, pl)) q"
    "length key \<le> KEY_BYTES_CNT \<Longrightarrow> k' = key \<and> p' = pl"
    using set_payload_0_no_overflow_spec[OF assms] by metis
  show ?thesis
    using s slot_den_covers[OF assms(2)]
    by (auto simp: written_def write_den_def ln_den_fun(1) fun_eq_iff not_less simp del: slot_den_simps(2,3))
qed

lemma written_dense:
  assumes wf: "wf_node (ListN (LN (Some (k0, p0)) (Some (k1, p1))))" and key: "key \<noteq> []" "wf_payload pl"
    and ap: "apart key pl k0 p0" "apart key pl k1 p1"
    and n: "1 < length key \<Longrightarrow> wf_node n" "\<And>q. 1 < length key \<Longrightarrow> den n q = slot_den den (Some (tl key, pl)) q"
  shows "written key pl (LN (Some (k0, p0)) (Some (k1, p1)))
     (Err (ByteN (add_entry key pl n (convert_to_dense (LN (Some (k0, p0)) (Some (k1, p1)))))))"
proof -
  note c = convert_to_dense_spec[OF wf]
  have free: "\<not> occupied (convert_to_dense (LN (Some (k0, p0)) (Some (k1, p1)))) (hd key) (leads_on key pl)"
    using ap unfolding c(3) by (auto simp: apart_def)
  note e = add_entry_spec[OF c(1) key free n]
  have k: "k0 \<noteq> []" "k1 \<noteq> []" "wf_payload p0" "wf_payload p1" using wf by auto
  have none: "slot_den den (Some (k0, p0)) q = None \<and> slot_den den (Some (k1, p1)) q = None" if "covers key pl q" for q
    using slot_den_apart[OF key(1) k(1) ap(1) k(3) that] slot_den_apart[OF key(1) k(2) ap(2) k(4) that] by simp
  show ?thesis
    using e none slot_den_covers[OF key(2), of key] unfolding c(2)
    by (auto simp: written_def is_used_def wf_byte_iff write_den_def covers_self fun_eq_iff simp del: slot_den_simps wf_node_simps)
qed

lemma clear_after_cleaning:
  assumes S: "slice_utils_ok S" and w: "can_write key pl ln0" and s: "swap_payload_exact_key key pl ln0 = None"
    and m: "(k, p) \<in> slots_of (remove_dangling_payload_along_key S key ln0)"
  shows "clear_of key pl k p"
proof -
  have wf0: "wf_node (ListN ln0)" using w by (simp add: can_write_def)
  note r = remove_dangling_spec[OF S wf0, where key = key]
  have m0: "(k, p) \<in> slots_of ln0" using r(3) m by auto
  have "\<not> (k = key \<and> is_child p = is_child pl)"
    using s m0 by (cases ln0) (auto simp: swap_payload_exact_key_def holds_exact_def split: if_splits option.splits)
  moreover have "p = Child EmptyN \<Longrightarrow> \<not> prefix k key" using r(4) m by auto
  ultimately show ?thesis
    using wf_slot_elem[OF wf0 m0] w m0 unfolding clear_of_def can_write_def strict_prefix_def by blast
qed

lemma can_write_sub:
  assumes "can_write key pl ln0" "0 < splits_at key k" "clear_of key pl k p"
  shows "can_write (drop (splits_at key k) key) pl (LN (Some (drop (splits_at key k) k, p)) None)"
proof -
  note l = splits_at_less[OF assms(2)]
  have c: "clear_of key pl k p" by fact
  have pre: "prefix (drop (splits_at key k) a) (drop (splits_at key k) b) \<Longrightarrow> take (splits_at key k) a = take (splits_at key k) b
       \<Longrightarrow> prefix a b" for a b :: path
    by (metis append_take_drop_id same_prefix_prefix)
  have "strict_prefix (drop (splits_at key k) k) (drop (splits_at key k) key) \<Longrightarrow> strict_prefix k key"
    using pre[of k key] l(3) by (auto simp: strict_prefix_def)
  moreover have "prefix (drop (splits_at key k) key) (drop (splits_at key k) k) \<Longrightarrow> prefix key k"
    using pre[of key k] l(3) by simp
  ultimately show ?thesis
    using assms(1) c l(1,2) by (auto simp: can_write_def clear_of_def)
qed

lemma pair_order:
  assumes "key \<noteq> []" "clear_of key pl k p" "apart key pl k p"
  shows "should_swap_keys k key \<Longrightarrow> wf_pair key pl k p"
    and "\<not> should_swap_keys k key \<Longrightarrow> wf_pair k p key pl"
proof -
  have k: "k \<noteq> []" "k = key \<Longrightarrow> p \<noteq> Child EmptyN \<and> pl \<noteq> Child EmptyN" using assms(2) by (auto simp: clear_of_def)
  have one: "length key = 1 \<or> length k = 1" if "hd key = hd k"
    using assms(1,3) k(1) that by (cases key; cases k) (auto simp: apart_def leads_on_def)
  show "wf_pair key pl k p" if "should_swap_keys k key"
    by (rule wf_pairI; use assms(1,3) k that one in \<open>cases key; cases k; auto simp: should_swap_keys_def\<close>)
  show "wf_pair k p key pl" if "\<not> should_swap_keys k key"
    by (rule wf_pairI; use assms(1,3) k that one in \<open>cases key; cases k; auto simp: should_swap_keys_def apart_commute\<close>)
qed

lemma hd_not_in_region:
  fixes p p' :: "'v voc"
  assumes "k \<noteq> []" "k' \<noteq> []" "hd k \<noteq> hd k'" "wf_payload p'" "covers k p q"
  shows "slot_den den (Some (k', p')) q = None"
  using slot_den_apart[of k k' p p' q] assms by (simp add: apart_def)

lemma splits_hd: "0 < splits_at key k \<Longrightarrow> key \<noteq> [] \<and> k \<noteq> [] \<and> hd key = hd k"
  by (cases key; cases k) (auto simp: splits_at_def split: if_splits)

lemma written_one:
  assumes S: "slice_utils_ok S" and no_swap: "swap_payload_exact_key key pl ln0 = None"
    and key: "key \<noteq> []" "wf_payload pl"
    and clear: "\<And>k p. (k, p) \<in> slots_of (remove_dangling_payload_along_key S key ln0) \<Longrightarrow> clear_of key pl k p"
    and split_step: "\<And>k p. 0 < splits_at key k \<Longrightarrow> clear_of key pl k p \<Longrightarrow>
      written (drop (splits_at key k) key) pl (LN (Some (drop (splits_at key k) k, p)) None)
        (set_payload_abstract S (drop (splits_at key k) key) pl (LN (Some (drop (splits_at key k) k, p)) None))"
    and ln: "remove_dangling_payload_along_key S key ln0 = LN (Some (k0, p0)) None"
    and wf: "wf_node (ListN (LN (Some (k0, p0)) None))"
    and take: "written key pl (LN None None) (set_payload_abstract S key pl (LN None None))"
  shows "written key pl (LN (Some (k0, p0)) None) (set_payload_abstract S key pl ln0)"
proof -
  have c: "clear_of key pl k0 p0" using clear ln by simp
  note step = set_step_one[OF S no_swap ln]
  show ?thesis
  proof (cases "swallows key pl k0 p0")
    case True
    then show ?thesis using written_swallow(1)[OF take c True] step by simp
  next
    case False
    note nsw = this
    show ?thesis
    proof (cases "0 < splits_at key k0")
      case True
      have "wf_slots (Some (take (splits_at key k0) k0, Child (ListN child))) None" for child
        using wf True by auto
      then show ?thesis
        using written_into_slot(1)[OF split_step[OF True c] True, of None] step nsw True by simp
    next
      case False
      have ap: "apart key pl k0 p0" using not_split_apart[OF key(1) c nsw] False by simp
      have "placed key pl (Some (k0, p0)) (if should_swap_keys k0 key then set_payload_0_shift_existing key pl (LN (Some (k0, p0)) None)
                 else set_payload_1_no_overflow key pl (LN (Some (k0, p0)) None))"
        using set_payload_0_shift_existing_spec[OF wf key] set_payload_1_no_overflow_spec[OF wf key] pair_order[OF key(1) c ap] by simp
      then show ?thesis using written_placed[OF _ ap key c] step nsw False by (simp add: Let_def)
    qed
  qed
qed

lemma written_two:
  assumes S: "slice_utils_ok S" and no_swap: "swap_payload_exact_key key pl ln0 = None"
    and key: "key \<noteq> []" "wf_payload pl"
    and clear: "\<And>k p. (k, p) \<in> slots_of (remove_dangling_payload_along_key S key ln0) \<Longrightarrow> clear_of key pl k p"
    and split_step: "\<And>k p. 0 < splits_at key k \<Longrightarrow> clear_of key pl k p \<Longrightarrow>
      written (drop (splits_at key k) key) pl (LN (Some (drop (splits_at key k) k, p)) None)
        (set_payload_abstract S (drop (splits_at key k) key) pl (LN (Some (drop (splits_at key k) k, p)) None))"
    and ln: "remove_dangling_payload_along_key S key ln0 = LN (Some (k0, p0)) (Some (k1, p1))"
    and wf: "wf_node (ListN (LN (Some (k0, p0)) (Some (k1, p1))))"
    and take: "written key pl (LN (Some (k1, p1)) None) (set_payload_abstract S key pl (LN (Some (k1, p1)) None))"
      "written key pl (LN (Some (k0, p0)) None) (set_payload_abstract S key pl (LN (Some (k0, p0)) None))"
    and fresh: "1 < length key \<Longrightarrow> written (drop 1 key) pl new_list_node (set_payload_abstract S (drop 1 key) pl new_list_node)"
  shows "written key pl (LN (Some (k0, p0)) (Some (k1, p1))) (set_payload_abstract S key pl ln0)"
proof -
  have c: "clear_of key pl k0 p0" "clear_of key pl k1 p1" using clear ln by auto
  have wp: "wf_pair k0 p0 k1 p1" "k0 \<noteq> []" "k1 \<noteq> []" "wf_payload p0" "wf_payload p1" using wf by auto
  note step = set_step_two[OF S no_swap ln]
  consider (sw0) "swallows key pl k0 p0" | (sp0) "\<not> swallows key pl k0 p0" "0 < splits_at key k0"
    | (sw1) "\<not> swallows key pl k0 p0" "splits_at key k0 = 0" "swallows key pl k1 p1"
    | (sp1) "\<not> swallows key pl k0 p0" "splits_at key k0 = 0" "\<not> swallows key pl k1 p1" "0 < splits_at key k1"
    | (dense) "\<not> swallows key pl k0 p0" "splits_at key k0 = 0" "\<not> swallows key pl k1 p1" "splits_at key k1 = 0"
    by blast
  then show ?thesis
  proof cases
    case sw0
    then show ?thesis using written_swallow(1)[OF take(1) c(1) sw0] step by simp
  next
    case sp0
    note l = splits_at_less[OF sp0(2)] and h = splits_hd[OF sp0(2)]
    have lt: "hd k0 < hd k1" using wp l(2) sp0(2) by (auto simp: wf_pair_def)
    then have "wf_slots (Some (take (splits_at key k0) k0, Child (ListN child))) (Some (k1, p1))" for child
      using wf l(2) sp0(2) by (auto simp: wf_pair_def)
    moreover have "slot_den den (Some (k1, p1)) q = None" if "covers key pl q" for q
      using hd_not_in_region[OF key(1) wp(3) _ wp(5) that] lt h by auto
    ultimately show ?thesis
      using written_into_slot(1)[OF split_step[OF sp0(2) c(1)] sp0(2), of "Some (k1, p1)"] step sp0 wp(5) by simp
  next
    case sw1
    then show ?thesis using written_swallow(2)[OF take(2) c(2) sw1(3)] step by simp
  next
    case sp1
    note l = splits_at_less[OF sp1(4)]
    have ap: "apart key pl k0 p0" using not_split_apart[OF key(1) c(1) sp1(1,2)] .
    have "wf_slots (Some (k0, p0)) (Some (take (splits_at key k1) k1, Child (ListN child)))" for child
      using wf l(2) sp1(4) by (auto simp: wf_pair_def split: if_splits)
    moreover have "slot_den den (Some (k0, p0)) q = None" if "covers key pl q" for q
      using slot_den_apart[OF key(1) wp(2) ap wp(4) that] .
    ultimately show ?thesis
      using written_into_slot(2)[OF split_step[OF sp1(4) c(2)] sp1(4), of "Some (k0, p0)"] step sp1 wp(4) by simp
  next
    case dense
    have ap: "apart key pl k0 p0" "apart key pl k1 p1"
      using not_split_apart[OF key(1) c(1) dense(1,2)] not_split_apart[OF key(1) c(2) dense(3,4)] by auto
    note d = written_dense[OF wf key ap]
    show ?thesis
    proof (cases "1 < length key")
      case True
      obtain old cr child where R: "set_payload_abstract S (drop 1 key) pl new_list_node = Ok (old, cr, child)"
        using fresh[OF True] by (cases "set_payload_abstract S (drop 1 key) pl new_list_node") (auto simp: written_def new_list_node_def is_used_def)
      have "wf_node (ListN child)" "den (ListN child) q = slot_den den (Some (tl key, pl)) q" for q
        using fresh[OF True, unfolded R] slot_den_covers[OF key(2), of "tl key" q]
        by (auto simp: written_def new_list_node_def write_den_def drop_Suc ln_den_fun(1) simp del: slot_den_simps(2,3))
      then show ?thesis using d[of "ListN child"] step dense R True by (simp add: add_entry_def)
    next
      case False
      then show ?thesis using d[of EmptyN] step dense by (simp add: add_entry_def)
    qed
  qed
qed

lemma set_payload_abstract_written:
  assumes "slice_utils_ok S" and "can_write key pl ln"
  shows "written key pl ln (set_payload_abstract S key pl ln)"
  using assms(2)
proof (induction "3 * length key + used_slots ln" arbitrary: key ln rule: less_induct)
  case less
  note S = assms(1)
  have key: "key \<noteq> []" "wf_payload pl" and wf0: "wf_node (ListN ln)" using less.prems by (auto simp: can_write_def)
  note rd = remove_dangling_spec[OF S wf0, where key = key]
  let ?ln = "remove_dangling_payload_along_key S key ln"
  have used: "used_slots ln' \<le> 2" for ln' :: "('v node, 'v) list_node" by (simp add: used_slots_def)
  have clear: "(k, p) \<in> slots_of ?ln \<Longrightarrow> swap_payload_exact_key key pl ln = None \<Longrightarrow> clear_of key pl k p" for k p
    using clear_after_cleaning[OF S less.prems] by blast
  have sub: "can_write key pl ln'" if "wf_node (ListN ln')" "slots_of ln' \<subseteq> slots_of ?ln" for ln'
    using less.prems that rd(3) unfolding can_write_def by blast
  have IHs: "written (drop (splits_at key k) key) pl (LN (Some (drop (splits_at key k) k, p)) None)
      (set_payload_abstract S (drop (splits_at key k) key) pl (LN (Some (drop (splits_at key k) k, p)) None))"
    if "0 < splits_at key k" "clear_of key pl k p" for k p
    using splits_at_less[OF that(1)] that can_write_sub[OF less.prems that]
    by (intro less.hyps) (auto simp: used_slots_def is_used_def)
  have IHt: "written key pl ln' (set_payload_abstract S key pl ln')"
    if "used_slots ln' < used_slots ?ln" "wf_node (ListN ln')" "slots_of ln' \<subseteq> slots_of ?ln" for ln'
    using that rd(5) sub by (intro less.hyps) auto
  show ?case
  proof (cases "swap_payload_exact_key key pl ln")
    case (Some r)
    obtain s0 s1 old ln' where r: "ln = LN s0 s1" "r = (old, ln')" by (cases ln; cases r)
    then show ?thesis
      using written_exact[of key pl s0 s1 old ln'] less.prems Some by (simp add: set_payload_abstract.simps)
  next
    case None
    note clear = clear[OF _ None]
    have "written key pl ?ln (set_payload_abstract S key pl ln)"
    proof (cases ?ln)
      case (LN s0 s1)
      have wf: "wf_node (ListN (LN s0 s1))" using rd(1) LN by simp
      then consider (none) "s0 = None" "s1 = None" | (one) k0 p0 where "s0 = Some (k0, p0)" "s1 = None"
        | (two) k0 p0 k1 p1 where "s0 = Some (k0, p0)" "s1 = Some (k1, p1)"
        by (cases "(s0, s1)" rule: wf_slots.cases) auto
      then show ?thesis
      proof cases
        case none
        then show ?thesis using set_step_none[OF S None] LN written_none[OF key] by simp
      next
        case one
        have "written key pl (LN None None) (set_payload_abstract S key pl (LN None None))"
          using one by (intro IHt) (auto simp: LN used_slots_def is_used_def)
        then show ?thesis
          using written_one[OF S None key clear IHs, of k0 p0] one wf LN by simp
      next
        case two
        have "written key pl (LN (Some (k1, p1)) None) (set_payload_abstract S key pl (LN (Some (k1, p1)) None))"
          "written key pl (LN (Some (k0, p0)) None) (set_payload_abstract S key pl (LN (Some (k0, p0)) None))"
          using two wf by (auto intro!: IHt simp: LN used_slots_def is_used_def)
        moreover have "written (drop 1 key) pl new_list_node (set_payload_abstract S (drop 1 key) pl new_list_node)" if "1 < length key"
          using that key(2) by (intro less.hyps) (auto simp: used_slots_def new_list_node_def is_used_def can_write_def)
        ultimately show ?thesis
          using written_two[OF S None key clear IHs, of k0 p0 k1 p1] two wf LN by simp
      qed
    qed
    then show ?thesis by (rule written_transfer) (use rd in auto)
  qed
qed

end
