(* ===== verification/List_Ops.thy ===== *)
theory List_Ops
  imports List_Set
begin

text \<open>
  The \<open>TrieNode\<close> operations of \<open>LineListNode\<close> (\<open>src/line_list_node.rs\<close>): queries on the two slots,
  writes, removals with the zipper root's prune limit, and the extraction of a subtrie.  An
  operation that takes \<open>&mut self\<close> returns the node after it; \<open>Panic\<close> is an \<open>unwrap\<close>, an
  \<open>unreachable!()\<close> or an index that fails.
\<close>

subsection \<open>Emptiness\<close>

fun node_is_empty :: "'v node \<Rightarrow> bool" where
  "node_is_empty EmptyN = True"
| "node_is_empty (ListN ln) = (\<not> is_used (slot0 ln))"
| "node_is_empty (ByteN bn) = (length (bn_values bn) = 0)"

fun slot_child :: "('c, 'v) slot option \<Rightarrow> 'c option" where
  "slot_child (Some (k, Child c)) = Some c"
| "slot_child _ = None"

subsection \<open>Queries\<close>

definition ln_key_overlap :: "slice_utils \<Rightarrow> ('c, 'v) list_node \<Rightarrow> path \<Rightarrow> nat" where
  "ln_key_overlap S ln key =
     (let (key0, key1) = get_both_keys ln
      in max (find_prefix_overlap S key key0) (find_prefix_overlap S key key1))"

definition ln_contains_partial_key :: "slice_utils \<Rightarrow> ('c, 'v) list_node \<Rightarrow> path \<Rightarrow> bool" where
  "ln_contains_partial_key S ln key =
     (let (key0, key1) = get_both_keys ln in starts_with S key0 key \<or> starts_with S key1 key)"

definition ln_first_val_depth_along_key :: "slice_utils \<Rightarrow> ('c, 'v) list_node \<Rightarrow> path \<Rightarrow> nat option" where
  "ln_first_val_depth_along_key S ln key =
     (let (key0, key1) = get_both_keys ln in
      if is_used_value (slot0 ln) \<and> starts_with S key key0 then Some (length key0 - 1)
      else if is_used_value (slot1 ln) \<and> starts_with S key key1 then Some (length key1 - 1)
      else None)"

text \<open>The byte of a slot's key that follows \<open>key\<close>.\<close>

definition branch_byte :: "slice_utils \<Rightarrow> path \<Rightarrow> path \<Rightarrow> u8 option" where
  "branch_byte S node_key key =
     (if length key < length node_key \<and> starts_with S node_key key then Some (node_key ! length key) else None)"

definition ln_count_branches :: "slice_utils \<Rightarrow> ('c, 'v) list_node \<Rightarrow> path \<Rightarrow> nat" where
  "ln_count_branches S ln key =
     (let (key0, key1) = get_both_keys ln in
      case (branch_byte S key0 key, branch_byte S key1 key) of
        (None, None) \<Rightarrow> 0
      | (Some _, None) \<Rightarrow> 1
      | (None, Some _) \<Rightarrow> 1
      | (Some c0, Some c1) \<Rightarrow> if c0 = c1 then 1 else 2)"

definition add_branch :: "u8 option \<Rightarrow> byte_mask \<Rightarrow> byte_mask" where
  "add_branch b m = (case b of None \<Rightarrow> m | Some k \<Rightarrow> set_bit m k)"

definition ln_branches_mask :: "slice_utils \<Rightarrow> ('c, 'v) list_node \<Rightarrow> path \<Rightarrow> byte_mask" where
  "ln_branches_mask S ln key =
     (let (key0, key1) = get_both_keys ln
      in add_branch (branch_byte S key1 key) (add_branch (branch_byte S key0 key) EMPTY))"

definition ln_prior_branch_key :: "('c, 'v) list_node \<Rightarrow> path \<Rightarrow> path" where
  "ln_prior_branch_key ln key =
     (if length key = 1 then []
      else let (key0, key1) = get_both_keys ln in
        if 0 < length key1 \<and> length key1 < length key \<and> take (length key1) key = key1 then take (length key1) key
        else if 0 < length key0 \<and> length key0 < length key \<and> take (length key0) key = key0 then take (length key0) key
        else if key0 \<noteq> [] \<and> key1 \<noteq> [] \<and> key \<noteq> [] \<and> hd key0 = hd key \<and> hd key1 = hd key then take 1 key
        else [])"

definition remaining_key :: "path \<Rightarrow> nat \<Rightarrow> path" where
  "remaining_key src_key key_len = (if key_len < length src_key then drop key_len src_key else [])"

definition ln_first_child_from_key :: "slice_utils \<Rightarrow> ('c, 'v) list_node \<Rightarrow> path \<Rightarrow> (path option \<times> 'c option) outcome" where
  "ln_first_child_from_key S ln key =
     (let (key0, key1) = get_both_keys ln; c0 = slot_child (slot0 ln); c1 = slot_child (slot1 ln) in
      if length key = 0 then
        if 0 < length key1 then
          (if key0 = [] then Panic
           else if hd key0 = hd key1 then
             if length key0 = 1 \<and> c0 \<noteq> None then Ret (Some key0, c0)
             else if length key1 = 1 \<and> c1 \<noteq> None then Ret (Some key0, c1)
             else Ret (Some (take 1 key0), None)
           else Ret (Some key0, c0))
        else Ret (Some key0, c0)
      else if length key = 1 \<and> length key0 = 1 \<and> hd key0 = hd key \<and> length key1 = 1 \<and> hd key1 = hd key then
        if c0 \<noteq> None then Ret (Some [], c0) else if c1 \<noteq> None then Ret (Some [], c1) else Panic
      else if length key = 1 \<and> length key0 = 1 \<and> hd key0 = hd key \<and> 1 < length key1 \<and> hd key1 = hd key then
        Ret (Some (remaining_key key1 1), c1)
      else if starts_with S key0 key then Ret (Some (remaining_key key0 (length key)), c0)
      else if starts_with S key1 key then Ret (Some (remaining_key key1 (length key)), c1)
      else Ret (None, None))"

definition ln_child_iter_start :: "('c, 'v) list_node \<Rightarrow> u64 \<times> 'c option" where
  "ln_child_iter_start ln =
     (if is_used_child (slot0 ln) then (1, slot_child (slot0 ln))
      else if is_used_child (slot1 ln) then (2, slot_child (slot1 ln))
      else (0, None))"

definition ln_child_iter_next :: "('c, 'v) list_node \<Rightarrow> u64 \<Rightarrow> u64 \<times> 'c option" where
  "ln_child_iter_next ln token =
     (if token = 1 \<and> is_used_child (slot1 ln) then (2, slot_child (slot1 ln)) else (0, None))"

subsection \<open>Writes\<close>

definition ln_set_val :: "slice_utils \<Rightarrow> path \<Rightarrow> 'v \<Rightarrow> 'v lnode \<Rightarrow> ('v option \<times> bool \<times> 'v lnode, 'v node) result" where
  "ln_set_val S key val ln =
     (case set_payload_abstract S key (Val val) ln of
        Ok (old, created_subnode, ln') \<Rightarrow>
          Ok ((case old of Some (Val v) \<Rightarrow> Some v | _ \<Rightarrow> None), created_subnode, ln')
      | Err replacement \<Rightarrow> Err replacement)"

definition ln_set_branch :: "slice_utils \<Rightarrow> path \<Rightarrow> 'v node \<Rightarrow> 'v lnode \<Rightarrow> (bool \<times> 'v lnode, 'v node) result" where
  "ln_set_branch S key new_node ln =
     (case set_payload_abstract S key (Child new_node) ln of
        Ok (old, created_subnode, ln') \<Rightarrow> Ok (created_subnode, ln')
      | Err replacement \<Rightarrow> Err replacement)"

definition ln_create_dangling :: "slice_utils \<Rightarrow> path \<Rightarrow> 'v lnode \<Rightarrow> (bool \<times> bool \<times> 'v lnode, 'v node) result" where
  "ln_create_dangling S key ln =
     (if \<not> ln_contains_partial_key S ln key then
        (case set_payload_abstract S key (Child EmptyN) ln of
           Ok (old, created_subnode, ln') \<Rightarrow> Ok (True, created_subnode, ln')
         | Err replacement \<Rightarrow> Err replacement)
      else Ok (False, False, ln))"

subsection \<open>Removals\<close>

definition preserve_prune_limit :: "slice_utils \<Rightarrow> path \<Rightarrow> nat \<Rightarrow> 'v lnode \<Rightarrow> 'v lnode outcome" where
  "preserve_prune_limit S key prune_limit ln =
     (if 0 < prune_limit \<and> prune_limit < length key then
        (case ln_create_dangling S (take prune_limit key) ln of
           Ok (_, _, ln') \<Rightarrow> Ret ln'
         | Err _ \<Rightarrow> Panic)
      else Ret ln)"

text \<open>\<open>take_payload().unwrap().into_val()\<close> and its variants.\<close>

definition val_taken :: "('c, 'v) val_or_child option \<times> 'n \<Rightarrow> ('v option \<times> 'n) outcome" where
  "val_taken r = (case r of (Some p, ln) \<Rightarrow> bind_outcome (into_val p) (\<lambda>v. Ret (Some v, ln)) | (None, ln) \<Rightarrow> Panic)"

definition child_taken :: "('c, 'v) val_or_child option \<times> 'n \<Rightarrow> ('c option \<times> 'n) outcome" where
  "child_taken r = (case r of (Some p, ln) \<Rightarrow> bind_outcome (into_child p) (\<lambda>c. Ret (Some c, ln)) | (None, ln) \<Rightarrow> Panic)"

fun empty_child :: "('v node, 'v) slot option \<Rightarrow> bool" where
  "empty_child (Some (k, Child c)) = node_is_empty c"
| "empty_child _ = False"

fun payload_val :: "('c, 'v) val_or_child \<Rightarrow> 'v option" where
  "payload_val (Val v) = Some v"
| "payload_val (Child c) = None"

definition ln_remove_val :: "slice_utils \<Rightarrow> path \<Rightarrow> nat \<Rightarrow> 'v lnode \<Rightarrow> ('v option \<times> 'v lnode) outcome" where
  "ln_remove_val S key prune_limit ln =
     (let (key0, key1) = get_both_keys ln in
      if length key \<le> prune_limit then
        if is_used_value (slot0 ln) \<and> key0 = key then
          if length key0 = 1 \<and> is_used (slot1 ln) \<and> take 1 key1 = take 1 key0
          then val_taken (take_payload_0 ln)
          else val_taken (swap_payload_0 (Child EmptyN) ln)
        else if is_used_value (slot1 ln) \<and> key1 = key then
          if length key1 = 1 \<and> take 1 key0 = take 1 key1
          then val_taken (take_payload_1 ln)
          else val_taken (swap_payload_1 (Child EmptyN) ln)
        else Ret (None, ln)
      else
        let key0_matches = is_used (slot0 ln) \<and> key0 = key;
            key1_matches = is_used (slot1 ln) \<and> key1 = key;
            taken = (if key0_matches \<and> is_used_value (slot0 ln) then Some (take_payload_0 ln)
                     else if key1_matches \<and> is_used_value (slot1 ln) then Some (take_payload_1 ln)
                     else if key0_matches \<and> empty_child (slot0 ln) then Some (take_payload_0 ln)
                     else if key1_matches \<and> empty_child (slot1 ln) then Some (take_payload_1 ln)
                     else None)
        in case taken of
             None \<Rightarrow> Ret (None, ln)
           | Some (None, _) \<Rightarrow> Panic
           | Some (Some payload, ln') \<Rightarrow>
               bind_outcome (if 0 < prune_limit then preserve_prune_limit S key prune_limit ln' else Ret ln')
                 (\<lambda>ln''. Ret (payload_val payload, ln'')))"

text \<open>\<open>key_len - k\<close> below is only reached with \<open>k\<close> below the key's length, and \<open>key1[0]\<close> with a key
  that is not empty.\<close>

definition ln_remove_dangling :: "slice_utils \<Rightarrow> path \<Rightarrow> nat \<Rightarrow> 'v lnode \<Rightarrow> nat \<times> 'v lnode" where
  "ln_remove_dangling S key min_keep_len ln =
     (let (key0, key1) = get_both_keys ln in
      if length key \<le> min_keep_len then (0, ln)
      else if is_used_child (slot0 ln) \<and> key0 = key \<and> empty_child (slot0 ln) then
        if 0 < min_keep_len then
          let overlap = find_prefix_overlap S key key1 in
          if overlap = length key then (0, ln)
          else (length key - max overlap min_keep_len,
                if overlap < min_keep_len then shorten_key_len_0 min_keep_len ln else snd (take_payload_0 ln))
        else
          (if 0 < length key1 \<and> hd key = hd key1 then length key - 1 else length key, snd (take_payload_0 ln))
      else if is_used_child (slot1 ln) \<and> key1 = key \<and> empty_child (slot1 ln) then
        if 0 < min_keep_len then
          let overlap = find_prefix_overlap S key key0 in
          if overlap = length key then (0, ln)
          else (length key - max overlap min_keep_len,
                if overlap < min_keep_len then shorten_key_len_1 min_keep_len ln else snd (take_payload_1 ln))
        else
          (if hd key = hd key0 then length key - 1 else length key, snd (take_payload_1 ln))
      else (0, ln))"

definition remove_subtries :: "bool \<Rightarrow> bool \<Rightarrow> bool \<Rightarrow> bool \<Rightarrow> path \<Rightarrow> 'v lnode \<Rightarrow> 'v lnode" where
  "remove_subtries remove_0 remove_1 key0_starts_with prune key ln =
     (let key_len = length key;
          ln = (if remove_1 then
                  if prune \<or> key0_starts_with \<or> key_len = 0 then snd (take_payload_1 ln)
                  else snd (swap_payload_1 (Child EmptyN) (shorten_key_len_1 key_len ln))
                else ln)
      in if remove_0 then
           if prune \<or> key_len = 0 then snd (take_payload_0 ln)
           else if key_len = 1 \<and> is_used_value (slot1 ln) \<and> length (slot_key (slot1 ln)) = 1 \<and>
                   hd key = hd (slot_key (slot1 ln)) then snd (take_payload_0 ln)
           else snd (swap_payload_0 (Child EmptyN) (shorten_key_len_0 key_len ln))
         else ln)"

definition ln_remove_all_branches :: "slice_utils \<Rightarrow> path \<Rightarrow> nat \<Rightarrow> 'v lnode \<Rightarrow> (bool \<times> 'v lnode) outcome" where
  "ln_remove_all_branches S key prune_limit ln =
     (let key_len = length key; (key0, key1) = get_both_keys ln;
          key0_starts_with = starts_with S key0 key;
          remove_0 = (key0_starts_with \<and> (key_len < length key0 \<or> is_used_child (slot0 ln)));
          remove_1 = (starts_with S key1 key \<and> (key_len < length key1 \<or> is_used_child (slot1 ln)));
          had_branches =
            ((remove_0 \<and> (key_len < length key0 \<or> \<not> empty_child (slot0 ln))) \<or>
             (remove_1 \<and> (key_len < length key1 \<or> \<not> empty_child (slot1 ln))));
          ln' = remove_subtries remove_0 remove_1 key0_starts_with (prune_limit < key_len) key ln
      in bind_outcome
           (if 0 < prune_limit \<and> prune_limit < key_len \<and> (remove_0 \<or> remove_1)
            then preserve_prune_limit S key prune_limit ln' else Ret ln')
           (\<lambda>ln''. Ret (had_branches, ln'')))"

definition unmasked :: "slice_utils \<Rightarrow> ('v node, 'v) slot option \<Rightarrow> path \<Rightarrow> byte_mask \<Rightarrow> nat \<Rightarrow> bool" where
  "unmasked S s key m prune_limit =
     (let k = slot_key s in
      starts_with S k key \<and>
      (if length key < length k then \<not> test_bit m (k ! length key)
       else prune_limit < length key \<and> is_used_child s \<and> is_dangling s))"

definition ln_remove_unmasked_branches :: "slice_utils \<Rightarrow> path \<Rightarrow> byte_mask \<Rightarrow> nat \<Rightarrow> 'v lnode \<Rightarrow> 'v lnode outcome" where
  "ln_remove_unmasked_branches S key m prune_limit ln =
     (let remove_0 = unmasked S (slot0 ln) key m prune_limit;
          remove_1 = unmasked S (slot1 ln) key m prune_limit;
          ln' = remove_subtries remove_0 remove_1 (starts_with S (slot_key (slot0 ln)) key) (prune_limit < length key) key ln
      in if 0 < prune_limit \<and> prune_limit < length key \<and> (remove_0 \<or> remove_1)
         then preserve_prune_limit S key prune_limit ln' else Ret ln')"

subsection \<open>Subtries\<close>

text \<open>\<open>AbstractNodeRef\<close>: a borrowed node (the node itself, or the child behind a link), the slot a
  \<open>TinyRefNode\<close> refers to, or a node made for the caller.\<close>

datatype 'v node_ref =
    RefNone | BorrowedDyn "'v node" | BorrowedRc "'v node" | BorrowedTiny path "'v voc" | OwnedRc "'v node"

definition sub_node_ref :: "path \<Rightarrow> 'v voc \<Rightarrow> 'v node_ref" where
  "sub_node_ref new_key p =
     (if length new_key \<le> 7 then BorrowedTiny new_key p
      else OwnedRc (ListN (set_payload_0 new_key p new_list_node)))"

definition ln_get_node_at_key :: "slice_utils \<Rightarrow> 'v lnode \<Rightarrow> path \<Rightarrow> 'v node_ref" where
  "ln_get_node_at_key S ln key =
     (if length key = 0 then (if is_used (slot0 ln) then BorrowedDyn (ListN ln) else RefNone)
      else case (slot0 ln, slot1 ln) of (s0, s1) \<Rightarrow>
        (if is_used_child s0 \<and> slot_key s0 = key then BorrowedRc (the (slot_child s0))
         else if is_used_child s1 \<and> slot_key s1 = key then BorrowedRc (the (slot_child s1))
         else if length key < length (slot_key s0) \<and> starts_with S (slot_key s0) key
         then sub_node_ref (drop (length key) (slot_key s0)) (snd (the s0))
         else if length key < length (slot_key s1) \<and> starts_with S (slot_key s1) key
         then sub_node_ref (drop (length key) (slot_key s1)) (snd (the s1))
         else RefNone))"

text \<open>\<open>AbstractNodeRef::into_option\<close> (\<open>src/trie_node.rs\<close>); a \<open>TinyRefNode\<close> is expanded to a list
  node by \<open>into_full\<close> (\<open>src/tiny_node.rs\<close>).\<close>

fun ref_into_option :: "'v node_ref \<Rightarrow> 'v node option" where
  "ref_into_option RefNone = None"
| "ref_into_option (BorrowedDyn n) = Some n"
| "ref_into_option (BorrowedRc n) = (if node_is_empty n then None else Some n)"
| "ref_into_option (BorrowedTiny k p) = Some (ListN (set_payload_0 k p new_list_node))"
| "ref_into_option (OwnedRc n) = Some n"

definition sub_node_taken :: "path \<Rightarrow> ('v node, 'v) val_or_child option \<times> 'v lnode \<Rightarrow> ('v node option \<times> 'v lnode) outcome" where
  "sub_node_taken new_key r =
     (case r of
        (Some p, ln) \<Rightarrow> Ret (Some (ListN (set_payload_0 new_key p new_list_node)), ln)
      | (None, ln) \<Rightarrow> Panic)"

definition ln_take_node_at_key :: "slice_utils \<Rightarrow> path \<Rightarrow> nat \<Rightarrow> 'v lnode \<Rightarrow> ('v node option \<times> 'v lnode) outcome" where
  "ln_take_node_at_key S key prune_limit ln =
     (let (key0, key1) = get_both_keys ln;
          prune = prune_limit < length key;
          val_0_here = (length key = 1 \<and> is_used_value (slot0 ln) \<and> length key0 = 1 \<and> hd key0 = hd key);
          val_1_here = (length key = 1 \<and> is_used_value (slot1 ln) \<and> length key1 = 1 \<and> hd key1 = hd key);
          result =
            (if is_used_child (slot0 ln) \<and> key0 = key then
               child_taken (if prune \<or> val_1_here then take_payload_0 ln else swap_payload_0 (Child EmptyN) ln)
             else if is_used_child (slot1 ln) \<and> key1 = key then
               child_taken (if prune \<or> val_0_here then take_payload_1 ln else swap_payload_1 (Child EmptyN) ln)
             else if length key < length key0 \<and> starts_with S key0 key then
               sub_node_taken (drop (length key) key0)
                 (if prune then take_payload_0 ln
                  else swap_payload_0 (Child EmptyN) (shorten_key_len_0 (length key) ln))
             else if length key < length key1 \<and> starts_with S key1 key then
               sub_node_taken (drop (length key) key1)
                 (if prune \<or> val_0_here then take_payload_1 ln
                  else swap_payload_1 (Child EmptyN) (shorten_key_len_1 (length key) ln))
             else Ret (None, ln))
      in bind_outcome result (\<lambda>(taken, ln').
           if taken \<noteq> None then bind_outcome (preserve_prune_limit S key prune_limit ln') (\<lambda>ln''. Ret (taken, ln''))
           else Ret (None, ln')))"

end
