(* ===== verification/List_Ops_Laws.thy ===== *)
theory List_Ops_Laws
  imports List_Ops
begin

text \<open>
  What the operations of a list node do to the map it stands for: writes and grafts, the branch
  queries, the removal of a value with the zipper root's prune limit, the extraction of a subtrie.
\<close>

subsection \<open>Writes\<close>

lemma list_set_val_spec:
  assumes "slice_utils_ok S" "can_write key (Val v) ln"
  shows "case ln_set_val S key v ln of
      Ok (old, created_subnode, ln') \<Rightarrow>
        wf_node (ListN ln') \<and> den (ListN ln') = (den (ListN ln))(key \<mapsto> v) \<and> old = den (ListN ln) key
    | Err n \<Rightarrow>
        used_slots ln = 2 \<and> (\<exists>bn. n = ByteN bn) \<and> wf_node n \<and> den n = (den (ListN ln))(key \<mapsto> v) \<and> den (ListN ln) key = None"
proof -
  have upd: "write_den key (Val v) f = f(key \<mapsto> v)" for f
    by (auto simp: write_den_def covers_def fun_eq_iff)
  have two: "is_used (slot1 ln) \<Longrightarrow> used_slots ln = 2"
    using assms(2) by (cases ln; cases "slot0 ln") (auto simp: can_write_def used_slots_def is_used_def)
  have w: "written key (Val v) ln (set_payload_abstract S key (Val v) ln)"
    by (rule set_payload_abstract_written[OF assms])
  show ?thesis
    using w two by (auto simp: ln_set_val_def written_def upd fun_eq_iff split: result.splits option.splits)
qed

text \<open>C23: Writing a value into a list node at a path its links do not lead away from stores exactly
  that value: every other path keeps its value, the old value at the path comes back, the node stays
  well formed, and a byte node replaces it only when both slots were in use (and then there was
  no old value).\<close>

theorem list_set_val_correct:
  assumes "slice_utils_ok S" "can_write key (Val v) ln"
  shows "case ln_set_val S key v ln of
      Ok (old, created_subnode, ln') \<Rightarrow>
        wf_node (ListN ln') \<and> den (ListN ln') = (den (ListN ln))(key \<mapsto> v) \<and> old = den (ListN ln) key
    | Err n \<Rightarrow>
        used_slots ln = 2 \<and> (\<exists>bn. n = ByteN bn) \<and> wf_node n \<and> den n = (den (ListN ln))(key \<mapsto> v) \<and> den (ListN ln) key = None"
  by (rule list_set_val_spec[OF assms])

theorem list_set_val_correct_witness:
  "\<exists>created_subnode ln'. ln_set_val std_slice_utils [1, 3] 9 (LN (Some ([1, 2], Val (7::nat))) None) = Ok (None, created_subnode, ln') \<and>
     den (ListN ln') [1, 3] = Some 9 \<and> den (ListN ln') [1, 2] = Some 7"
  using list_set_val_correct[OF std_slice_utils_ok, of "[1, 3]" 9 "LN (Some ([1, 2], Val (7::nat))) None"]
  by (auto simp: can_write_def KEY_BYTES_CNT_def used_slots_def is_used_def fun_eq_iff split: result.splits)

text \<open>C24: Grafting a node into a list node replaces everything strictly below the path with the
  contents of that node and nothing else; the value at the path stays.\<close>

theorem list_set_branch_correct:
  assumes "slice_utils_ok S" "can_write key (Child n) ln"
  shows "case ln_set_branch S key n ln of
      Ok (created_subnode, ln') \<Rightarrow>
        wf_node (ListN ln') \<and>
        den (ListN ln') q = (if strict_prefix key q then den n (drop (length key) q) else den (ListN ln) q)
    | Err n' \<Rightarrow>
        used_slots ln = 2 \<and> wf_node n' \<and>
        den n' q = (if strict_prefix key q then den n (drop (length key) q) else den (ListN ln) q)"
proof -
  have upd: "write_den key (Child n) f q = (if strict_prefix key q then den n (drop (length key) q) else f q)" for f
    by (auto simp: write_den_def covers_def)
  have two: "is_used (slot1 ln) \<Longrightarrow> used_slots ln = 2"
    using assms(2) by (cases ln; cases "slot0 ln") (auto simp: can_write_def used_slots_def is_used_def)
  have w: "written key (Child n) ln (set_payload_abstract S key (Child n) ln)"
    by (rule set_payload_abstract_written[OF assms])
  show ?thesis
    using w two by (auto simp: ln_set_branch_def written_def upd fun_eq_iff split: result.splits)
qed
theorem list_set_branch_correct_witness:
  "\<exists>created_subnode ln'. ln_set_branch std_slice_utils [1] (ListN (LN (Some ([4], Val 8)) None)) (LN (Some ([1, 2], Val (7::nat))) None) = Ok (created_subnode, ln') \<and>
     den (ListN ln') [1, 4] = Some 8"
  using list_set_branch_correct[OF std_slice_utils_ok, where key = "[1]" and n = "ListN (LN (Some ([4], Val 8)) None)" and
      ln = "LN (Some ([1, 2], Val (7::nat))) None" and q = "[1, 4]"]
  by (auto simp: can_write_def KEY_BYTES_CNT_def used_slots_def is_used_def split: result.splits)

subsection \<open>Queries\<close>

lemma slot_val_at_iff: "slot_val_at s key = Some v \<longleftrightarrow> s = Some (key, Val v)"
  by (cases s; cases "snd (the s)") (auto split: if_splits)

lemma wf_one_val:
  "wf_list ln \<Longrightarrow> (key, Val v) \<in> slots_of ln \<Longrightarrow> (key, Val w) \<in> slots_of ln \<Longrightarrow> v = w"
  by (cases ln; cases "(slot0 ln, slot1 ln)" rule: wf_slots.cases) (auto simp: wf_pair_def split: if_splits)

lemma ln_get_val_iff: "wf_list ln \<Longrightarrow> ln_get_val ln key = Some v \<longleftrightarrow> (key, Val v) \<in> slots_of ln"
  using wf_one_val[of ln key]
  by (auto simp: ln_get_val_def slots_of_def slot_val_at_iff split: option.splits)

definition ln_paths :: "'v lnode \<Rightarrow> path set" where
  "ln_paths ln = {q. \<exists>(k, p) \<in> slots_of ln. prefix q k}"

lemma branch_byte_iff:
  "slice_utils_ok S \<Longrightarrow> branch_byte S k key = Some b \<longleftrightarrow> prefix (key @ [b]) k"
proof -
  assume S: "slice_utils_ok S"
  have "prefix (key @ [b]) k \<longleftrightarrow> length key < length k \<and> prefix key k \<and> k ! length key = b"
  proof
    assume "prefix (key @ [b]) k"
    then obtain z where "k = key @ [b] @ z" by (auto elim: prefixE)
    then show "length key < length k \<and> prefix key k \<and> k ! length key = b" by (simp add: nth_append)
  next
    assume a: "length key < length k \<and> prefix key k \<and> k ! length key = b"
    then obtain z where z: "k = key @ z" by (auto elim: prefixE)
    then show "prefix (key @ [b]) k" using a by (cases z) (auto simp: nth_append)
  qed
  then show ?thesis using S by (auto simp: branch_byte_def)
qed

lemma slots_cases:
  assumes "wf_node (ListN ln)"
  obtains (none) "ln = LN None None"
    | (one) k0 p0 where "ln = LN (Some (k0, p0)) None" "k0 \<noteq> []" "length k0 \<le> KEY_BYTES_CNT" "wf_payload p0"
    | (two) k0 p0 k1 p1 where "ln = LN (Some (k0, p0)) (Some (k1, p1))" "k0 \<noteq> []" "k1 \<noteq> []"
        "length k0 + length k1 \<le> KEY_BYTES_CNT" "wf_pair k0 p0 k1 p1" "wf_payload p0" "wf_payload p1"
  using assms by (cases ln; cases "(slot0 ln, slot1 ln)" rule: wf_slots.cases) auto

lemma test_bit_set_bit: "test_bit (set_bit m k) b \<longleftrightarrow> test_bit m b \<or> b = k"
  using mbit_set_bit[of m k "unat b"] by (auto simp: test_bit_mbit unat_eq_iff_u8)

lemma test_bit_EMPTY [simp]: "\<not> test_bit EMPTY b"
  by (simp add: test_bit_mbit)

lemma list_branches_spec:
  assumes "slice_utils_ok S" "wf_node (ListN ln)"
  shows "(test_bit (ln_branches_mask S ln key) b \<longleftrightarrow> key @ [b] \<in> ln_paths ln) \<and>
    ln_count_branches S ln key = card {b. key @ [b] \<in> ln_paths ln}"
proof -
  let ?b0 = "branch_byte S (slot_key (slot0 ln)) key" and ?b1 = "branch_byte S (slot_key (slot1 ln)) key"
  have unused: "branch_byte S [] key = None" by (simp add: branch_byte_def)
  have iff: "key @ [b] \<in> ln_paths ln \<longleftrightarrow> ?b0 = Some b \<or> ?b1 = Some b" for b
    using assms(2) branch_byte_iff[OF assms(1)]
    by (elim slots_cases[of ln]) (auto simp: ln_paths_def slots_of_def unused)
  have "test_bit (ln_branches_mask S ln key) b \<longleftrightarrow> ?b0 = Some b \<or> ?b1 = Some b"
    by (auto simp: ln_branches_mask_def get_both_keys_def add_branch_def test_bit_set_bit split: option.splits)
  moreover have "{b. key @ [b] \<in> ln_paths ln} = set_option ?b0 \<union> set_option ?b1"
    unfolding iff by auto
  then have "card {b. key @ [b] \<in> ln_paths ln} = ln_count_branches S ln key"
    by (auto simp: ln_count_branches_def get_both_keys_def split: option.splits)
  ultimately show ?thesis using iff by simp
qed

text \<open>The branch mask of a list node at a path has exactly the bytes by which the node's keys
  continue that path, and the branch count is the number of them.\<close>

theorem list_branches_correct:
  assumes "slice_utils_ok S" "wf_node (ListN ln)"
  shows "(test_bit (ln_branches_mask S ln key) b \<longleftrightarrow> key @ [b] \<in> ln_paths ln) \<and>
    ln_count_branches S ln key = card {b. key @ [b] \<in> ln_paths ln}"
  using list_branches_spec[OF assms] .

theorem list_branches_correct_witness:
  "ln_count_branches std_slice_utils (LN (Some ([1], Val (0::nat))) (Some ([1, 2], Val 5)) :: nat lnode) [] =
     card {b. [] @ [b] \<in> ln_paths (LN (Some ([1], Val (0::nat))) (Some ([1, 2], Val 5)))}"
  using list_branches_correct[OF std_slice_utils_ok, where b = 1 and key = "[]" and
      ln = "LN (Some ([1], Val (0::nat))) (Some ([1, 2], Val 5))"]
  by (simp add: wf_pair_def KEY_BYTES_CNT_def)

lemma list_first_child_spec:
  assumes "slice_utils_ok S" "wf_node (ListN ln)" "is_used (slot0 ln)"
  shows "\<exists>r c. ln_first_child_from_key S ln key = Ret (r, c) \<and>
     (case r of None \<Rightarrow> key \<notin> ln_paths ln \<and> c = None
      | Some ext \<Rightarrow> key @ ext \<in> ln_paths ln \<and> (\<forall>n. c = Some n \<longrightarrow> (key @ ext, Child n) \<in> slots_of ln))"
proof -
  note S = assms(1)
  have rem: "prefix key k \<Longrightarrow> key @ remaining_key k (length key) = k" for k
    by (auto simp: remaining_key_def elim: prefixE)
  have mem: "slot_child s = Some n \<Longrightarrow> s \<noteq> None \<Longrightarrow> (slot_key s, Child n) \<in> set_option s" for s :: "('v node, 'v) slot option" and n
    by (cases s rule: slot_child.cases) auto
  show ?thesis
    using assms(2)
  proof (cases rule: slots_cases)
    case none
    then show ?thesis using assms(3) by (simp add: is_used_def)
  next
    case (one k0 p0)
    then show ?thesis
      using rem[of k0] S mem[of "Some (k0, p0)"]
      by (cases "key = []") (auto simp: ln_first_child_from_key_def get_both_keys_def ln_paths_def Let_def)
  next
    case (two k0 p0 k1 p1)
    have ch: "(slot_child (Some (k0, p0)) = None) = (\<not> is_child p0)" "(slot_child (Some (k1, p1)) = None) = (\<not> is_child p1)"
      by (cases p0; simp) (cases p1; simp)
    show ?thesis
      using two(2-5) rem[of k0] rem[of k1] S mem[of "Some (k0, p0)"] mem[of "Some (k1, p1)"] ch
      unfolding two(1) ln_first_child_from_key_def get_both_keys_def ln_paths_def Let_def
      by (cases k0; cases k1; cases key; auto simp: wf_pair_def remaining_key_def split: if_splits)
  qed
qed

text \<open>\<open>first_child_from_key\<close> never reaches its \<open>unreachable!()\<close> in a well-formed node, and what it
  returns lies below the key: \<open>key\<close> extended by the returned bytes is a path of the node, and the
  returned link is the one stored there.\<close>

theorem list_first_child_sound:
  assumes "slice_utils_ok S" "wf_node (ListN ln)" "is_used (slot0 ln)"
  shows "\<exists>r c. ln_first_child_from_key S ln key = Ret (r, c) \<and>
     (case r of None \<Rightarrow> key \<notin> ln_paths ln \<and> c = None
      | Some ext \<Rightarrow> key @ ext \<in> ln_paths ln \<and> (\<forall>n. c = Some n \<longrightarrow> (key @ ext, Child n) \<in> slots_of ln))"
  using list_first_child_spec[OF assms] .

theorem list_first_child_sound_witness:
  "\<exists>r c. ln_first_child_from_key std_slice_utils (LN (Some ([1], Val (0::nat))) (Some ([1, 2], Val 5))) [1] = Ret (r, c) \<and>
     (case r of None \<Rightarrow> [1] \<notin> ln_paths (LN (Some ([1], Val (0::nat))) (Some ([1, 2], Val 5))) \<and> c = None
      | Some ext \<Rightarrow> [1] @ ext \<in> ln_paths (LN (Some ([1], Val (0::nat))) (Some ([1, 2], Val 5))) \<and>
          (\<forall>n. c = Some n \<longrightarrow> ([1] @ ext, Child n) \<in> slots_of (LN (Some ([1], Val (0::nat))) (Some ([1, 2], Val 5)))))"
  by (rule list_first_child_sound[OF std_slice_utils_ok]) (simp_all add: wf_pair_def KEY_BYTES_CNT_def is_used_def)

subsection \<open>Removals\<close>

lemma take_swap_simps [simp]:
  "take_payload_0 (LN (Some (k, p)) s1) = (Some p, LN s1 None)"
  "take_payload_1 (LN s0 (Some (k, p))) = (Some p, LN s0 None)"
  "swap_payload_0 p' (LN (Some (k, p)) s1) = (Some p, LN (Some (k, p')) s1)"
  "swap_payload_1 p' (LN s0 (Some (k, p))) = (Some p, LN s0 (Some (k, p')))"
  "shorten_key_len_0 n (LN (Some (k, p)) s1) = LN (Some (take n k, p)) s1"
  "shorten_key_len_1 n (LN s0 (Some (k, p))) = LN s0 (Some (take n k, p))"
  by (cases s1; simp add: take_payload_0_def take_payload_1_def shift_1_to_0_def is_used_def swap_payload_0_def
      swap_payload_1_def shorten_key_len_0_def shorten_key_len_1_def)+

lemma taken_simps [simp]:
  "val_taken (Some (Val v), ln) = Ret (Some v, ln)"
  "child_taken (Some (Child c), ln) = Ret (Some c, ln)"
  by (simp_all add: val_taken_def child_taken_def)

text \<open>A node with one slot has room to keep the zipper root's path.\<close>

lemma preserve_prune_limit_ok:
  fixes s :: "('v node, 'v) slot option"
  assumes S: "slice_utils_ok S" and wf: "wf_node (ListN (LN s None))"
    and room: "length (slot_key s) + length key \<le> KEY_BYTES_CNT" and key: "0 < n" "n < length key"
    and pair: "\<And>k p. s = Some (k, p) \<Longrightarrow> hd k \<noteq> hd key \<or> length k = 1 \<and> \<not> is_child p"
  shows "\<exists>ln'. preserve_prune_limit S key n (LN s None) = Ret ln' \<and> wf_node (ListN ln') \<and>
     den (ListN ln') = den (ListN (LN s None)) \<and> ln_paths ln' = ln_paths (LN s None) \<union> {q. prefix q (take n key)}"
proof -
  let ?key = "take n key"
  have k: "?key \<noteq> []" "length ?key = n" "hd ?key = hd key" using key by auto
  show ?thesis
  proof (cases s)
    case None
    have "set_payload_abstract S ?key (Child EmptyN) (LN None None :: 'v lnode) = Ok (None, False, LN (Some (?key, Child EmptyN)) None)"
      using room key by (subst set_payload_abstract.simps)
        (simp add: swap_payload_exact_key_def holds_exact_def remove_dangling_payload_along_key_def is_used_def
          set_payload_0_no_overflow_def None)
    then show ?thesis
      using key k S room None
      by (auto simp: preserve_prune_limit_def ln_create_dangling_def ln_contains_partial_key_def get_both_keys_def
          fun_eq_iff ln_paths_def)
  next
    case (Some e)
    obtain k0 p0 where e: "e = (k0, p0)" by (cases e)
    show ?thesis
    proof (cases "prefix ?key k0")
      case True
      then have "\<And>q. prefix q ?key \<Longrightarrow> prefix q k0" by (auto intro: prefix_order.trans)
      then show ?thesis
        using S key wf k True by (auto simp: Some e preserve_prune_limit_def ln_create_dangling_def
            ln_contains_partial_key_def get_both_keys_def ln_paths_def)
    next
      case False
      have k0: "k0 \<noteq> []" "wf_payload p0" using wf by (auto simp: Some e)
      have pr: "hd k0 \<noteq> hd key \<or> length k0 = 1 \<and> \<not> is_child p0" using pair Some e by simp
      have ne: "k0 \<noteq> ?key" using False by auto
      have ns: "swap_payload_exact_key ?key (Child EmptyN) (LN (Some (k0, p0)) None) = None"
        using ne by (simp add: swap_payload_exact_key_def holds_exact_def)
      have "\<not> prefix k0 ?key \<or> \<not> is_child p0" using pr k0(1) k by (cases k0; cases ?key) auto
      then have rd: "remove_dangling_payload_along_key S ?key (LN (Some (k0, p0)) None) = LN (Some (k0, p0)) None"
        using S by (cases p0) (auto simp: remove_dangling_payload_along_key_def)
      have nsw: "\<not> swallows ?key (Child EmptyN) k0 p0" using False lcp_len_full_iff[of ?key k0] by (auto simp: swallows_def)
      have "splits_at ?key k0 = 0"
        using pr k0(1) k lcp_len_le[of ?key k0] by (cases k0; cases ?key) (auto simp: splits_at_def split_overlap_def)
      then have st: "set_payload_abstract S ?key (Child EmptyN) (LN (Some (k0, p0)) None) =
          (let r = (if should_swap_keys k0 ?key then set_payload_0_shift_existing ?key (Child EmptyN) (LN (Some (k0, p0)) None)
                 else set_payload_1_no_overflow ?key (Child EmptyN) (LN (Some (k0, p0)) None)) in Ok (None, fst r, snd r))"
        using set_step_one[OF S ns rd] nsw by simp
      have av: "is_available_1 (LN (Some (k0, p0)) None)" using room key Some e by (simp add: is_available_1_def is_used_def)
      have fits: "length ?key \<le> KEY_BYTES_CNT - length k0" using room key Some e by simp
      have ok: "set_payload_abstract S ?key (Child EmptyN) (LN (Some (k0, p0)) None) =
          Ok (None, False, if should_swap_keys k0 ?key then LN (Some (?key, Child EmptyN)) (Some (k0, p0))
              else LN (Some (k0, p0)) (Some (?key, Child EmptyN)))"
        unfolding st using av fits by (simp add: set_payload_0_shift_existing.simps set_payload_1_no_overflow.simps)
      have c: "clear_of ?key (Child EmptyN) k0 p0"
        using k0 ne False pr k wf by (cases k0; cases ?key) (auto simp: clear_of_def Some e strict_prefix_def)
      have ap: "apart ?key (Child EmptyN) k0 p0"
        using pr k by (auto simp: apart_def leads_on_def)
      have pp: "preserve_prune_limit S key n (LN (Some (k0, p0)) None) = Ret (if should_swap_keys k0 ?key then LN (Some (?key, Child EmptyN)) (Some (k0, p0))
              else LN (Some (k0, p0)) (Some (?key, Child EmptyN)))"
        using key ok S k False by (auto simp: preserve_prune_limit_def ln_create_dangling_def ln_contains_partial_key_def get_both_keys_def)
      show ?thesis
        unfolding Some e pp using pair_order[OF k(1) c ap] k k0 fits room key wf
        by (auto simp: Some e fun_eq_iff ln_paths_def)
    qed
  qed
qed

text \<open>The removal of one slot, followed by the restoration of the zipper root's path.\<close>

definition removed :: "path \<Rightarrow> nat \<Rightarrow> 'v lnode \<Rightarrow> (path \<Rightarrow> 'v option) \<Rightarrow> 'v lnode \<Rightarrow> bool" where
  "removed key prune_limit ln f ln' \<longleftrightarrow>
     wf_node (ListN ln') \<and> den (ListN ln') = f \<and> ln_paths ln' \<subseteq> insert [] (ln_paths ln) \<and>
     (\<forall>q \<in> ln_paths ln. q \<noteq> [] \<longrightarrow> length q \<le> prune_limit \<or> \<not> prefix q key \<longrightarrow> q \<in> ln_paths ln')"

lemma prefix_take_len: "prefix q key \<Longrightarrow> length q \<le> n \<Longrightarrow> prefix q (take n key)"
  by (metis append_eq_conv_conj prefix_def take_all_iff take_is_prefix take_take min.absorb2 min_def)

lemma removed_prune:
  fixes s :: "('v node, 'v) slot option"
  assumes S: "slice_utils_ok S" and wf: "wf_node (ListN (LN s None))"
    and room: "length (slot_key s) + length key \<le> KEY_BYTES_CNT" and n: "n < length key"
    and pair: "\<And>k p. s = Some (k, p) \<Longrightarrow> hd k \<noteq> hd key \<or> length k = 1 \<and> \<not> is_child p \<or> length key = 1"
    and f: "f = den (ListN (LN s None))" and paths: "ln_paths ln = ln_paths (LN s None) \<union> {q. prefix q key}"
  shows "\<exists>ln'. (if 0 < n then preserve_prune_limit S key n (LN s None) else Ret (LN s None)) = Ret ln' \<and> removed key n ln f ln'"
    and "\<exists>ln'. preserve_prune_limit S key n (LN s None) = Ret ln' \<and> removed key n ln f ln'"
proof -
  have "\<exists>ln'. (if 0 < n then preserve_prune_limit S key n (LN s None) else Ret (LN s None)) = Ret ln' \<and> removed key n ln f ln'"
  proof (cases "0 < n")
    case True
    have "\<And>q. prefix q (take n key) \<Longrightarrow> prefix q key" by (metis prefix_order.trans take_is_prefix)
    moreover have "\<And>k p. s = Some (k, p) \<Longrightarrow> hd k \<noteq> hd key \<or> length k = 1 \<and> \<not> is_child p" using pair True n by fastforce
    ultimately show ?thesis
      using preserve_prune_limit_ok[OF S wf room True n] True f paths prefix_take_len[of _ key n]
      by (auto simp: removed_def)
  next
    case False
    then show ?thesis using wf f paths by (auto simp: removed_def)
  qed
  then show "\<exists>ln'. (if 0 < n then preserve_prune_limit S key n (LN s None) else Ret (LN s None)) = Ret ln' \<and> removed key n ln f ln'"
    "\<exists>ln'. preserve_prune_limit S key n (LN s None) = Ret ln' \<and> removed key n ln f ln'"
    by (auto simp: preserve_prune_limit_def split: if_splits)
qed

lemma empty_node_den: "wf_node n \<Longrightarrow> node_is_empty n \<Longrightarrow> den n q = None"
proof (cases n)
  case (ListN ln)
  assume "wf_node n" and e: "node_is_empty n"
  then have "wf_node (ListN ln)" by (simp add: ListN)
  then show ?thesis using e by (cases rule: slots_cases) (auto simp: ListN is_used_def)
next
  case (ByteN bn)
  assume "wf_node n" "node_is_empty n"
  then show ?thesis by (auto simp: ByteN bn_den_def bn_get_def split: list.splits)
qed simp

lemma get_val_two:
  "ln_get_val (LN (Some (k0, p0)) (Some (k1, p1))) key =
     or_else_opt (if k0 = key then payload_val p0 else None) (if k1 = key then payload_val p1 else None)"
  by (cases p0; cases p1) (auto simp: ln_get_val_def)

lemma empty_child_den:
  "wf_payload p \<Longrightarrow> empty_child (Some (k, p)) \<Longrightarrow> slot_den den (Some (k, p)) q = None"
  by (cases p) (auto simp: empty_node_den)

lemma wf_pair_sentinel:
  "wf_pair k0 p0 k1 p1 \<Longrightarrow> k0 \<noteq> [] \<Longrightarrow> k1 \<noteq> [] \<Longrightarrow> \<not> (length k0 = 1 \<and> hd k0 = hd k1) \<Longrightarrow> hd k0 < hd k1"
  by (auto simp: wf_pair_def)

lemma list_remove_val_two:
  fixes p0 p1 :: "'v voc"
  assumes S: "slice_utils_ok S" and k: "k0 \<noteq> []" "k1 \<noteq> []"
    and len: "length k0 + length k1 \<le> KEY_BYTES_CNT" and wf: "wf_pair k0 p0 k1 p1" "wf_payload p0" "wf_payload p1"
  defines "ln \<equiv> LN (Some (k0, p0)) (Some (k1, p1))"
  shows "\<exists>ln'. ln_remove_val S key prune_limit ln = Ret (ln_get_val ln key, ln') \<and>
     removed key prune_limit ln
       (if ln_get_val ln key = None then den (ListN ln) else (den (ListN ln))(key := None)) ln'"
proof -
  define f where "f = (if ln_get_val ln key = None then den (ListN ln) else (den (ListN ln))(key := None))"
  have ap: "apart k0 p0 k1 p1" using wf_pair_apart[OF k wf(1)] .
  have kd: "\<not> (k0 = key \<and> k1 = key \<and> payload_val p0 \<noteq> None \<and> payload_val p1 \<noteq> None)"
    using ap by (cases p0; cases p1) (auto simp: apart_def leads_on_def)
  have o0: "slot_den den (Some (k1, p1)) key = None" if "k0 = key" "payload_val p0 \<noteq> None"
    using slot_den_apart[OF k ap wf(3), of key] that by (cases p0) (auto simp: covers_def)
  have o1: "slot_den den (Some (k0, p0)) key = None" if "k1 = key" "payload_val p1 \<noteq> None"
    using slot_den_apart[OF k(2,1) ap[unfolded apart_commute[of k0]] wf(2), of key] that by (cases p1) (auto simp: covers_def)
  have fval: "f = slot_den den (Some (k1, p1))" if "k0 = key" "payload_val p0 \<noteq> None"
    using that o0[OF that] by (cases p0) (auto simp: f_def ln_def get_val_two fun_eq_iff)
  have fval1: "f = slot_den den (Some (k0, p0))" if "k1 = key" "payload_val p1 \<noteq> None"
    using that o1[OF that] kd by (cases p1) (auto simp: f_def ln_def get_val_two fun_eq_iff)
  have fe0: "f = slot_den den (Some (k1, p1))" if "k0 = key" "empty_child (Some (k0, p0))" "\<not> (k1 = key \<and> payload_val p1 \<noteq> None)"
    using that empty_child_den[OF wf(2) that(2)] by (cases p0) (auto simp: f_def ln_def get_val_two fun_eq_iff)
  have fe1: "f = slot_den den (Some (k0, p0))" if "k1 = key" "empty_child (Some (k1, p1))" "\<not> (k0 = key \<and> payload_val p0 \<noteq> None)"
    using that empty_child_den[OF wf(3) that(2)] by (cases p1) (auto simp: f_def ln_def get_val_two fun_eq_iff)
  have paths: "ln_paths ln = {q. prefix q k0} \<union> {q. prefix q k1}" by (auto simp: ln_def ln_paths_def)
  have prune0: "\<exists>ln'. (if 0 < prune_limit then preserve_prune_limit S key prune_limit (LN (Some (k1, p1)) None) else Ret (LN (Some (k1, p1)) None)) = Ret ln' \<and>
        removed key prune_limit ln f ln'" if "k0 = key" "prune_limit < length key" "f = slot_den den (Some (k1, p1))"
    by (rule removed_prune(1)[OF S _ _ that(2)])
      (use k len wf paths that in \<open>auto simp: ln_paths_def wf_pair_def ln_den_fun(1)\<close>)
  have prune1: "\<exists>ln'. (if 0 < prune_limit then preserve_prune_limit S key prune_limit (LN (Some (k0, p0)) None) else Ret (LN (Some (k0, p0)) None)) = Ret ln' \<and>
        removed key prune_limit ln f ln'" if "k1 = key" "prune_limit < length key" "f = slot_den den (Some (k0, p0))"
    by (rule removed_prune(1)[OF S _ _ that(2)])
      (use k len wf paths that in \<open>auto simp: ln_paths_def wf_pair_def ln_den_fun(1) split: if_splits\<close>)
  have old: "ln_get_val ln key = or_else_opt (if k0 = key then payload_val p0 else None) (if k1 = key then payload_val p1 else None)"
    unfolding ln_def by (rule get_val_two)
  have "\<exists>ln'. ln_remove_val S key prune_limit ln = Ret (ln_get_val ln key, ln') \<and> removed key prune_limit ln f ln'"
  proof (cases "prune_limit < length key")
    case True
    consider (v0) "k0 = key" "payload_val p0 \<noteq> None" | (v1) "\<not> (k0 = key \<and> payload_val p0 \<noteq> None)" "k1 = key" "payload_val p1 \<noteq> None"
      | (e0) "\<not> (k1 = key \<and> payload_val p1 \<noteq> None)" "k0 = key" "empty_child (Some (k0, p0))"
      | (e1) "\<not> (k0 = key \<and> payload_val p0 \<noteq> None)" "\<not> (k1 = key \<and> payload_val p1 \<noteq> None)"
          "\<not> (k0 = key \<and> empty_child (Some (k0, p0)))" "k1 = key" "empty_child (Some (k1, p1))"
      | (none) "\<not> (k0 = key \<and> payload_val p0 \<noteq> None)" "\<not> (k1 = key \<and> payload_val p1 \<noteq> None)"
          "\<not> (k0 = key \<and> empty_child (Some (k0, p0)))" "\<not> (k1 = key \<and> empty_child (Some (k1, p1)))"
      by (cases p0; cases p1) auto
    then show ?thesis
    proof cases
      case v0
      then show ?thesis using prune0[OF v0(1) True fval[OF v0]] True kd old
        by (cases p0) (auto simp: ln_remove_val_def ln_def get_both_keys_def is_used_def Let_def)
    next
      case v1
      then show ?thesis using prune1[OF v1(2) True fval1[OF v1(2,3)]] True kd old
        by (cases p0; cases p1) (auto simp: ln_remove_val_def ln_def get_both_keys_def is_used_def Let_def)
    next
      case e0
      then show ?thesis using prune0[OF e0(2) True fe0[OF e0(2,3,1)]] True kd old
        by (cases p0; cases p1) (auto simp: ln_remove_val_def ln_def get_both_keys_def is_used_def Let_def)
    next
      case e1
      then show ?thesis using prune1[OF e1(4) True fe1[OF e1(4,5,1)]] True kd old
        by (cases p0; cases p1) (auto simp: ln_remove_val_def ln_def get_both_keys_def is_used_def Let_def)
    next
      case none
      then show ?thesis using k len wf True old
        by (cases p0; cases p1) (auto simp: ln_remove_val_def ln_def f_def get_both_keys_def is_used_def Let_def removed_def)
    qed
  next
    case False
    consider (v0) "k0 = key" "payload_val p0 \<noteq> None" | (v1) "\<not> (k0 = key \<and> payload_val p0 \<noteq> None)" "k1 = key" "payload_val p1 \<noteq> None"
      | (none) "\<not> (k0 = key \<and> payload_val p0 \<noteq> None)" "\<not> (k1 = key \<and> payload_val p1 \<noteq> None)"
      by blast
    then show ?thesis
    proof cases
      case v0
      then obtain v where v: "p0 = Val v" by (cases p0) auto
      have t: "take 1 k = take 1 k' \<longleftrightarrow> hd k = hd k'" if "k \<noteq> []" "k' \<noteq> []" for k k' :: path
        using that by (cases k; cases k') auto
      have r: "ln_remove_val S key prune_limit ln = Ret (ln_get_val ln key,
          if length k0 = 1 \<and> hd k1 = hd k0 then LN (Some (k1, p1)) None else LN (Some (k0, Child EmptyN)) (Some (k1, p1)))"
        using v0 False v k t by (auto simp: ln_remove_val_def ln_def get_both_keys_def is_used_def ln_get_val_def)
      have "f = slot_den den (Some (k1, p1))" by (rule fval[OF v0])
      moreover have "prefix q k1" if "length k0 = 1" "hd k1 = hd k0" "prefix q k0" for q
        using that k by (cases k0; cases k1; cases q) auto
      ultimately show ?thesis
        unfolding r using k len wf paths v wf_pair_sentinel[OF wf(1) k]
        by (auto simp: removed_def ln_den_fun ln_paths_def wf_pair_def fun_eq_iff)
    next
      case v1
      then obtain v where v: "p1 = Val v" by (cases p1) auto
      have t: "take 1 k = take 1 k' \<longleftrightarrow> hd k = hd k'" if "k \<noteq> []" "k' \<noteq> []" for k k' :: path
        using that by (cases k; cases k') auto
      have r: "ln_remove_val S key prune_limit ln = Ret (ln_get_val ln key,
          if length k1 = 1 \<and> hd k0 = hd k1 then LN (Some (k0, p0)) None else LN (Some (k0, p0)) (Some (k1, Child EmptyN)))"
        using v1 False v k t kd by (cases p0) (auto simp: ln_remove_val_def ln_def get_both_keys_def is_used_def ln_get_val_def)
      have "f = slot_den den (Some (k0, p0))" by (rule fval1[OF v1(2,3)])
      moreover have "prefix q k0" if "length k1 = 1" "hd k0 = hd k1" "prefix q k1" for q
        using that k by (cases k0; cases k1; cases q) auto
      ultimately show ?thesis
        unfolding r using k len wf paths v
        by (auto simp: removed_def ln_den_fun ln_paths_def wf_pair_def fun_eq_iff split: if_splits)
    next
      case none
      then show ?thesis using k len wf False old
        by (cases p0; cases p1) (auto simp: ln_remove_val_def ln_def f_def get_both_keys_def is_used_def Let_def removed_def)
    qed
  qed
  then show ?thesis by (simp add: f_def)
qed

text \<open>C25: Removing a value from a list node returns the value stored at the key, leaves every other
  path's value alone and the node well formed, and never panics; with a prune limit, every path of
  the node that is no longer than the limit (the part above the zipper's root) stays, and so does
  every path off the key.\<close>

theorem list_remove_val_correct:
  assumes "slice_utils_ok S" "wf_node (ListN ln)" "key \<noteq> []"
  shows "\<exists>ln'. ln_remove_val S key prune_limit ln = Ret (ln_get_val ln key, ln') \<and>
     removed key prune_limit ln
       (if ln_get_val ln key = None then den (ListN ln) else (den (ListN ln))(key := None)) ln'"
  using assms(2)
proof (cases rule: slots_cases)
  case none
  then show ?thesis using assms(3)
    by (auto simp: ln_remove_val_def get_both_keys_def ln_get_val_def removed_def Let_def is_used_def)
next
  case (one k0 p0)
  note S = assms(1)
  show ?thesis
  proof (cases "prune_limit < length key")
    case True
    have R: "\<exists>ln'. (if 0 < prune_limit then preserve_prune_limit S key prune_limit (LN None None) else Ret (LN None None)) = Ret ln' \<and>
        removed key prune_limit ln (\<lambda>_. None) ln'" if "k0 = key"
      by (rule removed_prune(1)[OF S _ _ True]) (use one that in \<open>auto simp: ln_paths_def fun_eq_iff\<close>)
    show ?thesis
    proof (cases "k0 = key \<and> (\<not> is_child p0 \<or> empty_child (Some (k0, p0)))")
      case True
      have "(if ln_get_val ln key = None then den (ListN ln) else (den (ListN ln))(key := None)) = (\<lambda>_. None)"
        using True one by (cases p0) (auto simp: ln_get_val_def fun_eq_iff empty_node_den)
      then show ?thesis
        using R True one(1) \<open>prune_limit < length key\<close>
        by (cases p0) (auto simp: ln_remove_val_def get_both_keys_def ln_get_val_def is_used_def Let_def)
    next
      case False
      then show ?thesis
        using one \<open>prune_limit < length key\<close>
        by (cases p0) (auto simp: ln_remove_val_def get_both_keys_def ln_get_val_def is_used_def Let_def removed_def)
    qed
  next
    case False
    then show ?thesis
      using one by (cases p0) (auto simp: ln_remove_val_def get_both_keys_def ln_get_val_def is_used_def Let_def
          removed_def fun_eq_iff ln_paths_def)
  qed
next
  case (two k0 p0 k1 p1)
  show ?thesis unfolding two(1) by (rule list_remove_val_two[OF assms(1) two(2-7)])
qed

theorem list_remove_val_correct_witness:
  "\<exists>ln'. ln_remove_val std_slice_utils [1, 2] 1 (LN (Some ([1, 2], Val (7::nat))) None) = Ret (Some 7, ln') \<and>
     removed [1, 2] 1 (LN (Some ([1, 2], Val (7::nat))) None) ((den (ListN (LN (Some ([1, 2], Val (7::nat))) None)))([1, 2] := None)) ln'"
  using list_remove_val_correct[OF std_slice_utils_ok, of "LN (Some ([1, 2], Val (7::nat))) None" "[1, 2]" 1]
  by (simp add: KEY_BYTES_CNT_def ln_get_val_def)

end
