(* ===== verification/List_Cut.thy ===== *)
theory List_Cut
  imports List_Ops_Laws
begin

text \<open>
  Extraction of a subtrie from a list node: \<open>get_node_at_key\<close> and \<open>take_node_at_key\<close> of
  \<open>src/line_list_node.rs\<close>, with the zipper root's prune limit.
\<close>

subsection \<open>Cutting everything below a path\<close>

text \<open>The node after the contents strictly below \<open>key\<close> are gone: the map loses exactly those paths,
  and the zipper root's path (the first \<open>prune_limit\<close> bytes of \<open>key\<close>) and every path off the key
  still exist.\<close>

definition cut_below :: "path \<Rightarrow> nat \<Rightarrow> 'v lnode \<Rightarrow> 'v lnode \<Rightarrow> bool" where
  "cut_below key prune_limit ln ln' \<longleftrightarrow>
     wf_node (ListN ln') \<and>
     den (ListN ln') = (\<lambda>q. if strict_prefix key q then None else den (ListN ln) q) \<and>
     ln_paths ln' \<subseteq> insert [] (ln_paths ln) \<and>
     (\<forall>q \<in> ln_paths ln. q \<noteq> [] \<longrightarrow>
        prefix q key \<and> length q \<le> prune_limit \<or> \<not> prefix q key \<and> \<not> prefix key q \<longrightarrow> q \<in> ln_paths ln')"

text \<open>A slot that lies below \<open>key\<close>, and the other slot of its node.\<close>

definition slot_below :: "path \<Rightarrow> path \<Rightarrow> 'v voc \<Rightarrow> bool" where
  "slot_below key k p \<longleftrightarrow> prefix key k \<and> (length key < length k \<or> is_child p)"

lemma slot_below_covers: "slot_below key k p \<Longrightarrow> covers k p q \<Longrightarrow> strict_prefix key q"
  by (auto simp: slot_below_def covers_def strict_prefix_def split: if_splits)

lemma slot_below_split:
  "slot_below key k p \<longleftrightarrow> k = key \<and> is_child p \<or> strict_prefix key k"
  by (auto simp: slot_below_def strict_prefix_def prefix_def)

definition off_key :: "path \<Rightarrow> ('v node, 'v) slot option \<Rightarrow> bool" where
  "off_key key s \<longleftrightarrow> (\<forall>q. strict_prefix key q \<longrightarrow> slot_den den s q = None)"

lemma off_key_None [simp]: "off_key key None"
  by (simp add: off_key_def)

lemma wf_pair_off_key:
  assumes "wf_pair k0 p0 k1 p1" "k0 \<noteq> []" "k1 \<noteq> []" "wf_payload p0" "wf_payload p1" "key \<noteq> []"
  shows "slot_below key k0 p0 \<Longrightarrow> off_key key (Some (k1, p1))" and "slot_below key k1 p1 \<Longrightarrow> off_key key (Some (k0, p0))"
proof -
  obtain b r where key: "key = b # r" using assms(6) by (cases key) auto
  have hd: "strict_prefix key q \<Longrightarrow> \<exists>c t. q = b # c # t" for q
    unfolding key by (cases q; cases "tl q") (auto simp: strict_prefix_def)
  show "off_key key (Some (k1, p1))" if "slot_below key k0 p0"
    unfolding off_key_def
  proof (intro allI impI)
    fix q assume "strict_prefix key q"
    then obtain c t where q: "q = b # c # t" using hd by blast
    have "\<not> covers k1 p1 q"
      using assms(1-3) that unfolding key q
      by (cases k0; cases k1) (auto simp: slot_below_def wf_pair_def covers_def split: if_splits)
    then show "slot_den den (Some (k1, p1)) q = None" by (rule slot_den_covers[OF assms(5)])
  qed
  show "off_key key (Some (k0, p0))" if "slot_below key k1 p1"
    unfolding off_key_def
  proof (intro allI impI)
    fix q assume "strict_prefix key q"
    then obtain c t where q: "q = b # c # t" using hd by blast
    have "\<not> covers k0 p0 q"
      using assms(1-3) that unfolding key q
      by (cases k0; cases k1) (auto simp: slot_below_def wf_pair_def covers_def split: if_splits)
    then show "slot_den den (Some (k0, p0)) q = None" by (rule slot_den_covers[OF assms(4)])
  qed
qed

text \<open>The node without the slot, with and without the zipper root's path restored; and with the slot
  turned into an empty link at \<open>key\<close>.\<close>

lemma cut_below_core:
  assumes wf: "wf_payload p" "slot_below key k p" "off_key key s"
    and ln: "ln = LN (Some (k, p)) s \<or> ln = LN s (Some (k, p))"
    and ln': "wf_node (ListN ln')" "den (ListN ln') = slot_den den s"
    and paths: "ln_paths (LN s None) \<subseteq> ln_paths ln'" "ln_paths ln' \<subseteq> ln_paths (LN s None) \<union> {q. prefix q key}"
      "\<And>q. q \<noteq> [] \<Longrightarrow> prefix q key \<Longrightarrow> length q \<le> n \<Longrightarrow> q \<in> ln_paths ln'"
  shows "cut_below key n ln ln'"
proof -
  have "slot_den den (Some (k, p)) q = None" if "\<not> strict_prefix key q" for q
    using slot_den_covers[OF wf(1)] slot_below_covers[OF wf(2)] that by blast
  then have d: "den (ListN ln') = (\<lambda>q. if strict_prefix key q then None else den (ListN ln) q)"
    using ln wf(3) unfolding ln'(2) by (auto simp: fun_eq_iff off_key_def simp del: slot_den_simps)
  have kk: "prefix key k" using wf(2) by (simp add: slot_below_def)
  have p: "ln_paths ln = ln_paths (LN s None) \<union> {q. prefix q k}"
    using ln by (auto simp: ln_paths_def)
  have "prefix q k \<Longrightarrow> prefix q key \<or> prefix key q" for q
    using kk prefix_same_cases by blast
  then show ?thesis
    using ln'(1) d paths kk unfolding cut_below_def p by (auto dest: prefix_order.trans)
qed

lemma cut_prune:
  fixes s :: "('v node, 'v) slot option"
  assumes S: "slice_utils_ok S" and wf: "wf_node (ListN (LN s None))" "wf_payload p"
    and b: "slot_below key k p" "off_key key s" and room: "length (slot_key s) + length k \<le> KEY_BYTES_CNT"
    and n: "n < length key"
    and pair: "\<And>k' p'. s = Some (k', p') \<Longrightarrow> hd k' \<noteq> hd key \<or> length k' = 1 \<and> \<not> is_child p' \<or> length key = 1"
    and ln: "ln = LN (Some (k, p)) s \<or> ln = LN s (Some (k, p))"
  shows "\<exists>ln'. preserve_prune_limit S key n (LN s None) = Ret ln' \<and> cut_below key n ln ln'"
proof (cases "0 < n")
  case True
  have kk: "length key \<le> length k" using b(1) by (auto simp: slot_below_def prefix_length_le)
  have sub: "\<And>q. prefix q (take n key) \<Longrightarrow> prefix q key" by (metis prefix_order.trans take_is_prefix)
  have "\<And>k' p'. s = Some (k', p') \<Longrightarrow> hd k' \<noteq> hd key \<or> length k' = 1 \<and> \<not> is_child p'" using pair True n by fastforce
  then obtain ln' where l: "preserve_prune_limit S key n (LN s None) = Ret ln'" "wf_node (ListN ln')"
      "den (ListN ln') = den (ListN (LN s None))" "ln_paths ln' = ln_paths (LN s None) \<union> {q. prefix q (take n key)}"
    using preserve_prune_limit_ok[OF S wf(1) _ True n] room kk by auto
  then show ?thesis
    using sub prefix_take_len[of _ key n]
    by (intro exI[of _ ln'] conjI cut_below_core[OF wf(2) b ln]) (auto simp: ln_den_fun fun_eq_iff)
next
  case False
  then show ?thesis
    using wf(1) by (intro exI[of _ "LN s None"] conjI cut_below_core[OF wf(2) b ln])
      (auto simp: preserve_prune_limit_def ln_den_fun fun_eq_iff)
qed

text \<open>The other slot keeps the path alive.\<close>

lemma cut_covered:
  assumes "wf_node (ListN (LN s None))" "wf_payload p" "slot_below key k p" "off_key key s"
    and "ln = LN (Some (k, p)) s \<or> ln = LN s (Some (k, p))" and "key = [] \<or> (\<exists>k' p'. s = Some (k', p') \<and> prefix key k')"
  shows "cut_below key n ln (LN s None)"
  using assms by (intro cut_below_core[OF assms(2-5)])
    (auto simp: ln_den_fun fun_eq_iff ln_paths_def dest: prefix_order.trans)

lemma cut_sentinel:
  assumes "wf_node (ListN ln')" "wf_payload p" "slot_below key k p" "off_key key s"
    and "ln = LN (Some (k, p)) s \<or> ln = LN s (Some (k, p))"
    and "ln' = LN (Some (key, Child EmptyN)) s \<or> ln' = LN s (Some (key, Child EmptyN))"
  shows "cut_below key n ln ln'"
  using assms(6) by (intro cut_below_core[OF assms(2-5,1)]) (auto simp: fun_eq_iff ln_paths_def)

lemma cut_nothing:
  assumes "wf_node (ListN ln)" "\<And>k p. (k, p) \<in> slots_of ln \<Longrightarrow> \<not> slot_below key k p \<and> (is_child p \<longrightarrow> \<not> strict_prefix k key)"
  shows "cut_below key n ln ln"
proof -
  have "slot_den den (Some (k, p)) q = None" if "(k, p) \<in> slots_of ln" "strict_prefix key q" for k p q
  proof (rule slot_den_covers)
    show "wf_payload p" using wf_slot_elem[OF assms(1) that(1)] by simp
    show "\<not> covers k p q"
    proof
      assume c: "covers k p q"
      have nb: "\<not> (k = key \<and> is_child p)" "\<not> strict_prefix key k" "is_child p \<Longrightarrow> \<not> strict_prefix k key"
        using assms(2)[OF that(1)] by (auto simp: slot_below_split)
      show False
      proof (cases "is_child p")
        case True
        then have "prefix k q" "prefix key q" using c that(2) by (auto simp: covers_def strict_prefix_def)
        then have "prefix k key \<or> prefix key k" using prefix_same_cases by blast
        then show False using nb True by (auto simp: strict_prefix_def)
      next
        case False
        then show False using c that(2) nb(2) by (simp add: covers_def)
      qed
    qed
  qed
  then have "strict_prefix key q \<Longrightarrow> den (ListN ln) q = None" for q
    by (cases ln; cases "slot0 ln"; cases "slot1 ln") (auto simp: slots_of_def simp del: slot_den_simps(2,3))
  then show ?thesis using assms(1) by (auto simp: cut_below_def fun_eq_iff)
qed

lemma cut_preserve_noop: "length key \<le> n \<Longrightarrow> preserve_prune_limit S key n ln = Ret ln"
  by (simp add: preserve_prune_limit_def)

text \<open>A subtrie handed out: a well-formed node that stands for the map below \<open>key\<close>.\<close>

definition holds_below :: "path \<Rightarrow> 'v lnode \<Rightarrow> 'v node \<Rightarrow> bool" where
  "holds_below key ln n \<longleftrightarrow> wf_node n \<and> (\<forall>q. q \<noteq> [] \<longrightarrow> den n q = den (ListN ln) (key @ q))"

definition nothing_below :: "path \<Rightarrow> 'v lnode \<Rightarrow> bool" where
  "nothing_below key ln \<longleftrightarrow> (\<forall>q. q \<noteq> [] \<longrightarrow> den (ListN ln) (key @ q) = None)"

lemma holds_below_child:
  assumes "wf_node c" "off_key key s" "ln = LN (Some (key, Child c)) s \<or> ln = LN s (Some (key, Child c))"
  shows "holds_below key ln c"
  using assms by (auto simp: holds_below_def off_key_def strict_prefix_def)

lemma holds_below_rest:
  assumes "wf_payload p" "strict_prefix key k" "length k \<le> KEY_BYTES_CNT" "off_key key s"
    and "ln = LN (Some (k, p)) s \<or> ln = LN s (Some (k, p))"
  shows "holds_below key ln (ListN (LN (Some (drop (length key) k, p)) None))"
proof -
  obtain z where z: "k = key @ z" "z \<noteq> []" using assms(2) by (auto simp: strict_prefix_def prefix_def)
  have "slot_den den (Some (k, p)) (key @ q) = slot_den den (Some (z, p)) q" for q
    using slot_den_drop[of "length key" k den p "key @ q"] z by (simp del: slot_den_simps)
  then show ?thesis
    using assms z by (auto simp: holds_below_def off_key_def strict_prefix_def simp del: slot_den_simps(2,3))
qed

lemma nothing_belowI:
  assumes "wf_node (ListN ln)" "\<And>k p. (k, p) \<in> slots_of ln \<Longrightarrow> \<not> slot_below key k p \<and> (is_child p \<longrightarrow> \<not> strict_prefix k key)"
  shows "nothing_below key ln"
proof -
  have "den (ListN ln) = (\<lambda>q. if strict_prefix key q then None else den (ListN ln) q)"
    using cut_nothing[OF assms] by (simp add: cut_below_def)
  from fun_cong[OF this] show ?thesis by (auto simp: nothing_below_def strict_prefix_def)
qed

text \<open>The caller has followed the links: none lies strictly above \<open>key\<close>.\<close>

definition no_link_above :: "path \<Rightarrow> 'v lnode \<Rightarrow> bool" where
  "no_link_above key ln \<longleftrightarrow> (\<forall>k p. (k, p) \<in> slots_of ln \<longrightarrow> is_child p \<longrightarrow> \<not> strict_prefix k key)"

lemma slot_child_Child: "is_child p \<Longrightarrow> \<exists>c. p = Child c"
  by (cases p) auto

lemma sub_node_ref_option: "ref_into_option (sub_node_ref k p) = Some (ListN (LN (Some (k, p)) None))"
  by (simp add: sub_node_ref_def new_list_node_def)

text \<open>How the search of the two extraction operations ends.\<close>

lemma extraction_cases:
  assumes S: "slice_utils_ok S" and wf: "wf_node (ListN ln)" and nl: "no_link_above key ln" "key \<noteq> []"
  obtains (child0) c s1 where "ln = LN (Some (key, Child c)) s1" "off_key key s1" "slot_below key key (Child c)"
    | (child1) c k0 p0 where "ln = LN (Some (k0, p0)) (Some (key, Child c))" "off_key key (Some (k0, p0))" "slot_below key key (Child c)"
        "\<not> (k0 = key \<and> is_child p0)"
    | (rest0) k0 p0 s1 where "ln = LN (Some (k0, p0)) s1" "strict_prefix key k0" "off_key key s1" "slot_below key k0 p0"
        "\<And>k1 p1. s1 = Some (k1, p1) \<Longrightarrow> k1 \<noteq> key"
    | (rest1) k0 p0 k1 p1 where "ln = LN (Some (k0, p0)) (Some (k1, p1))" "strict_prefix key k1" "off_key key (Some (k0, p0))"
        "slot_below key k1 p1" "\<not> (k0 = key \<and> is_child p0)" "\<not> strict_prefix key k0"
    | (none) "\<And>k p. (k, p) \<in> slots_of ln \<Longrightarrow> \<not> slot_below key k p"
  using wf
proof (cases rule: slots_cases)
  case none
  then show ?thesis using that(5) by simp
next
  case (one k0 p0)
  show ?thesis
  proof (cases "slot_below key k0 p0")
    case True
    then show ?thesis using one that(1,3) slot_child_Child[of p0] by (auto simp: slot_below_split)
  next
    case False
    then show ?thesis using one that(5) by simp
  qed
next
  case (two k0 p0 k1 p1)
  note off = wf_pair_off_key[OF two(5,2,3,6,7) nl(2)]
  have ex: "\<not> (k0 = key \<and> strict_prefix key k1 \<and> is_child p0)" "\<not> (k1 = key \<and> strict_prefix key k0)"
    "\<not> (strict_prefix key k1 \<and> strict_prefix key k0)" "\<not> (k0 = key \<and> k1 = key \<and> is_child p0 \<and> is_child p1)"
    using two(2,3,5) nl(2) by (cases k0; cases k1; cases key; auto simp: wf_pair_def strict_prefix_def split: if_splits)+
  consider "k0 = key" "is_child p0" | "k1 = key" "is_child p1" "\<not> (k0 = key \<and> is_child p0)" | "strict_prefix key k0" "k1 \<noteq> key"
    | "strict_prefix key k1" "\<not> strict_prefix key k0" "\<not> (k0 = key \<and> is_child p0)"
    | "\<not> slot_below key k0 p0" "\<not> slot_below key k1 p1"
    using ex by (auto simp: slot_below_split)
  then show ?thesis
    using two off that slot_child_Child[of p0] slot_child_Child[of p1] by cases (auto simp: slot_below_split)
qed

lemma list_get_node_at_key_spec:
  assumes "slice_utils_ok S" "wf_node (ListN ln)" "no_link_above key ln"
  shows "case ref_into_option (ln_get_node_at_key S ln key) of
      None \<Rightarrow> nothing_below key ln
    | Some n \<Rightarrow> holds_below key ln n"
proof (cases "key = []")
  case True
  then show ?thesis
    using assms(2) empty_node_den[OF assms(2)]
    by (auto simp: ln_get_node_at_key_def holds_below_def nothing_below_def)
next
  case False
  have pl: "strict_prefix key k \<longleftrightarrow> length key < length k \<and> prefix key k" for k
    by (auto simp: strict_prefix_def prefix_def)
  show ?thesis
    using assms False
  proof (cases rule: extraction_cases)
    case (child0 c s1)
    have "wf_node c" using assms(2) child0(1) by simp
    note h = holds_below_child[OF this child0(2)] empty_node_den[OF this]
    show ?thesis
      using h(1)[of ln] h(2) child0 False by (auto simp: ln_get_node_at_key_def nothing_below_def holds_below_def)
  next
    case (child1 c k0 p0)
    have "wf_node c" using assms(2) child1(1) by simp
    note h = holds_below_child[OF this child1(2)] empty_node_den[OF this]
    show ?thesis
      using h(1)[of ln] h(2) child1 False
      by (cases p0) (auto simp: ln_get_node_at_key_def nothing_below_def holds_below_def)
  next
    case (rest0 k0 p0 s1)
    have w: "wf_payload p0" "length k0 \<le> KEY_BYTES_CNT" using assms(2) rest0(1) by (cases s1; auto)+
    have n1: "\<not> (is_used_child s1 \<and> slot_key s1 = key)" using rest0(5) by (cases s1) auto
    show ?thesis
      using holds_below_rest[OF w(1) rest0(2) w(2) rest0(3), of ln] rest0 False n1 assms(1) pl[of k0]
      by (auto simp: ln_get_node_at_key_def sub_node_ref_option)
  next
    case (rest1 k0 p0 k1 p1)
    have w: "wf_payload p1" "length k1 \<le> KEY_BYTES_CNT" using assms(2) rest1(1) by auto
    show ?thesis
      using holds_below_rest[OF w(1) rest1(2) w(2) rest1(3), of ln] rest1 False assms(1) pl[of k0] pl[of k1]
      by (auto simp: ln_get_node_at_key_def sub_node_ref_option)
  next
    case none
    have n: "nothing_below key ln"
      using none assms(3) by (intro nothing_belowI[OF assms(2)]) (auto simp: no_link_above_def)
    have "ln_get_node_at_key S ln key = RefNone"
      using assms(2) none False assms(1)
      by (cases rule: slots_cases) (auto simp: ln_get_node_at_key_def slot_below_split pl)
    then show ?thesis using n by simp
  qed
qed

text \<open>C27: \<open>get_node_at_key\<close> answers with a well-formed node that stands for exactly the part of the
  map below the key (whether it borrows a child, refers to the tail of a slot's key through a
  \<open>TinyRefNode\<close> or builds a node), and with nothing only when there is no value below the key.\<close>

theorem list_get_node_at_key_correct:
  assumes "slice_utils_ok S" "wf_node (ListN ln)" "no_link_above key ln"
  shows "case ref_into_option (ln_get_node_at_key S ln key) of
      None \<Rightarrow> nothing_below key ln
    | Some n \<Rightarrow> holds_below key ln n"
  by (rule list_get_node_at_key_spec[OF assms])

theorem list_get_node_at_key_correct_witness:
  "\<exists>n. ref_into_option (ln_get_node_at_key std_slice_utils (LN (Some ([1, 2], Val (7::nat))) None) [1]) = Some n \<and> den n [2] = Some 7"
  using list_get_node_at_key_correct[OF std_slice_utils_ok, of "LN (Some ([1, 2], Val (7::nat))) None" "[1]"]
  by (auto simp: KEY_BYTES_CNT_def no_link_above_def nothing_below_def holds_below_def dest: spec[of _ "[2]"] split: option.splits)

text \<open>C26: \<open>take_node_at_key\<close> hands out the subtrie below the key (all of it, and nothing when there
  is none), removes exactly that part of the map from the node, keeps the node well formed and the
  zipper root's path alive, and never panics.\<close>

theorem list_take_node_at_key_correct:
  assumes "slice_utils_ok S" "wf_node (ListN ln)" "no_link_above key ln" "key \<noteq> []"
  shows "\<exists>r ln'. ln_take_node_at_key S key prune_limit ln = Ret (r, ln') \<and> cut_below key prune_limit ln ln' \<and>
     (case r of None \<Rightarrow> nothing_below key ln | Some n \<Rightarrow> holds_below key ln n)"
  using assms
proof (cases rule: extraction_cases)
  case (child0 c s1)
  have w: "wf_node c" "wf_node (ListN (LN s1 None))" "length (slot_key s1) + length key \<le> KEY_BYTES_CNT"
    using assms(2) child0(1) by (cases s1; auto)+
  have pr: "hd k' \<noteq> hd key \<or> length k' = 1 \<and> \<not> is_child p' \<or> length key = 1" if "s1 = Some (k', p')" for k' p'
    using assms(2) child0(1) that by (auto simp: wf_pair_def)
  have h: "holds_below key ln c" by (rule holds_below_child[OF w(1) child0(2)]) (use child0 in simp)
  have p: "\<exists>ln'. preserve_prune_limit S key prune_limit (LN s1 None) = Ret ln' \<and> cut_below key prune_limit ln ln'" if "prune_limit < length key"
    by (rule cut_prune[OF assms(1) w(2) _ child0(3,2) w(3) that pr]) (use child0 w in auto)
  let ?here = "length key = 1 \<and> is_used_value s1 \<and> length (slot_key s1) = 1 \<and> hd (slot_key s1) = hd key"
  have k1: "cut_below key prune_limit ln (LN s1 None)" if "?here"
    using that assms(4) by (intro cut_covered[OF w(2) _ child0(3,2)]) (use child0 w in \<open>cases s1; cases key; auto simp: length_Suc_conv\<close>)+
  have k2: "cut_below key prune_limit ln (LN (Some (key, Child EmptyN)) s1)" if "\<not> ?here"
    using that assms(2) child0 w
    by (intro cut_sentinel[OF _ _ child0(3,2)]) (cases s1; auto simp: wf_pair_def is_used_def split: if_splits val_or_child.splits)+
  show ?thesis
    using h p k1 k2 child0(1)
    by (cases "prune_limit < length key")
      (auto simp: ln_take_node_at_key_def get_both_keys_def Let_def cut_preserve_noop)
next
  case (child1 c k0 p0)
  have w: "wf_node c" "wf_node (ListN (LN (Some (k0, p0)) None))" "length k0 + length key \<le> KEY_BYTES_CNT"
    "wf_pair k0 p0 key (Child c)" "k0 \<noteq> []" "wf_payload p0"
    using assms(2) child1(1) by auto
  have pr: "hd k0 \<noteq> hd key \<or> length k0 = 1 \<and> \<not> is_child p0 \<or> length key = 1"
    using w(4) by (auto simp: wf_pair_def split: if_splits)
  have h: "holds_below key ln c" by (rule holds_below_child[OF w(1) child1(2)]) (use child1 in simp)
  have p: "\<exists>ln'. preserve_prune_limit S key prune_limit (LN (Some (k0, p0)) None) = Ret ln' \<and> cut_below key prune_limit ln ln'" if "prune_limit < length key"
    by (rule cut_prune[OF assms(1) w(2) _ child1(3,2) _ that]) (use child1 w pr in auto)
  let ?here = "length key = 1 \<and> \<not> is_child p0 \<and> length k0 = 1 \<and> hd k0 = hd key"
  have k1: "cut_below key prune_limit ln (LN (Some (k0, p0)) None)" if "?here"
    using that assms(4) w(5) by (intro cut_covered[OF w(2) _ child1(3,2)]) (use child1 w in \<open>auto simp: length_Suc_conv\<close>)
  have k2: "cut_below key prune_limit ln (LN (Some (k0, p0)) (Some (key, Child EmptyN)))" if "\<not> ?here"
    using that w assms(4)
    by (intro cut_sentinel[OF _ _ child1(3,2)]) (auto simp: wf_pair_def child1(1) split: if_splits)
  have n0: "\<not> (is_child p0 \<and> k0 = key)" using child1(4) by auto
  show ?thesis
    using h p k1 k2 n0 child1(1)
    by (cases "prune_limit < length key")
      (auto simp: ln_take_node_at_key_def get_both_keys_def Let_def cut_preserve_noop)
next
  case (rest0 k0 p0 s1)
  have pl: "length key < length k0" "prefix key k0" using rest0(2) by (auto simp: strict_prefix_def prefix_def)
  have w: "wf_payload p0" "wf_node (ListN (LN s1 None))" "length (slot_key s1) + length k0 \<le> KEY_BYTES_CNT" "length k0 \<le> KEY_BYTES_CNT"
    using assms(2) rest0(1) by (cases s1; auto)+
  have pr: "hd k' \<noteq> hd key" if "s1 = Some (k', p')" for k' p'
    using assms(2,4) rest0(1) that pl by (cases key; cases k0) (auto simp: wf_pair_def)
  have h: "holds_below key ln (ListN (LN (Some (drop (length key) k0, p0)) None))"
    by (rule holds_below_rest[OF w(1) rest0(2) w(4) rest0(3)]) (use rest0 in simp)
  have p: "\<exists>ln'. preserve_prune_limit S key prune_limit (LN s1 None) = Ret ln' \<and> cut_below key prune_limit ln ln'" if "prune_limit < length key"
    by (rule cut_prune[OF assms(1) w(2,1) rest0(4,3) w(3) that]) (use rest0 pr in auto)
  have tk: "take (length key) k0 = key" using pl(2) by (auto simp: prefix_def)
  have k2: "cut_below key prune_limit ln (LN (Some (key, Child EmptyN)) s1)"
  proof (intro cut_sentinel[OF _ w(1) rest0(4,3)])
    show "wf_node (ListN (LN (Some (key, Child EmptyN)) s1))"
      using assms(2,4) pl pr rest0(1) tk by (cases s1; cases key; cases k0) (auto simp: wf_pair_def)
  qed (use rest0 in auto)
  have nc: "\<not> (is_used_child s1 \<and> slot_key s1 = key)" "k0 \<noteq> key" using rest0(5) pl(1) by (cases s1; auto)+
  show ?thesis
    using h p k2 nc tk pl rest0(1) assms(1)
    by (cases "prune_limit < length key")
      (auto simp: ln_take_node_at_key_def get_both_keys_def Let_def cut_preserve_noop sub_node_taken_def new_list_node_def)
next
  case (rest1 k0 p0 k1 p1)
  have pl: "length key < length k1" "prefix key k1" using rest1(2) by (auto simp: strict_prefix_def prefix_def)
  have w: "wf_payload p1" "wf_node (ListN (LN (Some (k0, p0)) None))" "length k0 + length k1 \<le> KEY_BYTES_CNT" "length k1 \<le> KEY_BYTES_CNT"
    "wf_pair k0 p0 k1 p1" "k0 \<noteq> []"
    using assms(2) rest1(1) by auto
  have hk: "hd key = hd k1" using pl(2) assms(4) by (cases key; cases k1) auto
  have pr: "hd k0 \<noteq> hd key \<or> length k0 = 1 \<and> \<not> is_child p0"
    using w(5) pl assms(4) hk by (cases key) (auto simp: wf_pair_def split: if_splits)
  have h: "holds_below key ln (ListN (LN (Some (drop (length key) k1, p1)) None))"
    by (rule holds_below_rest[OF w(1) rest1(2) w(4) rest1(3)]) (use rest1 in simp)
  have p: "\<exists>ln'. preserve_prune_limit S key prune_limit (LN (Some (k0, p0)) None) = Ret ln' \<and> cut_below key prune_limit ln ln'" if "prune_limit < length key"
    by (rule cut_prune[OF assms(1) w(2,1) rest1(4,3) _ that]) (use rest1 pr w in auto)
  have tk: "take (length key) k1 = key" using pl(2) by (auto simp: prefix_def)
  let ?here = "length key = 1 \<and> \<not> is_child p0 \<and> length k0 = 1 \<and> hd k0 = hd key"
  have k1: "cut_below key prune_limit ln (LN (Some (k0, p0)) None)" if "?here"
    using that assms(4) w(6) by (intro cut_covered[OF w(2,1) rest1(4,3)]) (use rest1 in \<open>auto simp: length_Suc_conv\<close>)
  have k2: "cut_below key prune_limit ln (LN (Some (k0, p0)) (Some (key, Child EmptyN)))" if "\<not> ?here"
  proof (intro cut_sentinel[OF _ w(1) rest1(4,3)])
    show "wf_node (ListN (LN (Some (k0, p0)) (Some (key, Child EmptyN))))"
      using that w assms(2,4) pl hk rest1(1) by (auto simp: wf_pair_def split: if_splits)
  qed (use rest1 in auto)
  have nc: "\<not> (is_child p0 \<and> k0 = key)" "k1 \<noteq> key" using rest1(5) pl(1) by auto
  have ns: "\<not> (length key < length k0 \<and> prefix key k0)" using rest1(6) by (auto simp: strict_prefix_def)
  show ?thesis
    using h p k1 k2 nc ns tk pl rest1(1) assms(1)
    by (cases "prune_limit < length key")
      (auto simp: ln_take_node_at_key_def get_both_keys_def Let_def cut_preserve_noop sub_node_taken_def new_list_node_def)
next
  case none
  have c: "\<And>k p. (k, p) \<in> slots_of ln \<Longrightarrow> \<not> slot_below key k p \<and> (is_child p \<longrightarrow> \<not> strict_prefix k key)"
    using none assms(3) by (auto simp: no_link_above_def)
  have "ln_take_node_at_key S key prune_limit ln = Ret (None, ln)"
  proof -
    have u: "\<not> (is_used_child s \<and> slot_key s = key)" "\<not> (length key < length (slot_key s) \<and> starts_with S (slot_key s) key)"
      if "s = slot0 ln \<or> s = slot1 ln" for s
    proof -
      have nb: "\<And>k p. s = Some (k, p) \<Longrightarrow> \<not> slot_below key k p" using none that by (auto simp: slots_of_def)
      then show "\<not> (is_used_child s \<and> slot_key s = key)" by (cases s) (auto simp: slot_below_def)
      show "\<not> (length key < length (slot_key s) \<and> starts_with S (slot_key s) key)"
        using nb assms(1) by (cases s) (auto simp: slot_below_def)
    qed
    show ?thesis
      unfolding ln_take_node_at_key_def get_both_keys_def Let_def prod.case
        if_not_P[OF u(1)[of "slot0 ln", OF disjI1[OF refl]]] if_not_P[OF u(1)[of "slot1 ln", OF disjI2[OF refl]]]
        if_not_P[OF u(2)[of "slot0 ln", OF disjI1[OF refl]]] if_not_P[OF u(2)[of "slot1 ln", OF disjI2[OF refl]]] by simp
  qed
  then show ?thesis using cut_nothing[OF assms(2) c] nothing_belowI[OF assms(2) c] by simp
qed

theorem list_take_node_at_key_correct_witness:
  "\<exists>n ln'. ln_take_node_at_key std_slice_utils [1] 0 (LN (Some ([1, 2], Val (7::nat))) None) = Ret (Some n, ln') \<and>
     den n [2] = Some 7 \<and> den (ListN ln') [1, 2] = None"
proof -
  let ?ln = "LN (Some ([1, 2], Val (7::nat))) None :: nat lnode"
  have "wf_node (ListN ?ln)" "no_link_above [1] ?ln" by (simp_all add: KEY_BYTES_CNT_def no_link_above_def)
  from list_take_node_at_key_correct[OF std_slice_utils_ok this, of 0] obtain r ln' where
    r: "ln_take_node_at_key std_slice_utils [1] 0 ?ln = Ret (r, ln')" "cut_below [1] 0 ?ln ln'"
      "case r of None \<Rightarrow> nothing_below [1] ?ln | Some n \<Rightarrow> holds_below [1] ?ln n" by auto
  have "den (ListN ln') [1, 2] = None" using r(2) unfolding cut_below_def by simp
  then show ?thesis
    using r by (auto simp: nothing_below_def holds_below_def dest: spec[of _ "[2]"] split: option.splits)
qed

end
