(* ===== verification/Byte_Mask_Iter.thy ===== *)
theory Byte_Mask_Iter
  imports Byte_Mask_Search
begin

text \<open>
  The two iterators over a \<open>ByteMask\<close> (\<open>src/utils/mod.rs\<close>).  Both own a copy of the mask and clear
  the bits they have yielded, so the state's remaining work is the list \<open>bits\<close> of its mask: a call
  of \<open>ByteMaskIter::next\<close> yields and removes its head, a call of \<open>ByteMaskRangeIter::next\<close> its
  first maximal run of consecutive bytes.
\<close>

record mask_iter =
  iter_i :: u8
  iter_mask :: byte_mask

definition byte_mask_iter_new :: "byte_mask \<Rightarrow> mask_iter" where
  "byte_mask_iter_new m = \<lparr>iter_i = 0, iter_mask = m\<rparr>"

definition byte_mask_range_iter_new :: "byte_mask \<Rightarrow> mask_iter" where
  "byte_mask_range_iter_new m = \<lparr>iter_i = 0, iter_mask = m\<rparr>"

lemma u8_succ: "i < 3 \<Longrightarrow> unat (i + 1 :: u8) = unat i + 1"
  by (simp add: word_less_nat_alt unat_word_ariths)

function next_byte :: "mask_iter \<Rightarrow> u8 option \<times> mask_iter" where
  "next_byte it =
     (let w = word_at (iter_mask it) (unat (iter_i it)) in
      if w \<noteq> 0 then
        let wi = trailing_zeros w;
            it = it\<lparr>iter_mask := word_set (iter_mask it) (unat (iter_i it)) (w XOR push_bit wi 1)\<rparr>
        in (Some (iter_i it * 64 + to_u8 wi), it)
      else if iter_i it < 3 then next_byte (it\<lparr>iter_i := iter_i it + 1\<rparr>)
      else (None, it))"
  by pat_completeness auto
termination
  by (relation "measure (\<lambda>it. 3 - unat (iter_i it))") (auto simp: u8_succ word_less_nat_alt)

text \<open>The first loop of \<open>ByteMaskRangeIter::next\<close>: the word of the next set bit.\<close>

function skip_empty_words :: "byte_mask \<Rightarrow> u8 \<Rightarrow> u8 \<times> bool" where
  "skip_empty_words m i =
     (if word_at m (unat i) \<noteq> 0 then (i, True)
      else if i < 3 then skip_empty_words m (i + 1)
      else (i, False))"
  by pat_completeness auto
termination
  by (relation "measure (\<lambda>(m, i). 3 - unat i)") (auto simp: u8_succ word_less_nat_alt)

text \<open>The second loop: the end of a run that reaches the end of its word.\<close>

function extend_run :: "byte_mask \<Rightarrow> u8 \<Rightarrow> u8 \<times> byte_mask \<times> u8" where
  "extend_run m i =
     (if i < 3 then
        let i = i + 1; next_word = word_at m (unat i) in
        if next_word = u64_MAX then extend_run (word_set m (unat i) 0) i
        else
          let next_run_len = trailing_ones next_word in
          if next_run_len = 0 then ((i - 1) * 64 + 63, m, i)
          else (i * 64 + to_u8 next_run_len - 1,
                word_set m (unat i) (next_word AND NOT (push_bit next_run_len 1 - 1)), i)
      else (i * 64 + 63, m, i))"
  by pat_completeness auto
termination
  by (relation "measure (\<lambda>(m, i). 3 - unat i)") (auto simp: u8_succ word_less_nat_alt)

definition next_range :: "mask_iter \<Rightarrow> (u8 \<times> u8) option \<times> mask_iter" where
  "next_range it =
     (case skip_empty_words (iter_mask it) (iter_i it) of
        (i, False) \<Rightarrow> (None, it\<lparr>iter_i := i\<rparr>)
      | (i, True) \<Rightarrow>
          (let w = word_at (iter_mask it) (unat i); start_bit = trailing_zeros w;
               start = i * 64 + to_u8 start_bit;
               run_len = trailing_ones (drop_bit start_bit w) in
           if run_len < 64 - start_bit then
             let clear_mask = push_bit start_bit (push_bit run_len 1 - 1) in
             (Some (start, start + to_u8 run_len - 1),
              \<lparr>iter_i = i, iter_mask = word_set (iter_mask it) (unat i) (w AND NOT clear_mask)\<rparr>)
           else
             (case extend_run (word_set (iter_mask it) (unat i) 0) i of
                (end', m, i') \<Rightarrow> (Some (start, end'), \<lparr>iter_i = i', iter_mask = m\<rparr>))))"

text \<open>Driving an iterator to its end, with at most \<open>fuel\<close> calls.\<close>

fun drain :: "('s \<Rightarrow> 'b option \<times> 's) \<Rightarrow> nat \<Rightarrow> 's \<Rightarrow> 'b list option" where
  "drain next 0 s = None"
| "drain next (Suc fuel) s =
     (case next s of
        (None, _) \<Rightarrow> Some []
      | (Some x, s) \<Rightarrow> map_option (\<lambda>xs. x # xs) (drain next fuel s))"

definition iter_collect :: "byte_mask \<Rightarrow> u8 list option" where
  "iter_collect m = drain next_byte 257 (byte_mask_iter_new m)"

definition range_iter_collect :: "byte_mask \<Rightarrow> (u8 \<times> u8) list option" where
  "range_iter_collect m = drain next_range 257 (byte_mask_range_iter_new m)"


declare next_byte.simps [simp del] skip_empty_words.simps [simp del] extend_run.simps [simp del]

text \<open>The iterators' invariant: the cursor is a word index and every word below it is used up.\<close>

definition iter_inv :: "byte_mask \<Rightarrow> u8 \<Rightarrow> bool" where
  "iter_inv m i \<longleftrightarrow> unat i < 4 \<and> (\<forall>n < 64 * unat i. \<not> mbit m n)"

lemma iter_inv_step:
  assumes "iter_inv m i" "word_at m (unat i) = 0"
  shows "i < 3 \<Longrightarrow> iter_inv m (i + 1)" "\<not> i < 3 \<Longrightarrow> m = EMPTY"
proof -
  have w: "\<not> mbit m n" if "n < 64 * (unat i + 1)" for n
  proof (cases "n < 64 * unat i")
    case False
    then have "n div 64 = unat i" using that by (intro div_nat_eqI) auto
    then show ?thesis using assms(2) by (simp add: mbit_def)
  qed (use assms(1) in \<open>simp add: iter_inv_def\<close>)
  show "iter_inv m (i + 1)" if "i < 3"
    using w u8_succ[OF that] that by (simp add: iter_inv_def word_less_nat_alt)
  show "m = EMPTY" if "\<not> i < 3"
  proof (rule byte_mask_eqI)
    fix n :: nat assume "n < 256"
    then show "mbit m n = mbit EMPTY n"
      using w[of n] that assms(1) by (simp add: iter_inv_def word_less_nat_alt)
  qed
qed

lemma bits_EMPTY [simp]: "bits EMPTY = []"
  by (simp add: bits_def filter_empty_conv)

lemma set_bits: "set (bits m) = {n. mbit m n}"
  by (auto simp: bits_def dest: mbit_less)

lemma bits_sorted [simp]: "sorted (bits m)" "distinct (bits m)"
  by (simp_all add: bits_def sorted_wrt_filter)

text \<open>A mask whose lowest set bits are \<open>s..e\<close>.\<close>

lemma bits_run:
  assumes "s \<le> e" "\<And>n. n < s \<Longrightarrow> \<not> mbit m n" "\<And>n. s \<le> n \<Longrightarrow> n \<le> e \<Longrightarrow> mbit m n"
    and "\<And>n. mbit m' n \<longleftrightarrow> mbit m n \<and> e < n"
  shows "bits m = [s..<Suc e] @ bits m'"
proof (rule sorted_distinct_set_unique)
  have gt: "e < n" if "n \<in> set (bits m')" for n
    using that assms(4)[of n] by (simp add: set_bits)
  show "sorted ([s..<Suc e] @ bits m')"
    using gt by (force simp: sorted_append simp del: upt_Suc)
  show "distinct ([s..<Suc e] @ bits m')"
    using gt by (force simp del: upt_Suc)
  show "set (bits m) = set ([s..<Suc e] @ bits m')"
  proof (rule set_eqI)
    fix n show "n \<in> set (bits m) \<longleftrightarrow> n \<in> set ([s..<Suc e] @ bits m')"
      using assms(1) assms(2)[of n] assms(3)[of n] assms(4)[of n]
      by (cases "n < s") (auto simp: set_bits simp del: upt_Suc)
  qed
qed simp_all

text \<open>Dropping bits of one word drops the corresponding positions.\<close>

lemma mbit_word_filter:
  assumes "q < 4" "\<And>r. r < 64 \<Longrightarrow> bit w' r \<longleftrightarrow> bit (word_at m q) r \<and> P (64 * q + r)"
  shows "mbit (word_set m q w') n \<longleftrightarrow> mbit m n \<and> (n div 64 = q \<longrightarrow> P n)"
proof (cases "n div 64 = q")
  case True
  then have "n = 64 * q + n mod 64" "n < 256" using assms(1) by auto
  then show ?thesis
    using True assms(1) assms(2)[of "n mod 64"] mbit_word[OF assms(1), of "n mod 64" m]
    by (simp add: mbit_word_set)
qed (simp add: mbit_word_set assms(1))

lemma div_64_eq_iff: "n div 64 = q \<longleftrightarrow> 64 * q \<le> n \<and> n < 64 * (q + 1)" for n q :: nat
  by auto

lemma index_u8: "unat (i :: u8) < 4 \<Longrightarrow> r < 64 \<Longrightarrow> i * 64 + to_u8 r = to_u8 (64 * unat i + r)"
  by (simp add: to_u8_def)

lemma next_byte_step:
  assumes "iter_inv (iter_mask it) (iter_i it)"
  shows "case next_byte it of
      (None, it') \<Rightarrow> iter_mask it = EMPTY
    | (Some b, it') \<Rightarrow> bits (iter_mask it) = unat b # bits (iter_mask it') \<and> iter_inv (iter_mask it') (iter_i it')"
  using assms
proof (induction it rule: next_byte.induct)
  case (1 it)
  let ?m = "iter_mask it" and ?i = "iter_i it"
  let ?w = "word_at ?m (unat ?i)"
  have i4: "unat ?i < 4" using "1.prems" by (simp add: iter_inv_def)
  consider "?w \<noteq> 0" | "?w = 0" "?i < 3" | "?w = 0" "\<not> ?i < 3" by blast
  then show ?case
  proof cases
    case 1
    let ?t = "trailing_zeros ?w"
    let ?s = "64 * unat ?i + ?t"
    let ?m' = "word_set ?m (unat ?i) (?w XOR push_bit ?t 1)"
    have t: "?t < 64" "bit ?w ?t"
      using 1 trailing_zeros_less_iff[of ?w] trailing_zeros_bit[of ?w] by simp_all
    have nb: "next_byte it = (Some (to_u8 ?s), it\<lparr>iter_mask := ?m'\<rparr>)"
      using 1 by (subst next_byte.simps) (simp add: Let_def index_u8[OF i4 t(1)])
    have m': "mbit ?m' n \<longleftrightarrow> mbit ?m n \<and> n \<noteq> ?s" for n
      using mbit_word_filter[OF i4, of "?w XOR 2 ^ ?t" ?m "\<lambda>n. n \<noteq> ?s" n] t
      by (auto simp: bit_clear_pow)
    have low: "\<not> mbit ?m n" if "n < ?s" for n
    proof (cases "n < 64 * unat ?i")
      case False
      then obtain r where r: "n = 64 * unat ?i + r" by (auto simp: le_iff_add dest!: leI)
      then show ?thesis
        using that t(1) trailing_zeros_below[of r ?w] mbit_word[OF i4, of r ?m] by simp
    qed (use "1.prems" in \<open>simp add: iter_inv_def\<close>)
    have "bits ?m = [?s..<Suc ?s] @ bits ?m'"
    proof (rule bits_run)
      show "mbit ?m n" if "?s \<le> n" "n \<le> ?s" for n
        using that t mbit_word[OF i4 t(1), of ?m] by simp
      show "mbit ?m' n \<longleftrightarrow> mbit ?m n \<and> ?s < n" for n
        unfolding m' using low[of n] by (auto simp: linorder_neq_iff)
    qed (use low in auto)
    moreover have "iter_inv ?m' ?i" using "1.prems" m' by (simp add: iter_inv_def)
    moreover have "?s < 256" using i4 t by simp
    ultimately show ?thesis by (simp add: nb)
  next
    case 2
    have "next_byte it = next_byte (it\<lparr>iter_i := ?i + 1\<rparr>)"
      using 2 by (subst next_byte.simps) simp
    then show ?thesis
      using "1.IH"[OF refl] 2 iter_inv_step(1)[OF "1.prems" 2]
      by (simp split: prod.splits option.splits)
  next
    case 3
    then show ?thesis
      using iter_inv_step(2)[OF "1.prems"] by (subst next_byte.simps) simp
  qed
qed

lemma iter_inv_new: "iter_inv m 0"
  by (simp add: iter_inv_def)

lemma length_bits_le: "length (bits m) \<le> 256"
  unfolding length_bits by (rule rank_le)

lemma drain_next_byte:
  "iter_inv (iter_mask it) (iter_i it) \<Longrightarrow> length (bits (iter_mask it)) < fuel
   \<Longrightarrow> drain next_byte fuel it = Some (map to_u8 (bits (iter_mask it)))"
proof (induction fuel arbitrary: it)
  case (Suc fuel)
  then show ?case
    using next_byte_step[of it] by (cases "next_byte it" rule: prod.exhaust) (auto split: option.splits)
qed simp

lemma iter_collect_bits: "iter_collect m = Some (map to_u8 (bits m))"
  unfolding iter_collect_def
  using drain_next_byte[of "byte_mask_iter_new m" 257] length_bits_le[of m]
  by (simp add: byte_mask_iter_new_def iter_inv_new)

subsection \<open>Maximal runs\<close>

fun runs :: "nat list \<Rightarrow> (nat \<times> nat) list" where
  "runs [] = []"
| "runs (x # xs) = (case runs xs of
      [] \<Rightarrow> [(x, x)]
    | (s, e) # rs \<Rightarrow> if s = Suc x then (x, e) # rs else (x, x) # (s, e) # rs)"

lemma runs_start: "runs xs = (s, e) # rs \<Longrightarrow> xs \<noteq> [] \<and> hd xs = s"
  by (cases xs) (auto split: list.splits if_splits)

lemma runs_run:
  assumes "s \<le> e" "\<And>y. y \<in> set ys \<Longrightarrow> Suc e < y"
  shows "runs ([s..<Suc e] @ ys) = (s, e) # runs ys"
  using assms(1)
proof (induction "e - s" arbitrary: s)
  case 0
  then have "s = e" by simp
  moreover have "fst r \<noteq> Suc e" if "runs ys = r # rs" for r rs
    using runs_start[of ys "fst r" "snd r" rs] that assms(2)[of "hd ys"]
    by (metis hd_in_set less_irrefl prod.collapse)
  ultimately show ?case by (cases "runs ys") (auto split: if_splits)
next
  case (Suc d)
  then have "[s..<Suc e] = s # [Suc s..<Suc e]" by (simp add: upt_conv_Cons)
  moreover have "runs ([Suc s..<Suc e] @ ys) = (Suc s, e) # runs ys"
    using Suc by (intro Suc(1)) auto
  ultimately show ?case by simp
qed

text \<open>A run of \<open>m\<close> that starts at its lowest bit, and the mask without it.\<close>

definition first_run :: "byte_mask \<Rightarrow> nat \<Rightarrow> nat \<Rightarrow> byte_mask \<Rightarrow> bool" where
  "first_run m s e m' \<longleftrightarrow> s \<le> e \<and> e < 256 \<and> (\<forall>n < s. \<not> mbit m n) \<and> (\<forall>n. s \<le> n \<and> n \<le> e \<longrightarrow> mbit m n)
     \<and> \<not> mbit m (Suc e) \<and> (\<forall>n. mbit m' n \<longleftrightarrow> mbit m n \<and> e < n)"

lemma runs_first_run:
  assumes "first_run m s e m'"
  shows "runs (bits m) = (s, e) # runs (bits m')" "length (bits m') < length (bits m)"
proof -
  have b: "bits m = [s..<Suc e] @ bits m'"
    using assms by (intro bits_run) (auto simp: first_run_def)
  show "runs (bits m) = (s, e) # runs (bits m')"
    unfolding b
  proof (rule runs_run)
    show "Suc e < y" if "y \<in> set (bits m')" for y
      using that assms by (metis Suc_lessI first_run_def mem_Collect_eq set_bits)
  qed (use assms in \<open>simp add: first_run_def\<close>)
  show "length (bits m') < length (bits m)"
    unfolding b using assms by (auto simp: first_run_def)
qed

lemma skip_empty_words_spec:
  "iter_inv m i \<Longrightarrow> case skip_empty_words m i of
      (j, True) \<Rightarrow> iter_inv m j \<and> word_at m (unat j) \<noteq> 0
    | (j, False) \<Rightarrow> m = EMPTY"
proof (induction m i rule: skip_empty_words.induct)
  case (1 m i)
  consider "word_at m (unat i) \<noteq> 0" | "word_at m (unat i) = 0" "i < 3" | "word_at m (unat i) = 0" "\<not> i < 3"
    by blast
  then show ?case
  proof cases
    case 2
    then show ?thesis
      using "1.IH" iter_inv_step(1)[OF "1.prems" 2(1)] by (subst skip_empty_words.simps) simp
  next
    case 3
    then show ?thesis
      using iter_inv_step(2)[OF "1.prems"] by (subst skip_empty_words.simps) simp
  qed (use "1.prems" in \<open>subst skip_empty_words.simps, simp\<close>)
qed

lemma bit_low_ones: "bit (push_bit n 1 - 1 :: u64) r \<longleftrightarrow> r < n \<and> r < 64"
proof -
  have "(push_bit n 1 - 1 :: u64) = mask n" by (simp add: mask_eq_exp_minus_1)
  then show ?thesis by (auto simp: bit_mask_iff possible_bit_word simp del: push_bit_of_1)
qed

lemma to_u8_63: "to_u8 63 = 63"
  by (simp add: to_u8_def)

lemma index_u8_pred:
  assumes "unat (j :: u8) < 4" "0 < n" "n < 64"
  shows "j * 64 + to_u8 n - 1 = to_u8 (64 * unat j + (n - 1))"
proof -
  obtain k where k: "n = Suc k" using assms(2) by (cases n) auto
  have "j * 64 + to_u8 n - 1 = j * 64 + to_u8 k" by (simp add: k to_u8_def)
  then show ?thesis using index_u8[OF assms(1), of k] assms(3) k by simp
qed

lemma trailing_ones_max: "(w :: u64) \<noteq> u64_MAX \<Longrightarrow> trailing_ones w < 64"
proof (rule ccontr)
  assume "w \<noteq> u64_MAX" "\<not> trailing_ones w < 64"
  then have "bit w r" if "r < 64" for r
    using that trailing_ones_below[of r w] by simp
  then have "w = u64_MAX" unfolding u64_MAX_def by (intro bit_word_eqI) (simp only: bit_NOT_u64, simp)
  then show False using \<open>w \<noteq> u64_MAX\<close> by simp
qed

text \<open>\<open>extend_run\<close>: the run from \<open>s\<close> is known to reach the end of word \<open>i\<close>, and the mask has
  been cleared up to there.\<close>

lemma extend_run_spec:
  assumes "unat i < 4" "s < 64 * (unat i + 1)" "\<And>n. n < s \<Longrightarrow> \<not> mbit m0 n"
    and "\<And>n. s \<le> n \<Longrightarrow> n < 64 * (unat i + 1) \<Longrightarrow> mbit m0 n"
    and "\<And>n. mbit m n \<longleftrightarrow> mbit m0 n \<and> 64 * (unat i + 1) \<le> n"
  shows "case extend_run m i of (e, m', i') \<Rightarrow> first_run m0 s (unat e) m' \<and> iter_inv m' i'"
  using assms
proof (induction m i rule: extend_run.induct)
  case (1 m i)
  show ?case
  proof (cases "i < 3")
    case False
    then have i: "unat i = 3" using "1.prems"(1) by (simp add: word_less_nat_alt)
    then have "i = 3" by (simp add: word_unat_eq_iff)
    then show ?thesis
      using "1.prems" i by (subst extend_run.simps) (auto simp: first_run_def iter_inv_def dest: mbit_less)
  next
    case True
    define j where "j = i + 1"
    have j: "unat j = unat i + 1" "unat j < 4"
      using u8_succ[OF True] True by (simp_all add: j_def word_less_nat_alt)
    let ?w = "word_at m (unat j)"
    have mw: "bit ?w r \<longleftrightarrow> mbit m0 (64 * unat j + r)" if "r < 64" for r
      using mbit_word[OF j(2) that, of m] "1.prems"(5) j(1) by simp
    consider "?w = u64_MAX" | "?w \<noteq> u64_MAX" "trailing_ones ?w = 0" | "?w \<noteq> u64_MAX" "trailing_ones ?w \<noteq> 0"
      by blast
    then show ?thesis
    proof cases
      case 1
      have m0: "mbit m0 n" if "s \<le> n" "n < 64 * (unat j + 1)" for n
      proof (cases "n < 64 * (unat i + 1)")
        case False
        then have "n div 64 = unat j" using that(2) j(1) by (intro div_nat_eqI) auto
        then have "n = 64 * unat j + n mod 64" by (metis mult_div_mod_eq)
        moreover have "bit ?w (n mod 64)" using 1 by (simp only: u64_MAX_def bit_NOT_u64) simp
        ultimately show ?thesis using mw[of "n mod 64"] by simp
      qed (use "1.prems"(4) that in simp)
      have "extend_run m i = extend_run (word_set m (unat j) 0) j"
        using True 1 by (subst extend_run.simps) (simp add: Let_def j_def)
      moreover have "mbit (word_set m (unat j) 0) n \<longleftrightarrow> mbit m0 n \<and> 64 * (unat j + 1) \<le> n" for n
        using mbit_word_filter[OF j(2), of 0 m "\<lambda>_. False" n] "1.prems"(5)[of n] j(1)
        by (simp add: div_64_eq_iff) linarith
      ultimately show ?thesis
        using "1.IH"[OF True j_def refl 1] "1.prems"(2,3) m0 j by simp
    next
      case 2
      have "\<not> bit ?w 0" using 2 trailing_ones_stop[of ?w] by simp
      then have stop: "\<not> mbit m0 (Suc (64 * unat i + 63))" using mw[of 0] j(1) by simp
      have "extend_run m i = (to_u8 (64 * unat i + 63), m, j)"
        using True 2 index_u8[OF "1.prems"(1), of 63]
        by (subst extend_run.simps) (simp add: Let_def j_def to_u8_63)
      then show ?thesis
        using "1.prems" True j stop
        by (auto simp: first_run_def iter_inv_def word_less_nat_alt dest: mbit_less)
    next
      case 3
      let ?n = "trailing_ones ?w" let ?e = "64 * unat j + (trailing_ones ?w - 1)"
      let ?m' = "word_set m (unat j) (?w AND NOT (push_bit ?n 1 - 1))"
      have n: "0 < ?n" "?n < 64" using 3 trailing_ones_max[of ?w] by simp_all
      have ones: "mbit m0 n" if "64 * unat j \<le> n" "n \<le> ?e" for n
      proof -
        obtain r where r: "n = 64 * unat j + r" using le_Suc_ex \<open>64 * unat j \<le> n\<close> by blast
        then show ?thesis
          using that(2) n trailing_ones_below[of r ?w] mw[of r] by simp
      qed
      have "\<not> bit ?w ?n" using n trailing_ones_stop[of ?w] by simp
      then have stop: "\<not> mbit m0 (Suc ?e)" using mw[OF n(2)] n(1) by simp
      have e: "?e < 256" using n j(2) by simp
      have "extend_run m i = (to_u8 ?e, ?m', j)"
        using True 3 n index_u8_pred[OF j(2) n]
        by (subst extend_run.simps) (simp add: Let_def j_def[symmetric] del: push_bit_of_1)
      moreover have m': "mbit ?m' n \<longleftrightarrow> mbit m0 n \<and> ?e < n" for n
      proof -
        have "bit (?w AND NOT (push_bit ?n 1 - 1)) r \<longleftrightarrow> bit ?w r \<and> ?e < 64 * unat j + r" if "r < 64" for r
          using that n(1) unfolding bit_and_iff bit_NOT_u64 bit_low_ones by auto
        from mbit_word_filter[OF j(2) this, of n] show ?thesis
          using "1.prems"(5)[of n] j(1) n by (auto simp: div_64_eq_iff simp del: push_bit_of_1)
      qed
      moreover have "mbit m0 n" if "s \<le> n" "n \<le> ?e" for n
        using that ones "1.prems"(4) j(1) by (cases "n < 64 * unat j") simp_all
      ultimately show ?thesis
        using "1.prems"(2,3) j e stop by (simp add: first_run_def iter_inv_def)
    qed
  qed
qed

lemma next_range_step:
  assumes "iter_inv (iter_mask it) (iter_i it)"
  shows "case next_range it of
      (None, it') \<Rightarrow> iter_mask it = EMPTY
    | (Some (s, e), it') \<Rightarrow> first_run (iter_mask it) (unat s) (unat e) (iter_mask it') \<and> iter_inv (iter_mask it') (iter_i it')"
proof -
  let ?m = "iter_mask it"
  obtain i found where sk: "skip_empty_words ?m (iter_i it) = (i, found)" by fastforce
  show ?thesis
  proof (cases found)
    case False
    then show ?thesis
      using skip_empty_words_spec[OF assms] sk by (simp add: next_range_def)
  next
    case True
    then have inv: "iter_inv ?m i" and nz: "word_at ?m (unat i) \<noteq> 0"
      using skip_empty_words_spec[OF assms] sk by simp_all
    have i4: "unat i < 4" using inv by (simp add: iter_inv_def)
    let ?w = "word_at ?m (unat i)"
    define sb where "sb = trailing_zeros ?w"
    define run where "run = trailing_ones (drop_bit sb ?w)"
    have sb: "sb < 64" "bit ?w sb"
      using nz trailing_zeros_less_iff[of ?w] trailing_zeros_bit[of ?w] by (simp_all add: sb_def)
    let ?s = "64 * unat i + sb"
    have ones: "bit ?w (sb + r)" if "r < run" for r
      using trailing_ones_below[of r "drop_bit sb ?w"] that by (simp add: run_def bit_drop_bit_eq)
    have run: "0 < run" "sb + run \<le> 64"
    proof -
      show "0 < run"
      proof (rule ccontr)
        assume "\<not> 0 < run"
        then have "trailing_ones (drop_bit sb ?w) = 0" by (simp add: run_def)
        then show False
          using trailing_ones_stop[of "drop_bit sb ?w"] sb(2) by (simp add: bit_drop_bit_eq)
      qed
      then show "sb + run \<le> 64"
        using ones[of "run - 1"] bit_imp_le_length[of ?w "sb + (run - 1)"] by simp
    qed
    have stop: "\<not> bit ?w (sb + run)"
    proof (cases "run < 64")
      case True
      then show ?thesis
        using trailing_ones_stop[of "drop_bit sb ?w"] by (simp add: run_def bit_drop_bit_eq)
    next
      case False
      then show ?thesis using bit_imp_le_length[of ?w "sb + run"] by auto
    qed
    have low: "\<not> mbit ?m n" if "n < ?s" for n
    proof (cases "n < 64 * unat i")
      case False
      then obtain r where r: "n = 64 * unat i + r" by (auto simp: le_iff_add dest!: leI)
      then show ?thesis
        using that sb(1) trailing_zeros_below[of r ?w] mbit_word[OF i4, of r ?m] by (simp add: sb_def)
    qed (use inv in \<open>simp add: iter_inv_def\<close>)
    have run_bits: "mbit ?m n" if "?s \<le> n" "n < 64 * unat i + (sb + run)" for n
    proof -
      obtain r where r: "n = ?s + r" using le_Suc_ex \<open>?s \<le> n\<close> by blast
      then show ?thesis
        using that(2) run ones[of r] mbit_word[OF i4, of "sb + r" ?m] by (simp add: add.assoc)
    qed
    have s: "i * 64 + to_u8 sb = to_u8 ?s" "unat (to_u8 ?s) = ?s"
      using index_u8[OF i4 sb(1)] i4 sb(1) by simp_all
    show ?thesis
    proof (cases "run < 64 - sb")
      case inside: True
      let ?e = "64 * unat i + (sb + run - 1)"
      let ?c = "push_bit sb (push_bit run 1 - 1) :: u64"
      let ?m' = "word_set ?m (unat i) (?w AND NOT ?c)"
      have c: "bit ?c r \<longleftrightarrow> sb \<le> r \<and> r < sb + run \<and> r < 64" for r
        unfolding bit_push_bit_iff bit_low_ones by (auto simp: possible_bit_word)
      have e: "to_u8 ?s + to_u8 run - 1 = to_u8 ?e"
      proof -
        obtain k where "run = Suc k" using run(1) by (cases run) auto
        then show ?thesis by (simp add: to_u8_def)
      qed
      have "next_range it = (Some (to_u8 ?s, to_u8 ?e), \<lparr>iter_i = i, iter_mask = ?m'\<rparr>)"
        using sk True inside
        unfolding next_range_def Let_def sb_def[symmetric] run_def[symmetric]
        by (simp add: sb_def[symmetric] run_def[symmetric] s(1) e del: push_bit_of_1)
      moreover have "mbit ?m' n \<longleftrightarrow> mbit ?m n \<and> ?e < n" for n
      proof -
        have "bit (?w AND NOT ?c) r \<longleftrightarrow> bit ?w r \<and> \<not> (?s \<le> 64 * unat i + r \<and> 64 * unat i + r \<le> ?e)"
          if "r < 64" for r
          using that run(1) unfolding bit_and_iff bit_NOT_u64 c by auto
        from mbit_word_filter[OF i4 this, of n] show ?thesis
          using low[of n] run inside by (auto simp: div_64_eq_iff simp del: push_bit_of_1)
      qed
      moreover have "\<not> mbit ?m (Suc ?e)"
        using mbit_word[OF i4, of "sb + run" ?m] inside stop run(1) by simp
      moreover have "?e < 256" using i4 inside by simp
      ultimately show ?thesis
        using run run_bits low inv i4 s(2) by (auto simp: first_run_def iter_inv_def)
    next
      case False
      then have full: "sb + run = 64" using run by simp
      have "mbit (word_set ?m (unat i) 0) n \<longleftrightarrow> mbit ?m n \<and> 64 * (unat i + 1) \<le> n" for n
        using mbit_word_filter[OF i4, of 0 ?m "\<lambda>_. False" n] inv
        by (auto simp: div_64_eq_iff iter_inv_def)
      then have "case extend_run (word_set ?m (unat i) 0) i of
          (e, m', i') \<Rightarrow> first_run ?m ?s (unat e) m' \<and> iter_inv m' i'"
        using i4 sb(1) low run_bits full by (intro extend_run_spec) (auto simp: algebra_simps)
      moreover have "next_range it = (case extend_run (word_set ?m (unat i) 0) i of
          (e, m', i') \<Rightarrow> (Some (to_u8 ?s, e), \<lparr>iter_i = i', iter_mask = m'\<rparr>))"
        using sk True False
        unfolding next_range_def Let_def sb_def[symmetric] run_def[symmetric]
        by (simp add: sb_def[symmetric] run_def[symmetric] s(1))
      ultimately show ?thesis by (auto simp: s(2) split: prod.splits)
    qed
  qed
qed

lemma drain_next_range:
  "iter_inv (iter_mask it) (iter_i it) \<Longrightarrow> length (bits (iter_mask it)) < fuel
   \<Longrightarrow> map_option (map (\<lambda>(s, e). (unat s, unat e))) (drain next_range fuel it) = Some (runs (bits (iter_mask it)))"
proof (induction fuel arbitrary: it)
  case (Suc fuel)
  obtain r it' where n: "next_range it = (r, it')" by fastforce
  show ?case
  proof (cases r)
    case None
    then show ?thesis using n next_range_step[OF Suc.prems(1)] by simp
  next
    case (Some se)
    obtain s e where se: "se = (s, e)" by fastforce
    have fr: "first_run (iter_mask it) (unat s) (unat e) (iter_mask it')" and inv: "iter_inv (iter_mask it') (iter_i it')"
      using next_range_step[OF Suc.prems(1)] n Some se by simp_all
    have "length (bits (iter_mask it')) < fuel"
      using runs_first_run(2)[OF fr] Suc.prems(2) by simp
    from Suc.IH[OF inv this] show ?thesis
      using n Some se runs_first_run(1)[OF fr] by (auto simp: option.map_comp comp_def)
  qed
qed simp

lemma range_iter_collect_runs:
  "map_option (map (\<lambda>(s, e). (unat s, unat e))) (range_iter_collect m) = Some (runs (bits m))"
  unfolding range_iter_collect_def
  using drain_next_range[of "byte_mask_range_iter_new m" 257] length_bits_le[of m]
  by (simp add: byte_mask_range_iter_new_def iter_inv_new)

subsection \<open>Properties\<close>

text \<open>C39: \<open>ByteMaskIter\<close> terminates and yields exactly the bytes whose bit is set, each once, in
  ascending order.\<close>

theorem byte_mask_iter_enumerates:
  "iter_collect m = Some (map to_u8 (filter (\<lambda>n. test_bit m (to_u8 n)) [0..<256]))"
proof -
  have "bits m = filter (\<lambda>n. test_bit m (to_u8 n)) [0..<256]"
    unfolding bits_def by (intro filter_cong) (auto simp: test_bit_mbit)
  then show ?thesis by (simp only: iter_collect_bits)
qed

text \<open>\<open>ByteMaskRangeIter\<close> terminates and yields the maximal runs of consecutive set bytes in
  ascending order, also those that cross or fill whole words and the one that ends at byte 255.\<close>

theorem byte_mask_range_iter_runs:
  "map_option (map (\<lambda>(s, e). (unat s, unat e))) (range_iter_collect m)
     = Some (runs (filter (\<lambda>n. test_bit m (to_u8 n)) [0..<256]))"
proof -
  have "bits m = filter (\<lambda>n. test_bit m (to_u8 n)) [0..<256]"
    unfolding bits_def by (intro filter_cong) (auto simp: test_bit_mbit)
  then show ?thesis by (simp only: range_iter_collect_runs)
qed

end
