(* ===== verification/Byte_Ops.thy ===== *)
theory Byte_Ops
  imports List_Cut Byte_Mask_Iter
begin

text \<open>
  The \<open>TrieNode\<close> operations of \<open>ByteNode\<close> (\<open>src/dense_byte_node.rs\<close>), which hold for the ordinary
  and the cell variant of the entries alike, and the iteration over its entries with the tokens of
  \<open>src/trie_node.rs\<close>.  Additions on \<open>u8\<close> and \<open>u16\<close> wrap, as in a release build.
\<close>

subsection \<open>The entries\<close>

definition cf_has_val :: "('c, 'v) cofree \<Rightarrow> bool" where
  "cf_has_val cf = (cf_val cf \<noteq> None)"

definition cf_has_rec :: "('c, 'v) cofree \<Rightarrow> bool" where
  "cf_has_rec cf = (cf_rec cf \<noteq> None)"

text \<open>The bits of one word, lowest first: the inner loop of \<open>for_each_item\<close>.\<close>

function word_items :: "u64 \<Rightarrow> nat list" where
  "word_items lm =
     (if lm = 0 then []
      else trailing_zeros lm # word_items (lm XOR push_bit (trailing_zeros lm) 1))"
  by pat_completeness auto
termination
proof (relation "measure count_ones")
  fix lm :: u64 assume "lm \<noteq> 0"
  then have b: "bit lm (trailing_zeros lm)" by (meson trailing_zeros_bit trailing_zeros_less_iff)
  then have l: "trailing_zeros lm < 64" using bit_imp_le_length by fastforce
  have "{i. i < 64 \<and> bit (lm XOR push_bit (trailing_zeros lm) 1) i} = {i. i < 64 \<and> bit lm i} - {trailing_zeros lm}"
    using b l by (auto simp: bit_xor_iff bit_pow_u64)
  moreover have "card \<dots> < card {i. i < 64 \<and> bit lm i}"
    using b l by (intro card_Diff1_less) auto
  ultimately show "(lm XOR push_bit (trailing_zeros lm) 1, lm) \<in> measure count_ones"
    by (simp add: count_ones_card)
qed simp

declare word_items.simps [simp del]

definition mask_items :: "byte_mask \<Rightarrow> (nat \<times> nat) list" where
  "mask_items m = concat (map (\<lambda>i. map (Pair i) (word_items (word_at m i))) [0..<4])"

text \<open>\<open>for_each_item\<close>: the calls it makes, in order.\<close>

definition for_each_item :: "('c, 'v) byte_node \<Rightarrow> (u8 \<times> nat) list" where
  "for_each_item bn =
     (let items = mask_items (bn_mask bn)
      in zip (map (\<lambda>(i, index). 64 * to_u8 i + to_u8 index) items) [0..<length items])"

definition slot_in_word :: "u64 \<Rightarrow> nat \<Rightarrow> nat \<Rightarrow> nat" where
  "slot_in_word mask_word word_base bit_idx =
     (let preceding_bits = (if bit_idx = 0 then 0 else push_bit bit_idx 1 - 1)
      in word_base + count_ones (mask_word AND preceding_bits))"

subsection \<open>Queries\<close>

definition bn_key_overlap :: "('c, 'v) byte_node \<Rightarrow> path \<Rightarrow> nat" where
  "bn_key_overlap bn key = (if test_bit (bn_mask bn) (hd key) then 1 else 0)"

definition bn_contains_partial_key :: "('c, 'v) byte_node \<Rightarrow> path \<Rightarrow> bool" where
  "bn_contains_partial_key bn key = (if length key = 1 then test_bit (bn_mask bn) (hd key) else False)"

definition bn_get_child :: "('c, 'v) byte_node \<Rightarrow> path \<Rightarrow> (nat \<times> 'c) option" where
  "bn_get_child bn key =
     (case bn_get bn (hd key) of
        None \<Rightarrow> None
      | Some cf \<Rightarrow> map_option (\<lambda>child. (1, child)) (cf_rec cf))"

definition bn_get_child_mut :: "'v bnode \<Rightarrow> path \<Rightarrow> (nat \<times> 'v node) option" where
  "bn_get_child_mut bn key =
     (case bn_get bn (hd key) of
        None \<Rightarrow> None
      | Some cf \<Rightarrow>
          (case cf_rec cf of
             None \<Rightarrow> None
           | Some child \<Rightarrow> if is_empty_odrc child then None else Some (1, child)))"

text \<open>The write through the reference \<open>get_child_mut\<close> returns, and \<open>node_replace_child\<close>.\<close>

definition bn_put_child :: "'v bnode \<Rightarrow> path \<Rightarrow> 'v node \<Rightarrow> 'v bnode" where
  "bn_put_child bn key c =
     (case bn_get bn (hd key) of
        None \<Rightarrow> bn
      | Some cf \<Rightarrow> bn_replace (hd key) (CoFree (Some c) (cf_val cf)) bn)"

definition bn_replace_child :: "'v bnode \<Rightarrow> path \<Rightarrow> 'v node \<Rightarrow> 'v bnode outcome" where
  "bn_replace_child bn key new_node =
     (case bn_get bn (hd key) of
        None \<Rightarrow> Panic
      | Some cf \<Rightarrow> if cf_rec cf = None then Panic else Ret (bn_put_child bn key new_node))"

definition bn_contains_val :: "('c, 'v) byte_node \<Rightarrow> path \<Rightarrow> bool" where
  "bn_contains_val bn key =
     (if length key = 1 then (case bn_get bn (hd key) of Some cf \<Rightarrow> cf_has_val cf | None \<Rightarrow> False) else False)"

definition bn_get_val :: "('c, 'v) byte_node \<Rightarrow> path \<Rightarrow> 'v option" where
  "bn_get_val bn key =
     (if length key = 1 then (case bn_get bn (hd key) of Some cf \<Rightarrow> cf_val cf | None \<Rightarrow> None) else None)"

definition bn_first_val_depth_along_key :: "('c, 'v) byte_node \<Rightarrow> path \<Rightarrow> nat option" where
  "bn_first_val_depth_along_key bn key =
     (case bn_get bn (hd key) of Some cf \<Rightarrow> if cf_has_val cf then Some 0 else None | None \<Rightarrow> None)"

definition bn_nth_child_from_key :: "('c, 'v) byte_node \<Rightarrow> path \<Rightarrow> nat \<Rightarrow> u8 option \<times> 'c option" where
  "bn_nth_child_from_key bn key n =
     (if 0 < length key then (None, None)
      else if length (bn_values bn) \<le> n then (None, None)
      else (indexed_bit True (bn_mask bn) n, cf_rec (bn_values bn ! n)))"

definition bn_first_child_from_key :: "('c, 'v) byte_node \<Rightarrow> path \<Rightarrow> (path option \<times> 'c option) outcome" where
  "bn_first_child_from_key bn key =
     (case index_outcome (bn_values bn) 0 of
        Panic \<Rightarrow> Panic
      | Ret cf \<Rightarrow>
          (case indexed_bit True (bn_mask bn) 0 of
             None \<Rightarrow> Panic
           | Some byte \<Rightarrow> Ret (Some [byte], cf_rec cf)))"

definition bn_branches_mask :: "('c, 'v) byte_node \<Rightarrow> path \<Rightarrow> byte_mask" where
  "bn_branches_mask bn key = (if length key = 0 then bn_mask bn else EMPTY)"

definition bn_count_branches :: "('c, 'v) byte_node \<Rightarrow> path \<Rightarrow> nat" where
  "bn_count_branches bn key = (if length key = 0 then length (bn_values bn) else 0)"

definition bn_prior_branch_key :: "('c, 'v) byte_node \<Rightarrow> path \<Rightarrow> path" where
  "bn_prior_branch_key bn key =
     (if length key = 1 then [] else if test_bit (bn_mask bn) (hd key) then take 1 key else [])"

definition bn_get_sibling_of_child :: "('c, 'v) byte_node \<Rightarrow> path \<Rightarrow> bool \<Rightarrow> u8 option \<times> 'c option" where
  "bn_get_sibling_of_child bn key next =
     (if length key \<noteq> 1 then (None, None)
      else
        case (if next then next_bit (bn_mask bn) (hd key) else prev_bit (bn_mask bn) (hd key)) of
          None \<Rightarrow> (None, None)
        | Some sibling \<Rightarrow>
            (Some sibling, case bn_get bn sibling of Some cf \<Rightarrow> cf_rec cf | None \<Rightarrow> None))"

definition bn_get_node_at_key :: "'v bnode \<Rightarrow> path \<Rightarrow> 'v node_ref" where
  "bn_get_node_at_key bn key =
     (if length key < 2 then
        if length key = 0 then
          (if length (bn_values bn) \<noteq> 0 then BorrowedDyn (ByteN bn) else RefNone)
        else (case bn_get bn (hd key) of
                None \<Rightarrow> RefNone
              | Some cf \<Rightarrow> (case cf_rec cf of Some link \<Rightarrow> BorrowedRc link | None \<Rightarrow> RefNone))
      else RefNone)"

subsection \<open>Writes\<close>

text \<open>A fresh list node takes the rest of the key; it never asks for an upgrade, and the code
  panics if it did.\<close>

definition bn_node_set_val :: "slice_utils \<Rightarrow> path \<Rightarrow> 'v \<Rightarrow> 'v bnode \<Rightarrow> ('v option \<times> bool \<times> 'v bnode) outcome" where
  "bn_node_set_val S key val bn =
     (if 1 < length key then
        (case ln_set_val S (tl key) val new_list_node of
           Err _ \<Rightarrow> Panic
         | Ok (_, _, child) \<Rightarrow> Ret (None, True, snd (set_child (hd key) (ListN child) bn)))
      else (case set_val (hd key) val bn of (old, bn') \<Rightarrow> Ret (old, False, bn')))"

definition bn_node_set_branch :: "slice_utils \<Rightarrow> path \<Rightarrow> 'v node \<Rightarrow> 'v bnode \<Rightarrow> (bool \<times> 'v bnode) outcome" where
  "bn_node_set_branch S key new_node bn =
     (if 1 < length key then
        (case ln_set_branch S (tl key) new_node new_list_node of
           Err _ \<Rightarrow> Panic
         | Ok (_, child) \<Rightarrow> Ret (True, snd (set_child (hd key) (ListN child) bn)))
      else Ret (False, snd (set_child (hd key) new_node bn)))"

definition bn_node_create_dangling :: "slice_utils \<Rightarrow> path \<Rightarrow> 'v bnode \<Rightarrow> (bool \<times> bool \<times> 'v bnode) outcome" where
  "bn_node_create_dangling S key bn =
     (if 1 < length key then
        (case ln_create_dangling S (tl key) new_list_node of
           Err _ \<Rightarrow> Panic
         | Ok (_, _, child) \<Rightarrow> Ret (True, True, snd (set_child (hd key) (ListN child) bn)))
      else (case set_dangling_cf (hd key) bn of (created, bn') \<Rightarrow> Ret (created, False, bn')))"

subsection \<open>Removals\<close>

definition bn_remove_val :: "u8 \<Rightarrow> nat \<Rightarrow> 'v bnode \<Rightarrow> 'v option \<times> 'v bnode" where
  "bn_remove_val k prune_limit bn =
     (case bn_get bn k of
        None \<Rightarrow> (None, bn)
      | Some cf \<Rightarrow>
          (cf_val cf,
           if prune_limit = 0 \<and> (case cf_rec cf of Some rec \<Rightarrow> node_is_empty rec | None \<Rightarrow> True)
           then bn_delete k bn
           else bn_replace k (CoFree (cf_rec cf) None) bn))"

definition bn_node_remove_val :: "path \<Rightarrow> nat \<Rightarrow> 'v bnode \<Rightarrow> 'v option \<times> 'v bnode" where
  "bn_node_remove_val key prune_limit bn =
     (if length key = 1 then bn_remove_val (hd key) prune_limit bn else (None, bn))"

definition bn_node_remove_dangling :: "path \<Rightarrow> nat \<Rightarrow> 'v bnode \<Rightarrow> nat \<times> 'v bnode" where
  "bn_node_remove_dangling key min_keep_len bn =
     (if length key \<le> min_keep_len then (0, bn)
      else if length key = 1 then
        (case bn_get bn (hd key) of
           None \<Rightarrow> (0, bn)
         | Some cf \<Rightarrow>
             if \<not> cf_has_rec cf \<and> \<not> cf_has_val cf then (1, bn_delete (hd key) bn)
             else
               (case cf_rec cf of
                  None \<Rightarrow> (0, bn)
                | Some node \<Rightarrow>
                    if node_is_empty node then
                      if cf_has_val cf then (0, bn_replace (hd key) (CoFree None (cf_val cf)) bn)
                      else (1, bn_delete (hd key) bn)
                    else (0, bn)))
      else (0, bn))"

definition bn_node_remove_all_branches :: "path \<Rightarrow> nat \<Rightarrow> 'v bnode \<Rightarrow> bool \<times> 'v bnode" where
  "bn_node_remove_all_branches key prune_limit bn =
     (if 1 < length key then (False, bn)
      else
        (case bn_get bn (hd key) of
           None \<Rightarrow> (False, bn)
         | Some cf \<Rightarrow>
             (let had_branches = (case cf_rec cf of Some node \<Rightarrow> \<not> node_is_empty node | None \<Rightarrow> False) in
              case (cf_has_rec cf, cf_has_val cf) of
                (True, True) \<Rightarrow> (had_branches, bn_replace (hd key) (CoFree None (cf_val cf)) bn)
              | (True, False) \<Rightarrow>
                  (had_branches,
                   if prune_limit = 0 then bn_delete (hd key) bn
                   else bn_replace (hd key) (CoFree None (cf_val cf)) bn)
              | (False, v) \<Rightarrow>
                  (False, if \<not> v \<and> prune_limit = 0 then bn_delete (hd key) bn else bn))))"

text \<open>The compaction loop of \<open>node_remove_unmasked_branches\<close>: the number of entries kept, whether one
  was dropped, the index of the current entry and the buffer.\<close>

definition unmask_step ::
  "byte_mask \<Rightarrow> nat \<times> nat \<Rightarrow> nat \<times> bool \<times> nat \<times> ('c, 'v) cofree list \<Rightarrow> nat \<times> bool \<times> nat \<times> ('c, 'v) cofree list" where
  "unmask_step m item st =
     (case (item, st) of
        ((i, index), (lead, differs, c, values)) \<Rightarrow>
          if push_bit index 1 AND word_at m i \<noteq> 0
          then (lead + 1, differs, c + 1, if differs then values[lead := values ! c] else values)
          else (lead, True, c + 1, values))"

definition bn_node_remove_unmasked_branches :: "path \<Rightarrow> byte_mask \<Rightarrow> nat \<Rightarrow> 'v bnode \<Rightarrow> 'v bnode" where
  "bn_node_remove_unmasked_branches key m prune_limit bn =
     (if 0 < length key then
        (if length key = 1 \<and> prune_limit = 0 then snd (bn_node_remove_dangling key prune_limit bn) else bn)
      else
        (case fold (unmask_step m) (mask_items (bn_mask bn)) (0, False, 0, bn_values bn) of
           (lead, _, _, values) \<Rightarrow> BN (mask_and (bn_mask bn) m) (take lead values)))"

definition bn_take_node_at_key :: "path \<Rightarrow> nat \<Rightarrow> 'v bnode \<Rightarrow> 'v node option \<times> 'v bnode" where
  "bn_take_node_at_key key prune_limit bn =
     (if length key < 2 then
        (case bn_get bn (hd key) of
           None \<Rightarrow> (None, bn)
         | Some cf \<Rightarrow>
             (cf_rec cf,
              if prune_limit = 0 \<and> \<not> cf_has_val cf then bn_delete (hd key) bn
              else bn_replace (hd key) (CoFree None (cf_val cf)) bn))
      else (None, bn))"

subsection \<open>Iteration\<close>

definition NODE_TOKEN_SPECIAL_BIT :: u64 where "NODE_TOKEN_SPECIAL_BIT = push_bit 63 1"
definition NODE_TOKEN_NONEXISTENT_BIT :: u64 where "NODE_TOKEN_NONEXISTENT_BIT = push_bit 62 1"
definition TOKEN_LAST :: u64 where "TOKEN_LAST = u64_MAX AND NOT NODE_TOKEN_NONEXISTENT_BIT"
definition TOKEN_AFTER_LAST :: u64 where "TOKEN_AFTER_LAST = TOKEN_LAST OR NODE_TOKEN_NONEXISTENT_BIT"
definition NODE_ITER_INVALID :: u64 where "NODE_ITER_INVALID = NODE_TOKEN_SPECIAL_BIT"
definition NODE_ITER_FINISHED :: u64 where "NODE_ITER_FINISHED = u64_MAX - 1"

definition ITER_TOKEN_BYTE_MASK :: u64 where "ITER_TOKEN_BYTE_MASK = push_bit 9 1 - 1"

definition iter_token :: "u16 \<Rightarrow> u16 \<Rightarrow> u64" where
  "iter_token byte idx = push_bit 9 (ucast idx) OR ucast byte"

definition iter_token_next_byte :: "u64 \<Rightarrow> u16" where
  "iter_token_next_byte token = ucast (token AND ITER_TOKEN_BYTE_MASK)"

definition iter_token_values_idx :: "u64 \<Rightarrow> nat" where
  "iter_token_values_idx token = unat (drop_bit 9 token)"

function next_item_word :: "byte_mask \<Rightarrow> nat \<Rightarrow> nat \<Rightarrow> u8 option" where
  "next_item_word m word_idx bit_idx =
     (let word = word_at m word_idx AND push_bit bit_idx u64_MAX in
      if word \<noteq> 0 then Some (to_u8 word_idx * 64 + to_u8 (trailing_zeros word))
      else if 4 \<le> word_idx + 1 then None
      else next_item_word m (word_idx + 1) 0)"
  by pat_completeness auto
termination
  by (relation "measure (\<lambda>(m, i, b). 4 - i)") auto

definition next_iter_item_from :: "('c, 'v) byte_node \<Rightarrow> u64 \<Rightarrow> (u8 \<times> nat) option" where
  "next_iter_item_from bn token =
     (let start = unat (iter_token_next_byte token) in
      if 256 \<le> start then None
      else map_option (\<lambda>k. (k, iter_token_values_idx token)) (next_item_word (bn_mask bn) (start div 64) (start mod 64)))"

definition bn_new_iter_token :: u64 where
  "bn_new_iter_token = iter_token 0 0"

definition bn_iter_token_for_path :: "('c, 'v) byte_node \<Rightarrow> path \<Rightarrow> u64" where
  "bn_iter_token_for_path bn key =
     (if length key = 0 then bn_new_iter_token
      else
        let key_byte = hd key;
            has_bit = test_bit (bn_mask bn) key_byte;
            values_idx = index_of (bn_mask bn) key_byte + (if has_bit then 1 else 0);
            token = iter_token (ucast key_byte + 1) (ucast values_idx)
        in if length key = 1 \<and> has_bit then token else token OR NODE_TOKEN_NONEXISTENT_BIT)"

text \<open>The entry is read with \<open>get_unchecked\<close>; \<open>Panic\<close> marks an index past the entries.\<close>

definition bn_next_items :: "('c, 'v) byte_node \<Rightarrow> u64 \<Rightarrow> (u64 \<times> path \<times> 'c option \<times> 'v option) outcome" where
  "bn_next_items bn token =
     (case next_iter_item_from bn (token AND NOT NODE_TOKEN_NONEXISTENT_BIT) of
        None \<Rightarrow> Ret (NODE_ITER_FINISHED, [], None, None)
      | Some (k, values_idx) \<Rightarrow>
          bind_outcome (index_outcome (bn_values bn) values_idx)
            (\<lambda>cf. Ret (iter_token (ucast k + 1) (word_of_nat values_idx + 1), [k], cf_rec cf, cf_val cf)))"

definition bn_goat_val_count :: "('c, 'v) byte_node \<Rightarrow> nat" where
  "bn_goat_val_count bn = foldr (\<lambda>cf t. t + (if cf_has_val cf then 1 else 0)) (bn_values bn) 0"

fun next_rec :: "nat \<Rightarrow> ('c, 'v) cofree list \<Rightarrow> u64 \<times> 'c option" where
  "next_rec pos [] = (0, None)"
| "next_rec pos (cf # cfs) =
     (case cf_rec cf of Some child \<Rightarrow> (word_of_nat (pos + 1), Some child) | None \<Rightarrow> next_rec (pos + 1) cfs)"

definition bn_child_iter_start :: "('c, 'v) byte_node \<Rightarrow> u64 \<times> 'c option" where
  "bn_child_iter_start bn = next_rec 0 (bn_values bn)"

definition bn_child_iter_next :: "('c, 'v) byte_node \<Rightarrow> u64 \<Rightarrow> u64 \<times> 'c option" where
  "bn_child_iter_next bn token = next_rec (unat token) (drop (unat token) (bn_values bn))"

end
