(* ===== verification/Byte_Ops_Laws.thy ===== *)
theory Byte_Ops_Laws
  imports Byte_Ops
begin

text \<open>
  What the operations of a byte node do to the map it stands for, and that its iteration lists every
  entry once, in ascending byte order.
\<close>

subsection \<open>Reading and writing through the entries\<close>

text \<open>The entry of a byte as a map below that byte.\<close>

definition entry_den :: "'v bnode \<Rightarrow> u8 \<Rightarrow> path \<Rightarrow> 'v option" where
  "entry_den bn b rest = (case bn_get bn b of Some cf \<Rightarrow> cf_den den cf rest | None \<Rightarrow> None)"

lemma bn_den_Cons [simp]: "bn_den den bn (b # rest) = entry_den bn b rest"
  by (simp add: bn_den_def entry_den_def)

lemma bn_den_Nil [simp]: "bn_den D bn [] = None"
  by (simp add: bn_den_def)

lemma bn_den_eqI:
  assumes "\<And>b rest. entry_den bn b rest = f (b # rest)" "f [] = None"
  shows "den (ByteN bn) = f"
proof
  fix q show "den (ByteN bn) q = f q" using assms by (cases q) auto
qed

lemma wf_byteD: "wf_node (ByteN bn) \<Longrightarrow> bn_ok bn"
  by simp

lemma wf_entry: "wf_node (ByteN bn) \<Longrightarrow> bn_get bn b = Some cf \<Longrightarrow> cf_rec cf = Some c \<Longrightarrow> wf_node c"
  unfolding wf_byte_iff wf_byte_def by blast

definition bn_rec :: "'v bnode \<Rightarrow> u8 \<Rightarrow> 'v node option" where
  "bn_rec bn b = Option.bind (bn_get bn b) cf_rec"

definition bn_val :: "'v bnode \<Rightarrow> u8 \<Rightarrow> 'v option" where
  "bn_val bn b = Option.bind (bn_get bn b) cf_val"

lemma entry_den_alt:
  "entry_den bn b rest = (if rest = [] then bn_val bn b else case bn_rec bn b of Some c \<Rightarrow> den c rest | None \<Rightarrow> None)"
  by (auto simp: entry_den_def cf_den_def bn_rec_def bn_val_def split: option.splits)

lemma wf_byte_entries:
  "wf_node (ByteN bn) \<longleftrightarrow> bn_ok bn \<and> (\<forall>b c. bn_rec bn b = Some c \<longrightarrow> wf_node c)"
  unfolding wf_byte_iff wf_byte_def bn_rec_def by (auto simp: bind_eq_Some_conv)

lemma replace_entry:
  assumes "bn_ok bn" "bn_get bn k \<noteq> None"
  shows "bn_ok (bn_replace k cf bn)"
    "bn_rec (bn_replace k cf bn) b = (if b = k then cf_rec cf else bn_rec bn b)"
    "bn_val (bn_replace k cf bn) b = (if b = k then cf_val cf else bn_val bn b)"
  using bn_get_replace[OF assms] by (auto simp: bn_rec_def bn_val_def)

lemma delete_entry:
  assumes "bn_ok bn" "bn_get bn k \<noteq> None"
  shows "bn_ok (bn_delete k bn)"
    "bn_rec (bn_delete k bn) b = (if b = k then None else bn_rec bn b)"
    "bn_val (bn_delete k bn) b = (if b = k then None else bn_val bn b)"
  using bn_get_delete[OF assms] by (auto simp: bn_rec_def bn_val_def)

lemma set_child_entry:
  assumes "bn_ok bn"
  shows "bn_ok (snd (set_child k n bn))"
    "bn_rec (snd (set_child k n bn)) b = (if b = k then Some n else bn_rec bn b)"
    "bn_val (snd (set_child k n bn)) b = bn_val bn b"
  using set_child_spec[OF assms, of k n] by (auto simp: bn_rec_def bn_val_def)

lemma set_val_entry:
  assumes "bn_ok bn"
  shows "bn_ok (snd (set_val k v bn))"
    "bn_rec (snd (set_val k v bn)) b = bn_rec bn b"
    "bn_val (snd (set_val k v bn)) b = (if b = k then Some v else bn_val bn b)"
    "fst (set_val k v bn) = bn_val bn k"
  using set_val_spec[OF assms, of k v] by (auto simp: bn_rec_def bn_val_def)

lemma set_dangling_entry:
  assumes "bn_ok bn"
  shows "bn_ok (snd (set_dangling_cf k bn))"
    "bn_rec (snd (set_dangling_cf k bn)) b = bn_rec bn b"
    "bn_val (snd (set_dangling_cf k bn)) b = bn_val bn b"
  using set_dangling_cf_spec[OF assms, of k] by (auto simp: bn_rec_def bn_val_def)

lemma new_byte_entries [simp]:
  "bn_rec new_byte_node b = None" "bn_val new_byte_node b = None" "wf_node (ByteN new_byte_node)"
  by (simp_all add: bn_rec_def bn_val_def wf_byte_entries del: wf_node_simps)

lemmas entry_simps = replace_entry delete_entry set_child_entry set_val_entry set_dangling_entry

lemma strict_prefix_Nil: "strict_prefix [] q \<longleftrightarrow> q \<noteq> []"
  by (auto simp: strict_prefix_def)

text \<open>Where a write with a key of several bytes may go: no link leads on from its first byte (the
  caller would have followed it).\<close>

definition byte_can_write :: "path \<Rightarrow> 'v bnode \<Rightarrow> bool" where
  "byte_can_write key bn \<longleftrightarrow>
     key \<noteq> [] \<and> wf_node (ByteN bn) \<and> (1 < length key \<longrightarrow> bn_rec bn (hd key) \<in> {None, Some EmptyN})"

lemma fresh_can_write: "key \<noteq> [] \<Longrightarrow> wf_payload p \<Longrightarrow> can_write key p new_list_node"
  by (simp add: can_write_def new_list_node_def)

lemma fresh_written:
  assumes "slice_utils_ok S" "key \<noteq> []" "wf_payload p"
  obtains cr ln' where "set_payload_abstract S key p new_list_node = Ok (None, cr, ln')"
    "wf_node (ListN ln')" "\<And>q. den (ListN ln') q = slot_den den (Some (key, p)) q"
proof -
  have w: "written key p new_list_node (set_payload_abstract S key p new_list_node)"
    by (rule set_payload_abstract_written[OF assms(1) fresh_can_write[OF assms(2,3)]])
  have s: "set_payload_abstract S key p new_list_node = Ok (None, fst (set_payload_0_no_overflow key p (LN None None)), snd (set_payload_0_no_overflow key p (LN None None)))"
    unfolding new_list_node_def
    by (rule set_step_none[OF assms(1)])
      (simp_all add: swap_payload_exact_key_def holds_exact_def remove_dangling_payload_along_key_def)
  show ?thesis
  proof (rule that[OF s])
    let ?ln' = "snd (set_payload_0_no_overflow key p (LN None None))"
    have "wf_node (ListN ?ln')" and d: "ln_den den ?ln' = write_den key p (slot_den den None)"
      using w unfolding s by (simp_all add: written_def new_list_node_def ln_den_fun(1) case_prod_beta del: slot_den_simps)
    then show "wf_node (ListN ?ln')" by simp
    show "den (ListN ?ln') q = slot_den den (Some (key, p)) q" for q
      using slot_den_covers[OF assms(3), of key q] by (simp add: d write_den_def del: slot_den_simps(2,3))
  qed
qed

lemma byte_set_val_spec:
  assumes "slice_utils_ok S" "byte_can_write key bn"
  shows "\<exists>created_subnode bn'. bn_node_set_val S key v bn = Ret (den (ByteN bn) key, created_subnode, bn') \<and>
     wf_node (ByteN bn') \<and> den (ByteN bn') = (den (ByteN bn))(key \<mapsto> v)"
proof -
  obtain b rest where key: "key = b # rest" using assms(2) by (cases key) (auto simp: byte_can_write_def)
  have wf: "wf_node (ByteN bn)" and ok: "bn_ok bn" and ch: "\<And>b c. bn_rec bn b = Some c \<Longrightarrow> wf_node c"
    using assms(2) unfolding byte_can_write_def wf_byte_entries by blast+
  show ?thesis
  proof (cases "rest = []")
    case True
    have "den (ByteN (snd (set_val b v bn))) = (den (ByteN bn))(key \<mapsto> v)"
      by (rule bn_den_eqI) (auto simp: entry_den_alt set_val_entry[OF ok] key True)
    then show ?thesis
      using True set_val_entry[OF ok, of b v] ch key
      by (auto simp: bn_node_set_val_def wf_byte_entries entry_den_alt simp del: wf_node_simps(3) split: prod.splits)
  next
    case False
    have free: "bn_rec bn b \<in> {None, Some EmptyN}" using assms(2) False by (simp add: byte_can_write_def key)
    obtain cr child where c: "set_payload_abstract S rest (Val v) new_list_node = Ok (None, cr, child)"
      "wf_node (ListN child)" "\<And>q. den (ListN child) q = slot_den den (Some (rest, Val v)) q"
      using fresh_written[OF assms(1) False, of "Val v"] by auto
    have r: "bn_node_set_val S key v bn = Ret (None, True, snd (set_child b (ListN child) bn))"
      using False c(1) by (simp add: bn_node_set_val_def key ln_set_val_def)
    have "den (ByteN (snd (set_child b (ListN child) bn))) = (den (ByteN bn))(key \<mapsto> v)"
      by (rule bn_den_eqI) (use c(3) free in \<open>auto simp: entry_den_alt set_child_entry[OF ok] key False\<close>)
    moreover have "wf_node (ByteN (snd (set_child b (ListN child) bn)))"
      unfolding wf_byte_entries using set_child_entry[OF ok] c(2) ch by (auto split: if_splits)
    moreover have "den (ByteN bn) key = None" using free False by (auto simp: key entry_den_alt)
    ultimately show ?thesis using r by auto
  qed
qed

text \<open>C30: Writing a value into a byte node, directly or in a fresh list node for the rest of the key,
  never panics, stores exactly that value and returns the old one.\<close>

theorem byte_set_val_correct:
  assumes "slice_utils_ok S" "byte_can_write key bn"
  shows "\<exists>created_subnode bn'. bn_node_set_val S key v bn = Ret (den (ByteN bn) key, created_subnode, bn') \<and>
     wf_node (ByteN bn') \<and> den (ByteN bn') = (den (ByteN bn))(key \<mapsto> v)"
  by (rule byte_set_val_spec[OF assms])

theorem byte_set_val_correct_witness:
  "\<exists>created_subnode bn'. bn_node_set_val std_slice_utils [3, 4] (7::nat) new_byte_node = Ret (None, created_subnode, bn') \<and>
     den (ByteN bn') [3, 4] = Some 7"
proof -
  have "byte_can_write [3, 4] (new_byte_node :: nat bnode)"
    by (simp add: byte_can_write_def del: wf_node_simps)
  from byte_set_val_correct[OF std_slice_utils_ok this, of 7] show ?thesis
    by (auto simp: fun_eq_iff simp del: bn_den_Cons)
qed

text \<open>Grafting a node into a byte node replaces everything strictly below the key and nothing
  else.\<close>

theorem byte_set_branch_correct:
  assumes "slice_utils_ok S" "byte_can_write key bn" "wf_node n"
  shows "\<exists>created_subnode bn'. bn_node_set_branch S key n bn = Ret (created_subnode, bn') \<and> wf_node (ByteN bn') \<and>
     (\<forall>q. den (ByteN bn') q = (if strict_prefix key q then den n (drop (length key) q) else den (ByteN bn) q))"
proof -
  obtain b rest where key: "key = b # rest" using assms(2) by (cases key) (auto simp: byte_can_write_def)
  have ok: "bn_ok bn" and ch: "\<And>b c. bn_rec bn b = Some c \<Longrightarrow> wf_node c"
    using assms(2) unfolding byte_can_write_def wf_byte_entries by blast+
  obtain n' cr where n': "bn_node_set_branch S key n bn = Ret (cr, snd (set_child b n' bn))" "wf_node n'"
    "\<And>q. q \<noteq> [] \<Longrightarrow> den n' q = (if rest = [] \<or> strict_prefix rest q then den n (drop (length rest) q) else None)"
  proof (cases "rest = []")
    case True
    then show ?thesis using assms(3) that[of False n] by (simp add: bn_node_set_branch_def key)
  next
    case False
    obtain cr child where c: "set_payload_abstract S rest (Child n) new_list_node = Ok (None, cr, child)"
      "wf_node (ListN child)" "\<And>q. den (ListN child) q = slot_den den (Some (rest, Child n)) q"
      using fresh_written[OF assms(1) False, of "Child n"] assms(3) by auto
    show ?thesis
    proof (rule that)
      show "bn_node_set_branch S key n bn = Ret (True, snd (set_child b (ListN child) bn))"
        using False c(1) by (simp add: bn_node_set_branch_def key ln_set_branch_def)
      show "wf_node (ListN child)" by (rule c(2))
      show "den (ListN child) q = (if rest = [] \<or> strict_prefix rest q then den n (drop (length rest) q) else None)" for q
        unfolding c(3) using False wf_den_Nil[OF assms(3)] by (auto simp: strict_prefix_def)
    qed
  qed
  have free: "rest \<noteq> [] \<Longrightarrow> bn_rec bn b \<in> {None, Some EmptyN}" using assms(2) by (simp add: byte_can_write_def key)
  have "den (ByteN (snd (set_child b n' bn))) q = (if strict_prefix key q then den n (drop (length key) q) else den (ByteN bn) q)" for q
    using free by (cases q) (auto simp: key entry_den_alt set_child_entry[OF ok] n'(3) strict_prefix_Nil)
  moreover have "wf_node (ByteN (snd (set_child b n' bn)))"
    unfolding wf_byte_entries using set_child_entry[OF ok] n'(2) ch by (auto split: if_splits)
  ultimately show ?thesis using n'(1) by simp
qed

theorem byte_set_branch_correct_witness:
  "\<exists>created_subnode bn'. bn_node_set_branch std_slice_utils [3] (ListN (LN (Some ([4], Val (7::nat))) None)) new_byte_node = Ret (created_subnode, bn') \<and>
     den (ByteN bn') [3, 4] = Some 7"
proof -
  have "byte_can_write [3] (new_byte_node :: nat bnode)"
    by (simp add: byte_can_write_def del: wf_node_simps)
  from byte_set_branch_correct[OF std_slice_utils_ok this, of "ListN (LN (Some ([4], Val 7)) None)"]
  show ?thesis by (auto simp: KEY_BYTES_CNT_def dest: spec[of _ "[3, 4]"])
qed

subsection \<open>Removals\<close>

lemma bn_get_empty_child:
  "wf_node (ByteN bn) \<Longrightarrow> bn_rec bn b = Some c \<Longrightarrow> node_is_empty c \<Longrightarrow> den c q = None"
  unfolding wf_byte_entries using empty_node_den by blast

lemma bn_get_None: "bn_get bn b = None \<Longrightarrow> bn_rec bn b = None \<and> bn_val bn b = None"
  by (simp add: bn_rec_def bn_val_def)

lemma bn_get_Some: "bn_get bn b = Some cf \<Longrightarrow> bn_rec bn b = cf_rec cf \<and> bn_val bn b = cf_val cf"
  by (simp add: bn_rec_def bn_val_def)

text \<open>Whether a byte still has an entry, and so its one-byte path exists.\<close>

definition bn_has :: "'v bnode \<Rightarrow> u8 \<Rightarrow> bool" where
  "bn_has bn b \<longleftrightarrow> bn_get bn b \<noteq> None"

lemma bn_has_updates:
  assumes "bn_ok bn" "bn_get bn k \<noteq> None"
  shows "bn_has (bn_replace k cf bn) b \<longleftrightarrow> bn_has bn b" "bn_has (bn_delete k bn) b \<longleftrightarrow> bn_has bn b \<and> b \<noteq> k"
  using bn_get_replace[OF assms] bn_get_delete[OF assms] assms(2) by (auto simp: bn_has_def)

text \<open>C31: Removing a value from a byte node returns it and removes only it; the entry of the byte
  goes away only if nothing below it is left and the prune limit allows it.\<close>

theorem byte_remove_val_correct:
  assumes "wf_node (ByteN bn)" "bn_node_remove_val key prune_limit bn = (old, bn')"
  shows "old = bn_get_val bn key \<and> wf_node (ByteN bn') \<and>
    den (ByteN bn') = (if length key = 1 then (den (ByteN bn))(key := None) else den (ByteN bn)) \<and>
    (\<forall>b. bn_has bn' b \<longleftrightarrow> bn_has bn b \<and>
       \<not> (key = [b] \<and> prune_limit = 0 \<and> (\<forall>c. bn_rec bn b = Some c \<longrightarrow> node_is_empty c)))"
proof (cases "length key = 1")
  case True
  then obtain k where key: "key = [k]" by (auto simp: length_Suc_conv)
  have ok: "bn_ok bn" and ch: "\<And>b c. bn_rec bn b = Some c \<Longrightarrow> wf_node c"
    using assms(1) unfolding wf_byte_entries by blast+
  show ?thesis
  proof (cases "bn_get bn k")
    case None
    then have "den (ByteN bn) = (den (ByteN bn))([k] := None)"
      using bn_get_None[OF None] by (auto simp: fun_eq_iff entry_den_alt)
    then show ?thesis
      using assms None by (auto simp: key bn_node_remove_val_def bn_remove_val_def bn_get_val_def bn_has_def)
  next
    case (Some cf)
    note e = bn_get_Some[OF Some]
    define del where "del \<longleftrightarrow> prune_limit = 0 \<and> (case cf_rec cf of Some rec \<Rightarrow> node_is_empty rec | None \<Rightarrow> True)"
    have bn': "old = cf_val cf" "bn' = (if del then bn_delete k bn else bn_replace k (CoFree (cf_rec cf) None) bn)"
      using assms(2) Some by (auto simp: key bn_node_remove_val_def bn_remove_val_def del_def)
    have del: "del \<longleftrightarrow> prune_limit = 0 \<and> (\<forall>c. bn_rec bn k = Some c \<longrightarrow> node_is_empty c)"
      using e by (auto simp: del_def split: option.splits)
    have ne: "bn_get bn k \<noteq> None" using Some by simp
    have "den (ByteN bn') = (den (ByteN bn))([k] := None)"
      using bn_get_empty_child[OF assms(1), of k] e del
      by (intro bn_den_eqI)
        (auto simp: bn'(2) entry_den_alt replace_entry[OF ok ne] delete_entry[OF ok ne] split: option.splits)
    moreover have "wf_node (ByteN bn')"
      using ch e unfolding wf_byte_entries bn'(2) by (auto simp: replace_entry[OF ok ne] delete_entry[OF ok ne])
    moreover have "bn_has bn' b \<longleftrightarrow> bn_has bn b \<and> \<not> (b = k \<and> del)" for b
      unfolding bn'(2) using bn_has_updates[OF ok ne] by auto
    ultimately show ?thesis
      using bn'(1) del Some by (auto simp: key bn_get_val_def simp del: wf_node_simps)
  qed
next
  case False
  then show ?thesis using assms by (auto simp: bn_node_remove_val_def bn_get_val_def)
qed

theorem byte_remove_val_correct_witness:
  "\<exists>bn'. bn_node_remove_val [3] 0 (BN (set_bit EMPTY 3) [CoFree None (Some (7::nat))]) = (Some 7, bn') \<and>
     den (ByteN bn') [3] = None"
proof -
  let ?bn = "BN (set_bit EMPTY 3) [CoFree None (Some 7)] :: nat bnode"
  have set: "?bn = snd (set_val 3 7 new_byte_node)"
    by (simp add: set_val_def bn_insert_def new_byte_node_def bn_get_def vec_insert_def)
  have wf: "wf_node (ByteN ?bn)"
    unfolding wf_byte_entries set by (simp add: set_val_entry)
  obtain old bn' where r: "bn_node_remove_val [3] 0 ?bn = (old, bn')" by fastforce
  have "bn_val ?bn 3 = Some 7" unfolding set by (simp add: set_val_entry)
  then have "bn_get_val ?bn [3] = Some 7"
    by (auto simp: bn_get_val_def bn_val_def bind_eq_Some_conv)
  then show ?thesis using byte_remove_val_correct[OF wf r] r by (simp add: fun_eq_iff del: bn_den_Cons)
qed

subsection \<open>The bits of the mask, word by word\<close>

lemma word_items_eq: "word_items lm = filter (bit lm) [0..<64]"
proof (induction lm rule: word_items.induct)
  case (1 lm)
  show ?case
  proof (cases "lm = 0")
    case True
    then show ?thesis by (simp add: word_items.simps del: upt_Suc)
  next
    case False
    let ?t = "trailing_zeros lm"
    have b: "bit lm ?t" using False by (meson trailing_zeros_bit trailing_zeros_less_iff)
    then have l: "?t < 64" using bit_imp_le_length by fastforce
    have s: "[0..<64] = [0..<?t] @ [?t] @ [Suc ?t..<64]"
    proof -
      have "[?t..<Suc ?t] = [?t]" by simp
      then show ?thesis using l upt_split[of 0 ?t 64] upt_split[of ?t "Suc ?t" 64] by (simp del: upt_Suc)
    qed
    have lo: "filter (bit lm) [0..<?t] = []" "filter (bit (lm XOR push_bit ?t 1)) [0..<?t] = []"
      using trailing_zeros_below[of _ lm] l by (auto simp: filter_empty_conv bit_xor_iff bit_pow_u64)
    have hi: "filter (bit (lm XOR push_bit ?t 1)) [Suc ?t..<64] = filter (bit lm) [Suc ?t..<64]"
      by (rule filter_cong) (auto simp: bit_xor_iff bit_pow_u64)
    have "word_items lm = ?t # word_items (lm XOR push_bit ?t 1)" using False by (subst word_items.simps) simp
    also have "\<dots> = ?t # filter (bit (lm XOR push_bit ?t 1)) [0..<64]" using 1 False by simp
    also have "\<dots> = filter (bit lm) [0..<64]"
      unfolding s filter_append lo hi using b by (simp add: bit_xor_iff bit_pow_u64 l)
    finally show ?thesis .
  qed
qed

lemma mask_items_bits: "map (\<lambda>(i, index). 64 * i + index) (mask_items m) = bits m"
proof -
  have w: "map (\<lambda>index. 64 * i + index) (filter (bit (word_at m i)) [0..<64]) = filter (mbit m) [64 * i..<64 * i + 64]" if "i < 4" for i
  proof -
    have "filter (mbit m) [64 * i..<64 * i + 64] = filter (mbit m) (map (\<lambda>r. 64 * i + r) [0..<64])"
      by (simp only: upt_shift)
    also have "\<dots> = map (\<lambda>r. 64 * i + r) (filter (mbit m \<circ> (\<lambda>r. 64 * i + r)) [0..<64])" by (rule filter_map)
    also have "filter (mbit m \<circ> (\<lambda>r. 64 * i + r)) [0..<64] = filter (bit (word_at m i)) [0..<64]"
      using that by (intro filter_cong) (auto simp: mbit_def)
    finally show ?thesis by simp
  qed
  have s: "[0..<256] = [0..<64] @ [64..<128] @ [128..<192] @ [192..<256::nat]"
    by (rule trans[OF upt_split[of 0 64 256]], simp_all only: append_same_eq same_append_eq,
        simp_all only: upt_split[of 64 128 256] upt_split[of 128 192 256] le_numeral_extra numeral_le_iff semiring_norm zero_le) 
  have "[0..<4] = [0, 1, 2, 3::nat]" by (simp add: upt_rec)
  then have "map (\<lambda>(i, index). 64 * i + index) (mask_items m) =
      concat (map (\<lambda>i. map (\<lambda>index. 64 * i + index) (filter (bit (word_at m i)) [0..<64])) [0, 1, 2, 3])"
    by (simp only: mask_items_def map_concat map_map o_def word_items_eq prod.case)
  also have "\<dots> = filter (mbit m) [0..<64] @ filter (mbit m) [64..<128] @ filter (mbit m) [128..<192] @ filter (mbit m) [192..<256]"
    using w[of 0] w[of 1] w[of 2] w[of 3] by (simp only: list.map concat.simps) simp
  finally show ?thesis by (simp only: bits_def s filter_append)
qed

lemma mask_items_less: "(i, index) \<in> set (mask_items m) \<Longrightarrow> i < 4 \<and> index < 64"
  by (auto simp: mask_items_def word_items_eq simp del: upt_Suc)

lemma mask_items_bit: "(i, index) \<in> set (mask_items m) \<Longrightarrow> push_bit index 1 AND word_at m' i \<noteq> 0 \<longleftrightarrow> mbit m' (64 * i + index)"
proof -
  assume "(i, index) \<in> set (mask_items m)"
  then have "index < 64" "i < 4" using mask_items_less by blast+
  then show ?thesis
    using and_exp_eq_0_iff_not_bit[of "word_at m' i" index] by (simp add: and.commute mbit_def)
qed

subsection \<open>Subtries\<close>

lemma byte_get_node_at_key_spec:
  assumes "wf_node (ByteN bn)"
  shows "case ref_into_option (bn_get_node_at_key bn [b]) of
      None \<Rightarrow> (\<forall>q. q \<noteq> [] \<longrightarrow> den (ByteN bn) (b # q) = None)
    | Some n \<Rightarrow> wf_node n \<and> (\<forall>q. q \<noteq> [] \<longrightarrow> den n q = den (ByteN bn) (b # q))"
proof (cases "bn_get bn b")
  case None
  then show ?thesis using bn_get_None[OF None] by (simp add: bn_get_node_at_key_def entry_den_alt)
next
  case (Some cf)
  note e = bn_get_Some[OF Some]
  show ?thesis
  proof (cases "cf_rec cf")
    case None
    then show ?thesis using Some e by (simp add: bn_get_node_at_key_def entry_den_alt)
  next
    case (Some c)
    then have "bn_rec bn b = Some c" using e by simp
    then show ?thesis
      using \<open>bn_get bn b = Some cf\<close> Some assms bn_get_empty_child[OF assms]
      unfolding wf_byte_entries by (auto simp: bn_get_node_at_key_def entry_den_alt)
  qed
qed

text \<open>\<open>get_node_at_key\<close> on a byte node borrows the child behind the byte, which stands for
  exactly the map below it, and answers with nothing only when there is no value below the byte.\<close>

theorem byte_get_node_at_key_correct:
  assumes "wf_node (ByteN bn)"
  shows "case ref_into_option (bn_get_node_at_key bn [b]) of
      None \<Rightarrow> (\<forall>q. q \<noteq> [] \<longrightarrow> den (ByteN bn) (b # q) = None)
    | Some n \<Rightarrow> wf_node n \<and> (\<forall>q. q \<noteq> [] \<longrightarrow> den n q = den (ByteN bn) (b # q))"
  by (rule byte_get_node_at_key_spec[OF assms])

theorem byte_get_node_at_key_correct_witness:
  "case ref_into_option (bn_get_node_at_key (snd (set_val 3 (5::nat) new_byte_node)) [3]) of
      None \<Rightarrow> (\<forall>q. q \<noteq> [] \<longrightarrow> den (ByteN (snd (set_val 3 (5::nat) new_byte_node))) (3 # q) = None)
    | Some n \<Rightarrow> wf_node n \<and> (\<forall>q. q \<noteq> [] \<longrightarrow> den n q = den (ByteN (snd (set_val 3 (5::nat) new_byte_node))) (3 # q))"
  by (rule byte_get_node_at_key_correct) (unfold wf_byte_entries, simp add: set_val_entry)

text \<open>C32: \<open>take_node_at_key\<close> on a byte node hands out the child behind the byte and removes exactly
  the paths strictly below it; the entry stays when it holds a value or the prune limit protects it.\<close>

theorem byte_take_node_at_key_correct:
  assumes "wf_node (ByteN bn)" "bn_take_node_at_key [b] prune_limit bn = (taken, bn')"
  shows "wf_node (ByteN bn') \<and> taken = bn_rec bn b \<and>
    den (ByteN bn') = (\<lambda>q. if strict_prefix [b] q then None else den (ByteN bn) q) \<and>
    (\<forall>b'. bn_has bn' b' \<longleftrightarrow> bn_has bn b' \<and> \<not> (b' = b \<and> prune_limit = 0 \<and> bn_val bn b = None))"
proof (cases "bn_get bn b")
  case None
  then have "den (ByteN bn) = (\<lambda>q. if strict_prefix [b] q then None else den (ByteN bn) q)"
    using bn_get_None[OF None] by (intro bn_den_eqI) (auto simp: entry_den_alt)
  then show ?thesis
    using assms None by (auto simp: bn_take_node_at_key_def bn_rec_def bn_has_def)
next
  case (Some cf)
  note e = bn_get_Some[OF Some]
  have ok: "bn_ok bn" and ch: "\<And>b c. bn_rec bn b = Some c \<Longrightarrow> wf_node c"
    using assms(1) unfolding wf_byte_entries by blast+
  have ne: "bn_get bn b \<noteq> None" using Some by simp
  define del where "del \<longleftrightarrow> prune_limit = 0 \<and> bn_val bn b = None"
  have bn': "taken = bn_rec bn b" "bn' = (if del then bn_delete b bn else bn_replace b (CoFree None (cf_val cf)) bn)"
    using assms(2) Some e by (auto simp: bn_take_node_at_key_def del_def cf_has_val_def)
  have "den (ByteN bn') = (\<lambda>q. if strict_prefix [b] q then None else den (ByteN bn) q)"
    using e del_def
    by (intro bn_den_eqI) (auto simp: bn'(2) entry_den_alt replace_entry[OF ok ne] delete_entry[OF ok ne] strict_prefix_Nil)
  moreover have "wf_node (ByteN bn')"
    using ch unfolding wf_byte_entries bn'(2) by (auto simp: replace_entry[OF ok ne] delete_entry[OF ok ne])
  moreover have "bn_has bn' b' \<longleftrightarrow> bn_has bn b' \<and> \<not> (b' = b \<and> del)" for b'
    unfolding bn'(2) using bn_has_updates[OF ok ne] by auto
  ultimately show ?thesis using bn'(1) by (auto simp: del_def simp del: wf_node_simps)
qed

theorem byte_take_node_at_key_correct_witness:
  "\<exists>taken bn'. bn_take_node_at_key [3] 0 (snd (set_val 3 (5::nat) new_byte_node)) = (taken, bn') \<and> den (ByteN bn') [3] = Some 5"
proof -
  let ?bn = "snd (set_val 3 (5::nat) new_byte_node)"
  have wf: "wf_node (ByteN ?bn)" unfolding wf_byte_entries by (simp add: set_val_entry)
  obtain taken bn' where r: "bn_take_node_at_key [3] 0 ?bn = (taken, bn')" by fastforce
  have "den (ByteN bn') [3] = den (ByteN ?bn) [3]"
    using byte_take_node_at_key_correct[OF wf r] by (simp del: bn_den_Cons)
  then show ?thesis using r by (simp add: entry_den_alt set_val_entry)
qed

subsection \<open>Entries as an association list\<close>

lemma bn_get_map_of:
  assumes "bn_ok (BN m cfs)"
  shows "bn_get (BN m cfs) k = map_of (zip (bits m) cfs) (unat k)"
proof -
  have len: "length (bits m) = length cfs" using assms by (simp add: bn_ok_BN length_bits)
  show ?thesis
  proof (cases "mbit m (unat k)")
    case True
    note n = nth_rank_bits[OF True]
    have "map_of (zip (bits m) cfs) (bits m ! rank m (unat k)) = Some (cfs ! rank m (unat k))"
      using n len by (intro map_of_zip_nth) simp_all
    then show ?thesis using n True by (simp add: bn_get_alt[OF assms])
  next
    case False
    then have "map_of (zip (bits m) cfs) (unat k) = None"
      by (auto simp: map_of_eq_None_iff set_bits dest: set_zip_leftD)
    then show ?thesis using False by (simp add: bn_get_alt[OF assms])
  qed
qed

lemma mbit_mask_and: "mbit (mask_and m m') n \<longleftrightarrow> mbit m n \<and> mbit m' n"
  by (simp add: mask_simps)

lemma bits_mask_and: "bits (mask_and m m') = filter (mbit m') (bits m)"
  unfolding bits_def filter_filter by (rule filter_cong) (auto simp: mbit_mask_and)

lemma map_snd_filter_zip: "map fst (filter (P \<circ> fst) (zip xs ys)) = filter P (take (length ys) xs)"
proof (induction xs arbitrary: ys)
  case (Cons x xs) then show ?case by (cases ys) auto
qed simp

lemma map_of_filter_fst: "map_of (filter (P \<circ> fst) ps) k = (if P k then map_of ps k else None)"
  by (induction ps) auto

lemma unmask_step_eq:
  "unmask_step m (i, index) (lead, differs, c, vals) =
     (if push_bit index 1 AND word_at m i \<noteq> 0
      then (lead + 1, differs, c + 1, if differs then vals[lead := vals ! c] else vals)
      else (lead, True, c + 1, vals))"
  by (simp add: unmask_step_def)

lemma unmask_loop:
  assumes "set items \<subseteq> set (mask_items m0)" "c + length items = length vals" "lead \<le> c" "\<not> differs \<Longrightarrow> lead = c"
    and "fold (unmask_step m) items (lead, differs, c, vals) = (lead', differs', c', vals')"
  shows "take lead' vals' = take lead vals @
     map snd (filter (\<lambda>(it, _). mbit m (64 * fst it + snd it)) (zip items (drop c vals)))"
  using assms
proof (induction items arbitrary: lead differs c vals)
  case (Cons it items)
  obtain i index where it: "it = (i, index)" by (cases it)
  have keep: "push_bit index 1 AND word_at m i \<noteq> 0 \<longleftrightarrow> mbit m (64 * i + index)"
    using mask_items_bit[of i index m0 m] Cons.prems(1) it by auto
  have c: "c < length vals" using Cons.prems(2) by simp
  have d: "drop c vals = vals ! c # drop (Suc c) vals" using c by (simp add: Cons_nth_drop_Suc)
  show ?case
  proof (cases "mbit m (64 * i + index)")
    case True
    define vs where "vs = (if differs then vals[lead := vals ! c] else vals)"
    have f: "fold (unmask_step m) items (lead + 1, differs, c + 1, vs) = (lead', differs', c', vals')"
      using Cons.prems(5) True keep by (simp add: unmask_step_eq it vs_def)
    have lc: "take (lead + 1) vs = take lead vals @ [vals ! c]"
      using c Cons.prems(3,4) by (auto simp: vs_def take_Suc_conv_app_nth)
    have dr: "drop (Suc c) vs = drop (Suc c) vals" "length vs = length vals" using Cons.prems(3) by (auto simp: vs_def)
    show ?thesis
      using Cons.IH[OF _ _ _ _ f] Cons.prems(1-4) lc dr True by (simp add: d it)
  next
    case False
    have f: "fold (unmask_step m) items (lead, True, c + 1, vals) = (lead', differs', c', vals')"
      using Cons.prems(5) False keep by (simp add: unmask_step_eq it)
    show ?thesis using Cons.IH[OF _ _ _ _ f] Cons.prems(1-4) False by (simp add: d it)
  qed
qed simp

text \<open>The in-place compaction that removes the branches outside a mask leaves exactly the entries
  of the masked bytes, unchanged and at their new indices.\<close>

theorem byte_remove_unmasked_correct:
  assumes "wf_node (ByteN bn)"
  shows "wf_node (ByteN (bn_node_remove_unmasked_branches [] m prune_limit bn)) \<and>
    bn_get (bn_node_remove_unmasked_branches [] m prune_limit bn) b = (if test_bit m b then bn_get bn b else None)"
proof -
  obtain m0 cfs where bn: "bn = BN m0 cfs" by (cases bn)
  have ok: "bn_ok (BN m0 cfs)" using assms bn by simp
  define items where "items = mask_items m0"
  have len: "length items = length cfs" and bits: "bits m0 = map (\<lambda>(i, index). 64 * i + index) items"
    using ok mask_items_bits[of m0] length_bits[of m0] by (auto simp: bn_ok_BN items_def) (metis length_map)
  obtain lead differs c vals where f: "fold (unmask_step m) items (0, False, 0, cfs) = (lead, differs, c, vals)"
    by (metis prod_cases4)
  have v: "take lead vals = map snd (filter (\<lambda>(it, _). mbit m (64 * fst it + snd it)) (zip items cfs))"
    using unmask_loop[OF _ _ _ _ f, of m0] len by (simp add: items_def)
  have z: "zip (bits m0) cfs = map (\<lambda>(it, cf). (64 * fst it + snd it, cf)) (zip items cfs)"
    unfolding bits zip_map1 by (rule map_cong) auto
  have v': "take lead vals = map snd (filter (mbit m \<circ> fst) (zip (bits m0) cfs))"
    unfolding v z filter_map map_map by (rule map_cong) (auto simp: o_def case_prod_beta intro: filter_cong)
  let ?r = "BN (mask_and m0 m) (take lead vals)"
  have r: "bn_node_remove_unmasked_branches [] m prune_limit bn = ?r"
    using f by (simp add: bn bn_node_remove_unmasked_branches_def items_def)
  have zip': "zip (bits (mask_and m0 m)) (take lead vals) = filter (mbit m \<circ> fst) (zip (bits m0) cfs)"
  proof -
    have "map fst (filter (mbit m \<circ> fst) (zip (bits m0) cfs)) = bits (mask_and m0 m)"
      using ok unfolding map_snd_filter_zip bits_mask_and by (simp add: bn_ok_BN length_bits[symmetric])
    then show ?thesis unfolding v' by (metis zip_map_fst_snd)
  qed
  have ok': "bn_ok ?r"
  proof -
    have "length (bits (mask_and m0 m)) = length (map fst (filter (mbit m \<circ> fst) (zip (bits m0) cfs)))"
      using ok unfolding map_snd_filter_zip bits_mask_and by (simp add: bn_ok_BN length_bits[symmetric])
    then show ?thesis unfolding bn_ok_BN v' by (simp add: length_bits)
  qed
  have get: "bn_get ?r b = (if test_bit m b then bn_get bn b else None)" for b
    unfolding bn_get_map_of[OF ok'] zip' bn bn_get_map_of[OF ok] map_of_filter_fst test_bit_mbit by (rule refl)
  then show ?thesis
    using assms ok' unfolding r wf_byte_iff wf_byte_def by (auto split: if_splits)
qed

theorem byte_remove_unmasked_correct_witness:
  "bn_get (bn_node_remove_unmasked_branches [] (set_bit EMPTY 7) 0 (snd (set_val 7 (8::nat) (snd (set_val 3 5 new_byte_node))))) 3 = None"
proof -
  have "wf_node (ByteN (snd (set_val 7 (8::nat) (snd (set_val 3 5 new_byte_node)))))"
    unfolding wf_byte_entries by (simp add: set_val_entry)
  from byte_remove_unmasked_correct[OF this, of "set_bit EMPTY 7" 0 3]
  show ?thesis by (simp add: test_bit_mbit mbit_set_bit)
qed

subsection \<open>Iteration\<close>

lemma next_item_word_find:
  assumes "q < 4" "lo < 64"
  shows "next_item_word m q lo = map_option to_u8 (find (mbit m) [64 * q + lo..<256])"
  using assms
proof (induction m q lo rule: next_item_word.induct)
  case (1 m q lo)
  define w where "w = word_at m q AND push_bit lo (NOT 0)"
  have max: "u64_MAX = NOT 0" by (simp add: u64_MAX_def)
  have f: "find (mbit m) [64 * q + lo..<256] = or_else_opt (find_up m q (push_bit lo (NOT 0))) (find (mbit m) [64 * (q + 1)..<256])"
    using 1(2,3) by (intro find_from) auto
  show ?case
  proof (cases "w = 0")
    case True
    then have "trailing_zeros w = 64" using trailing_zeros_less_iff[of w] trailing_zeros_le[of w] by simp
    then have "find_up m q (push_bit lo (NOT 0)) = None" by (simp add: find_up_def w_def del: push_bit_minus_one)
    then have f': "find (mbit m) [64 * q + lo..<256] = find (mbit m) [64 * (q + 1)..<256]" using f by simp
    show ?thesis
    proof (cases "4 \<le> q + 1")
      case True
      have "find (mbit m) [64 * (q + 1)..<256] = None" using True by simp
      then show ?thesis
        using \<open>w = 0\<close> True unfolding f' by (subst next_item_word.simps) (simp add: w_def max Let_def del: push_bit_minus_one)
    next
      case False
      have "next_item_word m q lo = next_item_word m (q + 1) 0"
        using \<open>w = 0\<close> False by (subst next_item_word.simps) (simp add: w_def max Let_def del: push_bit_minus_one)
      then show ?thesis
        using 1(1)[OF refl] \<open>w = 0\<close> False f' by (simp add: w_def max del: push_bit_minus_one)
    qed
  next
    case False
    then have t: "trailing_zeros w < 64" using trailing_zeros_less_iff[of w] by simp
    then have "find (mbit m) [64 * q + lo..<256] = Some (64 * q + trailing_zeros w)"
      using f by (simp add: find_up_def w_def del: push_bit_minus_one)
    moreover have "next_item_word m q lo = Some (to_u8 q * 64 + to_u8 (trailing_zeros w))"
      using False by (subst next_item_word.simps) (simp add: w_def max Let_def del: push_bit_minus_one)
    moreover have "to_u8 q * 64 + to_u8 (trailing_zeros w) = to_u8 (64 * q + trailing_zeros w)"
      using index_u8[of "to_u8 q" "trailing_zeros w"] t 1(2) by simp
    ultimately show ?thesis by simp
  qed
qed

lemma unat_ucast_16_64: "unat (ucast (x :: u16) :: u64) = unat x"
proof -
  have "unat x < 2 ^ LENGTH(16)" by (rule unsigned_less)
  then show ?thesis by (simp add: unsigned_ucast_eq take_bit_nat_eq_self_iff)
qed

lemma unat_ucast_8_16: "unat (ucast (x :: u8) :: u16) = unat x"
  using unat_u8_less[of x] by (simp add: unsigned_ucast_eq take_bit_nat_eq_self_iff)

lemma bit_NONEXISTENT: "bit NODE_TOKEN_NONEXISTENT_BIT n \<longleftrightarrow> n = 62"
  by (simp only: NODE_TOKEN_NONEXISTENT_BIT_def push_bit_of_1 bit_pow_u64) auto

text \<open>Tokens: both fields are at most 256.\<close>

lemma token_fields:
  fixes a b :: u16
  assumes "unat a \<le> 256" "unat b \<le> 256" "t = iter_token a b \<or> t = iter_token a b OR NODE_TOKEN_NONEXISTENT_BIT"
  shows "iter_token_next_byte (t AND NOT NODE_TOKEN_NONEXISTENT_BIT) = a"
    and "iter_token_values_idx (t AND NOT NODE_TOKEN_NONEXISTENT_BIT) = unat b"
    and "bit t 62 \<longleftrightarrow> t = iter_token a b OR NODE_TOKEN_NONEXISTENT_BIT"
    and "iter_token a b \<noteq> NODE_ITER_FINISHED"
    and "\<not> bit (iter_token a b) 62"
proof -
  have small: "bit a n \<Longrightarrow> n < 9" "bit b n \<Longrightarrow> n < 9" for n
  proof -
    have *: "bit x n \<Longrightarrow> n < 9" if "unat x \<le> 256" for x :: u16
    proof (rule ccontr)
      assume "bit x n" "\<not> n < 9"
      then have "bit (unat x) n" by (simp add: bit_unsigned_iff)
      then have "2 ^ n \<le> unat x" by (metis bit_nat_def bot_nat_0.not_eq_extremum div_less dvd_0_right linorder_not_le even_zero)
      moreover have "(512::nat) \<le> 2 ^ n" using \<open>\<not> n < 9\<close> power_increasing[of 9 n "2::nat"] by simp
      ultimately show False using that by simp
    qed
    show "bit a n \<Longrightarrow> n < 9" "bit b n \<Longrightarrow> n < 9" using * assms(1,2) by blast+
  qed
  have bt: "bit (iter_token a b) n \<longleftrightarrow> bit a n \<or> 9 \<le> n \<and> bit b (n - 9)" for n
    using small[of n] small(2)[of "n - 9"] bit_imp_le_length[of a n]
    by (auto simp: iter_token_def bit_or_iff bit_push_bit_iff bit_unsigned_iff possible_bit_word)
  have high: "bit (iter_token a b) n \<Longrightarrow> n < 18" for n using bt small[of n] small(2)[of "n - 9"] by fastforce
  note ne = bit_NONEXISTENT
  show h62: "\<not> bit (iter_token a b) 62" using high[of 62] by auto
  have t: "t AND NOT NODE_TOKEN_NONEXISTENT_BIT = iter_token a b"
    using assms(3) h62 by (intro bit_word_eqI) (auto simp: bit_and_iff bit_or_iff bit_not_iff ne)
  show "iter_token_next_byte (t AND NOT NODE_TOKEN_NONEXISTENT_BIT) = a"
    unfolding t
  proof (rule bit_word_eqI)
    fix n assume "n < LENGTH(16)"
    have "bit ITER_TOKEN_BYTE_MASK n \<longleftrightarrow> n < 9"
      using bit_low_ones[of 9 n] by (auto simp: ITER_TOKEN_BYTE_MASK_def)
    then show "bit (iter_token_next_byte (iter_token a b)) n = bit a n"
      using \<open>n < LENGTH(16)\<close> bt[of n] small[of n]
      by (auto simp: iter_token_next_byte_def bit_unsigned_iff bit_and_iff possible_bit_word)
  qed
  have "drop_bit 9 (iter_token a b) = ucast b"
    using bt small by (intro bit_word_eqI) (auto simp: bit_drop_bit_eq bit_unsigned_iff possible_bit_word add.commute)
  then show "iter_token_values_idx (t AND NOT NODE_TOKEN_NONEXISTENT_BIT) = unat b"
    unfolding t by (simp add: iter_token_values_idx_def unat_ucast_16_64)
  show "bit t 62 \<longleftrightarrow> t = iter_token a b OR NODE_TOKEN_NONEXISTENT_BIT"
    using assms(3) h62 by (metis bit_or_iff ne)
  show "iter_token a b \<noteq> NODE_ITER_FINISHED"
  proof
    assume "iter_token a b = NODE_ITER_FINISHED"
    moreover have "bit NODE_ITER_FINISHED 20" by (simp add: NODE_ITER_FINISHED_def u64_MAX_def)
    ultimately show False using high[of 20] by simp
  qed
qed

definition entries_from :: "('c, 'v) byte_node \<Rightarrow> nat \<Rightarrow> (u8 \<times> ('c, 'v) cofree) list" where
  "entries_from bn s =
     map (\<lambda>n. (to_u8 n, bn_values bn ! rank (bn_mask bn) n)) (filter (mbit (bn_mask bn)) [s..<256])"

definition token_at :: "('c, 'v) byte_node \<Rightarrow> nat \<Rightarrow> u64" where
  "token_at bn s = iter_token (word_of_nat s) (word_of_nat (rank (bn_mask bn) s))"

lemma unat_u16: "n \<le> 256 \<Longrightarrow> unat (word_of_nat n :: u16) = n"
  by (simp add: unat_of_nat)

lemma rank_256: "s \<le> 256 \<Longrightarrow> rank m s \<le> 256"
  using rank_le[of m s] by simp

lemma filter_upt_find:
  "find P [s..<n] = Some i \<Longrightarrow> filter P [s..<n] = i # filter P [Suc i..<n] \<and> s \<le> i \<and> i < n \<and> P i"
  "find P [s..<n] = None \<Longrightarrow> filter P [s..<n] = []"
proof -
  assume f: "find P [s..<n] = Some i"
  then obtain k where k: "k < n - s" "P (s + k)" "i = s + k" "\<And>j. j < k \<Longrightarrow> \<not> P (s + j)"
    by (auto simp: find_Some_iff)
  have "[s..<n] = [s..<i] @ i # [Suc i..<n]"
    using k upt_split[of s i n] upt_conv_Cons[of i n] by simp
  moreover have "filter P [s..<i] = []"
    using k(3,4) by (auto simp: filter_empty_conv) (metis add_diff_inverse_nat less_diff_conv2 not_less nat_add_left_cancel_less)
  ultimately show "filter P [s..<n] = i # filter P [Suc i..<n] \<and> s \<le> i \<and> i < n \<and> P i"
    using k by simp
qed (simp add: find_None_iff filter_empty_conv)

lemma rank_skip: "filter (mbit m) [s..<256] = i # l \<Longrightarrow> find (mbit m) [s..<256] = Some i \<Longrightarrow> rank m i = rank m s"
proof -
  assume f: "find (mbit m) [s..<256] = Some i"
  then have i: "s \<le> i" "i < 256" using filter_upt_find(1)[OF f] by auto
  have "filter (mbit m) [s..<i] = []"
  proof (rule ccontr)
    assume "\<not> ?thesis"
    then obtain j where "find (mbit m) [s..<i] = Some j" using filter_upt_find(2) by (metis not_Some_eq)
    then have "find (mbit m) [s..<256] = Some j" "j < i"
      using i upt_split[of s i 256] filter_upt_find(1)[of "mbit m" s i j] by (auto simp: find_append_opt)
    then show False using f by simp
  qed
  then show ?thesis using i upt_split[of 0 s i] by (simp add: rank_def)
qed

lemma next_items_step:
  assumes ok: "bn_ok bn" and s: "s \<le> 256" and t: "t = token_at bn s \<or> t = token_at bn s OR NODE_TOKEN_NONEXISTENT_BIT"
  shows "find (mbit (bn_mask bn)) [s..<256] = None \<Longrightarrow> bn_next_items bn t = Ret (NODE_ITER_FINISHED, [], None, None)"
    and "find (mbit (bn_mask bn)) [s..<256] = Some n \<Longrightarrow>
      bn_next_items bn t = Ret (token_at bn (Suc n), [to_u8 n],
        cf_rec (bn_values bn ! rank (bn_mask bn) n), cf_val (bn_values bn ! rank (bn_mask bn) n))"
proof -
  obtain m cfs where bn: "bn = BN m cfs" by (cases bn)
  note tf = token_fields[of "word_of_nat s" "word_of_nat (rank m s)" t]
  have un: "unat (word_of_nat s :: u16) = s" "unat (word_of_nat (rank m s) :: u16) = rank m s"
    using s rank_256[OF s, of m] unat_u16 by auto
  have nb: "unat (iter_token_next_byte (t AND NOT NODE_TOKEN_NONEXISTENT_BIT)) = s"
    and vi: "iter_token_values_idx (t AND NOT NODE_TOKEN_NONEXISTENT_BIT) = rank m s"
    using tf(1,2) un t s rank_256[OF s, of m] by (auto simp: token_at_def bn)
  have it: "next_iter_item_from bn (t AND NOT NODE_TOKEN_NONEXISTENT_BIT) =
      map_option (\<lambda>n. (to_u8 n, rank m s)) (find (mbit m) [s..<256])"
  proof (cases "256 \<le> s")
    case True
    then show ?thesis using s nb by (simp add: next_iter_item_from_def)
  next
    case False
    then have "s div 64 < 4" "s mod 64 < 64" by auto
    from next_item_word_find[OF this, of m] show ?thesis
      using False nb vi by (simp add: next_iter_item_from_def bn map_option.compositionality o_def)
  qed
  show "bn_next_items bn t = Ret (NODE_ITER_FINISHED, [], None, None)" if "find (mbit (bn_mask bn)) [s..<256] = None"
    using that it by (simp add: bn_next_items_def bn)
  show "bn_next_items bn t = Ret (token_at bn (Suc n), [to_u8 n],
        cf_rec (bn_values bn ! rank (bn_mask bn) n), cf_val (bn_values bn ! rank (bn_mask bn) n))"
    if f: "find (mbit (bn_mask bn)) [s..<256] = Some n"
  proof -
    note p = filter_upt_find(1)[OF f]
    have r: "rank m n = rank m s" using rank_skip[of m s n] p f bn by auto
    have rl: "rank m n < length cfs" using bn_index_less[of m cfs n] ok p by (simp add: bn)
    have n: "n < 256" "mbit m n" using p bn by auto
    have "(ucast (to_u8 n) :: u16) + 1 = word_of_nat (Suc n)"
      using n(1) by (simp add: word_unat_eq_iff unat_word_ariths unat_ucast_8_16 unat_of_nat)
    moreover have "(word_of_nat (rank m s) :: u16) + 1 = word_of_nat (rank m (Suc n))"
      using n r by (simp add: rank_Suc)
    ultimately show ?thesis
      using it f rl r by (simp add: bn_next_items_def bn index_outcome_def token_at_def add.commute)
  qed
qed

text \<open>Driving the iteration from a token until \<open>NODE_ITER_FINISHED\<close>, with at most \<open>fuel\<close> calls.\<close>

fun bn_iterate :: "nat \<Rightarrow> ('c, 'v) byte_node \<Rightarrow> u64 \<Rightarrow> (path \<times> 'c option \<times> 'v option) list option" where
  "bn_iterate 0 bn token = None"
| "bn_iterate (Suc fuel) bn token =
     (case bn_next_items bn token of
        Panic \<Rightarrow> None
      | Ret (token', key, rec, val) \<Rightarrow>
          if token' = NODE_ITER_FINISHED then Some []
          else map_option (\<lambda>items. (key, rec, val) # items) (bn_iterate fuel bn token'))"

definition byte_items :: "('c, 'v) byte_node \<Rightarrow> nat \<Rightarrow> (path \<times> 'c option \<times> 'v option) list" where
  "byte_items bn s =
     map (\<lambda>n. ([to_u8 n], cf_rec (bn_values bn ! rank (bn_mask bn) n), cf_val (bn_values bn ! rank (bn_mask bn) n)))
       (filter (mbit (bn_mask bn)) [s..<256])"

lemma token_at_unfinished: "s \<le> 256 \<Longrightarrow> token_at bn s \<noteq> NODE_ITER_FINISHED"
  unfolding token_at_def using rank_256[of s "bn_mask bn"]
  by (intro token_fields(4)[OF _ _ disjI1[OF refl]]) (simp_all add: unat_u16)

lemma bn_iterate_from:
  assumes "bn_ok bn" "s \<le> 256" "t = token_at bn s \<or> t = token_at bn s OR NODE_TOKEN_NONEXISTENT_BIT"
    and "256 - s < fuel"
  shows "bn_iterate fuel bn t = Some (byte_items bn s)"
  using assms(2-4)
proof (induction fuel arbitrary: s t)
  case (Suc fuel)
  note step = next_items_step[OF assms(1) Suc.prems(1,2)]
  show ?case
  proof (cases "find (mbit (bn_mask bn)) [s..<256]")
    case None
    then show ?thesis using step(1)[OF None] filter_upt_find(2)[OF None] by (simp add: byte_items_def)
  next
    case (Some n)
    note p = filter_upt_find(1)[OF Some]
    have "bn_iterate fuel bn (token_at bn (Suc n)) = Some (byte_items bn (Suc n))"
      using p Suc.prems(1,3) by (intro Suc.IH) auto
    then show ?thesis
      using step(2)[OF Some] p token_at_unfinished[of "Suc n" bn] by (simp add: byte_items_def del: upt_Suc)
  qed
qed simp

text \<open>Iterating a byte node from its initial token lists every entry exactly once, in ascending
  byte order, within the node's bounds, and then reports the end.\<close>

theorem byte_iteration_complete:
  assumes "bn_ok bn"
  shows "bn_iterate 257 bn bn_new_iter_token =
    Some (map (\<lambda>(n, cf). ([to_u8 n], cf_rec cf, cf_val cf)) (zip (bits (bn_mask bn)) (bn_values bn)))"
proof -
  obtain m cfs where bn: "bn = BN m cfs" by (cases bn)
  have len: "length (bits m) = length cfs" using assms by (simp add: bn bn_ok_BN length_bits)
  have cfs: "map (\<lambda>n. cfs ! rank m n) (bits m) = cfs"
  proof (rule nth_equalityI)
    fix i assume "i < length (map (\<lambda>n. cfs ! rank m n) (bits m))"
    then have i: "i < length (bits m)" by simp
    then have "mbit m (bits m ! i)" using nth_mem[OF i] by (simp add: set_bits)
    from nth_rank_bits[OF this] have "rank m (bits m ! i) = i"
      using i nth_eq_iff_index_eq[OF bits_sorted(2)[of m]] by blast
    then show "map (\<lambda>n. cfs ! rank m n) (bits m) ! i = cfs ! i" using i by simp
  qed (simp add: len)
  have "bn_new_iter_token = token_at bn 0" by (simp add: bn_new_iter_token_def token_at_def)
  then have "bn_iterate 257 bn bn_new_iter_token = Some (byte_items bn 0)"
    by (intro bn_iterate_from[OF assms]) auto
  also have "byte_items bn 0 = map (\<lambda>(n, cf). ([to_u8 n], cf_rec cf, cf_val cf)) (zip (bits m) (map (\<lambda>n. cfs ! rank m n) (bits m)))"
    unfolding byte_items_def bn byte_node.sel bits_def[symmetric] by (simp add: zip_map2 zip_same_conv_map)
  finally show ?thesis unfolding cfs by (simp add: bn)
qed

theorem byte_iteration_complete_witness:
  "bn_iterate 257 (snd (set_val 3 (5::nat) new_byte_node) :: nat bnode) bn_new_iter_token =
     Some (map (\<lambda>(n, cf). ([to_u8 n], cf_rec cf, cf_val cf))
       (zip (bits (bn_mask (snd (set_val 3 (5::nat) new_byte_node) :: nat bnode))) (bn_values (snd (set_val 3 (5::nat) new_byte_node)))))"
  by (rule byte_iteration_complete) (simp add: set_val_entry)

text \<open>The token for a path resumes the iteration at the path's position: after the entry of the
  path's first byte; it carries the nonexistent mark exactly when the path is not an entry of the
  node.\<close>

theorem byte_token_for_path_resumes:
  assumes "bn_ok bn" "key \<noteq> []"
  shows "bn_iterate 257 bn (bn_iter_token_for_path bn key) = Some (byte_items bn (unat (hd key) + 1)) \<and>
    (bit (bn_iter_token_for_path bn key) 62 \<longleftrightarrow> \<not> bn_contains_partial_key bn key)"
proof -
  obtain m cfs where bn: "bn = BN m cfs" by (cases bn)
  obtain b rest where key: "key = b # rest" using assms(2) by (cases key) auto
  define s where "s = unat b + 1"
  define idx where "idx = index_of m b + (if test_bit m b then 1 else 0)"
  have s: "s \<le> 256" "(ucast b :: u16) + 1 = word_of_nat s"
    using unat_u8_less[of b] by (simp_all add: s_def word_unat_eq_iff unat_word_ariths unat_ucast_8_16 unat_of_nat)
  have rs: "rank m s = rank m (unat b) + (if test_bit m b then 1 else 0)"
    by (simp add: s_def rank_Suc test_bit_mbit)
  let ?t = "iter_token (word_of_nat s) (ucast idx)"
  have tok: "bn_iter_token_for_path bn key =
      (if rest = [] \<and> test_bit m b then ?t else ?t OR NODE_TOKEN_NONEXISTENT_BIT)"
    by (simp add: bn_iter_token_for_path_def key bn s(2)[symmetric] idx_def Let_def add.commute)
  have ul: "unat (ucast idx :: u16) \<le> 256" using unat_u8_less[of idx] by (simp add: unat_ucast_8_16)
  note tf = token_fields[where a = "word_of_nat s" and b = "ucast idx", OF _ ul]
  have us: "unat (word_of_nat s :: u16) = s" by (rule unat_u16[OF s(1)])
  have "bit (bn_iter_token_for_path bn key) 62 \<longleftrightarrow> \<not> (rest = [] \<and> test_bit m b)"
    using tf(5)[OF _ disjI1[OF refl]] us s(1) unfolding tok by (simp add: bit_or_iff bit_NONEXISTENT)
  then have mark: "bit (bn_iter_token_for_path bn key) 62 \<longleftrightarrow> \<not> bn_contains_partial_key bn key"
    by (auto simp: bn_contains_partial_key_def key bn length_Suc_conv)
  have "bn_iterate 257 bn (bn_iter_token_for_path bn key) = Some (byte_items bn s)"
  proof (cases "rank m s < 256")
    case True
    have "unat idx = rank m s"
      using True rs by (auto simp: idx_def unat_word_ariths unat_index_of)
    then have "(ucast idx :: u16) = word_of_nat (rank m s)"
      using True by (simp add: word_unat_eq_iff unat_ucast_8_16 unat_of_nat)
    then have "?t = token_at bn s" by (simp add: token_at_def bn)
    then show ?thesis using tok s(1) by (intro bn_iterate_from[OF assms(1)]) auto
  next
    case False
    then have s256: "s = 256" using rank_le[of m s] s(1) by simp
    have "iter_token_next_byte (bn_iter_token_for_path bn key AND NOT NODE_TOKEN_NONEXISTENT_BIT) = word_of_nat s"
      using tf(1)[of "bn_iter_token_for_path bn key"] us s(1) unfolding tok by auto
    then have "next_iter_item_from bn (bn_iter_token_for_path bn key AND NOT NODE_TOKEN_NONEXISTENT_BIT) = None"
      using us s256 by (simp add: next_iter_item_from_def)
    then have "bn_next_items bn (bn_iter_token_for_path bn key) = Ret (NODE_ITER_FINISHED, [], None, None)"
      by (simp add: bn_next_items_def)
    then have "bn_iterate (Suc f) bn (bn_iter_token_for_path bn key) = Some []" for f by simp
    from this[of 256] have "bn_iterate 257 bn (bn_iter_token_for_path bn key) = Some []" by (simp add: numeral_eq_Suc)
    then show ?thesis using s256 by (simp add: byte_items_def)
  qed
  then show ?thesis using mark by (simp add: key s_def)
qed

theorem byte_token_for_path_resumes_witness:
  "bn_iterate 257 (snd (set_val 3 (5::nat) new_byte_node) :: nat bnode) (bn_iter_token_for_path (snd (set_val 3 (5::nat) new_byte_node) :: nat bnode) [2, 9]) =
     Some (byte_items (snd (set_val 3 (5::nat) new_byte_node)) 3)"
  using byte_token_for_path_resumes[of "snd (set_val 3 (5::nat) new_byte_node) :: nat bnode" "[2, 9]"]
  by (simp add: set_val_entry)

text \<open>C34: On a node with an entry for every byte, the token for the last byte is not the one the
  iteration itself produces there: the count of preceding entries plus one is added in \<open>u8\<close> and wraps
  from 256 to 0 (in a build with overflow checks the addition panics), although the comment on the
  token layout says that \<open>values_idx\<close> ranges to 256.\<close>

theorem byte_token_wraps_on_full_node:
  assumes "bn_mask bn = FULL"
  shows "bn_iter_token_for_path bn [255] = iter_token 256 0 \<and> token_at bn 256 = iter_token 256 256 \<and>
    iter_token 256 0 \<noteq> iter_token 256 256"
proof -
  have full: "mbit FULL n \<longleftrightarrow> n < 256" for n by (simp add: mask_simps)
  have "rank FULL n = n" if "n \<le> 256" for n
    using that by (induction n) (auto simp: rank_Suc full)
  then have r: "rank FULL 255 = 255" "rank FULL 256 = 256" by simp_all
  have "index_of FULL 255 = 255" using r unat_index_of[of FULL 255] by (simp add: word_unat_eq_iff)
  then have "bn_iter_token_for_path bn [255] = iter_token 256 0"
    using assms by (simp add: bn_iter_token_for_path_def test_bit_mbit full)
  moreover have "token_at bn 256 = iter_token 256 256" using assms r by (simp add: token_at_def)
  moreover have "iter_token 256 0 \<noteq> iter_token 256 256" by (simp add: iter_token_def)
  ultimately show ?thesis by simp
qed

theorem byte_token_wraps_on_full_node_witness:
  "bn_iter_token_for_path (BN FULL (replicate 256 (CoFree None (Some ()))) :: unit bnode) [255] = iter_token 256 0"
  using byte_token_wraps_on_full_node[of "BN FULL (replicate 256 (CoFree None (Some ()))) :: unit bnode"] by simp

end
