(* ===== verification/Trie_Map.thy ===== *)
theory Trie_Map
  imports Byte_Ops_Laws
begin

text \<open>
  The map itself (\<open>src/trie_map.rs\<close>): a root node and a root value, read by walking the nodes along
  a path (\<open>node_along_path\<close> of \<open>src/zipper.rs\<close>, the read zipper it starts) and written by walking
  them through mutable references (\<open>node_along_path_mut\<close>, \<open>with_node_at_path_mut\<close> of
  \<open>src/trie_node.rs\<close>).  The dispatch over the kind of node is \<open>TaggedNodeRef\<close> and
  \<open>TaggedNodeRefMut\<close>; the empty sentinel cannot be made mutable, which is a \<open>Panic\<close> here.
\<close>

subsection \<open>Dispatch\<close>

fun node_get_child :: "'v node \<Rightarrow> path \<Rightarrow> (nat \<times> 'v node) option" where
  "node_get_child EmptyN key = None"
| "node_get_child (ListN ln) key = ln_get_child ln key"
| "node_get_child (ByteN bn) key = bn_get_child bn key"

fun node_get_val :: "'v node \<Rightarrow> path \<Rightarrow> 'v option" where
  "node_get_val EmptyN key = None"
| "node_get_val (ListN ln) key = ln_get_val ln key"
| "node_get_val (ByteN bn) key = bn_get_val bn key"

fun node_contains_val :: "'v node \<Rightarrow> path \<Rightarrow> bool" where
  "node_contains_val EmptyN key = False"
| "node_contains_val (ListN ln) key = ln_contains_val ln key"
| "node_contains_val (ByteN bn) key = bn_contains_val bn key"

fun node_contains_partial_key :: "slice_utils \<Rightarrow> 'v node \<Rightarrow> path \<Rightarrow> bool" where
  "node_contains_partial_key S EmptyN key = False"
| "node_contains_partial_key S (ListN ln) key = ln_contains_partial_key S ln key"
| "node_contains_partial_key S (ByteN bn) key = bn_contains_partial_key bn key"

fun node_get_child_mut :: "'v node \<Rightarrow> path \<Rightarrow> (nat \<times> 'v node) option outcome" where
  "node_get_child_mut EmptyN key = Panic"
| "node_get_child_mut (ListN ln) key = Ret (ln_get_child_mut ln key)"
| "node_get_child_mut (ByteN bn) key = Ret (bn_get_child_mut bn key)"

text \<open>The write through the reference \<open>node_get_child_mut\<close> returns.\<close>

fun node_put_child :: "'v node \<Rightarrow> path \<Rightarrow> 'v node \<Rightarrow> 'v node" where
  "node_put_child EmptyN key c = EmptyN"
| "node_put_child (ListN ln) key c = ListN (ln_put_child ln key c)"
| "node_put_child (ByteN bn) key c = ByteN (bn_put_child bn key c)"

fun node_set_val ::
  "slice_utils \<Rightarrow> 'v \<Rightarrow> 'v node \<Rightarrow> path \<Rightarrow> (('v option \<times> bool) \<times> 'v node, 'v node) result outcome" where
  "node_set_val S v EmptyN key = Panic"
| "node_set_val S v (ListN ln) key =
     Ret (case ln_set_val S key v ln of
            Ok (old, created_subnode, ln') \<Rightarrow> Ok ((old, created_subnode), ListN ln')
          | Err replacement \<Rightarrow> Err replacement)"
| "node_set_val S v (ByteN bn) key =
     bind_outcome (bn_node_set_val S key v bn)
       (\<lambda>(old, created_subnode, bn'). Ret (Ok ((old, created_subnode), ByteN bn')))"

subsection \<open>Walking along a path\<close>

lemma child_along_mem: "child_along s key = Some (n, c) \<Longrightarrow> c \<in> set (slot_children s)"
  by (cases s; cases "snd (the s)") (auto split: if_splits)

lemma node_get_child_size: "node_get_child node key = Some (n, c) \<Longrightarrow> size c < size node"
  by (rule node_children_size, cases node)
    (auto simp: ln_get_child_def bn_get_child_def cf_children_def dest!: child_along_mem bn_get_mem
      split: option.splits intro!: bexI)

lemma node_get_child_mut_size: "node_get_child_mut node key = Ret (Some (n, c)) \<Longrightarrow> size c < size node"
  by (rule node_children_size, cases node)
    (auto simp: ln_get_child_mut_def bn_get_child_mut_def cf_children_def dest!: child_along_mem bn_get_mem
      split: option.splits if_splits intro!: bexI)

function node_along_path :: "'v node \<Rightarrow> path \<Rightarrow> 'v option \<Rightarrow> bool \<Rightarrow> 'v node \<times> path \<times> 'v option" where
  "node_along_path node key val stop_short =
     (if length key = 0 then (node, key, val)
      else case node_get_child node key of
        None \<Rightarrow> (node, key, val)
      | Some (consumed_byte_cnt, next_node) \<Rightarrow>
          if consumed_byte_cnt < length key
          then node_along_path next_node (drop consumed_byte_cnt key) val stop_short
          else if \<not> stop_short then (next_node, [], node_get_val node key)
          else (node, key, None))"
  by pat_completeness auto
termination
  by (relation "measure (\<lambda>(node, _). size node)") (auto dest: node_get_child_size)

declare node_along_path.simps [simp del]

text \<open>A mutable reference into the trie is the node it points to and the function that writes a new
  node through it.\<close>

function node_along_path_mut :: "'v node \<Rightarrow> path \<Rightarrow> bool \<Rightarrow> (path \<times> 'v node \<times> ('v node \<Rightarrow> 'v node)) outcome" where
  "node_along_path_mut node key stop_early =
     (if length key = 0 then Ret (key, node, \<lambda>n. n)
      else case node_get_child_mut node key of
        Panic \<Rightarrow> Panic
      | Ret None \<Rightarrow> Ret (key, node, \<lambda>n. n)
      | Ret (Some (consumed_byte_cnt, next_node)) \<Rightarrow>
          if consumed_byte_cnt < length key \<or> \<not> stop_early
          then bind_outcome (node_along_path_mut next_node (drop consumed_byte_cnt key) stop_early)
                 (\<lambda>(key', node', put). Ret (key', node', \<lambda>n. node_put_child node key (put n)))
          else Ret (key, node, \<lambda>n. n))"
  by pat_completeness auto
termination
  by (relation "measure (\<lambda>(node, _). size node)") (auto dest: node_get_child_mut_size)

declare node_along_path_mut.simps [simp del]

definition with_node_at_path_mut ::
  "'v node \<Rightarrow> path \<Rightarrow> ('v node \<Rightarrow> path \<Rightarrow> ('r \<times> 'v node, 'v node) result outcome) \<Rightarrow>
   ('v node \<Rightarrow> path \<Rightarrow> 'r \<times> 'v node) \<Rightarrow> ('r \<times> 'v node) outcome" where
  "with_node_at_path_mut root path node_f retry_f =
     bind_outcome (node_along_path_mut root path True) (\<lambda>(remaining_key, node, put).
       bind_outcome (node_f node remaining_key) (\<lambda>res.
         case res of
           Ok (r, node') \<Rightarrow> Ret (r, put node')
         | Err replacement_node \<Rightarrow> (case retry_f replacement_node remaining_key of (r, node') \<Rightarrow> Ret (r, put node'))))"

subsection \<open>The map\<close>

record 'v path_map =
  root :: "'v node option"
  root_val :: "'v option"

definition new_map :: "'v path_map" where
  "new_map = \<lparr>root = None, root_val = None\<rparr>"

definition ensure_root :: "'v path_map \<Rightarrow> 'v path_map" where
  "ensure_root m = (case root m of Some _ \<Rightarrow> m | None \<Rightarrow> m\<lparr>root := Some (ListN new_list_node)\<rparr>)"

definition get_or_init_root :: "'v path_map \<Rightarrow> 'v node" where
  "get_or_init_root m = the (root (ensure_root m))"

definition into_root :: "'v path_map \<Rightarrow> 'v node option \<times> 'v option" where
  "into_root m =
     (case root m of Some r \<Rightarrow> if \<not> node_is_empty r then Some r else None | None \<Rightarrow> None, root_val m)"

definition map_is_empty :: "'v path_map \<Rightarrow> bool" where
  "map_is_empty m = ((case root m of Some r \<Rightarrow> node_is_empty r | None \<Rightarrow> True) \<and> root_val m = None)"

text \<open>The closure \<open>set_val_at\<close> passes as retry: the replacement node already holds the value.\<close>

definition set_val_at :: "slice_utils \<Rightarrow> path \<Rightarrow> 'v \<Rightarrow> 'v path_map \<Rightarrow> ('v option \<times> 'v path_map) outcome" where
  "set_val_at S path v m =
     (if path = [] then Ret (root_val m, m\<lparr>root_val := Some v\<rparr>)
      else bind_outcome
        (with_node_at_path_mut (get_or_init_root m) path (node_set_val S v) (\<lambda>n _. ((None, True), n)))
        (\<lambda>((old_val, _), root'). Ret (old_val, m\<lparr>root := Some root'\<rparr>)))"

definition single_map :: "slice_utils \<Rightarrow> path \<Rightarrow> 'v \<Rightarrow> 'v path_map outcome" where
  "single_map S path v = bind_outcome (set_val_at S path v new_map) (\<lambda>(_, m). Ret m)"

text \<open>\<open>from_iter\<close>: the loop that inserts one pair after the other.\<close>

fun insert_all :: "('k \<Rightarrow> 'v \<Rightarrow> 'm \<Rightarrow> ('v option \<times> 'm) outcome) \<Rightarrow> ('k \<times> 'v) list \<Rightarrow> 'm \<Rightarrow> 'm outcome" where
  "insert_all ins [] m = Ret m"
| "insert_all ins ((k, v) # kvs) m = bind_outcome (ins k v m) (\<lambda>(_, m'). insert_all ins kvs m')"

definition from_iter :: "slice_utils \<Rightarrow> (path \<times> 'v) list \<Rightarrow> 'v path_map outcome" where
  "from_iter S kvs = insert_all (set_val_at S) kvs new_map"

subsection \<open>Reading through a zipper\<close>

text \<open>A freshly made read zipper: its focus node, the rest of the key in it, and its root value.
  (\<open>new_with_node_and_path_in\<close>, then \<open>new_with_node_and_path_internal_in\<close>, for a path that is all
  prefix.)\<close>

definition zipper_at :: "'v node \<Rightarrow> path \<Rightarrow> 'v option \<Rightarrow> 'v node \<times> path \<times> 'v option" where
  "zipper_at root_node path rval =
     (case node_along_path root_node path rval False of
        (node, key, val) \<Rightarrow>
          if 0 < length key then
            (case node_get_child node key of
               Some (consumed_byte_cnt, next_node) \<Rightarrow> (next_node, drop consumed_byte_cnt key, val)
             | None \<Rightarrow> (node, key, val))
          else (node, key, val))"

definition read_zipper_at_borrowed_path :: "'v path_map \<Rightarrow> path \<Rightarrow> 'v node \<times> path \<times> 'v option" where
  "read_zipper_at_borrowed_path m path =
     zipper_at (get_or_init_root m) path (if length path = 0 then root_val m else None)"

fun rz_get_val :: "'v node \<times> path \<times> 'v option \<Rightarrow> 'v option" where
  "rz_get_val (focus_node, key, rval) = (if 0 < length key then node_get_val focus_node key else rval)"

fun rz_is_val :: "'v node \<times> path \<times> 'v option \<Rightarrow> bool" where
  "rz_is_val (focus_node, key, rval) = (if 0 < length key then node_contains_val focus_node key else rval \<noteq> None)"

fun rz_path_exists :: "slice_utils \<Rightarrow> 'v node \<times> path \<times> 'v option \<Rightarrow> bool" where
  "rz_path_exists S (focus_node, key, rval) =
     (if 0 < length key then node_contains_partial_key S focus_node key else True)"

definition val_at :: "'v path_map \<Rightarrow> path \<Rightarrow> 'v option" where
  "val_at m path = (if path = [] then root_val m else rz_get_val (read_zipper_at_borrowed_path m path))"

definition contains :: "'v path_map \<Rightarrow> path \<Rightarrow> bool" where
  "contains m path = rz_is_val (read_zipper_at_borrowed_path m path)"

definition path_exists_at :: "slice_utils \<Rightarrow> 'v path_map \<Rightarrow> path \<Rightarrow> bool" where
  "path_exists_at S m path = rz_path_exists S (read_zipper_at_borrowed_path m path)"

text \<open>\<open>node_get_val_mut\<close>, \<open>get_val_mut_at\<close>: the value behind the reference and the write through it.\<close>

fun node_get_val_mut :: "'v node \<Rightarrow> path \<Rightarrow> ('v \<times> ('v \<Rightarrow> 'v node)) option outcome" where
  "node_get_val_mut EmptyN key = Panic"
| "node_get_val_mut (ListN ln) key = Ret
     (if holds_exact (slot0 ln) False key then
        map_option (\<lambda>v. (v, \<lambda>w. ListN (LN (Some (key, Val w)) (slot1 ln)))) (payload_val (snd (the (slot0 ln))))
      else if holds_exact (slot1 ln) False key then
        map_option (\<lambda>v. (v, \<lambda>w. ListN (LN (slot0 ln) (Some (key, Val w))))) (payload_val (snd (the (slot1 ln))))
      else None)"
| "node_get_val_mut (ByteN bn) key = Ret
     (if length key = 1 then
        (case bn_get bn (hd key) of
           None \<Rightarrow> None
         | Some cf \<Rightarrow>
             map_option (\<lambda>v. (v, \<lambda>w. ByteN (bn_replace (hd key) (CoFree (cf_rec cf) (Some w)) bn))) (cf_val cf))
      else None)"

definition get_val_mut_at :: "'v path_map \<Rightarrow> path \<Rightarrow> ('v \<times> ('v \<Rightarrow> 'v path_map)) option outcome" where
  "get_val_mut_at m path =
     (if length path = 0 then
        Ret (map_option (\<lambda>v. (v, \<lambda>w. m\<lparr>root_val := Some w\<rparr>)) (root_val m))
      else
        bind_outcome (node_along_path_mut (get_or_init_root m) path True) (\<lambda>(node_key, node, put).
          bind_outcome (node_get_val_mut node node_key) (\<lambda>r.
            Ret (map_option (\<lambda>(v, write). (v, \<lambda>w. m\<lparr>root := Some (put (write w))\<rparr>)) r))))"

subsection \<open>Counting\<close>

text \<open>\<open>node_val_count\<close> and \<open>val_count_below_node\<close>; the cache only avoids counting a shared node
  twice, so it does not show in the result.\<close>

definition slot_count :: "('c \<Rightarrow> nat) \<Rightarrow> ('c, 'v) slot option \<Rightarrow> nat" where
  "slot_count f s = (case s of Some (k, Child c) \<Rightarrow> f c | _ \<Rightarrow> 0)"

fun node_count :: "('v node \<Rightarrow> nat) \<Rightarrow> 'v node \<Rightarrow> nat" where
  "node_count f EmptyN = 0"
| "node_count f (ListN ln) =
     (if is_used_value (slot0 ln) then 1 else 0) + (if is_used_value (slot1 ln) then 1 else 0) +
     slot_count f (slot0 ln) + slot_count f (slot1 ln)"
| "node_count f (ByteN bn) =
     foldr (\<lambda>cf t. t + (if cf_has_val cf then 1 else 0) + (case cf_rec cf of Some r \<Rightarrow> f r | None \<Rightarrow> 0))
       (bn_values bn) 0"

lemma node_count_cong [fundef_cong]:
  assumes "n = n'" "\<And>c. c \<in> set (node_children n') \<Longrightarrow> f c = g c"
  shows "node_count f n = node_count g n'"
proof (cases n')
  case (ListN ln)
  have "slot_count f s = slot_count g s" if "set (slot_children s) \<subseteq> set (node_children n')" for s
    using assms(2) that by (cases s rule: slot_children.cases) (auto simp: slot_count_def)
  from this[of "slot0 ln"] this[of "slot1 ln"] show ?thesis by (simp add: assms(1) ListN)
next
  case (ByteN bn)
  show ?thesis
    unfolding assms(1) ByteN node_count.simps
  proof (rule foldr_cong)
    fix cf t assume "cf \<in> set (bn_values bn)"
    then have "cf_rec cf = Some c \<Longrightarrow> f c = g c" for c
      by (intro assms(2)) (force simp: ByteN cf_children_def)
    then show "t + (if cf_has_val cf then 1 else 0) + (case cf_rec cf of Some r \<Rightarrow> f r | None \<Rightarrow> 0) =
        t + (if cf_has_val cf then 1 else 0) + (case cf_rec cf of Some r \<Rightarrow> g r | None \<Rightarrow> 0)"
      by (simp split: option.splits)
  qed simp_all
qed (simp add: assms(1))

function node_val_count :: "'v node \<Rightarrow> nat" where
  "node_val_count n = node_count (\<lambda>c. if is_empty_odrc c then 0 else node_val_count c) n"
  by auto
termination
  by (relation "measure size") (auto dest: node_children_size)

declare node_val_count.simps [simp del]

definition val_count :: "'v path_map \<Rightarrow> nat" where
  "val_count m =
     (case root m of
        Some r \<Rightarrow> node_val_count r + (if root_val m \<noteq> None then 1 else 0)
      | None \<Rightarrow> (if root_val m \<noteq> None then 1 else 0))"

end
