(* ===== verification/Trie_Walk.thy ===== *)
theory Trie_Walk
  imports Trie_Map
begin

text \<open>
  Walking along a path: which node of a well-formed trie knows the value at a path, what a mutable
  reference to a node below the root stands for (\<open>mut_focus\<close>), and that \<open>node_along_path\<close> and
  \<open>node_along_path_mut\<close> end at the node that decides.
\<close>

subsection \<open>One step of a walk\<close>

lemma child_along_iff:
  "child_along s key = Some (n, c) \<longleftrightarrow> (\<exists>k. s = Some (k, Child c) \<and> n = length k \<and> prefix k key)"
proof (cases s)
  case (Some e)
  then show ?thesis
    by (cases "snd e"; cases e) (auto simp: not_prefix_append_same dest: prefix_length_le)
qed simp

text \<open>The slot that covers a path decides what the node holds there.\<close>

lemma ln_den_covered:
  assumes "wf_node (ListN ln)" "(k, p) \<in> slots_of ln" "covers k p q"
  shows "ln_den den ln q = slot_den den (Some (k, p)) q"
  using assms(1)
proof (cases rule: slots_cases)
  case (two k0 p0 k1 p1)
  have a: "apart k0 p0 k1 p1" using two by (intro wf_pair_apart)
  then have a': "apart k1 p1 k0 p0" by (simp add: apart_commute)
  show ?thesis
    using assms(2,3) slot_den_apart[OF two(2,3) a two(7), of q] slot_den_apart[OF two(3,2) a' two(6), of q]
    by (auto simp: two(1) simp del: slot_den_simps(2,3))
qed (use assms in auto)

lemma ln_den_uncovered:
  assumes "wf_node (ListN ln)" "\<And>k p. (k, p) \<in> slots_of ln \<Longrightarrow> \<not> covers k p q"
  shows "ln_den den ln q = None"
  using assms(1)
proof (cases rule: slots_cases)
  case (one k0 p0)
  then show ?thesis using assms(2) by (auto simp: slot_den_covers simp del: slot_den_simps(2,3))
next
  case (two k0 p0 k1 p1)
  then show ?thesis using assms(2) by (auto simp: slot_den_covers simp del: slot_den_simps(2,3))
qed simp

text \<open>Where no link leads on, the node's own values decide.\<close>

lemma ln_den_here:
  assumes wf: "wf_node (ListN ln)"
    and stop: "\<And>k c. (k, Child c) \<in> slots_of ln \<Longrightarrow> strict_prefix k key \<Longrightarrow> c = EmptyN"
  shows "ln_den den ln key = ln_get_val ln key"
proof (cases "\<exists>k p. (k, p) \<in> slots_of ln \<and> covers k p key")
  case True
  then obtain k p where s: "(k, p) \<in> slots_of ln" "covers k p key" by blast
  note d = ln_den_covered[OF wf s]
  have wl: "wf_list ln" using wf by simp
  show ?thesis
  proof (cases p)
    case (Val v)
    then have "ln_get_val ln key = Some v" using s ln_get_val_iff[OF wl] by (simp add: covers_def)
    then show ?thesis using d s Val by (simp add: covers_def)
  next
    case (Child c)
    then have c: "c = EmptyN" using s stop by (auto simp: covers_def)
    have "ln_get_val ln key = None"
    proof (rule ccontr)
      assume "ln_get_val ln key \<noteq> None"
      then obtain v where "(key, Val v) \<in> slots_of ln" using ln_get_val_iff[OF wl] by auto
      then have "ln_den den ln key = Some v" using ln_den_covered[OF wf, of key "Val v" key] by (simp add: covers_def)
      then show False using d Child c by (simp split: if_splits)
    qed
    then show ?thesis using d Child c by simp
  qed
next
  case False
  then have "ln_den den ln key = None" using ln_den_uncovered[OF wf] by blast
  moreover have "ln_get_val ln key = None"
  proof (rule ccontr)
    assume "ln_get_val ln key \<noteq> None"
    then obtain v where "(key, Val v) \<in> slots_of ln" using wf ln_get_val_iff[of ln key] by auto
    moreover have "covers key (Val v) key" by (simp add: covers_def)
    ultimately show False using False by blast
  qed
  ultimately show ?thesis by simp
qed

text \<open>At most one link of a list node lies along a path.\<close>

lemma ln_link_unique:
  assumes "wf_node (ListN ln)" "(k, Child c) \<in> slots_of ln" "(k', Child c') \<in> slots_of ln" "prefix k key" "prefix k' key"
  shows "k = k' \<and> c = c'"
  using assms(1)
proof (cases rule: slots_cases)
  case (two k0 p0 k1 p1)
  have "apart k0 p0 k1 p1" using two by (intro wf_pair_apart)
  moreover have "prefix a key \<Longrightarrow> prefix b key \<Longrightarrow> a \<noteq> [] \<Longrightarrow> b \<noteq> [] \<Longrightarrow> hd a = hd b" for a b :: path
    by (cases a; cases b) (auto simp: prefix_def)
  ultimately show ?thesis
    using assms(2-5) two(2,3) by (auto simp: two(1) apart_def leads_on_def)
qed (use assms in auto)

lemma ln_get_child_iff:
  assumes "wf_node (ListN ln)"
  shows "ln_get_child ln key = Some (n, c) \<longleftrightarrow> (\<exists>k. (k, Child c) \<in> slots_of ln \<and> n = length k \<and> prefix k key)"
proof
  assume "ln_get_child ln key = Some (n, c)"
  then have "child_along (slot0 ln) key = Some (n, c) \<or> child_along (slot1 ln) key = Some (n, c)"
    by (auto simp: ln_get_child_def split: option.splits)
  then show "\<exists>k. (k, Child c) \<in> slots_of ln \<and> n = length k \<and> prefix k key"
    by (auto simp: child_along_iff slots_of_def)
next
  assume "\<exists>k. (k, Child c) \<in> slots_of ln \<and> n = length k \<and> prefix k key"
  then obtain k where k: "(k, Child c) \<in> slots_of ln" "n = length k" "prefix k key" by blast
  have u: "n' = n \<and> c' = c" if along: "child_along (slot0 ln) key = Some (n', c')" for n' c'
  proof -
    obtain k' where k': "slot0 ln = Some (k', Child c')" "n' = length k'" "prefix k' key"
      using along by (auto simp: child_along_iff)
    then have "(k', Child c') \<in> slots_of ln" by (simp add: slots_of_def)
    from ln_link_unique[OF assms k(1) this k(3) k'(3)] show ?thesis using k(2) k'(2) by simp
  qed
  have "child_along (slot0 ln) key = Some (n, c) \<or> child_along (slot1 ln) key = Some (n, c)"
    using k by (auto simp: child_along_iff slots_of_def)
  then show "ln_get_child ln key = Some (n, c)"
    using u by (auto simp: ln_get_child_def split: option.splits)
qed

lemma ln_get_child_mut_iff:
  assumes "wf_node (ListN ln)"
  shows "ln_get_child_mut ln key = Some (n, c) \<longleftrightarrow> ln_get_child ln key = Some (n, c) \<and> c \<noteq> EmptyN"
proof -
  have u: "child_along (slot0 ln) key = Some (n0, c0) \<Longrightarrow> child_along (slot1 ln) key = Some (n1, c1) \<Longrightarrow> c0 = c1" for n0 c0 n1 c1
    using ln_link_unique[OF assms, where key = key] by (auto simp: child_along_iff slots_of_def)
  show ?thesis by (auto simp: ln_get_child_mut_def ln_get_child_def split: option.splits if_splits dest: u)
qed

text \<open>Reading: the child \<open>node_get_child\<close> returns has the rest of the map, and when it returns
  nothing, or a child that ends the key, the node itself knows the value.\<close>

lemma node_get_child_bounds:
  assumes "wf_node node" "key \<noteq> []" "node_get_child node key = Some (n, c)"
  shows "0 < n \<and> n \<le> length key \<and> wf_node c"
proof (cases node)
  case (ListN ln)
  then have wf: "wf_node (ListN ln)" and g: "ln_get_child ln key = Some (n, c)" using assms by auto
  then obtain k where k: "(k, Child c) \<in> slots_of ln" "n = length k" "prefix k key"
    by (auto simp: ln_get_child_iff)
  then show ?thesis using wf_slot_elem[OF wf k(1)] by (auto dest: prefix_length_le)
next
  case (ByteN bn)
  then obtain cf where "bn_get bn (hd key) = Some cf" "cf_rec cf = Some c" "n = 1"
    using assms(3) by (auto simp: bn_get_child_def split: option.splits)
  then show ?thesis using assms(1,2) wf_entry[of bn] by (cases key) (auto simp: ByteN simp del: wf_node_simps)
qed (use assms in simp)

lemma node_descend:
  assumes "wf_node node" "node_get_child node key = Some (n, c)" "n < length key"
  shows "den node key = den c (drop n key)"
proof (cases node)
  case (ListN ln)
  then have wf: "wf_node (ListN ln)" and g: "ln_get_child ln key = Some (n, c)" using assms by auto
  then obtain k where k: "(k, Child c) \<in> slots_of ln" "n = length k" "prefix k key"
    by (auto simp: ln_get_child_iff)
  then have "covers k (Child c) key" using assms(3) by (auto simp: covers_def strict_prefix_def)
  from ln_den_covered[OF wf k(1) this] show ?thesis using k by (simp add: ListN)
next
  case (ByteN bn)
  then obtain cf where "bn_get bn (hd key) = Some cf" "cf_rec cf = Some c" "n = 1"
    using assms(2) by (auto simp: bn_get_child_def split: option.splits)
  then show ?thesis using assms(3) by (cases key) (auto simp: ByteN entry_den_def cf_den_def)
qed (use assms in simp)

lemma node_here:
  assumes "wf_node node" "key \<noteq> []" "\<And>n c. node_get_child node key = Some (n, c) \<Longrightarrow> n < length key \<Longrightarrow> c = EmptyN"
  shows "node_get_val node key = den node key"
proof (cases node)
  case (ListN ln)
  then have wf: "wf_node (ListN ln)" using assms by simp
  have "c = EmptyN" if "(k, Child c) \<in> slots_of ln" "strict_prefix k key" for k c
    using that assms(3)[of "length k" c] prefix_length_less[of k key]
    by (auto simp: ListN ln_get_child_iff[OF wf] strict_prefix_def)
  from ln_den_here[OF wf this] show ?thesis by (simp add: ListN)
next
  case (ByteN bn)
  show ?thesis
  proof (cases "bn_get bn (hd key)")
    case None
    then show ?thesis using assms(2) by (cases key) (auto simp: ByteN bn_get_val_def entry_den_def)
  next
    case (Some cf)
    show ?thesis
    proof (cases "tl key")
      case Nil
      then show ?thesis using Some assms(2) by (cases key) (auto simp: ByteN bn_get_val_def entry_den_def cf_den_def)
    next
      case (Cons b rest)
      have "cf_rec cf = Some c \<Longrightarrow> c = EmptyN" for c
        using assms(3)[of 1 c] Some Cons assms(2) by (cases key) (auto simp: ByteN bn_get_child_def)
      then show ?thesis
        using Some Cons assms(2) by (cases key) (auto simp: ByteN bn_get_val_def entry_den_def cf_den_def split: option.splits)
    qed
  qed
qed simp

lemma node_contains_val_iff: "node_contains_val node key \<longleftrightarrow> node_get_val node key \<noteq> None"
proof (cases node)
  case (ListN ln)
  have "is_used_value s \<and> slot_key s = key \<longleftrightarrow> slot_val_at s key \<noteq> None" for s :: "('v node, 'v) slot option"
    by (cases "(s, key)" rule: slot_val_at.cases) auto
  from this[of "slot0 ln"] this[of "slot1 ln"] show ?thesis
    by (simp add: ListN ln_contains_val_def ln_get_val_def split: option.splits)
qed (auto simp: bn_contains_val_def bn_get_val_def cf_has_val_def split: option.splits)

subsection \<open>Mutable references\<close>

lemma node_get_child_mut_eq:
  assumes "wf_node node" "node \<noteq> EmptyN"
  shows "node_get_child_mut node key =
    Ret (case node_get_child node key of Some (n, c) \<Rightarrow> if c = EmptyN then None else Some (n, c) | None \<Rightarrow> None)"
proof (cases node)
  case (ListN ln)
  have "ln_get_child_mut ln key = (case ln_get_child ln key of Some (n, c) \<Rightarrow> if c = EmptyN then None else Some (n, c) | None \<Rightarrow> None)"
    using ln_get_child_mut_iff[of ln key] assms(1) ListN
    by (cases "ln_get_child_mut ln key"; cases "ln_get_child ln key") (auto, (metis surj_pair)+)
  then show ?thesis by (simp add: ListN)
qed (use assms(2) in \<open>auto simp: bn_get_child_mut_def bn_get_child_def split: option.splits\<close>)

text \<open>A mutable reference to the node \<open>n\<close> at the path \<open>pre\<close>: \<open>n\<close> has the part of the map below
  \<open>pre\<close>, and a node written through the reference replaces that part and nothing else.\<close>

definition mut_focus :: "'v node \<Rightarrow> path \<Rightarrow> 'v node \<Rightarrow> ('v node \<Rightarrow> 'v node) \<Rightarrow> bool" where
  "mut_focus node pre n put \<longleftrightarrow>
     wf_node n \<and> n \<noteq> EmptyN \<and> (\<forall>q. strict_prefix pre q \<longrightarrow> den node q = den n (drop (length pre) q)) \<and>
     (\<forall>m. wf_node m \<and> m \<noteq> EmptyN \<longrightarrow> wf_node (put m) \<and> put m \<noteq> EmptyN \<and>
        (\<forall>q. den (put m) q = (if strict_prefix pre q then den m (drop (length pre) q) else den node q)))"

lemma mut_focus_refl: "wf_node node \<Longrightarrow> node \<noteq> EmptyN \<Longrightarrow> mut_focus node [] node (\<lambda>n. n)"
  by (auto simp: mut_focus_def strict_prefix_Nil wf_den_Nil)

lemma strict_prefix_append_iff:
  "strict_prefix (a @ b) q \<longleftrightarrow> strict_prefix a q \<and> strict_prefix b (drop (length a) q)"
  by (auto simp: strict_prefix_def prefix_def)

lemma mut_focus_trans:
  assumes "mut_focus node pre c put" "mut_focus c pre' n put'"
  shows "mut_focus node (pre @ pre') n (\<lambda>m. put (put' m))"
  using assms unfolding mut_focus_def by (auto simp: strict_prefix_append_iff add.commute)

lemma put_child_slot:
  assumes "wf_node (ListN (LN s0 s1))" "child_along s0 key = Some (n, c)" "wf_node c'" "c' \<noteq> EmptyN"
  shows "wf_node (ListN (LN (Some (slot_key s0, Child c')) s1)) \<and> ln_put_child (LN s0 s1) key c' = LN (Some (slot_key s0, Child c')) s1"
proof -
  obtain k where s0: "s0 = Some (k, Child c)" using assms(2) by (auto simp: child_along_iff)
  show ?thesis using assms by (cases s1) (auto simp: s0 ln_put_child_def wf_pair_def)
qed

lemma put_child_slot':
  assumes "wf_node (ListN (LN s0 s1))" "child_along s0 key = None" "child_along s1 key = Some (n, c)" "wf_node c'" "c' \<noteq> EmptyN"
  shows "wf_node (ListN (LN s0 (Some (slot_key s1, Child c')))) \<and> ln_put_child (LN s0 s1) key c' = LN s0 (Some (slot_key s1, Child c'))"
proof -
  obtain k where s1: "s1 = Some (k, Child c)" using assms(3) by (auto simp: child_along_iff)
  show ?thesis using assms by (cases s0) (auto simp: s1 ln_put_child_def wf_pair_def)
qed

text \<open>Replacing the link along a path keeps the list node well formed and replaces what lies behind
  the link.\<close>

lemma ln_put_child_focus:
  assumes wf: "wf_node (ListN ln)" and g: "ln_get_child ln key = Some (n, c)" and c': "wf_node c'" "c' \<noteq> EmptyN"
  shows "wf_node (ListN (ln_put_child ln key c')) \<and>
    ln_den den (ln_put_child ln key c') q = (if strict_prefix (take n key) q then den c' (drop n q) else ln_den den ln q)"
proof -
  obtain s0 s1 where ln: "ln = LN s0 s1" by (cases ln)
  obtain k where k: "(k, Child c) \<in> slots_of ln" "n = length k" "prefix k key"
    using g by (auto simp: ln_get_child_iff[OF wf])
  have tk: "take n key = k" using k by (simp add: not_prefix_append_same)
  let ?ln' = "ln_put_child ln key c'"
  have wf': "wf_node (ListN ?ln') \<and> (\<exists>s. ln = LN (Some (k, Child c)) s \<and> ?ln' = LN (Some (k, Child c')) s \<or>
      ln = LN s (Some (k, Child c)) \<and> ?ln' = LN s (Some (k, Child c')))"
  proof (cases "child_along s0 key")
    case None
    then have g1: "child_along s1 key = Some (n, c)" using g by (simp add: ln_get_child_def ln)
    then have "s1 = Some (k, Child c)" using tk by (auto simp: child_along_iff not_prefix_append_same)
    then show ?thesis using put_child_slot'[OF wf[unfolded ln] None g1 c'] by (auto simp: ln)
  next
    case (Some e)
    then have g0: "child_along s0 key = Some (n, c)" using g by (simp add: ln_get_child_def ln)
    then have "s0 = Some (k, Child c)" using tk by (auto simp: child_along_iff not_prefix_append_same)
    then show ?thesis using put_child_slot[OF wf[unfolded ln] g0 c'] by (auto simp: ln)
  qed
  have "ln_den den ?ln' q = (if strict_prefix k q then den c' (drop n q) else ln_den den ln q)"
  proof (cases "strict_prefix k q")
    case True
    then have "ln_den den ?ln' q = slot_den den (Some (k, Child c')) q"
      using wf' by (intro ln_den_covered) (auto simp: covers_def)
    then show ?thesis using True k(2) by (simp add: strict_prefix_def)
  next
    case False
    then have "slot_den den (Some (k, Child c)) q = slot_den den (Some (k, Child c')) q"
      using wf_slot_elem[OF wf k(1)] c' by (subst (1 2) slot_den_covers) (auto simp: covers_def)
    then show ?thesis using wf' False by (auto simp del: slot_den_simps)
  qed
  then show ?thesis using wf' tk by simp
qed

lemma bn_put_child_focus:
  assumes wf: "wf_node (ByteN bn)" and g: "bn_get_child bn key = Some (n, c)" and c': "wf_node c'" and key: "key \<noteq> []"
  shows "wf_node (ByteN (bn_put_child bn key c')) \<and>
    bn_den den (bn_put_child bn key c') q = (if strict_prefix (take n key) q then den c' (drop n q) else bn_den den bn q)"
proof -
  obtain b rest where k: "key = b # rest" using key by (cases key) auto
  obtain cf where cf: "bn_get bn b = Some cf" "cf_rec cf = Some c" "n = 1"
    using g by (auto simp: k bn_get_child_def split: option.splits)
  have ok: "bn_ok bn" "bn_get bn b \<noteq> None" using wf cf by simp_all
  note r = replace_entry[OF ok]
  have e: "bn_put_child bn key c' = bn_replace b (CoFree (Some c') (cf_val cf)) bn"
    using cf by (simp add: bn_put_child_def k)
  have "wf_node (ByteN (bn_put_child bn key c'))"
    using wf c' unfolding wf_byte_entries e by (auto simp: r)
  moreover have "bn_den den (bn_put_child bn key c') q = (if strict_prefix [b] q then den c' (drop 1 q) else bn_den den bn q)"
    using bn_get_Some[OF cf(1)] by (cases q) (auto simp: e entry_den_alt r strict_prefix_def)
  ultimately show ?thesis by (simp add: k cf(3))
qed

lemma node_put_child_focus:
  fixes node :: "'a node"
  assumes "wf_node node" "key \<noteq> []" "node_get_child node key = Some (n, c)" "c \<noteq> EmptyN"
  shows "mut_focus node (take n key) c (node_put_child node key)"
  unfolding mut_focus_def
proof (intro conjI allI impI)
  have b: "0 < n \<and> n \<le> length key \<and> wf_node c" by (rule node_get_child_bounds[OF assms(1-3)])
  show "wf_node c" "c \<noteq> EmptyN" using b assms(4) by auto
  have child: "node_get_child node q = Some (n, c)" if "prefix (take n key) q" for q
  proof (cases node)
    case (ListN ln)
    then obtain k where "(k, Child c) \<in> slots_of ln" "n = length k" "prefix k key"
      using assms(1,3) by (auto simp: ln_get_child_iff)
    then show ?thesis using that assms(1) ListN
      by (auto simp: ln_get_child_iff not_prefix_append_same[of k key] simp del: wf_node_simps)
  next
    case (ByteN bn)
    then have "n = 1" using assms(3) by (auto simp: bn_get_child_def split: option.splits)
    then have "hd q = hd key" using that assms(2) by (cases key; cases q) auto
    then show ?thesis using assms(3) by (simp add: ByteN bn_get_child_def)
  qed (use assms in simp)
  show "den node q = den c (drop (length (take n key)) q)" if "strict_prefix (take n key) q" for q
    using node_descend[OF assms(1) child[of q]] b that prefix_length_less[of "take n key" q]
    by (auto simp: strict_prefix_def min_def)
  fix m :: "'a node" assume m: "wf_node m \<and> m \<noteq> EmptyN"
  have "wf_node (node_put_child node key m) \<and> node_put_child node key m \<noteq> EmptyN \<and>
      (\<forall>q. den (node_put_child node key m) q = (if strict_prefix (take n key) q then den m (drop n q) else den node q))"
  proof (cases node)
    case (ListN ln)
    then show ?thesis using ln_put_child_focus[of ln key n c m] assms(1,3) m by auto
  next
    case (ByteN bn)
    then show ?thesis using bn_put_child_focus[of bn key n c m] assms(1-3) m by auto
  qed (use assms in simp)
  then show "wf_node (node_put_child node key m)" "node_put_child node key m \<noteq> EmptyN"
    "den (node_put_child node key m) q = (if strict_prefix (take n key) q then den m (drop (length (take n key)) q) else den node q)" for q
    using b by (auto simp: min_def)
qed

subsection \<open>The end of a walk\<close>

text \<open>No link of the node leads on along the key.\<close>

definition walk_ends :: "'v node \<Rightarrow> path \<Rightarrow> bool" where
  "walk_ends node key \<longleftrightarrow>
     (\<forall>n c. node_get_child node key = Some (n, c) \<longrightarrow> n < length key \<longrightarrow> c = EmptyN)"

lemma node_along_path_val:
  assumes "wf_node node" "key \<noteq> []" "node_along_path node key val False = (node', key', val')"
  shows "(if key' = [] then val' else node_get_val node' key') = den node key \<and>
    wf_node node' \<and> (key' \<noteq> [] \<longrightarrow> node_get_child node' key' = None)"
  using assms
proof (induction node key val False arbitrary: node' rule: node_along_path.induct)
  case (1 node key val)
  show ?case
  proof (cases "node_get_child node key")
    case None
    then show ?thesis using 1 node_here[OF 1(2,3)] by (simp add: node_along_path.simps[of node])
  next
    case (Some r)
    then obtain n c where g: "node_get_child node key = Some (n, c)" by (cases r) auto
    note b = node_get_child_bounds[OF 1(2,3) g]
    show ?thesis
    proof (cases "n < length key")
      case True
      have ne: "length key \<noteq> 0" using 1(3) by simp
      have "drop n key \<noteq> []" using True by simp
      with 1(1)[OF ne g refl True _ _, of node'] b 1(4) True ne node_descend[OF 1(2) g True]
      show ?thesis by (simp add: node_along_path.simps[of node] g)
    next
      case False
      then have "node_get_val node key = den node key"
        using g by (intro node_here[OF 1(2,3)]) auto
      then show ?thesis using 1(3,4) g False b by (auto simp: node_along_path.simps[of node])
    qed
  qed
qed

lemma node_along_path_mut_focus:
  assumes "wf_node node" "node \<noteq> EmptyN" "key \<noteq> []"
  shows "\<exists>pre key' n put. node_along_path_mut node key True = Ret (key', n, put) \<and>
    key = pre @ key' \<and> key' \<noteq> [] \<and> mut_focus node pre n put \<and> walk_ends n key'"
  using assms
proof (induction node key True rule: node_along_path_mut.induct)
  case (1 node key)
  have ne: "length key \<noteq> 0" using 1(4) by simp
  note eq = node_get_child_mut_eq[OF 1(2,3), of key]
  have stop: ?case if "node_along_path_mut node key True = Ret (key, node, \<lambda>n. n)" "walk_ends node key"
    using that 1(2-4) mut_focus_refl[OF 1(2,3)] by fastforce
  show ?case
  proof (cases "node_get_child node key")
    case None
    then show ?thesis using eq ne by (intro stop) (simp_all add: node_along_path_mut.simps[of node] walk_ends_def)
  next
    case (Some r)
    then obtain n c where g: "node_get_child node key = Some (n, c)" by (cases r) auto
    note b = node_get_child_bounds[OF 1(2,4) g]
    show ?thesis
    proof (cases "c \<noteq> EmptyN \<and> n < length key")
      case True
      then have m: "node_get_child_mut node key = Ret (Some (n, c))" using eq g by simp
      have d: "drop n key \<noteq> []" using True by simp
      obtain pre key' n' put where w: "node_along_path_mut c (drop n key) True = Ret (key', n', put)"
        "drop n key = pre @ key'" "key' \<noteq> []" "mut_focus c pre n' put" "walk_ends n' key'"
        using 1(1)[OF ne m refl refl _ _ _ d] True b by auto
      have "node_along_path_mut node key True = Ret (key', n', \<lambda>m. node_put_child node key (put m))"
        using w(1) m True ne by (simp add: node_along_path_mut.simps[of node])
      moreover have "key = (take n key @ pre) @ key'" using w(2) by (metis append_assoc append_take_drop_id)
      moreover have "mut_focus node (take n key @ pre) n' (\<lambda>m. node_put_child node key (put m))"
        using node_put_child_focus[OF 1(2,4) g] True w(4) by (intro mut_focus_trans) auto
      ultimately show ?thesis using w(3,5) by blast
    next
      case False
      then show ?thesis using eq ne g
        by (intro stop) (auto simp: node_along_path_mut.simps[of node] walk_ends_def)
    qed
  qed
qed

subsection \<open>Writing at the end of a walk\<close>

lemma walk_ends_can_write:
  assumes "wf_node (ListN ln)" "key \<noteq> []" "walk_ends (ListN ln) key" "wf_payload pl"
    and "pl = Child EmptyN \<Longrightarrow> \<forall>(k, p) \<in> slots_of ln. \<not> prefix key k"
  shows "can_write key pl ln"
proof -
  have "p = Child EmptyN" if "(k, p) \<in> slots_of ln" "is_child p" "strict_prefix k key" for k p
  proof (cases p)
    case (Child c)
    then have "node_get_child (ListN ln) key = Some (length k, c)"
      using that assms(1) by (auto simp: ln_get_child_iff strict_prefix_def simp del: wf_node_simps)
    then show ?thesis using assms(3) prefix_length_less[OF that(3)] Child by (simp add: walk_ends_def)
  qed (use that in simp)
  then show ?thesis using assms unfolding can_write_def by auto
qed

lemma walk_ends_byte_can_write:
  assumes "wf_node (ByteN bn)" "key \<noteq> []" "walk_ends (ByteN bn) key"
  shows "byte_can_write key bn"
proof -
  have "bn_rec bn (hd key) \<in> {None, Some EmptyN}" if "1 < length key"
    using assms(3) that by (cases "bn_rec bn (hd key)")
      (auto simp: walk_ends_def bn_get_child_def bn_rec_def split: option.splits)
  then show ?thesis using assms by (simp add: byte_can_write_def)
qed

text \<open>\<open>node_set_val\<close> of either kind of node.\<close>

lemma node_set_val_correct:
  assumes "slice_utils_ok S" "wf_node node" "node \<noteq> EmptyN" "key \<noteq> []" "walk_ends node key"
  shows "\<exists>r. node_set_val S v node key = Ret r \<and>
    (case r of
       Ok ((old, created_subnode), n) \<Rightarrow> wf_node n \<and> n \<noteq> EmptyN \<and> den n = (den node)(key \<mapsto> v) \<and> old = den node key
     | Err n \<Rightarrow> wf_node n \<and> n \<noteq> EmptyN \<and> den n = (den node)(key \<mapsto> v) \<and> den node key = None)"
proof (cases node)
  case (ListN ln)
  have "can_write key (Val v) ln"
    using walk_ends_can_write[of ln key "Val v"] assms ListN by simp
  from list_set_val_spec[OF assms(1) this] show ?thesis
    by (auto simp: ListN split: result.splits simp del: wf_node_simps dest: fun_cong)
next
  case (ByteN bn)
  have "byte_can_write key bn"
    using walk_ends_byte_can_write[of bn key] assms ByteN by simp
  from byte_set_val_spec[OF assms(1) this, of v] show ?thesis
    by (auto simp: ByteN simp del: wf_node_simps)
qed (use assms in simp)

end
