(* ===== verification/Trie_Map_Laws.thy ===== *)
theory Trie_Map_Laws
  imports Trie_Walk
begin

text \<open>
  What \<open>PathMap\<close> promises: it behaves like a finite partial map from paths to values.  \<open>map_den m\<close> is
  that map; the locales \<open>map_impl\<close> and \<open>counted_map\<close> state the interface (reading after writing, the
  old value that comes back, the number of values) and are interpreted on the code's model, and the
  properties below rest on their facts.
\<close>

subsection \<open>What a map stands for\<close>

definition map_den :: "'v path_map \<Rightarrow> path \<Rightarrow> 'v option" where
  "map_den m q = (if q = [] then root_val m else case root m of Some r \<Rightarrow> den r q | None \<Rightarrow> None)"

definition wf_map :: "'v path_map \<Rightarrow> bool" where
  "wf_map m \<longleftrightarrow> (\<forall>r. root m = Some r \<longrightarrow> wf_node r \<and> r \<noteq> EmptyN)"

lemma new_list_node_wf [simp]: "wf_node (ListN new_list_node)" "ln_den D new_list_node q = None"
  by (simp_all add: new_list_node_def)

lemma get_or_init_root_spec:
  assumes "wf_map m"
  shows "wf_node (get_or_init_root m) \<and> get_or_init_root m \<noteq> EmptyN \<and>
    (q \<noteq> [] \<longrightarrow> den (get_or_init_root m) q = map_den m q)"
  using assms
  by (cases "root m") (auto simp: get_or_init_root_def ensure_root_def wf_map_def map_den_def simp del: wf_node_simps)

lemma with_root_spec:
  assumes "wf_node r" "r \<noteq> EmptyN"
  shows "wf_map (m\<lparr>root := Some r\<rparr>) \<and> map_den (m\<lparr>root := Some r\<rparr>) q = (if q = [] then root_val m else den r q)"
  using assms by (simp add: wf_map_def map_den_def)

lemma val_at_den: "wf_map m \<Longrightarrow> val_at m p = map_den m p \<and> contains m p = (map_den m p \<noteq> None)"
proof (cases "p = []")
  case True
  then show ?thesis
    by (simp add: val_at_def map_den_def contains_def read_zipper_at_borrowed_path_def zipper_at_def node_along_path.simps)
next
  case False
  assume m: "wf_map m"
  obtain node key val where w: "node_along_path (get_or_init_root m) p None False = (node, key, val)"
    by (metis prod_cases3)
  note r = get_or_init_root_spec[OF m]
  from node_along_path_val[OF _ False w] r[of p] False
  have v: "(if key = [] then val else node_get_val node key) = map_den m p" "key \<noteq> [] \<Longrightarrow> node_get_child node key = None"
    by auto
  have z: "read_zipper_at_borrowed_path m p = (node, key, val)"
    using v(2) False by (auto simp: read_zipper_at_borrowed_path_def zipper_at_def w)
  show ?thesis
    using v(1) False by (auto simp: val_at_def contains_def z node_contains_val_iff split: if_splits)
qed

text \<open>Reading and writing through a reference below the root.\<close>

lemma mut_focus_read:
  assumes "wf_map m" "mut_focus (get_or_init_root m) pre n put" "key \<noteq> []"
  shows "den n key = map_den m (pre @ key)"
proof -
  have "strict_prefix pre (pre @ key)" using assms(3) by (simp add: strict_prefix_def)
  then have "den (get_or_init_root m) (pre @ key) = den n key" using assms(2) unfolding mut_focus_def by fastforce
  then show ?thesis using get_or_init_root_spec[OF assms(1), of "pre @ key"] assms(3) by simp
qed

lemma mut_focus_write:
  assumes "wf_map m" "mut_focus (get_or_init_root m) pre n put" "wf_node n'" "n' \<noteq> EmptyN"
  shows "wf_map (m\<lparr>root := Some (put n')\<rparr>) \<and>
    map_den (m\<lparr>root := Some (put n')\<rparr>) q = (if strict_prefix pre q then den n' (drop (length pre) q) else map_den m q)"
proof -
  have put: "wf_node (put n')" "put n' \<noteq> EmptyN"
    "den (put n') q = (if strict_prefix pre q then den n' (drop (length pre) q) else den (get_or_init_root m) q)" for q
    using assms(2-4) unfolding mut_focus_def by blast+
  have "strict_prefix pre q \<Longrightarrow> q \<noteq> []" by auto
  then show ?thesis
    using with_root_spec[OF put(1,2)] put(3)[of q] get_or_init_root_spec[OF assms(1), of q] by (auto simp: map_den_def)
qed

lemma mut_focus_update:
  assumes "wf_map m" "mut_focus (get_or_init_root m) pre n put" "key \<noteq> []"
    and "wf_node n'" "n' \<noteq> EmptyN" "den n' = (den n)(key \<mapsto> v)"
  shows "wf_map (m\<lparr>root := Some (put n')\<rparr>) \<and> map_den (m\<lparr>root := Some (put n')\<rparr>) = (map_den m)(pre @ key \<mapsto> v)"
proof -
  note w = mut_focus_write[OF assms(1,2,4,5)]
  have "map_den (m\<lparr>root := Some (put n')\<rparr>) q = ((map_den m)(pre @ key \<mapsto> v)) q" for q
  proof (cases "strict_prefix pre q")
    case True
    then obtain t where q: "q = pre @ t" "t \<noteq> []" by (auto simp: strict_prefix_def prefix_def)
    then show ?thesis using w[of q] True mut_focus_read[OF assms(1,2) q(2)] by (simp add: assms(6))
  next
    case False
    then have "q \<noteq> pre @ key" using assms(3) by (auto simp: strict_prefix_def)
    then show ?thesis using w[of q] False by simp
  qed
  then show ?thesis using w by blast
qed

lemma set_val_at_den:
  assumes "slice_utils_ok S" "wf_map m"
  shows "\<exists>m'. set_val_at S p v m = Ret (map_den m p, m') \<and> wf_map m' \<and> map_den m' = (map_den m)(p \<mapsto> v)"
proof (cases "p = []")
  case True
  then show ?thesis using assms(2) by (auto simp: set_val_at_def wf_map_def map_den_def fun_eq_iff)
next
  case False
  let ?r = "get_or_init_root m"
  obtain pre key n put where w: "node_along_path_mut ?r p True = Ret (key, n, put)" "p = pre @ key" "key \<noteq> []"
    "mut_focus ?r pre n put" "walk_ends n key"
    using node_along_path_mut_focus[of ?r p] get_or_init_root_spec[OF assms(2)] False by blast
  have n: "wf_node n" "n \<noteq> EmptyN" using w(4) by (auto simp: mut_focus_def)
  obtain res where res: "node_set_val S v n key = Ret res"
    "case res of
       Ok ((old, created_subnode), n') \<Rightarrow> wf_node n' \<and> n' \<noteq> EmptyN \<and> den n' = (den n)(key \<mapsto> v) \<and> old = den n key
     | Err n' \<Rightarrow> wf_node n' \<and> n' \<noteq> EmptyN \<and> den n' = (den n)(key \<mapsto> v) \<and> den n key = None"
    using node_set_val_correct[OF assms(1) n w(3,5)] by blast
  show ?thesis
    using res mut_focus_update[OF assms(2) w(4,3)] mut_focus_read[OF assms(2) w(4,3)] False w(1,2)
    by (cases res) (auto simp: set_val_at_def with_node_at_path_mut_def)
qed

subsection \<open>The interface of a map\<close>

text \<open>What the crate promises of a map: reading after writing, for any keys.\<close>

locale map_impl =
  fixes inv :: "'m \<Rightarrow> bool" and new :: 'm and get :: "'m \<Rightarrow> path \<Rightarrow> 'v option"
    and put :: "slice_utils \<Rightarrow> path \<Rightarrow> 'v \<Rightarrow> 'm \<Rightarrow> ('v option \<times> 'm) outcome"
  assumes inv_new: "inv new"
    and get_new: "get new p = None"
    and put_spec: "slice_utils_ok S \<Longrightarrow> inv m \<Longrightarrow>
      \<exists>m'. put S p v m = Ret (get m p, m') \<and> inv m' \<and> get m' = (get m)(p \<mapsto> v)"
begin

lemma insert_all_spec:
  assumes "slice_utils_ok S" "inv m"
  shows "\<exists>m'. insert_all (put S) kvs m = Ret m' \<and> inv m' \<and> get m' = get m ++ map_of (rev kvs)"
  using assms(2)
proof (induction kvs arbitrary: m)
  case (Cons kv kvs)
  obtain k v where kv: "kv = (k, v)" by (cases kv)
  obtain m1 where m1: "put S k v m = Ret (get m k, m1)" "inv m1" "get m1 = (get m)(k \<mapsto> v)"
    using put_spec[OF assms(1) Cons.prems] by blast
  from Cons.IH[OF m1(2)] obtain m' where "insert_all (put S) kvs m1 = Ret m'" "inv m'" "get m' = get m1 ++ map_of (rev kvs)"
    by blast
  then show ?case using m1 by (auto simp: kv)
qed simp

lemma build_spec:
  assumes "slice_utils_ok S"
  shows "\<exists>m'. insert_all (put S) kvs new = Ret m' \<and> inv m' \<and> get m' = map_of (rev kvs)"
proof -
  have "get new = Map.empty" using get_new by auto
  then show ?thesis using insert_all_spec[OF assms inv_new, of kvs] by simp
qed

text \<open>Writes to different paths commute, as far as a reader can tell.\<close>

lemma put_commute:
  assumes "slice_utils_ok S" "inv m" "p \<noteq> q"
  shows "\<exists>m1 m2 m1' m2'. put S p v m = Ret (get m p, m1) \<and> put S q w m1 = Ret (get m q, m2) \<and>
    put S q w m = Ret (get m q, m1') \<and> put S p v m1' = Ret (get m p, m2') \<and> get m2 = get m2'"
proof -
  obtain m1 where m1: "put S p v m = Ret (get m p, m1)" "inv m1" "get m1 = (get m)(p \<mapsto> v)"
    using put_spec[OF assms(1,2)] by blast
  obtain m1' where m1': "put S q w m = Ret (get m q, m1')" "inv m1'" "get m1' = (get m)(q \<mapsto> w)"
    using put_spec[OF assms(1,2)] by blast
  obtain m2 where m2: "put S q w m1 = Ret (get m1 q, m2)" "get m2 = (get m1)(q \<mapsto> w)"
    using put_spec[OF assms(1) m1(2)] by blast
  obtain m2' where m2': "put S p v m1' = Ret (get m1' p, m2')" "get m2' = (get m1')(p \<mapsto> v)"
    using put_spec[OF assms(1) m1'(2)] by blast
  have "get m2 = get m2'" using m1(3) m1'(3) m2(2) m2'(2) assms(3) by (simp add: fun_upd_twist)
  then show ?thesis using m1 m1' m2(1) m2'(1) assms(3) by auto
qed

end

interpretation path_map_impl: map_impl wf_map new_map val_at set_val_at
proof
  show new: "wf_map (new_map :: 'v path_map)" by (simp add: wf_map_def new_map_def)
  show "val_at (new_map :: 'v path_map) p = None" for p
    using val_at_den[OF new, of p] by (auto simp: map_den_def new_map_def split: if_splits)
  show "\<exists>m'. set_val_at S p v m = Ret (val_at m p, m') \<and> wf_map m' \<and> val_at m' = (val_at m)(p \<mapsto> v)"
    if "slice_utils_ok S" "wf_map m" for S p v and m :: "'v path_map"
  proof -
    have v: "wf_map m \<Longrightarrow> val_at m = map_den m" for m :: "'v path_map"
      using val_at_den by (intro ext) blast
    show ?thesis using set_val_at_den[OF that, of p v] v[OF that(2)] v by metis
  qed
qed

subsection \<open>Counting the values\<close>

lemma slot_count_dom:
  assumes "wf_slot s" "\<And>c. c \<in> set (slot_children s) \<Longrightarrow> finite (dom (den c)) \<and> f c = card (dom (den c))"
  shows "finite (dom (slot_den den s)) \<and>
    (if is_used_value s then 1 else 0) + slot_count f s = card (dom (slot_den den s))"
proof (cases s)
  case None
  then have "dom (slot_den den s) = {}" by auto
  then show ?thesis by (simp add: None slot_count_def)
next
  case (Some e)
  obtain k p where s: "s = Some (k, p)" using Some by (cases e) auto
  show ?thesis
  proof (cases p)
    case (Val v)
    then have "dom (slot_den den s) = {k}" by (auto simp: s split: if_splits)
    then show ?thesis by (simp add: s Val slot_count_def)
  next
    case (Child c)
    have d: "dom (slot_den den s) = (\<lambda>q. k @ q) ` dom (den c)"
      by (force simp: s Child prefix_def image_iff split: if_splits)
    have "inj_on (\<lambda>q. k @ q) (dom (den c))" by (simp add: inj_on_def)
    then show ?thesis using assms(2)[of c] unfolding d by (simp add: s Child slot_count_def card_image)
  qed
qed

lemma or_else_opt_None_iff: "or_else_opt x y = None \<longleftrightarrow> x = None \<and> y = None"
  by (cases x) auto

lemma card_consed_doms:
  assumes "distinct (map fst ps)" "\<And>b x. (b, x) \<in> set ps \<Longrightarrow> finite (D x) \<and> g x = card (D x)"
  shows "finite (\<Union>(b, x) \<in> set ps. (\<lambda>r. b # r) ` D x) \<and>
    card (\<Union>(b, x) \<in> set ps. (\<lambda>r. b # r) ` D x) = (\<Sum>(b, x) \<leftarrow> ps. g x)"
  using assms
proof (induction ps)
  case (Cons p ps)
  obtain b x where p: "p = (b, x)" by (cases p)
  let ?A = "(\<lambda>r. b # r) ` D x" and ?B = "\<Union>(b, x) \<in> set ps. (\<lambda>r. b # r) ` D x"
  have x: "finite (D x)" "g x = card (D x)" using Cons.prems(2)[of b x] by (simp_all add: p)
  have "?A \<inter> ?B = {}" using Cons.prems(1) by (force simp: p)
  moreover have "finite ?B" "card ?B = (\<Sum>(b, x) \<leftarrow> ps. g x)" using Cons by auto
  moreover have "card ?A = g x" using x by (simp add: card_image)
  ultimately show ?case using x(1) by (simp add: p card_Un_disjoint)
qed simp

lemma cf_count_dom:
  assumes "\<And>c. cf_rec cf = Some c \<Longrightarrow> finite (dom (den c)) \<and> f c = card (dom (den c)) \<and> den c [] = None"
  shows "finite (dom (cf_den den cf)) \<and>
    (if cf_has_val cf then 1 else 0) + (case cf_rec cf of Some r \<Rightarrow> f r | None \<Rightarrow> 0) = card (dom (cf_den den cf))"
proof -
  define R where "R = (case cf_rec cf of Some c \<Rightarrow> dom (den c) | None \<Rightarrow> {})"
  have R: "finite R" "card R = (case cf_rec cf of Some r \<Rightarrow> f r | None \<Rightarrow> 0)" "[] \<notin> R"
    using assms by (auto simp: R_def split: option.splits)
  have "dom (cf_den den cf) = (if cf_has_val cf then insert [] R else R)"
    using assms by (auto simp: R_def cf_den_def cf_has_val_def split: option.splits if_splits)
  then show ?thesis using R by simp
qed

lemma node_val_count_dom:
  "wf_node n \<Longrightarrow> finite (dom (den n)) \<and> node_val_count n = card (dom (den n))"
proof (induction n rule: node_induct)
  case (node n)
  let ?f = "\<lambda>c. if is_empty_odrc c then 0 else node_val_count c"
  have IH: "finite (dom (den c)) \<and> ?f c = card (dom (den c))" if "c \<in> set (node_children n)" for c
  proof (cases "c = EmptyN")
    case True
    moreover have "dom (den EmptyN :: path \<Rightarrow> 'a option) = {}" by (auto simp: dom_def)
    ultimately show ?thesis by simp
  next
    case False
    then show ?thesis using node(1)[OF that] node(2) that by (simp add: wf_node.simps[of n])
  qed
  show ?case
  proof (cases n)
    case EmptyN
    then show ?thesis by (simp add: node_val_count.simps dom_def)
  next
    case (ListN ln)
    have wf: "wf_node (ListN ln)" using node(2) ListN by simp
    have s: "wf_slot (slot0 ln)" "wf_slot (slot1 ln)" using wf by simp_all
    have c0: "finite (dom (slot_den den (slot0 ln))) \<and>
        (if is_used_value (slot0 ln) then 1 else 0) + slot_count ?f (slot0 ln) = card (dom (slot_den den (slot0 ln)))"
      by (rule slot_count_dom[OF s(1)]) (rule IH, simp add: ListN)
    have c1: "finite (dom (slot_den den (slot1 ln))) \<and>
        (if is_used_value (slot1 ln) then 1 else 0) + slot_count ?f (slot1 ln) = card (dom (slot_den den (slot1 ln)))"
      by (rule slot_count_dom[OF s(2)]) (rule IH, simp add: ListN)
    have dom: "dom (den n) = dom (slot_den den (slot0 ln)) \<union> dom (slot_den den (slot1 ln))"
      by (auto simp: ListN ln_den_def dom_def or_else_opt_None_iff simp del: not_None_eq)
    have "dom (slot_den den (slot0 ln)) \<inter> dom (slot_den den (slot1 ln)) = {}"
      using wf
    proof (cases rule: slots_cases)
      case (two k0 p0 k1 p1)
      have "apart k0 p0 k1 p1" using two by (intro wf_pair_apart)
      then have "slot_den den (Some (k0, p0)) q = None \<or> slot_den den (Some (k1, p1)) q = None" for q
        using slot_den_apart[of k0 k1 p0 p1 q] slot_den_covers[of p0 k0 q] two
        by (cases "covers k0 p0 q") (simp_all del: slot_den_simps)
      then show ?thesis unfolding two(1) list_node.sel disjoint_iff dom_def mem_Collect_eq by meson
    qed auto
    then show ?thesis
      using c0 c1 unfolding dom by (simp add: node_val_count.simps[of "ListN ln"] ListN card_Un_disjoint)
  next
    case (ByteN bn)
    obtain m cfs where bn: "bn = BN m cfs" by (cases bn)
    have wf: "wf_node (ByteN bn)" using node(2) ByteN by simp
    have ok: "bn_ok (BN m cfs)" using wf by (simp add: bn)
    have len: "length (bits m) = length cfs" using ok by (simp add: bn_ok_BN length_bits)
    define ps where "ps = zip (map to_u8 (bits m)) cfs"
    let ?g = "\<lambda>cf. (if cf_has_val cf then 1 else 0) + (case cf_rec cf of Some r \<Rightarrow> ?f r | None \<Rightarrow> 0)"
    have fst: "map fst ps = map to_u8 (bits m)" using len by (simp add: ps_def)
    have dist: "distinct (map fst ps)"
      unfolding fst by (auto simp: distinct_map bits_def intro!: inj_on_inverseI[of _ unat])
    have cf: "finite (dom (cf_den den cf)) \<and> ?g cf = card (dom (cf_den den cf))" if "cf \<in> set cfs" for cf
    proof (rule cf_count_dom)
      fix c assume c: "cf_rec cf = Some c"
      then have "c \<in> set (node_children n)" using that by (force simp: ByteN bn cf_children_def)
      then show "finite (dom (den c)) \<and> ?f c = card (dom (den c)) \<and> den c [] = None"
        using IH[of c] wf_den_Nil[of c] node(2) by (auto simp: wf_node.simps[of n])
    qed
    have entry: "bn_get bn b = Some cf \<longleftrightarrow> (b, cf) \<in> set ps" for b cf
    proof -
      have d: "distinct (map fst (zip (bits m) cfs))" using len by (simp add: bits_def)
      have l: "(n, cf) \<in> set (zip (bits m) cfs) \<Longrightarrow> n < 256" for n by (auto simp: bits_def dest: set_zip_leftD)
      have "bn_get bn b = Some cf \<longleftrightarrow> (unat b, cf) \<in> set (zip (bits m) cfs)"
        by (simp add: bn bn_get_map_of[OF ok] map_of_eq_Some_iff[OF d])
      also have "\<dots> \<longleftrightarrow> (b, cf) \<in> set ps"
        unfolding ps_def zip_map1 using l by (force simp: image_iff intro: bexI[of _ "(unat b, cf)"])
      finally show ?thesis .
    qed
    have dom: "dom (den n) = (\<Union>(b, cf) \<in> set ps. (\<lambda>r. b # r) ` dom (cf_den den cf))"
    proof (rule set_eqI)
      fix q :: path
      have "b # r \<in> dom (den n) \<longleftrightarrow> (\<exists>cf. (b, cf) \<in> set ps \<and> r \<in> dom (cf_den den cf))" for b r
        unfolding entry[symmetric] by (cases "bn_get bn b") (simp_all add: ByteN entry_den_def dom_def)
      then show "q \<in> dom (den n) \<longleftrightarrow> q \<in> (\<Union>(b, cf) \<in> set ps. (\<lambda>r. b # r) ` dom (cf_den den cf))"
        by (cases q) (auto simp: ByteN dom_def)
    qed
    have "(b, cf) \<in> set ps \<Longrightarrow> cf \<in> set cfs" for b cf
      by (auto simp: ps_def dest: set_zip_rightD)
    then have "finite (dom (den n)) \<and> card (dom (den n)) = (\<Sum>(b, cf) \<leftarrow> ps. ?g cf)"
      unfolding dom using cf by (intro card_consed_doms[OF dist]) blast
    moreover have "(\<Sum>(b, cf) \<leftarrow> ps. ?g cf) = (\<Sum>cf \<leftarrow> cfs. ?g cf)"
    proof -
      have "map (\<lambda>(b, cf). ?g cf) ps = map ?g (map snd ps)" by (simp add: case_prod_unfold)
      then show ?thesis using len by (simp add: ps_def)
    qed
    moreover have "foldr (\<lambda>cf t. t + (if cf_has_val cf then 1 else 0) + (case cf_rec cf of Some r \<Rightarrow> ?f r | None \<Rightarrow> 0)) cfs 0 =
        (\<Sum>cf \<leftarrow> cfs. ?g cf)" by (induction cfs) (simp_all add: add.commute add.left_commute)
    moreover have "node_val_count n =
        foldr (\<lambda>cf t. t + (if cf_has_val cf then 1 else 0) + (case cf_rec cf of Some r \<Rightarrow> ?f r | None \<Rightarrow> 0)) cfs 0"
      unfolding ByteN bn by (subst node_val_count.simps, subst node_count.simps, simp only: byte_node.sel)
    ultimately show ?thesis by metis
  qed
qed

lemma map_dom:
  assumes "wf_map m"
  shows "finite (dom (map_den m)) \<and> val_count m = card (dom (map_den m))"
proof (cases "root m")
  case None
  then have "dom (map_den m) = (if root_val m = None then {} else {[]})"
    by (auto simp: map_den_def split: if_splits)
  then show ?thesis by (simp add: None val_count_def)
next
  case (Some r)
  have r: "wf_node r" using assms Some by (simp add: wf_map_def)
  have "dom (map_den m) = (if root_val m = None then dom (den r) else insert [] (dom (den r)))"
    using wf_den_Nil[OF r] by (auto simp: map_den_def Some split: if_splits)
  moreover have "[] \<notin> dom (den r)" using wf_den_Nil[OF r] by auto
  ultimately show ?thesis
    using node_val_count_dom[OF r] by (simp add: Some val_count_def)
qed

text \<open>A map that also counts.\<close>

locale counted_map = map_impl +
  fixes count :: "'a \<Rightarrow> nat"
  assumes count_spec: "inv m \<Longrightarrow> finite (dom (get m)) \<and> count m = card (dom (get m))"
begin

lemma count_put:
  assumes "slice_utils_ok S" "inv m" "put S p v m = Ret (old, m')"
  shows "count m' = (if old = None then count m + 1 else count m)"
proof -
  have m': "old = get m p" "inv m'" "get m' = (get m)(p \<mapsto> v)"
    using put_spec[OF assms(1,2), of p v] assms(3) by auto
  have "dom (get m') = insert p (dom (get m))" by (simp add: m'(3))
  then show ?thesis
    using count_spec[OF m'(2)] count_spec[OF assms(2)] by (auto simp: m'(1) card_insert_if domIff)
qed

lemma count_build:
  assumes "slice_utils_ok S" "insert_all (put S) kvs new = Ret m"
  shows "count m = card (set (map fst kvs))"
proof -
  have "inv m" "get m = map_of (rev kvs)" using build_spec[OF assms(1), of kvs] assms(2) by auto
  then show ?thesis using count_spec[of m] by (simp add: dom_map_of_conv_image_fst)
qed

end

interpretation path_map_count: counted_map wf_map new_map val_at set_val_at val_count
proof
  show "finite (dom (val_at m)) \<and> val_count m = card (dom (val_at m))" if "wf_map m" for m :: "'v path_map"
  proof -
    have "val_at m = map_den m" using val_at_den[OF that] by blast
    then show ?thesis using map_dom[OF that] by simp
  qed
qed

subsection \<open>The properties of the map\<close>

text \<open>C2: \<open>val_at\<close>, \<open>get\<close> and \<open>contains\<close>, which walk the nodes and then ask a read zipper, return the value the
  trie stands for at the path.\<close>

theorem val_at_correct:
  assumes "wf_map m"
  shows "val_at m p = map_den m p \<and> (contains m p \<longleftrightarrow> map_den m p \<noteq> None)"
  using val_at_den[OF assms] .

theorem val_at_correct_witness:
  "val_at \<lparr>root = Some (ListN (LN (Some ([1, 2], Val (7 :: nat))) None)), root_val = None\<rparr> [1, 2] = Some 7"
proof -
  have "wf_map \<lparr>root = Some (ListN (LN (Some ([1, 2], Val (7 :: nat))) None)), root_val = None\<rparr>"
    by (simp add: wf_map_def KEY_BYTES_CNT_def)
  from val_at_correct[OF this, of "[1, 2]"] show ?thesis by (simp add: map_den_def)
qed

text \<open>C1: \<open>set_val_at\<close> never panics; it returns the value that was at the path, keeps the map well
  formed, and afterwards the map reads the new value there and what it read before anywhere else,
  whichever nodes were split, chained or upgraded on the way.\<close>

theorem set_val_at_correct:
  assumes "slice_utils_ok S" "wf_map m"
  shows "\<exists>m'. set_val_at S p v m = Ret (val_at m p, m') \<and> wf_map m' \<and> val_at m' = (val_at m)(p \<mapsto> v)"
  by (rule path_map_impl.put_spec[OF assms])

theorem set_val_at_correct_witness:
  "\<exists>m'. set_val_at std_slice_utils [3, 4] (7 :: nat) new_map = Ret (None, m') \<and> val_at m' [3, 4] = Some 7 \<and> val_at m' [3] = None"
  using set_val_at_correct[OF std_slice_utils_ok path_map_impl.inv_new, of "[3, 4]" 7]
  by (auto simp: path_map_impl.get_new)

text \<open>Insertions at different paths commute, as far as a reader can tell.\<close>

theorem set_val_at_commutes:
  assumes "slice_utils_ok S" "wf_map m" "p \<noteq> q"
  shows "\<exists>m1 m2 m1' m2'. set_val_at S p v m = Ret (val_at m p, m1) \<and> set_val_at S q w m1 = Ret (val_at m q, m2) \<and>
    set_val_at S q w m = Ret (val_at m q, m1') \<and> set_val_at S p v m1' = Ret (val_at m p, m2') \<and> val_at m2 = val_at m2'"
  by (rule path_map_impl.put_commute[OF assms])

theorem set_val_at_commutes_witness:
  "\<exists>m1 m2 m1' m2'. set_val_at std_slice_utils [1] (7 :: nat) new_map = Ret (None, m1) \<and>
    set_val_at std_slice_utils [1, 2] 8 m1 = Ret (None, m2) \<and>
    set_val_at std_slice_utils [1, 2] 8 new_map = Ret (None, m1') \<and>
    set_val_at std_slice_utils [1] 7 m1' = Ret (None, m2') \<and> val_at m2 = val_at m2'"
  using set_val_at_commutes[OF std_slice_utils_ok path_map_impl.inv_new, of "[1]" "[1, 2]" 7 8]
  by (simp add: path_map_impl.get_new)

text \<open>C3: A map collected from an iterator of pairs holds, at every path, the last value the iterator
  gave for it.\<close>

theorem from_iter_correct:
  assumes "slice_utils_ok S"
  shows "\<exists>m. from_iter S kvs = Ret m \<and> wf_map m \<and> val_at m = map_of (rev kvs)"
  unfolding from_iter_def by (rule path_map_impl.build_spec[OF assms])

theorem from_iter_correct_witness:
  "\<exists>m. from_iter std_slice_utils [([1, 2], 7 :: nat), ([1], 8), ([1, 2], 9)] = Ret m \<and> val_at m [1, 2] = Some 9 \<and> val_at m [1] = Some 8"
  using from_iter_correct[OF std_slice_utils_ok, of "[([1, 2], 7), ([1], 8), ([1, 2], 9)]"] by auto

text \<open>C4: \<open>val_count\<close> is the number of paths with a value: an insertion raises it by one exactly when it
  replaced nothing, and a collected map counts its distinct keys.\<close>

theorem val_count_correct:
  assumes "slice_utils_ok S" "wf_map m"
  shows "val_count m = card (dom (val_at m)) \<and>
    (\<forall>p v old m'. set_val_at S p v m = Ret (old, m') \<longrightarrow>
       val_count m' = (if old = None then val_count m + 1 else val_count m))"
  using path_map_count.count_put[OF assms] path_map_count.count_spec[OF assms(2)] by blast

theorem val_count_correct_witness:
  "\<exists>m'. set_val_at std_slice_utils [3] (7 :: nat) new_map = Ret (None, m') \<and> val_count m' = 1"
proof -
  have "val_count (new_map :: nat path_map) = 0" by (simp add: val_count_def new_map_def)
  moreover obtain m' where "set_val_at std_slice_utils [3] (7 :: nat) new_map = Ret (None, m')"
    using path_map_impl.put_spec[OF std_slice_utils_ok path_map_impl.inv_new, of "[3]" 7]
    by (auto simp: path_map_impl.get_new)
  ultimately show ?thesis
    using val_count_correct[OF std_slice_utils_ok path_map_impl.inv_new, where ?'a = nat] by fastforce
qed

end
