(* ===== verification/Trie_Paths.thy ===== *)
theory Trie_Paths
  imports Trie_Map_Laws
begin

text \<open>
  Which paths exist in a trie, beside the ones that have a value: \<open>has_path\<close> is the abstract
  predicate, and \<open>path_exists_at\<close> (\<open>src/trie_map.rs\<close>), which walks the nodes and asks the focus
  \<open>node_contains_partial_key\<close>, decides it.  The theory also proves the mutable reference
  \<open>get_val_mut_at\<close> hands out.
\<close>

subsection \<open>The paths of a trie\<close>

definition slot_path :: "('c \<Rightarrow> path \<Rightarrow> bool) \<Rightarrow> ('c, 'v) slot option \<Rightarrow> path \<Rightarrow> bool" where
  "slot_path D s q \<longleftrightarrow>
     (case s of
        None \<Rightarrow> False
      | Some (k, Val v) \<Rightarrow> prefix q k
      | Some (k, Child c) \<Rightarrow> prefix q k \<or> prefix k q \<and> D c (drop (length k) q))"

fun node_path :: "('v node \<Rightarrow> path \<Rightarrow> bool) \<Rightarrow> 'v node \<Rightarrow> path \<Rightarrow> bool" where
  "node_path D EmptyN q = (q = [])"
| "node_path D (ListN ln) q = (q = [] \<or> slot_path D (slot0 ln) q \<or> slot_path D (slot1 ln) q)"
| "node_path D (ByteN bn) q =
     (case q of
        [] \<Rightarrow> True
      | b # rest \<Rightarrow>
          (case bn_get bn b of
             None \<Rightarrow> False
           | Some cf \<Rightarrow> rest = [] \<or> (case cf_rec cf of Some c \<Rightarrow> D c rest | None \<Rightarrow> False)))"

lemma slot_path_cong:
  "(\<And>c q. c \<in> set (slot_children s) \<Longrightarrow> D c q = D' c q) \<Longrightarrow> slot_path D s q = slot_path D' s q"
  by (cases s rule: slot_children.cases) (auto simp: slot_path_def)

lemma node_path_cong [fundef_cong]:
  assumes "n = n'" "q = q'" "\<And>c p. c \<in> set (node_children n') \<Longrightarrow> D c p = D' c p"
  shows "node_path D n q = node_path D' n' q'"
proof (cases n')
  case (ListN ln)
  then show ?thesis
    using assms slot_path_cong[of "slot0 ln" D D' q'] slot_path_cong[of "slot1 ln" D D' q'] by simp
next
  case (ByteN bn)
  then show ?thesis
    using assms bn_get_child_mem[of bn]
    by (auto split: list.splits option.splits)
qed (use assms in simp)

text \<open>Whether a path exists in the trie, with or without a value at its end.\<close>

function has_path :: "'v node \<Rightarrow> path \<Rightarrow> bool" where
  "has_path n q = node_path has_path n q"
  by auto
termination
  by (relation "measure (\<lambda>(n, q). size n)") (auto dest: node_children_size)

declare has_path.simps [simp del]

lemma has_path_simps [simp]:
  "has_path EmptyN q = (q = [])"
  "has_path (ListN ln) q = (q = [] \<or> slot_path has_path (slot0 ln) q \<or> slot_path has_path (slot1 ln) q)"
  "has_path (ByteN bn) [] = True"
  "has_path (ByteN bn) (b # rest) =
     (case bn_get bn b of None \<Rightarrow> False
      | Some cf \<Rightarrow> rest = [] \<or> (case cf_rec cf of Some c \<Rightarrow> has_path c rest | None \<Rightarrow> False))"
  by (simp_all add: has_path.simps)

lemma slot_path_simps [simp]:
  "slot_path D None q = False"
  "slot_path D (Some (k, Val v)) q = prefix q k"
  "slot_path D (Some (k, Child c)) q = (prefix q k \<or> prefix k q \<and> D c (drop (length k) q))"
  by (simp_all add: slot_path_def)

lemma has_path_Nil [simp]: "has_path n []"
  by (cases n) auto

lemma has_path_prefix:
  "has_path n q \<Longrightarrow> prefix p q \<Longrightarrow> has_path n p"
proof (induction n arbitrary: p q rule: node_induct)
  case (node n)
  show ?case
  proof (cases n)
    case (ListN ln)
    have slot: "slot_path has_path s p" if "slot_path has_path s q" "set (slot_children s) \<subseteq> set (node_children n)" for s
    proof (cases s rule: slot_children.cases)
      case (1 k c)
      show ?thesis
      proof (cases "prefix p k")
        case False
        then have k: "prefix k p" "prefix k q"
          using that(1) node(3) 1 prefix_same_cases[of p q k] by (auto dest: prefix_order.trans)
        then have d: "prefix (drop (length k) p) (drop (length k) q)"
          using node(3) by (auto simp: prefix_def)
        have "has_path c (drop (length k) q)"
          using that(1) 1 False prefix_order.trans[OF node(3), of k] by auto
        then show ?thesis using node(1)[of c, OF _ _ d] that(2) k(1) 1 by auto
      qed (simp add: 1)
    qed (use that node(3) in \<open>auto dest: prefix_order.trans\<close>)
    have "set (slot_children (slot0 ln)) \<subseteq> set (node_children n)" "set (slot_children (slot1 ln)) \<subseteq> set (node_children n)"
      by (auto simp: ListN)
    then show ?thesis using slot node(2,3) by (auto simp: ListN)
  next
    case (ByteN bn)
    show ?thesis
    proof (cases p)
      case (Cons b r)
      then obtain r' where q: "q = b # r'" "prefix r r'" using node(3) by (cases q) auto
      then show ?thesis
        using node(1)[of _ r' r] node(2) Cons bn_get_child_mem[of bn b]
        by (auto simp: ByteN split: option.splits)
    qed simp
  qed (use node in simp)
qed

lemma den_has_path: "den n q \<noteq> None \<Longrightarrow> has_path n q"
proof (induction n arbitrary: q rule: node_induct)
  case (node n)
  show ?case
  proof (cases n)
    case (ListN ln)
    have slot: "slot_path has_path s q" if "slot_den den s q \<noteq> None" "set (slot_children s) \<subseteq> set (node_children n)" for s
      using that node(1) by (cases s rule: slot_children.cases) (auto split: if_splits)
    have "set (slot_children (slot0 ln)) \<subseteq> set (node_children n)" "set (slot_children (slot1 ln)) \<subseteq> set (node_children n)"
      by (auto simp: ListN)
    moreover have "slot_den den (slot0 ln) q \<noteq> None \<or> slot_den den (slot1 ln) q \<noteq> None"
      using node(2) by (auto simp: ListN ln_den_def or_else_opt_None_iff simp del: not_None_eq)
    ultimately show ?thesis using slot by (auto simp: ListN)
  next
    case (ByteN bn)
    then show ?thesis using node bn_get_child_mem[of bn]
      by (cases q) (auto simp: entry_den_def cf_den_def split: option.splits if_splits)
  qed (use node in simp)
qed

subsection \<open>Whether a path exists\<close>

lemma slot_of_two:
  assumes "wf_node (ListN ln)" "(k, Child c) \<in> slots_of ln" "(k', p') \<in> slots_of ln" "prefix k q" "prefix q k'"
  shows "k' = k \<or> q = k"
  using assms(1)
proof (cases rule: slots_cases)
  case (two k0 p0 k1 p1)
  have a: "apart k0 p0 k1 p1" using two by (intro wf_pair_apart)
  have "hd k = hd k'" using assms(4,5) wf_slot_elem[OF assms(1,2)] by (cases k; cases q; cases k') auto
  moreover have "length k' = 1 \<Longrightarrow> q = k'" "length q = 1 \<Longrightarrow> k = q"
    using assms(4,5) wf_slot_elem[OF assms(1,2)] by (cases k; cases q; cases k'; auto)+
  moreover have "x \<noteq> [] \<Longrightarrow> 1 < length x \<or> length x = 1" for x :: path by (cases x) auto
  ultimately show ?thesis
    using assms(2,3) a two(2,3) by (auto simp: two(1) apart_def leads_on_def)
qed (use assms in auto)

lemma has_path_descend:
  assumes "wf_node node" "node_get_child node key = Some (n, c)" "n \<le> length key" "key \<noteq> []"
  shows "has_path node key \<longleftrightarrow> has_path c (drop n key)"
proof (cases node)
  case (ListN ln)
  then have wf: "wf_node (ListN ln)" using assms(1) by simp
  obtain k where k: "(k, Child c) \<in> slots_of ln" "n = length k" "prefix k key"
    using assms(2) ListN ln_get_child_iff[OF wf] by auto
  have other: "k' = k \<or> key = k" if "(k', p') \<in> slots_of ln" "prefix key k'" for k' p'
    by (rule slot_of_two[OF wf k(1) that(1) k(3) that(2)])
  have "has_path node key \<longleftrightarrow> (\<exists>(k', p') \<in> slots_of ln. slot_path has_path (Some (k', p')) key)"
    using assms(4) by (cases "slot0 ln"; cases "slot1 ln")
      (simp_all add: ListN slots_of_def case_prod_beta disj_commute del: slot_path_simps(2,3))
  also have "\<dots> \<longleftrightarrow> has_path c (drop n key)"
  proof
    assume "\<exists>(k', p') \<in> slots_of ln. slot_path has_path (Some (k', p')) key"
    then obtain k' p' where s: "(k', p') \<in> slots_of ln" "slot_path has_path (Some (k', p')) key" by blast
    show "has_path c (drop n key)"
    proof (cases "prefix key k'")
      case True
      then have "key = k" using other[OF s(1) True] k(3) by (auto dest: prefix_order.antisym)
      then show ?thesis using k(2) by simp
    next
      case False
      then obtain c' where c': "p' = Child c'" "prefix k' key" "has_path c' (drop (length k') key)"
        using s(2) by (cases p') auto
      then show ?thesis using ln_link_unique[OF wf k(1) _ k(3) c'(2)] s(1) k(2) by blast
    qed
  next
    assume "has_path c (drop n key)"
    then have "slot_path has_path (Some (k, Child c)) key" using k by simp
    then show "\<exists>(k', p') \<in> slots_of ln. slot_path has_path (Some (k', p')) key" using k(1) by blast
  qed
  finally show ?thesis .
next
  case (ByteN bn)
  then obtain cf where "bn_get bn (hd key) = Some cf" "cf_rec cf = Some c" "n = 1"
    using assms(2) by (auto simp: bn_get_child_def split: option.splits)
  then show ?thesis using assms(4) by (cases key) (auto simp: ByteN)
qed (use assms in simp)

lemma contains_partial_key_here:
  assumes "slice_utils_ok S" "wf_node node" "key \<noteq> []" "node_get_child node key = None"
  shows "node_contains_partial_key S node key \<longleftrightarrow> has_path node key"
proof (cases node)
  case (ListN ln)
  then have wf: "wf_node (ListN ln)" using assms(2) by simp
  have no: "\<not> prefix k key" if "(k, Child c) \<in> slots_of ln" for k c
    using assms(4) ListN ln_get_child_iff[OF wf, of key "length k" c] that by auto
  have "prefix key (slot_key s) \<longleftrightarrow> slot_path has_path s key" if "s \<in> {slot0 ln, slot1 ln}" for s
  proof (cases s)
    case (Some e)
    obtain k p where e: "e = (k, p)" by (cases e)
    have "(k, p) \<in> slots_of ln" using that Some e by (auto simp: slots_of_def)
    then show ?thesis using no[of k] by (cases p) (auto simp: Some e)
  qed (use assms(3) in simp)
  from this[of "slot0 ln"] this[of "slot1 ln"] show ?thesis
    using assms(1,3) by (simp add: ListN ln_contains_partial_key_def get_both_keys_def)
next
  case (ByteN bn)
  obtain b r where key: "key = b # r" using assms(3) by (cases key) auto
  obtain m cfs where bn: "bn = BN m cfs" by (cases bn)
  have ok: "bn_ok (BN m cfs)" using assms(2) by (simp add: ByteN bn)
  have "test_bit m b \<longleftrightarrow> bn_get bn b \<noteq> None" by (simp add: bn bn_get_alt[OF ok] test_bit_mbit)
  then show ?thesis
    using assms(4) by (auto simp: ByteN key bn_contains_partial_key_def bn_get_child_def bn split: option.splits)
qed (use assms in simp)

lemma node_along_path_paths:
  assumes "wf_node node" "key \<noteq> []" "node_along_path node key val False = (node', key', val')"
  shows "if key' = [] then has_path node key else has_path node key = has_path node' key'"
  using assms
proof (induction node key val False arbitrary: node' rule: node_along_path.induct)
  case (1 node key val)
  show ?case
  proof (cases "node_get_child node key")
    case None
    then show ?thesis using 1 by (simp add: node_along_path.simps[of node])
  next
    case (Some r)
    then obtain n c where g: "node_get_child node key = Some (n, c)" by (cases r) auto
    note b = node_get_child_bounds[OF 1(2,3) g]
    have p: "has_path node key \<longleftrightarrow> has_path c (drop n key)"
      using b by (intro has_path_descend[OF 1(2) g _ 1(3)]) simp
    show ?thesis
    proof (cases "n < length key")
      case True
      have ne: "length key \<noteq> 0" using 1(3) by simp
      have "drop n key \<noteq> []" using True by simp
      with 1(1)[OF ne g refl True _ _, of node'] b 1(4) True ne p
      show ?thesis by (simp add: node_along_path.simps[of node] g)
    next
      case False
      then show ?thesis using 1(3,4) g p b by (auto simp: node_along_path.simps[of node])
    qed
  qed
qed

definition map_has_path :: "'v path_map \<Rightarrow> path \<Rightarrow> bool" where
  "map_has_path m p \<longleftrightarrow> p = [] \<or> (\<exists>r. root m = Some r \<and> has_path r p)"

text \<open>C5: \<open>path_exists_at\<close> answers whether the path exists in the trie; every prefix of an existing path
  exists, and so does every path with a value.\<close>

theorem path_exists_at_correct:
  assumes "slice_utils_ok S" "wf_map m"
  shows "(path_exists_at S m p \<longleftrightarrow> map_has_path m p) \<and>
    (\<forall>q. prefix p q \<and> (path_exists_at S m q \<or> contains m q) \<longrightarrow> path_exists_at S m p)"
proof -
  have ex: "path_exists_at S m p \<longleftrightarrow> map_has_path m p" for p
  proof (cases "p = []")
    case True
    then show ?thesis
      by (simp add: path_exists_at_def map_has_path_def read_zipper_at_borrowed_path_def zipper_at_def node_along_path.simps)
  next
    case False
    obtain node key val where w: "node_along_path (get_or_init_root m) p None False = (node, key, val)"
      by (metis prod_cases3)
    note r = get_or_init_root_spec[OF assms(2)]
    have root: "has_path (get_or_init_root m) p \<longleftrightarrow> map_has_path m p"
      using False by (cases "root m") (simp_all add: get_or_init_root_def ensure_root_def map_has_path_def new_list_node_def)
    have v: "wf_node node" "key \<noteq> [] \<Longrightarrow> node_get_child node key = None"
      using node_along_path_val[OF _ False w] r by auto
    have z: "read_zipper_at_borrowed_path m p = (node, key, val)"
      using v(2) False by (auto simp: read_zipper_at_borrowed_path_def zipper_at_def w)
    show ?thesis
      using node_along_path_paths[OF _ False w] r root v contains_partial_key_here[OF assms(1) v(1)]
      by (auto simp: path_exists_at_def z split: if_splits)
  qed
  have "map_has_path m p" if "prefix p q" "map_has_path m q \<or> contains m q" for q
  proof -
    have "map_has_path m q"
    proof (rule disjE[OF that(2)])
      assume "contains m q"
      then show ?thesis using val_at_den[OF assms(2), of q]
        by (auto simp: map_has_path_def map_den_def split: if_splits option.splits intro!: den_has_path)
    qed
    then show ?thesis using that(1) has_path_prefix by (auto simp: map_has_path_def)
  qed
  then show ?thesis using ex by blast
qed

theorem path_exists_at_correct_witness:
  "path_exists_at std_slice_utils \<lparr>root = Some (ListN (LN (Some ([1, 2], Val (7 :: nat))) None)), root_val = None\<rparr> [1]"
proof -
  have "wf_map \<lparr>root = Some (ListN (LN (Some ([1, 2], Val (7 :: nat))) None)), root_val = None\<rparr>"
    by (simp add: wf_map_def KEY_BYTES_CNT_def)
  from path_exists_at_correct[OF std_slice_utils_ok this, of "[1]"] show ?thesis by (simp add: map_has_path_def)
qed

subsection \<open>Mutable references to values\<close>

lemma rewrite_value:
  assumes "wf_node (ListN (LN s0 s1))"
  shows "s0 = Some (k, Val v) \<Longrightarrow> wf_node (ListN (LN (Some (k, Val w)) s1)) \<and>
      ln_den den (LN (Some (k, Val w)) s1) = (ln_den den (LN s0 s1))(k \<mapsto> w)"
    and "s1 = Some (k, Val v) \<Longrightarrow> wf_node (ListN (LN s0 (Some (k, Val w)))) \<and>
      ln_den den (LN s0 (Some (k, Val w))) = (ln_den den (LN s0 s1))(k \<mapsto> w)"
proof -
  let ?A = "LN (Some (k, Val w)) s1" and ?B = "LN s0 (Some (k, Val w))"
  { assume s: "s0 = Some (k, Val v)"
    have wf: "wf_node (ListN ?A)" using assms by (cases s1) (auto simp: s wf_pair_def)
    have "ln_den den ?A k = Some w" using ln_den_covered[OF wf, of k "Val w" k] by (simp add: covers_def)
    then show "wf_node (ListN ?A) \<and> ln_den den ?A = (ln_den den (LN s0 s1))(k \<mapsto> w)"
      using wf by (auto simp: s fun_eq_iff) }
  { assume s: "s1 = Some (k, Val v)"
    have wf: "wf_node (ListN ?B)" using assms by (cases s0) (auto simp: s wf_pair_def)
    have "ln_den den ?B k = Some w" using ln_den_covered[OF wf, of k "Val w" k] by (simp add: covers_def)
    then show "wf_node (ListN ?B) \<and> ln_den den ?B = (ln_den den (LN s0 s1))(k \<mapsto> w)"
      using wf by (auto simp: s fun_eq_iff) }
qed

lemma node_get_val_mut_spec:
  assumes "wf_node node" "node \<noteq> EmptyN" "key \<noteq> []"
  shows "\<exists>r. node_get_val_mut node key = Ret r \<and>
    (case r of
       None \<Rightarrow> node_get_val node key = None
     | Some (v, write) \<Rightarrow> node_get_val node key = Some v \<and>
         (\<forall>w. wf_node (write w) \<and> write w \<noteq> EmptyN \<and> den (write w) = (den node)(key \<mapsto> w)))"
proof (cases node)
  case (ListN ln)
  obtain s0 s1 where ln: "ln = LN s0 s1" by (cases ln)
  have wf: "wf_node (ListN (LN s0 s1))" using assms(1) by (simp add: ListN ln)
  have h: "holds_exact s False key \<longleftrightarrow> (\<exists>v. s = Some (key, Val v))" for s :: "('v node, 'v) slot option"
    by (cases s; cases "snd (the s)") (auto simp: holds_exact_def)
  have dl: "den (ListN l) = ln_den den l" for l :: "'v lnode" by (simp add: fun_eq_iff)
  have he: "holds_exact (Some (key, Val v)) False key" for v by (simp add: holds_exact_def)
  have none: "slot_val_at s key = None" if "\<not> holds_exact s False key" for s :: "('v node, 'v) slot option"
    using that h[of s] slot_val_at_iff[of s key] by (cases "slot_val_at s key") auto
  consider (0) v where "s0 = Some (key, Val v)" | (1) v where "\<not> holds_exact s0 False key" "s1 = Some (key, Val v)"
    | (2) "\<not> holds_exact s0 False key" "\<not> holds_exact s1 False key"
  proof (cases "holds_exact s0 False key")
    case True
    then obtain v where "s0 = Some (key, Val v)" using h[of s0] by auto
    then show thesis by (rule that(1))
  next
    case no0: False
    show thesis
    proof (cases "holds_exact s1 False key")
      case True
      then obtain v where "s1 = Some (key, Val v)" using h[of s1] by auto
      with no0 show thesis by (rule that(2))
    qed (use no0 in \<open>rule that(3)\<close>)
  qed
  then show ?thesis
  proof cases
    case 0
    have "ln_get_val ln key = Some v" by (simp add: ln 0 ln_get_val_def)
    then have g: "node_get_val node key = Some v" by (simp add: ListN)
    have m: "node_get_val_mut node key = Ret (Some (v, \<lambda>w. ListN (LN (Some (key, Val w)) s1)))"
      by (simp add: ListN ln 0 he)
    show ?thesis unfolding m using g rewrite_value(1)[OF wf 0] by (simp add: dl ListN ln del: wf_node_simps)
  next
    case 1
    have "slot_val_at s0 key = None" by (rule none[OF 1(1)])
    then have "ln_get_val ln key = Some v" by (simp add: ln 1(2) ln_get_val_def)
    then have g: "node_get_val node key = Some v" by (simp add: ListN)
    have m: "node_get_val_mut node key = Ret (Some (v, \<lambda>w. ListN (LN s0 (Some (key, Val w)))))"
      using 1 he by (simp add: ListN ln)
    show ?thesis unfolding m using g rewrite_value(2)[OF wf 1(2)] by (simp add: dl ListN ln del: wf_node_simps)
  next
    case 2
    have "slot_val_at s0 key = None" "slot_val_at s1 key = None"
      by (rule none[OF 2(1)], rule none[OF 2(2)])
    then show ?thesis using 2 by (simp add: ListN ln ln_get_val_def)
  qed
next
  case (ByteN bn)
  obtain b rest where key: "key = b # rest" using assms(3) by (cases key) auto
  have ok: "bn_ok bn" using assms(1) by (simp add: ByteN)
  show ?thesis
  proof (cases "rest = [] \<and> bn_val bn b \<noteq> None")
    case False
    then show ?thesis by (auto simp: ByteN key bn_val_def bn_get_val_def split: option.splits)
  next
    case True
    then obtain cf v where cf: "bn_get bn b = Some cf" "cf_val cf = Some v"
      by (auto simp: bn_val_def bind_eq_Some_conv)
    let ?bn = "\<lambda>w. bn_replace b (CoFree (cf_rec cf) (Some w)) bn"
    have ne: "bn_get bn b \<noteq> None" using cf by simp
    note e = replace_entry[OF ok ne]
    have "den (ByteN (?bn w)) = (den (ByteN bn))([b] \<mapsto> w)" for w
      using bn_get_Some[OF cf(1)] by (intro bn_den_eqI) (auto simp: entry_den_alt e)
    moreover have "wf_node (ByteN (?bn w))" for w
      using assms(1) bn_get_Some[OF cf(1)] unfolding ByteN wf_byte_entries by (auto simp: e)
    ultimately show ?thesis using True cf
      by (simp add: ByteN key bn_get_val_def del: wf_node_simps den_simps)
  qed
qed (use assms in simp)

text \<open>C6: \<open>get_val_mut_at\<close> gives a reference exactly where the map has a value; it reads that value, and
  a value written through it changes the map there and nowhere else.\<close>

theorem get_val_mut_at_correct:
  assumes "wf_map m"
  shows "\<exists>r. get_val_mut_at m p = Ret r \<and>
    (case r of
       None \<Rightarrow> val_at m p = None
     | Some (v, write) \<Rightarrow> val_at m p = Some v \<and>
         (\<forall>w. wf_map (write w) \<and> val_at (write w) = (val_at m)(p \<mapsto> w)))"
proof (cases "p = []")
  case True
  let ?w = "\<lambda>w. m\<lparr>root_val := Some w\<rparr>"
  have wf: "wf_map (?w w)" and d: "map_den (?w w) = (map_den m)([] \<mapsto> w)" for w
    using assms by (auto simp: wf_map_def map_den_def fun_eq_iff)
  have v: "val_at m = map_den m" "val_at (?w w) = (map_den m)([] \<mapsto> w)" for w
    using val_at_den[OF assms] val_at_den[OF wf] by (auto simp: d)
  have r: "map_den m [] = root_val m" by (simp add: map_den_def)
  show ?thesis by (cases "root_val m") (simp_all add: get_val_mut_at_def True v wf r)
next
  case False
  let ?r = "get_or_init_root m"
  note r = get_or_init_root_spec[OF assms]
  obtain pre key n put where w: "node_along_path_mut ?r p True = Ret (key, n, put)" "p = pre @ key" "key \<noteq> []"
    "mut_focus ?r pre n put" "walk_ends n key"
    using node_along_path_mut_focus[of ?r p] r False by blast
  have n: "wf_node n" "n \<noteq> EmptyN" using w(4) by (auto simp: mut_focus_def)
  have here: "node_get_val n key = den n key"
    using w(5) by (intro node_here[OF n(1) w(3)]) (auto simp: walk_ends_def)
  have vp: "den n key = val_at m p" using mut_focus_read[OF assms w(4,3)] val_at_den[OF assms] w(2) by simp
  obtain res where res: "node_get_val_mut n key = Ret res" "case res of
       None \<Rightarrow> node_get_val n key = None
     | Some (v, write) \<Rightarrow> node_get_val n key = Some v \<and>
         (\<forall>w. wf_node (write w) \<and> write w \<noteq> EmptyN \<and> den (write w) = (den n)(key \<mapsto> w))"
    using node_get_val_mut_spec[OF n w(3)] by blast
  show ?thesis
  proof (cases res)
    case None
    then show ?thesis using False w(1) res here vp by (auto simp: get_val_mut_at_def)
  next
    case (Some e)
    obtain v f where e: "e = (v, f)" by (cases e)
    have wr: "wf_node (f w)" "f w \<noteq> EmptyN" "den (f w) = (den n)(key \<mapsto> w)" for w
      using res(2) by (auto simp: Some e)
    have "wf_map (m\<lparr>root := Some (put (f w'))\<rparr>) \<and> val_at (m\<lparr>root := Some (put (f w'))\<rparr>) = (val_at m)(p \<mapsto> w')" for w'
      using mut_focus_update[OF assms w(4,3) wr] val_at_den assms unfolding w(2) by (metis ext)
    then show ?thesis using False w(1) res here vp by (auto simp: get_val_mut_at_def Some e)
  qed
qed

theorem get_val_mut_at_correct_witness:
  "\<exists>v f. get_val_mut_at \<lparr>root = Some (ListN (LN (Some ([1, 2], Val (7 :: nat))) None)), root_val = None\<rparr> [1, 2] =
      Ret (Some (v, f)) \<and> v = 7 \<and> val_at (f 9) [1, 2] = Some 9"
proof -
  let ?m = "\<lparr>root = Some (ListN (LN (Some ([1, 2], Val (7 :: nat))) None)), root_val = None\<rparr>"
  have wf: "wf_map ?m" by (simp add: wf_map_def KEY_BYTES_CNT_def)
  have v: "val_at ?m [1, 2] = Some 7"
    using val_at_den[OF wf, of "[1, 2]"] by (simp add: map_den_def ln_den_def slot_den_def)
  from get_val_mut_at_correct[OF wf, of "[1, 2]"] obtain r where
    r: "get_val_mut_at ?m [1, 2] = Ret r" "case r of None \<Rightarrow> val_at ?m [1, 2] = None
      | Some (v, f) \<Rightarrow> val_at ?m [1, 2] = Some v \<and> (\<forall>w. wf_map (f w) \<and> val_at (f w) = (val_at ?m)([1, 2] \<mapsto> w))"
    by blast
  then show ?thesis unfolding v by (auto split: option.splits)
qed

end
