(* ===== verification/Node_Subtract.thy ===== *)
theory Node_Subtract
  imports Trie_Paths Ring_Laws
begin

text \<open>
  The two operations of the lattice layer that do not commute: subtraction (\<open>psubtract\<close>) and
  restriction (\<open>prestrict\<close>), for list nodes (\<open>src/line_list_node.rs\<close>), byte nodes and their entries
  (\<open>src/dense_byte_node.rs\<close>), node pointers (\<open>src/trie_node.rs\<close>) and maps (\<open>src/trie_map.rs\<close>).  The
  value type's own subtraction is the argument \<open>psub\<close>; \<open>peq\<close> is \<open>TrieNodeODRc::ptr_eq\<close>, of which the
  model only knows that equal pointers lead to equal nodes.  The operations on the parts of a node
  take the operation on the children as the argument \<open>P\<close>; the knot is tied at the end.
\<close>

subsection \<open>Following a path\<close>

fun node_first_val_depth_along_key :: "slice_utils \<Rightarrow> 'v node \<Rightarrow> path \<Rightarrow> nat option" where
  "node_first_val_depth_along_key S EmptyN key = None"
| "node_first_val_depth_along_key S (ListN ln) key = ln_first_val_depth_along_key S ln key"
| "node_first_val_depth_along_key S (ByteN bn) key = bn_first_val_depth_along_key bn key"

fun node_get_node_at_key :: "slice_utils \<Rightarrow> 'v node \<Rightarrow> path \<Rightarrow> 'v node_ref" where
  "node_get_node_at_key S EmptyN key = RefNone"
| "node_get_node_at_key S (ListN ln) key = ln_get_node_at_key S ln key"
| "node_get_node_at_key S (ByteN bn) key = bn_get_node_at_key bn key"

text \<open>\<open>AbstractNodeRef::try_as_tagged\<close>: unlike \<open>into_option\<close> it hands out an empty node, too.\<close>

fun ref_try_as_tagged :: "'v node_ref \<Rightarrow> 'v node option" where
  "ref_try_as_tagged RefNone = None"
| "ref_try_as_tagged (BorrowedDyn n) = Some n"
| "ref_try_as_tagged (BorrowedRc n) = Some n"
| "ref_try_as_tagged (BorrowedTiny k p) = Some (ListN (set_payload_0 k p new_list_node))"
| "ref_try_as_tagged (OwnedRc n) = Some n"

function follow_path :: "slice_utils \<Rightarrow> 'v node \<Rightarrow> path \<Rightarrow> (path \<times> 'v node) option" where
  "follow_path S node key =
     (case node_get_child node key of
        Some (consumed_byte_cnt, next_node) \<Rightarrow>
          if consumed_byte_cnt < length key then follow_path S next_node (drop consumed_byte_cnt key)
          else Some (key, node)
      | None \<Rightarrow> if node_contains_partial_key S node key then Some (key, node) else None)"
  by pat_completeness auto
termination
  by (relation "measure (\<lambda>(S, node, _). size node)") (auto dest: node_get_child_size)

declare follow_path.simps [simp del]

function follow_path_to_value :: "slice_utils \<Rightarrow> 'v node \<Rightarrow> path \<Rightarrow> bool \<times> (path \<times> 'v node) option" where
  "follow_path_to_value S node key =
     (if node_first_val_depth_along_key S node key \<noteq> None then (True, None)
      else
        (case node_get_child node key of
           Some (consumed_byte_cnt, next_node) \<Rightarrow>
             if consumed_byte_cnt < length key then follow_path_to_value S next_node (drop consumed_byte_cnt key)
             else (False, Some (key, node))
         | None \<Rightarrow> (False, if node_contains_partial_key S node key then Some (key, node) else None)))"
  by pat_completeness auto
termination
  by (relation "measure (\<lambda>(S, node, _). size node)") (auto dest: node_get_child_size)

declare follow_path_to_value.simps [simp del]

subsection \<open>List nodes\<close>

text \<open>The new payload goes under the key, and with the child flag, of the slot it replaces.\<close>

definition clone_with_updated_payloads ::
  "'v voc option \<Rightarrow> 'v voc option \<Rightarrow> 'v lnode \<Rightarrow> 'v lnode option" where
  "clone_with_updated_payloads payload_0 payload_1 ln =
     (let (key0, key1) = get_both_keys ln in
      case (payload_0, payload_1) of
        (Some p0, Some p1) \<Rightarrow> Some (set_payload_1 key1 p1 (set_payload_0 key0 p0 new_list_node))
      | (Some p0, None) \<Rightarrow> Some (set_payload_0 key0 p0 new_list_node)
      | (None, Some p1) \<Rightarrow> Some (set_payload_0 key1 p1 new_list_node)
      | (None, None) \<Rightarrow> None)"

definition clone_payload :: "('c, 'v) slot option \<Rightarrow> ('c, 'v) val_or_child option" where
  "clone_payload s = map_option snd s"

definition subtract_from_slot_contents ::
  "('v node \<Rightarrow> 'v node \<Rightarrow> 'v node algebraic_result) \<Rightarrow> ('v \<Rightarrow> 'v \<Rightarrow> 'v algebraic_result) \<Rightarrow> slice_utils \<Rightarrow>
   ('v node, 'v) slot option \<Rightarrow> 'v node \<Rightarrow> 'v voc algebraic_result" where
  "subtract_from_slot_contents P psub S slot other =
     (case slot of
        None \<Rightarrow> RNone
      | Some (key, payload) \<Rightarrow>
          (case follow_path S other key of
             None \<Rightarrow> Identity SELF_IDENT
           | Some (onward_key, onward_node) \<Rightarrow>
               (case payload of
                  Child self_onward_link \<Rightarrow>
                    if length onward_key = 0 then Ring.map_result Child (P self_onward_link onward_node)
                    else if node_is_empty self_onward_link then RNone
                    else (case ref_into_option (node_get_node_at_key S onward_node onward_key) of
                            Some other_onward_node \<Rightarrow> Ring.map_result Child (P self_onward_link other_onward_node)
                          | None \<Rightarrow> Identity SELF_IDENT)
                | Val self_val \<Rightarrow>
                    (case node_get_val onward_node onward_key of
                       Some other_val \<Rightarrow> Ring.map_result Val (psub self_val other_val)
                     | None \<Rightarrow> Identity SELF_IDENT))))"

definition restrict_slot_contents ::
  "('v node \<Rightarrow> 'v node \<Rightarrow> 'v node algebraic_result) \<Rightarrow> slice_utils \<Rightarrow>
   ('v node, 'v) slot option \<Rightarrow> 'v node \<Rightarrow> 'v voc algebraic_result" where
  "restrict_slot_contents P S slot other =
     (case slot of
        None \<Rightarrow> RNone
      | Some (key, payload) \<Rightarrow>
          (case follow_path_to_value S other key of
             (True, _) \<Rightarrow> Identity SELF_IDENT
           | (False, None) \<Rightarrow> RNone
           | (False, Some (onward_key, onward_node)) \<Rightarrow>
               (case payload of
                  Child self_onward_link \<Rightarrow>
                    Ring.map_result Child
                      (if length onward_key = 0 then P self_onward_link onward_node
                       else (case ref_into_option (node_get_node_at_key S onward_node onward_key) of
                               Some other_onward_node \<Rightarrow> P self_onward_link other_onward_node
                             | None \<Rightarrow> RNone))
                | Val self_val \<Rightarrow> RNone)))"

text \<open>The last case unwraps the new node: \<open>the\<close> is only reached on \<open>Some\<close> (lemma
  \<open>combine_slot_results_stands\<close> in \<open>Subtract_List\<close>).\<close>

definition combine_slot_results_into_node_result ::
  "'v lnode \<Rightarrow> 'v voc algebraic_result \<Rightarrow> 'v voc algebraic_result \<Rightarrow> 'v node algebraic_result" where
  "combine_slot_results_into_node_result ln slot0_result slot1_result =
     (let rebuild = (\<lambda>p0 p1. Element (ListN (the (clone_with_updated_payloads p0 p1 ln)))) in
      case (slot0_result, slot1_result) of
        (Identity mask0, Identity mask1) \<Rightarrow> Identity SELF_IDENT
      | (RNone, RNone) \<Rightarrow> RNone
      | (Identity m, RNone) \<Rightarrow>
          if \<not> is_used (slot1 ln) then Identity SELF_IDENT
          else rebuild (clone_payload (slot0 ln)) None
      | (e0, e1) \<Rightarrow>
          rebuild (map_into_option e0 (\<lambda>_. clone_payload (slot0 ln)))
            (map_into_option e1 (\<lambda>_. clone_payload (slot1 ln))))"

subsection \<open>Entries of byte nodes\<close>

definition combine_algebraic_results ::
  "('v node, 'v) cofree \<Rightarrow> ('v node, 'v) cofree \<Rightarrow>
   'v node option algebraic_result \<Rightarrow> 'v option algebraic_result \<Rightarrow> ('v node, 'v) cofree algebraic_result" where
  "combine_algebraic_results self other rec val =
     (let rec_of = (\<lambda>m. if 0 < m AND SELF_IDENT then cf_rec self else cf_rec other);
          val_of = (\<lambda>m. if 0 < m AND SELF_IDENT then cf_val self else cf_val other)
      in case (rec, val) of
        (RNone, RNone) \<Rightarrow> RNone
      | (Identity rec_mask, Identity val_mask) \<Rightarrow>
          (let new_mask = rec_mask AND val_mask
           in if 0 < new_mask then Identity new_mask
              else Element (CoFree (rec_of rec_mask) (val_of val_mask)))
      | (RNone, Identity val_mask) \<Rightarrow>
          (let mask1 = (if cf_rec self \<noteq> None then val_mask AND NOT SELF_IDENT else val_mask);
               new_mask = (if cf_rec other \<noteq> None then mask1 AND NOT COUNTER_IDENT else mask1)
           in if 0 < new_mask then Identity new_mask else Element (CoFree None (val_of val_mask)))
      | (Identity rec_mask, RNone) \<Rightarrow>
          (let mask1 = (if cf_val self \<noteq> None then rec_mask AND NOT SELF_IDENT else rec_mask);
               new_mask = (if cf_val other \<noteq> None then mask1 AND NOT COUNTER_IDENT else mask1)
           in if 0 < new_mask then Identity new_mask else Element (CoFree (rec_of rec_mask) None))
      | (rec_el, val_el) \<Rightarrow>
          Element (CoFree
            (map_into_option (flatten_result rec_el) (\<lambda>i. if i = 0 then cf_rec self else cf_rec other))
            (map_into_option (flatten_result val_el) (\<lambda>i. if i = 0 then cf_val self else cf_val other))))"

text \<open>\<open>HeteroDistributiveLattice::psubtract\<close> and \<open>HeteroQuantale::prestrict\<close> on entries.\<close>

definition odrc_psubtract ::
  "('v node \<Rightarrow> 'v node \<Rightarrow> bool) \<Rightarrow> ('v node \<Rightarrow> 'v node \<Rightarrow> 'v node algebraic_result) \<Rightarrow>
   'v node \<Rightarrow> 'v node \<Rightarrow> 'v node algebraic_result" where
  "odrc_psubtract peq P self other = (if peq self other then RNone else P self other)"

definition cf_psubtract ::
  "('v node \<Rightarrow> 'v node \<Rightarrow> bool) \<Rightarrow> ('v node \<Rightarrow> 'v node \<Rightarrow> 'v node algebraic_result) \<Rightarrow>
   ('v \<Rightarrow> 'v \<Rightarrow> 'v algebraic_result) \<Rightarrow> ('v node, 'v) cofree \<Rightarrow> ('v node, 'v) cofree \<Rightarrow>
   ('v node, 'v) cofree algebraic_result" where
  "cf_psubtract peq P psub self other =
     (let self_rec = (case cf_rec self of Some child \<Rightarrow> if node_is_empty child then None else Some child | None \<Rightarrow> None);
          rec = option_psubtract (odrc_psubtract peq P) self_rec (cf_rec other);
          val = option_psubtract psub (cf_val self) (cf_val other)
      in combine_algebraic_results self other rec val)"

definition cf_prestrict ::
  "('v node \<Rightarrow> 'v node \<Rightarrow> 'v node algebraic_result) \<Rightarrow> ('v node, 'v) cofree \<Rightarrow> ('v node, 'v) cofree \<Rightarrow>
   ('v node, 'v) cofree algebraic_result" where
  "cf_prestrict P self other =
     (if cf_has_val other then Identity SELF_IDENT
      else
        (case (cf_rec self, cf_rec other) of
           (Some l, Some r) \<Rightarrow>
             (case P l r of
                Identity m \<Rightarrow>
                  if cf_has_val self then Element (CoFree (Some l) None) else Identity SELF_IDENT
              | RNone \<Rightarrow> RNone
              | Element node \<Rightarrow> Element (CoFree (Some node) None))
         | _ \<Rightarrow> RNone))"

subsection \<open>Byte nodes against a node of another kind\<close>

text \<open>\<open>mask.set_bit(k); values.push(cf)\<close>.\<close>

definition bn_push :: "u8 \<Rightarrow> ('c, 'v) cofree \<Rightarrow> ('c, 'v) byte_node \<Rightarrow> ('c, 'v) byte_node" where
  "bn_push k cf bn = BN (set_bit (bn_mask bn) k) (bn_values bn @ [cf])"

text \<open>The two fields of the new entry, each with whether it is still the old one.\<close>

definition subtract_entry_val ::
  "('v \<Rightarrow> 'v \<Rightarrow> 'v algebraic_result) \<Rightarrow> 'v option \<Rightarrow> 'v option \<Rightarrow> bool \<times> 'v option" where
  "subtract_entry_val psub self_val other_val =
     (case self_val of
        None \<Rightarrow> (True, None)
      | Some v \<Rightarrow>
          (case other_val of
             None \<Rightarrow> (True, Some v)
           | Some w \<Rightarrow>
               (case psub v w of
                  RNone \<Rightarrow> (False, None)
                | Identity m \<Rightarrow> (True, Some v)
                | Element e \<Rightarrow> (False, Some e))))"

definition subtract_entry_rec ::
  "('v node \<Rightarrow> 'v node \<Rightarrow> 'v node algebraic_result) \<Rightarrow> 'v node option \<Rightarrow> 'v node option \<Rightarrow> bool \<times> 'v node option" where
  "subtract_entry_rec P self_rec other_child =
     (case self_rec of
        None \<Rightarrow> (True, None)
      | Some c \<Rightarrow>
          if node_is_empty c then (True, None)
          else
            (case other_child of
               None \<Rightarrow> (True, Some c)
             | Some oc \<Rightarrow>
                 (case P c oc of
                    RNone \<Rightarrow> (False, None)
                  | Identity m \<Rightarrow> (True, Some c)
                  | Element e \<Rightarrow> (False, Some e))))"

text \<open>The closure of \<open>for_each_item\<close>; its state is \<open>is_ident\<close> and \<open>new_node\<close>.\<close>

definition subtract_item ::
  "('v node \<Rightarrow> 'v node \<Rightarrow> 'v node algebraic_result) \<Rightarrow> ('v \<Rightarrow> 'v \<Rightarrow> 'v algebraic_result) \<Rightarrow> slice_utils \<Rightarrow>
   'v bnode \<Rightarrow> 'v node \<Rightarrow> u8 \<times> nat \<Rightarrow> bool \<times> 'v bnode \<Rightarrow> bool \<times> 'v bnode" where
  "subtract_item P psub S self other item st =
     (case (item, st) of
        ((key_byte, cf_idx), (is_ident, new_node)) \<Rightarrow>
          let cf = bn_values self ! cf_idx in
          if node_contains_partial_key S other [key_byte] then
            let (val_same, new_val) = subtract_entry_val psub (cf_val cf) (node_get_val other [key_byte]);
                (rec_same, new_rec) = subtract_entry_rec P (cf_rec cf)
                  (ref_try_as_tagged (node_get_node_at_key S other [key_byte]));
                is_ident' = (is_ident \<and> val_same \<and> rec_same);
                new_cf = CoFree new_rec new_val
            in if cf_has_rec new_cf \<or> cf_has_val new_cf then (is_ident', bn_push key_byte new_cf new_node)
               else (False, new_node)
          else (is_ident, bn_push key_byte cf new_node))"

text \<open>Both loops end the same way.\<close>

definition byte_node_result :: "bool \<times> 'v bnode \<Rightarrow> 'v node algebraic_result" where
  "byte_node_result st =
     (case st of
        (is_ident, new_node) \<Rightarrow>
          if is_empty_mask (bn_mask new_node) then RNone
          else if is_ident then Identity SELF_IDENT
          else Element (ByteN new_node))"

definition psubtract_abstract ::
  "('v node \<Rightarrow> 'v node \<Rightarrow> 'v node algebraic_result) \<Rightarrow> ('v \<Rightarrow> 'v \<Rightarrow> 'v algebraic_result) \<Rightarrow> slice_utils \<Rightarrow>
   'v bnode \<Rightarrow> 'v node \<Rightarrow> 'v node algebraic_result" where
  "psubtract_abstract P psub S self other =
     byte_node_result (fold (subtract_item P psub S self other) (for_each_item self) (True, new_byte_node))"

definition restrict_item ::
  "('v node \<Rightarrow> 'v node \<Rightarrow> 'v node algebraic_result) \<Rightarrow> slice_utils \<Rightarrow>
   'v bnode \<Rightarrow> 'v node \<Rightarrow> u8 \<times> nat \<Rightarrow> bool \<times> 'v bnode \<Rightarrow> bool \<times> 'v bnode" where
  "restrict_item P S self other item st =
     (case (item, st) of
        ((key_byte, cf_idx), (is_ident, new_node)) \<Rightarrow>
          let cf = bn_values self ! cf_idx in
          if node_contains_partial_key S other [key_byte] then
            if node_get_val other [key_byte] \<noteq> None then (is_ident, bn_push key_byte cf new_node)
            else
              let is_ident1 = (is_ident \<and> cf_val cf = None) in
              (case cf_rec cf of
                 None \<Rightarrow> (False, new_node)
               | Some self_child \<Rightarrow>
                   (case ref_try_as_tagged (node_get_node_at_key S other [key_byte]) of
                      None \<Rightarrow> (False, new_node)
                    | Some other_child \<Rightarrow>
                        (case P self_child other_child of
                           RNone \<Rightarrow> (False, new_node)
                         | Identity m \<Rightarrow> (is_ident1, bn_push key_byte (CoFree (Some self_child) None) new_node)
                         | Element e \<Rightarrow> (False, bn_push key_byte (CoFree (Some e) None) new_node))))
          else (False, new_node))"

definition prestrict_abstract ::
  "('v node \<Rightarrow> 'v node \<Rightarrow> 'v node algebraic_result) \<Rightarrow> slice_utils \<Rightarrow> 'v bnode \<Rightarrow> 'v node \<Rightarrow> 'v node algebraic_result" where
  "prestrict_abstract P S self other =
     byte_node_result (fold (restrict_item P S self other) (for_each_item self) (True, new_byte_node))"

subsection \<open>Byte nodes against byte nodes\<close>

text \<open>The body of \<open>ByteNode::psubtract\<close>; \<open>get_unchecked\<close> reads an entry whose bit is set.\<close>

definition bn_psubtract_bit ::
  "(('v node, 'v) cofree \<Rightarrow> ('v node, 'v) cofree \<Rightarrow> ('v node, 'v) cofree algebraic_result) \<Rightarrow>
   'v bnode \<Rightarrow> 'v bnode \<Rightarrow> nat \<times> nat \<Rightarrow> bool \<times> 'v bnode \<Rightarrow> bool \<times> 'v bnode" where
  "bn_psubtract_bit cf_sub self other item st =
     (case (item, st) of
        ((i, index), (is_ident, btn)) \<Rightarrow>
          if push_bit index 1 AND word_at (bn_mask other) i \<noteq> 0 then
            let k = 64 * to_u8 i + to_u8 index in
            (case cf_sub (the (bn_get self k)) (the (bn_get other k)) of
               RNone \<Rightarrow> (False, snd (bn_remove k btn))
             | Identity m \<Rightarrow> (is_ident, btn)
             | Element jv \<Rightarrow> (False, bn_replace k jv btn))
          else (is_ident, btn))"

definition bn_psubtract ::
  "(('v node, 'v) cofree \<Rightarrow> ('v node, 'v) cofree \<Rightarrow> ('v node, 'v) cofree algebraic_result) \<Rightarrow>
   'v bnode \<Rightarrow> 'v bnode \<Rightarrow> 'v node algebraic_result" where
  "bn_psubtract cf_sub self other =
     byte_node_result (fold (bn_psubtract_bit cf_sub self other) (mask_items (bn_mask self)) (True, self))"

text \<open>\<open>ByteNode::prestrict\<close>: the loop runs over the bits both masks have and finds the entries by
  counting bits; a bit whose entry vanishes is cleared.\<close>

definition prestrict_bit ::
  "(('v node, 'v) cofree \<Rightarrow> ('v node, 'v) cofree \<Rightarrow> ('v node, 'v) cofree algebraic_result) \<Rightarrow>
   'v bnode \<Rightarrow> 'v bnode \<Rightarrow> nat \<Rightarrow> nat \<Rightarrow> nat \<Rightarrow> nat \<Rightarrow> bool \<times> 'v bnode \<Rightarrow> bool \<times> 'v bnode" where
  "prestrict_bit cf_restrict self other self_word_base other_word_base i index st =
     (case st of
        (is_ident, BN mm v) \<Rightarrow>
          let l = slot_in_word (word_at (bn_mask self) i) self_word_base index;
              r = slot_in_word (word_at (bn_mask other) i) other_word_base index;
              lv = bn_values self ! l;
              rv = bn_values other ! r
          in case cf_restrict lv rv of
               RNone \<Rightarrow> (False, BN (word_set mm i (word_at mm i XOR push_bit index 1)) v)
             | Identity m \<Rightarrow> (is_ident, BN mm (v @ [lv]))
             | Element jv \<Rightarrow> (False, BN mm (v @ [jv])))"

definition prestrict_word ::
  "(('v node, 'v) cofree \<Rightarrow> ('v node, 'v) cofree \<Rightarrow> ('v node, 'v) cofree algebraic_result) \<Rightarrow>
   'v bnode \<Rightarrow> 'v bnode \<Rightarrow> nat \<Rightarrow> (bool \<times> 'v bnode) \<times> nat \<times> nat \<Rightarrow> (bool \<times> 'v bnode) \<times> nat \<times> nat" where
  "prestrict_word cf_restrict self other i st =
     (case st of
        (acc, self_word_base, other_word_base) \<Rightarrow>
          (fold (prestrict_bit cf_restrict self other self_word_base other_word_base i)
             (word_items (word_at (bn_mask (snd acc)) i)) acc,
           self_word_base + count_ones (word_at (bn_mask self) i),
           other_word_base + count_ones (word_at (bn_mask other) i)))"

definition bn_prestrict ::
  "(('v node, 'v) cofree \<Rightarrow> ('v node, 'v) cofree \<Rightarrow> ('v node, 'v) cofree algebraic_result) \<Rightarrow>
   'v bnode \<Rightarrow> 'v bnode \<Rightarrow> 'v node algebraic_result" where
  "bn_prestrict cf_restrict self other =
     (let mm = mask_and (bn_mask self) (bn_mask other);
          is_ident = (bn_mask self = mm);
          ((is_ident', new_node), _) =
            fold (prestrict_word cf_restrict self other) [0..<4] ((is_ident, BN mm []), 0, 0)
      in if length (bn_values new_node) = 0 then RNone
         else if is_ident' then Identity SELF_IDENT
         else Element (ByteN new_node))"

subsection \<open>Nodes\<close>

fun psubtract_step ::
  "('v node \<Rightarrow> 'v node \<Rightarrow> bool) \<Rightarrow> ('v \<Rightarrow> 'v \<Rightarrow> 'v algebraic_result) \<Rightarrow> slice_utils \<Rightarrow>
   ('v node \<Rightarrow> 'v node \<Rightarrow> 'v node algebraic_result) \<Rightarrow> 'v node \<Rightarrow> 'v node \<Rightarrow> 'v node algebraic_result" where
  "psubtract_step peq psub S P EmptyN other = RNone"
| "psubtract_step peq psub S P (ListN ln) other =
     combine_slot_results_into_node_result ln
       (subtract_from_slot_contents P psub S (slot0 ln) other)
       (subtract_from_slot_contents P psub S (slot1 ln) other)"
| "psubtract_step peq psub S P (ByteN bn) EmptyN = Identity SELF_IDENT"
| "psubtract_step peq psub S P (ByteN bn) (ListN ln) = psubtract_abstract P psub S bn (ListN ln)"
| "psubtract_step peq psub S P (ByteN bn) (ByteN bn') = bn_psubtract (cf_psubtract peq P psub) bn bn'"

fun prestrict_step ::
  "slice_utils \<Rightarrow> ('v node \<Rightarrow> 'v node \<Rightarrow> 'v node algebraic_result) \<Rightarrow> 'v node \<Rightarrow> 'v node \<Rightarrow> 'v node algebraic_result" where
  "prestrict_step S P EmptyN other = RNone"
| "prestrict_step S P (ListN ln) other =
     combine_slot_results_into_node_result ln
       (restrict_slot_contents P S (slot0 ln) other)
       (restrict_slot_contents P S (slot1 ln) other)"
| "prestrict_step S P (ByteN bn) EmptyN = RNone"
| "prestrict_step S P (ByteN bn) (ListN ln) = prestrict_abstract P S bn (ListN ln)"
| "prestrict_step S P (ByteN bn) (ByteN bn') = bn_prestrict (cf_prestrict P) bn bn'"

text \<open>The dispatch answers \<open>None\<close> at once when both references are to the same node (\<open>shared_node_id\<close>);
  the list nodes and the walks reach it without the test of \<open>TrieNodeODRc::psubtract\<close>.  The calls on the
  children are guarded by the size of a node, which every child is below (\<open>node_children_size\<close>), so that
  the recursion is visibly well founded.\<close>

function psubtract_dyn ::
  "('v node \<Rightarrow> 'v node \<Rightarrow> bool) \<Rightarrow> ('v \<Rightarrow> 'v \<Rightarrow> 'v algebraic_result) \<Rightarrow> slice_utils \<Rightarrow>
   'v node \<Rightarrow> 'v node \<Rightarrow> 'v node algebraic_result" where
  "psubtract_dyn peq psub S self other =
     (if peq self other then RNone
      else psubtract_step peq psub S (\<lambda>c oc. if size c < size self then psubtract_dyn peq psub S c oc else RNone) self other)"
  by pat_completeness auto
termination
  by (relation "measure (\<lambda>(_, _, _, self, _). size self)") auto

declare psubtract_dyn.simps [simp del]

function prestrict_dyn :: "slice_utils \<Rightarrow> 'v node \<Rightarrow> 'v node \<Rightarrow> 'v node algebraic_result" where
  "prestrict_dyn S self other =
     prestrict_step S (\<lambda>c oc. if size c < size self then prestrict_dyn S c oc else RNone) self other"
  by pat_completeness auto
termination
  by (relation "measure (\<lambda>(_, self, _). size self)") auto

declare prestrict_dyn.simps [simp del]

subsection \<open>Maps\<close>

text \<open>\<open>PathMap::subtract\<close>, \<open>PathMap::restrict\<close>, and the trait methods \<open>psubtract\<close> and \<open>prestrict\<close>.
  The closures of \<open>psubtract\<close> wrap the field once more, so an absent field is \<open>Some None\<close>.\<close>

definition root_psubtract ::
  "('v node \<Rightarrow> 'v node \<Rightarrow> bool) \<Rightarrow> ('v \<Rightarrow> 'v \<Rightarrow> 'v algebraic_result) \<Rightarrow> slice_utils \<Rightarrow>
   'v path_map \<Rightarrow> 'v path_map \<Rightarrow> 'v node option algebraic_result" where
  "root_psubtract peq psub S m1 m2 =
     option_psubtract (odrc_psubtract peq (psubtract_dyn peq psub S)) (root m1) (root m2)"

definition map_subtract ::
  "('v node \<Rightarrow> 'v node \<Rightarrow> bool) \<Rightarrow> ('v \<Rightarrow> 'v \<Rightarrow> 'v algebraic_result) \<Rightarrow> slice_utils \<Rightarrow>
   'v path_map \<Rightarrow> 'v path_map \<Rightarrow> 'v path_map" where
  "map_subtract peq psub S m1 m2 =
     (let subtracted_root_val =
            (case option_psubtract psub (root_val m1) (root_val m2) of
               Element new_val \<Rightarrow> new_val | Identity m \<Rightarrow> root_val m1 | RNone \<Rightarrow> None);
          subtracted_root_node =
            (case root_psubtract peq psub S m1 m2 of
               Element subtracted_node \<Rightarrow> subtracted_node | Identity m \<Rightarrow> root m1 | RNone \<Rightarrow> None)
      in \<lparr>root = subtracted_root_node, root_val = subtracted_root_val\<rparr>)"

definition flatten_opt :: "'a option option \<Rightarrow> 'a option" where
  "flatten_opt x = (case x of Some y \<Rightarrow> y | None \<Rightarrow> None)"

definition map_fields ::
  "'v path_map \<Rightarrow> 'v path_map \<Rightarrow> (nat \<Rightarrow> 'v node option option) \<times> (nat \<Rightarrow> 'v option option)" where
  "map_fields m1 m2 =
     (\<lambda>i. if i = 0 then Some (root m1) else Some (root m2),
      \<lambda>i. if i = 0 then Some (root_val m1) else Some (root_val m2))"

definition map_element :: "'v node option option \<Rightarrow> 'v option option \<Rightarrow> 'v path_map algebraic_result" where
  "map_element root_node rval = Element \<lparr>root = flatten_opt root_node, root_val = flatten_opt rval\<rparr>"

definition map_psubtract ::
  "('v node \<Rightarrow> 'v node \<Rightarrow> bool) \<Rightarrow> ('v \<Rightarrow> 'v \<Rightarrow> 'v algebraic_result) \<Rightarrow> slice_utils \<Rightarrow>
   'v path_map \<Rightarrow> 'v path_map \<Rightarrow> 'v path_map algebraic_result" where
  "map_psubtract peq psub S m1 m2 =
     merge_result (root_psubtract peq psub S m1 m2) (option_psubtract psub (root_val m1) (root_val m2))
       (fst (map_fields m1 m2)) (snd (map_fields m1 m2)) map_element"

definition map_restrict :: "slice_utils \<Rightarrow> 'v path_map \<Rightarrow> 'v path_map \<Rightarrow> 'v path_map" where
  "map_restrict S m1 m2 =
     (if root_val m2 \<noteq> None then m1
      else
        (case (root m1, root m2) of
           (Some self_root, Some other_root) \<Rightarrow>
             (case prestrict_dyn S self_root other_root of
                Element new_root \<Rightarrow> \<lparr>root = Some new_root, root_val = None\<rparr>
              | RNone \<Rightarrow> new_map
              | Identity m \<Rightarrow> \<lparr>root = Some self_root, root_val = None\<rparr>)
         | _ \<Rightarrow> new_map))"

definition map_prestrict :: "slice_utils \<Rightarrow> 'v path_map \<Rightarrow> 'v path_map \<Rightarrow> 'v path_map algebraic_result" where
  "map_prestrict S m1 m2 =
     (if root_val m2 \<noteq> None then Identity SELF_IDENT
      else
        (case (root m1, root m2) of
           (Some self_root, Some other_root) \<Rightarrow>
             (case prestrict_dyn S self_root other_root of
                Element new_root \<Rightarrow> Element \<lparr>root = Some new_root, root_val = None\<rparr>
              | Identity m \<Rightarrow>
                  if root_val m1 \<noteq> None then Element \<lparr>root = Some self_root, root_val = None\<rparr>
                  else Identity SELF_IDENT
              | RNone \<Rightarrow> RNone)
         | _ \<Rightarrow> RNone))"

end
