(* ===== verification/Subtract_List.thy ===== *)
theory Subtract_List
  imports Node_Subtract
begin

text \<open>
  Subtraction and restriction of list nodes: what a result stands for, the maps the two operations
  compute (\<open>sub_opt\<close> path by path, \<open>restricted\<close>), the walks \<open>follow_path\<close> and
  \<open>follow_path_to_value\<close> through the other node, and the combination of the results of the slots.
\<close>

subsection \<open>What a result stands for\<close>

text \<open>The result of an operation that does not commute stands for the map \<open>f\<close>: nothing, the node
  \<open>a\<close> it was called on, or a new node.\<close>

definition left_stands :: "(path \<Rightarrow> 'v option) \<Rightarrow> 'v node \<Rightarrow> 'v node algebraic_result \<Rightarrow> bool" where
  "left_stands f a r \<longleftrightarrow>
     (case r of
        RNone \<Rightarrow> f = Map.empty
      | Identity m \<Rightarrow> m = SELF_IDENT \<and> den a = f
      | Element n \<Rightarrow> wf_node n \<and> n \<noteq> EmptyN \<and> den n = f)"

definition slot_stands :: "(path \<Rightarrow> 'v option) \<Rightarrow> ('v node, 'v) slot option \<Rightarrow> 'v voc algebraic_result \<Rightarrow> bool" where
  "slot_stands f s r \<longleftrightarrow>
     (case s of
        None \<Rightarrow> r = RNone \<and> f = Map.empty
      | Some (k, p) \<Rightarrow>
          (case r of
             RNone \<Rightarrow> f = Map.empty
           | Identity m \<Rightarrow> m = SELF_IDENT \<and> slot_den den s = f
           | Element p' \<Rightarrow> wf_payload p' \<and> p' \<noteq> Child EmptyN \<and> is_child p' = is_child p \<and> slot_den den (Some (k, p')) = f))"

lemma left_stands_simps [simp]:
  "left_stands f a RNone \<longleftrightarrow> f = Map.empty"
  "left_stands f a (Identity m) \<longleftrightarrow> m = SELF_IDENT \<and> den a = f"
  "left_stands f a (Element n) \<longleftrightarrow> wf_node n \<and> n \<noteq> EmptyN \<and> den n = f"
  by (simp_all add: left_stands_def)

lemma slot_stands_simps [simp]:
  "slot_stands f None r \<longleftrightarrow> r = RNone \<and> f = Map.empty"
  "slot_stands f (Some (k, p)) RNone \<longleftrightarrow> f = Map.empty"
  "slot_stands f (Some (k, p)) (Identity m) \<longleftrightarrow> m = SELF_IDENT \<and> slot_den den (Some (k, p)) = f"
  "slot_stands f (Some (k, p)) (Element p') \<longleftrightarrow>
     wf_payload p' \<and> p' \<noteq> Child EmptyN \<and> is_child p' = is_child p \<and> slot_den den (Some (k, p')) = f"
  by (simp_all add: slot_stands_def)

lemma den_ListN: "den (ListN ln) = ln_den den ln"
  by (simp add: fun_eq_iff)

text \<open>Replacing the payload of a slot keeps the node well formed as long as its kind stays and no
  link becomes empty.\<close>

lemma wf_update_slots:
  assumes "wf_node (ListN (LN (Some (k0, p0)) (Some (k1, p1))))"
    and "is_child p0' = is_child p0" "wf_payload p0'" "p0' = p0 \<or> p0' \<noteq> Child EmptyN"
    and "is_child p1' = is_child p1" "wf_payload p1'" "p1' = p1 \<or> p1' \<noteq> Child EmptyN"
  shows "wf_node (ListN (LN (Some (k0, p0')) (Some (k1, p1'))))"
  using assms by (auto simp: wf_pair_def)

lemma clone_updated_simps [simp]:
  "clone_with_updated_payloads (Some q0) (Some q1) (LN (Some (k0, p0)) (Some (k1, p1))) = Some (LN (Some (k0, q0)) (Some (k1, q1)))"
  "clone_with_updated_payloads (Some q0) None (LN (Some (k0, p0)) s1) = Some (LN (Some (k0, q0)) None)"
  "clone_with_updated_payloads None (Some q1) (LN s0 (Some (k1, p1))) = Some (LN (Some (k1, q1)) None)"
  by (simp_all add: clone_with_updated_payloads_def get_both_keys_def set_payload_0_def set_payload_1_def new_list_node_def)

text \<open>The payload a slot result leaves, and what it makes of the map.\<close>

definition kept_payload :: "path \<Rightarrow> 'v voc \<Rightarrow> (path \<Rightarrow> 'v option) \<Rightarrow> 'v voc option \<Rightarrow> bool" where
  "kept_payload k p f x \<longleftrightarrow>
     (case x of
        None \<Rightarrow> f = Map.empty
      | Some p' \<Rightarrow> wf_payload p' \<and> (p' = p \<or> p' \<noteq> Child EmptyN) \<and> is_child p' = is_child p \<and> slot_den den (Some (k, p')) = f)"

lemma slot_stands_kept:
  assumes "wf_payload p" "slot_stands f (Some (k, p)) r"
  shows "kept_payload k p f (map_into_option r (\<lambda>_. clone_payload (Some (k, p))))"
  using assms by (cases r) (auto simp: kept_payload_def clone_payload_def)

lemma rebuild_stands:
  assumes wf: "wf_node (ListN (LN (Some (k0, p0)) (Some (k1, p1))))"
    and x: "kept_payload k0 p0 f0 x0" "kept_payload k1 p1 f1 x1" "x0 \<noteq> None \<or> x1 \<noteq> None"
  shows "left_stands (\<lambda>q. or_else_opt (f0 q) (f1 q)) (a :: 'a node)
    (Element (ListN (the (clone_with_updated_payloads x0 x1 (LN (Some (k0, p0)) (Some (k1, p1)))))))"
proof -
  have one: "wf_node (ListN (LN (Some (k0, q)) None))" if "wf_payload q" for q :: "'a voc" using wf that by auto
  have two: "wf_node (ListN (LN (Some (k1, q)) None))" if "wf_payload q" for q :: "'a voc" using wf that by auto
  show ?thesis
  proof (cases x0)
    case None
    then obtain q where "x1 = Some q" using x(3) by auto
    then show ?thesis using None x(1,2) two
      by (simp add: kept_payload_def den_ListN ln_den_def fun_eq_iff del: slot_den_simps(2,3) wf_node_simps)
  next
    case (Some q0)
    show ?thesis
    proof (cases x1)
      case None
      then show ?thesis using Some x(1,2) one
        by (simp add: kept_payload_def den_ListN ln_den_def fun_eq_iff del: slot_den_simps(2,3) wf_node_simps)
    next
      case (Some q1)
      then show ?thesis using \<open>x0 = Some q0\<close> x(1,2) wf_update_slots[OF wf, of q0 q1]
        by (simp add: kept_payload_def den_ListN ln_den_def fun_eq_iff del: slot_den_simps(2,3) wf_node_simps)
    qed
  qed
qed

lemma combine_slot_results_stands:
  assumes "wf_node (ListN ln)" "slot_stands f0 (slot0 ln) r0" "slot_stands f1 (slot1 ln) r1"
  shows "left_stands (\<lambda>q. or_else_opt (f0 q) (f1 q)) (ListN ln) (combine_slot_results_into_node_result ln r0 r1)"
  using assms(1)
proof (cases rule: slots_cases)
  case none
  then show ?thesis using assms by (simp add: combine_slot_results_into_node_result_def)
next
  case (one k0 p0)
  have [simp]: "\<not> is_used (None :: ('v node, 'v) slot option)" by (simp add: is_used_def)
  show ?thesis using one assms
    by (cases r0) (simp_all add: combine_slot_results_into_node_result_def den_ListN ln_den_def fun_eq_iff
        del: slot_den_simps(2,3))
next
  case (two k0 p0 k1 p1)
  have u: "is_used (Some (k1, p1))" by (simp add: is_used_def)
  let ?x0 = "map_into_option r0 (\<lambda>_. clone_payload (Some (k0, p0)))"
  let ?x1 = "map_into_option r1 (\<lambda>_. clone_payload (Some (k1, p1)))"
  have k: "kept_payload k0 p0 f0 ?x0" "kept_payload k1 p1 f1 ?x1"
    using two assms(2,3) slot_stands_kept[of p0 f0 k0 r0] slot_stands_kept[of p1 f1 k1 r1] by auto
  have c: "clone_payload (Some (k, p)) = Some p" for k and p :: "'a voc" by (simp add: clone_payload_def)
  note reb = rebuild_stands[OF assms(1)[unfolded two(1)] k, of "ListN ln"]
  show ?thesis
    using assms(2,3) reb unfolding two(1)
    by (cases r0; cases r1)
      (simp_all add: combine_slot_results_into_node_result_def c u den_ListN ln_den_def fun_eq_iff
        del: slot_den_simps(2,3) clone_updated_simps)
qed

subsection \<open>The maps the operations compute\<close>

text \<open>An operation that does not commute never answers with its second argument.\<close>

definition self_only :: "('v \<Rightarrow> 'v \<Rightarrow> 'v algebraic_result) \<Rightarrow> bool" where
  "self_only psub \<longleftrightarrow> (\<forall>v w m. psub v w = Identity m \<longrightarrow> m = SELF_IDENT)"

lemma self_onlyD: "self_only psub \<Longrightarrow> psub v w = Identity m \<Longrightarrow> m = SELF_IDENT"
  by (simp add: self_only_def)

definition sub_opt :: "('v \<Rightarrow> 'v \<Rightarrow> 'v algebraic_result) \<Rightarrow> 'v option \<Rightarrow> 'v option \<Rightarrow> 'v option" where
  "sub_opt psub x y =
     (case x of
        None \<Rightarrow> None
      | Some v \<Rightarrow> (case y of None \<Rightarrow> Some v | Some w \<Rightarrow> resolve (psub v w) v w))"

text \<open>The paths below a value of \<open>e\<close>.\<close>

definition restricted :: "(path \<Rightarrow> 'v option) \<Rightarrow> (path \<Rightarrow> 'v option) \<Rightarrow> path \<Rightarrow> 'v option" where
  "restricted d e q = (if \<exists>p. prefix p q \<and> e p \<noteq> None then d q else None)"

lemma sub_opt_simps [simp]:
  "sub_opt psub None y = None"
  "sub_opt psub x None = x"
  "sub_opt psub (Some v) (Some w) = resolve (psub v w) v w"
  by (simp_all add: sub_opt_def split: option.split)

lemma slots_disjoint:
  assumes "wf_node (ListN ln)"
  shows "slot_den den (slot0 ln) q = None \<or> slot_den den (slot1 ln) q = None"
  using assms
proof (cases rule: slots_cases)
  case (two k0 p0 k1 p1)
  have "apart k0 p0 k1 p1" using two by (intro wf_pair_apart)
  note d = apart_disjoint[OF two(2,3) this, of q]
  have "slot_den den (Some (k0, p0)) q = None \<or> slot_den den (Some (k1, p1)) q = None"
    using d slot_den_covers[OF two(6), of k0 q] slot_den_covers[OF two(7), of k1 q] by metis
  then show ?thesis by (simp add: two(1) del: slot_den_simps)
qed simp_all

lemma or_else_sub:
  "x = None \<or> y = None \<Longrightarrow> sub_opt psub (or_else_opt x y) z = or_else_opt (sub_opt psub x z) (sub_opt psub y z)"
  by (cases x) auto

lemma or_else_restricted:
  "restricted (\<lambda>q. or_else_opt (f q) (g q)) e = (\<lambda>q. or_else_opt (restricted f e q) (restricted g e q))"
  by (auto simp: restricted_def fun_eq_iff)

subsection \<open>Following a path\<close>

lemma node_get_node_at_key_spec:
  assumes "slice_utils_ok S" "wf_node node" "key \<noteq> []" "\<And>n c. node_get_child node key = Some (n, c) \<Longrightarrow> n = length key"
  shows "case ref_into_option (node_get_node_at_key S node key) of
      None \<Rightarrow> (\<forall>q. q \<noteq> [] \<longrightarrow> den node (key @ q) = None)
    | Some n \<Rightarrow> wf_node n \<and> (\<forall>q. q \<noteq> [] \<longrightarrow> den n q = den node (key @ q))"
proof (cases node)
  case (ListN ln)
  then have wf: "wf_node (ListN ln)" using assms(2) by simp
  have "no_link_above key ln"
  proof -
    have "\<not> strict_prefix k key" if "(k, Child c) \<in> slots_of ln" for k c
    proof
      assume "strict_prefix k key"
      then have p: "prefix k key" "length k < length key" by (auto simp: strict_prefix_def prefix_def)
      then have "node_get_child node key = Some (length k, c)"
        using ln_get_child_iff[OF wf, of key "length k" c] that by (auto simp: ListN)
      then show False using assms(4) p(2) by fastforce
    qed
    then show ?thesis by (auto simp: no_link_above_def dest: slot_child_Child)
  qed
  from list_get_node_at_key_spec[OF assms(1) wf this] show ?thesis
    by (auto simp: ListN nothing_below_def holds_below_def split: option.splits)
next
  case (ByteN bn)
  then have wf: "wf_node (ByteN bn)" using assms(2) by simp
  obtain b rest where key: "key = b # rest" using assms(3) by (cases key) auto
  show ?thesis
  proof (cases "rest = []")
    case True
    then show ?thesis using byte_get_node_at_key_spec[OF wf, of b] by (auto simp: ByteN key split: option.splits)
  next
    case False
    then have "bn_rec bn b = None"
      using assms(4)[of 1] by (cases "bn_rec bn b") (auto simp: ByteN key bn_get_child_def bn_rec_def bind_eq_Some_conv)
    then show ?thesis using False by (auto simp: ByteN key bn_get_node_at_key_def entry_den_alt neq_Nil_conv)
  qed
qed simp

text \<open>Where a walk along \<open>path\<close> has come to: the rest of the path, below the node it stopped at.\<close>

definition path_focus :: "'v node \<Rightarrow> path \<Rightarrow> path \<Rightarrow> 'v node \<Rightarrow> bool" where
  "path_focus node path key n \<longleftrightarrow>
     wf_node n \<and> key \<noteq> [] \<and> (\<forall>q. den node (path @ q) = den n (key @ q)) \<and>
     (\<forall>m c. node_get_child n key = Some (m, c) \<longrightarrow> m = length key)"

lemma path_focus_here:
  assumes "wf_node node" "key \<noteq> []" "\<And>n c. node_get_child node key = Some (n, c) \<Longrightarrow> \<not> n < length key"
  shows "path_focus node key key node"
  using assms node_get_child_bounds[OF assms(1,2)] by (fastforce simp: path_focus_def)

lemma node_get_child_append:
  assumes "wf_node node" "key \<noteq> []" "node_get_child node key = Some (n, c)" "n < length key"
  shows "den node (key @ q) = den c (drop n key @ q)"
proof (cases node)
  case (ListN ln)
  then have wf: "wf_node (ListN ln)" using assms by simp
  obtain k where k: "(k, Child c) \<in> slots_of ln" "n = length k" "prefix k key"
    using assms(3) ListN ln_get_child_iff[OF wf] by auto
  have "node_get_child node (key @ q) = Some (n, c)"
    using k ln_get_child_iff[OF wf, of "key @ q" n c] by (auto simp: ListN)
  from node_descend[OF assms(1) this] show ?thesis using assms(4) by simp
next
  case (ByteN bn)
  have "node_get_child node (key @ q) = Some (n, c)"
    using assms(2,3) by (simp add: ByteN bn_get_child_def)
  from node_descend[OF assms(1) this] show ?thesis using assms(4) by simp
qed (use assms in simp)

lemma no_path_below:
  assumes "slice_utils_ok S" "wf_node node" "key \<noteq> []" "node_get_child node key = None" "\<not> node_contains_partial_key S node key"
  shows "den node (key @ q) = None"
proof (rule ccontr)
  assume "\<not> ?thesis"
  then have "has_path node (key @ q)" by (intro den_has_path) auto
  then have "has_path node key" by (rule has_path_prefix) simp
  then show False using contains_partial_key_here[OF assms(1-4)] assms(5) by simp
qed

lemma follow_path_spec:
  assumes "slice_utils_ok S" "wf_node node" "key \<noteq> []"
  shows "case follow_path S node key of
      None \<Rightarrow> (\<forall>q. den node (key @ q) = None)
    | Some (k, n) \<Rightarrow> path_focus node key k n"
  using assms
proof (induction S node key rule: follow_path.induct)
  case (1 S node key)
  show ?case
  proof (cases "node_get_child node key")
    case None
    then show ?thesis
      using no_path_below[OF 1(2-4) None] path_focus_here[OF 1(3,4)] by (simp add: follow_path.simps[of S node])
  next
    case (Some r)
    then obtain n c where g: "node_get_child node key = Some (n, c)" by (cases r) auto
    note b = node_get_child_bounds[OF 1(3,4) g]
    show ?thesis
    proof (cases "n < length key")
      case True
      note ap = node_get_child_append[OF 1(3,4) g True]
      have "wf_node c" "drop n key \<noteq> []" using b True by auto
      from 1(1)[OF g refl True 1(2) this] show ?thesis
        using True ap by (auto simp: follow_path.simps[of S node] g path_focus_def split: option.splits)
    next
      case False
      then show ?thesis using path_focus_here[OF 1(3,4)] g by (simp add: follow_path.simps[of S node])
    qed
  qed
qed

text \<open>The first value on the way.\<close>

lemma first_val_along_iff:
  assumes "slice_utils_ok S" "wf_node node" "key \<noteq> []"
  shows "node_first_val_depth_along_key S node key \<noteq> None \<longleftrightarrow> (\<exists>p. prefix p key \<and> p \<noteq> [] \<and> node_get_val node p \<noteq> None)"
proof (cases node)
  case (ListN ln)
  then have wf: "wf_node (ListN ln)" using assms(2) by simp
  have v: "ln_get_val ln p = Some v \<longleftrightarrow> (p, Val v) \<in> slots_of ln" for p v
    using wf by (intro ln_get_val_iff) simp
  have e: "is_used_value s \<and> prefix (slot_key s) key \<longleftrightarrow> (\<exists>p v. s = Some (p, Val v) \<and> prefix p key)" for s :: "('v node, 'v) slot option"
    by (cases s; cases "snd (the s)") auto
  have "node_first_val_depth_along_key S node key \<noteq> None \<longleftrightarrow> (\<exists>p v. (p, Val v) \<in> slots_of ln \<and> prefix p key)"
    using e[of "slot0 ln"] e[of "slot1 ln"] assms(1)
    by (auto simp: ListN ln_first_val_depth_along_key_def get_both_keys_def slots_of_def)
  also have "\<dots> \<longleftrightarrow> (\<exists>p. prefix p key \<and> p \<noteq> [] \<and> ln_get_val ln p \<noteq> None)"
    using v wf_slot_elem[OF wf] by (metis not_None_eq)
  finally show ?thesis by (simp add: ListN)
next
  case (ByteN bn)
  obtain b rest where key: "key = b # rest" using assms(3) by (cases key) auto
  have "bn_get_val bn p \<noteq> None \<longleftrightarrow> p = [hd p] \<and> bn_val bn (hd p) \<noteq> None" for p
    by (cases p) (auto simp: bn_get_val_def bn_val_def split: option.splits)
  then have "(\<exists>p. prefix p key \<and> p \<noteq> [] \<and> node_get_val node p \<noteq> None) \<longleftrightarrow> bn_val bn b \<noteq> None"
    unfolding ByteN key node_get_val.simps by (metis list.sel(1) list.distinct(1) prefix_Cons Nil_prefix)
  moreover have "node_first_val_depth_along_key S node key \<noteq> None \<longleftrightarrow> bn_val bn b \<noteq> None"
    by (auto simp: ByteN key bn_first_val_depth_along_key_def cf_has_val_def bn_val_def split: option.splits)
  ultimately show ?thesis by simp
qed simp

lemma node_get_child_prefix:
  assumes "wf_node node" "prefix p key" "p \<noteq> []"
  shows "node_get_child node p = Some (n, c) \<longleftrightarrow> node_get_child node key = Some (n, c) \<and> n \<le> length p"
proof (cases node)
  case (ListN ln)
  then have wf: "wf_node (ListN ln)" using assms(1) by simp
  have "prefix k p \<longleftrightarrow> prefix k key \<and> length k \<le> length p" for k
    using assms(2) prefix_length_prefix[of k key p] prefix_length_le[of k p] by (auto intro: prefix_order.trans)
  then show ?thesis using ln_get_child_iff[OF wf] by (auto simp: ListN)
next
  case (ByteN bn)
  have "hd key = hd p" "length p \<noteq> 0" "0 < length p" using assms(2,3) by (cases p; auto simp: prefix_def)+
  then show ?thesis by (auto simp: ByteN bn_get_child_def Suc_le_eq split: option.splits)
qed simp

lemma node_get_val_den:
  assumes "wf_node node" "key \<noteq> []" "node_get_val node key = Some v"
  shows "den node key = Some v"
proof (cases node)
  case (ListN ln)
  then have wf: "wf_node (ListN ln)" using assms(1) by simp
  have "(key, Val v) \<in> slots_of ln" using assms(3) wf ln_get_val_iff[of ln key v] by (simp add: ListN)
  from ln_den_covered[OF wf this, of key] show ?thesis by (simp add: ListN covers_def)
next
  case (ByteN bn)
  then show ?thesis using assms(2,3)
    by (cases key) (auto simp: bn_get_val_def entry_den_alt bn_val_def split: if_splits option.splits)
qed (use assms in simp)

lemma no_val_along:
  assumes "wf_node node" "prefix p key" "p \<noteq> []" "node_get_val node p = None"
    and "\<And>n c. node_get_child node key = Some (n, c) \<Longrightarrow> length p \<le> n"
  shows "den node p = None"
proof -
  have "node_get_val node p = den node p"
    by (rule node_here[OF assms(1,3)]) (use node_get_child_prefix[OF assms(1-3)] assms(5) in fastforce)
  then show ?thesis using assms(4) by simp
qed

lemma follow_path_to_value_spec:
  assumes "slice_utils_ok S" "wf_node node" "key \<noteq> []"
  shows "case follow_path_to_value S node key of
      (True, _) \<Rightarrow> \<exists>p. prefix p key \<and> den node p \<noteq> None
    | (False, None) \<Rightarrow> (\<forall>p. prefix p key \<longrightarrow> den node p = None) \<and> (\<forall>q. den node (key @ q) = None)
    | (False, Some (k, n)) \<Rightarrow> (\<forall>p. prefix p key \<longrightarrow> den node p = None) \<and> path_focus node key k n"
  using assms
proof (induction S node key rule: follow_path_to_value.induct)
  case (1 S node key)
  note fv = first_val_along_iff[OF 1(2-4)]
  show ?case
  proof (cases "node_first_val_depth_along_key S node key = None")
    case False
    then obtain p where "prefix p key" "p \<noteq> []" "node_get_val node p \<noteq> None" using fv by blast
    then have "\<exists>p. prefix p key \<and> den node p \<noteq> None" using node_get_val_den[OF 1(3)] by blast
    then show ?thesis using False by (simp add: follow_path_to_value.simps[of S node])
  next
    case True
    have here: "den node p = None" if "prefix p key" "\<And>n c. node_get_child node key = Some (n, c) \<Longrightarrow> length p \<le> n" for p
    proof (cases "p = []")
      case False
      then show ?thesis using no_val_along[OF 1(3) that(1)] that(2) fv True that(1) by blast
    qed (use wf_den_Nil[OF 1(3)] in simp)
    show ?thesis
    proof (cases "node_get_child node key")
      case None
      then have all: "den node p = None" if "prefix p key" for p using here that by simp
      show ?thesis
        using True None all no_path_below[OF 1(2-4) None] path_focus_here[OF 1(3,4)]
        by (auto simp: follow_path_to_value.simps[of S node])
    next
      case (Some r)
      then obtain n c where g: "node_get_child node key = Some (n, c)" by (cases r) auto
      note b = node_get_child_bounds[OF 1(3,4) g]
      show ?thesis
      proof (cases "n < length key")
        case False
        then have "den node p = None" if "prefix p key" for p
          using here[OF that] g b prefix_length_le[OF that] by simp
        then show ?thesis
          using True False g path_focus_here[OF 1(3,4)] by (simp add: follow_path_to_value.simps[of S node])
      next
        case less: True
        note ap = node_get_child_append[OF 1(3,4) g less]
        have wc: "wf_node c" "drop n key \<noteq> []" using b less by auto
        have pre: "den node p = den c (drop n p)" if "prefix p key" "n < length p" for p
          using node_descend[OF 1(3), of p n c] node_get_child_prefix[OF 1(3) that(1)] g that(2) by fastforce
        have below: "(\<forall>p. prefix p key \<longrightarrow> den node p = None) \<longleftrightarrow> (\<forall>p. prefix p (drop n key) \<longrightarrow> den c p = None)"
        proof
          assume a: "\<forall>p. prefix p key \<longrightarrow> den node p = None"
          show "\<forall>p. prefix p (drop n key) \<longrightarrow> den c p = None"
          proof (intro allI impI)
            fix p assume p: "prefix p (drop n key)"
            show "den c p = None"
            proof (cases "p = []")
              case False
              have "prefix (take n key @ p) key" using p by (metis append_take_drop_id same_prefix_prefix)
              then show ?thesis using a pre[of "take n key @ p"] less False by simp
            qed (use wf_den_Nil[OF wc(1)] in simp)
          qed
        next
          assume a: "\<forall>p. prefix p (drop n key) \<longrightarrow> den c p = None"
          show "\<forall>p. prefix p key \<longrightarrow> den node p = None"
          proof (intro allI impI)
            fix p assume p: "prefix p key"
            show "den node p = None"
            proof (cases "n < length p")
              case True
              have "prefix (drop n p) (drop n key)" using p True by (auto simp: prefix_def)
              then show ?thesis using a pre[OF p True] by simp
            qed (use here[OF p] g in simp)
          qed
        qed
        obtain found res where r: "follow_path_to_value S c (drop n key) = (found, res)" by (cases "follow_path_to_value S c (drop n key)")
        then have e: "follow_path_to_value S node key = (found, res)"
          using True less by (simp add: follow_path_to_value.simps[of S node] g)
        have IH: "case (found, res) of
            (True, _) \<Rightarrow> \<exists>p. prefix p (drop n key) \<and> den c p \<noteq> None
          | (False, None) \<Rightarrow> (\<forall>p. prefix p (drop n key) \<longrightarrow> den c p = None) \<and> (\<forall>q. den c (drop n key @ q) = None)
          | (False, Some (k, m)) \<Rightarrow> (\<forall>p. prefix p (drop n key) \<longrightarrow> den c p = None) \<and> path_focus c (drop n key) k m"
          using 1(1)[OF _ g refl less 1(2) wc] True unfolding r by simp
        show ?thesis
        proof (cases found)
          case True
          then have "\<not> (\<forall>p. prefix p (drop n key) \<longrightarrow> den c p = None)" using IH by auto
          then have "\<not> (\<forall>p. prefix p key \<longrightarrow> den node p = None)" unfolding below .
          then show ?thesis using True by (simp add: e)
        next
          case False
          then show ?thesis using IH unfolding e ap below path_focus_def by (cases res) auto
        qed
      qed
    qed
  qed
qed

subsection \<open>List nodes\<close>

text \<open>Lifting a result on the link of a slot to the slot.\<close>

lemma slot_of_link:
  assumes "left_stands g c r"
    and "f = (\<lambda>q. if prefix k q then g (drop (length k) q) else None)"
  shows "slot_stands f (Some (k, Child c)) (Ring.map_result Child r)"
  using assms by (cases r) (auto simp: fun_eq_iff)

lemma slot_den_link: "slot_den den (Some (k, Child c)) = (\<lambda>q. if prefix k q then den c (drop (length k) q) else None)"
  by (simp add: fun_eq_iff)

lemma prefix_drop_append: "prefix k q \<Longrightarrow> k @ drop (length k) q = q"
  by (auto simp: prefix_def)

lemma subtract_from_slot_stands:
  assumes S: "slice_utils_ok S" and other: "wf_node other"
    and slot: "slot = Some (k, p)" "k \<noteq> []" "wf_payload p"
    and P: "\<And>c oc. p = Child c \<Longrightarrow> wf_node oc \<Longrightarrow> left_stands (\<lambda>q. sub_opt psub (den c q) (den oc q)) c (P c oc)"
    and psub: "self_only psub"
  shows "slot_stands (\<lambda>q. sub_opt psub (slot_den den slot q) (den other q)) slot (subtract_from_slot_contents P psub S slot other)"
proof (cases "follow_path S other k")
  case None
  then have n: "den other (k @ q) = None" for q using follow_path_spec[OF S other slot(2)] by simp
  have "sub_opt psub (slot_den den slot q) (den other q) = slot_den den slot q" for q
    using n[of "drop (length k) q"] n[of "[]"] unfolding slot(1) by (cases p) (auto simp: prefix_drop_append)
  then show ?thesis using None by (simp add: slot subtract_from_slot_contents_def del: slot_den_simps)
next
  case (Some r)
  then obtain k' n where f: "follow_path S other k = Some (k', n)" by (cases r) auto
  have fo: "wf_node n" "k' \<noteq> []" "\<And>q. den other (k @ q) = den n (k' @ q)"
    "\<And>m c. node_get_child n k' = Some (m, c) \<Longrightarrow> m = length k'"
    using follow_path_spec[OF S other slot(2)] f by (auto simp: path_focus_def)
  show ?thesis
  proof (cases p)
    case (Val v)
    have "node_get_val n k' = den n k'" using fo by (intro node_here) auto
    then have e: "node_get_val n k' = den other k" using fo(3)[of "[]"] by simp
    show ?thesis
    proof (cases "den other k")
      case None
      then have "sub_opt psub (slot_den den slot q) (den other q) = slot_den den slot q" for q
        by (auto simp: slot Val)
      then show ?thesis using None e by (simp add: slot(1) Val subtract_from_slot_contents_def f del: slot_den_simps)
    next
      case (Some w)
      then show ?thesis using e self_onlyD[OF psub, of v w]
        by (cases "psub v w") (auto simp: slot(1) Val subtract_from_slot_contents_def f fun_eq_iff SELF_IDENT_def)
    qed
  next
    case (Child c)
    have wc: "wf_node c" using slot(3) by (simp add: Child)
    have shape: "(\<lambda>q. sub_opt psub (slot_den den slot q) (den other q)) =
        (\<lambda>q. if prefix k q then sub_opt psub (den c (drop (length k) q)) (den other q) else None)"
      by (auto simp: slot Child fun_eq_iff)
    show ?thesis
    proof (cases "node_is_empty c")
      case True
      then have "den c = Map.empty" using empty_node_den[OF wc] by (auto simp: fun_eq_iff)
      then show ?thesis using True fo(2)
        by (simp add: slot(1) Child subtract_from_slot_contents_def f fun_eq_iff)
    next
      case False
      have g: "case ref_into_option (node_get_node_at_key S n k') of
          None \<Rightarrow> (\<forall>q. q \<noteq> [] \<longrightarrow> den n (k' @ q) = None)
        | Some m \<Rightarrow> wf_node m \<and> (\<forall>q. q \<noteq> [] \<longrightarrow> den m q = den n (k' @ q))"
        using fo by (intro node_get_node_at_key_spec[OF S])
      show ?thesis
      proof (cases "ref_into_option (node_get_node_at_key S n k')")
        case None
        have "sub_opt psub (den c q) (den other (k @ q)) = den c q" for q
          using g None fo(3) wf_den_Nil[OF wc] by (cases "q = []") auto
        then have "(\<lambda>q. sub_opt psub (slot_den den slot q) (den other q)) = slot_den den slot"
          unfolding shape by (auto simp: slot(1) Child slot_den_link fun_eq_iff prefix_def)
        then show ?thesis using None False fo(2)
          by (simp add: slot(1) Child subtract_from_slot_contents_def f del: slot_den_simps)
      next
        case (Some m)
        then have m: "wf_node m" "\<And>q. q \<noteq> [] \<Longrightarrow> den m q = den other (k @ q)" using g fo(3) by auto
        have "sub_opt psub (den c q) (den m q) = sub_opt psub (den c q) (den other (k @ q))" for q
          using m(2) wf_den_Nil[OF wc] by (cases "q = []") auto
        then have "(\<lambda>q. sub_opt psub (slot_den den slot q) (den other q)) =
            (\<lambda>q. if prefix k q then sub_opt psub (den c (drop (length k) q)) (den m (drop (length k) q)) else None)"
          unfolding shape by (auto simp: fun_eq_iff prefix_def)
        then have "slot_stands (\<lambda>q. sub_opt psub (slot_den den slot q) (den other q)) (Some (k, Child c)) (Ring.map_result Child (P c m))"
          by (rule slot_of_link[OF P[OF Child m(1)]])
        then show ?thesis using Some False fo(2)
          by (simp add: slot(1) Child subtract_from_slot_contents_def f del: slot_den_simps)
      qed
    qed
  qed
qed

lemma restricted_below:
  assumes "\<And>p. prefix p k \<Longrightarrow> e p = None"
  shows "restricted (\<lambda>q. if prefix k q then d (drop (length k) q) else None) e =
    (\<lambda>q. if prefix k q then restricted d (\<lambda>q. e (k @ q)) (drop (length k) q) else None)"
proof
  fix q
  have "(\<exists>p. prefix p (k @ r) \<and> e p \<noteq> None) \<longleftrightarrow> (\<exists>p. prefix p r \<and> e (k @ p) \<noteq> None)" for r
  proof
    assume "\<exists>p. prefix p (k @ r) \<and> e p \<noteq> None"
    then obtain p where p: "prefix p (k @ r)" "e p \<noteq> None" by blast
    then have "prefix k p" using assms[of p] by (metis prefixI prefix_same_cases)
    then obtain p' where p': "p = k @ p'" by (auto simp: prefix_def)
    have "prefix p' r \<and> e (k @ p') \<noteq> None" using p unfolding p' by simp
    then show "\<exists>p. prefix p r \<and> e (k @ p) \<noteq> None" by (rule exI)
  next
    assume "\<exists>p. prefix p r \<and> e (k @ p) \<noteq> None"
    then show "\<exists>p. prefix p (k @ r) \<and> e p \<noteq> None" by (metis same_prefix_prefix)
  qed
  note along = this
  show "restricted (\<lambda>q. if prefix k q then d (drop (length k) q) else None) e q =
      (if prefix k q then restricted d (\<lambda>q. e (k @ q)) (drop (length k) q) else None)"
  proof (cases "prefix k q")
    case True
    then obtain r where q: "q = k @ r" by (auto simp: prefix_def)
    show ?thesis unfolding restricted_def q along by auto
  qed (simp add: restricted_def)
qed

lemma restricted_none: "(\<And>q. e q = None) \<Longrightarrow> restricted d e = Map.empty"
  by (simp add: restricted_def fun_eq_iff)

lemma restricted_cong:
  assumes "\<And>q. q \<noteq> [] \<Longrightarrow> e q = e' q" "e [] = None" "e' [] = None"
  shows "restricted d e = restricted d e'"
proof -
  have "e = e'"
  proof
    fix q show "e q = e' q" using assms by (cases "q = []") auto
  qed
  then show ?thesis by simp
qed

lemma restrict_slot_stands:
  assumes S: "slice_utils_ok S" and other: "wf_node other"
    and slot: "slot = Some (k, p)" "k \<noteq> []" "wf_payload p"
    and P: "\<And>c oc. p = Child c \<Longrightarrow> wf_node oc \<Longrightarrow> left_stands (restricted (den c) (den oc)) c (P c oc)"
  shows "slot_stands (restricted (slot_den den slot) (den other)) slot (restrict_slot_contents P S slot other)"
proof -
  obtain found res where f: "follow_path_to_value S other k = (found, res)" by (cases "follow_path_to_value S other k")
  note spec = follow_path_to_value_spec[OF S other slot(2), unfolded f]
  show ?thesis
  proof (cases found)
    case True
    then obtain p' where p': "prefix p' k" "den other p' \<noteq> None" using spec by auto
    have "prefix p' q" if "slot_den den slot q \<noteq> None" for q
      using that p'(1) unfolding slot(1) by (cases p) (auto split: if_splits intro: prefix_order.trans)
    then have "restricted (slot_den den slot) (den other) q = slot_den den slot q" for q
      using p'(2) unfolding restricted_def by metis
    then have "restricted (slot_den den slot) (den other) = slot_den den slot" by (rule ext)
    then show ?thesis using True by (simp add: slot(1) restrict_slot_contents_def f del: slot_den_simps)
  next
    case False
    then have no: "den other p' = None" if "prefix p' k" for p' using spec that by (cases res) auto
    show ?thesis
    proof (cases p)
      case (Val v)
      have "restricted (slot_den den slot) (den other) = Map.empty"
        using no by (auto simp: slot(1) Val restricted_def fun_eq_iff)
      then show ?thesis using False
        by (cases res) (auto simp: slot(1) Val restrict_slot_contents_def f)
    next
      case (Child c)
      have wc: "wf_node c" using slot(3) by (simp add: Child)
      have shape: "restricted (slot_den den slot) (den other) =
          (\<lambda>q. if prefix k q then restricted (den c) (\<lambda>q. den other (k @ q)) (drop (length k) q) else None)"
        unfolding slot(1) Child slot_den_link by (rule restricted_below[OF no])
      show ?thesis
      proof (cases res)
        case None
        then have "restricted (den c) (\<lambda>q. den other (k @ q)) = Map.empty" using False spec by (intro restricted_none) auto
        then show ?thesis using None False unfolding shape
          by (simp add: slot(1) Child restrict_slot_contents_def f fun_eq_iff)
      next
        case (Some r)
        then obtain k' n where r: "res = Some (k', n)" by (cases r) auto
        have fo: "wf_node n" "k' \<noteq> []" "\<And>q. den other (k @ q) = den n (k' @ q)"
          "\<And>m c. node_get_child n k' = Some (m, c) \<Longrightarrow> m = length k'"
          using spec False by (auto simp: r path_focus_def)
        have g: "case ref_into_option (node_get_node_at_key S n k') of
            None \<Rightarrow> (\<forall>q. q \<noteq> [] \<longrightarrow> den n (k' @ q) = None)
          | Some m \<Rightarrow> wf_node m \<and> (\<forall>q. q \<noteq> [] \<longrightarrow> den m q = den n (k' @ q))"
          using fo by (intro node_get_node_at_key_spec[OF S])
        have k0: "den other (k @ []) = None" using no by simp
        show ?thesis
        proof (cases "ref_into_option (node_get_node_at_key S n k')")
          case None
          have "den other (k @ q) = None" for q using g None fo(3) k0 by (cases "q = []") auto
          then have "restricted (den c) (\<lambda>q. den other (k @ q)) = Map.empty" by (rule restricted_none)
          then show ?thesis using None False fo(2) unfolding shape
            by (simp add: slot(1) Child restrict_slot_contents_def f r fun_eq_iff)
        next
          case (Some m)
          then have m: "wf_node m" "\<And>q. q \<noteq> [] \<Longrightarrow> den m q = den other (k @ q)" using g fo(3) by auto
          have eq: "restricted (den c) (\<lambda>q. den other (k @ q)) = restricted (den c) (den m)"
            by (rule restricted_cong) (use m k0 wf_den_Nil[OF m(1)] in auto)
          have "slot_stands (restricted (slot_den den slot) (den other)) (Some (k, Child c)) (Ring.map_result Child (P c m))"
            unfolding shape eq by (rule slot_of_link[OF P[OF Child m(1)] refl])
          then show ?thesis using Some False fo(2)
            by (simp add: slot(1) Child restrict_slot_contents_def f r del: slot_den_simps)
        qed
      qed
    qed
  qed
qed

end
