(* ===== verification/Subtract_Byte.thy ===== *)
theory Subtract_Byte
  imports Subtract_List
begin

text \<open>Subtraction and restriction of byte nodes (\<open>psubtract_abstract\<close>, \<open>prestrict_abstract\<close>,
  \<open>ByteNode::psubtract\<close>, \<open>ByteNode::prestrict\<close>) against the maps the nodes stand for. Each of the four
  loops builds a node entry by entry: \<open>rebuilt\<close> says what such a loop leaves behind, \<open>entry_stands\<close>
  what one entry contributes, and \<open>rebuilt_stands\<close> joins the two.\<close>

unbundle bit_operations_syntax

subsection \<open>Nodes built entry by entry\<close>

text \<open>The entries of a byte node in ascending order of their bytes.\<close>

definition byte_entries :: "('c, 'v) byte_node \<Rightarrow> (u8 \<times> ('c, 'v) cofree) list" where
  "byte_entries bn = map (\<lambda>(n, cf). (to_u8 n, cf)) (zip (bits (bn_mask bn)) (bn_values bn))"

lemma map_of_to_u8:
  "(\<forall>n \<in> set (map fst xs). n < 256) \<Longrightarrow> map_of (map (\<lambda>(n, cf). (to_u8 n, cf)) xs) b = map_of xs (unat b)"
  by (induction xs) auto

lemma bits_bounds: "n \<in> set (bits m) \<Longrightarrow> n < 256 \<and> mbit m n"
  by (auto simp: bits_def)

lemma byte_entries_map_of:
  assumes "bn_ok bn"
  shows "map_of (byte_entries bn) b = bn_get bn b"
proof -
  obtain m cfs where bn: "bn = BN m cfs" by (cases bn)
  have "\<forall>n \<in> set (map fst (zip (bits m) cfs)). n < 256"
    using bits_bounds[of _ m] by (auto dest: set_zip_leftD)
  from map_of_to_u8[OF this] show ?thesis
    using bn_get_map_of[of m cfs b] assms by (simp add: byte_entries_def bn)
qed

lemma byte_entries_sorted:
  "sorted_wrt (<) (map fst (byte_entries bn))"
proof -
  have s: "sorted_wrt (<) (bits m)" for m by (simp add: bits_def sorted_wrt_filter del: upt_Suc)
  obtain m cfs where bn: "bn = BN m cfs" by (cases bn)
  have "sorted_wrt (<) (map fst (zip (bits m) cfs))"
    using s[of m] by (simp add: map_fst_zip_take sorted_wrt_take)
  moreover have "to_u8 a < to_u8 b" if "a < b" "b < 256" for a b
    using that by (simp add: word_less_nat_alt)
  ultimately have "sorted_wrt (<) (map to_u8 (map fst (zip (bits m) cfs)))"
    unfolding sorted_wrt_map
    by (rule sorted_wrt_mono_rel[rotated]) (use bits_bounds[of _ m] in \<open>auto dest: set_zip_leftD\<close>)
  then show ?thesis by (simp add: byte_entries_def bn comp_def case_prod_beta)
qed

lemma bn_push_insert:
  assumes "bn_ok bn" "\<And>b. bn_get bn b \<noteq> None \<Longrightarrow> b < k"
  shows "bn_push k cf bn = bn_insert k cf bn \<and> bn_get bn k = None"
proof -
  obtain m cfs where bn: "bn = BN m cfs" by (cases bn)
  have ok: "bn_ok (BN m cfs)" using assms(1) bn by simp
  have lt: "n < unat k" if "mbit m n" for n
  proof -
    have n: "n < 256" using that mbit_less by blast
    then have "bn_get bn (to_u8 n) \<noteq> None" using that by (simp add: bn bn_get_alt[OF ok])
    then have "to_u8 n < k" by (rule assms(2))
    then show ?thesis using n by (simp add: word_less_nat_alt)
  qed
  have "rank m (unat k + d) = rank m (unat k)" for d
    by (induction d) (use lt in \<open>auto simp: rank_Suc dest: leD\<close>)
  from this[of "256 - unat k"] have "rank m 256 = rank m (unat k)" using unat_u8_less[of k] by simp
  then have "unat (index_of m k) = length cfs" using ok by (simp add: unat_index_of bn_ok_BN)
  moreover have "bn_get bn k = None" using lt by (auto simp: bn bn_get_alt[OF ok])
  ultimately show ?thesis by (simp add: bn bn_push_def bn_insert_def vec_insert_def)
qed

definition collect :: "(u8 \<times> ('c, 'v) cofree) list \<Rightarrow> ('c, 'v) byte_node" where
  "collect es = fold (\<lambda>(k, cf). bn_push k cf) es new_byte_node"

lemma collect_snoc: "collect (es @ [(k, cf)]) = bn_push k cf (collect es)"
  by (simp add: collect_def)

lemma collect_spec:
  assumes "sorted_wrt (<) (map fst es)"
  shows "bn_ok (collect es) \<and> bn_get (collect es) b = map_of es b"
  using assms
proof (induction es arbitrary: b rule: rev_induct)
  case Nil
  then show ?case by (simp add: collect_def)
next
  case (snoc e es)
  obtain k cf where e: "e = (k, cf)" by (cases e)
  have IH: "bn_ok (collect es)" "bn_get (collect es) b = map_of es b" for b using snoc by (auto simp: sorted_wrt_append)
  have k: "a < k" if "a \<in> fst ` set es" for a using snoc(2) that by (auto simp: e sorted_wrt_append)
  have p: "bn_push k cf (collect es) = bn_insert k cf (collect es) \<and> bn_get (collect es) k = None"
    by (rule bn_push_insert[OF IH(1)]) (use k IH(2) in \<open>force dest!: map_of_SomeD\<close>)
  have "k \<notin> fst ` set es" using k by blast
  then have "map_of es k = None" by (simp add: map_of_eq_None_iff)
  then show ?case
    using bn_get_insert[OF IH(1), of k cf] p IH(2)
    by (auto simp: e collect_snoc map_add_def split: option.splits)
qed

lemma collect_entries: "bn_ok bn \<Longrightarrow> bn_ok (collect (byte_entries bn)) \<and> bn_get (collect (byte_entries bn)) b = bn_get bn b"
  using collect_spec[OF byte_entries_sorted[of bn], of b] byte_entries_map_of[of bn b] by simp

text \<open>What an operation makes of one entry: whether it is unchanged, and the entry that stays.\<close>

type_synonym 'v entry_op = "u8 \<Rightarrow> ('v node, 'v) cofree \<Rightarrow> bool \<times> ('v node, 'v) cofree option"

definition cf_wf :: "('v node, 'v) cofree \<Rightarrow> bool" where
  "cf_wf cf \<longleftrightarrow> (\<forall>c. cf_rec cf = Some c \<longrightarrow> wf_node c)"

definition entry_stands :: "(path \<Rightarrow> 'v option) \<Rightarrow> ('v node, 'v) cofree \<Rightarrow> bool \<times> ('v node, 'v) cofree option \<Rightarrow> bool" where
  "entry_stands h cf r \<longleftrightarrow>
     (case snd r of
        None \<Rightarrow> h = Map.empty
      | Some cf' \<Rightarrow> cf_wf cf' \<and> cf_den den cf' = h \<and> (fst r \<longrightarrow> cf_den den cf = h))"

text \<open>A loop over the entries has built \<open>new\<close> out of the node \<open>bn\<close>.\<close>

definition rebuilt :: "'v entry_op \<Rightarrow> 'v bnode \<Rightarrow> bool \<times> 'v bnode \<Rightarrow> bool" where
  "rebuilt g bn st \<longleftrightarrow>
     (case st of
        (same, new) \<Rightarrow>
          bn_ok new \<and> (\<forall>b. bn_get new b = Option.bind (bn_get bn b) (\<lambda>cf. snd (g b cf))) \<and>
          (same \<longrightarrow> (\<forall>b cf. bn_get bn b = Some cf \<longrightarrow> fst (g b cf) \<and> snd (g b cf) \<noteq> None)))"

lemma bn_empty_iff:
  assumes "bn_ok bn"
  shows "is_empty_mask (bn_mask bn) \<longleftrightarrow> (\<forall>b. bn_get bn b = None)"
    and "length (bn_values bn) = 0 \<longleftrightarrow> is_empty_mask (bn_mask bn)"
proof -
  obtain m cfs where bn: "bn = BN m cfs" by (cases bn)
  have ok: "bn_ok (BN m cfs)" using assms bn by simp
  show e: "is_empty_mask (bn_mask bn) \<longleftrightarrow> (\<forall>b. bn_get bn b = None)"
    using mbit_less[of m] by (auto simp: bn bn_get_alt[OF ok] is_empty_mask_mbit) (metis unat_to_u8)
  show "length (bn_values bn) = 0 \<longleftrightarrow> is_empty_mask (bn_mask bn)"
    using ok by (simp add: bn bn_ok_BN is_empty_mask_mbit rank_def filter_empty_conv) (use mbit_less in auto)
qed

lemma bn_den_bind: "bn_den den bn (b # rest) = Option.bind (bn_get bn b) (\<lambda>cf. cf_den den cf rest)"
  by (simp add: bn_den_def split: option.split)

lemma rebuilt_stands:
  assumes wf: "wf_node (ByteN bn)" and r: "rebuilt g bn (same, new)"
    and g: "\<And>b cf. bn_get bn b = Some cf \<Longrightarrow> entry_stands (h b) cf (g b cf)"
    and f: "\<And>b rest. f (b # rest) = Option.bind (bn_get bn b) (\<lambda>cf. h b rest)" "f [] = None"
  shows "left_stands f (ByteN bn) (byte_node_result (same, new))"
proof -
  have ok: "bn_ok new" and get: "bn_get new b = Option.bind (bn_get bn b) (\<lambda>cf. snd (g b cf))" for b
    using r by (auto simp: rebuilt_def)
  have same: "fst (g b cf) \<and> snd (g b cf) \<noteq> None" if "same" "bn_get bn b = Some cf" for b cf
    using r that by (auto simp: rebuilt_def)
  have dn: "den (ByteN new) = f"
  proof (rule bn_den_eqI)
    fix b rest
    show "entry_den new b rest = f (b # rest)"
      using g[of b] by (cases "bn_get bn b")
        (auto simp: f bn_den_bind get entry_stands_def simp flip: bn_den_Cons simp del: bn_den_Cons split: prod.splits option.splits)
  qed (simp add: f)
  have "wf_node (ByteN new)"
    using ok g unfolding wf_byte_entries by (fastforce simp: bn_rec_def bind_eq_Some_conv get entry_stands_def cf_wf_def)
  moreover have "den (ByteN bn) = f" if "same"
  proof (rule bn_den_eqI)
    fix b rest
    show "entry_den bn b rest = f (b # rest)"
      using g[of b] same[OF that, of b] by (cases "bn_get bn b")
        (auto simp: f bn_den_bind entry_stands_def simp flip: bn_den_Cons simp del: bn_den_Cons split: prod.splits option.splits)
  qed (simp add: f)
  moreover have "f = Map.empty" if "is_empty_mask (bn_mask new)"
    using that bn_empty_iff(1)[OF ok] by (auto simp: dn[symmetric] fun_eq_iff bn_den_def split: list.split)
  ultimately show ?thesis using dn by (simp add: byte_node_result_def del: wf_node_simps)
qed

subsection \<open>The loop of \<open>for_each_item\<close>\<close>

lemma byte_of_item: "64 * to_u8 i + to_u8 index = to_u8 (64 * i + index)"
  by (simp add: to_u8_def)

lemma for_each_item_entries:
  assumes "bn_ok bn"
  shows "map (\<lambda>(k, i). (k, bn_values bn ! i)) (for_each_item bn) = byte_entries bn"
proof -
  obtain m cfs where bn: "bn = BN m cfs" by (cases bn)
  have b: "map (\<lambda>(i, index). 64 * to_u8 i + to_u8 index) (mask_items m) = map to_u8 (bits m)"
    unfolding mask_items_bits[symmetric] by (auto simp: byte_of_item)
  have len: "length (mask_items m) = length cfs" "length (bits m) = length cfs"
    using assms arg_cong[OF mask_items_bits[of m], of length] by (auto simp: bn bn_ok_BN length_bits)
  have "map (\<lambda>(k, i). (k, cfs ! i)) (zip (map to_u8 (bits m)) [0..<length cfs]) = zip (map to_u8 (bits m)) (map ((!) cfs) [0..<length cfs])"
    by (simp add: zip_map2)
  also have "\<dots> = map (\<lambda>(n, cf). (to_u8 n, cf)) (zip (bits m) cfs)"
    by (simp add: map_nth zip_map1)
  finally show ?thesis by (simp add: bn for_each_item_def b len byte_entries_def)
qed

definition keep_item :: "'v entry_op \<Rightarrow> u8 \<times> ('v node, 'v) cofree \<Rightarrow> bool \<times> 'v bnode \<Rightarrow> bool \<times> 'v bnode" where
  "keep_item g e st =
     (case snd (g (fst e) (snd e)) of
        None \<Rightarrow> (False, snd st)
      | Some cf' \<Rightarrow> (fst st \<and> fst (g (fst e) (snd e)), bn_push (fst e) cf' (snd st)))"

definition kept :: "'v entry_op \<Rightarrow> (u8 \<times> ('v node, 'v) cofree) list \<Rightarrow> (u8 \<times> ('v node, 'v) cofree) list" where
  "kept g es = List.map_filter (\<lambda>(k, cf). map_option (Pair k) (snd (g k cf))) es"

lemma kept_simps [simp]:
  "kept g [] = []"
  "kept g (e # es) = (case snd (g (fst e) (snd e)) of None \<Rightarrow> kept g es | Some cf' \<Rightarrow> (fst e, cf') # kept g es)"
  by (simp_all add: kept_def map_filter_simps case_prod_beta split: option.split)

lemma kept_append: "kept g (es @ es') = kept g es @ kept g es'"
  by (induction es) (auto split: option.split)

lemma kept_keys: "fst ` set (kept g es) \<subseteq> fst ` set es"
  by (induction es) (auto split: option.splits)

lemma kept_sorted: "sorted_wrt (<) (map fst es) \<Longrightarrow> sorted_wrt (<) (map fst (kept g es))"
  using kept_keys[of g] by (induction es) (fastforce split: option.splits)+

lemma kept_map_of:
  "distinct (map fst es) \<Longrightarrow> map_of (kept g es) b = Option.bind (map_of es b) (\<lambda>cf. snd (g b cf))"
proof (induction es)
  case (Cons e es)
  have "map_of es (fst e) = None" using Cons(2) by (simp add: map_of_eq_None_iff)
  then show ?case using Cons by (auto split: option.split)
qed simp

lemma fold_keep_item:
  "fold (keep_item g) es (True, new_byte_node) =
    (\<forall>(k, cf) \<in> set es. fst (g k cf) \<and> snd (g k cf) \<noteq> None, collect (kept g es))"
proof (induction es rule: rev_induct)
  case Nil then show ?case by (simp add: collect_def)
next
  case (snoc e es)
  then show ?case
    by (cases e) (auto simp: keep_item_def kept_append collect_snoc split: option.split)
qed

lemma sorted_wrt_less_distinct: "sorted_wrt (<) (xs :: 'a :: linorder list) \<Longrightarrow> distinct xs"
  by (simp add: strict_sorted_iff)

lemma keep_items_rebuilt:
  assumes "bn_ok bn"
  shows "rebuilt g bn (fold (keep_item g) (byte_entries bn) (True, new_byte_node))"
proof -
  have s: "sorted_wrt (<) (map fst (byte_entries bn))" by (rule byte_entries_sorted)
  note c = collect_spec[OF kept_sorted[OF s, of g]]
  have d: "distinct (map fst (byte_entries bn))" using s by (rule sorted_wrt_less_distinct)
  have m: "map_of (byte_entries bn) b = bn_get bn b" for b by (rule byte_entries_map_of[OF assms])
  have "(b, cf) \<in> set (byte_entries bn)" if "bn_get bn b = Some cf" for b cf
    using that m[of b] by (auto dest: map_of_SomeD)
  then show ?thesis
    using c kept_map_of[OF d, of g] unfolding rebuilt_def fold_keep_item by (fastforce simp: m)
qed

lemma fold_items_entries:
  assumes "bn_ok bn" "\<And>k i st. f (k, i) st = keep_item g (k, bn_values bn ! i) st"
  shows "rebuilt g bn (fold f (for_each_item bn) (True, new_byte_node))"
proof -
  have "f = keep_item g \<circ> (\<lambda>(k, i). (k, bn_values bn ! i))" using assms(2) by (auto simp: fun_eq_iff)
  then have "fold f (for_each_item bn) = fold (keep_item g) (map (\<lambda>(k, i). (k, bn_values bn ! i)) (for_each_item bn))"
    by (simp add: fold_map)
  then show ?thesis using keep_items_rebuilt[OF assms(1)] for_each_item_entries[OF assms(1)] by metis
qed

subsection \<open>What the other node holds at a byte\<close>

lemma wf_children: "wf_node n \<Longrightarrow> c \<in> set (node_children n) \<Longrightarrow> wf_node c"
  by (subst (asm) wf_node.simps) blast

lemma slot_child_mem: "is_used_child s \<Longrightarrow> the (slot_child s) \<in> set (slot_children s)"
  by (cases s; cases "snd (the s)") auto

lemma borrowed_child:
  assumes "node_get_node_at_key S node key = BorrowedRc n"
  shows "n \<in> set (node_children node)"
proof (cases node)
  case (ListN ln)
  then show ?thesis using assms slot_child_mem[of "slot0 ln"] slot_child_mem[of "slot1 ln"]
    by (auto simp: ln_get_node_at_key_def sub_node_ref_def split: if_splits)
next
  case (ByteN bn)
  then show ?thesis using assms
    by (auto simp: bn_get_node_at_key_def split: if_splits option.splits intro: bn_get_child_mem simp del: node_children.simps)
qed (use assms in simp)

lemma single_byte_child: "wf_node node \<Longrightarrow> node_get_child node [b] = Some (n, c) \<Longrightarrow> n = 1"
  using node_get_child_bounds[of node "[b]" n c] by simp

lemma node_at_byte:
  assumes "slice_utils_ok S" "wf_node node"
  shows "case ref_try_as_tagged (node_get_node_at_key S node [b]) of
      None \<Rightarrow> (\<forall>q. q \<noteq> [] \<longrightarrow> den node (b # q) = None)
    | Some n \<Rightarrow> wf_node n \<and> (\<forall>q. q \<noteq> [] \<longrightarrow> den n q = den node (b # q))"
proof -
  have spec: "case ref_into_option (node_get_node_at_key S node [b]) of
      None \<Rightarrow> (\<forall>q. q \<noteq> [] \<longrightarrow> den node ([b] @ q) = None)
    | Some n \<Rightarrow> wf_node n \<and> (\<forall>q. q \<noteq> [] \<longrightarrow> den n q = den node ([b] @ q))"
    by (rule node_get_node_at_key_spec[OF assms]) (use single_byte_child[OF assms(2)] in auto)
  show ?thesis
  proof (cases "node_get_node_at_key S node [b]")
    case (BorrowedRc n)
    have wf: "wf_node n" by (rule wf_children[OF assms(2) borrowed_child[OF BorrowedRc]])
    show ?thesis using spec wf empty_node_den[OF wf] by (auto simp: BorrowedRc split: if_splits)
  qed (use spec in auto)
qed

lemma node_val_at_byte:
  assumes "wf_node node"
  shows "node_get_val node [b] = den node [b]"
  by (rule node_here[OF assms]) (use single_byte_child[OF assms] in fastforce)+

lemma nothing_at_byte:
  assumes "slice_utils_ok S" "wf_node node" "\<not> node_contains_partial_key S node [b]"
  shows "den node (b # rest) = None"
proof (cases "node_get_child node [b]")
  case None
  then show ?thesis using no_path_below[OF assms(1,2) _ None assms(3)] by simp
next
  case (Some r)
  obtain n c where g: "node_get_child node [b] = Some (n, c)" using Some by (cases r) auto
  have False
  proof (cases node)
    case (ListN ln)
    then have wf: "wf_node (ListN ln)" using assms(2) by simp
    obtain k where k: "(k, Child c) \<in> slots_of ln" "prefix k [b]"
      using g ln_get_child_iff[OF wf, of "[b]" n c] by (auto simp: ListN)
    then have "k = [b]" using wf_slot_elem[OF wf k(1)] by (cases k) auto
    then have "slot_key (slot0 ln) = [b] \<or> slot_key (slot1 ln) = [b]" using k(1) by (auto simp: slots_of_def)
    then show False using assms(1,3) by (auto simp: ListN ln_contains_partial_key_def get_both_keys_def)
  next
    case (ByteN bn)
    then show False using g assms(3)
      by (auto simp: bn_contains_partial_key_def bn_get_child_def bn_get_def split: if_splits option.splits)
  qed (use g in simp)
  then show ?thesis ..
qed

subsection \<open>Byte nodes against a node of another kind\<close>

definition subtract_entry ::
  "('v node \<Rightarrow> 'v node \<Rightarrow> 'v node algebraic_result) \<Rightarrow> ('v \<Rightarrow> 'v \<Rightarrow> 'v algebraic_result) \<Rightarrow> slice_utils \<Rightarrow>
   'v node \<Rightarrow> 'v entry_op" where
  "subtract_entry P psub S other k cf =
     (if node_contains_partial_key S other [k] then
        let v = subtract_entry_val psub (cf_val cf) (node_get_val other [k]);
            r = subtract_entry_rec P (cf_rec cf) (ref_try_as_tagged (node_get_node_at_key S other [k]))
        in (fst v \<and> fst r, if snd r \<noteq> None \<or> snd v \<noteq> None then Some (CoFree (snd r) (snd v)) else None)
      else (True, Some cf))"

lemma subtract_item_keep:
  "subtract_item P psub S self other (k, i) st = keep_item (subtract_entry P psub S other) (k, bn_values self ! i) st"
  by (cases st) (auto simp: subtract_item_def keep_item_def subtract_entry_def cf_has_rec_def cf_has_val_def Let_def split: prod.split)

lemma subtract_val_stands:
  assumes "self_only psub"
  shows "snd (subtract_entry_val psub x y) = sub_opt psub x y \<and> (fst (subtract_entry_val psub x y) \<longrightarrow> sub_opt psub x y = x)"
  using self_onlyD[OF assms, of "the x" "the y"]
  by (cases "psub (the x) (the y)")
    (auto simp: subtract_entry_val_def sub_opt_def SELF_IDENT_def split: option.split)

text \<open>The map below an optional link.\<close>

definition rec_den :: "'v node option \<Rightarrow> path \<Rightarrow> 'v option" where
  "rec_den r q = (case r of None \<Rightarrow> None | Some c \<Rightarrow> den c q)"

lemma rec_den_simps [simp]: "rec_den None q = None" "rec_den (Some c) q = den c q"
  by (simp_all add: rec_den_def)

lemma cf_den_rec: "cf_den den cf q = (if q = [] then cf_val cf else rec_den (cf_rec cf) q)"
  by (simp add: cf_den_def rec_den_def)

lemma subtract_rec_stands:
  assumes wf: "\<And>c. x = Some c \<Longrightarrow> wf_node c"
    and P: "\<And>c oc. x = Some c \<Longrightarrow> wf_node oc \<Longrightarrow> left_stands (\<lambda>q. sub_opt psub (den c q) (den oc q)) c (P c oc)"
    and y: "case y of None \<Rightarrow> (\<forall>q. q \<noteq> [] \<longrightarrow> e q = None) | Some n \<Rightarrow> wf_node n \<and> (\<forall>q. q \<noteq> [] \<longrightarrow> den n q = e q)"
    and r: "subtract_entry_rec P x y = (same, z)"
  shows "(\<forall>c. z = Some c \<longrightarrow> wf_node c) \<and> (\<forall>q. q \<noteq> [] \<longrightarrow> rec_den z q = sub_opt psub (rec_den x q) (e q)) \<and>
    (same \<longrightarrow> (\<forall>q. q \<noteq> [] \<longrightarrow> rec_den x q = sub_opt psub (rec_den x q) (e q)))"
proof (cases x)
  case None
  then show ?thesis using r by (simp add: subtract_entry_rec_def)
next
  case (Some c)
  show ?thesis
  proof (cases "node_is_empty c")
    case True
    then show ?thesis using r empty_node_den[OF wf[OF Some]] by (auto simp: subtract_entry_rec_def Some)
  next
    case False
    show ?thesis
    proof (cases y)
      case None
      then show ?thesis using r y wf False by (auto simp: subtract_entry_rec_def Some)
    next
      case (Some n)
      then have n: "wf_node n" "\<And>q. q \<noteq> [] \<Longrightarrow> den n q = e q" using y by auto
      have p: "left_stands (\<lambda>q. sub_opt psub (den c q) (den n q)) c (P c n)" by (rule P[OF \<open>x = Some c\<close> n(1)])
      show ?thesis
        using p r wf n(1) n(2)[symmetric] False unfolding Some \<open>x = Some c\<close>
        by (cases "P c n") (auto simp: subtract_entry_rec_def fun_eq_iff)
    qed
  qed
qed

lemma subtract_entry_stands:
  assumes S: "slice_utils_ok S" and other: "wf_node other" and cf: "cf_wf cf"
    and P: "\<And>c oc. cf_rec cf = Some c \<Longrightarrow> wf_node oc \<Longrightarrow> left_stands (\<lambda>q. sub_opt psub (den c q) (den oc q)) c (P c oc)"
    and psub: "self_only psub"
  shows "entry_stands (\<lambda>q. sub_opt psub (cf_den den cf q) (den other (k # q))) cf (subtract_entry P psub S other k cf)"
proof (cases "node_contains_partial_key S other [k]")
  case False
  then have "den other (k # q) = None" for q by (rule nothing_at_byte[OF S other])
  then show ?thesis using False cf by (simp add: subtract_entry_def entry_stands_def)
next
  case True
  obtain vs nv where v: "subtract_entry_val psub (cf_val cf) (node_get_val other [k]) = (vs, nv)" by fastforce
  obtain rs nr where r: "subtract_entry_rec P (cf_rec cf) (ref_try_as_tagged (node_get_node_at_key S other [k])) = (rs, nr)" by fastforce
  have V: "nv = sub_opt psub (cf_val cf) (den other [k])" "vs \<Longrightarrow> sub_opt psub (cf_val cf) (den other [k]) = cf_val cf"
    using subtract_val_stands[OF psub, of "cf_val cf" "node_get_val other [k]"]
    unfolding v by (auto simp: node_val_at_byte[OF other])
  have R: "(\<forall>c. nr = Some c \<longrightarrow> wf_node c) \<and> (\<forall>q. q \<noteq> [] \<longrightarrow> rec_den nr q = sub_opt psub (rec_den (cf_rec cf) q) (den other (k # q))) \<and>
      (rs \<longrightarrow> (\<forall>q. q \<noteq> [] \<longrightarrow> rec_den (cf_rec cf) q = sub_opt psub (rec_den (cf_rec cf) q) (den other (k # q))))"
    by (rule subtract_rec_stands[OF _ P node_at_byte[OF S other] r]) (use cf in \<open>auto simp: cf_wf_def\<close>)
  show ?thesis
    using True V R by (auto simp: subtract_entry_def v r entry_stands_def cf_wf_def cf_den_rec fun_eq_iff)
qed

lemma entries_wf: "wf_node (ByteN bn) \<Longrightarrow> bn_get bn b = Some cf \<Longrightarrow> cf_wf cf"
  using wf_entry by (auto simp: cf_wf_def)

lemma entry_child: "bn_get bn b = Some cf \<Longrightarrow> cf_rec cf = Some c \<Longrightarrow> c \<in> set (node_children (ByteN bn))"
  by (rule bn_get_child_mem)

lemma psubtract_abstract_stands:
  assumes S: "slice_utils_ok S" and wf: "wf_node (ByteN bn)" and other: "wf_node other"
    and P: "\<And>c oc. c \<in> set (node_children (ByteN bn)) \<Longrightarrow> wf_node oc \<Longrightarrow>
      left_stands (\<lambda>q. sub_opt psub (den c q) (den oc q)) c (P c oc)"
    and psub: "self_only psub"
  shows "left_stands (\<lambda>q. sub_opt psub (den (ByteN bn) q) (den other q)) (ByteN bn) (psubtract_abstract P psub S bn other)"
proof -
  have ok: "bn_ok bn" using wf by simp
  have r: "rebuilt (subtract_entry P psub S other) bn
      (fold (subtract_item P psub S bn other) (for_each_item bn) (True, new_byte_node))"
    by (rule fold_items_entries[OF ok subtract_item_keep])
  obtain same new where st: "fold (subtract_item P psub S bn other) (for_each_item bn) (True, new_byte_node) = (same, new)" by fastforce
  show ?thesis unfolding psubtract_abstract_def st
  proof (rule rebuilt_stands[OF wf r[unfolded st], where h = "\<lambda>b rest. sub_opt psub (bn_den den bn (b # rest)) (den other (b # rest))"])
    fix b cf assume g: "bn_get bn b = Some cf"
    have "entry_stands (\<lambda>q. sub_opt psub (cf_den den cf q) (den other (b # q))) cf (subtract_entry P psub S other b cf)"
      using entry_child[OF g] by (intro subtract_entry_stands[OF S other entries_wf[OF wf g] P psub]) auto
    then show "entry_stands (\<lambda>rest. sub_opt psub (bn_den den bn (b # rest)) (den other (b # rest))) cf (subtract_entry P psub S other b cf)"
      unfolding bn_den_bind g by simp
  next
    fix b rest
    show "sub_opt psub (den (ByteN bn) (b # rest)) (den other (b # rest)) =
        Option.bind (bn_get bn b) (\<lambda>cf. sub_opt psub (bn_den den bn (b # rest)) (den other (b # rest)))"
      unfolding den_simps bn_den_bind by (cases "bn_get bn b") auto
  qed simp
qed

text \<open>Restriction of one entry: \<open>e\<close> is what the other node holds from this byte on, \<open>y\<close> its link.\<close>

definition restrict_entry_to ::
  "('v node \<Rightarrow> 'v node \<Rightarrow> 'v node algebraic_result) \<Rightarrow> 'v option \<Rightarrow> 'v node option \<Rightarrow> ('v node, 'v) cofree \<Rightarrow>
   bool \<times> ('v node, 'v) cofree option" where
  "restrict_entry_to P val y cf =
     (if val \<noteq> None then (True, Some cf)
      else
        (case (cf_rec cf, y) of
           (Some c, Some oc) \<Rightarrow>
             (case P c oc of
                RNone \<Rightarrow> (False, None)
              | Identity m \<Rightarrow> (cf_val cf = None, Some (CoFree (Some c) None))
              | Element e \<Rightarrow> (False, Some (CoFree (Some e) None)))
         | _ \<Rightarrow> (False, None)))"

definition restrict_entry ::
  "('v node \<Rightarrow> 'v node \<Rightarrow> 'v node algebraic_result) \<Rightarrow> slice_utils \<Rightarrow> 'v node \<Rightarrow> 'v entry_op" where
  "restrict_entry P S other k cf =
     (if node_contains_partial_key S other [k]
      then restrict_entry_to P (node_get_val other [k]) (ref_try_as_tagged (node_get_node_at_key S other [k])) cf
      else (False, None))"

lemma restrict_item_keep:
  "restrict_item P S self other (k, i) st = keep_item (restrict_entry P S other) (k, bn_values self ! i) st"
  by (cases st)
    (auto simp: restrict_item_def keep_item_def restrict_entry_def restrict_entry_to_def Let_def
      split: option.split algebraic_result.split)

lemma restricted_at_val: "e [] \<noteq> None \<Longrightarrow> restricted d e = d"
  by (auto simp: restricted_def fun_eq_iff)

lemma restrict_entry_to_stands:
  assumes cf: "cf_wf cf"
    and P: "\<And>c oc. cf_rec cf = Some c \<Longrightarrow> wf_node oc \<Longrightarrow> left_stands (restricted (den c) (den oc)) c (P c oc)"
    and y: "case y of None \<Rightarrow> (\<forall>q. q \<noteq> [] \<longrightarrow> e q = None) | Some n \<Rightarrow> wf_node n \<and> (\<forall>q. q \<noteq> [] \<longrightarrow> den n q = e q)"
    and val: "val = e []"
  shows "entry_stands (restricted (cf_den den cf) e) cf (restrict_entry_to P val y cf)"
proof (cases "e []")
  case (Some v)
  then show ?thesis using cf val restricted_at_val[of e "cf_den den cf"]
    by (simp add: restrict_entry_to_def entry_stands_def)
next
  case None
  show ?thesis
  proof (cases y)
    case None
    then have "e q = None" for q using y \<open>e [] = None\<close> by (cases "q = []") auto
    then have "restricted (cf_den den cf) e = Map.empty" by (rule restricted_none)
    then show ?thesis using None val \<open>e [] = None\<close>
      by (simp add: restrict_entry_to_def entry_stands_def split: option.split)
  next
    case (Some n)
    then have n: "wf_node n" "\<And>q. q \<noteq> [] \<Longrightarrow> den n q = e q" using y by auto
    have eq: "restricted (cf_den den cf) e = (\<lambda>q. if q = [] then None else restricted (rec_den (cf_rec cf)) (den n) q)"
    proof -
      have "e = den n" using n(2) \<open>e [] = None\<close> wf_den_Nil[OF n(1)] by (auto simp: fun_eq_iff) metis
      then show ?thesis using wf_den_Nil[OF n(1)] by (auto simp: restricted_def fun_eq_iff cf_den_rec)
    qed
    show ?thesis
    proof (cases "cf_rec cf")
      case None
      then have "restricted (cf_den den cf) e = Map.empty" unfolding eq by (simp add: restricted_def fun_eq_iff)
      then show ?thesis using None val \<open>e [] = None\<close> by (simp add: restrict_entry_to_def entry_stands_def)
    next
      case (Some c)
      have wc: "wf_node c" using cf Some by (simp add: cf_wf_def)
      have "rec_den (cf_rec cf) = den c" by (simp add: Some fun_eq_iff)
      then have eq': "restricted (cf_den den cf) e = restricted (den c) (den n)"
        unfolding eq using wf_den_Nil[OF wc] by (auto simp: restricted_def fun_eq_iff)
      have p: "left_stands (restricted (den c) (den n)) c (P c n)" by (rule P[OF Some n(1)])
      have nil: "restricted (den c) (den n) [] = None" using wf_den_Nil[OF wc] by (simp add: restricted_def)
      show ?thesis
        using p wc val nil \<open>e [] = None\<close> unfolding eq'
        by (cases "P c n")
          (auto simp: restrict_entry_to_def \<open>y = Some n\<close> Some entry_stands_def cf_wf_def fun_eq_iff cf_den_rec wf_den_Nil)
    qed
  qed
qed

lemma restricted_Cons:
  assumes "e [] = None"
  shows "restricted d e (b # rest) = restricted (\<lambda>q. d (b # q)) (\<lambda>q. e (b # q)) rest"
proof -
  have "(\<exists>p. prefix p (b # rest) \<and> e p \<noteq> None) \<longleftrightarrow> (\<exists>p. prefix p rest \<and> e (b # p) \<noteq> None)"
    using assms by (metis prefix_Cons Cons_prefix_Cons)
  then show ?thesis by (simp add: restricted_def)
qed

lemma prestrict_abstract_stands:
  assumes S: "slice_utils_ok S" and wf: "wf_node (ByteN bn)" and other: "wf_node other"
    and P: "\<And>c oc. c \<in> set (node_children (ByteN bn)) \<Longrightarrow> wf_node oc \<Longrightarrow>
      left_stands (restricted (den c) (den oc)) c (P c oc)"
  shows "left_stands (restricted (den (ByteN bn)) (den other)) (ByteN bn) (prestrict_abstract P S bn other)"
proof -
  have ok: "bn_ok bn" using wf by simp
  have r: "rebuilt (restrict_entry P S other) bn
      (fold (restrict_item P S bn other) (for_each_item bn) (True, new_byte_node))"
    by (rule fold_items_entries[OF ok restrict_item_keep])
  obtain same new where st: "fold (restrict_item P S bn other) (for_each_item bn) (True, new_byte_node) = (same, new)" by fastforce
  have e0: "den other [] = None" by (rule wf_den_Nil[OF other])
  show ?thesis unfolding prestrict_abstract_def st
  proof (rule rebuilt_stands[OF wf r[unfolded st],
        where h = "\<lambda>b. restricted (\<lambda>q. bn_den den bn (b # q)) (\<lambda>q. den other (b # q))"])
    fix b cf assume g: "bn_get bn b = Some cf"
    have "entry_stands (restricted (cf_den den cf) (\<lambda>q. den other (b # q))) cf (restrict_entry P S other b cf)"
    proof (cases "node_contains_partial_key S other [b]")
      case False
      then have "den other (b # q) = None" for q by (rule nothing_at_byte[OF S other])
      then have "restricted (cf_den den cf) (\<lambda>q. den other (b # q)) = Map.empty" by (rule restricted_none)
      then show ?thesis using False by (simp add: restrict_entry_def entry_stands_def)
    next
      case True
      then show ?thesis
        using entry_child[OF g] node_at_byte[OF S other, of b] node_val_at_byte[OF other, of b]
        unfolding restrict_entry_def by (simp, intro restrict_entry_to_stands[OF entries_wf[OF wf g] P]) auto
    qed
    then show "entry_stands (restricted (\<lambda>q. bn_den den bn (b # q)) (\<lambda>q. den other (b # q))) cf (restrict_entry P S other b cf)"
      unfolding bn_den_bind g by simp
  next
    fix b rest
    show "restricted (den (ByteN bn)) (den other) (b # rest) =
        Option.bind (bn_get bn b) (\<lambda>cf. restricted (\<lambda>q. bn_den den bn (b # q)) (\<lambda>q. den other (b # q)) rest)"
      unfolding restricted_Cons[of "den other", OF e0] den_simps bn_den_bind by (cases "bn_get bn b") (auto simp: restricted_def)
  qed (simp add: restricted_def)
qed

subsection \<open>Entries against entries\<close>

definition entry_of ::
  "('v node, 'v) cofree \<Rightarrow> ('v node, 'v) cofree algebraic_result \<Rightarrow> bool \<times> ('v node, 'v) cofree option" where
  "entry_of cf r = (case r of RNone \<Rightarrow> (False, None) | Identity m \<Rightarrow> (True, Some cf) | Element cf' \<Rightarrow> (False, Some cf'))"

text \<open>The results of the two fields of an entry.\<close>

definition val_field :: "'v option \<Rightarrow> 'v option \<Rightarrow> 'v option algebraic_result \<Rightarrow> bool" where
  "val_field v self r \<longleftrightarrow>
     (case r of RNone \<Rightarrow> v = None | Identity m \<Rightarrow> m = SELF_IDENT \<and> v = self | Element x \<Rightarrow> v = x)"

definition rec_field :: "(path \<Rightarrow> 'v option) \<Rightarrow> 'v node option \<Rightarrow> 'v node option algebraic_result \<Rightarrow> bool" where
  "rec_field g self r \<longleftrightarrow>
     (case r of
        RNone \<Rightarrow> \<forall>q. q \<noteq> [] \<longrightarrow> g q = None
      | Identity m \<Rightarrow> m = SELF_IDENT \<and> (\<forall>q. q \<noteq> [] \<longrightarrow> g q = rec_den self q)
      | Element x \<Rightarrow> (\<exists>n. x = Some n \<and> wf_node n \<and> (\<forall>q. q \<noteq> [] \<longrightarrow> g q = den n q)))"

lemma ident_masks [simp]:
  "SELF_IDENT AND NOT SELF_IDENT = 0" "SELF_IDENT AND NOT COUNTER_IDENT = SELF_IDENT"
  by (simp_all add: SELF_IDENT_def COUNTER_IDENT_def)

lemma combine_entry_stands:
  assumes cf: "cf_wf self" and R: "rec_field g (cf_rec self) R" and V: "val_field v (cf_val self) V"
  shows "entry_stands (\<lambda>q. if q = [] then v else g q) self (entry_of self (combine_algebraic_results self other R V))"
proof -
  have h: "cf_den den cf = (\<lambda>q. if q = [] then v else g q)"
    if "cf_val cf = v" "\<And>q. q \<noteq> [] \<Longrightarrow> rec_den (cf_rec cf) q = g q" for cf
    using that by (auto simp: cf_den_rec fun_eq_iff)
  have w: "cf_wf (CoFree r x) \<longleftrightarrow> (\<forall>c. r = Some c \<longrightarrow> wf_node c)" for r and x :: "'a option" by (simp add: cf_wf_def)
  show ?thesis
  proof (cases R)
    case RNone
    then have g: "q \<noteq> [] \<Longrightarrow> g q = None" for q using R by (simp add: rec_field_def)
    show ?thesis
    proof (cases V)
      case (Identity m)
      then have m: "m = SELF_IDENT" "v = cf_val self" using V by (auto simp: val_field_def)
      show ?thesis using cf g
        by (cases "cf_rec self")
          (auto simp: RNone Identity m combine_algebraic_results_def entry_of_def entry_stands_def w fun_eq_iff cf_den_rec)
    qed (use V g in \<open>auto simp: RNone val_field_def combine_algebraic_results_def entry_of_def entry_stands_def w fun_eq_iff cf_den_rec
          split: option.split\<close>)
  next
    case (Identity m)
    then have m: "m = SELF_IDENT" and g: "q \<noteq> [] \<Longrightarrow> g q = rec_den (cf_rec self) q" for q using R by (auto simp: rec_field_def)
    have wr: "\<forall>c. cf_rec self = Some c \<longrightarrow> wf_node c" using cf by (simp add: cf_wf_def)
    show ?thesis
    proof (cases V)
      case RNone
      then have "v = None" using V by (simp add: val_field_def)
      then show ?thesis using cf g wr
        by (cases "cf_val self")
          (auto simp: RNone Identity m combine_algebraic_results_def entry_of_def entry_stands_def w fun_eq_iff cf_den_rec)
    next
      case Id: (Identity m')
      then have "m' = SELF_IDENT" "v = cf_val self" using V by (auto simp: val_field_def)
      then show ?thesis using cf g
        by (auto simp: Id Identity m combine_algebraic_results_def entry_of_def entry_stands_def fun_eq_iff cf_den_rec)
    next
      case (Element x)
      then have "v = x" using V by (simp add: val_field_def)
      then show ?thesis using cf g wr
        by (cases x) (auto simp: Element Identity m combine_algebraic_results_def entry_of_def entry_stands_def w fun_eq_iff cf_den_rec)
    qed
  next
    case (Element x)
    then obtain n where n: "x = Some n" "wf_node n" "\<And>q. q \<noteq> [] \<Longrightarrow> g q = den n q" using R by (auto simp: rec_field_def)
    have V': "map_into_option (flatten_result V) (\<lambda>i. if i = 0 then cf_val self else cf_val other) = v"
      using V by (cases V) (auto simp: val_field_def split: option.split)
    then show ?thesis using n
      by (cases V) (auto simp: Element combine_algebraic_results_def entry_of_def entry_stands_def w fun_eq_iff cf_den_rec)
  qed
qed

lemma cf_psubtract_stands:
  assumes cf: "cf_wf self" "cf_wf other" and peq: "\<And>a b. peq a b \<Longrightarrow> a = b"
    and P: "\<And>c oc. cf_rec self = Some c \<Longrightarrow> wf_node oc \<Longrightarrow> left_stands (\<lambda>q. sub_opt psub (den c q) (den oc q)) c (P c oc)"
    and psub: "self_only psub" "\<And>v. resolve (psub v v) v v = None"
  shows "entry_stands (\<lambda>q. sub_opt psub (cf_den den self q) (cf_den den other q)) self (entry_of self (cf_psubtract peq P psub self other))"
proof -
  let ?rec = "case cf_rec self of Some child \<Rightarrow> if node_is_empty child then None else Some child | None \<Rightarrow> None"
  let ?g = "\<lambda>q. sub_opt psub (rec_den (cf_rec self) q) (rec_den (cf_rec other) q)"
  have V: "val_field (sub_opt psub (cf_val self) (cf_val other)) (cf_val self) (option_psubtract psub (cf_val self) (cf_val other))"
    using self_onlyD[OF psub(1), of "the (cf_val self)" "the (cf_val other)"]
    by (cases "cf_val self"; cases "cf_val other"; cases "psub (the (cf_val self)) (the (cf_val other))")
      (auto simp: val_field_def)
  have R: "rec_field ?g (cf_rec self) (option_psubtract (odrc_psubtract peq P) ?rec (cf_rec other))"
  proof (cases "cf_rec self")
    case None
    then show ?thesis by (simp add: rec_field_def)
  next
    case (Some c)
    have wc: "wf_node c" using cf(1) Some by (simp add: cf_wf_def)
    show ?thesis
    proof (cases "node_is_empty c")
      case True
      then show ?thesis using Some empty_node_den[OF wc] by (simp add: rec_field_def)
    next
      case False
      show ?thesis
      proof (cases "cf_rec other")
        case None
        then show ?thesis using Some False by (simp add: rec_field_def)
      next
        case o: (Some oc)
        have wo: "wf_node oc" using cf(2) o by (simp add: cf_wf_def)
        show ?thesis
        proof (cases "peq c oc")
          case True
          have "sub_opt psub x x = None" for x using psub(2) by (cases x) auto
          then show ?thesis using peq[OF True] True Some o False by (simp add: rec_field_def odrc_psubtract_def)
        next
          case no: False
          have "left_stands (\<lambda>q. sub_opt psub (den c q) (den oc q)) c (P c oc)" by (rule P[OF Some wo])
          then show ?thesis using no Some o False
            by (cases "P c oc") (auto simp: rec_field_def odrc_psubtract_def fun_eq_iff)
        qed
      qed
    qed
  qed
  have "(\<lambda>q. sub_opt psub (cf_den den self q) (cf_den den other q)) = (\<lambda>q. if q = [] then sub_opt psub (cf_val self) (cf_val other) else ?g q)"
    by (simp add: fun_eq_iff cf_den_rec)
  then show ?thesis using combine_entry_stands[OF cf(1) R V, of other] by (simp add: cf_psubtract_def Let_def)
qed

lemma cf_prestrict_stands:
  assumes cf: "cf_wf self" "cf_wf other"
    and P: "\<And>c oc. cf_rec self = Some c \<Longrightarrow> wf_node oc \<Longrightarrow> left_stands (restricted (den c) (den oc)) c (P c oc)"
  shows "entry_stands (restricted (cf_den den self) (cf_den den other)) self (entry_of self (cf_prestrict P self other))"
proof -
  have "entry_stands (restricted (cf_den den self) (cf_den den other)) self (restrict_entry_to P (cf_val other) (cf_rec other) self)"
    by (rule restrict_entry_to_stands[OF cf(1) P]) (use cf(2) in \<open>auto simp: cf_wf_def cf_den_rec split: option.split\<close>)
  moreover have "snd (entry_of self (cf_prestrict P self other)) = snd (restrict_entry_to P (cf_val other) (cf_rec other) self)"
    "fst (entry_of self (cf_prestrict P self other)) \<longrightarrow> fst (restrict_entry_to P (cf_val other) (cf_rec other) self)"
    by (cases self; cases "cf_val self"; auto simp: restrict_entry_to_def cf_prestrict_def entry_of_def cf_has_val_def
        split: option.split algebraic_result.split)+
  ultimately show ?thesis by (auto simp: entry_stands_def split: option.splits)
qed

subsection \<open>Byte nodes against byte nodes\<close>

definition against :: "(('v node, 'v) cofree \<Rightarrow> ('v node, 'v) cofree \<Rightarrow> ('v node, 'v) cofree algebraic_result) \<Rightarrow>
    bool \<times> ('v node, 'v) cofree option \<Rightarrow> 'v bnode \<Rightarrow> 'v entry_op" where
  "against cf_op missing other k cf =
     (case bn_get other k of None \<Rightarrow> missing | Some ocf \<Rightarrow> entry_of cf (cf_op cf ocf))"

text \<open>In \<open>ByteNode::psubtract\<close> an entry the other node lacks stays.\<close>

definition subtract_against ::
  "(('v node, 'v) cofree \<Rightarrow> ('v node, 'v) cofree \<Rightarrow> ('v node, 'v) cofree algebraic_result) \<Rightarrow> 'v bnode \<Rightarrow> 'v entry_op" where
  "subtract_against cf_sub other k cf = against cf_sub (True, Some cf) other k cf"

text \<open>The state of the loop after the entries of the bytes \<open>K\<close>.\<close>

definition half_rebuilt :: "'v entry_op \<Rightarrow> 'v bnode \<Rightarrow> u8 set \<Rightarrow> bool \<times> 'v bnode \<Rightarrow> bool" where
  "half_rebuilt g bn K st \<longleftrightarrow>
     (case st of
        (same, new) \<Rightarrow>
          bn_ok new \<and>
          (\<forall>b. bn_get new b = (if b \<in> K then Option.bind (bn_get bn b) (\<lambda>cf. snd (g b cf)) else bn_get bn b)) \<and>
          (same \<longrightarrow> (\<forall>b cf. b \<in> K \<longrightarrow> bn_get bn b = Some cf \<longrightarrow> fst (g b cf) \<and> snd (g b cf) \<noteq> None)))"

lemma half_rebuilt_all:
  assumes "half_rebuilt g bn {k. bn_get bn k \<noteq> None} st"
  shows "rebuilt g bn st"
proof -
  obtain same new where st: "st = (same, new)" by (cases st)
  have "bn_get new b = Option.bind (bn_get bn b) (\<lambda>cf. snd (g b cf))" for b
    using assms by (cases "bn_get bn b") (auto simp: half_rebuilt_def st dest!: spec[of _ b])
  then show ?thesis using assms by (auto simp: rebuilt_def half_rebuilt_def st)
qed

lemma bits_to_u8: "n \<in> set (bits m) \<Longrightarrow> unat (to_u8 n) = n"
  using bits_bounds[of n m] by simp

lemma mask_items_byte:
  assumes "(i, index) \<in> set (mask_items m)"
  shows "64 * i + index \<in> set (bits m)" "unat (to_u8 (64 * i + index)) = 64 * i + index"
proof -
  show "64 * i + index \<in> set (bits m)"
    unfolding mask_items_bits[symmetric] using assms by force
  then show "unat (to_u8 (64 * i + index)) = 64 * i + index" by (rule bits_to_u8)
qed

lemma bn_has_mbit: "bn_ok bn \<Longrightarrow> bn_get bn b \<noteq> None \<longleftrightarrow> mbit (bn_mask bn) (unat b)"
  by (cases bn) (simp add: bn_get_alt)

lemma psubtract_bit_step:
  assumes ok: "bn_ok self" "bn_ok other" and it: "(i, index) \<in> set (mask_items (bn_mask self))"
    and k: "k = to_u8 (64 * i + index)" "k \<notin> K"
    and inv: "half_rebuilt (subtract_against cf_sub other) self K st"
  shows "half_rebuilt (subtract_against cf_sub other) self (insert k K) (bn_psubtract_bit cf_sub self other (i, index) st)"
proof -
  obtain same new where st: "st = (same, new)" by (cases st)
  have new: "bn_ok new" "bn_get new b = (if b \<in> K then Option.bind (bn_get self b) (\<lambda>cf. snd (subtract_against cf_sub other b cf)) else bn_get self b)"
    "same \<longrightarrow> (\<forall>b cf. b \<in> K \<longrightarrow> bn_get self b = Some cf \<longrightarrow> fst (subtract_against cf_sub other b cf) \<and> snd (subtract_against cf_sub other b cf) \<noteq> None)" for b
    using inv by (auto simp: half_rebuilt_def st)
  have uk: "unat k = 64 * i + index" using mask_items_byte[OF it] k(1) by simp
  have "mbit (bn_mask self) (unat k)" using mask_items_byte(1)[OF it] bits_bounds by (auto simp: uk)
  then obtain lv where lv: "bn_get self k = Some lv" using bn_has_mbit[OF ok(1), of k] by auto
  have there: "bn_get new k \<noteq> None" using new(2)[of k] k(2) lv by simp
  have test: "push_bit index 1 AND word_at (bn_mask other) i \<noteq> 0 \<longleftrightarrow> bn_get other k \<noteq> None"
    unfolding bn_has_mbit[OF ok(2)] uk by (rule mask_items_bit[OF it])
  have kk: "64 * to_u8 i + to_u8 index = k" by (simp add: k(1) byte_of_item)
  show ?thesis
  proof (cases "bn_get other k")
    case None
    then have "bn_psubtract_bit cf_sub self other (i, index) st = st"
      using test by (simp add: bn_psubtract_bit_def st)
    then show ?thesis using new None lv k(2)
      by (auto simp: st half_rebuilt_def subtract_against_def against_def)
  next
    case (Some rv)
    then have step: "bn_psubtract_bit cf_sub self other (i, index) st =
        (case cf_sub lv rv of RNone \<Rightarrow> (False, snd (bn_remove k new)) | Identity m \<Rightarrow> (same, new) | Element jv \<Rightarrow> (False, bn_replace k jv new))"
      using test lv by (simp add: bn_psubtract_bit_def st kk Let_def)
    have g: "subtract_against cf_sub other k lv = entry_of lv (cf_sub lv rv)"
      by (simp add: subtract_against_def against_def Some)
    have rm: "snd (bn_remove k new) = bn_delete k new" using there by (auto simp: bn_remove_def)
    show ?thesis
      using new g lv k(2) bn_get_delete[OF new(1) there] bn_get_replace[OF new(1) there] unfolding step
      by (cases "cf_sub lv rv") (auto simp: half_rebuilt_def rm entry_of_def)
  qed
qed

lemma bn_psubtract_rebuilt:
  assumes "bn_ok self" "bn_ok other"
  shows "rebuilt (subtract_against cf_sub other) self
    (fold (bn_psubtract_bit cf_sub self other) (mask_items (bn_mask self)) (True, self))"
proof -
  let ?g = "subtract_against cf_sub other" and ?byte = "\<lambda>(i, index). to_u8 (64 * i + index)"
  have inv: "half_rebuilt ?g self (?byte ` set items) (fold (bn_psubtract_bit cf_sub self other) items (True, self))"
    if "set items \<subseteq> set (mask_items (bn_mask self))" "distinct (map ?byte items)" for items
    using that
  proof (induction items rule: rev_induct)
    case Nil then show ?case using assms by (simp add: half_rebuilt_def)
  next
    case (snoc it items)
    obtain i index where it: "it = (i, index)" by (cases it)
    show ?case
      using psubtract_bit_step[OF assms, of i index "to_u8 (64 * i + index)" "?byte ` set items" cf_sub] snoc
      by (auto simp: it)
  qed
  have b: "map ?byte (mask_items (bn_mask self)) = map to_u8 (bits (bn_mask self))"
    unfolding mask_items_bits[symmetric] by (simp add: comp_def case_prod_beta)
  have "inj_on to_u8 (set (bits (bn_mask self)))" by (rule inj_onI) (metis bits_to_u8)
  moreover have "distinct (bits (bn_mask self))" by (simp add: bits_def)
  ultimately have d: "distinct (map ?byte (mask_items (bn_mask self)))"
    unfolding b by (simp add: distinct_map)
  have "?byte ` set (mask_items (bn_mask self)) = to_u8 ` set (bits (bn_mask self))"
    using arg_cong[OF b, of set] by simp
  also have "\<dots> = {k. bn_get self k \<noteq> None}"
  proof (intro set_eqI iffI)
    fix k assume "k \<in> to_u8 ` set (bits (bn_mask self))"
    then show "k \<in> {k. bn_get self k \<noteq> None}" unfolding mem_Collect_eq bn_has_mbit[OF assms(1)] by (auto simp: bits_def)
  next
    fix k assume "k \<in> {k. bn_get self k \<noteq> None}"
    then have "unat k \<in> set (bits (bn_mask self))"
      unfolding mem_Collect_eq bn_has_mbit[OF assms(1)] using unat_u8_less[of k] by (simp add: bits_def)
    then show "k \<in> to_u8 ` set (bits (bn_mask self))" by (rule rev_image_eqI) simp
  qed
  finally have "half_rebuilt ?g self {k. bn_get self k \<noteq> None}
      (fold (bn_psubtract_bit cf_sub self other) (mask_items (bn_mask self)) (True, self))"
    using inv[OF order_refl d] by simp
  then show ?thesis by (rule half_rebuilt_all)
qed

subsection \<open>Loops over the words of two masks\<close>

lemma push_minus_one_mask: "idx < 64 \<Longrightarrow> bit (push_bit idx 1 - 1 :: u64) i \<longleftrightarrow> i < idx"
  by (auto simp: push_bit_of_1 mask_eq_exp_minus_1[symmetric] bit_mask_iff)

lemma slot_in_word_rank:
  assumes "i < 4" "idx < 64"
  shows "slot_in_word (word_at m i) (rank m (64 * i)) idx = rank m (64 * i + idx)"
proof -
  have "count_ones (word_at m i AND (push_bit idx 1 - 1)) = length (filter (bit (word_at m i)) [0..<idx])"
  proof -
    have "word_bits (word_at m i AND (push_bit idx 1 - 1)) = filter (\<lambda>k. bit (word_at m i) k \<and> k < idx) [0..<64]"
      unfolding word_bits_def by (intro filter_cong) (auto simp only: bit_and_iff push_minus_one_mask[OF assms(2)])
    also have "\<dots> = filter (bit (word_at m i)) [0..<idx]"
    proof -
      have "[0..<64] = [0..<idx] @ [idx..<64]" using assms(2) upt_split[of 0 idx 64] by simp
      then show ?thesis by (auto simp: filter_empty_conv simp del: upt_Suc intro!: filter_cong)
    qed
    finally show ?thesis by (metis length_word_bits)
  qed
  then show ?thesis using rank_word[OF assms(1), of idx m] assms(2)
    by (cases "idx = 0") (simp_all add: slot_in_word_def rank_def count_ones_card)
qed

definition word_loop ::
  "(nat \<Rightarrow> nat \<Rightarrow> nat \<Rightarrow> nat \<Rightarrow> 's \<Rightarrow> 's) \<Rightarrow> ('s \<Rightarrow> byte_mask) \<Rightarrow> byte_mask \<Rightarrow> byte_mask \<Rightarrow> nat \<Rightarrow> 's \<times> nat \<times> nat \<Rightarrow> 's \<times> nat \<times> nat" where
  "word_loop step mk A B i st =
     (case st of (s, a, b) \<Rightarrow>
        (fold (step a b i) (word_items (word_at (mk s) i)) s, a + count_ones (word_at A i), b + count_ones (word_at B i)))"

lemma word_loop_items:
  assumes "\<And>a b i idx s j. j \<noteq> i \<Longrightarrow> i < 4 \<Longrightarrow> j < 4 \<Longrightarrow> word_at (mk (step a b i idx s)) j = word_at (mk s) j"
  shows "fold (word_loop step mk A B) [0..<4] (s, 0, 0) =
    (fold (\<lambda>(i, idx). step (rank A (64 * i)) (rank B (64 * i)) i idx) (mask_items (mk s)) s, rank A 256, rank B 256)"
proof -
  let ?step = "\<lambda>(i, idx). step (rank A (64 * i)) (rank B (64 * i)) i idx"
  let ?items = "\<lambda>i. map (Pair i) (word_items (word_at (mk s) i))"
  let ?G = "\<lambda>n. fold ?step (concat (map ?items [0..<n])) s"
  have keep: "word_at (mk (fold ?step items s')) j = word_at (mk s') j"
    if "\<And>i idx. (i, idx) \<in> set items \<Longrightarrow> i \<noteq> j \<and> i < 4" "j < 4" for items s' j
    using that(1)
  proof (induction items arbitrary: s')
    case (Cons it items)
    obtain i idx where it: "it = (i, idx)" by (cases it)
    have "word_at (mk (fold ?step items (?step it s'))) j = word_at (mk (?step it s')) j"
      by (rule Cons(1)) (use Cons(2) in auto)
    moreover have "word_at (mk (?step it s')) j = word_at (mk s') j"
      using Cons(2)[of i idx] that(2) by (simp add: it assms)
    ultimately show ?case by simp
  qed simp
  have "fold (word_loop step mk A B) [0..<n] (s, 0, 0) = (?G n, rank A (64 * n), rank B (64 * n))" if "n \<le> 4" for n
    using that
  proof (induction n)
    case (Suc n)
    then have n: "n < 4" by simp
    have w: "word_at (mk (?G n)) n = word_at (mk s) n"
      by (rule keep) (use n in auto)
    have g: "fold (step (rank A (64 * n)) (rank B (64 * n)) n) xs s' = fold ?step (map (Pair n) xs) s'" for xs s'
      by (simp add: fold_map comp_def)
    show ?case
      using Suc rank_next_word[OF n] by (simp add: word_loop_def w g)
  qed simp
  from this[of 4] show ?thesis by (simp add: mask_items_def)
qed

subsection \<open>\<open>ByteNode::prestrict\<close>\<close>

definition restrict_against ::
  "(('v node, 'v) cofree \<Rightarrow> ('v node, 'v) cofree \<Rightarrow> ('v node, 'v) cofree algebraic_result) \<Rightarrow> 'v bnode \<Rightarrow> 'v entry_op" where
  "restrict_against cf_op other k cf = against cf_op (False, None) other k cf"

text \<open>A loop over the bits both masks have, after the bits \<open>done_bits\<close>: bits whose entries vanished
  are cleared, the entries that stay are collected.\<close>

definition shared_loop :: "(nat \<Rightarrow> 'e option) \<Rightarrow> byte_mask \<Rightarrow> nat list \<Rightarrow> byte_mask \<Rightarrow> 'e list \<Rightarrow> bool" where
  "shared_loop g M done_bits mm v \<longleftrightarrow>
     (\<forall>n. mbit mm n \<longleftrightarrow> mbit M n \<and> (n \<in> set done_bits \<longrightarrow> g n \<noteq> None)) \<and> v = List.map_filter g done_bits"

lemma shared_loop_node:
  assumes "shared_loop g M (bits M) mm v"
  shows "bn_ok (BN mm v)" and "bn_get (BN mm v) b = (if mbit M (unat b) then g (unat b) else None)"
proof -
  have m: "mbit mm n \<longleftrightarrow> mbit M n \<and> g n \<noteq> None" for n
    using assms mbit_less[of M n] by (auto simp: shared_loop_def bits_def)
  then have b: "bits mm = filter (\<lambda>n. g n \<noteq> None) (bits M)"
    unfolding bits_def filter_filter by (intro filter_cong) auto
  have v: "v = map (the \<circ> g) (bits mm)"
    using assms by (simp add: shared_loop_def b map_filter_def)
  show ok: "bn_ok (BN mm v)" unfolding bn_ok_BN v by (simp add: length_bits)
  have "unat b \<in> set (bits mm) \<longleftrightarrow> mbit mm (unat b)" using unat_u8_less[of b] by (simp add: bits_def)
  then show "bn_get (BN mm v) b = (if mbit M (unat b) then g (unat b) else None)"
    unfolding bn_get_map_of[OF ok] unfolding v map_of_zip_map using m[of "unat b"] by auto
qed

lemma mbit_clear_xor:
  assumes "i < 4" "idx < 64" "mbit mm (64 * i + idx)"
  shows "mbit (word_set mm i (word_at mm i XOR push_bit idx 1)) n \<longleftrightarrow> mbit mm n \<and> n \<noteq> 64 * i + idx"
proof -
  have "n = 64 * i + idx \<longleftrightarrow> n div 64 = i \<and> n mod 64 = idx" using assms(2) by auto
  moreover have "bit (word_at mm i) idx" using assms by (simp add: mbit_word)
  ultimately show ?thesis
    unfolding mbit_word_set[OF assms(1)]
    using assms(1) by (auto simp: bit_xor_iff bit_pow_u64 mbit_def)
qed

lemma shared_loop_step:
  assumes "i < 4" "idx < 64" "mbit M (64 * i + idx)" "64 * i + idx \<notin> set done_bits" "shared_loop g M done_bits mm v"
  shows "g (64 * i + idx) = None \<Longrightarrow>
      shared_loop g M (done_bits @ [64 * i + idx]) (word_set mm i (word_at mm i XOR push_bit idx 1)) v"
    and "g (64 * i + idx) = Some e \<Longrightarrow> shared_loop g M (done_bits @ [64 * i + idx]) mm (v @ [e])"
proof -
  have "mbit mm (64 * i + idx)" using assms(3-5) by (auto simp: shared_loop_def)
  note c = mbit_clear_xor[OF assms(1,2) this]
  show "g (64 * i + idx) = None \<Longrightarrow>
      shared_loop g M (done_bits @ [64 * i + idx]) (word_set mm i (word_at mm i XOR push_bit idx 1)) v"
    using assms(5) unfolding shared_loop_def c by (auto simp: map_filter_def)
  show "g (64 * i + idx) = Some e \<Longrightarrow> shared_loop g M (done_bits @ [64 * i + idx]) mm (v @ [e])"
    using assms(5) by (auto simp: shared_loop_def map_filter_def)
qed

lemma entry_at_rank:
  assumes "bn_ok bn" "mbit (bn_mask bn) n"
  shows "bn_get bn (to_u8 n) = Some (bn_values bn ! rank (bn_mask bn) n)"
  using assms mbit_less[OF assms(2)] by (cases bn) (simp add: bn_get_alt)

lemma prestrict_items:
  assumes ok: "bn_ok self" "bn_ok other"
    and M: "M = mask_and (bn_mask self) (bn_mask other)"
    and g: "\<And>n. g n = (let lv = the (bn_get self (to_u8 n)) in entry_of lv (cf_op lv (the (bn_get other (to_u8 n)))))"
    and items: "set items \<subseteq> set (mask_items M)" "distinct items"
    and r: "fold (\<lambda>(i, idx). prestrict_bit cf_op self other (rank (bn_mask self) (64 * i)) (rank (bn_mask other) (64 * i)) i idx)
      items (same0, BN M []) = (same, BN mm v)"
  shows "shared_loop (\<lambda>n. snd (g n)) M (map (\<lambda>(i, idx). 64 * i + idx) items) mm v \<and>
    (same \<longleftrightarrow> same0 \<and> (\<forall>(i, idx) \<in> set items. fst (g (64 * i + idx))))"
  using items r
proof (induction items arbitrary: same mm v rule: rev_induct)
  case Nil
  then show ?case by (simp add: shared_loop_def map_filter_def)
next
  case (snoc it items)
  obtain i idx where it: "it = (i, idx)" by (cases it)
  let ?n = "64 * i + idx" and ?st = "\<lambda>(i, idx). prestrict_bit cf_op self other (rank (bn_mask self) (64 * i)) (rank (bn_mask other) (64 * i)) i idx"
  obtain same' bn' where st0: "fold ?st items (same0, BN M []) = (same', bn')" by fastforce
  obtain mm' v' where "bn' = BN mm' v'" by (cases bn')
  then have st: "fold ?st items (same0, BN M []) = (same', BN mm' v')" using st0 by simp
  have IH: "shared_loop (\<lambda>n. snd (g n)) M (map (\<lambda>(i, idx). 64 * i + idx) items) mm' v'"
    "same' \<longleftrightarrow> same0 \<and> (\<forall>(i, idx) \<in> set items. fst (g (64 * i + idx)))"
    using snoc(1)[OF _ _ st] snoc(2,3) by auto
  have mem: "(i, idx) \<in> set (mask_items M)" using snoc(2) by (simp add: it)
  have il: "i < 4" "idx < 64" using mask_items_less[OF mem] by auto
  have nM: "mbit M ?n" using mask_items_byte(1)[OF mem] by (simp add: bits_def)
  then have both: "mbit (bn_mask self) ?n" "mbit (bn_mask other) ?n" by (auto simp: M mbit_mask_and)
  have fresh: "?n \<notin> set (map (\<lambda>(i, idx). 64 * i + idx) items)"
  proof
    assume "?n \<in> set (map (\<lambda>(i, idx). 64 * i + idx) items)"
    then obtain i' idx' where "(i', idx') \<in> set items" "?n = 64 * i' + idx'" by auto
    moreover from this have "idx' < 64" using mask_items_less[of i' idx' M] snoc(2) by auto
    ultimately have "i' = i \<and> idx' = idx" using il(2) by presburger
    then show False using \<open>(i', idx') \<in> set items\<close> snoc(3) by (simp add: it)
  qed
  have lv: "bn_values self ! slot_in_word (word_at (bn_mask self) i) (rank (bn_mask self) (64 * i)) idx = the (bn_get self (to_u8 ?n))"
    "bn_values other ! slot_in_word (word_at (bn_mask other) i) (rank (bn_mask other) (64 * i)) idx = the (bn_get other (to_u8 ?n))"
    using both by (simp_all add: slot_in_word_rank[OF il] entry_at_rank[OF ok(1)] entry_at_rank[OF ok(2)])
  let ?r = "cf_op (the (bn_get self (to_u8 ?n))) (the (bn_get other (to_u8 ?n)))"
  have step: "(same, BN mm v) = (case ?r of
      RNone \<Rightarrow> (False, BN (word_set mm' i (word_at mm' i XOR push_bit idx 1)) v')
    | Identity m \<Rightarrow> (same', BN mm' (v' @ [the (bn_get self (to_u8 ?n))]))
    | Element jv \<Rightarrow> (False, BN mm' (v' @ [jv])))"
  proof -
    have "?st it (same', BN mm' v') = (same, BN mm v)" using snoc(4) by (simp add: st)
    then show ?thesis unfolding it prestrict_bit_def by (simp add: lv Let_def split: algebraic_result.splits)
  qed
  note s = shared_loop_step[OF il nM fresh IH(1)]
  show ?case
    using step s IH(2) by (cases ?r) (auto simp: it g Let_def entry_of_def)
qed

lemma bn_prestrict_rebuilt:
  assumes ok: "bn_ok self" "bn_ok other"
  shows "\<exists>same new. bn_prestrict cf_op self other = byte_node_result (same, new) \<and>
    rebuilt (restrict_against cf_op other) self (same, new)"
proof -
  let ?M = "mask_and (bn_mask self) (bn_mask other)" and ?same0 = "bn_mask self = mask_and (bn_mask self) (bn_mask other)"
  let ?step = "\<lambda>a b i idx. prestrict_bit cf_op self other a b i idx"
  define g where "g n = (let lv = the (bn_get self (to_u8 n)) in entry_of lv (cf_op lv (the (bn_get other (to_u8 n)))))" for n
  have distinct_items: "distinct (mask_items ?M)"
    using distinct_map[of "\<lambda>(i, idx). 64 * i + idx" "mask_items ?M"] unfolding mask_items_bits by (simp add: bits_def)
  obtain same mm v where st: "fold (\<lambda>(i, idx). ?step (rank (bn_mask self) (64 * i)) (rank (bn_mask other) (64 * i)) i idx)
      (mask_items ?M) (?same0, BN ?M []) = (same, BN mm v)"
    by (metis (no_types) byte_node.collapse surj_pair)
  have keep: "word_at (bn_mask (snd (?step a b i idx s))) j = word_at (bn_mask (snd s)) j"
    if "j \<noteq> i" "i < 4" "j < 4" for a b i idx j and s :: "bool \<times> 'a bnode"
    using that by (auto simp: prestrict_bit_def Let_def word_at_word_set split: prod.split byte_node.split algebraic_result.split)
  have words: "prestrict_word cf_op self other = word_loop ?step (\<lambda>s. bn_mask (snd s)) (bn_mask self) (bn_mask other)"
    by (simp add: fun_eq_iff prestrict_word_def word_loop_def)
  have loop: "fold (prestrict_word cf_op self other) [0..<4] ((?same0, BN ?M []), 0, 0) =
      ((same, BN mm v), rank (bn_mask self) 256, rank (bn_mask other) 256)"
    unfolding words
    by (subst word_loop_items[where mk = "\<lambda>s. bn_mask (snd s)" and step = ?step, OF keep]) (simp_all add: st)
  have r: "shared_loop (\<lambda>n. snd (g n)) ?M (bits ?M) mm v"
    "same \<longleftrightarrow> ?same0 \<and> (\<forall>(i, idx) \<in> set (mask_items ?M). fst (g (64 * i + idx)))"
    using prestrict_items[OF ok refl g_def order_refl distinct_items st] by (auto simp: mask_items_bits)
  note node = shared_loop_node[OF r(1)]
  have res: "bn_prestrict cf_op self other = byte_node_result (same, BN mm v)"
    using bn_empty_iff(2)[OF node(1)] by (simp add: bn_prestrict_def byte_node_result_def loop Let_def)
  have at: "bn_get (BN mm v) b = Option.bind (bn_get self b) (\<lambda>cf. snd (restrict_against cf_op other b cf))" for b
    using bn_has_mbit[OF ok(1), of b] bn_has_mbit[OF ok(2), of b]
    by (auto simp: node(2) mbit_mask_and restrict_against_def against_def g_def Let_def split: option.split)
  have "fst (restrict_against cf_op other b cf) \<and> snd (restrict_against cf_op other b cf) \<noteq> None"
    if s: "same" and b: "bn_get self b = Some cf" for b cf
  proof -
    have "mbit (bn_mask self) (unat b)" using b bn_has_mbit[OF ok(1), of b] by auto
    then have m: "mbit ?M (unat b)" using s r(2) by simp
    then obtain ocf where o: "bn_get other b = Some ocf" using bn_has_mbit[OF ok(2), of b] by (auto simp: mbit_mask_and)
    have "unat b \<in> set (bits ?M)" using m unat_u8_less[of b] by (simp add: bits_def)
    then have "fst (g (unat b))" using s r(2) unfolding mask_items_bits[symmetric] by auto
    then show ?thesis
      by (cases "cf_op cf ocf") (auto simp: g_def Let_def b o restrict_against_def against_def entry_of_def)
  qed
  then have "rebuilt (restrict_against cf_op other) self (same, BN mm v)"
    unfolding rebuilt_def split using node(1) at by blast
  then show ?thesis using res by blast
qed

lemma bn_prestrict_stands:
  assumes wf: "wf_node (ByteN bn)" "wf_node (ByteN other)"
    and P: "\<And>c oc. c \<in> set (node_children (ByteN bn)) \<Longrightarrow> wf_node oc \<Longrightarrow>
      left_stands (restricted (den c) (den oc)) c (P c oc)"
  shows "left_stands (restricted (den (ByteN bn)) (den (ByteN other))) (ByteN bn) (bn_prestrict (cf_prestrict P) bn other)"
proof -
  have ok: "bn_ok bn" "bn_ok other" using wf by simp_all
  obtain same new where st: "bn_prestrict (cf_prestrict P) bn other = byte_node_result (same, new)"
    and r: "rebuilt (restrict_against (cf_prestrict P) other) bn (same, new)"
    using bn_prestrict_rebuilt[OF ok] by blast
  have e0: "den (ByteN other) [] = None" by (rule wf_den_Nil[OF wf(2)])
  show ?thesis unfolding st
  proof (rule rebuilt_stands[OF wf(1) r, where h = "\<lambda>b. restricted (\<lambda>q. bn_den den bn (b # q)) (\<lambda>q. bn_den den other (b # q))"])
    fix b cf assume g: "bn_get bn b = Some cf"
    show "entry_stands (restricted (\<lambda>q. bn_den den bn (b # q)) (\<lambda>q. bn_den den other (b # q))) cf (restrict_against (cf_prestrict P) other b cf)"
    proof (cases "bn_get other b")
      case None
      then have "restricted (cf_den den cf) (\<lambda>q. bn_den den other (b # q)) = Map.empty"
        by (intro restricted_none) (simp add: None bn_den_bind del: bn_den_Cons)
      then show ?thesis unfolding bn_den_bind g None by (simp add: restrict_against_def against_def None entry_stands_def)
    next
      case (Some ocf)
      have "entry_stands (restricted (cf_den den cf) (cf_den den ocf)) cf (entry_of cf (cf_prestrict P cf ocf))"
        using entry_child[OF g] by (intro cf_prestrict_stands[OF entries_wf[OF wf(1) g] entries_wf[OF wf(2) Some]] P) auto
      then show ?thesis unfolding bn_den_bind g Some by (simp add: restrict_against_def against_def Some)
    qed
  next
    fix b rest
    show "restricted (den (ByteN bn)) (den (ByteN other)) (b # rest) =
        Option.bind (bn_get bn b) (\<lambda>cf. restricted (\<lambda>q. bn_den den bn (b # q)) (\<lambda>q. bn_den den other (b # q)) rest)"
      unfolding restricted_Cons[of "den (ByteN other)", OF e0] den_simps bn_den_bind by (cases "bn_get bn b") (auto simp: restricted_def)
  qed (simp add: restricted_def)
qed

lemma bn_psubtract_stands:
  assumes wf: "wf_node (ByteN bn)" "wf_node (ByteN other)" and peq: "\<And>a b. peq a b \<Longrightarrow> a = b"
    and P: "\<And>c oc. c \<in> set (node_children (ByteN bn)) \<Longrightarrow> wf_node oc \<Longrightarrow>
      left_stands (\<lambda>q. sub_opt psub (den c q) (den oc q)) c (P c oc)"
    and psub: "self_only psub" "\<And>v. resolve (psub v v) v v = None"
  shows "left_stands (\<lambda>q. sub_opt psub (den (ByteN bn) q) (den (ByteN other) q)) (ByteN bn)
    (bn_psubtract (cf_psubtract peq P psub) bn other)"
proof -
  have ok: "bn_ok bn" "bn_ok other" using wf by simp_all
  let ?cf = "cf_psubtract peq P psub"
  obtain same new where st: "fold (bn_psubtract_bit ?cf bn other) (mask_items (bn_mask bn)) (True, bn) = (same, new)" by fastforce
  have r: "rebuilt (subtract_against ?cf other) bn (same, new)" using bn_psubtract_rebuilt[OF ok, of ?cf] unfolding st .
  show ?thesis unfolding bn_psubtract_def st
  proof (rule rebuilt_stands[OF wf(1) r, where h = "\<lambda>b rest. sub_opt psub (bn_den den bn (b # rest)) (bn_den den other (b # rest))"])
    fix b cf assume g: "bn_get bn b = Some cf"
    show "entry_stands (\<lambda>rest. sub_opt psub (bn_den den bn (b # rest)) (bn_den den other (b # rest))) cf (subtract_against ?cf other b cf)"
    proof (cases "bn_get other b")
      case None
      then show ?thesis unfolding bn_den_bind g
        by (simp add: subtract_against_def against_def entry_stands_def entries_wf[OF wf(1) g])
    next
      case (Some ocf)
      have "entry_stands (\<lambda>q. sub_opt psub (cf_den den cf q) (cf_den den ocf q)) cf (entry_of cf (?cf cf ocf))"
        using entry_child[OF g]
        by (intro cf_psubtract_stands[OF entries_wf[OF wf(1) g] entries_wf[OF wf(2) Some] peq P psub]) auto
      then show ?thesis unfolding bn_den_bind g Some by (simp add: subtract_against_def against_def Some)
    qed
  next
    fix b rest
    show "sub_opt psub (den (ByteN bn) (b # rest)) (den (ByteN other) (b # rest)) =
        Option.bind (bn_get bn b) (\<lambda>cf. sub_opt psub (bn_den den bn (b # rest)) (bn_den den other (b # rest)))"
      unfolding den_simps bn_den_bind by (cases "bn_get bn b") auto
  qed simp
qed

end
