(* ===== verification/Subtract_Laws.thy ===== *)
theory Subtract_Laws
  imports Subtract_Byte Trie_Paths Ring_Laws
begin

text \<open>
  What \<open>subtract\<close>, \<open>restrict\<close> and their algebraic-result versions promise, from the nodes
  (\<open>psubtract_dyn\<close>, \<open>prestrict_dyn\<close>, by induction on the size of the left node) up to \<open>PathMap\<close>.
  The locale \<open>subtract_impl\<close> is the contract the value type has to keep; it is interpreted on the
  crate's implementations for \<open>()\<close>, \<open>bool\<close> and the integers.
\<close>

subsection \<open>The contract of the value's subtraction\<close>

text \<open>What the two operations need of the value type: \<open>psubtract\<close> never answers with its second
  argument, and a value minus itself is nothing.\<close>

definition subtractive :: "('v \<Rightarrow> 'v \<Rightarrow> 'v algebraic_result) \<Rightarrow> bool" where
  "subtractive psub \<longleftrightarrow> self_only psub \<and> (\<forall>v. resolve (psub v v) v v = None)"

locale subtract_impl = dist_lattice_impl +
  assumes psubtract_self: "resolve (psubtract a a) a a = None"
begin

lemma subtracts: "subtractive psubtract"
  using psubtract_ident psubtract_self by (auto simp: subtractive_def self_only_def)

end

interpretation unit_subtract: subtract_impl "(=)" unit_pjoin unit_pmeet unit_psubtract
  by unfold_locales (simp add: unit_psubtract_def)

interpretation int_subtract: subtract_impl "(=)"
  "int_pjoin :: 'w::len word \<Rightarrow> 'w word \<Rightarrow> 'w word algebraic_result" int_pmeet int_psubtract
  by unfold_locales (simp add: int_psubtract_def)

interpretation bool_subtract: subtract_impl "(=)" bool_pjoin bool_pmeet bool_psubtract
  by unfold_locales (simp add: bool_psubtract_def)

text \<open>Two pointers that are equal point to equal nodes.\<close>

definition ptr_eq_ok :: "('v node \<Rightarrow> 'v node \<Rightarrow> bool) \<Rightarrow> bool" where
  "ptr_eq_ok peq \<longleftrightarrow> (\<forall>a b. peq a b \<longrightarrow> a = b)"

subsection \<open>Nodes\<close>

lemma slots_of_child: "(k, Child c) \<in> slots_of ln \<Longrightarrow> c \<in> set (node_children (ListN ln))"
  by (cases ln) (auto simp: slots_of_def)

lemma psubtract_dyn_stands:
  assumes S: "slice_utils_ok S" and peq: "ptr_eq_ok peq" and psub: "subtractive psub"
  shows "wf_node a \<Longrightarrow> wf_node b \<Longrightarrow>
    left_stands (\<lambda>q. sub_opt psub (den a q) (den b q)) a (psubtract_dyn peq psub S a b)"
proof (induction a arbitrary: b rule: measure_induct_rule[of size])
  case (less a)
  have sub: "self_only psub" "\<And>v. resolve (psub v v) v v = None" using psub by (auto simp: subtractive_def)
  have peq': "\<And>x y. peq x y \<Longrightarrow> x = y" using peq by (simp add: ptr_eq_ok_def)
  let ?P = "\<lambda>c oc. if size c < size a then psubtract_dyn peq psub S c oc else RNone"
  have P: "left_stands (\<lambda>q. sub_opt psub (den c q) (den oc q)) c (?P c oc)"
    if "c \<in> set (node_children a)" "wf_node oc" for c oc
    using less.IH[OF node_children_size[OF that(1)] wf_children[OF less.prems(1) that(1)] that(2)]
      node_children_size[OF that(1)] by simp
  have dispatch: "psubtract_dyn peq psub S a b = (if peq a b then RNone else psubtract_step peq psub S ?P a b)"
    by (subst psubtract_dyn.simps) simp
  have "left_stands (\<lambda>q. sub_opt psub (den a q) (den b q)) a (psubtract_step peq psub S ?P a b)"
  proof (cases a)
    case EmptyN
    then show ?thesis unfolding step by (simp add: fun_eq_iff)
  next
    case (ListN ln)
    have wf: "wf_node (ListN ln)" using less.prems(1) ListN by simp
    have slot: "slot_stands (\<lambda>q. sub_opt psub (slot_den den s q) (den b q)) s (subtract_from_slot_contents ?P psub S s b)"
      if s: "s = slot0 ln \<or> s = slot1 ln" for s
    proof (cases s)
      case None
      then show ?thesis by (simp add: subtract_from_slot_contents_def fun_eq_iff)
    next
      case (Some kp)
      obtain k p where kp: "kp = (k, p)" by (cases kp)
      have el: "(k, p) \<in> slots_of ln" using s Some kp by (auto simp: slots_of_def)
      show ?thesis
        by (rule subtract_from_slot_stands[OF S less.prems(2) Some[unfolded kp] _ _ P sub(1)])
          (use wf_slot_elem[OF wf el] slots_of_child el in \<open>auto simp: ListN simp del: node_children.simps\<close>)
    qed
    have r: "left_stands (\<lambda>q. or_else_opt (sub_opt psub (slot_den den (slot0 ln) q) (den b q)) (sub_opt psub (slot_den den (slot1 ln) q) (den b q)))
        (ListN ln) (psubtract_step peq psub S ?P a b)"
      unfolding ListN psubtract_step.simps by (rule combine_slot_results_stands[OF wf]) (use slot ListN in auto)
    show ?thesis
      using r unfolding ListN den_ListN ln_den_def[abs_def]
      by (simp only: or_else_sub[OF slots_disjoint[OF wf]])
  next
    case (ByteN bn)
    have wf: "wf_node (ByteN bn)" using less.prems(1) ByteN by simp
    note P' = P[unfolded ByteN]
    show ?thesis
    proof (cases b)
      case EmptyN
      then show ?thesis unfolding ByteN by (simp add: fun_eq_iff)
    next
      case (ListN ln)
      show ?thesis using psubtract_abstract_stands[OF S wf less.prems(2) P' sub(1)] unfolding ByteN ListN by simp
    next
      case b: (ByteN bn')
      show ?thesis using bn_psubtract_stands[OF wf less.prems(2)[unfolded b] peq' P' sub] unfolding ByteN b by simp
    qed
  qed
  moreover have "peq a b \<Longrightarrow> sub_opt psub (den a q) (den b q) = None" for q
    using peq'[of a b] sub(2) by (simp add: sub_opt_def split: option.splits)
  ultimately show ?case unfolding dispatch by (simp add: fun_eq_iff)
qed

lemma prestrict_dyn_stands:
  assumes S: "slice_utils_ok S"
  shows "wf_node a \<Longrightarrow> wf_node b \<Longrightarrow> left_stands (restricted (den a) (den b)) a (prestrict_dyn S a b)"
proof (induction a arbitrary: b rule: measure_induct_rule[of size])
  case (less a)
  let ?P = "\<lambda>c oc. if size c < size a then prestrict_dyn S c oc else RNone"
  have P: "left_stands (restricted (den c) (den oc)) c (?P c oc)"
    if "c \<in> set (node_children a)" "wf_node oc" for c oc
    using less.IH[OF node_children_size[OF that(1)] wf_children[OF less.prems(1) that(1)] that(2)]
      node_children_size[OF that(1)] by simp
  have step: "prestrict_dyn S a b = prestrict_step S ?P a b" by (subst prestrict_dyn.simps) simp
  show ?case
  proof (cases a)
    case EmptyN
    then show ?thesis unfolding step by (simp add: fun_eq_iff restricted_def)
  next
    case (ListN ln)
    have wf: "wf_node (ListN ln)" using less.prems(1) ListN by simp
    have slot: "slot_stands (restricted (slot_den den s) (den b)) s (restrict_slot_contents ?P S s b)"
      if s: "s = slot0 ln \<or> s = slot1 ln" for s
    proof (cases s)
      case None
      then show ?thesis by (simp add: restrict_slot_contents_def fun_eq_iff restricted_def)
    next
      case (Some kp)
      obtain k p where kp: "kp = (k, p)" by (cases kp)
      have el: "(k, p) \<in> slots_of ln" using s Some kp by (auto simp: slots_of_def)
      show ?thesis
        by (rule restrict_slot_stands[OF S less.prems(2) Some[unfolded kp] _ _ P])
          (use wf_slot_elem[OF wf el] slots_of_child el in \<open>auto simp: ListN simp del: node_children.simps\<close>)
    qed
    have r: "left_stands (\<lambda>q. or_else_opt (restricted (slot_den den (slot0 ln)) (den b) q) (restricted (slot_den den (slot1 ln)) (den b) q))
        (ListN ln) (prestrict_step S ?P a b)"
      unfolding ListN prestrict_step.simps by (rule combine_slot_results_stands[OF wf]) (use slot ListN in auto)
    show ?thesis
      using r unfolding step unfolding ListN den_ListN ln_den_def[abs_def] or_else_restricted .
  next
    case (ByteN bn)
    have wf: "wf_node (ByteN bn)" using less.prems(1) ByteN by simp
    note P' = P[unfolded ByteN]
    show ?thesis
    proof (cases b)
      case EmptyN
      then show ?thesis unfolding step unfolding ByteN by (simp add: fun_eq_iff restricted_def)
    next
      case (ListN ln)
      show ?thesis using prestrict_abstract_stands[OF S wf less.prems(2) P'] unfolding step unfolding ByteN ListN prestrict_step.simps by this
    next
      case b: (ByteN bn')
      show ?thesis using bn_prestrict_stands[OF wf less.prems(2)[unfolded b] P'] unfolding step unfolding ByteN b prestrict_step.simps by this
    qed
  qed
qed

subsection \<open>Maps\<close>

lemma map_den_rec: "map_den m q = (if q = [] then root_val m else rec_den (root m) q)"
  by (simp add: map_den_def rec_den_def split: option.split)

lemma wf_mapI: "(\<And>r. root m = Some r \<Longrightarrow> wf_node r \<and> r \<noteq> EmptyN) \<Longrightarrow> wf_map m"
  by (simp add: wf_map_def)

lemma wf_map_new: "wf_map new_map \<and> map_den new_map = Map.empty"
  by (auto simp: new_map_def wf_map_def map_den_def fun_eq_iff)

text \<open>What the operation on the roots stands for.\<close>

definition root_field :: "(path \<Rightarrow> 'v option) \<Rightarrow> 'v node option \<Rightarrow> 'v node option algebraic_result \<Rightarrow> bool" where
  "root_field g self r \<longleftrightarrow> rec_field g self r \<and> r \<noteq> Element (Some EmptyN)"

lemma root_psubtract_field:
  assumes S: "slice_utils_ok S" and peq: "ptr_eq_ok peq" and psub: "subtractive psub" and wf: "wf_map m1" "wf_map m2"
  shows "root_field (\<lambda>q. sub_opt psub (rec_den (root m1) q) (rec_den (root m2) q)) (root m1) (root_psubtract peq psub S m1 m2)"
proof (cases "root m1")
  case None
  then show ?thesis by (simp add: root_field_def rec_field_def root_psubtract_def)
next
  case (Some a)
  show ?thesis
  proof (cases "root m2")
    case None
    then show ?thesis using Some by (simp add: root_field_def rec_field_def root_psubtract_def)
  next
    case b: (Some b)
    have s: "left_stands (\<lambda>q. sub_opt psub (den a q) (den b q)) a (psubtract_dyn peq psub S a b)"
      using wf Some b by (intro psubtract_dyn_stands[OF S peq psub]) (auto simp: wf_map_def)
    show ?thesis
    proof (cases "peq a b")
      case True
      have n: "sub_opt psub x x = None" for x using psub by (cases x) (auto simp: subtractive_def)
      have "a = b" using True peq by (simp add: ptr_eq_ok_def)
      then show ?thesis using True n Some b by (simp add: root_field_def rec_field_def root_psubtract_def odrc_psubtract_def ptr_eq_ok_def)
    next
      case False
      then show ?thesis using s Some b
        by (cases "psubtract_dyn peq psub S a b") (auto simp: root_field_def rec_field_def root_psubtract_def odrc_psubtract_def fun_eq_iff)
    qed
  qed
qed

lemma option_psubtract_field:
  assumes "subtractive psub"
  shows "val_field (sub_opt psub x y) x (option_psubtract psub x y)"
  using self_onlyD[of psub "the x" "the y"] assms
  by (cases x; cases y; cases "psub (the x) (the y)") (auto simp: val_field_def subtractive_def)

lemma map_subtract_spec:
  assumes S: "slice_utils_ok S" and peq: "ptr_eq_ok peq" and psub: "subtractive psub" and wf: "wf_map m1" "wf_map m2"
  shows "wf_map (map_subtract peq psub S m1 m2) \<and>
    map_den (map_subtract peq psub S m1 m2) q = sub_opt psub (map_den m1 q) (map_den m2 q)"
proof -
  note r = root_psubtract_field[OF assms] and v = option_psubtract_field[OF psub, of "root_val m1" "root_val m2"]
  show ?thesis
    using r v wf(1)
    by (cases "root_psubtract peq psub S m1 m2"; cases "option_psubtract psub (root_val m1) (root_val m2)")
      (auto simp: map_subtract_def root_field_def rec_field_def val_field_def map_den_rec wf_map_def)
qed

text \<open>What the result of an operation on maps stands for.\<close>

definition map_stands :: "(path \<Rightarrow> 'v option) \<Rightarrow> 'v path_map \<Rightarrow> 'v path_map algebraic_result \<Rightarrow> bool" where
  "map_stands f self r \<longleftrightarrow>
     (case r of
        RNone \<Rightarrow> f = Map.empty
      | Identity m \<Rightarrow> m = SELF_IDENT \<and> map_den self = f
      | Element m' \<Rightarrow> wf_map m' \<and> map_den m' = f)"

lemma map_psubtract_spec:
  assumes S: "slice_utils_ok S" and peq: "ptr_eq_ok peq" and psub: "subtractive psub" and wf: "wf_map m1" "wf_map m2"
  shows "map_stands (\<lambda>q. sub_opt psub (map_den m1 q) (map_den m2 q)) m1 (map_psubtract peq psub S m1 m2)"
proof -
  note r = root_psubtract_field[OF assms] and v = option_psubtract_field[OF psub, of "root_val m1" "root_val m2"]
  show ?thesis
    using r v wf(1)
    by (cases "root_psubtract peq psub S m1 m2"; cases "option_psubtract psub (root_val m1) (root_val m2)")
      (auto simp: map_psubtract_def root_field_def rec_field_def val_field_def map_den_rec wf_map_def fun_eq_iff map_stands_def
        map_fields_def map_element_def flatten_opt_def Let_def)
qed

lemma map_restrict_spec:
  assumes S: "slice_utils_ok S" and wf: "wf_map m1" "wf_map m2"
  shows "wf_map (map_restrict S m1 m2) \<and> map_den (map_restrict S m1 m2) = restricted (map_den m1) (map_den m2)"
    and "map_stands (restricted (map_den m1) (map_den m2)) m1 (map_prestrict S m1 m2)"
proof -
  have "wf_map (map_restrict S m1 m2) \<and> map_den (map_restrict S m1 m2) = restricted (map_den m1) (map_den m2) \<and>
    map_stands (restricted (map_den m1) (map_den m2)) m1 (map_prestrict S m1 m2)"
  proof (cases "root_val m2")
    case (Some v)
    then have "restricted (map_den m1) (map_den m2) = map_den m1" by (intro restricted_at_val) (simp add: map_den_def)
    then show ?thesis using wf(1) Some by (simp add: map_restrict_def map_prestrict_def map_stands_def)
  next
    case None
    have nil: "map_den m2 [] = None" using None by (simp add: map_den_def)
    show ?thesis
    proof (cases "root m1 = None \<or> root m2 = None")
      case True
      have "restricted (map_den m1) (map_den m2) = Map.empty"
        using True None by (auto simp: restricted_def map_den_rec fun_eq_iff)
      then show ?thesis using True None wf_map_new
        by (auto simp: map_restrict_def map_prestrict_def map_stands_def split: option.split)
    next
      case False
      then obtain a b where ab: "root m1 = Some a" "root m2 = Some b" by auto
      have wfs: "wf_node a" "a \<noteq> EmptyN" "wf_node b" using wf ab by (auto simp: wf_map_def)
      have d2: "map_den m2 = den b" using None ab wf_den_Nil[OF wfs(3)] by (auto simp: map_den_def fun_eq_iff)
      have d1: "restricted (map_den m1) (den b) = restricted (den a) (den b)"
        using ab wf_den_Nil[OF wfs(1)] wf_den_Nil[OF wfs(3)] by (auto simp: map_den_def fun_eq_iff restricted_def)
      have one: "map_den \<lparr>root = Some n, root_val = None\<rparr> = den n" if "wf_node n" for n :: "'a node"
        using wf_den_Nil[OF that] by (auto simp: map_den_def fun_eq_iff)
      have "left_stands (restricted (den a) (den b)) a (prestrict_dyn S a b)"
        by (rule prestrict_dyn_stands[OF S wfs(1,3)])
      moreover have "root_val m1 = None \<Longrightarrow> map_den m1 = den a"
        using ab wf_den_Nil[OF wfs(1)] by (auto simp: map_den_def fun_eq_iff)
      ultimately show ?thesis
        using wfs None ab one[OF wfs(1)] one wf_map_new unfolding d2 d1
        by (cases "prestrict_dyn S a b") (simp_all add: map_restrict_def map_prestrict_def map_stands_def wf_map_def)
    qed
  qed
  then show "wf_map (map_restrict S m1 m2) \<and> map_den (map_restrict S m1 m2) = restricted (map_den m1) (map_den m2)"
    and "map_stands (restricted (map_den m1) (map_den m2)) m1 (map_prestrict S m1 m2)" by blast+
qed

subsection \<open>The properties\<close>

text \<open>What a reader sees of a map.\<close>

lemma val_at_map_den: "wf_map m \<Longrightarrow> val_at m = map_den m"
  using val_at_den by blast

text \<open>C7: \<open>subtract\<close> keeps the map well formed and computes, path by path, the subtraction of the values:
  a path the other map does not have keeps its value, one both have gets the result of the value's
  \<open>psubtract\<close>, and nothing is added. Shared nodes may be dropped without a look inside.\<close>

theorem map_subtract_correct:
  assumes "slice_utils_ok S" "ptr_eq_ok peq" "subtractive psub" "wf_map m1" "wf_map m2"
  shows "wf_map (map_subtract peq psub S m1 m2) \<and>
    val_at (map_subtract peq psub S m1 m2) = (\<lambda>q. sub_opt psub (val_at m1 q) (val_at m2 q))"
  using map_subtract_spec[OF assms] val_at_map_den assms(4,5) by (metis (no_types, lifting) ext)

definition sample_left :: "u64 path_map" where
  "sample_left = \<lparr>root = Some (ListN (LN (Some ([1, 2], Val 7)) (Some ([3], Val 8)))), root_val = None\<rparr>"

definition sample_right :: "u64 path_map" where
  "sample_right = \<lparr>root = Some (ListN (LN (Some ([3], Val 8)) None)), root_val = None\<rparr>"

lemma sample_maps: "wf_map sample_left" "wf_map sample_right"
  by (simp_all add: sample_left_def sample_right_def wf_map_def KEY_BYTES_CNT_def wf_pair_def)

lemma sample_reads:
  "val_at sample_left [1, 2] = Some 7" "val_at sample_left [3] = Some 8"
  "val_at sample_right [1, 2] = None" "val_at sample_right [3] = Some 8"
  "val_at sample_right [] = None" "val_at sample_right [1] = None"
  unfolding val_at_map_den[OF sample_maps(1)] val_at_map_den[OF sample_maps(2)]
  by (simp_all add: sample_left_def sample_right_def map_den_def)

theorem map_subtract_correct_witness:
  "let m = map_subtract (\<lambda>_ _. False) int_psubtract std_slice_utils sample_left sample_right
   in val_at m [1, 2] = Some 7 \<and> val_at m [3] = None"
  using map_subtract_correct[OF std_slice_utils_ok _ int_subtract.subtracts sample_maps, of "\<lambda>_ _. False"]
  by (simp add: ptr_eq_ok_def Let_def sample_reads int_psubtract_def)

text \<open>C8: \<open>restrict\<close> keeps the map well formed and keeps exactly the values at or below a path at which
  the other map has a value.\<close>

theorem map_restrict_correct:
  assumes "slice_utils_ok S" "wf_map m1" "wf_map m2"
  shows "wf_map (map_restrict S m1 m2) \<and>
    val_at (map_restrict S m1 m2) = (\<lambda>q. if \<exists>p. prefix p q \<and> val_at m2 p \<noteq> None then val_at m1 q else None)"
  using map_restrict_spec(1)[OF assms] val_at_map_den[of "map_restrict S m1 m2"]
  unfolding val_at_map_den[OF assms(2)] val_at_map_den[OF assms(3)] by (simp add: restricted_def fun_eq_iff)

theorem map_restrict_correct_witness:
  "let m = map_restrict std_slice_utils sample_left sample_right in val_at m [1, 2] = None \<and> val_at m [3] = Some 8"
proof -
  have p: "p = [] \<or> p = [1] \<or> p = [1, 2]" if "prefix p [1, 2 :: u8]" for p
    using that by (auto simp: prefix_Cons)
  have "\<not> (\<exists>p. prefix p [1, 2] \<and> val_at sample_right p \<noteq> None)" using p sample_reads by force
  moreover have "\<exists>p. prefix p [3] \<and> val_at sample_right p \<noteq> None" by (rule exI[of _ "[3]"]) (simp add: sample_reads)
  ultimately show ?thesis
    using map_restrict_correct[OF std_slice_utils_ok sample_maps] by (simp add: Let_def sample_reads)
qed

text \<open>C9: The results of \<open>psubtract\<close> and \<open>prestrict\<close> are sound: \<open>None\<close> is returned only when nothing
  remains, an identity names \<open>self\<close> and only when no path changes, and an element is a well-formed map
  of exactly what remains.\<close>

theorem map_results_sound:
  assumes "slice_utils_ok S" "ptr_eq_ok peq" "subtractive psub" "wf_map m1" "wf_map m2"
  shows "map_stands (\<lambda>q. sub_opt psub (map_den m1 q) (map_den m2 q)) m1 (map_psubtract peq psub S m1 m2) \<and>
    map_stands (restricted (map_den m1) (map_den m2)) m1 (map_prestrict S m1 m2)"
  using map_psubtract_spec[OF assms] map_restrict_spec(2)[OF assms(1,4,5)] by blast

theorem map_results_sound_witness:
  "map_psubtract (\<lambda>_ _. False) int_psubtract std_slice_utils sample_left sample_right \<noteq> Identity SELF_IDENT"
proof
  assume id: "map_psubtract (\<lambda>_ _. False) int_psubtract std_slice_utils sample_left sample_right = Identity SELF_IDENT"
  have "map_den sample_left = (\<lambda>q. sub_opt int_psubtract (map_den sample_left q) (map_den sample_right q))"
    using map_results_sound[OF std_slice_utils_ok _ int_subtract.subtracts sample_maps, of "\<lambda>_ _. False"] id
    by (simp add: ptr_eq_ok_def map_stands_def)
  then have "map_den sample_left [3] = sub_opt int_psubtract (map_den sample_left [3]) (map_den sample_right [3])" by (rule fun_cong)
  then show False by (simp add: sample_left_def sample_right_def map_den_def int_psubtract_def)
qed

end
