(* ===== verification/Node_Join.thy ===== *)
theory Node_Join
  imports Node_Subtract
begin

text \<open>
  The join of the lattice layer: \<open>pjoin\<close>, which computes a new node or names the arguments that
  already are the join, and \<open>join_into\<close>, which changes its first argument in place; for list nodes
  (\<open>src/line_list_node.rs\<close>), byte nodes and their entries (\<open>src/dense_byte_node.rs\<close>), node pointers
  (\<open>src/trie_node.rs\<close>) and maps (\<open>src/trie_map.rs\<close>).  The value type's own operations are the
  arguments \<open>vj\<close> and \<open>vji\<close>; \<open>peq\<close> is \<open>TrieNodeODRc::ptr_eq\<close>.  The operations on the parts of a node
  take those on the children as arguments (\<open>PJ\<close>, \<open>JI\<close>); the knot is tied at the end.  A branch the
  code marks \<open>unreachable!\<close> is \<open>RNone\<close>; the laws show that it is not taken.
\<close>

unbundle bit_operations_syntax

subsection \<open>Node pointers\<close>

definition odrc_pjoin ::
  "('v node \<Rightarrow> 'v node \<Rightarrow> bool) \<Rightarrow> ('v node \<Rightarrow> 'v node \<Rightarrow> 'v node algebraic_result) \<Rightarrow>
   'v node \<Rightarrow> 'v node \<Rightarrow> 'v node algebraic_result" where
  "odrc_pjoin peq P self other = (if peq self other then Identity (SELF_IDENT OR COUNTER_IDENT) else P self other)"

text \<open>\<open>join_into_dyn\<close> returns a status and \<open>Ok\<close> of the changed node, or \<open>Err\<close> of the node that must
  take its place.\<close>

type_synonym 'v join_into_result = "algebraic_status \<times> ('v node, 'v node) result"

fun after_join :: "('v node, 'v node) result \<Rightarrow> 'v node" where
  "after_join (Ok self) = self"
| "after_join (Err replacement_node) = replacement_node"

definition odrc_join_into ::
  "('v node \<Rightarrow> 'v node \<Rightarrow> 'v join_into_result) \<Rightarrow> 'v node \<Rightarrow> 'v node \<Rightarrow> algebraic_status \<times> 'v node" where
  "odrc_join_into JI self node =
     (if node_is_empty node then (if is_empty_odrc self then SNone else SIdentity, self)
      else if is_empty_odrc self then (SElement, node)
      else let (st, result) = JI self node in (st, after_join result))"

subsection \<open>Pairs of slots\<close>

type_synonym 'v entry = "path \<times> 'v voc"

definition other_slot_has_value_at :: "('c, 'v) slot option \<Rightarrow> path \<Rightarrow> bool" where
  "other_slot_has_value_at other key \<longleftrightarrow>
     is_used_value other \<and> length key = 1 \<and> length (slot_key other) = 1 \<and> hd (slot_key other) = hd key"

text \<open>Identical keys: what the first \<open>match\<close> returns, if it returns.  \<open>oa\<close> and \<open>ob\<close> are the other
  slots of the two nodes.\<close>

definition merge_same_key ::
  "('v node \<Rightarrow> 'v node \<Rightarrow> 'v node algebraic_result) \<Rightarrow> ('v \<Rightarrow> 'v \<Rightarrow> 'v algebraic_result) \<Rightarrow>
   path \<Rightarrow> 'v voc \<Rightarrow> ('v node, 'v) slot option \<Rightarrow> path \<Rightarrow> 'v voc \<Rightarrow> ('v node, 'v) slot option \<Rightarrow>
   'v entry algebraic_result option" where
  "merge_same_key PJ vj a_key pa oa b_key pb ob =
     (case (pa, pb) of
        (Child a_child, Child b_child) \<Rightarrow>
          Some (case PJ a_child b_child of
             RNone \<Rightarrow> Identity (SELF_IDENT OR COUNTER_IDENT)
           | Identity m \<Rightarrow>
               if 0 < m AND COUNTER_IDENT \<and> other_slot_has_value_at ob a_key \<and> is_empty_odrc a_child \<or>
                  0 < m AND SELF_IDENT \<and> other_slot_has_value_at oa b_key \<and> is_empty_odrc b_child
               then RNone else Identity m
           | Element new_child \<Rightarrow> Element (a_key, Child new_child))
      | (Val a_val, Val b_val) \<Rightarrow> Some (Ring.map_result (\<lambda>new_val. (a_key, Val new_val)) (vj a_val b_val))
      | (Child a_child, Val b_val) \<Rightarrow> if is_empty_odrc a_child then Some (Element (a_key, Val b_val)) else None
      | (Val a_val, Child b_child) \<Rightarrow> if is_empty_odrc b_child then Some (Element (a_key, Val a_val)) else None)"

text \<open>The longer key is chopped: its tail and payload move to an intermediate node.\<close>

definition intermediate_node :: "nat \<Rightarrow> path \<Rightarrow> 'v voc \<Rightarrow> 'v node" where
  "intermediate_node overlap key payload = ListN (set_payload_0 (drop overlap key) payload new_list_node)"

text \<open>\<open>b\<close>'s key is the shorter one and leads to a child: \<open>a\<close>'s payload joins that child.  The second
  definition is the mirror of the first.\<close>

definition merge_into_b_child ::
  "('v node \<Rightarrow> 'v node \<Rightarrow> 'v node algebraic_result) \<Rightarrow> nat \<Rightarrow> path \<Rightarrow> 'v voc \<Rightarrow> ('v node, 'v) slot option \<Rightarrow>
   path \<Rightarrow> 'v node \<Rightarrow> 'v entry algebraic_result" where
  "merge_into_b_child PJ overlap a_key pa oa b_key b_child =
     (let inter = intermediate_node overlap a_key pa
      in case PJ b_child inter of
           Element joined \<Rightarrow> Element (take overlap a_key, Child joined)
         | Identity m \<Rightarrow>
             if 0 < m AND SELF_IDENT then Identity COUNTER_IDENT
             else if other_slot_has_value_at oa b_key \<and> is_empty_odrc b_child then RNone
             else Element (take overlap a_key, Child inter)
         | RNone \<Rightarrow> RNone)"

definition merge_into_a_child ::
  "('v node \<Rightarrow> 'v node \<Rightarrow> 'v node algebraic_result) \<Rightarrow> nat \<Rightarrow> path \<Rightarrow> 'v node \<Rightarrow> path \<Rightarrow> 'v voc \<Rightarrow>
   ('v node, 'v) slot option \<Rightarrow> 'v entry algebraic_result" where
  "merge_into_a_child PJ overlap a_key a_child b_key pb ob =
     (let inter = intermediate_node overlap b_key pb
      in case PJ a_child inter of
           Element joined \<Rightarrow> Element (take overlap a_key, Child joined)
         | Identity m \<Rightarrow>
             if 0 < m AND SELF_IDENT then Identity SELF_IDENT
             else if other_slot_has_value_at ob a_key \<and> is_empty_odrc a_child then RNone
             else Element (take overlap a_key, Child inter)
         | RNone \<Rightarrow> RNone)"

text \<open>A node from two slots, filled in this order.\<close>

definition two_slot_node :: "'v entry \<Rightarrow> 'v entry \<Rightarrow> 'v lnode" where
  "two_slot_node s0 s1 =
     snd (set_payload_1_no_overflow (fst s1) (snd s1) (set_payload_0 (fst s0) (snd s0) new_list_node))"

definition merge_prefix_node :: "nat \<Rightarrow> path \<Rightarrow> 'v voc \<Rightarrow> path \<Rightarrow> 'v voc \<Rightarrow> 'v entry algebraic_result" where
  "merge_prefix_node overlap0 a_key pa b_key pb =
     (let overlap = (if overlap0 = length a_key \<or> overlap0 = length b_key then overlap0 - 1 else overlap0)
      in if 0 < overlap then
           let new_a = (drop overlap a_key, pa); new_b = (drop overlap b_key, pb);
               new_node =
                 (if hd (fst new_a) = hd (fst new_b) then
                    if length a_key < length b_key then two_slot_node new_a new_b else two_slot_node new_b new_a
                  else
                    if hd (fst new_a) < hd (fst new_b) then two_slot_node new_a new_b else two_slot_node new_b new_a)
           in Element (take overlap a_key, Child (ListN new_node))
         else RNone)"

definition merge_guts ::
  "('v node \<Rightarrow> 'v node \<Rightarrow> 'v node algebraic_result) \<Rightarrow> ('v \<Rightarrow> 'v \<Rightarrow> 'v algebraic_result) \<Rightarrow> nat \<Rightarrow>
   path \<Rightarrow> 'v voc \<Rightarrow> ('v node, 'v) slot option \<Rightarrow> path \<Rightarrow> 'v voc \<Rightarrow> ('v node, 'v) slot option \<Rightarrow>
   'v entry algebraic_result" where
  "merge_guts PJ vj overlap a_key pa oa b_key pb ob =
     (let same = (if overlap = length a_key \<and> overlap = length b_key
                  then merge_same_key PJ vj a_key pa oa b_key pb ob else None)
      in case same of
           Some r \<Rightarrow> r
         | None \<Rightarrow>
             if length b_key = overlap \<and> is_child pb \<and> overlap < length a_key then
               (case pb of Child b_child \<Rightarrow> merge_into_b_child PJ overlap a_key pa oa b_key b_child | Val v \<Rightarrow> RNone)
             else if length a_key = overlap \<and> is_child pa \<and> overlap < length b_key then
               (case pa of Child a_child \<Rightarrow> merge_into_a_child PJ overlap a_key a_child b_key pb ob | Val v \<Rightarrow> RNone)
             else merge_prefix_node overlap a_key pa b_key pb)"

text \<open>\<open>try_merge\<close> on two slots; the key of an unused slot is empty, so it overlaps nothing.\<close>

definition try_merge ::
  "slice_utils \<Rightarrow> ('v node \<Rightarrow> 'v node \<Rightarrow> 'v node algebraic_result) \<Rightarrow> ('v \<Rightarrow> 'v \<Rightarrow> 'v algebraic_result) \<Rightarrow>
   ('v node, 'v) slot option \<Rightarrow> ('v node, 'v) slot option \<Rightarrow> ('v node, 'v) slot option \<Rightarrow> ('v node, 'v) slot option \<Rightarrow>
   'v entry algebraic_result" where
  "try_merge S PJ vj a oa b ob =
     (let overlap = find_prefix_overlap S (slot_key a) (slot_key b)
      in if 0 < overlap then
           merge_guts PJ vj overlap (slot_key a) (the (clone_payload a)) oa (slot_key b) (the (clone_payload b)) ob
         else RNone)"

subsection \<open>List nodes\<close>

text \<open>The loop state of \<open>merge_list_nodes\<close>: the entries with their identity masks, and which of the four
  slots are used up (\<open>self_0\<close>, \<open>self_1\<close>, \<open>other_0\<close>, \<open>other_1\<close>).\<close>

type_synonym 'v merge_state = "('v entry \<times> u64) list \<times> bool list"

definition slot_at :: "nat \<Rightarrow> ('c, 'v) list_node \<Rightarrow> ('c, 'v) slot option" where
  "slot_at i ln = (if i = 0 then slot0 ln else slot1 ln)"

definition merge_pair ::
  "slice_utils \<Rightarrow> ('v node \<Rightarrow> 'v node \<Rightarrow> 'v node algebraic_result) \<Rightarrow> ('v \<Rightarrow> 'v \<Rightarrow> 'v algebraic_result) \<Rightarrow>
   'v lnode \<Rightarrow> 'v lnode \<Rightarrow> nat \<times> nat \<Rightarrow> 'v merge_state \<Rightarrow> 'v merge_state" where
  "merge_pair S PJ vj a b ij st =
     (case (ij, st) of
        ((i, j), (entries, used)) \<Rightarrow>
          let used' = used[i := True, 2 + j := True] in
          (case try_merge S PJ vj (slot_at i a) (slot_at (1 - i) a) (slot_at j b) (slot_at (1 - j) b) of
             Element joined \<Rightarrow> (entries @ [(joined, 0)], used')
           | Identity m \<Rightarrow>
               (entries @ [(the (if 0 < m AND SELF_IDENT then slot_at i a else slot_at j b), m)], used')
           | RNone \<Rightarrow> st))"

text \<open>The entries that did not merge.\<close>

definition add_single :: "('v node, 'v) slot option \<Rightarrow> u64 \<Rightarrow> bool \<Rightarrow> ('v entry \<times> u64) list \<Rightarrow> ('v entry \<times> u64) list" where
  "add_single s m used entries =
     (if \<not> used then (case s of Some e \<Rightarrow> entries @ [(e, m)] | None \<Rightarrow> entries) else entries)"

definition merge_entries ::
  "slice_utils \<Rightarrow> ('v node \<Rightarrow> 'v node \<Rightarrow> 'v node algebraic_result) \<Rightarrow> ('v \<Rightarrow> 'v \<Rightarrow> 'v algebraic_result) \<Rightarrow>
   'v lnode \<Rightarrow> 'v lnode \<Rightarrow> ('v entry \<times> u64) list" where
  "merge_entries S PJ vj a b =
     (let (entries, used) = fold (merge_pair S PJ vj a b) [(0, 0), (0, 1), (1, 0), (1, 1)] ([], replicate 4 False)
      in add_single (slot1 b) COUNTER_IDENT (used ! 3)
           (add_single (slot0 b) COUNTER_IDENT (used ! 2)
              (add_single (slot1 a) SELF_IDENT (used ! 1)
                 (add_single (slot0 a) SELF_IDENT (used ! 0) entries))))"

subsection \<open>Byte nodes and payloads\<close>

definition join_child_into ::
  "('v node \<Rightarrow> 'v node \<Rightarrow> 'v join_into_result) \<Rightarrow> u8 \<Rightarrow> 'v node \<Rightarrow> 'v bnode \<Rightarrow> algebraic_status \<times> 'v bnode" where
  "join_child_into JI k node bn =
     (case bn_get bn k of
        Some cf \<Rightarrow>
          (case cf_rec cf of
             Some existing_node \<Rightarrow>
               let (st, joined) = odrc_join_into JI existing_node node
               in (st, bn_replace k (CoFree (Some joined) (cf_val cf)) bn)
           | None \<Rightarrow> (SElement, bn_replace k (CoFree (Some node) (cf_val cf)) bn))
      | None \<Rightarrow> (SElement, bn_insert k (CoFree (Some node) None) bn))"

definition join_val_into ::
  "('v \<Rightarrow> 'v \<Rightarrow> 'v \<times> algebraic_status) \<Rightarrow> u8 \<Rightarrow> 'v \<Rightarrow> 'v bnode \<Rightarrow> algebraic_status \<times> 'v bnode" where
  "join_val_into vji k val bn =
     (case bn_get bn k of
        Some cf \<Rightarrow>
          (case cf_val cf of
             Some existing_val \<Rightarrow>
               let (joined, st) = vji existing_val val
               in (st, bn_replace k (CoFree (cf_rec cf) (Some joined)) bn)
           | None \<Rightarrow> (SElement, bn_replace k (CoFree (cf_rec cf) (Some val)) bn))
      | None \<Rightarrow> (SElement, bn_insert k (CoFree None (Some val)) bn))"

definition join_payload_into ::
  "('v node \<Rightarrow> 'v node \<Rightarrow> 'v join_into_result) \<Rightarrow> ('v \<Rightarrow> 'v \<Rightarrow> 'v \<times> algebraic_status) \<Rightarrow>
   u8 \<Rightarrow> 'v voc \<Rightarrow> 'v bnode \<Rightarrow> algebraic_status \<times> 'v bnode" where
  "join_payload_into JI vji k payload bn =
     (case payload of Child child \<Rightarrow> join_child_into JI k child bn | Val val \<Rightarrow> join_val_into vji k val bn)"

text \<open>\<open>merge_from_list_node\<close>: the two slots one after the other.\<close>

definition merge_slot_into ::
  "('v node \<Rightarrow> 'v node \<Rightarrow> 'v join_into_result) \<Rightarrow> ('v \<Rightarrow> 'v \<Rightarrow> 'v \<times> algebraic_status) \<Rightarrow> bool \<Rightarrow>
   ('v node, 'v) slot option \<Rightarrow> 'v bnode \<Rightarrow> algebraic_status \<times> 'v bnode" where
  "merge_slot_into JI vji self_was_empty s bn =
     (case s of
        None \<Rightarrow> (if self_was_empty then SNone else SIdentity, bn)
      | Some (key, payload) \<Rightarrow>
          if 1 < length key
          then join_child_into JI (hd key) (ListN (set_payload_0 (tl key) payload new_list_node)) bn
          else join_payload_into JI vji (hd key) payload bn)"

definition merge_from_list_node ::
  "('v node \<Rightarrow> 'v node \<Rightarrow> 'v join_into_result) \<Rightarrow> ('v \<Rightarrow> 'v \<Rightarrow> 'v \<times> algebraic_status) \<Rightarrow>
   'v bnode \<Rightarrow> 'v lnode \<Rightarrow> algebraic_status \<times> 'v bnode" where
  "merge_from_list_node JI vji bn list_node =
     (let self_was_empty = is_empty_mask (bn_mask bn);
          (slot0_status, bn0) = merge_slot_into JI vji self_was_empty (slot0 list_node) bn;
          (slot1_status, bn1) = merge_slot_into JI vji self_was_empty (slot1 list_node) bn0
      in (merge_status slot0_status slot1_status True True, bn1))"

text \<open>The end of \<open>merge_list_nodes\<close>: up to two entries make a list node, more a byte node.\<close>

definition dense_from_entries ::
  "('v node \<Rightarrow> 'v node \<Rightarrow> 'v join_into_result) \<Rightarrow> 'v entry list \<Rightarrow> 'v bnode" where
  "dense_from_entries JI entries =
     fold (\<lambda>(key, payload) bn.
         if 1 < length key
         then snd (join_child_into JI (hd key) (ListN (set_payload_0 (tl key) payload new_list_node)) bn)
         else bn_set_payload_owned (hd key) payload bn)
       entries new_byte_node"

definition merge_list_nodes ::
  "slice_utils \<Rightarrow> ('v node \<Rightarrow> 'v node \<Rightarrow> 'v node algebraic_result) \<Rightarrow> ('v node \<Rightarrow> 'v node \<Rightarrow> 'v join_into_result) \<Rightarrow>
   ('v \<Rightarrow> 'v \<Rightarrow> 'v algebraic_result) \<Rightarrow> 'v lnode \<Rightarrow> 'v lnode \<Rightarrow>
   ('v lnode algebraic_result, 'v bnode algebraic_result) result" where
  "merge_list_nodes S PJ JI vj a b =
     (case merge_entries S PJ vj a b of
        [] \<Rightarrow> Ok RNone
      | [((key0, payload0), mask0)] \<Rightarrow>
          if 0 < mask0 then Ok (Identity mask0) else Ok (Element (set_payload_0 key0 payload0 new_list_node))
      | [((key0, payload0), mask0), ((key1, payload1), mask1)] \<Rightarrow>
          if 0 < mask0 AND mask1 then Ok (Identity (mask0 AND mask1))
          else if should_swap_keys key0 key1
          then Ok (Element (two_slot_node (key1, payload1) (key0, payload0)))
          else Ok (Element (two_slot_node (key0, payload0) (key1, payload1)))
      | entries \<Rightarrow> Err (Element (dense_from_entries JI (map fst entries))))"

definition merge_into_list_nodes ::
  "slice_utils \<Rightarrow> ('v node \<Rightarrow> 'v node \<Rightarrow> 'v node algebraic_result) \<Rightarrow> ('v node \<Rightarrow> 'v node \<Rightarrow> 'v join_into_result) \<Rightarrow>
   ('v \<Rightarrow> 'v \<Rightarrow> 'v algebraic_result) \<Rightarrow> 'v lnode \<Rightarrow> 'v lnode \<Rightarrow> 'v join_into_result" where
  "merge_into_list_nodes S PJ JI vj target other =
     (case merge_list_nodes S PJ JI vj target other of
        Ok (Element joined) \<Rightarrow> (SElement, Ok (ListN joined))
      | Ok (Identity m) \<Rightarrow>
          if 0 < m AND SELF_IDENT then (SIdentity, Ok (ListN target)) else (SElement, Ok (ListN other))
      | Err (Element new_dense_node) \<Rightarrow> (SElement, Err (ByteN new_dense_node))
      | _ \<Rightarrow> (SNone, Ok (ListN target)))"

subsection \<open>Entries and byte nodes\<close>

definition cf_pjoin ::
  "('v node \<Rightarrow> 'v node \<Rightarrow> bool) \<Rightarrow> ('v node \<Rightarrow> 'v node \<Rightarrow> 'v node algebraic_result) \<Rightarrow> ('v \<Rightarrow> 'v \<Rightarrow> 'v algebraic_result) \<Rightarrow>
   ('v node, 'v) cofree \<Rightarrow> ('v node, 'v) cofree \<Rightarrow> ('v node, 'v) cofree algebraic_result" where
  "cf_pjoin peq P vj self other =
     merge_result (flatten_result (option_pjoin (odrc_pjoin peq P) (cf_rec self) (cf_rec other)))
       (flatten_result (option_pjoin vj (cf_val self) (cf_val other)))
       (field_idents (cf_rec self) (cf_rec other)) (field_idents (cf_val self) (cf_val other))
       (\<lambda>rec val. Element (CoFree rec val))"

text \<open>One field of \<open>CoFree::join_into\<close>.\<close>

definition join_field_into :: "('a \<Rightarrow> 'a \<Rightarrow> algebraic_status \<times> 'a) \<Rightarrow> 'a option \<Rightarrow> 'a option \<Rightarrow> algebraic_status \<times> 'a option" where
  "join_field_into J self other =
     (case (self, other) of
        (Some s, Some oth) \<Rightarrow> let (st, s') = J s oth in (st, Some s')
      | (Some s, None) \<Rightarrow> (SIdentity, Some s)
      | (None, Some oth) \<Rightarrow> (SElement, Some oth)
      | (None, None) \<Rightarrow> (SNone, None))"

definition cf_join_into ::
  "('v node \<Rightarrow> 'v node \<Rightarrow> 'v join_into_result) \<Rightarrow> ('v \<Rightarrow> 'v \<Rightarrow> 'v \<times> algebraic_status) \<Rightarrow>
   ('v node, 'v) cofree \<Rightarrow> ('v node, 'v) cofree \<Rightarrow> algebraic_status \<times> ('v node, 'v) cofree" where
  "cf_join_into JI vji self other =
     (let (rec_status, rec) = join_field_into (odrc_join_into JI) (cf_rec self) (cf_rec other);
          (val_status, val) = join_field_into (\<lambda>s oth. prod.swap (vji s oth)) (cf_val self) (cf_val other)
      in (merge_status rec_status val_status True True, CoFree rec val))"

text \<open>The loops over the bits of the joined mask; \<open>l\<close> and \<open>r\<close> count the entries read from the two nodes.\<close>

definition pjoin_bit ::
  "(('v node, 'v) cofree \<Rightarrow> ('v node, 'v) cofree \<Rightarrow> ('v node, 'v) cofree algebraic_result) \<Rightarrow>
   'v bnode \<Rightarrow> 'v bnode \<Rightarrow> nat \<times> nat \<Rightarrow>
   (bool \<times> bool) \<times> nat \<times> nat \<times> ('v node, 'v) cofree list \<Rightarrow>
   (bool \<times> bool) \<times> nat \<times> nat \<times> ('v node, 'v) cofree list" where
  "pjoin_bit cfj self other item st =
     (case (item, st) of
        ((i, index), ((is_ident, is_counter), l, r, v)) \<Rightarrow>
          let lv = bn_values self ! l; rv = bn_values other ! r in
          if push_bit index 1 AND word_at (mask_and (bn_mask self) (bn_mask other)) i \<noteq> 0 then
            (case cfj lv rv of
               RNone \<Rightarrow> ((is_ident, is_counter), l + 1, r + 1, v @ [CoFree None None])
             | Identity m \<Rightarrow>
                 ((is_ident \<and> m AND SELF_IDENT \<noteq> 0, is_counter \<and> m AND COUNTER_IDENT \<noteq> 0), l + 1, r + 1,
                  v @ [if 0 < m AND SELF_IDENT then lv else rv])
             | Element jv \<Rightarrow> ((False, False), l + 1, r + 1, v @ [jv]))
          else if push_bit index 1 AND word_at (bn_mask self) i \<noteq> 0 then ((is_ident, False), l + 1, r, v @ [lv])
          else ((False, is_counter), l, r + 1, v @ [rv]))"

definition bn_pjoin ::
  "(('v node, 'v) cofree \<Rightarrow> ('v node, 'v) cofree \<Rightarrow> ('v node, 'v) cofree algebraic_result) \<Rightarrow>
   'v bnode \<Rightarrow> 'v bnode \<Rightarrow> 'v bnode algebraic_result" where
  "bn_pjoin cfj self other =
     (let jm = mask_or (bn_mask self) (bn_mask other);
          ((is_ident, is_counter), _, _, v) =
            fold (pjoin_bit cfj self other) (mask_items jm) ((bn_mask self = jm, bn_mask other = jm), 0, 0, [])
      in if length v = 0 then RNone
         else if is_ident \<or> is_counter then
           Identity ((if is_ident then SELF_IDENT else 0) OR (if is_counter then COUNTER_IDENT else 0))
         else Element (BN jm v))"

definition join_into_bit ::
  "(('v node, 'v) cofree \<Rightarrow> ('v node, 'v) cofree \<Rightarrow> algebraic_status \<times> ('v node, 'v) cofree) \<Rightarrow>
   'v bnode \<Rightarrow> 'v bnode \<Rightarrow> nat \<times> nat \<Rightarrow>
   bool \<times> nat \<times> nat \<times> ('v node, 'v) cofree list \<Rightarrow> bool \<times> nat \<times> nat \<times> ('v node, 'v) cofree list" where
  "join_into_bit cfji self other item st =
     (case (item, st) of
        ((i, index), (is_ident, l, r, v)) \<Rightarrow>
          let lv = bn_values self ! l; rv = bn_values other ! r in
          if push_bit index 1 AND word_at (mask_and (bn_mask self) (bn_mask other)) i \<noteq> 0 then
            (let (status, lv') = cfji lv rv in (is_ident \<and> status \<noteq> SElement, l + 1, r + 1, v @ [lv']))
          else if push_bit index 1 AND word_at (bn_mask self) i \<noteq> 0 then (is_ident, l + 1, r, v @ [lv])
          else (False, l, r + 1, v @ [rv]))"

definition bn_join_into ::
  "(('v node, 'v) cofree \<Rightarrow> ('v node, 'v) cofree \<Rightarrow> algebraic_status \<times> ('v node, 'v) cofree) \<Rightarrow>
   'v bnode \<Rightarrow> 'v bnode \<Rightarrow> algebraic_status \<times> 'v bnode" where
  "bn_join_into cfji self other =
     (let jm = mask_or (bn_mask self) (bn_mask other);
          (is_ident, _, _, v) = fold (join_into_bit cfji self other) (mask_items jm) (bn_mask self = jm, 0, 0, [])
      in (if length v = 0 then SNone else if is_ident then SIdentity else SElement, BN jm v))"

subsection \<open>Nodes\<close>

text \<open>The methods \<open>pjoin_dyn\<close> and \<open>join_into_dyn\<close> of each node type, and the dispatch over the left node.
  \<open>P\<close> and \<open>JI\<close> are the two operations on smaller nodes.\<close>

fun empty_pjoin_dyn :: "'v node \<Rightarrow> 'v node algebraic_result" where
  "empty_pjoin_dyn other = (if node_is_empty other then RNone else Identity COUNTER_IDENT)"

fun list_pjoin_dyn ::
  "slice_utils \<Rightarrow> ('v node \<Rightarrow> 'v node \<Rightarrow> 'v node algebraic_result) \<Rightarrow> ('v node \<Rightarrow> 'v node \<Rightarrow> 'v join_into_result) \<Rightarrow>
   ('v \<Rightarrow> 'v \<Rightarrow> 'v algebraic_result) \<Rightarrow> ('v \<Rightarrow> 'v \<Rightarrow> 'v \<times> algebraic_status) \<Rightarrow> 'v lnode \<Rightarrow> 'v node \<Rightarrow> 'v node algebraic_result" where
  "list_pjoin_dyn S PJ JI vj vji ln (ListN other) =
     (case merge_list_nodes S PJ JI vj ln other of
        Ok joined_list_node \<Rightarrow> Ring.map_result ListN joined_list_node
      | Err joined_dense_node \<Rightarrow> Ring.map_result ByteN joined_dense_node)"
| "list_pjoin_dyn S PJ JI vj vji ln (ByteN other) =
     (case merge_from_list_node JI vji other ln of
        (SNone, _) \<Rightarrow> RNone
      | (SIdentity, _) \<Rightarrow> Identity COUNTER_IDENT
      | (SElement, new_node) \<Rightarrow> Element (ByteN new_node))"
| "list_pjoin_dyn S PJ JI vj vji ln EmptyN = Identity SELF_IDENT"

fun byte_pjoin_dyn ::
  "(('v node, 'v) cofree \<Rightarrow> ('v node, 'v) cofree \<Rightarrow> ('v node, 'v) cofree algebraic_result) \<Rightarrow>
   ('v node \<Rightarrow> 'v node \<Rightarrow> 'v join_into_result) \<Rightarrow> ('v \<Rightarrow> 'v \<Rightarrow> 'v \<times> algebraic_status) \<Rightarrow> 'v bnode \<Rightarrow> 'v node \<Rightarrow> 'v node algebraic_result" where
  "byte_pjoin_dyn cfj JI vji bn (ByteN other) = Ring.map_result ByteN (bn_pjoin cfj bn other)"
| "byte_pjoin_dyn cfj JI vji bn (ListN other) =
     (let (st, new_node) = merge_from_list_node JI vji bn other in from_status st (\<lambda>_. ByteN new_node))"
| "byte_pjoin_dyn cfj JI vji bn EmptyN = Identity SELF_IDENT"

fun pjoin_step ::
  "('v node \<Rightarrow> 'v node \<Rightarrow> bool) \<Rightarrow> ('v \<Rightarrow> 'v \<Rightarrow> 'v algebraic_result) \<Rightarrow> ('v \<Rightarrow> 'v \<Rightarrow> 'v \<times> algebraic_status) \<Rightarrow> slice_utils \<Rightarrow>
   ('v node \<Rightarrow> 'v node \<Rightarrow> 'v node algebraic_result) \<Rightarrow> ('v node \<Rightarrow> 'v node \<Rightarrow> 'v join_into_result) \<Rightarrow>
   'v node \<Rightarrow> 'v node \<Rightarrow> 'v node algebraic_result" where
  "pjoin_step peq vj vji S P JI EmptyN other = empty_pjoin_dyn other"
| "pjoin_step peq vj vji S P JI (ListN ln) other = list_pjoin_dyn S (odrc_pjoin peq P) JI vj vji ln other"
| "pjoin_step peq vj vji S P JI (ByteN bn) other = byte_pjoin_dyn (cf_pjoin peq P vj) JI vji bn other"

fun empty_join_into_dyn :: "'v node \<Rightarrow> 'v join_into_result" where
  "empty_join_into_dyn other = (if node_is_empty other then (SNone, Ok EmptyN) else (SElement, Err other))"

fun list_join_into_dyn ::
  "slice_utils \<Rightarrow> ('v node \<Rightarrow> 'v node \<Rightarrow> 'v node algebraic_result) \<Rightarrow> ('v node \<Rightarrow> 'v node \<Rightarrow> 'v join_into_result) \<Rightarrow>
   ('v \<Rightarrow> 'v \<Rightarrow> 'v algebraic_result) \<Rightarrow> ('v \<Rightarrow> 'v \<Rightarrow> 'v \<times> algebraic_status) \<Rightarrow> 'v lnode \<Rightarrow> 'v node \<Rightarrow> 'v join_into_result" where
  "list_join_into_dyn S PJ JI vj vji ln (ListN other) = merge_into_list_nodes S PJ JI vj ln other"
| "list_join_into_dyn S PJ JI vj vji ln (ByteN other) = (SElement, Err (ByteN (snd (merge_from_list_node JI vji other ln))))"
| "list_join_into_dyn S PJ JI vj vji ln EmptyN = (SIdentity, Ok (ListN ln))"

fun byte_join_into_dyn ::
  "('v node \<Rightarrow> 'v node \<Rightarrow> 'v join_into_result) \<Rightarrow> ('v \<Rightarrow> 'v \<Rightarrow> 'v \<times> algebraic_status) \<Rightarrow> 'v bnode \<Rightarrow> 'v node \<Rightarrow> 'v join_into_result" where
  "byte_join_into_dyn JI vji bn other =
     (if node_is_empty other then (SIdentity, Ok (ByteN bn))
      else
        (case other of
           ByteN taken_node \<Rightarrow> map_prod (\<lambda>st. st) (\<lambda>n. Ok (ByteN n)) (bn_join_into (cf_join_into JI vji) bn taken_node)
         | ListN list_node \<Rightarrow> map_prod (\<lambda>st. st) (\<lambda>n. Ok (ByteN n)) (merge_from_list_node JI vji bn list_node)
         | EmptyN \<Rightarrow> (SIdentity, Ok (ByteN bn))))"

fun join_into_step ::
  "('v node \<Rightarrow> 'v node \<Rightarrow> bool) \<Rightarrow> ('v \<Rightarrow> 'v \<Rightarrow> 'v algebraic_result) \<Rightarrow> ('v \<Rightarrow> 'v \<Rightarrow> 'v \<times> algebraic_status) \<Rightarrow> slice_utils \<Rightarrow>
   ('v node \<Rightarrow> 'v node \<Rightarrow> 'v node algebraic_result) \<Rightarrow> ('v node \<Rightarrow> 'v node \<Rightarrow> 'v join_into_result) \<Rightarrow>
   'v node \<Rightarrow> 'v node \<Rightarrow> 'v join_into_result" where
  "join_into_step peq vj vji S P JI EmptyN other = empty_join_into_dyn other"
| "join_into_step peq vj vji S P JI (ListN ln) other = list_join_into_dyn S (odrc_pjoin peq P) JI vj vji ln other"
| "join_into_step peq vj vji S P JI (ByteN bn) other = byte_join_into_dyn JI vji bn other"

text \<open>The calls are guarded by the sizes of the two nodes together: every call descends in at least one
  of them, and an intermediate node is no larger than the node its slot came from.\<close>

function pjoin_dyn ::
  "('v node \<Rightarrow> 'v node \<Rightarrow> bool) \<Rightarrow> ('v \<Rightarrow> 'v \<Rightarrow> 'v algebraic_result) \<Rightarrow> ('v \<Rightarrow> 'v \<Rightarrow> 'v \<times> algebraic_status) \<Rightarrow> slice_utils \<Rightarrow>
   'v node \<Rightarrow> 'v node \<Rightarrow> 'v node algebraic_result"
  and join_into_dyn ::
  "('v node \<Rightarrow> 'v node \<Rightarrow> bool) \<Rightarrow> ('v \<Rightarrow> 'v \<Rightarrow> 'v algebraic_result) \<Rightarrow> ('v \<Rightarrow> 'v \<Rightarrow> 'v \<times> algebraic_status) \<Rightarrow> slice_utils \<Rightarrow>
   'v node \<Rightarrow> 'v node \<Rightarrow> 'v join_into_result" where
  "pjoin_dyn peq vj vji S self other =
     (if peq self other then Identity (SELF_IDENT OR COUNTER_IDENT)
      else pjoin_step peq vj vji S
        (\<lambda>a b. if size a + size b < size self + size other then pjoin_dyn peq vj vji S a b else RNone)
        (\<lambda>a b. if size a + size b < size self + size other then join_into_dyn peq vj vji S a b else (SNone, Ok a))
        self other)"
| "join_into_dyn peq vj vji S self other =
     join_into_step peq vj vji S
       (\<lambda>a b. if size a + size b < size self + size other then pjoin_dyn peq vj vji S a b else RNone)
       (\<lambda>a b. if size a + size b < size self + size other then join_into_dyn peq vj vji S a b else (SNone, Ok a))
       self other"
  by pat_completeness auto
termination
  by (relation "measure (\<lambda>x. case x of
        Inl (_, _, _, _, a, b) \<Rightarrow> size a + size b | Inr (_, _, _, _, a, b) \<Rightarrow> size a + size b)") auto

declare pjoin_dyn.simps [simp del] join_into_dyn.simps [simp del]

subsection \<open>Maps\<close>

definition root_pjoin ::
  "('v node \<Rightarrow> 'v node \<Rightarrow> bool) \<Rightarrow> ('v \<Rightarrow> 'v \<Rightarrow> 'v algebraic_result) \<Rightarrow> ('v \<Rightarrow> 'v \<Rightarrow> 'v \<times> algebraic_status) \<Rightarrow> slice_utils \<Rightarrow>
   'v path_map \<Rightarrow> 'v path_map \<Rightarrow> 'v node option algebraic_result" where
  "root_pjoin peq vj vji S m1 m2 = option_pjoin (odrc_pjoin peq (pjoin_dyn peq vj vji S)) (root m1) (root m2)"

definition map_pjoin ::
  "('v node \<Rightarrow> 'v node \<Rightarrow> bool) \<Rightarrow> ('v \<Rightarrow> 'v \<Rightarrow> 'v algebraic_result) \<Rightarrow> ('v \<Rightarrow> 'v \<Rightarrow> 'v \<times> algebraic_status) \<Rightarrow> slice_utils \<Rightarrow>
   'v path_map \<Rightarrow> 'v path_map \<Rightarrow> 'v path_map algebraic_result" where
  "map_pjoin peq vj vji S m1 m2 =
     merge_result (root_pjoin peq vj vji S m1 m2) (option_pjoin vj (root_val m1) (root_val m2))
       (fst (map_fields m1 m2)) (snd (map_fields m1 m2)) map_element"

fun result_into_map :: "'v path_map algebraic_result \<Rightarrow> 'v path_map \<Rightarrow> 'v path_map \<Rightarrow> 'v path_map" where
  "result_into_map (Element m) self other = m"
| "result_into_map RNone self other = new_map"
| "result_into_map (Identity m) self other = (if 0 < m AND SELF_IDENT then self else other)"

definition map_join ::
  "('v node \<Rightarrow> 'v node \<Rightarrow> bool) \<Rightarrow> ('v \<Rightarrow> 'v \<Rightarrow> 'v algebraic_result) \<Rightarrow> ('v \<Rightarrow> 'v \<Rightarrow> 'v \<times> algebraic_status) \<Rightarrow> slice_utils \<Rightarrow>
   'v path_map \<Rightarrow> 'v path_map \<Rightarrow> 'v path_map" where
  "map_join peq vj vji S m1 m2 = result_into_map (map_pjoin peq vj vji S m1 m2) m1 m2"

definition map_join_into ::
  "('v node \<Rightarrow> 'v node \<Rightarrow> bool) \<Rightarrow> ('v \<Rightarrow> 'v \<Rightarrow> 'v algebraic_result) \<Rightarrow> ('v \<Rightarrow> 'v \<Rightarrow> 'v \<times> algebraic_status) \<Rightarrow> slice_utils \<Rightarrow>
   'v path_map \<Rightarrow> 'v path_map \<Rightarrow> algebraic_status \<times> 'v path_map" where
  "map_join_into peq vj vji S m1 m2 =
     (let (other_root_node, other_root_val) = into_root m2;
          (root_node_status, root') =
            (case other_root_node of
               Some other_root \<Rightarrow>
                 (let (st, result) = join_into_dyn peq vj vji S (get_or_init_root m1) other_root
                  in (st, Some (after_join result)))
             | None \<Rightarrow> (if map_is_empty m1 then SNone else SIdentity, root m1));
          (val', root_val_status) = option_join_into vji (root_val m1) other_root_val
      in (merge_status root_node_status root_val_status True True, \<lparr>root = root', root_val = val'\<rparr>))"

end
