(* ===== verification/Join_Slots.thy ===== *)
theory Join_Slots
  imports Node_Join Subtract_Laws
begin

text \<open>
  What a join is, and the join of two slots of list nodes. \<open>full\<close> singles out the well-formed tries
  without dangling paths; \<open>join_opt\<close> and \<open>joint\<close> say path by path what a join computes, \<open>sound\<close> when
  an \<open>AlgebraicResult\<close> is right. The locale \<open>join_impl\<close> is the contract of the value type; inside it
  \<open>merge_guts\<close> is shown to merge two slots exactly when they speak for the same byte and kind
  (\<open>slot_tag\<close>).
\<close>

unbundle bit_operations_syntax

subsection \<open>Tries without dangling paths\<close>

function tight :: "'v node \<Rightarrow> bool" where
  "tight n \<longleftrightarrow>
     (\<forall>c \<in> set (node_children n). \<not> node_is_empty c \<and> tight c) \<and>
     (case n of ByteN bn \<Rightarrow> \<forall>cf \<in> set (bn_values bn). cf_has_rec cf \<or> cf_has_val cf | _ \<Rightarrow> True)"
  by auto
termination
  by (relation "measure size") (auto dest: node_children_size)

declare tight.simps [simp del]

text \<open>A well-formed trie with no empty link and no empty entry; \<open>live\<close>: it is not empty either.\<close>

definition full :: "'v node \<Rightarrow> bool" where
  "full n \<longleftrightarrow> wf_node n \<and> tight n"

definition live :: "'v node \<Rightarrow> bool" where
  "live n \<longleftrightarrow> full n \<and> \<not> node_is_empty n"

definition live_payload :: "'v voc \<Rightarrow> bool" where
  "live_payload p \<longleftrightarrow> (case p of Val v \<Rightarrow> True | Child c \<Rightarrow> live c)"

definition live_cf :: "('v node, 'v) cofree \<Rightarrow> bool" where
  "live_cf cf \<longleftrightarrow> (\<forall>c. cf_rec cf = Some c \<longrightarrow> live c) \<and> (cf_rec cf \<noteq> None \<or> cf_val cf \<noteq> None)"

definition live_entry :: "'v entry \<Rightarrow> bool" where
  "live_entry e \<longleftrightarrow> fst e \<noteq> [] \<and> length (fst e) \<le> KEY_BYTES_CNT \<and> live_payload (snd e)"

lemma live_payload_simps [simp]: "live_payload (Val v)" "live_payload (Child c) \<longleftrightarrow> live c"
  by (simp_all add: live_payload_def)

lemma live_wf: "live n \<Longrightarrow> wf_node n" and live_full: "live n \<Longrightarrow> full n" and full_wf: "full n \<Longrightarrow> wf_node n"
  by (simp_all add: live_def full_def)

lemma live_not_empty [simp]: "live n \<Longrightarrow> node_is_empty n \<longleftrightarrow> False" "live n \<Longrightarrow> n \<noteq> EmptyN" "\<not> live EmptyN"
  by (auto simp: live_def)

lemma live_payload_wf: "live_payload p \<Longrightarrow> wf_payload p \<and> p \<noteq> Child EmptyN"
  by (cases p) (auto dest: live_wf)

lemma live_entry_pair: "live_entry (k, p) \<longleftrightarrow> k \<noteq> [] \<and> length k \<le> KEY_BYTES_CNT \<and> live_payload p"
  by (simp add: live_entry_def)

lemma bn_values_get:
  assumes "bn_ok bn"
  shows "(\<forall>cf \<in> set (bn_values bn). P cf) \<longleftrightarrow> (\<forall>b cf. bn_get bn b = Some cf \<longrightarrow> P cf)"
  using bn_get_mem[of bn] bn_values_mem[OF assms] by blast

lemma full_simps:
  "full (EmptyN :: 'a node)"
  "full (ListN (LN s0 s1) :: 'a node) \<longleftrightarrow> wf_slots s0 s1 \<and> (\<forall>e. s0 = Some e \<or> s1 = Some e \<longrightarrow> live_payload (snd e))"
  "full (ByteN bn :: 'a node) \<longleftrightarrow> bn_ok bn \<and> (\<forall>b cf. bn_get bn b = Some cf \<longrightarrow> live_cf cf)"
proof -
  show "full (EmptyN :: 'a node)" by (simp add: full_def tight.simps[of EmptyN])
  have p: "wf_slot s \<and> (\<forall>c \<in> set (slot_children s). \<not> node_is_empty c \<and> tight c) \<longleftrightarrow> (\<forall>e. s = Some e \<longrightarrow> live_payload (snd e))"
    for s :: "('a node, 'a) slot option"
    by (cases s rule: slot_children.cases) (simp_all add: live_def full_def conj_ac)
  have split: "(\<forall>e. s0 = Some e \<or> s1 = Some e \<longrightarrow> live_payload (snd e)) \<longleftrightarrow>
      (\<forall>e. s0 = Some e \<longrightarrow> live_payload (snd e)) \<and> (\<forall>e. s1 = Some e \<longrightarrow> live_payload (snd e))" by auto
  show "full (ListN (LN s0 s1)) \<longleftrightarrow> wf_slots s0 s1 \<and> (\<forall>e. s0 = Some e \<or> s1 = Some e \<longrightarrow> live_payload (snd e))"
    unfolding split p[symmetric] full_def tight.simps[of "ListN (LN s0 s1)"] wf_node_simps node_children.simps set_append ball_Un
    by (simp only: list_node.sel node.case wf_list_LN conj_ac simp_thms)
  have q: "live_cf cf \<longleftrightarrow> (\<forall>c. cf_rec cf = Some c \<longrightarrow> wf_node c) \<and> (\<forall>c \<in> set (cf_children cf). \<not> node_is_empty c \<and> tight c) \<and> (cf_has_rec cf \<or> cf_has_val cf)"
    for cf :: "('a node, 'a) cofree"
    by (auto simp: live_cf_def live_def full_def cf_children_def cf_has_rec_def cf_has_val_def split: option.split)
  show "full (ByteN bn) \<longleftrightarrow> bn_ok bn \<and> (\<forall>b cf. bn_get bn b = Some cf \<longrightarrow> live_cf cf)"
  proof (cases "bn_ok bn")
    case True
    show ?thesis unfolding bn_values_get[OF True, symmetric] q by (auto simp: full_def tight.simps[of "ByteN bn"])
  qed (simp add: full_def)
qed

lemma live_ListN: "live (ListN (LN s0 s1)) \<longleftrightarrow> full (ListN (LN s0 s1)) \<and> s0 \<noteq> None"
  by (simp add: live_def is_used_def)

lemma live_ByteN: "live (ByteN bn) \<longleftrightarrow> full (ByteN bn) \<and> (\<exists>b. bn_get bn b \<noteq> None)"
proof -
  have "node_is_empty (ByteN bn) \<longleftrightarrow> (\<forall>b. bn_get bn b = None)" if "full (ByteN bn)"
    using bn_empty_iff[of bn] that by (simp add: full_simps)
  then show ?thesis by (auto simp: live_def)
qed

lemma live_one_slot: "live (ListN (LN (Some (k, p)) None)) \<longleftrightarrow> live_entry (k, p)"
  by (auto simp: live_ListN full_simps live_entry_def)

subsection \<open>Nodes from two slots\<close>

definition tight_payload :: "'v voc \<Rightarrow> bool" where
  "tight_payload p \<longleftrightarrow> (case p of Val v \<Rightarrow> True | Child c \<Rightarrow> \<not> node_is_empty c \<and> tight c)"

lemma live_payload_split: "live_payload p \<longleftrightarrow> wf_payload p \<and> tight_payload p"
  by (cases p) (auto simp: tight_payload_def live_def full_def)

lemma tight_ListN:
  "tight (ListN (LN s0 s1)) \<longleftrightarrow> (\<forall>e. s0 = Some e \<or> s1 = Some e \<longrightarrow> tight_payload (snd e))"
proof -
  have p: "(\<forall>c \<in> set (slot_children s). \<not> node_is_empty c \<and> tight c) \<longleftrightarrow> (\<forall>e. s = Some e \<longrightarrow> tight_payload (snd e))"
    for s :: "('a node, 'a) slot option"
    by (cases s rule: slot_children.cases) (auto simp: tight_payload_def)
  show ?thesis
    unfolding tight.simps[of "ListN (LN s0 s1)"] node_children.simps set_append ball_Un
    using p[of s0] p[of s1] by auto
qed

lemma tight_one_slot: "tight_payload (Child (ListN (LN (Some (k, p)) None))) \<longleftrightarrow> tight_payload p"
  by (simp add: tight_payload_def[of "Child _"] tight_ListN is_used_def)

lemma set_payload_0_no_overflow_tight:
  assumes "tight_payload p"
  shows "\<exists>e. snd (set_payload_0_no_overflow key p ln) = LN (Some e) None \<and> tight_payload (snd e)"
proof -
  have "tight_payload (Child (fold (\<lambda>idx next_node.
      ListN (set_payload_0 (f idx) (Child next_node) new_list_node)) xs n))"
    if "tight_payload (Child n)" for f :: "nat \<Rightarrow> path" and xs and n :: "'a node"
    using that by (induction xs arbitrary: n) (simp_all add: tight_one_slot)
  then show ?thesis using assms
    by (auto simp: set_payload_0_no_overflow_def Let_def tight_one_slot)
qed

lemma set_payload_1_no_overflow_tight:
  assumes "tight_payload p0" "tight_payload p"
  shows "\<exists>e0 e1. snd (set_payload_1_no_overflow key p (LN (Some (k0, p0)) None)) = LN (Some e0) (Some e1) \<and>
    tight_payload (snd e0) \<and> tight_payload (snd e1)"
proof -
  have room: "\<exists>e0 e1. snd (set_payload_1_no_overflow key p (LN (Some (k, pk)) None)) = LN (Some e0) (Some e1) \<and>
      tight_payload (snd e0) \<and> tight_payload (snd e1)"
    if "length k < KEY_BYTES_CNT" "tight_payload pk" for k pk
  proof -
    have av: "is_available_1 (LN (Some (k, pk)) None)" using that by (simp add: is_available_1_def is_used_def)
    show ?thesis
      using that av assms(2) set_payload_0_no_overflow_tight[OF assms(2), of "drop (KEY_BYTES_CNT - length k) key" new_list_node]
      by (auto simp: set_payload_1_no_overflow.simps Let_def tight_one_slot)
  qed
  show ?thesis
  proof (cases "length k0 < KEY_BYTES_CNT")
    case False
    have "snd (set_payload_1_no_overflow key p (LN (Some (k0, p0)) None)) =
        snd (set_payload_1_no_overflow key p (split_0 (KEY_BYTES_CNT div 2) (LN (Some (k0, p0)) None)))"
      using False by (subst set_payload_1_no_overflow.simps) (simp add: is_available_1_def is_used_def)
    then show ?thesis
      using room[of "take (KEY_BYTES_CNT div 2) k0" "Child (ListN (LN (Some (drop (KEY_BYTES_CNT div 2) k0, p0)) None))"] False assms(1)
      by (auto simp: split_0_def tight_one_slot KEY_BYTES_CNT_def)
  qed (use room assms in simp)
qed

lemma two_slot_node_spec:
  assumes "live_entry (k0, p0)" "live_entry (k1, p1)" "wf_pair k0 p0 k1 p1"
  shows "live (ListN (two_slot_node (k0, p0) (k1, p1)))"
    and "ln_den den (two_slot_node (k0, p0) (k1, p1)) q = or_else_opt (slot_den den (Some (k0, p0)) q) (slot_den den (Some (k1, p1)) q)"
proof -
  have e: "k0 \<noteq> []" "k1 \<noteq> []" "wf_payload p0" "wf_payload p1" "tight_payload p0" "tight_payload p1" "length k0 \<le> KEY_BYTES_CNT"
    using assms(1,2) by (auto simp: live_entry_def live_payload_split)
  have pl: "placed k1 p1 (Some (k0, p0)) (set_payload_1_no_overflow k1 p1 (LN (Some (k0, p0)) None))"
    using e assms(3) by (intro set_payload_1_no_overflow_spec) auto
  have n: "two_slot_node (k0, p0) (k1, p1) = snd (set_payload_1_no_overflow k1 p1 (LN (Some (k0, p0)) None))"
    by (simp add: two_slot_node_def)
  show "live (ListN (two_slot_node (k0, p0) (k1, p1)))"
    using pl set_payload_1_no_overflow_tight[OF e(5,6), of k1 k0]
    by (auto simp: n live_def full_def tight_ListN placed_def is_used_def)
  show "ln_den den (two_slot_node (k0, p0) (k1, p1)) q = or_else_opt (slot_den den (Some (k0, p0)) q) (slot_den den (Some (k1, p1)) q)"
    using pl or_else_write[OF e(2,1) wf_pair_apart[OF e(1,2) assms(3), unfolded apart_commute[of k0]] e(4,3), of q]
    unfolding n placed_def by metis
qed

subsection \<open>What a join computes\<close>

text \<open>\<open>J a b c\<close> says that \<open>c\<close> may be the join of the values \<open>a\<close> and \<open>b\<close>.\<close>

definition join_opt :: "('v \<Rightarrow> 'v \<Rightarrow> 'v \<Rightarrow> bool) \<Rightarrow> 'v option \<Rightarrow> 'v option \<Rightarrow> 'v option \<Rightarrow> bool" where
  "join_opt J x y z =
     (case (x, y) of
        (Some a, Some b) \<Rightarrow> (\<exists>c. z = Some c \<and> J a b c)
      | (Some a, None) \<Rightarrow> z = Some a
      | (None, _) \<Rightarrow> z = y)"

lemma join_opt_simps [simp]:
  "join_opt J None y z \<longleftrightarrow> z = y"
  "join_opt J x None z \<longleftrightarrow> z = x"
  "join_opt J (Some a) (Some b) z \<longleftrightarrow> (\<exists>c. z = Some c \<and> J a b c)"
  by (auto simp: join_opt_def split: option.split)

definition joint :: "('v \<Rightarrow> 'v \<Rightarrow> 'v \<Rightarrow> bool) \<Rightarrow> (path \<Rightarrow> 'v option) \<Rightarrow> (path \<Rightarrow> 'v option) \<Rightarrow> (path \<Rightarrow> 'v option) \<Rightarrow> bool" where
  "joint J f g h \<longleftrightarrow> (\<forall>q. join_opt J (f q) (g q) (h q))"

text \<open>The map below a key.\<close>

definition below :: "path \<Rightarrow> (path \<Rightarrow> 'v option) \<Rightarrow> path \<Rightarrow> 'v option" where
  "below k f q = (if prefix k q then f (drop (length k) q) else None)"

lemma joint_below: "joint J f g h \<Longrightarrow> joint J (below k f) (below k g) (below k h)"
  by (simp add: joint_def below_def)

lemma slot_den_below: "slot_den den (Some (k, Child c)) = below k (den c)"
  by (simp add: fun_eq_iff below_def)

lemma slot_den_tail: "n \<le> length k \<Longrightarrow> slot_den den (Some (k, p)) = below (take n k) (slot_den den (Some (drop n k, p)))"
  by (rule ext) (simp only: slot_den_drop below_def length_take min.absorb2)

text \<open>A result is sound when an element is right (\<open>el\<close>), each bit of an identity mask names an argument
  that is the result (\<open>self\<close>, \<open>counter\<close>; there are no other bits), and \<open>None\<close> comes only when it may (\<open>none\<close>).\<close>

definition two_bits :: "u64 \<Rightarrow> bool" where
  "two_bits m \<longleftrightarrow> (\<forall>i. bit m i \<longrightarrow> i < 2)"

lemma two_bits_simps [simp]: "two_bits 0" "two_bits SELF_IDENT" "two_bits COUNTER_IDENT"
  "two_bits m \<Longrightarrow> two_bits m' \<Longrightarrow> two_bits (m OR m')" "two_bits m \<Longrightarrow> two_bits (m AND m')"
  by (auto simp: two_bits_def bit_or_iff bit_and_iff SELF_IDENT_def COUNTER_IDENT_def bit_2_iff bit_1_iff)

lemma two_bits_pos: "two_bits m \<Longrightarrow> 0 < m \<longleftrightarrow> bit m 0 \<or> bit m 1"
proof -
  assume t: "two_bits m"
  have "bit m 0 \<or> bit m 1" if "0 < m"
  proof -
    have "m \<noteq> 0" using that by simp
    then obtain i where "bit m i" by (auto simp: bit_eq_iff)
    moreover have "i = 0 \<or> i = 1" using t calculation by (auto simp: two_bits_def)
    ultimately show ?thesis by blast
  qed
  moreover have "m \<noteq> 0" if "bit m 0 \<or> bit m 1" using that by (cases "m = 0") simp_all
  ultimately show ?thesis by (auto simp: word_neq_0_conv)
qed

definition sound :: "('r \<Rightarrow> bool) \<Rightarrow> bool \<Rightarrow> bool \<Rightarrow> bool \<Rightarrow> 'r algebraic_result \<Rightarrow> bool" where
  "sound el none self counter r \<longleftrightarrow>
     (case r of
        RNone \<Rightarrow> none
      | Identity m \<Rightarrow> (bit m 0 \<or> bit m 1) \<and> two_bits m \<and> (bit m 0 \<longrightarrow> self) \<and> (bit m 1 \<longrightarrow> counter)
      | Element e \<Rightarrow> el e)"

lemma sound_simps [simp]:
  "sound el none self counter RNone \<longleftrightarrow> none"
  "sound el none self counter (Identity m) \<longleftrightarrow> (bit m 0 \<or> bit m 1) \<and> two_bits m \<and> (bit m 0 \<longrightarrow> self) \<and> (bit m 1 \<longrightarrow> counter)"
  "sound el none self counter (Element e) \<longleftrightarrow> el e"
  by (simp_all add: sound_def)

lemma ident_bit_simps [simp]:
  "bit SELF_IDENT 0" "\<not> bit SELF_IDENT 1" "\<not> bit COUNTER_IDENT 0" "bit COUNTER_IDENT 1"
  "\<not> bit SELF_IDENT (Suc 0)" "bit COUNTER_IDENT (Suc 0)"
  by (simp_all add: SELF_IDENT_def COUNTER_IDENT_def bit_2_word_iff bit_1_iff)

lemma mask_counter_pos [simp]: "0 < (m :: u64) AND COUNTER_IDENT \<longleftrightarrow> bit m 1"
  using mask_counter_pos_iff[of m] by (simp add: word_neq_0_conv)

lemmas mask_self_pos [simp] = mask_pos_iff

definition node_join :: "('v \<Rightarrow> 'v \<Rightarrow> 'v \<Rightarrow> bool) \<Rightarrow> 'v node \<Rightarrow> 'v node \<Rightarrow> 'v node algebraic_result \<Rightarrow> bool" where
  "node_join J a b r \<longleftrightarrow>
     sound (\<lambda>n. live n \<and> joint J (den a) (den b) (den n)) (node_is_empty a \<and> node_is_empty b)
       (joint J (den a) (den b) (den a)) (joint J (den a) (den b) (den b)) r"

definition node_joined :: "('v \<Rightarrow> 'v \<Rightarrow> 'v \<Rightarrow> bool) \<Rightarrow> 'v node \<Rightarrow> 'v node \<Rightarrow> algebraic_status \<times> 'v node \<Rightarrow> bool" where
  "node_joined J a b r \<longleftrightarrow>
     (case r of (st, n) \<Rightarrow>
        full n \<and> (node_is_empty n \<longrightarrow> node_is_empty a \<and> node_is_empty b) \<and> joint J (den a) (den b) (den n) \<and>
        (st = SIdentity \<longrightarrow> den n = den a) \<and> (st = SNone \<longrightarrow> node_is_empty a \<and> node_is_empty b))"

text \<open>A slot speaks for one byte, for the value there or for what is below it.\<close>

definition slot_tag :: "'v entry \<Rightarrow> u8 \<times> bool" where
  "slot_tag e = (hd (fst e), leads_on (fst e) (snd e))"

abbreviation entry_map :: "'v entry \<Rightarrow> path \<Rightarrow> 'v option" where
  "entry_map e \<equiv> slot_den den (Some e)"

definition entry_join :: "('v \<Rightarrow> 'v \<Rightarrow> 'v \<Rightarrow> bool) \<Rightarrow> 'v entry \<Rightarrow> 'v entry \<Rightarrow> 'v entry algebraic_result \<Rightarrow> bool" where
  "entry_join J a b r \<longleftrightarrow>
     sound (\<lambda>e. live_entry e \<and> slot_tag e = slot_tag a \<and> joint J (entry_map a) (entry_map b) (entry_map e)) False
       (joint J (entry_map a) (entry_map b) (entry_map a)) (joint J (entry_map a) (entry_map b) (entry_map b)) r"

text \<open>What the join needs of the value type.  The crate's integers answer with either argument, so the
  contract is a relation.\<close>

locale join_impl =
  fixes J :: "'v \<Rightarrow> 'v \<Rightarrow> 'v \<Rightarrow> bool"
    and vj :: "'v \<Rightarrow> 'v \<Rightarrow> 'v algebraic_result"
    and vji :: "'v \<Rightarrow> 'v \<Rightarrow> 'v \<times> algebraic_status"
  assumes join_idem: "J a a a"
    and join_comm: "J a b c \<Longrightarrow> J b a c"
    and vj_sound: "sound (J a b) False (J a b a) (J a b b) (vj a b)"
    and vji_sound: "vji a b = (c, st) \<Longrightarrow> J a b c \<and> (st = SIdentity \<longrightarrow> c = a) \<and> st \<noteq> SNone"
begin

lemma join_opt_comm: "join_opt J x y z \<Longrightarrow> join_opt J y x z"
  by (cases x; cases y) (auto intro: join_comm)

lemma join_opt_idem: "join_opt J x x x"
  by (cases x) (auto intro: join_idem)

lemma joint_comm: "joint J f g h \<Longrightarrow> joint J g f h"
  using join_opt_comm by (auto simp: joint_def)

lemma joint_idem: "joint J f f f"
  by (simp add: joint_def join_opt_idem)

lemma odrc_pjoin_sound:
  assumes "ptr_eq_ok peq" "node_join J a b (P a b)"
  shows "node_join J a b (odrc_pjoin peq P a b)"
proof (cases "peq a b")
  case True
  then have "a = b" using assms(1) by (simp add: ptr_eq_ok_def)
  moreover have "bit (SELF_IDENT OR COUNTER_IDENT) 0" by (simp add: bit_or_iff)
  ultimately show ?thesis using True joint_idem[of "den b"] by (simp add: odrc_pjoin_def node_join_def)
qed (use assms in \<open>simp add: odrc_pjoin_def\<close>)

end

subsection \<open>Merging two slots\<close>

lemma tag_apart: "slot_tag (k, p) \<noteq> slot_tag (k', p') \<longleftrightarrow> apart k p k' p'" for p p' :: "'v voc"
  by (simp add: slot_tag_def apart_def)

lemma tags_disjoint:
  fixes a b :: "'v entry"
  assumes "live_entry a" "live_entry b" "slot_tag a \<noteq> slot_tag b"
  shows "entry_map a q = None \<or> entry_map b q = None"
proof -
  obtain k p k' p' where e: "a = (k, p)" "b = (k', p')" by (cases a; cases b)
  have "k \<noteq> []" "k' \<noteq> []" "wf_payload p" "wf_payload p'" using assms by (auto simp: e live_entry_def live_payload_split)
  then show ?thesis
    using apart_disjoint[of k k' p p' q] slot_den_covers[of p k q] slot_den_covers[of p' k' q] assms(3)
    unfolding e tag_apart by metis
qed

lemma joint_disjoint:
  assumes "\<And>q. f q = None \<or> g q = None" "\<And>q. h q = or_else_opt (f q) (g q) \<or> h q = or_else_opt (g q) (f q)"
  shows "joint J f g h"
  unfolding joint_def
proof
  fix q show "join_opt J (f q) (g q) (h q)" using assms(1)[of q] assms(2)[of q] by (cases "f q"; cases "g q") auto
qed

definition entry_size :: "'v entry \<Rightarrow> nat" where
  "entry_size e = size (ListN (LN (Some e) None))"

lemma entry_size_simps:
  "size c < entry_size (k, Child c)" "entry_size (k, p) = entry_size (k', p)"
  "size (ListN (LN (Some (k, p)) None)) = entry_size (k, p)"
  by (simp_all add: entry_size_def)

lemma entry_size_slot: "(k, p) \<in> slots_of ln \<Longrightarrow> entry_size (k, p) \<le> size (ListN ln)"
  by (cases ln; cases "slot0 ln"; cases "slot1 ln") (auto simp: entry_size_def)

definition good_pjoin :: "('v \<Rightarrow> 'v \<Rightarrow> 'v \<Rightarrow> bool) \<Rightarrow> nat \<Rightarrow> ('v node \<Rightarrow> 'v node \<Rightarrow> 'v node algebraic_result) \<Rightarrow> bool" where
  "good_pjoin J N P \<longleftrightarrow> (\<forall>a b. full a \<longrightarrow> full b \<longrightarrow> size a + size b < N \<longrightarrow> node_join J a b (P a b))"

lemma good_pjoinD:
  "good_pjoin J N P \<Longrightarrow> live a \<Longrightarrow> live b \<Longrightarrow> size a + size b < N \<Longrightarrow> node_join J a b (P a b)"
  by (simp add: good_pjoin_def live_full)

lemma prefix_node_pair:
  assumes a: "live_entry (ka, pa)" and b: "live_entry (kb, pb)" and ov: "ov = lcp_len ka kb"
    and excl: "ov = length ka \<Longrightarrow> ov < length kb \<Longrightarrow> \<not> is_child pa" "ov = length kb \<Longrightarrow> ov < length ka \<Longrightarrow> \<not> is_child pb"
      "ov = length ka \<Longrightarrow> ov = length kb \<Longrightarrow> is_child pa \<noteq> is_child pb"
    and n: "n = (if ov = length ka \<or> ov = length kb then ov - 1 else ov)" "0 < n"
  defines "ta \<equiv> (drop n ka, pa)" and "tb \<equiv> (drop n kb, pb)"
  shows "live_entry ta" "live_entry tb" "slot_tag ta \<noteq> slot_tag tb" "take n ka = take n kb" "n < length ka" "n < length kb"
    and "hd (fst ta) = hd (fst tb) \<Longrightarrow> length ka < length kb \<Longrightarrow> wf_pair (fst ta) pa (fst tb) pb"
      "hd (fst ta) = hd (fst tb) \<Longrightarrow> \<not> length ka < length kb \<Longrightarrow> wf_pair (fst tb) pb (fst ta) pa"
      "hd (fst ta) < hd (fst tb) \<Longrightarrow> wf_pair (fst ta) pa (fst tb) pb"
      "hd (fst ta) \<noteq> hd (fst tb) \<Longrightarrow> \<not> hd (fst ta) < hd (fst tb) \<Longrightarrow> wf_pair (fst tb) pb (fst ta) pa"
proof -
  have le: "ov \<le> length ka" "ov \<le> length kb" using lcp_len_le unfolding ov by auto
  show len: "n < length ka" "n < length kb" using n le by (auto split: if_splits)
  show "live_entry ta" "live_entry tb" using a b len by (auto simp: ta_def tb_def live_entry_def)
  have "n \<le> ov" using n(1) by auto
  then show "take n ka = take n kb" using take_lcp_len[of ka kb] unfolding ov[symmetric] by (metis min.absorb1 take_take)
  have nz: "pa \<noteq> Child EmptyN" "pb \<noteq> Child EmptyN" using a b live_payload_wf by (auto simp: live_entry_def)
  consider (differ) "ov < length ka" "ov < length kb" "n = ov" "ka ! n \<noteq> kb ! n"
    | (a_short) "ov = length ka" "ov < length kb" "n = ov - 1" "ka ! n = kb ! n" "\<not> is_child pa"
    | (b_short) "ov = length kb" "ov < length ka" "n = ov - 1" "ka ! n = kb ! n" "\<not> is_child pb"
    | (same) "ov = length ka" "ov = length kb" "n = ov - 1" "ka ! n = kb ! n" "is_child pa \<noteq> is_child pb"
  proof -
    have eq: "ka ! m = kb ! m" if "m < ov" for m
      using take_lcp_len[of ka kb] that unfolding ov[symmetric] by (metis nth_take)
    show thesis
      using that excl n le eq[of "ov - 1"] lcp_len_diverge[of ka kb] unfolding ov[symmetric]
      by (cases "ov = length ka"; cases "ov = length kb") auto
  qed
  then have *: "slot_tag ta \<noteq> slot_tag tb \<and>
     (hd (fst ta) = hd (fst tb) \<longrightarrow> length ka < length kb \<longrightarrow> wf_pair (fst ta) pa (fst tb) pb) \<and>
     (hd (fst ta) = hd (fst tb) \<longrightarrow> \<not> length ka < length kb \<longrightarrow> wf_pair (fst tb) pb (fst ta) pa) \<and>
     (hd (fst ta) < hd (fst tb) \<longrightarrow> wf_pair (fst ta) pa (fst tb) pb) \<and>
     (hd (fst ta) \<noteq> hd (fst tb) \<longrightarrow> \<not> hd (fst ta) < hd (fst tb) \<longrightarrow> wf_pair (fst tb) pb (fst ta) pa)"
    by cases (use n(2) nz len in \<open>auto simp: ta_def tb_def slot_tag_def leads_on_def wf_pair_def hd_drop_conv_nth not_less\<close>)
  show "slot_tag ta \<noteq> slot_tag tb"
    "hd (fst ta) = hd (fst tb) \<Longrightarrow> length ka < length kb \<Longrightarrow> wf_pair (fst ta) pa (fst tb) pb"
    "hd (fst ta) = hd (fst tb) \<Longrightarrow> \<not> length ka < length kb \<Longrightarrow> wf_pair (fst tb) pb (fst ta) pa"
    "hd (fst ta) < hd (fst tb) \<Longrightarrow> wf_pair (fst ta) pa (fst tb) pb"
    "hd (fst ta) \<noteq> hd (fst tb) \<Longrightarrow> \<not> hd (fst ta) < hd (fst tb) \<Longrightarrow> wf_pair (fst tb) pb (fst ta) pa"
    using * by blast+
qed

context join_impl
begin

lemma two_slot_node_joint:
  assumes "live_entry e0" "live_entry e1" "wf_pair (fst e0) (snd e0) (fst e1) (snd e1)"
  shows "live (ListN (two_slot_node e0 e1))" and "joint J (entry_map e0) (entry_map e1) (den (ListN (two_slot_node e0 e1)))"
proof -
  obtain k0 p0 k1 p1 where e: "e0 = (k0, p0)" "e1 = (k1, p1)" by (cases e0; cases e1)
  note t = two_slot_node_spec[OF assms(1,2)[unfolded e] assms(3)[unfolded e fst_conv snd_conv]]
  have "slot_tag e0 \<noteq> slot_tag e1"
    using assms unfolding e tag_apart by (intro wf_pair_apart) (auto simp: live_entry_def)
  note d = tags_disjoint[OF assms(1,2) this]
  show "live (ListN (two_slot_node e0 e1))" using t(1) by (simp add: e)
  show "joint J (entry_map e0) (entry_map e1) (den (ListN (two_slot_node e0 e1)))"
    by (rule joint_disjoint[OF d]) (simp add: e t(2) del: slot_den_simps)
qed

lemma merge_prefix_sound:
  assumes a: "live_entry (ka, pa)" and b: "live_entry (kb, pb)" and ov: "ov = lcp_len ka kb"
    and excl: "ov = length ka \<Longrightarrow> ov < length kb \<Longrightarrow> \<not> is_child pa" "ov = length kb \<Longrightarrow> ov < length ka \<Longrightarrow> \<not> is_child pb"
      "ov = length ka \<Longrightarrow> ov = length kb \<Longrightarrow> is_child pa \<noteq> is_child pb"
    and pos: "0 < (if ov = length ka \<or> ov = length kb then ov - 1 else ov)"
  shows "entry_join J (ka, pa) (kb, pb) (merge_prefix_node ov ka pa kb pb)"
proof -
  define n where "n = (if ov = length ka \<or> ov = length kb then ov - 1 else ov)"
  define ta where "ta = (drop n ka, pa)"
  define tb where "tb = (drop n kb, pb)"
  have np: "0 < n" using pos by (simp add: n_def)
  note P = prefix_node_pair[OF a b ov excl n_def np, folded ta_def tb_def]
  have sn: "pa = snd ta" "pb = snd tb" by (simp_all add: ta_def tb_def)
  define ln where "ln = (if hd (fst ta) = hd (fst tb) then
                    if length ka < length kb then two_slot_node ta tb else two_slot_node tb ta
                  else
                    if hd (fst ta) < hd (fst tb) then two_slot_node ta tb else two_slot_node tb ta)"
  define G where "G m \<longleftrightarrow> live (ListN m) \<and> joint J (entry_map ta) (entry_map tb) (den (ListN m))" for m
  have g: "wf_pair (fst ta) (snd ta) (fst tb) (snd tb) \<Longrightarrow> G (two_slot_node ta tb)"
    "wf_pair (fst tb) (snd tb) (fst ta) (snd ta) \<Longrightarrow> G (two_slot_node tb ta)"
    unfolding G_def using two_slot_node_joint[OF P(1,2)] two_slot_node_joint[OF P(2,1)] joint_comm by blast+
  have "G ln" unfolding ln_def
    by (simp only: split: if_split) (use P(7-10)[unfolded sn] g in blast)
  then have ln: "live (ListN ln)" "joint J (entry_map ta) (entry_map tb) (den (ListN ln))" by (simp_all add: G_def)
  have res: "merge_prefix_node ov ka pa kb pb = Element (take n ka, Child (ListN ln))"
    using np by (simp add: merge_prefix_node_def Let_def n_def[symmetric] ln_def ta_def tb_def)
  have m: "entry_map (ka, pa) = below (take n ka) (entry_map ta)" "entry_map (kb, pb) = below (take n ka) (entry_map tb)"
    using slot_den_tail[of n ka pa] slot_den_tail[of n kb pb] P(4-6) by (simp_all add: ta_def tb_def)
  have "slot_tag (take n ka, Child (ListN ln)) = slot_tag (ka, pa)" "take n ka \<noteq> []" "length (take n ka) \<le> KEY_BYTES_CNT"
    using np P(5) a by (auto simp: slot_tag_def leads_on_def live_entry_def)
  then show ?thesis
    using ln unfolding entry_join_def res m by (simp add: live_entry_def slot_den_below joint_below del: slot_den_simps den_simps)
qed

text \<open>A longer key goes below the child at the end of the shorter one.\<close>

lemma intermediate_facts:
  assumes "live_entry (k, p)" "ov < length k"
  shows "live (intermediate_node ov k p)" "size (intermediate_node ov k p) = entry_size (k, p)"
    and "entry_map (k, p) = below (take ov k) (den (intermediate_node ov k p))"
proof -
  show "live (intermediate_node ov k p)" "size (intermediate_node ov k p) = entry_size (k, p)"
    using assms by (auto simp: intermediate_node_def live_one_slot live_entry_def entry_size_def)
  have "den (intermediate_node ov k p) = entry_map (drop ov k, p)"
    by (rule ext) (simp add: intermediate_node_def del: slot_den_simps(2,3))
  then show "entry_map (k, p) = below (take ov k) (den (intermediate_node ov k p))"
    using slot_den_tail[of ov k p] assms(2) by simp
qed

lemma merge_into_child_sound:
  assumes e: "live_entry (k, p)" "live c" and k: "take ov k = kc" "ov < length k" "kc \<noteq> []" "length kc \<le> KEY_BYTES_CNT"
    and PJ: "node_join J c (intermediate_node ov k p) (PJ c (intermediate_node ov k p))"
  shows "entry_join J (kc, Child c) (k, p)
      (case PJ c (intermediate_node ov k p) of
         Element joined \<Rightarrow> Element (kc, Child joined)
       | Identity m \<Rightarrow> if bit m 0 then Identity SELF_IDENT else Element (kc, Child (intermediate_node ov k p))
       | RNone \<Rightarrow> RNone)"
proof -
  note i = intermediate_facts[OF e(1) k(2)]
  have m: "entry_map (kc, Child c) = below kc (den c)" "entry_map (k, p) = below kc (den (intermediate_node ov k p))"
    "entry_map (kc, Child n) = below kc (den n)" for n
    using i(3) k(1) slot_den_below by auto
  have t: "slot_tag (kc, Child n) = slot_tag (kc, Child n')" for n n' :: "'v node" by (simp add: slot_tag_def leads_on_def)
  show ?thesis
    using PJ e(2) i(1) k(3,4) unfolding node_join_def entry_join_def m
    by (cases "PJ c (intermediate_node ov k p)") (auto simp: joint_below m live_entry_def t simp del: slot_den_simps intro: t)
qed

lemma merge_into_b_sound:
  assumes a: "live_entry (ka, pa)" and b: "live_entry (kb, Child c)" and tag: "slot_tag (ka, pa) = slot_tag (kb, Child c)"
    and k: "prefix kb ka" "length kb < length ka"
    and PJ: "good_pjoin J N PJ" "entry_size (ka, pa) + entry_size (kb, Child c) \<le> N"
  shows "entry_join J (ka, pa) (kb, Child c) (merge_into_b_child PJ (length kb) ka pa oa kb c)"
    and "entry_join J (kb, Child c) (ka, pa) (merge_into_a_child PJ (length kb) kb c ka pa ob)"
proof -
  have c: "live c" "c \<noteq> EmptyN" using b by (auto simp: live_entry_def)
  have t: "take (length kb) ka = kb" using k by (auto simp: prefix_def)
  have "node_join J c (intermediate_node (length kb) ka pa) (PJ c (intermediate_node (length kb) ka pa))"
    using PJ c(1) intermediate_facts[OF a k(2)] entry_size_simps(1)[of c kb] by (intro good_pjoinD) auto
  note s = merge_into_child_sound[where PJ = PJ, OF a c(1) t k(2) _ _ this]
  let ?r = "case PJ c (intermediate_node (length kb) ka pa) of
         Element joined \<Rightarrow> Element (kb, Child joined)
       | Identity m \<Rightarrow> if bit m 0 then Identity SELF_IDENT else Element (kb, Child (intermediate_node (length kb) ka pa))
       | RNone \<Rightarrow> RNone"
  have s: "entry_join J (kb, Child c) (ka, pa) ?r" using s b by (simp add: live_entry_def)
  then show "entry_join J (kb, Child c) (ka, pa) (merge_into_a_child PJ (length kb) kb c ka pa ob)"
    using c unfolding merge_into_a_child_def Let_def
    by (cases "PJ c (intermediate_node (length kb) ka pa)") (auto split: if_splits)
  show "entry_join J (ka, pa) (kb, Child c) (merge_into_b_child PJ (length kb) ka pa oa kb c)"
    using s c joint_comm tag unfolding merge_into_b_child_def Let_def t entry_join_def
    by (cases "PJ c (intermediate_node (length kb) ka pa)") (auto split: if_splits)
qed

lemma same_key_sound:
  assumes a: "live_entry (k, pa)" and b: "live_entry (k, pb)" and kind: "is_child pa = is_child pb"
    and PJ: "good_pjoin J N PJ" "entry_size (k, pa) + entry_size (k, pb) \<le> N"
  shows "\<exists>r. merge_same_key PJ vj k pa oa k pb ob = Some r \<and> entry_join J (k, pa) (k, pb) r"
proof (cases pa)
  case (Val v)
  then obtain w where w: "pb = Val w" using kind by (cases pb) auto
  have "joint J (entry_map (k, Val v)) (entry_map (k, Val w)) (entry_map (k, Val u)) \<longleftrightarrow> J v w u" for u
    by (auto simp: joint_def)
  moreover have "slot_tag (k, Val u) = slot_tag (k, Val v)" for u by (simp add: slot_tag_def leads_on_def)
  ultimately show ?thesis
    using vj_sound[of v w] a unfolding Val w merge_same_key_def entry_join_def
    by (cases "vj v w") (auto simp: live_entry_def simp del: slot_den_simps)
next
  case (Child c)
  then obtain d where d: "pb = Child d" using kind by (cases pb) auto
  have l: "live c" "live d" "c \<noteq> EmptyN" "d \<noteq> EmptyN" using a b Child d by (auto simp: live_entry_def)
  have "node_join J c d (PJ c d)"
    using PJ l entry_size_simps(1)[of c k] entry_size_simps(1)[of d k] by (intro good_pjoinD) (auto simp: Child d)
  moreover have "slot_tag (k, Child n) = slot_tag (k, Child c)" for n by (simp add: slot_tag_def leads_on_def)
  ultimately show ?thesis
    using l a unfolding Child d merge_same_key_def node_join_def entry_join_def
    by (cases "PJ c d") (auto simp: live_entry_def slot_den_below joint_below simp del: slot_den_simps)
qed

text \<open>Two slots with the same tag always merge; with different tags they never do.\<close>

lemma merge_guts_sound:
  assumes a: "live_entry (ka, pa)" and b: "live_entry (kb, pb)" and tag: "slot_tag (ka, pa) = slot_tag (kb, pb)"
    and PJ: "good_pjoin J N PJ" "entry_size (ka, pa) + entry_size (kb, pb) \<le> N"
  shows "entry_join J (ka, pa) (kb, pb) (merge_guts PJ vj (lcp_len ka kb) ka pa oa kb pb ob)"
proof -
  let ?ov = "lcp_len ka kb"
  have ne: "ka \<noteq> []" "kb \<noteq> []" "hd ka = hd kb" and lead: "leads_on ka pa = leads_on kb pb"
    using a b tag by (auto simp: live_entry_def slot_tag_def)
  have le: "?ov \<le> length ka" "?ov \<le> length kb" by (rule lcp_len_le)+
  have pos: "0 < ?ov" using ne by (simp add: lcp_len_pos_iff)
  have full_a: "?ov = length ka \<longleftrightarrow> prefix ka kb" and full_b: "?ov = length kb \<longleftrightarrow> prefix kb ka"
    using lcp_len_full_iff[of ka kb] lcp_len_full_iff[of kb ka] by (simp_all add: lcp_len_commute[of kb])
  have nz: "pa \<noteq> Child EmptyN" "pb \<noteq> Child EmptyN" using a b live_payload_wf by (auto simp: live_entry_def)
  consider (same) "ka = kb" "is_child pa = is_child pb"
    | (b_child) "?ov = length kb" "?ov < length ka" "is_child pb"
    | (a_child) "?ov = length ka" "?ov < length kb" "is_child pa"
    | (node) "?ov = length ka \<Longrightarrow> ?ov < length kb \<Longrightarrow> \<not> is_child pa" "?ov = length kb \<Longrightarrow> ?ov < length ka \<Longrightarrow> \<not> is_child pb"
      "?ov = length ka \<Longrightarrow> ?ov = length kb \<Longrightarrow> is_child pa \<noteq> is_child pb"
    using full_a full_b prefix_order.antisym by blast
  then show ?thesis
  proof cases
    case same
    have "?ov = length ka" using same full_a by simp
    then show ?thesis
      using same_key_sound[OF a b[folded same(1)] same(2) PJ[folded same(1)], of oa ob]
      by (auto simp: merge_guts_def same(1) Let_def)
  next
    case b_child
    then obtain c where c: "pb = Child c" by (cases pb) auto
    have "prefix kb ka" using b_child(1) full_b by simp
    from merge_into_b_sound(1)[OF a b[unfolded c] tag[unfolded c] this _ PJ[unfolded c], of oa]
    show ?thesis using b_child by (simp add: merge_guts_def Let_def c)
  next
    case a_child
    then obtain c where c: "pa = Child c" by (cases pa) auto
    have "prefix ka kb" using a_child(1) full_a by simp
    from merge_into_b_sound(2)[OF b a[unfolded c] tag[symmetric, unfolded c] this _ PJ(1), of ob]
    show ?thesis using a_child PJ(2) by (simp add: merge_guts_def Let_def c add.commute)
  next
    case node
    have "1 < ?ov" if "?ov = length ka \<or> ?ov = length kb"
    proof (rule ccontr)
      assume "\<not> 1 < ?ov"
      then have one: "?ov = 1" using pos by simp
      show False using lead one node that le by (cases "?ov = length ka"; cases "?ov = length kb") (auto simp: leads_on_def)
    qed
    then have "0 < (if ?ov = length ka \<or> ?ov = length kb then ?ov - 1 else ?ov)" using pos by auto
    note r = merge_prefix_sound[OF a b refl node this]
    have same: "merge_same_key PJ vj ka pa oa kb pb ob = None" if "is_child pa \<noteq> is_child pb"
      using that nz by (cases pa; cases pb) (simp_all add: merge_same_key_def)
    have no: "(length kb = ?ov \<and> is_child pb \<and> ?ov < length ka) = False" "(length ka = ?ov \<and> is_child pa \<and> ?ov < length kb) = False"
      "(if ?ov = length ka \<and> ?ov = length kb then merge_same_key PJ vj ka pa oa kb pb ob else None) = None"
      using node same by (metis (full_types))+
    have "merge_guts PJ vj ?ov ka pa oa kb pb ob = merge_prefix_node ?ov ka pa kb pb"
      unfolding merge_guts_def Let_def no by simp
    then show ?thesis using r by simp
  qed
qed

lemma merge_guts_none:
  assumes a: "live_entry (ka, pa)" and b: "live_entry (kb, pb)" and tag: "slot_tag (ka, pa) \<noteq> slot_tag (kb, pb)"
    and ov: "0 < lcp_len ka kb"
  shows "merge_guts PJ vj (lcp_len ka kb) ka pa oa kb pb ob = RNone"
proof -
  have ne: "ka \<noteq> []" "kb \<noteq> []" "hd ka = hd kb" and lead: "leads_on ka pa \<noteq> leads_on kb pb"
    using ov tag by (auto simp: slot_tag_def lcp_len_pos_iff)
  have nz: "pa \<noteq> Child EmptyN" "pb \<noteq> Child EmptyN" using a b live_payload_wf by (auto simp: live_entry_def)
  obtain x ka' kb' where k: "ka = x # ka'" "kb = x # kb'" using ne by (cases ka; cases kb) auto
  from lead have "ka' = [] \<and> \<not> is_child pa \<or> kb' = [] \<and> \<not> is_child pb" by (auto simp: leads_on_def k)
  then show ?thesis
    using lead nz by (cases pa; cases pb) (auto simp: merge_guts_def merge_same_key_def merge_prefix_node_def k leads_on_def)
qed

end

end
