(* ===== verification/Join_List.thy ===== *)
theory Join_List
  imports Join_Slots
begin

text \<open>
  The join of two list nodes. The slots of a node are a list of entries with distinct tags (\<open>tagged\<close>),
  whose map is \<open>entries_map\<close>; \<open>joined_entries\<close> is what the pairing of \<open>merge_list_nodes\<close> leaves: one
  entry for every tag of either node. From that the list node or byte node it builds is the join
  (\<open>merge_list_nodes_sound\<close>), and \<open>merge_into_list_nodes\<close> does the same in place.
\<close>

unbundle bit_operations_syntax

subsection \<open>Entries with distinct tags\<close>

definition ln_entries :: "'v lnode \<Rightarrow> 'v entry list" where
  "ln_entries ln = (case slot0 ln of Some e \<Rightarrow> [e] | None \<Rightarrow> []) @ (case slot1 ln of Some e \<Rightarrow> [e] | None \<Rightarrow> [])"

definition tagged :: "'v entry list \<Rightarrow> bool" where
  "tagged es \<longleftrightarrow> (\<forall>e \<in> set es. live_entry e) \<and> distinct (map slot_tag es)"

text \<open>The one entry that may speak for a path, and the map of a list of entries.\<close>

definition path_tag :: "path \<Rightarrow> u8 \<times> bool" where
  "path_tag q = (hd q, tl q \<noteq> [])"

definition pick :: "'v entry list \<Rightarrow> u8 \<times> bool \<Rightarrow> 'v entry option" where
  "pick es t = find (\<lambda>e. slot_tag e = t) es"

definition entries_map :: "'v entry list \<Rightarrow> path \<Rightarrow> 'v option" where
  "entries_map es q = (if q = [] then None else Option.bind (pick es (path_tag q)) (\<lambda>e. entry_map e q))"

lemma entry_map_tag:
  assumes "live_entry e" "entry_map e q \<noteq> None"
  shows "q \<noteq> [] \<and> slot_tag e = path_tag q"
proof -
  obtain k p where e: "e = (k, p)" by (cases e)
  have k: "k \<noteq> []" "wf_payload p" using assms(1) by (auto simp: e live_entry_def live_payload_split)
  then have "covers k p q" using slot_den_covers[OF k(2)] assms(2) unfolding e by metis
  then show ?thesis using covers_hd[OF k(1)] by (auto simp: e slot_tag_def path_tag_def)
qed

lemma pick_simps [simp]: "pick [] t = None" "pick (e # es) t = (if slot_tag e = t then Some e else pick es t)"
  by (simp_all add: pick_def)

lemma pick_Some: "distinct (map slot_tag es) \<Longrightarrow> pick es t = Some e \<longleftrightarrow> e \<in> set es \<and> slot_tag e = t"
  by (induction es) (auto simp: rev_image_eqI)

lemma pick_None: "pick es t = None \<longleftrightarrow> t \<notin> slot_tag ` set es"
  by (induction es) auto

lemma entries_map_member:
  assumes "tagged es" "e \<in> set es" "entry_map e q \<noteq> None"
  shows "entries_map es q = entry_map e q"
  using assms entry_map_tag[of e q] pick_Some[of es "path_tag q" e]
  by (auto simp: entries_map_def tagged_def simp del: slot_den_simps)

lemma entries_map_other:
  assumes "\<And>e. e \<in> set es \<Longrightarrow> entry_map e q = None"
  shows "entries_map es q = None"
proof -
  have mem: "e \<in> set es" if "pick es t = Some e" for t e using that by (induction es) (auto split: if_splits)
  show ?thesis
  proof (cases "pick es (path_tag q)")
    case (Some e)
    have "entry_map e q = None" by (rule assms) (rule mem[OF Some])
    then show ?thesis by (simp only: entries_map_def Some bind.bind_lunit if_cancel)
  qed (simp add: entries_map_def)
qed

lemma entries_map_eqI:
  assumes "tagged es" "\<And>e. e \<in> set es \<Longrightarrow> entry_map e q \<noteq> None \<Longrightarrow> f = entry_map e q"
    and "(\<And>e. e \<in> set es \<Longrightarrow> entry_map e q = None) \<Longrightarrow> f = None"
  shows "entries_map es q = f"
  using assms entries_map_member[OF assms(1)] entries_map_other[of es q] by metis

lemma full_ListN_entries:
  assumes "full (ListN ln)"
  shows "tagged (ln_entries ln)" and "ln_den den ln q = entries_map (ln_entries ln) q"
    and "set (ln_entries ln) = slots_of ln"
proof -
  obtain s0 s1 where ln: "ln = LN s0 s1" by (cases ln)
  have wf: "wf_node (ListN ln)" using assms by (rule full_wf)
  have live: "live_entry e" if "e \<in> slots_of ln" for e
  proof -
    have "live_payload (snd e)" using assms that full_simps(2)[of s0 s1] unfolding ln slots_of_simps by (cases e) auto
    then show ?thesis using that wf_slot_elem[OF wf, of "fst e" "snd e"] by (auto simp: live_entry_def)
  qed
  have s: "set (ln_entries ln) = slots_of ln" by (auto simp: ln_entries_def ln split: option.split)
  then show "set (ln_entries ln) = slots_of ln" .
  have "distinct (map slot_tag (ln_entries ln))"
    using wf
  proof (cases rule: slots_cases)
    case (two k0 p0 k1 p1)
    have "apart k0 p0 k1 p1" using two by (intro wf_pair_apart)
    then show ?thesis by (simp add: two(1) ln_entries_def tag_apart)
  qed (simp_all add: ln_entries_def)
  then show t: "tagged (ln_entries ln)" using live s by (simp add: tagged_def)
  show "ln_den den ln q = entries_map (ln_entries ln) q"
  proof (rule entries_map_eqI[OF t, symmetric])
    fix e assume e: "e \<in> set (ln_entries ln)" "entry_map e q \<noteq> None"
    moreover have "s0 = Some e \<or> s1 = Some e" using e(1) unfolding s by (auto simp: ln)
    ultimately show "ln_den den ln q = entry_map e q"
      using slots_disjoint[OF wf, of q] unfolding ln ln_den_LN list_node.sel by auto
  next
    assume z: "\<And>e. e \<in> set (ln_entries ln) \<Longrightarrow> entry_map e q = None"
    have n: "slot_den den x q = None" if "x = s0 \<or> x = s1" for x
    proof (cases x)
      case (Some e)
      then have "e \<in> set (ln_entries ln)" using that s by (auto simp: ln)
      then show ?thesis unfolding Some by (rule z)
    qed simp
    have "slot_den den s0 q = None" "slot_den den s1 q = None" by (rule n; simp)+
    then show "ln_den den ln q = None" unfolding ln ln_den_LN list_node.sel by simp
  qed
qed

subsection \<open>The entries of a join\<close>

definition merged_entry :: "'v entry \<Rightarrow> 'v entry \<Rightarrow> 'v entry algebraic_result \<Rightarrow> 'v entry \<times> u64" where
  "merged_entry a b r =
     (case r of Element e \<Rightarrow> (e, 0) | Identity m \<Rightarrow> (if 0 < m AND SELF_IDENT then a else b, m) | RNone \<Rightarrow> (a, 0))"

definition joined_entries :: "('v entry \<Rightarrow> 'v entry \<Rightarrow> 'v entry \<times> u64) \<Rightarrow> 'v entry list \<Rightarrow> 'v entry list \<Rightarrow> ('v entry \<times> u64) list" where
  "joined_entries mg A B =
     concat (map (\<lambda>a. case pick B (slot_tag a) of Some b \<Rightarrow> [mg a b] | None \<Rightarrow> []) A) @
     map (\<lambda>e. (e, SELF_IDENT)) (filter (\<lambda>a. pick B (slot_tag a) = None) A) @
     map (\<lambda>e. (e, COUNTER_IDENT)) (filter (\<lambda>b. pick A (slot_tag b) = None) B)"

text \<open>How an entry of the join comes about.\<close>

definition good_merge :: "('v \<Rightarrow> 'v \<Rightarrow> 'v \<Rightarrow> bool) \<Rightarrow> 'v entry \<Rightarrow> 'v entry \<Rightarrow> 'v entry \<times> u64 \<Rightarrow> bool" where
  "good_merge J a b r \<longleftrightarrow>
     live_entry (fst r) \<and> slot_tag (fst r) = slot_tag a \<and> two_bits (snd r) \<and> joint J (entry_map a) (entry_map b) (entry_map (fst r)) \<and>
     (bit (snd r) 0 \<longrightarrow> joint J (entry_map a) (entry_map b) (entry_map a)) \<and>
     (bit (snd r) 1 \<longrightarrow> joint J (entry_map a) (entry_map b) (entry_map b))"

lemma merged_entry_good:
  assumes "entry_join J a b r" "live_entry a" "live_entry b" "slot_tag a = slot_tag b"
  shows "good_merge J a b (merged_entry a b r)"
  using assms by (cases r) (auto simp: entry_join_def good_merge_def merged_entry_def simp del: slot_den_simps)

lemma joined_entries_mem:
  assumes "tagged A" "tagged B"
  shows "x \<in> set (joined_entries mg A B) \<longleftrightarrow>
    (\<exists>a \<in> set A. \<exists>b \<in> set B. slot_tag a = slot_tag b \<and> x = mg a b) \<or>
    (\<exists>a \<in> set A. slot_tag a \<notin> slot_tag ` set B \<and> x = (a, SELF_IDENT)) \<or>
    (\<exists>b \<in> set B. slot_tag b \<notin> slot_tag ` set A \<and> x = (b, COUNTER_IDENT))"
proof -
  have p: "pick B t = Some b \<longleftrightarrow> b \<in> set B \<and> slot_tag b = t" for t b
    using assms(2) by (intro pick_Some) (simp add: tagged_def)
  have "(\<exists>a \<in> set A. x \<in> set (case pick B (slot_tag a) of Some b \<Rightarrow> [mg a b] | None \<Rightarrow> [])) \<longleftrightarrow>
      (\<exists>a \<in> set A. \<exists>b \<in> set B. slot_tag a = slot_tag b \<and> x = mg a b)"
  proof (intro bex_cong refl)
    fix a
    show "x \<in> set (case pick B (slot_tag a) of Some b \<Rightarrow> [mg a b] | None \<Rightarrow> []) \<longleftrightarrow>
        (\<exists>b \<in> set B. slot_tag a = slot_tag b \<and> x = mg a b)"
    proof (cases "pick B (slot_tag a)")
      case None
      then have "slot_tag a \<notin> slot_tag ` set B" by (simp add: pick_None)
      then show ?thesis unfolding None option.case by auto
    next
      case (Some b)
      then have "c = b" if "c \<in> set B" "slot_tag a = slot_tag c" for c using p[of "slot_tag c" c] that by simp
      moreover have "b \<in> set B" "slot_tag a = slot_tag b" using Some p[of "slot_tag a" b] by simp_all
      ultimately show ?thesis unfolding Some option.case by (simp only: set_simps singleton_iff) blast
    qed
  qed
  then show ?thesis by (simp add: joined_entries_def pick_None) blast
qed

lemma joined_entries_tags:
  assumes "tagged A" "tagged B" "\<And>a b. a \<in> set A \<Longrightarrow> b \<in> set B \<Longrightarrow> slot_tag a = slot_tag b \<Longrightarrow> good_merge J a b (mg a b)"
  shows "tagged (map fst (joined_entries mg A B))"
proof -
  define f where "f a = (case pick B (slot_tag a) of Some b \<Rightarrow> [mg a b] | None \<Rightarrow> [])" for a
  have p: "pick B t = Some b \<longleftrightarrow> b \<in> set B \<and> slot_tag b = t" for t b
    using assms(2) by (intro pick_Some) (simp add: tagged_def)
  have f: "f a = [] \<or> pick B (slot_tag a) \<noteq> None \<and> (\<exists>x. f a = [x] \<and> slot_tag (fst x) = slot_tag a)" if "a \<in> set A" for a
  proof (cases "pick B (slot_tag a)")
    case (Some b)
    then have "good_merge J a b (mg a b)" using p[of "slot_tag a" b] assms(3)[OF that, of b] by simp
    then have "slot_tag (fst (mg a b)) = slot_tag a" by (simp add: good_merge_def)
    then show ?thesis using Some by (simp add: f_def)
  qed (simp add: f_def)
  have c: "map slot_tag (map fst (concat (map f X))) = filter (\<lambda>t. pick B t \<noteq> None) (map slot_tag X)"
    if "set X \<subseteq> set A" for X
    using that
  proof (induction X)
    case (Cons a X)
    then consider "f a = []" "pick B (slot_tag a) = None" | x where "pick B (slot_tag a) \<noteq> None" "f a = [x]" "slot_tag (fst x) = slot_tag a"
      using f[of a] by (auto simp: f_def split: option.splits)
    then show ?case using Cons by cases (simp_all del: not_None_eq)
  qed simp
  have live: "live_entry e" if "e \<in> fst ` set (joined_entries mg A B)" for e
  proof -
    from that obtain x where x: "x \<in> set (joined_entries mg A B)" "e = fst x" by blast
    from x(1) consider a b where "a \<in> set A" "b \<in> set B" "slot_tag a = slot_tag b" "x = mg a b"
      | "e \<in> set A" | "e \<in> set B"
      unfolding joined_entries_mem[OF assms(1,2)] x(2) by (elim disjE bexE conjE) simp_all
    then show ?thesis
    proof cases
      case (1 a b)
      then show ?thesis using assms(3) x(2) by (simp add: good_merge_def)
    qed (use assms(1,2) in \<open>simp_all add: tagged_def\<close>)
  qed
  have "map slot_tag (map fst (joined_entries mg A B)) =
      filter (\<lambda>t. pick B t \<noteq> None) (map slot_tag A) @ filter (\<lambda>t. pick B t = None) (map slot_tag A) @
      filter (\<lambda>t. pick A t = None) (map slot_tag B)"
    unfolding joined_entries_def f_def[symmetric] map_append c[OF order_refl] by (simp add: filter_map comp_def)
  moreover have "distinct \<dots>"
    using assms(1,2) unfolding tagged_def distinct_append
    by (intro conjI) (simp_all del: not_None_eq, auto simp: pick_None simp del: not_None_eq)
  ultimately have "distinct (map slot_tag (map fst (joined_entries mg A B)))" by (simp only:)
  then show ?thesis using live by (simp add: tagged_def)
qed

text \<open>Path by path, the entries of the join are the join; an identity bit that all of them have holds for
  the whole.\<close>

lemma joined_entries_joint:
  assumes "tagged A" "tagged B" and mg: "\<And>a b. a \<in> set A \<Longrightarrow> b \<in> set B \<Longrightarrow> slot_tag a = slot_tag b \<Longrightarrow> good_merge J a b (mg a b)"
  defines "R \<equiv> joined_entries mg A B"
  shows "joint J (entries_map A) (entries_map B) (entries_map (map fst R))"
    and "(\<And>x. x \<in> set R \<Longrightarrow> bit (snd x) 0) \<Longrightarrow> joint J (entries_map A) (entries_map B) (entries_map A)"
    and "(\<And>x. x \<in> set R \<Longrightarrow> bit (snd x) 1) \<Longrightarrow> joint J (entries_map A) (entries_map B) (entries_map B)"
proof -
  note mem = joined_entries_mem[OF assms(1,2), of _ mg, folded R_def]
  have tR: "tagged (map fst R)" unfolding R_def by (rule joined_entries_tags[OF assms(1-3)])
  have pk: "pick X t = Some e \<longleftrightarrow> e \<in> set X \<and> slot_tag e = t" if "tagged X" for X :: "'a entry list" and t e
    using that by (intro pick_Some) (simp add: tagged_def)
  have one: "join_opt J (entries_map A q) (entries_map B q) (entries_map (map fst R) q) \<and>
      ((\<forall>x \<in> set R. bit (snd x) 0) \<longrightarrow> join_opt J (entries_map A q) (entries_map B q) (entries_map A q)) \<and>
      ((\<forall>x \<in> set R. bit (snd x) 1) \<longrightarrow> join_opt J (entries_map A q) (entries_map B q) (entries_map B q))" for q
  proof (cases "q = []")
    case False
    let ?t = "path_tag q"
    have em: "entries_map X q = (case pick X ?t of Some e \<Rightarrow> entry_map e q | None \<Rightarrow> None)" for X :: "'a entry list"
      using False by (simp add: entries_map_def split: option.split del: slot_den_simps)
    have pR: "pick (map fst R) ?t = Some (fst x)" if "x \<in> set R" "slot_tag (fst x) = ?t" for x
      using pk[OF tR, of ?t "fst x"] that by auto
    show ?thesis
    proof (cases "pick A ?t"; cases "pick B ?t")
      fix a b assume ab: "pick A ?t = Some a" "pick B ?t = Some b"
      then have g: "a \<in> set A" "b \<in> set B" "slot_tag a = ?t" "slot_tag b = ?t" using pk assms(1,2) by blast+
      then have x: "good_merge J a b (mg a b)" "mg a b \<in> set R" using mg mem[of "mg a b"] by (metis, metis)
      have "pick (map fst R) ?t = Some (fst (mg a b))" using pR x g by (simp add: good_merge_def)
      then show ?thesis using x ab unfolding em good_merge_def joint_def by (auto simp del: slot_den_simps)
    next
      fix a assume ab: "pick A ?t = Some a" "pick B ?t = None"
      then have g: "a \<in> set A" "slot_tag a = ?t" "slot_tag a \<notin> slot_tag ` set B" using pk[OF assms(1), of ?t a] by (auto simp: pick_None)
      then have x: "(a, SELF_IDENT) \<in> set R" using mem[of "(a, SELF_IDENT)"] by blast
      have "pick (map fst R) ?t = Some a" using pR[OF x] g by simp
      then show ?thesis using x ab unfolding em by (force simp del: slot_den_simps)
    next
      fix b assume ab: "pick A ?t = None" "pick B ?t = Some b"
      then have g: "b \<in> set B" "slot_tag b = ?t" "slot_tag b \<notin> slot_tag ` set A" using pk[OF assms(2), of ?t b] by (auto simp: pick_None)
      then have x: "(b, COUNTER_IDENT) \<in> set R" using mem[of "(b, COUNTER_IDENT)"] by blast
      have "pick (map fst R) ?t = Some b" using pR[OF x] g by simp
      then show ?thesis using x ab unfolding em by (force simp del: slot_den_simps)
    next
      assume ab: "pick A ?t = None" "pick B ?t = None"
      have no: "slot_tag (fst x) \<noteq> ?t" if "x \<in> set R" for x
      proof
        assume t: "slot_tag (fst x) = ?t"
        from that[unfolded mem] mg obtain a where "a \<in> set A \<or> a \<in> set B" "slot_tag a = slot_tag (fst x)"
          unfolding good_merge_def by fastforce
        then show False using ab t unfolding pick_None by (metis imageI)
      qed
      have "pick (map fst R) ?t = None"
      proof (rule ccontr)
        assume "pick (map fst R) ?t \<noteq> None"
        then obtain e where e: "e \<in> set (map fst R)" "slot_tag e = ?t" using pk[OF tR, of ?t] by blast
        then obtain x where "x \<in> set R" "e = fst x" unfolding set_map by (rule_tac imageE)
        then show False using no e(2) by metis
      qed
      then show ?thesis using ab unfolding em by simp
    qed
  qed (simp add: entries_map_def)
  then show "joint J (entries_map A) (entries_map B) (entries_map (map fst R))"
    and "(\<And>x. x \<in> set R \<Longrightarrow> bit (snd x) 0) \<Longrightarrow> joint J (entries_map A) (entries_map B) (entries_map A)"
    and "(\<And>x. x \<in> set R \<Longrightarrow> bit (snd x) 1) \<Longrightarrow> joint J (entries_map A) (entries_map B) (entries_map B)"
    unfolding joint_def by blast+
qed

lemma joined_entries_empty:
  assumes "tagged A" "tagged B" "joined_entries mg A B = []"
  shows "A = [] \<and> B = []"
proof -
  note mem = joined_entries_mem[OF assms(1,2), of _ mg, unfolded assms(3)]
  have "a \<notin> set A" for a
  proof
    assume a: "a \<in> set A"
    show False
    proof (cases "slot_tag a \<in> slot_tag ` set B")
      case True
      then obtain b where "b \<in> set B" "slot_tag a = slot_tag b" by (rule imageE) simp
      then show False using a mem[of "mg a b"] by (metis empty_iff list.set(1))
    qed (use a mem[of "(a, SELF_IDENT)"] in \<open>metis empty_iff list.set(1)\<close>)
  qed
  moreover have "b \<notin> set B" for b
  proof
    assume b: "b \<in> set B"
    have "slot_tag b \<notin> slot_tag ` set A" using calculation by blast
    then show False using b mem[of "(b, COUNTER_IDENT)"] by (metis empty_iff list.set(1))
  qed
  ultimately show ?thesis by (metis list.set_intros(1) neq_Nil_conv)
qed

subsection \<open>The entries \<open>merge_list_nodes\<close> gathers\<close>

context join_impl
begin

definition slots_merge ::
  "slice_utils \<Rightarrow> ('v node \<Rightarrow> 'v node \<Rightarrow> 'v node algebraic_result) \<Rightarrow> 'v lnode \<Rightarrow> 'v lnode \<Rightarrow> 'v entry \<Rightarrow> 'v entry \<Rightarrow> 'v entry \<times> u64" where
  "slots_merge S PJ la lb a b =
     merged_entry a b (try_merge S PJ vj (Some a) (if slot0 la = Some a then slot1 la else slot0 la)
        (Some b) (if slot0 lb = Some b then slot1 lb else slot0 lb))"

lemma try_merge_none:
  assumes "slice_utils_ok S"
  shows "a = None \<or> b = None \<Longrightarrow> try_merge S PJ vj a oa b ob = RNone"
    and "a = Some ea \<Longrightarrow> b = Some eb \<Longrightarrow> live_entry ea \<Longrightarrow> live_entry eb \<Longrightarrow> slot_tag ea \<noteq> slot_tag eb \<Longrightarrow>
      try_merge S PJ vj a oa b ob = RNone"
proof -
  show "a = None \<or> b = None \<Longrightarrow> try_merge S PJ vj a oa b ob = RNone"
    using assms by (auto simp: try_merge_def Let_def)
  assume e: "a = Some ea" "b = Some eb" "live_entry ea" "live_entry eb" "slot_tag ea \<noteq> slot_tag eb"
  obtain ka pa kb pb where k: "ea = (ka, pa)" "eb = (kb, pb)" by (cases ea; cases eb)
  show "try_merge S PJ vj a oa b ob = RNone"
    using assms merge_guts_none[of ka pa kb pb PJ oa ob] e unfolding k by (simp add: try_merge_def Let_def clone_payload_def)
qed

lemma slots_merge_good:
  assumes "slice_utils_ok S" "live_entry a" "live_entry b" "slot_tag a = slot_tag b" "good_pjoin J N PJ" "entry_size a + entry_size b \<le> N"
  shows "entry_join J a b (try_merge S PJ vj (Some a) oa (Some b) ob)"
    and "good_merge J a b (slots_merge S PJ la lb a b)"
proof -
  obtain ka pa kb pb where k: "a = (ka, pa)" "b = (kb, pb)" by (cases a; cases b)
  have "0 < lcp_len ka kb" using assms(2-4) by (auto simp: k lcp_len_pos_iff live_entry_def slot_tag_def)
  then have t: "try_merge S PJ vj (Some a) oa (Some b) ob = merge_guts PJ vj (lcp_len ka kb) ka pa oa kb pb ob" for oa ob
    using assms(1) by (simp add: try_merge_def k Let_def clone_payload_def)
  show e: "entry_join J a b (try_merge S PJ vj (Some a) oa (Some b) ob)" for oa ob
    using merge_guts_sound[OF assms(2,3)[unfolded k] assms(4)[unfolded k] assms(5) assms(6)[unfolded k], of oa ob]
    unfolding t unfolding k .
  show "good_merge J a b (slots_merge S PJ la lb a b)"
    unfolding slots_merge_def by (rule merged_entry_good[OF e assms(2-4)])
qed

lemma merge_pair_none:
  assumes "slice_utils_ok S" "slot_at i a = None \<or> slot_at j b = None"
  shows "merge_pair S PJ vj a b (i, j) st = st"
  using assms try_merge_none(1)[of S "slot_at i a" "slot_at j b"] by (cases st) (auto simp: merge_pair_def Let_def)

lemma merge_pair_some:
  assumes "slice_utils_ok S" "slot_at i la = Some a" "slot_at j lb = Some b" "live_entry a" "live_entry b"
    and oth: "slot_at (1 - i) la = (if slot0 la = Some a then slot1 la else slot0 la)"
      "slot_at (1 - j) lb = (if slot0 lb = Some b then slot1 lb else slot0 lb)"
    and PJ: "good_pjoin J N PJ" "entry_size a + entry_size b \<le> N"
  shows "merge_pair S PJ vj la lb (i, j) (es, used) =
    (if slot_tag a = slot_tag b then (es @ [slots_merge S PJ la lb a b], used[i := True, 2 + j := True]) else (es, used))"
proof (cases "slot_tag a = slot_tag b")
  case True
  let ?r = "try_merge S PJ vj (Some a) (slot_at (1 - i) la) (Some b) (slot_at (1 - j) lb)"
  have "entry_join J a b ?r" using assms True by (intro slots_merge_good(1)) auto
  then have "?r \<noteq> RNone" by (auto simp: entry_join_def)
  moreover have "slots_merge S PJ la lb a b = merged_entry a b ?r" by (simp only: slots_merge_def oth)
  ultimately show ?thesis
    using True assms(2,3) by (cases ?r) (auto simp: merge_pair_def Let_def merged_entry_def)
next
  case False
  then show ?thesis
    using try_merge_none(2)[OF assms(1) refl refl assms(4,5)] assms(2,3) by (simp add: merge_pair_def Let_def)
qed

lemma slots_size:
  assumes "a \<in> slots_of la" "b \<in> slots_of lb"
  shows "entry_size a + entry_size b \<le> size (ListN la) + size (ListN lb)"
  using entry_size_slot[of "fst a" "snd a" la] entry_size_slot[of "fst b" "snd b" lb] assms by simp

lemma merge_entries_joined:
  assumes S: "slice_utils_ok S" and f: "full (ListN la)" "full (ListN lb)" and PJ: "good_pjoin J (size (ListN la) + size (ListN lb)) PJ"
  shows "merge_entries S PJ vj la lb = joined_entries (slots_merge S PJ la lb) (ln_entries la) (ln_entries lb)"
proof -
  obtain a0 a1 b0 b1 where l: "la = LN a0 a1" "lb = LN b0 b1" by (cases la; cases lb)
  have live: "live_entry a" if "a \<in> slots_of la \<or> a \<in> slots_of lb" for a
    using that full_ListN_entries(1,3)[OF f(1)] full_ListN_entries(1,3)[OF f(2)] by (auto simp: tagged_def)
  have d: "slot_tag x \<noteq> slot_tag y" if "slot0 ln = Some x" "slot1 ln = Some y" "ln = la \<or> ln = lb" for x y ln
    using full_ListN_entries(1)[of ln] that f by (auto simp: tagged_def ln_entries_def)
  have none0: "a1 = None" if "a0 = None" using f(1) that by (cases a1) (simp_all add: l full_simps)
  have none1: "b1 = None" if "b0 = None" using f(2) that by (cases b1) (simp_all add: l full_simps)
  note M = merge_pair_some[OF S _ _ _ _ _ _ PJ slots_size]
  note defs = merge_entries_def joined_entries_def ln_entries_def add_single_def
  show ?thesis
  proof (cases a0; cases b0)
    assume "a0 = None" "b0 = None"
    then show ?thesis using none0 none1 S by (simp add: l defs merge_pair_none slot_at_def)
  next
    fix b assume "a0 = None" "b0 = Some b"
    then show ?thesis using none0 S by (cases b1) (simp_all add: l defs merge_pair_none slot_at_def)
  next
    fix a assume "a0 = Some a" "b0 = None"
    then show ?thesis using none1 S by (cases a1) (simp_all add: l defs merge_pair_none slot_at_def)
  next
    fix a b assume ab: "a0 = Some a" "b0 = Some b"
    have L: "live_entry a" "live_entry b" "a1 = Some x \<Longrightarrow> live_entry x" "b1 = Some x \<Longrightarrow> live_entry x" for x
      using live by (simp_all add: l ab)
    have D: "a1 = Some x \<Longrightarrow> slot_tag a \<noteq> slot_tag x \<and> slot_tag x \<noteq> slot_tag a \<and> a \<noteq> x"
      "b1 = Some x \<Longrightarrow> slot_tag b \<noteq> slot_tag x \<and> slot_tag x \<noteq> slot_tag b \<and> b \<noteq> x" for x
      using d[of la a x] d[of lb b x] by (auto simp: l ab)
    show ?thesis
      using ab L D by (cases a1; cases b1; simp add: l defs merge_pair_none[OF S] slot_at_def M; metis)
  qed
qed

end

subsection \<open>Nodes from entries\<close>

lemma entries_map_Cons:
  assumes "tagged (e # es)"
  shows "entries_map (e # es) q = or_else_opt (entries_map es q) (entry_map e q)"
    and "entries_map (e # es) q = or_else_opt (entry_map e q) (entries_map es q)"
proof -
  have "entries_map es q = None \<and> entries_map (e # es) q = entry_map e q \<or>
      entry_map e q = None \<and> entries_map (e # es) q = entries_map es q"
  proof (cases "slot_tag e = path_tag q \<and> q \<noteq> []")
    case True
    then have "pick es (path_tag q) = None" using assms by (auto simp: tagged_def pick_None)
    then show ?thesis using True by (simp add: entries_map_def del: slot_den_simps)
  next
    case False
    then have "entry_map e q = None" using entry_map_tag[of e q] assms by (auto simp: tagged_def simp del: slot_den_simps)
    then show ?thesis using False by (auto simp: entries_map_def simp del: slot_den_simps)
  qed
  then show "entries_map (e # es) q = or_else_opt (entries_map es q) (entry_map e q)"
    "entries_map (e # es) q = or_else_opt (entry_map e q) (entries_map es q)"
    by (auto simp del: slot_den_simps)
qed

lemma entries_map_simps [simp]: "entries_map [] q = None"
  by (simp add: entries_map_def)

lemma entries_map_one: "live_entry e \<Longrightarrow> entries_map [e] q = entry_map e q"
  using entries_map_Cons(1)[of e "[]" q] by (simp add: tagged_def del: slot_den_simps)

text \<open>The order in which \<open>merge_list_nodes\<close> fills the two slots.\<close>

lemma two_entries_node:
  assumes "tagged [(k0, p0), (k1, p1)]"
  shows "\<not> should_swap_keys k0 k1 \<Longrightarrow> live (ListN (two_slot_node (k0, p0) (k1, p1))) \<and>
      (\<forall>q. ln_den den (two_slot_node (k0, p0) (k1, p1)) q = entries_map [(k0, p0), (k1, p1)] q)"
    and "should_swap_keys k0 k1 \<Longrightarrow> live (ListN (two_slot_node (k1, p1) (k0, p0))) \<and>
      (\<forall>q. ln_den den (two_slot_node (k1, p1) (k0, p0)) q = entries_map [(k0, p0), (k1, p1)] q)"
proof -
  have e: "live_entry (k0, p0)" "live_entry (k1, p1)" and ap: "apart k1 p1 k0 p0"
    using assms tag_apart[of k1 p1 k0 p0] by (auto simp: tagged_def)
  have c: "k1 \<noteq> []" "k0 \<noteq> []" "p0 \<noteq> Child EmptyN" "p1 \<noteq> Child EmptyN" using e live_payload_wf by (auto simp: live_entry_def)
  have one: "length k0 = 1 \<or> length k1 = 1" if "hd k0 = hd k1"
    using ap c that by (cases k0; cases k1) (auto simp: apart_def leads_on_def)
  note m = entries_map_Cons[OF assms, unfolded entries_map_one[OF e(2)]]
  show "\<not> should_swap_keys k0 k1 \<Longrightarrow> live (ListN (two_slot_node (k0, p0) (k1, p1))) \<and>
      (\<forall>q. ln_den den (two_slot_node (k0, p0) (k1, p1)) q = entries_map [(k0, p0), (k1, p1)] q)"
  proof -
    assume "\<not> should_swap_keys k0 k1"
    then have "wf_pair k0 p0 k1 p1"
      by (intro wf_pairI; use ap c one in \<open>cases k0; cases k1; auto simp: should_swap_keys_def apart_commute\<close>)
    from two_slot_node_spec[OF e this] show ?thesis by (simp add: m(2) del: slot_den_simps)
  qed
  show "should_swap_keys k0 k1 \<Longrightarrow> live (ListN (two_slot_node (k1, p1) (k0, p0))) \<and>
      (\<forall>q. ln_den den (two_slot_node (k1, p1) (k0, p0)) q = entries_map [(k0, p0), (k1, p1)] q)"
  proof -
    assume "should_swap_keys k0 k1"
    then have "wf_pair k1 p1 k0 p0"
      by (intro wf_pairI; use ap c one in \<open>cases k0; cases k1; auto simp: should_swap_keys_def apart_commute\<close>)
    from two_slot_node_spec[OF e(2,1) this] show ?thesis by (simp add: m(1) del: slot_den_simps)
  qed
qed

lemma set_child_full: "full (ByteN bn) \<Longrightarrow> live n \<Longrightarrow> full (ByteN (snd (set_child k n bn)))"
  using set_child_spec[of bn k n] by (auto simp: full_simps live_cf_def)

lemma set_val_full: "full (ByteN bn) \<Longrightarrow> full (ByteN (snd (set_val k v bn)))"
  using set_val_spec[of bn k v] unfolding full_simps live_cf_def
  by (cases "bn_get bn k") (auto split: if_splits)

lemma add_entry_full:
  assumes "full (ByteN bn)" "live_entry (k, p)"
  shows "full (ByteN (add_entry k p (ListN (LN (Some (tl k, p)) None)) bn))"
    and "bn_get (add_entry k p (ListN (LN (Some (tl k, p)) None)) bn) (hd k) \<noteq> None"
proof -
  have ok: "bn_ok bn" using assms(1) by (simp add: full_simps)
  have "live (ListN (LN (Some (tl k, p)) None))" if "1 < length k"
    using assms(2) that by (cases k) (auto simp: live_one_slot live_entry_def)
  then show "full (ByteN (add_entry k p (ListN (LN (Some (tl k, p)) None)) bn))"
    using assms by (cases p) (auto simp: add_entry_def live_entry_def intro: set_child_full set_val_full)
  show "bn_get (add_entry k p (ListN (LN (Some (tl k, p)) None)) bn) (hd k) \<noteq> None"
    using set_child_spec(2)[OF ok] set_val_spec(2)[OF ok]
    by (cases p) (auto simp: add_entry_def)
qed

lemma join_child_into_new: "\<not> occupied bn b True \<Longrightarrow> snd (join_child_into JI b n bn) = snd (set_child b n bn)"
  by (auto simp: occupied_def join_child_into_def set_child_def split: option.splits)

lemma dense_from_entries_spec:
  assumes "tagged es"
  shows "full (ByteN (dense_from_entries JI es))" "bn_den den (dense_from_entries JI es) q = entries_map es q"
    and "es \<noteq> [] \<Longrightarrow> live (ByteN (dense_from_entries JI es))"
proof -
  define step where "step = (\<lambda>(key, payload :: 'a voc) bn.
         if 1 < length key
         then snd (join_child_into JI (hd key) (ListN (set_payload_0 (tl key) payload new_list_node)) bn)
         else bn_set_payload_owned (hd key) payload bn)"
  have d: "dense_from_entries JI es = fold step es new_byte_node" by (simp add: dense_from_entries_def step_def)
  have st: "step (k, p) bn = add_entry k p (ListN (LN (Some (tl k, p)) None)) bn"
    if "live_entry (k, p)" "\<not> occupied bn (hd k) (leads_on k p)" for k p bn
    using that join_child_into_new[of bn "hd k" JI]
    by (auto simp: step_def add_entry_def leads_on_def)
  have main: "full (ByteN (fold step es bn)) \<and> bn_den den (fold step es bn) q = or_else_opt (entries_map es q) (bn_den den bn q) \<and>
      (es \<noteq> [] \<longrightarrow> (\<exists>b. bn_get (fold step es bn) b \<noteq> None))"
    if "tagged es" "full (ByteN bn)" "\<And>e. e \<in> set es \<Longrightarrow> \<not> occupied bn (fst (slot_tag e)) (snd (slot_tag e))" for es bn
    using that
  proof (induction es arbitrary: bn)
    case (Cons e es)
    obtain k p where e: "e = (k, p)" by (cases e)
    let ?bn = "add_entry k p (ListN (LN (Some (tl k, p)) None)) bn"
    have l: "live_entry (k, p)" and t: "tagged es" "slot_tag e \<notin> slot_tag ` set es" using Cons.prems(1) by (auto simp: tagged_def e)
    have occ: "\<not> occupied bn (hd k) (leads_on k p)" using Cons.prems(3)[of e] by (simp add: e slot_tag_def)
    have wf: "wf_byte bn" using Cons.prems(2) full_wf wf_byte_iff by blast
    have k: "k \<noteq> []" "wf_payload p" "length k \<le> KEY_BYTES_CNT" using l by (auto simp: live_entry_def live_payload_split)
    have wn: "1 < length k \<Longrightarrow> wf_node (ListN (LN (Some (tl k, p)) None))" using k by (cases k) auto
    note a = add_entry_spec[OF wf k(1,2) occ wn]
    note f = add_entry_full[OF Cons.prems(2) l]
    have "\<not> occupied ?bn (fst (slot_tag e')) (snd (slot_tag e'))" if "e' \<in> set es" for e'
    proof -
      have "slot_tag e' \<noteq> slot_tag e" using that t(2) by (metis imageI)
      then show ?thesis using a(3) Cons.prems(3)[of e'] that by (simp add: e slot_tag_def)
    qed
    then have IH: "full (ByteN (fold step es ?bn))" "bn_den den (fold step es ?bn) q = or_else_opt (entries_map es q) (bn_den den ?bn q)"
      "es \<noteq> [] \<longrightarrow> (\<exists>b. bn_get (fold step es ?bn) b \<noteq> None)"
      using Cons.IH[OF t(1) f(1)] by blast+
    have "bn_den den ?bn q = or_else_opt (entry_map e q) (bn_den den bn q)" using a(2)[of q] by (simp add: e del: slot_den_simps(2,3))
    then have "bn_den den (fold step es ?bn) q = or_else_opt (entries_map (e # es) q) (bn_den den bn q)"
      unfolding IH(2) entries_map_Cons(1)[OF Cons.prems(1)] by (cases "entries_map es q") (simp_all del: slot_den_simps)
    moreover have "fold step (e # es) bn = fold step es ?bn" using st[OF l occ] by (simp add: e)
    moreover have "\<exists>b. bn_get (fold step es ?bn) b \<noteq> None" using IH(3) f(2) by (cases es) auto
    ultimately show ?case using IH(1) by simp
  qed simp
  have new: "full (ByteN (new_byte_node :: 'a bnode))" "bn_get (new_byte_node :: 'a bnode) b = None" "bn_den den (new_byte_node :: 'a bnode) q = None" for b
    by (simp_all add: full_simps bn_den_def split: list.split)
  have "\<not> occupied (new_byte_node :: 'a bnode) b on" for b on by (simp add: occupied_def)
  from main[OF assms new(1) this]
  show "full (ByteN (dense_from_entries JI es))" "bn_den den (dense_from_entries JI es) q = entries_map es q"
    "es \<noteq> [] \<Longrightarrow> live (ByteN (dense_from_entries JI es))"
    unfolding d by (simp_all add: new live_ByteN)
qed

text \<open>What \<open>merge_list_nodes\<close> returns: \<open>Ok\<close> of a list node or \<open>Err\<close> of a byte node.\<close>

fun merged_node :: "('v lnode algebraic_result, 'v bnode algebraic_result) result \<Rightarrow> 'v node algebraic_result" where
  "merged_node (Ok r) = Ring.map_result ListN r"
| "merged_node (Err r) = Ring.map_result ByteN r"

subsection \<open>A trie without dangling paths holds a value\<close>

lemma live_den:
  assumes "live n"
  shows "\<exists>q. den n q \<noteq> None"
  using assms
proof (induction "size n" arbitrary: n rule: less_induct)
  case less
  show ?case
  proof (cases n)
    case EmptyN
    then show ?thesis using less.prems by simp
  next
    case (ListN ln)
    then obtain k p s1 where ln: "ln = LN (Some (k, p)) s1" using less.prems by (cases ln) (auto simp: live_ListN)
    have l: "live_payload p" using less.prems by (auto simp: ListN ln live_ListN full_simps)
    obtain q where q: "slot_den den (Some (k, p)) q \<noteq> None"
    proof (cases p)
      case (Val v)
      then show ?thesis using that[of k] by simp
    next
      case (Child c)
      then have "live c" "size c < size n" using l by (simp_all add: ListN ln)
      then obtain q where "den c q \<noteq> None" using less.hyps by blast
      then show ?thesis using that[of "k @ q"] by (simp add: Child)
    qed
    then show ?thesis by (intro exI[of _ q]) (auto simp: ListN ln simp del: slot_den_simps(2,3))
  next
    case (ByteN bn)
    then obtain b cf where cf: "bn_get bn b = Some cf" "live_cf cf" using less.prems by (auto simp: live_ByteN full_simps)
    show ?thesis
    proof (cases "cf_rec cf")
      case None
      then have "den n [b] = cf_val cf \<and> cf_val cf \<noteq> None" using cf by (simp add: ByteN live_cf_def bn_den_bind cf_den_rec del: bn_den_Cons)
      then show ?thesis by metis
    next
      case (Some c)
      then have c: "live c" "c \<in> set (node_children n)" using cf entry_child[OF cf(1) Some] by (auto simp: ByteN live_cf_def)
      then obtain q where q: "den c q \<noteq> None" using less.hyps[OF node_children_size] by blast
      have "q \<noteq> []" using q wf_den_Nil[OF live_wf[OF c(1)]] by auto
      then show ?thesis using q cf(1) Some by (intro exI[of _ "b # q"]) (simp add: ByteN bn_den_bind cf_den_rec del: bn_den_Cons)
    qed
  qed
qed

lemma joint_empty:
  assumes "joint J (den a) (den b) (den n)" "node_is_empty n" "full n" "full a" "full b"
  shows "node_is_empty a \<and> node_is_empty b"
proof -
  have n: "den n q = None" for q using empty_node_den[OF full_wf] assms(2,3) by blast
  have "den a q = None \<and> den b q = None" for q
    using assms(1) n[of q] unfolding joint_def by (auto simp: join_opt_def split: option.splits dest!: spec[of _ q])
  then show ?thesis using live_den[of a] live_den[of b] assms(4,5) by (auto simp: live_def)
qed

text \<open>The status and the node after \<open>join_into\<close>.\<close>

definition settled :: "'v join_into_result \<Rightarrow> algebraic_status \<times> 'v node" where
  "settled r = (fst r, after_join (snd r))"

context join_impl
begin

lemma merge_list_nodes_sound:
  assumes S: "slice_utils_ok S" and f: "full (ListN la)" "full (ListN lb)" and PJ: "good_pjoin J (size (ListN la) + size (ListN lb)) PJ"
  shows "node_join J (ListN la) (ListN lb) (merged_node (merge_list_nodes S PJ JI vj la lb))"
    and "(\<exists>r. merge_list_nodes S PJ JI vj la lb = Ok r) \<or> (\<exists>bn. merge_list_nodes S PJ JI vj la lb = Err (Element bn))"
proof -
  define R where "R = joined_entries (slots_merge S PJ la lb) (ln_entries la) (ln_entries lb)"
  note a = full_ListN_entries[OF f(1)] and b = full_ListN_entries[OF f(2)]
  have g: "good_merge J x y (slots_merge S PJ la lb x y)" if "x \<in> set (ln_entries la)" "y \<in> set (ln_entries lb)" "slot_tag x = slot_tag y" for x y
    using a(1,3) b(1,3) that slots_size[of x la y lb] by (intro slots_merge_good(2)[OF S _ _ _ PJ]) (auto simp: tagged_def)
  note j = joined_entries_joint[OF a(1) b(1) g, folded R_def]
  have t: "tagged (map fst R)" unfolding R_def by (rule joined_entries_tags[OF a(1) b(1) g])
  have R: "merge_entries S PJ vj la lb = R" unfolding R_def by (rule merge_entries_joined[OF S f PJ])
  have den: "den (ListN la) = entries_map (ln_entries la)" "den (ListN lb) = entries_map (ln_entries lb)"
    using a(2) b(2) by (simp_all add: fun_eq_iff)
  let ?joint = "joint J (den (ListN la)) (den (ListN lb))"
  have J: "?joint (entries_map (map fst R))" using j(1) unfolding den .
  have I: "(bit m 0 \<longrightarrow> ?joint (den (ListN la))) \<and> (bit m 1 \<longrightarrow> ?joint (den (ListN lb)))"
    if "\<And>x i. x \<in> set R \<Longrightarrow> bit m i \<Longrightarrow> bit (snd x) i" for m
    using that j(2,3) unfolding den by blast
  have none: "R = [] \<Longrightarrow> ln_entries la = [] \<and> ln_entries lb = []"
    using joined_entries_empty[OF a(1) b(1)] unfolding R_def by blast
  have two: "two_bits m" if "(e, m) \<in> set R" for e m
  proof -
    have gm: "two_bits (snd (slots_merge S PJ la lb x y))" if "x \<in> set (ln_entries la)" "y \<in> set (ln_entries lb)" "slot_tag x = slot_tag y" for x y
      using g[OF that] by (simp add: good_merge_def)
    from that consider x y where "x \<in> set (ln_entries la)" "y \<in> set (ln_entries lb)" "slot_tag x = slot_tag y" "(e, m) = slots_merge S PJ la lb x y"
      | "m = SELF_IDENT" | "m = COUNTER_IDENT"
      unfolding R_def joined_entries_mem[OF a(1) b(1)] by (elim disjE bexE conjE) simp_all
    then show ?thesis
    proof cases
      case (1 x y)
      then show ?thesis using gm[of x y] by (metis snd_conv)
    qed simp_all
  qed
  have ident: "node_join J (ListN la) (ListN lb) (Identity m)"
    if "two_bits m" "0 < m" "\<And>x i. x \<in> set R \<Longrightarrow> bit m i \<Longrightarrow> bit (snd x) i" for m
    using I[OF that(3)] that(1,2) two_bits_pos[OF that(1)] unfolding node_join_def by simp
  have elem: "node_join J (ListN la) (ListN lb) (Element n)" if "live n" "\<And>q. den n q = entries_map (map fst R) q" for n
  proof -
    have "den n = entries_map (map fst R)" using that(2) by (simp add: fun_eq_iff)
    then show ?thesis using that(1) J unfolding node_join_def by simp
  qed
  show "node_join J (ListN la) (ListN lb) (merged_node (merge_list_nodes S PJ JI vj la lb))"
  proof (cases R)
    case Nil
    then have "node_is_empty (ListN la)" "node_is_empty (ListN lb)"
      using none a(3) b(3) by (cases la; cases lb; force simp: ln_entries_def is_used_def)+
    then show ?thesis by (simp add: merge_list_nodes_def R Nil node_join_def)
  next
    case (Cons x R')
    obtain k0 p0 m0 where x: "x = ((k0, p0), m0)" by (metis prod.exhaust)
    show ?thesis
    proof (cases R')
      case Nil
      have l: "live_entry (k0, p0)" using t by (simp add: tagged_def Cons Nil x)
      have "node_join J (ListN la) (ListN lb) (Identity m0)" if "0 < m0"
        using that two[of "(k0, p0)" m0] by (intro ident) (auto simp: Cons Nil x)
      moreover have "node_join J (ListN la) (ListN lb) (Element (ListN (LN (Some (k0, p0)) None)))"
        using l entries_map_one[OF l] by (intro elem) (simp_all add: live_one_slot Cons Nil x del: slot_den_simps(2,3))
      ultimately show ?thesis by (simp add: merge_list_nodes_def R Cons Nil x)
    next
      case C: (Cons y R'')
      obtain k1 p1 m1 where y: "y = ((k1, p1), m1)" by (metis prod.exhaust)
      show ?thesis
      proof (cases R'')
        case Nil
        have "node_join J (ListN la) (ListN lb) (Identity (m0 AND m1))" if "0 < m0 AND m1"
          using that two[of "(k0, p0)" m0] two[of "(k1, p1)" m1] by (intro ident) (auto simp: Cons C Nil x y bit_and_iff)
        moreover have es: "map fst R = [(k0, p0), (k1, p1)]" by (simp add: Cons C Nil x y)
        note nodes = two_entries_node[OF t[unfolded es]]
        have "node_join J (ListN la) (ListN lb) (Element (ListN (two_slot_node (k0, p0) (k1, p1))))" if "\<not> should_swap_keys k0 k1"
          using nodes(1)[OF that] by (intro elem) (simp_all add: es)
        moreover have "node_join J (ListN la) (ListN lb) (Element (ListN (two_slot_node (k1, p1) (k0, p0))))" if "should_swap_keys k0 k1"
          using nodes(2)[OF that] by (intro elem) (simp_all add: es)
        ultimately show ?thesis by (simp add: merge_list_nodes_def R Cons C Nil x y)
      next
        case D: (Cons z R3)
        have "merge_list_nodes S PJ JI vj la lb = Err (Element (dense_from_entries JI (map fst R)))"
          by (simp add: merge_list_nodes_def R Cons C D x y)
        then show ?thesis using dense_from_entries_spec[OF t, of JI]
          by (auto intro!: elem simp: Cons)
      qed
    qed
  qed
  show "(\<exists>r. merge_list_nodes S PJ JI vj la lb = Ok r) \<or> (\<exists>bn. merge_list_nodes S PJ JI vj la lb = Err (Element bn))"
    by (auto simp: merge_list_nodes_def split: list.split)
qed

lemma node_join_joined:
  assumes "full a" "full b"
  shows "node_join J a b (Element n) \<Longrightarrow> node_joined J a b (SElement, n)"
    and "node_join J a b (Identity m) \<Longrightarrow> bit m 0 \<Longrightarrow> node_joined J a b (SIdentity, a)"
    and "node_join J a b (Identity m) \<Longrightarrow> \<not> bit m 0 \<Longrightarrow> node_joined J a b (SElement, b)"
    and "node_join J a b RNone \<Longrightarrow> node_joined J a b (SNone, a)"
proof -
  note e = joint_empty[OF _ _ _ assms]
  show "node_join J a b (Element n) \<Longrightarrow> node_joined J a b (SElement, n)"
    using e[of J n] by (simp add: node_join_def node_joined_def live_def)
  show "node_join J a b (Identity m) \<Longrightarrow> bit m 0 \<Longrightarrow> node_joined J a b (SIdentity, a)"
    using e[of J a] assms(1) by (simp add: node_join_def node_joined_def)
  show "node_join J a b (Identity m) \<Longrightarrow> \<not> bit m 0 \<Longrightarrow> node_joined J a b (SElement, b)"
    using e[of J b] assms(2) by (simp add: node_join_def node_joined_def)
  show "node_join J a b RNone \<Longrightarrow> node_joined J a b (SNone, a)"
    using assms empty_node_den[OF full_wf[OF assms(1)]] empty_node_den[OF full_wf[OF assms(2)]]
    by (simp add: node_join_def node_joined_def joint_def)
qed

lemma merge_into_list_nodes_joined:
  assumes S: "slice_utils_ok S" and f: "full (ListN la)" "full (ListN lb)" and PJ: "good_pjoin J (size (ListN la) + size (ListN lb)) PJ"
  shows "node_joined J (ListN la) (ListN lb) (settled (merge_into_list_nodes S PJ JI vj la lb))"
proof -
  note m = merge_list_nodes_sound[OF assms, of JI]
  note j = node_join_joined[OF f]
  show ?thesis
  proof (cases "merge_list_nodes S PJ JI vj la lb")
    case (Ok r)
    then show ?thesis
      using m(1) j(1)[of "ListN _"] j(2-4) by (cases r) (auto simp: settled_def merge_into_list_nodes_def)
  next
    case (Err r)
    then obtain bn where "r = Element bn" using m(2) by auto
    then show ?thesis
      using m(1) Err j(1)[of "ByteN bn"] by (simp add: settled_def merge_into_list_nodes_def)
  qed
qed

end

end
