(* ===== verification/Join_Byte.thy ===== *)
theory Join_Byte
  imports Join_List
begin

text \<open>
  Joins into and of byte nodes: one entry joined in place (\<open>join_child_into\<close>, \<open>join_val_into\<close>), the two
  slots of a list node (\<open>merge_from_list_node\<close>), two entries (\<open>CoFree::pjoin\<close>, \<open>CoFree::join_into\<close>) and
  the loops of \<open>ByteNode::pjoin\<close> and \<open>ByteNode::join_into\<close> over the joined mask. \<open>merge_fields_sound\<close>
  is what \<open>AlgebraicResult::merge\<close> does to two joined fields, of an entry as of a map.
\<close>

unbundle bit_operations_syntax

subsection \<open>One entry joined into a byte node\<close>

definition good_join_into :: "('v \<Rightarrow> 'v \<Rightarrow> 'v \<Rightarrow> bool) \<Rightarrow> nat \<Rightarrow> ('v node \<Rightarrow> 'v node \<Rightarrow> 'v join_into_result) \<Rightarrow> bool" where
  "good_join_into J N JI \<longleftrightarrow> (\<forall>a b. live a \<longrightarrow> live b \<longrightarrow> size a + size b < N \<longrightarrow> node_joined J a b (settled (JI a b)))"

text \<open>What joining one entry of a list node, whose map is \<open>f\<close>, leaves of a byte node.\<close>

definition entry_joined ::
  "('v \<Rightarrow> 'v \<Rightarrow> 'v \<Rightarrow> bool) \<Rightarrow> (path \<Rightarrow> 'v option) \<Rightarrow> 'v bnode \<Rightarrow> algebraic_status \<times> 'v bnode \<Rightarrow> bool" where
  "entry_joined J f bn r \<longleftrightarrow>
     full (ByteN (snd r)) \<and> (\<exists>b. bn_get (snd r) b \<noteq> None) \<and> joint J (bn_den den bn) f (bn_den den (snd r)) \<and>
     fst r \<noteq> SNone \<and> (fst r = SIdentity \<longrightarrow> bn_den den (snd r) = bn_den den bn)"

lemma entry_joinedI:
  assumes full: "full (ByteN bn)" and ok: "bn_ok bn'" and get: "\<And>b. bn_get bn' b = (if b = k then Some cf else bn_get bn b)"
    and live: "live_cf cf" and old: "\<And>q. old q = Option.bind (bn_get bn k) (\<lambda>cf. cf_den den cf q)"
    and j: "joint J old f (cf_den den cf)" and st: "st \<noteq> SNone" "st = SIdentity \<Longrightarrow> cf_den den cf = old"
  shows "entry_joined J (below [k] f) bn (st, bn')"
proof -
  have nil: "bn_den den x [] = None" for x :: "'a bnode" by (simp add: bn_den_def)
  have den: "bn_den den bn' (b # q) = (if b = k then cf_den den cf q else bn_den den bn (b # q))" for b q
    by (simp add: bn_den_bind get del: bn_den_Cons)
  have "join_opt J (bn_den den bn q) (below [k] f q) (bn_den den bn' q)" for q
  proof (cases q)
    case (Cons b r)
    have "join_opt J (old r) (f r) (cf_den den cf r)" using j by (simp add: joint_def)
    then show ?thesis unfolding Cons den by (simp add: below_def old bn_den_bind del: bn_den_Cons)
  qed (simp add: nil below_def)
  moreover have "bn_den den bn' = bn_den den bn" if "st = SIdentity"
  proof
    fix q show "bn_den den bn' q = bn_den den bn q"
    proof (cases q)
      case (Cons b r)
      have "cf_den den cf r = Option.bind (bn_get bn k) (\<lambda>cf. cf_den den cf r)" using st(2)[OF that] old[of r] by simp
      then show ?thesis unfolding Cons den by (simp add: bn_den_bind del: bn_den_Cons)
    qed (simp add: nil)
  qed
  moreover have "full (ByteN bn')" using full ok live get by (auto simp: full_simps split: if_splits)
  moreover have "bn_get bn' k \<noteq> None" by (simp add: get)
  ultimately show ?thesis using st(1) unfolding entry_joined_def joint_def by auto
qed

lemma rec_den_Nil: "live_cf cf \<Longrightarrow> rec_den (cf_rec cf) [] = None"
  using wf_den_Nil live_wf by (cases "cf_rec cf") (auto simp: live_cf_def)

context join_impl
begin

lemma odrc_join_into_joined:
  assumes "good_join_into J N JI" "live a" "live b" "size a + size b < N"
  shows "node_joined J a b (odrc_join_into JI a b)"
proof -
  have "node_joined J a b (settled (JI a b))" using assms unfolding good_join_into_def by blast
  then show ?thesis using assms(2,3) by (cases "JI a b") (simp add: odrc_join_into_def settled_def)
qed

lemma join_child_into_joined:
  assumes full: "full (ByteN bn)" and n: "live n" and JI: "good_join_into J N JI" "\<And>c. bn_rec bn k = Some c \<Longrightarrow> size c + size n < N"
  shows "entry_joined J (below [k] (den n)) bn (join_child_into JI k n bn)"
proof -
  have ok: "bn_ok bn" using full by (simp add: full_simps)
  have nil: "den n [] = None" using wf_den_Nil[OF live_wf[OF n]] .
  show ?thesis
  proof (cases "bn_get bn k")
    case None
    note g = bn_get_insert[OF ok None, of "CoFree (Some n) None"]
    have "entry_joined J (below [k] (den n)) bn (SElement, bn_insert k (CoFree (Some n) None) bn)"
      by (rule entry_joinedI[OF full g(1) g(2), where old = "\<lambda>_. None"])
        (use n nil None in \<open>auto simp: live_cf_def joint_def cf_den_rec\<close>)
    then show ?thesis by (simp add: join_child_into_def None)
  next
    case (Some cf)
    have there: "bn_get bn k \<noteq> None" using Some by simp
    have lcf: "live_cf cf" using full Some by (auto simp: full_simps)
    note g = bn_get_replace[OF ok there]
    show ?thesis
    proof (cases "cf_rec cf")
      case None
      have "entry_joined J (below [k] (den n)) bn (SElement, bn_replace k (CoFree (Some n) (cf_val cf)) bn)"
        by (rule entry_joinedI[OF full g(1) g(2), where old = "cf_den den cf"])
          (use n nil None Some in \<open>auto simp: live_cf_def joint_def cf_den_rec\<close>)
      then show ?thesis by (simp add: join_child_into_def Some None)
    next
      case c: (Some c)
      have lc: "live c" using lcf c by (simp add: live_cf_def)
      have "bn_rec bn k = Some c" by (simp add: bn_rec_def Some c)
      then have j: "node_joined J c n (odrc_join_into JI c n)" using lc n JI by (intro odrc_join_into_joined[OF JI(1)]) auto
      obtain st c' where r: "odrc_join_into JI c n = (st, c')" by (cases "odrc_join_into JI c n")
      have c': "live c'" "joint J (den c) (den n) (den c')" "st = SIdentity \<Longrightarrow> den c' = den c" "st \<noteq> SNone"
        using j n lc unfolding r node_joined_def by (auto simp: live_def)
      have nils: "den c [] = None" "den c' [] = None" using wf_den_Nil[OF live_wf] lc c'(1) by auto
      have "entry_joined J (below [k] (den n)) bn (st, bn_replace k (CoFree (Some c') (cf_val cf)) bn)"
        by (rule entry_joinedI[OF full g(1) g(2), where old = "cf_den den cf"])
          (use c' nil nils c Some in \<open>auto simp: live_cf_def joint_def cf_den_rec fun_eq_iff\<close>)
      then show ?thesis by (simp add: join_child_into_def Some c r)
    qed
  qed
qed

lemma join_val_into_joined:
  assumes full: "full (ByteN bn)"
  shows "entry_joined J (below [k] (\<lambda>q. if q = [] then Some v else None)) bn (join_val_into vji k v bn)"
proof -
  have ok: "bn_ok bn" using full by (simp add: full_simps)
  show ?thesis
  proof (cases "bn_get bn k")
    case None
    note g = bn_get_insert[OF ok None, of "CoFree None (Some v)"]
    have "entry_joined J (below [k] (\<lambda>q. if q = [] then Some v else None)) bn (SElement, bn_insert k (CoFree None (Some v)) bn)"
      by (rule entry_joinedI[OF full g(1) g(2), where old = "\<lambda>_. None"])
        (use None in \<open>auto simp: live_cf_def joint_def cf_den_rec\<close>)
    then show ?thesis by (simp add: join_val_into_def None)
  next
    case (Some cf)
    have there: "bn_get bn k \<noteq> None" using Some by simp
    have lcf: "live_cf cf" using full Some by (auto simp: full_simps)
    note g = bn_get_replace[OF ok there]
    show ?thesis
    proof (cases "cf_val cf")
      case None
      have "entry_joined J (below [k] (\<lambda>q. if q = [] then Some v else None)) bn (SElement, bn_replace k (CoFree (cf_rec cf) (Some v)) bn)"
        by (rule entry_joinedI[OF full g(1) g(2), where old = "cf_den den cf"])
          (use lcf None Some in \<open>auto simp: live_cf_def joint_def cf_den_rec\<close>)
      then show ?thesis by (simp add: join_val_into_def Some None)
    next
      case w: (Some w)
      obtain u st where r: "vji w v = (u, st)" by (cases "vji w v")
      have u: "J w v u" "st = SIdentity \<Longrightarrow> u = w" "st \<noteq> SNone" using vji_sound[OF r] by auto
      have "entry_joined J (below [k] (\<lambda>q. if q = [] then Some v else None)) bn (st, bn_replace k (CoFree (cf_rec cf) (Some u)) bn)"
        by (rule entry_joinedI[OF full g(1) g(2), where old = "cf_den den cf"])
          (use lcf w u Some in \<open>auto simp: live_cf_def joint_def cf_den_rec fun_eq_iff\<close>)
      then show ?thesis by (simp add: join_val_into_def Some w r)
    qed
  qed
qed

text \<open>One slot, and the slots one after the other.\<close>

lemma merge_slot_into_joined:
  assumes full: "full (ByteN bn)" and e: "live_entry e" and JI: "good_join_into J N JI"
    and size: "\<And>b c. slot_tag e = (b, True) \<Longrightarrow> bn_rec bn b = Some c \<Longrightarrow> size c + entry_size e < N"
  shows "entry_joined J (entry_map e) bn (merge_slot_into JI vji w (Some e) bn)"
proof -
  obtain k p where kp: "e = (k, p)" by (cases e)
  obtain b r where k: "k = b # r" using e by (cases k) (auto simp: kp live_entry_def)
  have step: "merge_slot_into JI vji w (Some e) bn =
      (if r \<noteq> [] then join_child_into JI b (ListN (LN (Some (r, p)) None)) bn else join_payload_into JI vji b p bn)"
    by (simp add: merge_slot_into_def kp k)
  show ?thesis
  proof (cases "r = []")
    case False
    let ?n = "ListN (LN (Some (r, p)) None)"
    have n: "live ?n" using e False by (simp add: live_one_slot live_entry_def kp k)
    have "size ?n = entry_size e" unfolding kp entry_size_simps(3) by (rule entry_size_simps(2))
    then have "entry_joined J (below [b] (den ?n)) bn (join_child_into JI b ?n bn)"
      using size[of b] False by (intro join_child_into_joined[OF full n JI]) (simp add: slot_tag_def leads_on_def kp k)
    moreover have "below [b] (den ?n) = entry_map e"
      using slot_den_tail[of 1 k p] by (simp add: kp k fun_eq_iff below_def del: slot_den_simps(2,3))
    ultimately show ?thesis using False by (simp add: step)
  next
    case True
    show ?thesis
    proof (cases p)
      case (Child n)
      have n: "live n" using e by (simp add: live_entry_def kp Child)
      have "size n < entry_size e" unfolding kp Child by (rule entry_size_simps(1))
      then have "entry_joined J (below [b] (den n)) bn (join_child_into JI b n bn)"
        using size[of b] n by (intro join_child_into_joined[OF full n JI]) (fastforce simp: slot_tag_def leads_on_def kp k Child)
      then show ?thesis unfolding step using True by (simp add: join_payload_into_def Child kp k slot_den_below del: slot_den_simps(2,3))
    next
      case (Val v)
      have "entry_map e = below [b] (\<lambda>q. if q = [] then Some v else None)"
        using True by (auto simp: kp k Val fun_eq_iff below_def prefix_def)
      then show ?thesis using True join_val_into_joined[OF full, of b v]
        by (simp add: step join_payload_into_def Val del: slot_den_simps(2,3))
    qed
  qed
qed

end

lemma join_child_into_rec: "bn_ok bn \<Longrightarrow> b \<noteq> k \<Longrightarrow> bn_rec (snd (join_child_into JI k n bn)) b = bn_rec bn b"
  using bn_get_insert(2)[of bn k _ b] bn_get_replace(2)[of bn k _ b]
  by (auto simp: join_child_into_def bn_rec_def split: option.split prod.split)

lemma join_val_into_rec: "bn_ok bn \<Longrightarrow> bn_rec (snd (join_val_into vji k v bn)) b = bn_rec bn b"
  using bn_get_insert(2)[of bn k _ b] bn_get_replace(2)[of bn k _ b]
  by (auto simp: join_val_into_def bn_rec_def split: option.split prod.split)

lemma merge_slot_into_rec:
  assumes "bn_ok bn" "live_entry e" "slot_tag e \<noteq> (b, True)"
  shows "bn_rec (snd (merge_slot_into JI vji w (Some e) bn)) b = bn_rec bn b"
proof -
  obtain k p where kp: "e = (k, p)" by (cases e)
  have "b \<noteq> hd k" if "1 < length k \<or> is_child p" using assms that by (cases p) (auto simp: kp slot_tag_def leads_on_def live_entry_def)
  then show ?thesis using join_child_into_rec[OF assms(1)] join_val_into_rec[OF assms(1)]
    by (cases p) (auto simp: merge_slot_into_def kp join_payload_into_def)
qed

lemma joint_seq:
  assumes "joint J f g0 d1" "joint J d1 g1 d2" "\<And>q. g0 q = None \<or> g1 q = None"
  shows "joint J f (\<lambda>q. or_else_opt (g0 q) (g1 q)) d2"
  unfolding joint_def
proof
  fix q
  have "join_opt J (f q) (g0 q) (d1 q)" "join_opt J (d1 q) (g1 q) (d2 q)" using assms(1,2) by (auto simp: joint_def)
  then show "join_opt J (f q) (or_else_opt (g0 q) (g1 q)) (d2 q)"
    using assms(3)[of q] by (cases "g0 q") auto
qed

context join_impl
begin

lemma merge_from_list_node_joined:
  assumes f: "full (ByteN bn)" "full (ListN ln)" and JI: "good_join_into J N JI"
    and size: "\<And>b c e. bn_rec bn b = Some c \<Longrightarrow> e \<in> slots_of ln \<Longrightarrow> size c + entry_size e < N"
    and r: "merge_from_list_node JI vji bn ln = (st, bn')"
  shows "node_joined J (ByteN bn) (ListN ln) (st, ByteN bn')" and "st = SElement \<Longrightarrow> live (ByteN bn')"
proof -
  obtain s0 s1 where ln: "ln = LN s0 s1" by (cases ln)
  let ?w = "is_empty_mask (bn_mask bn)" and ?st = "\<lambda>w. if w then SNone else SIdentity"
  have ok: "bn_ok bn" using f(1) by (simp add: full_simps)
  have w: "?w \<longleftrightarrow> node_is_empty (ByteN bn)" using bn_empty_iff(2)[OF ok] by simp
  have live: "live_entry e" if "e \<in> slots_of ln" for e using full_ListN_entries(1,3)[OF f(2)] that by (auto simp: tagged_def)
  have fin: "node_joined J (ByteN bn) (ListN ln) (st, ByteN bn') \<and> (st = SElement \<longrightarrow> live (ByteN bn'))"
    if "full (ByteN bn')" "\<exists>b. bn_get bn' b \<noteq> None" "joint J (bn_den den bn) (ln_den den ln) (bn_den den bn')" "st \<noteq> SNone"
      "st = SIdentity \<Longrightarrow> bn_den den bn' = bn_den den bn"
  proof -
    have "live (ByteN bn')" using that(1,2) by (simp add: live_ByteN)
    moreover have "den (ByteN bn) = bn_den den bn" "den (ByteN bn') = bn_den den bn'" "den (ListN ln) = ln_den den ln"
      by (simp_all add: fun_eq_iff)
    ultimately show ?thesis using that by (simp add: node_joined_def live_def del: den_simps)
  qed
  have "node_joined J (ByteN bn) (ListN ln) (st, ByteN bn') \<and> (st = SElement \<longrightarrow> live (ByteN bn'))"
  proof (cases s0)
    case None
    then have "s1 = None" using f(2) by (cases s1) (simp_all add: ln full_simps)
    then have "st = ?st ?w" "bn' = bn" using r None by (auto simp: merge_from_list_node_def merge_slot_into_def ln Let_def)
    then show ?thesis using f(1) w by (auto simp: node_joined_def ln None \<open>s1 = None\<close> is_used_def joint_def joint_empty)
  next
    case (Some e0)
    have e0: "e0 \<in> slots_of ln" "live_entry e0" using live by (auto simp: ln Some)
    obtain st0 bn0 where r0: "merge_slot_into JI vji ?w (Some e0) bn = (st0, bn0)" by fastforce
    have j0: "entry_joined J (entry_map e0) bn (st0, bn0)"
      unfolding r0[symmetric] by (rule merge_slot_into_joined[OF f(1) e0(2) JI]) (use size e0(1) in blast)
    show ?thesis
    proof (cases s1)
      case None
      have "st = merge_status st0 (?st ?w) True True" "bn' = bn0"
        using r r0 by (auto simp: merge_from_list_node_def merge_slot_into_def[of _ _ _ None] ln Some None Let_def)
      moreover have "ln_den den ln = entry_map e0" by (simp add: fun_eq_iff ln Some None del: slot_den_simps(2,3))
      ultimately show ?thesis using j0 by (intro fin) (cases st0; auto simp: entry_joined_def split: if_splits)+
    next
      case s1: (Some e1)
      have e1: "e1 \<in> slots_of ln" "live_entry e1" using live by (auto simp: ln s1)
      have t: "slot_tag e0 \<noteq> slot_tag e1" using full_ListN_entries(1)[OF f(2)] by (auto simp: tagged_def ln_entries_def ln Some s1)
      obtain st1 bn1 where r1: "merge_slot_into JI vji ?w (Some e1) bn0 = (st1, bn1)" by fastforce
      have "entry_joined J (entry_map e1) bn0 (st1, bn1)"
        unfolding r1[symmetric]
      proof (rule merge_slot_into_joined[OF _ e1(2) JI])
        show "full (ByteN bn0)" using j0 by (simp add: entry_joined_def)
      next
        fix b c assume b: "slot_tag e1 = (b, True)" "bn_rec bn0 b = Some c"
        then have "bn_rec bn b = Some c"
          using merge_slot_into_rec[OF ok e0(2), of b JI vji ?w] t by (simp add: r0)
        then show "size c + entry_size e1 < N" using size e1(1) by blast
      qed
      note j1 = this
      have "st = merge_status st0 st1 True True" "bn' = bn1"
        using r r0 r1 by (auto simp: merge_from_list_node_def ln Some s1 Let_def)
      moreover have "ln_den den ln = (\<lambda>q. or_else_opt (entry_map e0 q) (entry_map e1 q))"
        by (simp add: fun_eq_iff ln Some s1 del: slot_den_simps(2,3))
      moreover have "joint J (bn_den den bn) (\<lambda>q. or_else_opt (entry_map e0 q) (entry_map e1 q)) (bn_den den bn1)"
        using j0 j1 tags_disjoint[OF e0(2) e1(2) t] by (intro joint_seq[of _ _ _ "bn_den den bn0"]) (auto simp: entry_joined_def)
      ultimately show ?thesis using j0 j1 by (intro fin) (cases st0; cases st1; auto simp: entry_joined_def)+
    qed
  qed
  then show "node_joined J (ByteN bn) (ListN ln) (st, ByteN bn')" "st = SElement \<Longrightarrow> live (ByteN bn')" by blast+
qed

end

subsection \<open>Pairs of fields: entries and maps\<close>

lemma ident_pick:
  assumes "two_bits m" "bit m 0 \<or> bit m 1"
  shows "field_idents x y (trailing_zeros m) = (if bit m 0 then x else y)"
proof (cases "bit m 0")
  case True
  then have "trailing_zeros m = 0" by (intro trailing_zeros_eqI) simp_all
  then show ?thesis using True by simp
next
  case False
  then have "trailing_zeros m = 1" using assms(2) by (intro trailing_zeros_eqI) simp_all
  then show ?thesis using False by (simp add: field_idents_def)
qed

text \<open>The result of an optional field; \<open>j z\<close> says that \<open>z\<close> is a join.\<close>

definition field_sound :: "('a \<Rightarrow> bool) \<Rightarrow> ('a option \<Rightarrow> bool) \<Rightarrow> 'a option \<Rightarrow> 'a option \<Rightarrow> 'a algebraic_result \<Rightarrow> bool" where
  "field_sound good j x y r \<longleftrightarrow> sound (\<lambda>n. good n \<and> j (Some n)) (j None \<and> j x \<and> j y) (j x) (j y) r"

lemma merge_fields_sound:
  assumes R: "field_sound g1 j1 x y R" and V: "field_sound g2 j2 u v V"
  shows "sound (\<lambda>e. \<exists>r w. e = F r w \<and> j1 r \<and> j2 w \<and> (\<forall>n. r = Some n \<longrightarrow> g1 n \<or> r = x \<or> r = y))
      (j1 None \<and> j2 None)
      (j1 x \<and> j2 u) (j1 y \<and> j2 v)
      (merge_result R V (field_idents x y) (field_idents u v) (\<lambda>r w. Element (F r w)))"
proof -
  have r: "two_bits m \<Longrightarrow> bit m 0 \<or> bit m 1 \<Longrightarrow> field_idents x y (trailing_zeros m) = (if bit m 0 then x else y)"
    and v: "two_bits m \<Longrightarrow> bit m 0 \<or> bit m 1 \<Longrightarrow> field_idents u v (trailing_zeros m) = (if bit m 0 then u else v)" for m
    by (rule ident_pick; assumption)+
  show ?thesis
  proof (cases R)
    case RNone
    then show ?thesis using R V v by (cases V) (auto simp: field_sound_def)
  next
    case (Identity m)
    show ?thesis
    proof (cases V)
      case Id: (Identity m')
      show ?thesis
      proof (cases "0 < m AND m'")
        case True
        have "two_bits (m AND m')" using R V by (simp add: field_sound_def Identity Id)
        from two_bits_pos[OF this] True have "bit (m AND m') 0 \<or> bit (m AND m') 1" by simp
        then show ?thesis using True R V by (simp add: field_sound_def Identity Id bit_and_iff)
      next
        case False
        then show ?thesis using R V r[of m] v[of m'] by (auto simp: field_sound_def Identity Id Let_def)
      qed
    qed (use R V r[of m] in \<open>auto simp: field_sound_def Identity\<close>)
  next
    case (Element n)
    then show ?thesis using R V v by (cases V) (auto simp: field_sound_def)
  qed
qed

context join_impl
begin

definition rec_joint :: "'v node option \<Rightarrow> 'v node option \<Rightarrow> 'v node option \<Rightarrow> bool" where
  "rec_joint x y z \<longleftrightarrow> (\<forall>q. q \<noteq> [] \<longrightarrow> join_opt J (rec_den x q) (rec_den y q) (rec_den z q))"

lemma joint_fields:
  "joint J (cf_den den a) (cf_den den b) (cf_den den c) \<longleftrightarrow>
     rec_joint (cf_rec a) (cf_rec b) (cf_rec c) \<and> join_opt J (cf_val a) (cf_val b) (cf_val c)"
  by (auto simp: joint_def rec_joint_def cf_den_rec)

lemma rec_joint_nodes:
  "joint J (den a) (den b) (den c) \<Longrightarrow> rec_joint (Some a) (Some b) (Some c)"
  by (simp add: rec_joint_def joint_def)

lemma rec_joint_idem: "rec_joint x None x" "rec_joint None x x" "rec_joint x x x"
  by (simp_all add: rec_joint_def join_opt_idem)

lemma option_pjoin_field:
  assumes "\<And>a b. x = Some a \<Longrightarrow> y = Some b \<Longrightarrow> sound (\<lambda>n. good n \<and> j (Some n)) False (j x) (j y) (P a b)"
    and "x = None \<Longrightarrow> j y" "y = None \<Longrightarrow> j x"
  shows "field_sound good j x y (flatten_result (option_pjoin P x y))"
  using assms(1)[of "the x" "the y"] assms(2,3)
  by (cases x; cases y; cases "P (the x) (the y)") (auto simp: field_sound_def)

definition good_node :: "'v node option \<Rightarrow> bool" where
  "good_node x \<longleftrightarrow> (\<forall>c. x = Some c \<longrightarrow> live c)"

lemma rec_field_joined:
  assumes peq: "ptr_eq_ok peq" and g: "good_node x" "good_node y"
    and P: "\<And>a b. x = Some a \<Longrightarrow> y = Some b \<Longrightarrow> node_join J a b (P a b)"
  shows "field_sound live (rec_joint x y) x y (flatten_result (option_pjoin (odrc_pjoin peq P) x y))"
proof (rule option_pjoin_field)
  fix a b assume xy: "x = Some a" "y = Some b"
  then have "\<not> (node_is_empty a \<and> node_is_empty b)" using g by (simp add: good_node_def)
  then show "sound (\<lambda>n. live n \<and> rec_joint x y (Some n)) False (rec_joint x y x) (rec_joint x y y) (odrc_pjoin peq P a b)"
    using odrc_pjoin_sound[where P = P and a = a and b = b, OF peq P[OF xy]] rec_joint_nodes xy
    by (cases "odrc_pjoin peq P a b") (auto simp: node_join_def)
qed (use rec_joint_idem in auto)

lemma val_field_joined: "field_sound (\<lambda>_. True) (join_opt J x y) x y (flatten_result (option_pjoin vj x y))"
proof (rule option_pjoin_field)
  fix a b assume xy: "x = Some a" "y = Some b"
  show "sound (\<lambda>n. True \<and> join_opt J x y (Some n)) False (join_opt J x y x) (join_opt J x y y) (vj a b)"
    using vj_sound[of a b] xy by (cases "vj a b") auto
qed auto

lemma rec_joint_some:
  assumes "rec_joint x y z" "good_node x" "good_node y" "x \<noteq> None \<or> y \<noteq> None"
  shows "z \<noteq> None"
proof -
  obtain c where c: "x = Some c \<or> y = Some c" using assms(4) by auto
  then have "live c" using assms(2,3) by (auto simp: good_node_def)
  then obtain q where q: "den c q \<noteq> None" using live_den by blast
  then have "q \<noteq> []" using wf_den_Nil[OF live_wf[OF \<open>live c\<close>]] by auto
  then have "join_opt J (rec_den x q) (rec_den y q) (rec_den z q)" using assms(1) by (simp add: rec_joint_def)
  then have "rec_den z q \<noteq> None" using c q by (cases "rec_den x q"; cases "rec_den y q") auto
  then show ?thesis by (cases z) auto
qed

definition cf_join :: "('v node, 'v) cofree \<Rightarrow> ('v node, 'v) cofree \<Rightarrow> ('v node, 'v) cofree algebraic_result \<Rightarrow> bool" where
  "cf_join a b r \<longleftrightarrow>
     sound (\<lambda>cf. live_cf cf \<and> joint J (cf_den den a) (cf_den den b) (cf_den den cf)) False
       (joint J (cf_den den a) (cf_den den b) (cf_den den a)) (joint J (cf_den den a) (cf_den den b) (cf_den den b)) r"

lemma cf_pjoin_sound:
  assumes peq: "ptr_eq_ok peq" and l: "live_cf a" "live_cf b"
    and P: "\<And>c d. cf_rec a = Some c \<Longrightarrow> cf_rec b = Some d \<Longrightarrow> node_join J c d (P c d)"
  shows "cf_join a b (cf_pjoin peq P vj a b)"
proof -
  have g: "good_node (cf_rec a)" "good_node (cf_rec b)" using l by (auto simp: good_node_def live_cf_def)
  have ne: "cf_rec a \<noteq> None \<or> cf_val a \<noteq> None" using l by (simp add: live_cf_def)
  have live: "live_cf (CoFree r w)"
    if "rec_joint (cf_rec a) (cf_rec b) r" "join_opt J (cf_val a) (cf_val b) w" "\<forall>n. r = Some n \<longrightarrow> live n \<or> r = cf_rec a \<or> r = cf_rec b" for r w
  proof -
    have "r \<noteq> None \<or> w \<noteq> None"
      using rec_joint_some[OF that(1) g] ne that(2) by (cases "cf_val a"; cases "cf_val b") auto
    then show ?thesis using that(3) g by (auto simp: live_cf_def good_node_def)
  qed
  have "sound (\<lambda>e. \<exists>r w. e = CoFree r w \<and> rec_joint (cf_rec a) (cf_rec b) r \<and> join_opt J (cf_val a) (cf_val b) w \<and>
        (\<forall>n. r = Some n \<longrightarrow> live n \<or> r = cf_rec a \<or> r = cf_rec b))
      (rec_joint (cf_rec a) (cf_rec b) None \<and> join_opt J (cf_val a) (cf_val b) None)
      (rec_joint (cf_rec a) (cf_rec b) (cf_rec a) \<and> join_opt J (cf_val a) (cf_val b) (cf_val a))
      (rec_joint (cf_rec a) (cf_rec b) (cf_rec b) \<and> join_opt J (cf_val a) (cf_val b) (cf_val b))
      (cf_pjoin peq P vj a b)"
    unfolding cf_pjoin_def by (rule merge_fields_sound[OF rec_field_joined[OF peq g P] val_field_joined])
  moreover have "\<not> (rec_joint (cf_rec a) (cf_rec b) None \<and> join_opt J (cf_val a) (cf_val b) None)"
    using rec_joint_some[OF _ g, of None] ne by (cases "cf_val a"; cases "cf_val b") auto
  ultimately show ?thesis
    using live unfolding cf_join_def joint_fields by (cases "cf_pjoin peq P vj a b") auto
qed

text \<open>The same in place.\<close>

lemma cf_join_into_joined:
  assumes l: "live_cf a" "live_cf b" and JI: "good_join_into J N JI"
    and size: "\<And>c d. cf_rec a = Some c \<Longrightarrow> cf_rec b = Some d \<Longrightarrow> size c + size d < N"
    and r: "cf_join_into JI vji a b = (st, cf)"
  shows "live_cf cf \<and> joint J (cf_den den a) (cf_den den b) (cf_den den cf) \<and> st \<noteq> SNone \<and>
    (st = SIdentity \<longrightarrow> cf_den den cf = cf_den den a)"
proof -
  obtain rst rec where R: "join_field_into (odrc_join_into JI) (cf_rec a) (cf_rec b) = (rst, rec)" by fastforce
  obtain vst val where V: "join_field_into (\<lambda>s oth. prod.swap (vji s oth)) (cf_val a) (cf_val b) = (vst, val)" by fastforce
  have res: "st = merge_status rst vst True True" "cf = CoFree rec val" using r R V by (auto simp: cf_join_into_def)
  have rec: "rec_joint (cf_rec a) (cf_rec b) rec \<and> good_node rec \<and> (rst = SIdentity \<longrightarrow> (\<forall>q. q \<noteq> [] \<longrightarrow> rec_den rec q = rec_den (cf_rec a) q)) \<and>
      (rst = SNone \<longrightarrow> cf_rec a = None \<and> cf_rec b = None \<and> rec = None) \<and> (rec = None \<longrightarrow> cf_rec a = None \<and> cf_rec b = None)"
  proof (cases "cf_rec a"; cases "cf_rec b")
    fix c d assume cd: "cf_rec a = Some c" "cf_rec b = Some d"
    have lc: "live c" "live d" using l cd by (auto simp: live_cf_def)
    obtain s' n where o: "odrc_join_into JI c d = (s', n)" by fastforce
    have "node_joined J c d (s', n)" unfolding o[symmetric] using odrc_join_into_joined[OF JI lc] size[OF cd] by simp
    then show ?thesis using R cd o lc rec_joint_nodes[of c d n] by (auto simp: join_field_into_def node_joined_def good_node_def live_def)
  qed (use R l in \<open>auto simp: join_field_into_def rec_joint_idem good_node_def live_cf_def\<close>)
  have val: "join_opt J (cf_val a) (cf_val b) val \<and> (vst = SIdentity \<longrightarrow> val = cf_val a) \<and>
      (vst = SNone \<longrightarrow> cf_val a = None \<and> cf_val b = None) \<and> (val = None \<longrightarrow> cf_val a = None \<and> cf_val b = None)"
  proof (cases "cf_val a"; cases "cf_val b")
    fix v w assume vw: "cf_val a = Some v" "cf_val b = Some w"
    obtain u s' where o: "vji v w = (u, s')" by fastforce
    show ?thesis using V vw vji_sound[OF o] o by (auto simp: join_field_into_def)
  qed (use V in \<open>auto simp: join_field_into_def\<close>)
  have "live_cf cf" using rec val l by (auto simp: res live_cf_def good_node_def)
  moreover have "joint J (cf_den den a) (cf_den den b) (cf_den den cf)" using rec val by (simp add: joint_fields res)
  moreover have "st \<noteq> SNone" using rec val l by (cases rst; cases vst) (auto simp: res live_cf_def)
  moreover have "cf_den den cf = cf_den den a" if "st = SIdentity"
    using rec val that by (cases rst; cases vst) (auto simp: res cf_den_rec fun_eq_iff)
  ultimately show ?thesis by blast
qed

end

subsection \<open>The loops over the joined mask\<close>

lemma mask_items_split: "mask_items m = map (\<lambda>n. (n div 64, n mod 64)) (bits m)"
proof -
  have "map (\<lambda>n. (n div 64, n mod 64)) (map (\<lambda>(i, index). 64 * i + index) (mask_items m)) = mask_items m"
    unfolding map_map by (rule map_idI) (use mask_items_less in \<open>auto simp: comp_def\<close>)
  then show ?thesis by (simp only: mask_items_bits)
qed

text \<open>A loop that counts the entries it has passed in the nodes with the masks \<open>A\<close> and \<open>B\<close>.\<close>

lemma counted_loop:
  fixes f :: "nat \<times> nat \<Rightarrow> 'a \<times> nat \<times> nat \<times> 'e list \<Rightarrow> 'a \<times> nat \<times> nat \<times> 'e list"
  assumes step: "\<And>n acc v. mbit M n \<Longrightarrow> f (n div 64, n mod 64) (acc, rank A n, rank B n, v) =
      (upd n acc, rank A (Suc n), rank B (Suc n), v @ [g n])"
    and skip: "\<And>n. \<not> mbit M n \<Longrightarrow> \<not> mbit A n \<and> \<not> mbit B n"
  shows "fold f (mask_items M) (acc, 0, 0, []) = (fold upd (bits M) acc, rank A 256, rank B 256, map g (bits M))"
proof -
  have "fold f (map (\<lambda>n. (n div 64, n mod 64)) (filter (mbit M) [0..<k])) (acc, 0, 0, []) =
      (fold upd (filter (mbit M) [0..<k]) acc, rank A k, rank B k, map g (filter (mbit M) [0..<k]))" for k
  proof (induction k)
    case (Suc k)
    then show ?case using step[of k] skip[of k] by (cases "mbit M k") (simp_all add: rank_Suc)
  qed simp
  from this[of 256] show ?thesis by (simp add: mask_items_split bits_def)
qed

lemma fold_conj2: "fold (\<lambda>n (a, b). (a \<and> p n, b \<and> q n)) xs (a, b) = (a \<and> (\<forall>n \<in> set xs. p n), b \<and> (\<forall>n \<in> set xs. q n))"
  by (induction xs arbitrary: a b) auto

lemma fold_conj: "fold (\<lambda>n a. a \<and> p n) xs a \<longleftrightarrow> a \<and> (\<forall>n \<in> set xs. p n)"
  by (induction xs arbitrary: a) auto

text \<open>The node the loop builds has an entry for every byte of either node.\<close>

definition entry_at :: "('c, 'v) byte_node \<Rightarrow> nat \<Rightarrow> ('c, 'v) cofree" where
  "entry_at bn n = the (bn_get bn (to_u8 n))"

definition joined_entry ::
  "(('v node, 'v) cofree \<Rightarrow> ('v node, 'v) cofree \<Rightarrow> ('v node, 'v) cofree) \<Rightarrow> 'v bnode \<Rightarrow> 'v bnode \<Rightarrow> nat \<Rightarrow> ('v node, 'v) cofree" where
  "joined_entry h self other n =
     (if mbit (bn_mask self) n then if mbit (bn_mask other) n then h (entry_at self n) (entry_at other n) else entry_at self n
      else entry_at other n)"

lemma joined_node:
  fixes h :: "('v node, 'v) cofree \<Rightarrow> ('v node, 'v) cofree \<Rightarrow> ('v node, 'v) cofree"
  assumes "bn_ok self" "bn_ok other"
  defines "M \<equiv> mask_or (bn_mask self) (bn_mask other)"
  defines "new \<equiv> BN M (map (joined_entry h self other) (bits M))"
  shows "bn_ok new"
    and "bn_get new b = (case (bn_get self b, bn_get other b) of
        (Some lv, Some rv) \<Rightarrow> Some (h lv rv) | (Some lv, None) \<Rightarrow> Some lv | (None, r) \<Rightarrow> r)"
proof -
  have l: "shared_loop (\<lambda>n. Some (joined_entry h self other n)) M (bits M) M (map (joined_entry h self other) (bits M))"
    by (auto simp: shared_loop_def map_filter_def comp_def)
  from shared_loop_node(1)[OF l] show "bn_ok new" by (simp add: new_def)
  have m: "bn_get self b \<noteq> None \<longleftrightarrow> mbit (bn_mask self) (unat b)" "bn_get other b \<noteq> None \<longleftrightarrow> mbit (bn_mask other) (unat b)"
    using bn_has_mbit assms(1,2) by blast+
  have "mbit M (unat b) \<longleftrightarrow> mbit (bn_mask self) (unat b) \<or> mbit (bn_mask other) (unat b)" by (simp add: M_def mbit_or)
  then show "bn_get new b = (case (bn_get self b, bn_get other b) of
        (Some lv, Some rv) \<Rightarrow> Some (h lv rv) | (Some lv, None) \<Rightarrow> Some lv | (None, r) \<Rightarrow> r)"
    using shared_loop_node(2)[OF l, of b] m
    by (cases "bn_get self b"; cases "bn_get other b") (auto simp: new_def joined_entry_def entry_at_def)
qed

lemma pjoin_test:
  assumes "mbit M n"
  shows "push_bit (n mod 64) 1 AND word_at m' (n div 64) \<noteq> 0 \<longleftrightarrow> mbit m' n"
proof -
  have "(n div 64, n mod 64) \<in> set (mask_items M)"
    unfolding mask_items_split using assms mbit_less[of M n] by (auto simp: bits_def)
  from mask_items_bit[OF this, of m'] show ?thesis by simp
qed

lemma entry_at_values: "bn_ok bn \<Longrightarrow> mbit (bn_mask bn) n \<Longrightarrow> bn_values bn ! rank (bn_mask bn) n = entry_at bn n"
  by (simp add: entry_at_def entry_at_rank)

lemma joint_bytes:
  assumes "\<And>b. joint J (entry_den x b) (entry_den y b) (entry_den z b)"
  shows "joint J (bn_den den x) (bn_den den y) (bn_den den z)"
  unfolding joint_def
proof
  fix q show "join_opt J (bn_den den x q) (bn_den den y q) (bn_den den z q)"
  proof (cases q)
    case (Cons b r)
    then show ?thesis using assms[of b] unfolding joint_def by simp
  qed (simp add: bn_den_def)
qed

definition taken :: "('c, 'v) cofree \<Rightarrow> ('c, 'v) cofree \<Rightarrow> ('c, 'v) cofree algebraic_result \<Rightarrow> ('c, 'v) cofree" where
  "taken lv rv r =
     (case r of RNone \<Rightarrow> CoFree None None | Identity m \<Rightarrow> if 0 < m AND SELF_IDENT then lv else rv | Element jv \<Rightarrow> jv)"

definition keeps :: "u64 \<Rightarrow> 'r algebraic_result \<Rightarrow> bool" where
  "keeps ident r = (case r of RNone \<Rightarrow> True | Identity m \<Rightarrow> m AND ident \<noteq> 0 | Element e \<Rightarrow> False)"

lemma bn_pjoin_loop:
  fixes self other :: "'v bnode"
  assumes ok: "bn_ok self" "bn_ok other"
  defines "M \<equiv> mask_or (bn_mask self) (bn_mask other)"
  shows "fold (pjoin_bit cfj self other) (mask_items M) ((i0, c0), 0, 0, []) =
    ((i0 \<and> (\<forall>n \<in> set (bits M). mbit (bn_mask self) n \<and> (mbit (bn_mask other) n \<longrightarrow> keeps SELF_IDENT (cfj (entry_at self n) (entry_at other n)))),
      c0 \<and> (\<forall>n \<in> set (bits M). mbit (bn_mask other) n \<and> (mbit (bn_mask self) n \<longrightarrow> keeps COUNTER_IDENT (cfj (entry_at self n) (entry_at other n))))),
     rank (bn_mask self) 256, rank (bn_mask other) 256,
     map (joined_entry (\<lambda>lv rv. taken lv rv (cfj lv rv)) self other) (bits M))"
proof -
  let ?p = "\<lambda>n. mbit (bn_mask self) n \<and> (mbit (bn_mask other) n \<longrightarrow> keeps SELF_IDENT (cfj (entry_at self n) (entry_at other n)))"
  let ?q = "\<lambda>n. mbit (bn_mask other) n \<and> (mbit (bn_mask self) n \<longrightarrow> keeps COUNTER_IDENT (cfj (entry_at self n) (entry_at other n)))"
  have step: "pjoin_bit cfj self other (n div 64, n mod 64) (acc, rank (bn_mask self) n, rank (bn_mask other) n, v) =
      ((\<lambda>(a, b). (a \<and> ?p n, b \<and> ?q n)) acc, rank (bn_mask self) (Suc n), rank (bn_mask other) (Suc n),
       v @ [joined_entry (\<lambda>lv rv. taken lv rv (cfj lv rv)) self other n])" if n: "mbit M n" for n acc v
  proof -
    obtain a b where acc: "acc = (a, b)" by (cases acc)
    have m: "mbit (bn_mask self) n \<or> mbit (bn_mask other) n" using n by (simp add: M_def mbit_or)
    note t = pjoin_test[OF n, unfolded push_bit_of_1]
    show ?thesis
      using m entry_at_values[OF ok(1), of n] entry_at_values[OF ok(2), of n]
      by (cases "mbit (bn_mask self) n"; cases "mbit (bn_mask other) n"; cases "cfj (entry_at self n) (entry_at other n)")
        (simp_all add: pjoin_bit_def t acc Let_def mbit_and rank_Suc joined_entry_def taken_def keeps_def)
  qed
  have "fold (pjoin_bit cfj self other) (mask_items M) ((i0, c0), 0, 0, []) =
      (fold (\<lambda>n (a, b). (a \<and> ?p n, b \<and> ?q n)) (bits M) (i0, c0), rank (bn_mask self) 256, rank (bn_mask other) 256,
       map (joined_entry (\<lambda>lv rv. taken lv rv (cfj lv rv)) self other) (bits M))"
    by (rule counted_loop[OF step]) (simp_all add: M_def mbit_or)
  then show ?thesis by (simp only: fold_conj2)
qed

lemma join_into_loop:
  fixes self other :: "'v bnode"
  assumes ok: "bn_ok self" "bn_ok other"
  defines "M \<equiv> mask_or (bn_mask self) (bn_mask other)"
  shows "fold (join_into_bit cfji self other) (mask_items M) (i0, 0, 0, []) =
    (i0 \<and> (\<forall>n \<in> set (bits M). mbit (bn_mask self) n \<and> (mbit (bn_mask other) n \<longrightarrow> fst (cfji (entry_at self n) (entry_at other n)) \<noteq> SElement)),
     rank (bn_mask self) 256, rank (bn_mask other) 256, map (joined_entry (\<lambda>lv rv. snd (cfji lv rv)) self other) (bits M))"
proof -
  let ?p = "\<lambda>n. mbit (bn_mask self) n \<and> (mbit (bn_mask other) n \<longrightarrow> fst (cfji (entry_at self n) (entry_at other n)) \<noteq> SElement)"
  have step: "join_into_bit cfji self other (n div 64, n mod 64) (acc, rank (bn_mask self) n, rank (bn_mask other) n, v) =
      (acc \<and> ?p n, rank (bn_mask self) (Suc n), rank (bn_mask other) (Suc n),
       v @ [joined_entry (\<lambda>lv rv. snd (cfji lv rv)) self other n])" if n: "mbit M n" for n acc v
  proof -
    have m: "mbit (bn_mask self) n \<or> mbit (bn_mask other) n" using n by (simp add: M_def mbit_or)
    note t = pjoin_test[OF n, unfolded push_bit_of_1]
    show ?thesis
      using m entry_at_values[OF ok(1), of n] entry_at_values[OF ok(2), of n]
      by (cases "mbit (bn_mask self) n"; cases "mbit (bn_mask other) n"; cases "cfji (entry_at self n) (entry_at other n)")
        (simp_all add: join_into_bit_def t Let_def mbit_and rank_Suc joined_entry_def)
  qed
  have "fold (join_into_bit cfji self other) (mask_items M) (i0, 0, 0, []) =
      (fold (\<lambda>n a. a \<and> ?p n) (bits M) i0, rank (bn_mask self) 256, rank (bn_mask other) 256,
       map (joined_entry (\<lambda>lv rv. snd (cfji lv rv)) self other) (bits M))"
    by (rule counted_loop[OF step]) (simp_all add: M_def mbit_or)
  then show ?thesis by (simp only: fold_conj)
qed

lemma joined_entries_den:
  assumes "\<And>b lv rv. bn_get self b = Some lv \<Longrightarrow> bn_get other b = Some rv \<Longrightarrow> joint J (cf_den den lv) (cf_den den rv) (cf_den den (h lv rv))"
    and "\<And>b. bn_get new b = (case (bn_get self b, bn_get other b) of
        (Some lv, Some rv) \<Rightarrow> Some (h lv rv) | (Some lv, None) \<Rightarrow> Some lv | (None, r) \<Rightarrow> r)"
  shows "joint J (bn_den den self) (bn_den den other) (bn_den den new)"
proof (rule joint_bytes)
  fix b show "joint J (entry_den self b) (entry_den other b) (entry_den new b)"
    using assms(1)[of b] assms(2)[of b]
    by (cases "bn_get self b"; cases "bn_get other b") (simp_all add: joint_def entry_den_def)
qed

text \<open>The same facts for both loops.\<close>

lemma joined_node_full:
  fixes h :: "('v node, 'v) cofree \<Rightarrow> ('v node, 'v) cofree \<Rightarrow> ('v node, 'v) cofree"
  assumes f: "full (ByteN self)" "full (ByteN other)"
    and t: "\<And>b lv rv. bn_get self b = Some lv \<Longrightarrow> bn_get other b = Some rv \<Longrightarrow>
      live_cf (h lv rv) \<and> joint J (cf_den den lv) (cf_den den rv) (cf_den den (h lv rv))"
  defines "M \<equiv> mask_or (bn_mask self) (bn_mask other)"
  defines "new \<equiv> BN M (map (joined_entry h self other) (bits M))"
  shows "full (ByteN new)" "joint J (bn_den den self) (bn_den den other) (bn_den den new)"
    and "bits M \<noteq> [] \<Longrightarrow> live (ByteN new)"
    and "bits M = [] \<Longrightarrow> node_is_empty (ByteN self) \<and> node_is_empty (ByteN other)"
proof -
  have ok: "bn_ok self" "bn_ok other" and live: "bn_get self b = Some cf \<Longrightarrow> live_cf cf" "bn_get other b = Some cf \<Longrightarrow> live_cf cf" for b cf
    using f by (auto simp: full_simps)
  note new = joined_node[OF ok, of h, folded M_def, folded new_def]
  show full: "full (ByteN new)"
    unfolding full_simps using new t live by (auto split: option.splits)
  show "joint J (bn_den den self) (bn_den den other) (bn_den den new)"
    by (rule joined_entries_den[OF _ new(2)]) (use t in blast)
  show "live (ByteN new)" if "bits M \<noteq> []"
  proof -
    obtain n where "n \<in> set (bits M)" using \<open>bits M \<noteq> []\<close> by (cases "bits M") auto
    then have "mbit M n" by (simp add: set_bits)
    then have "mbit (bn_mask new) (unat (to_u8 n))" using mbit_less[of M n] by (simp add: new_def)
    then have "\<exists>b. bn_get new b \<noteq> None" using bn_has_mbit[OF new(1)] by blast
    then show ?thesis using full by (simp add: live_ByteN)
  qed
  show "node_is_empty (ByteN self) \<and> node_is_empty (ByteN other)" if "bits M = []"
  proof -
    have "\<not> mbit M n" for n using that set_bits[of M] by auto
    then have "\<not> mbit (bn_mask self) (unat b) \<and> \<not> mbit (bn_mask other) (unat b)" for b :: u8 by (simp add: M_def mbit_or)
    then have "(\<forall>b. bn_get self b = None) \<and> (\<forall>b. bn_get other b = None)" using bn_has_mbit[OF ok(1)] bn_has_mbit[OF ok(2)] by blast
    then show ?thesis using bn_empty_iff[OF ok(1)] bn_empty_iff[OF ok(2)] by simp
  qed
qed

lemma entry_at_get:
  assumes "bn_ok bn"
  shows "bn_get bn b = Some cf \<Longrightarrow> mbit (bn_mask bn) (unat b) \<and> entry_at bn (unat b) = cf"
    and "bn_get bn b = None \<Longrightarrow> \<not> mbit (bn_mask bn) (unat b)"
  using bn_has_mbit[OF assms, of b] by (auto simp: entry_at_def)

text \<open>A condition on the bits of the joined mask, read off the entries; \<open>self\<close> has them all.\<close>

lemma kept_entries:
  assumes ok: "bn_ok self" "bn_ok other" and M: "\<And>n. mbit M n \<longleftrightarrow> mbit (bn_mask self) n \<or> mbit (bn_mask other) n"
    and i: "\<forall>n \<in> set (bits M). mbit (bn_mask self) n \<and> (mbit (bn_mask other) n \<longrightarrow> K (entry_at self n) (entry_at other n))"
  shows "bn_get other b = Some rv \<Longrightarrow> \<exists>lv. bn_get self b = Some lv \<and> K lv rv"
proof -
  assume b: "bn_get other b = Some rv"
  have o: "mbit (bn_mask other) (unat b)" "entry_at other (unat b) = rv" using entry_at_get(1)[OF ok(2) b] by auto
  then have "mbit (bn_mask self) (unat b)" "K (entry_at self (unat b)) rv" using i M by (auto simp: set_bits)
  moreover obtain lv where "bn_get self b = Some lv" using entry_at_get(2)[OF ok(1), of b] calculation(1) by auto
  ultimately show ?thesis using entry_at_get(1)[OF ok(1)] by auto
qed

context join_impl
begin

lemma bn_pjoin_sound:
  assumes f: "full (ByteN self)" "full (ByteN other)"
    and cfj: "\<And>b lv rv. bn_get self b = Some lv \<Longrightarrow> bn_get other b = Some rv \<Longrightarrow> cf_join lv rv (cfj lv rv)"
  shows "node_join J (ByteN self) (ByteN other) (Ring.map_result ByteN (bn_pjoin cfj self other))"
proof -
  have ok: "bn_ok self" "bn_ok other" and live: "bn_get self b = Some cf \<Longrightarrow> live_cf cf" "bn_get other b = Some cf \<Longrightarrow> live_cf cf" for b cf
    using f by (auto simp: full_simps)
  let ?h = "\<lambda>lv rv. taken lv rv (cfj lv rv)"
  define M where "M = mask_or (bn_mask self) (bn_mask other)"
  define new where "new = BN M (map (joined_entry ?h self other) (bits M))"
  have t: "live_cf (?h lv rv) \<and> joint J (cf_den den lv) (cf_den den rv) (cf_den den (?h lv rv))"
    if "bn_get self b = Some lv" "bn_get other b = Some rv" for b lv rv
    using cfj[OF that] live that by (cases "cfj lv rv") (auto simp: cf_join_def taken_def)
  note new = joined_node_full[where h = ?h and J = J, OF f, folded M_def, folded new_def]
  have new: "joint J (bn_den den self) (bn_den den other) (bn_den den new)" "bits M \<noteq> [] \<Longrightarrow> live (ByteN new)"
    "bits M = [] \<Longrightarrow> node_is_empty (ByteN self) \<and> node_is_empty (ByteN other)"
    using t by (intro new; blast)+
  have dens: "den (ByteN x) = bn_den den x" for x :: "'v bnode" by (simp add: fun_eq_iff)
  have M: "mbit M n \<longleftrightarrow> mbit (bn_mask self) n \<or> mbit (bn_mask other) n" for n by (simp add: M_def mbit_or)
  let ?i = "\<forall>n \<in> set (bits M). mbit (bn_mask self) n \<and> (mbit (bn_mask other) n \<longrightarrow> keeps SELF_IDENT (cfj (entry_at self n) (entry_at other n)))"
  let ?c = "\<forall>n \<in> set (bits M). mbit (bn_mask other) n \<and> (mbit (bn_mask self) n \<longrightarrow> keeps COUNTER_IDENT (cfj (entry_at self n) (entry_at other n)))"
  have left: "joint J (bn_den den self) (bn_den den other) (bn_den den self)" if i: ?i
  proof (rule joint_bytes)
    fix b show "joint J (entry_den self b) (entry_den other b) (entry_den self b)"
    proof (cases "bn_get other b")
      case (Some rv)
      obtain lv where g: "bn_get self b = Some lv" "keeps SELF_IDENT (cfj lv rv)" using kept_entries[OF ok M i Some] by blast
      then have "joint J (cf_den den lv) (cf_den den rv) (cf_den den lv)"
        using cfj[OF g(1) Some] by (cases "cfj lv rv") (auto simp: keeps_def cf_join_def word_neq_0_conv)
      then show ?thesis using g Some by (simp add: joint_def entry_den_def)
    qed (simp add: joint_def entry_den_def)
  qed
  have right: "joint J (bn_den den self) (bn_den den other) (bn_den den other)" if c: ?c
  proof (rule joint_bytes)
    fix b show "joint J (entry_den self b) (entry_den other b) (entry_den other b)"
    proof (cases "bn_get self b")
      case (Some lv)
      have "\<exists>rv. bn_get other b = Some rv \<and> keeps COUNTER_IDENT (cfj lv rv)"
        by (rule kept_entries[where K = "\<lambda>rv lv. keeps COUNTER_IDENT (cfj lv rv)", OF ok(2,1) _ c Some]) (use M in blast)
      then obtain rv where g: "bn_get other b = Some rv" "keeps COUNTER_IDENT (cfj lv rv)" by blast
      then have "joint J (cf_den den lv) (cf_den den rv) (cf_den den rv)"
        using cfj[OF Some g(1)] by (cases "cfj lv rv") (auto simp: keeps_def cf_join_def word_neq_0_conv)
      then show ?thesis using g Some by (simp add: joint_def entry_den_def)
    qed (simp add: joint_def entry_den_def)
  qed
  define I where "I \<longleftrightarrow> bn_mask self = M \<and> ?i"
  define C where "C \<longleftrightarrow> bn_mask other = M \<and> ?c"
  have res: "bn_pjoin cfj self other =
      (if bits M = [] then RNone
       else if I \<or> C then Identity ((if I then SELF_IDENT else 0) OR (if C then COUNTER_IDENT else 0))
       else Element new)"
    unfolding bn_pjoin_def Let_def M_def[symmetric] bn_pjoin_loop[OF ok, of cfj, folded M_def] prod.case new_def I_def C_def by simp
  have IC: "I \<Longrightarrow> joint J (bn_den den self) (bn_den den other) (bn_den den self)"
    "C \<Longrightarrow> joint J (bn_den den self) (bn_den den other) (bn_den den other)" using left right unfolding I_def C_def by blast+
  show ?thesis
  proof (cases "bits M = []")
    case True
    then show ?thesis using new(3)[OF True] by (simp add: res node_join_def)
  next
    case False
    then show ?thesis using IC new(1) new(2)[OF False] unfolding res node_join_def
      by (cases I; cases C) (simp_all add: dens bit_or_iff del: den_simps)
  qed
qed

lemma bn_join_into_joined:
  assumes f: "full (ByteN self)" "full (ByteN other)"
    and cfj: "\<And>b lv rv. bn_get self b = Some lv \<Longrightarrow> bn_get other b = Some rv \<Longrightarrow>
      live_cf (snd (cfji lv rv)) \<and> joint J (cf_den den lv) (cf_den den rv) (cf_den den (snd (cfji lv rv))) \<and> fst (cfji lv rv) \<noteq> SNone \<and>
      (fst (cfji lv rv) = SIdentity \<longrightarrow> cf_den den (snd (cfji lv rv)) = cf_den den lv)"
    and r: "bn_join_into cfji self other = (st, n)"
  shows "node_joined J (ByteN self) (ByteN other) (st, ByteN n)"
proof -
  have ok: "bn_ok self" "bn_ok other" using f by (auto simp: full_simps)
  let ?h = "\<lambda>lv rv. snd (cfji lv rv)"
  define M where "M = mask_or (bn_mask self) (bn_mask other)"
  define new where "new = BN M (map (joined_entry ?h self other) (bits M))"
  note new = joined_node_full[where h = ?h and J = J, OF f, folded M_def, folded new_def]
  have new: "full (ByteN new)" "joint J (bn_den den self) (bn_den den other) (bn_den den new)"
    "bits M \<noteq> [] \<Longrightarrow> live (ByteN new)" "bits M = [] \<Longrightarrow> node_is_empty (ByteN self) \<and> node_is_empty (ByteN other)"
    using cfj by (intro new; blast)+
  have dens: "den (ByteN x) = bn_den den x" for x :: "'v bnode" by (simp add: fun_eq_iff)
  have M: "mbit M n \<longleftrightarrow> mbit (bn_mask self) n \<or> mbit (bn_mask other) n" for n by (simp add: M_def mbit_or)
  let ?i = "\<forall>n \<in> set (bits M). mbit (bn_mask self) n \<and> (mbit (bn_mask other) n \<longrightarrow> fst (cfji (entry_at self n) (entry_at other n)) \<noteq> SElement)"
  note get = joined_node(2)[OF ok, of ?h, folded M_def, folded new_def]
  have left: "bn_den den new = bn_den den self" if i: ?i
  proof
    fix q
    have e: "entry_den new b r = entry_den self b r" for b r
    proof (cases "bn_get other b")
      case (Some rv)
      obtain lv where g: "bn_get self b = Some lv" "fst (cfji lv rv) \<noteq> SElement"
        using kept_entries[where K = "\<lambda>lv rv. fst (cfji lv rv) \<noteq> SElement", OF ok M i Some] by blast
      then have "fst (cfji lv rv) = SIdentity" using cfj[OF g(1) Some] by (cases "fst (cfji lv rv)") auto
      then show ?thesis using cfj[OF g(1) Some] get[of b] g(1) Some by (simp add: entry_den_def)
    qed (use get[of b] in \<open>simp add: entry_den_def split: option.split\<close>)
    show "bn_den den new q = bn_den den self q"     proof (cases q)
      case (Cons b r)
      then show ?thesis by (simp add: e)
    qed (simp add: bn_den_def)
  qed
  have res: "st = (if bits M = [] then SNone else if bn_mask self = M \<and> ?i then SIdentity else SElement)" "n = new"
    using r unfolding bn_join_into_def Let_def M_def[symmetric] join_into_loop[OF ok, of cfji, folded M_def] prod.case new_def by auto
  show ?thesis
    using new left unfolding res node_joined_def prod.case unfolding dens by (auto simp: live_def simp del: node_is_empty.simps den_simps)
qed

end

end
