(* ===== verification/Join_Laws.thy ===== *)
theory Join_Laws
  imports Join_Byte
begin

text \<open>
  What the join promises, from the nodes (\<open>pjoin_dyn\<close> and \<open>join_into_dyn\<close>, by induction on the sizes of
  both nodes) up to \<open>PathMap\<close>. The contract \<open>join_impl\<close> of the value type is interpreted on the crate's
  implementations for \<open>()\<close>, \<open>bool\<close> and the integers. The laws need tries without dangling paths
  (\<open>full_map\<close>); the last property shows that with dangling paths \<open>join\<close> can drop every value.
\<close>

unbundle bit_operations_syntax

subsection \<open>Nodes\<close>

context join_impl
begin

lemma odrc_good:
  assumes "ptr_eq_ok peq" "good_pjoin J N P"
  shows "good_pjoin J N (odrc_pjoin peq P)"
  unfolding good_pjoin_def
proof (intro allI impI)
  fix a b :: "'v node" assume "full a" "full b" "size a + size b < N"
  then show "node_join J a b (odrc_pjoin peq P a b)"
    using assms(2) odrc_pjoin_sound[where P = P and a = a and b = b, OF assms(1)] by (simp add: good_pjoin_def)
qed

lemma node_joined_comm:
  "node_joined J a b (st, n) \<Longrightarrow> node_joined J b a (SElement, n)"
  using joint_comm by (auto simp: node_joined_def)

lemma joint_nothing: "\<forall>q. den b q = None \<Longrightarrow> joint J (den a) (den b) (den a)" "\<forall>q. den a q = None \<Longrightarrow> joint J (den a) (den b) (den b)"
  by (simp_all add: joint_def)

lemma node_joined_keep: "full a \<Longrightarrow> full b \<Longrightarrow> node_is_empty b \<Longrightarrow> node_joined J a b (SIdentity, a)"
  using empty_node_den[OF full_wf] joint_nothing(1)[of b a] by (auto simp: node_joined_def)

text \<open>A list node's entries and a byte node's children are smaller than the nodes.\<close>

lemma byte_list_size:
  assumes "bn_rec bn b = Some c" "e \<in> slots_of ln"
  shows "size c + entry_size e < size (ByteN bn) + size (ListN ln)"
proof -
  obtain cf where "bn_get bn b = Some cf" "cf_rec cf = Some c" using assms(1) by (auto simp: bn_rec_def bind_eq_Some_conv)
  then have "size c < size (ByteN bn)" using node_children_size[OF entry_child] by blast
  then show ?thesis using entry_size_slot[of "fst e" "snd e" ln] assms(2) by simp
qed

lemma byte_byte_size:
  assumes "bn_get bn b = Some cf" "cf_rec cf = Some c" "bn_get bn' b = Some cf'" "cf_rec cf' = Some c'"
  shows "size c + size c' < size (ByteN bn) + size (ByteN bn')"
  using node_children_size[OF entry_child[OF assms(1,2)]] node_children_size[OF entry_child[OF assms(3,4)]] by simp

lemma merge_byte_list:
  assumes f: "full (ByteN bn)" "full (ListN ln)" and JI: "good_join_into J (size (ByteN bn) + size (ListN ln)) JI"
    and r: "merge_from_list_node JI vji bn ln = (st, bn')"
  shows "node_joined J (ByteN bn) (ListN ln) (st, ByteN bn')" and "st = SElement \<Longrightarrow> live (ByteN bn')"
  by (rule merge_from_list_node_joined[OF f JI _ r], erule (1) byte_list_size)+

lemma pjoin_step_sound:
  assumes S: "slice_utils_ok S" and peq: "ptr_eq_ok peq" and f: "full a" "full b"
    and P: "good_pjoin J (size a + size b) P" and JI: "good_join_into J (size a + size b) JI"
  shows "node_join J a b (pjoin_step peq vj vji S P JI a b)"
proof (cases a)
  case EmptyN
  then show ?thesis using f(2) empty_node_den[OF full_wf[OF f(2)]] by (simp add: node_join_def joint_def)
next
  case (ListN ln)
  show ?thesis
  proof (cases b)
    case EmptyN
    then show ?thesis by (simp add: ListN node_join_def joint_def)
  next
    case b: (ListN lb)
    have "node_join J a b (merged_node (merge_list_nodes S (odrc_pjoin peq P) JI vj ln lb))"
      using merge_list_nodes_sound(1)[OF S f[unfolded ListN b] odrc_good[OF peq P[unfolded ListN b]], of JI] unfolding ListN b .
    moreover have "pjoin_step peq vj vji S P JI a b = merged_node (merge_list_nodes S (odrc_pjoin peq P) JI vj ln lb)"
      by (simp add: ListN b split: result.split)
    ultimately show ?thesis by simp
  next
    case b: (ByteN bn)
    obtain st bn' where r: "merge_from_list_node JI vji bn ln = (st, bn')" by fastforce
    note m = merge_byte_list[OF f(2)[unfolded b] f(1)[unfolded ListN] JI[unfolded b ListN add.commute[of "size (ListN _)"]] r,
        folded b ListN]
    have "joint J (den a) (den b) (den (ByteN bn'))" using m(1) joint_comm by (simp add: node_joined_def)
    then show ?thesis using m f by (cases st) (auto simp: b ListN r node_joined_def node_join_def)
  qed
next
  case (ByteN bn)
  show ?thesis
  proof (cases b)
    case EmptyN
    then show ?thesis by (simp add: ByteN node_join_def joint_def)
  next
    case b: (ListN ln)
    obtain st bn' where r: "merge_from_list_node JI vji bn ln = (st, bn')" by fastforce
    note m = merge_byte_list[OF f(1)[unfolded ByteN] f(2)[unfolded b] JI[unfolded ByteN b] r, folded b ByteN]
    then show ?thesis using f by (cases st) (auto simp: b ByteN r node_joined_def node_join_def)
  next
    case b: (ByteN bn')
    have "node_join J (ByteN bn) (ByteN bn') (Ring.map_result ByteN (bn_pjoin (cf_pjoin peq P vj) bn bn'))"
    proof (rule bn_pjoin_sound)
      fix k lv rv assume g: "bn_get bn k = Some lv" "bn_get bn' k = Some rv"
      have l: "live_cf lv" "live_cf rv" using f g by (auto simp: ByteN b full_simps)
      show "cf_join lv rv (cf_pjoin peq P vj lv rv)"
      proof (rule cf_pjoin_sound[OF peq l])
        fix c d assume "cf_rec lv = Some c" "cf_rec rv = Some d"
        then show "node_join J c d (P c d)"
          using l byte_byte_size[OF g(1) _ g(2)] by (intro good_pjoinD[OF P]) (auto simp: live_cf_def ByteN b)
      qed
    qed (use f in \<open>simp_all add: ByteN b\<close>)
    then show ?thesis by (simp add: ByteN b)
  qed
qed

lemma join_into_step_joined:
  assumes S: "slice_utils_ok S" and peq: "ptr_eq_ok peq" and f: "full a" "full b"
    and P: "good_pjoin J (size a + size b) P" and JI: "good_join_into J (size a + size b) JI"
  shows "node_joined J a b (settled (join_into_step peq vj vji S P JI a b))"
proof (cases a)
  case EmptyN
  show ?thesis
  proof (cases "node_is_empty b")
    case True
    then show ?thesis using f empty_node_den[OF full_wf[OF f(2)] True] by (simp add: EmptyN settled_def node_joined_def joint_def)
  next
    case False
    then show ?thesis using f by (simp add: EmptyN settled_def node_joined_def joint_def)
  qed
next
  case (ListN ln)
  show ?thesis
  proof (cases b)
    case EmptyN
    then show ?thesis using node_joined_keep[OF f] by (simp add: ListN settled_def)
  next
    case b: (ListN lb)
    show ?thesis
      using merge_into_list_nodes_joined[OF S f[unfolded ListN b] odrc_good[OF peq P[unfolded ListN b]], of JI] unfolding ListN b by simp
  next
    case b: (ByteN bn)
    obtain st bn' where r: "merge_from_list_node JI vji bn ln = (st, bn')" by fastforce
    have "node_joined J b a (st, ByteN bn')"
      using merge_byte_list(1)[OF f(2)[unfolded b] f(1)[unfolded ListN] JI[unfolded b ListN add.commute[of "size (ListN _)"]] r]
      by (simp only: b ListN)
    from node_joined_comm[OF this] show ?thesis by (simp add: b ListN r settled_def)
  qed
next
  case (ByteN bn)
  show ?thesis
  proof (cases "node_is_empty b")
    case True
    then show ?thesis using node_joined_keep[OF f True] by (simp add: ByteN settled_def)
  next
    case False
    show ?thesis
    proof (cases b)
      case EmptyN
      then show ?thesis using False by simp
    next
      case b: (ListN ln)
      obtain st bn' where r: "merge_from_list_node JI vji bn ln = (st, bn')" by fastforce
      have "node_joined J a b (st, ByteN bn')"
        using merge_byte_list(1)[OF f(1)[unfolded ByteN] f(2)[unfolded b] JI[unfolded ByteN b] r] by (simp only: b ByteN)
      then show ?thesis using False by (simp add: b ByteN r settled_def)
    next
      case b: (ByteN bn')
      obtain st n where r: "bn_join_into (cf_join_into JI vji) bn bn' = (st, n)" by fastforce
      have "node_joined J (ByteN bn) (ByteN bn') (st, ByteN n)"
      proof (rule bn_join_into_joined[OF _ _ _ r])
        fix k lv rv assume g: "bn_get bn k = Some lv" "bn_get bn' k = Some rv"
        have l: "live_cf lv" "live_cf rv" using f g by (auto simp: ByteN b full_simps)
        obtain s' cf where c: "cf_join_into JI vji lv rv = (s', cf)" by fastforce
        show "live_cf (snd (cf_join_into JI vji lv rv)) \<and> joint J (cf_den den lv) (cf_den den rv) (cf_den den (snd (cf_join_into JI vji lv rv))) \<and>
            fst (cf_join_into JI vji lv rv) \<noteq> SNone \<and>
            (fst (cf_join_into JI vji lv rv) = SIdentity \<longrightarrow> cf_den den (snd (cf_join_into JI vji lv rv)) = cf_den den lv)"
          using cf_join_into_joined[OF l JI _ c] byte_byte_size[OF g(1) _ g(2)] by (simp add: c ByteN b)
      qed (use f in \<open>simp_all add: ByteN b\<close>)
      then show ?thesis using False by (simp add: b ByteN r settled_def)
    qed
  qed
qed

lemma join_dyn_sound:
  assumes S: "slice_utils_ok S" and peq: "ptr_eq_ok peq"
  shows "full a \<Longrightarrow> full b \<Longrightarrow>
    node_join J a b (pjoin_dyn peq vj vji S a b) \<and> node_joined J a b (settled (join_into_dyn peq vj vji S a b))"
proof (induction "size a + size b" arbitrary: a b rule: less_induct)
  case less
  let ?N = "size a + size b"
  let ?P = "\<lambda>x y. if size x + size y < ?N then pjoin_dyn peq vj vji S x y else RNone"
  let ?JI = "\<lambda>x y. if size x + size y < ?N then join_into_dyn peq vj vji S x y else (SNone, Ok x)"
  have P: "good_pjoin J ?N ?P" using less.hyps by (simp add: good_pjoin_def)
  have JI: "good_join_into J ?N ?JI" using less.hyps by (simp add: good_join_into_def live_full)
  have "pjoin_dyn peq vj vji S a b = odrc_pjoin peq (pjoin_step peq vj vji S ?P ?JI) a b"
    by (subst pjoin_dyn.simps) (simp add: odrc_pjoin_def)
  moreover have "join_into_dyn peq vj vji S a b = join_into_step peq vj vji S ?P ?JI a b" by (subst join_into_dyn.simps) simp
  ultimately show ?case
    using odrc_pjoin_sound[where P = "pjoin_step peq vj vji S ?P ?JI" and a = a and b = b,
        OF peq pjoin_step_sound[OF S peq less.prems P JI]]
      join_into_step_joined[OF S peq less.prems P JI] by simp
qed

end

subsection \<open>Maps\<close>

definition full_map :: "'v path_map \<Rightarrow> bool" where
  "full_map m \<longleftrightarrow> (\<forall>r. root m = Some r \<longrightarrow> full r \<and> r \<noteq> EmptyN)"

lemma full_map_wf: "full_map m \<Longrightarrow> wf_map m"
  by (simp add: full_map_def wf_map_def full_wf)

lemma full_map_new: "full_map new_map" "map_den new_map = Map.empty"
  by (simp add: full_map_def new_map_def) (use wf_map_new in blast)

lemma full_map_root: "full_map m \<Longrightarrow> root m = Some r \<Longrightarrow> full r"
  by (simp add: full_map_def)

lemma full_new_list_node: "full (ListN new_list_node :: 'v node)"
  by (simp add: new_list_node_def full_simps)

context join_impl
begin

lemma joint_maps:
  "joint J (map_den a) (map_den b) (map_den c) \<longleftrightarrow>
     rec_joint (root a) (root b) (root c) \<and> join_opt J (root_val a) (root_val b) (root_val c)"
  by (auto simp: joint_def rec_joint_def map_den_rec)

lemma rec_joint_nothing: "(\<And>q. rec_den x q = None) \<Longrightarrow> rec_joint x y y" "(\<And>q. rec_den y q = None) \<Longrightarrow> rec_joint x y x"
  by (simp_all add: rec_joint_def)

definition map_joined :: "'v path_map \<Rightarrow> 'v path_map \<Rightarrow> 'v path_map algebraic_result \<Rightarrow> bool" where
  "map_joined a b r \<longleftrightarrow>
     sound (\<lambda>m. full_map m \<and> joint J (map_den a) (map_den b) (map_den m)) (map_den a = Map.empty \<and> map_den b = Map.empty)
       (joint J (map_den a) (map_den b) (map_den a)) (joint J (map_den a) (map_den b) (map_den b)) r"

lemma root_pjoin_field:
  assumes S: "slice_utils_ok S" and peq: "ptr_eq_ok peq" and f: "full_map m1" "full_map m2"
  shows "field_sound (\<lambda>n. \<forall>c. n = Some c \<longrightarrow> live c) (\<lambda>z. rec_joint (root m1) (root m2) (flatten_opt z)) (Some (root m1)) (Some (root m2))
      (root_pjoin peq vj vji S m1 m2)"
proof (cases "root m1"; cases "root m2")
  fix a b assume ab: "root m1 = Some a" "root m2 = Some b"
  have fab: "full a" "full b" using f ab by (auto simp: full_map_def)
  have j: "node_join J a b (odrc_pjoin peq (pjoin_dyn peq vj vji S) a b)"
    using join_dyn_sound[OF S peq fab] odrc_pjoin_sound[where P = "pjoin_dyn peq vj vji S" and a = a and b = b, OF peq] by blast
  have none: "rec_joint (Some a) (Some b) z" if "node_is_empty a" "node_is_empty b" "\<And>q. rec_den z q = None" for z
    using that empty_node_den[OF full_wf[OF fab(1)]] empty_node_den[OF full_wf[OF fab(2)]] by (simp add: rec_joint_def)
  show ?thesis
    using j rec_joint_nodes[of a b] none[of None] none[of "Some a"] none[of "Some b"] empty_node_den[OF full_wf[OF fab(1)]] empty_node_den[OF full_wf[OF fab(2)]]
    by (cases "odrc_pjoin peq (pjoin_dyn peq vj vji S) a b")
      (auto simp: root_pjoin_def ab field_sound_def node_join_def flatten_opt_def)
qed (simp_all add: root_pjoin_def field_sound_def rec_joint_idem flatten_opt_def)

lemma map_pjoin_sound:
  assumes S: "slice_utils_ok S" and peq: "ptr_eq_ok peq" and f: "full_map m1" "full_map m2"
  shows "map_joined m1 m2 (map_pjoin peq vj vji S m1 m2)"
proof -
  have V: "field_sound (\<lambda>_. True) (\<lambda>z. join_opt J (root_val m1) (root_val m2) (flatten_opt z)) (Some (root_val m1)) (Some (root_val m2))
      (option_pjoin vj (root_val m1) (root_val m2))"
    using vj_sound[of "the (root_val m1)" "the (root_val m2)"]
    by (cases "root_val m1"; cases "root_val m2"; cases "vj (the (root_val m1)) (the (root_val m2))") (auto simp: field_sound_def flatten_opt_def)
  have fields: "map_fields m1 m2 = (field_idents (Some (root m1)) (Some (root m2)), field_idents (Some (root_val m1)) (Some (root_val m2)))"
    by (simp add: map_fields_def field_idents_def fun_eq_iff)
  have el: "map_element = (\<lambda>r w. Element \<lparr>root = flatten_opt r, root_val = flatten_opt w\<rparr>)"
    by (simp add: map_element_def fun_eq_iff)
  note m = merge_fields_sound[OF root_pjoin_field[OF assms] V, of "\<lambda>r w. \<lparr>root = flatten_opt r, root_val = flatten_opt w\<rparr>"]
  have full: "full_map \<lparr>root = flatten_opt r, root_val = w\<rparr>"
    if "\<forall>n. r = Some n \<longrightarrow> (\<forall>c. n = Some c \<longrightarrow> live c) \<or> r = Some (root m1) \<or> r = Some (root m2)" for r w
  proof (cases "flatten_opt r")
    case (Some c)
    then have "r = Some (Some c)" by (auto simp: flatten_opt_def split: option.splits)
    then have "live c \<or> root m1 = Some c \<or> root m2 = Some c" using that by auto
    then have "full c \<and> c \<noteq> EmptyN" using f by (auto simp: full_map_def live_full)
    then show ?thesis by (simp add: full_map_def Some)
  qed (simp add: full_map_def)
  have none: "map_den m1 = Map.empty \<and> map_den m2 = Map.empty" if "joint J (map_den m1) (map_den m2) (map_den new_map)"
  proof -
    have "map_den m1 q = None \<and> map_den m2 q = None" for q
      using that[unfolded joint_def, rule_format, of q] by (cases "map_den m1 q"; cases "map_den m2 q") (simp_all add: full_map_new)
    then show ?thesis by auto
  qed
  have no_map: "joint J (map_den m1) (map_den m2) (map_den new_map)" if "rec_joint (root m1) (root m2) None" "join_opt J (root_val m1) (root_val m2) None"
    using that unfolding joint_maps by (simp add: new_map_def)
  define r where "r = map_pjoin peq vj vji S m1 m2"
  have m: "sound (\<lambda>e. \<exists>r w. e = \<lparr>root = flatten_opt r, root_val = flatten_opt w\<rparr> \<and> rec_joint (root m1) (root m2) (flatten_opt r) \<and>
        join_opt J (root_val m1) (root_val m2) (flatten_opt w) \<and> (\<forall>n. r = Some n \<longrightarrow> (\<forall>c. n = Some c \<longrightarrow> live c) \<or> r = Some (root m1) \<or> r = Some (root m2)))
      (rec_joint (root m1) (root m2) None \<and> join_opt J (root_val m1) (root_val m2) None)
      (joint J (map_den m1) (map_den m2) (map_den m1)) (joint J (map_den m1) (map_den m2) (map_den m2)) r"
    using m unfolding r_def map_pjoin_def fields fst_conv snd_conv el joint_maps by (simp add: flatten_opt_def[of None] flatten_opt_def[of "Some _"])
  show ?thesis
  proof (cases r)
    case RNone
    then have j: "rec_joint (root m1) (root m2) None" "join_opt J (root_val m1) (root_val m2) None" using m by simp_all
    have n: "joint J (map_den m1) (map_den m2) (map_den new_map)" using no_map[OF j] .
    have "map_den m1 = Map.empty \<and> map_den m2 = Map.empty" by (rule none[OF n])
    then show ?thesis using RNone by (simp add: map_joined_def r_def[symmetric])
  next
    case (Identity x)
    then show ?thesis using m by (simp add: map_joined_def r_def[symmetric])
  next
    case (Element e)
    then obtain r' w where e: "e = \<lparr>root = flatten_opt r', root_val = flatten_opt w\<rparr>" "rec_joint (root m1) (root m2) (flatten_opt r')"
      "join_opt J (root_val m1) (root_val m2) (flatten_opt w)" "\<forall>n. r' = Some n \<longrightarrow> (\<forall>c. n = Some c \<longrightarrow> live c) \<or> r' = Some (root m1) \<or> r' = Some (root m2)"
      using m by auto
    have "full_map e" unfolding e(1) by (rule full[OF e(4)])
    moreover have "joint J (map_den m1) (map_den m2) (map_den e)" unfolding joint_maps using e(1-3) by simp
    ultimately show ?thesis using Element by (simp add: map_joined_def r_def[symmetric])
  qed
qed

lemma map_join_sound:
  assumes S: "slice_utils_ok S" and peq: "ptr_eq_ok peq" and f: "full_map m1" "full_map m2"
  shows "full_map (map_join peq vj vji S m1 m2)" "joint J (map_den m1) (map_den m2) (map_den (map_join peq vj vji S m1 m2))"
proof -
  define r where "r = map_pjoin peq vj vji S m1 m2"
  have m: "map_joined m1 m2 r" unfolding r_def by (rule map_pjoin_sound[OF assms])
  have "full_map (result_into_map r m1 m2) \<and> joint J (map_den m1) (map_den m2) (map_den (result_into_map r m1 m2))"
  proof (cases r)
    case RNone
    then have "map_den m1 = Map.empty" "map_den m2 = Map.empty" using m by (auto simp: map_joined_def)
    then show ?thesis using RNone by (simp add: joint_def full_map_new)
  qed (use m f in \<open>auto simp: map_joined_def\<close>)
  then show "full_map (map_join peq vj vji S m1 m2)" "joint J (map_den m1) (map_den m2) (map_den (map_join peq vj vji S m1 m2))"
    by (simp_all add: map_join_def r_def)
qed

lemma map_join_into_sound:
  assumes S: "slice_utils_ok S" and peq: "ptr_eq_ok peq" and f: "full_map m1" "full_map m2"
    and r: "map_join_into peq vj vji S m1 m2 = (st, m)"
  shows "full_map m" "joint J (map_den m1) (map_den m2) (map_den m)" "st = SIdentity \<Longrightarrow> map_den m = map_den m1"
    and "st = SNone \<Longrightarrow> map_den m1 = Map.empty \<and> map_den m2 = Map.empty"
proof -
  obtain other where i: "into_root m2 = (other, root_val m2)" by (simp add: into_root_def)
  obtain rst root' where R: "(case other of
               Some other_root \<Rightarrow>
                 (let (st, result) = join_into_dyn peq vj vji S (get_or_init_root m1) other_root
                  in (st, Some (after_join result)))
             | None \<Rightarrow> (if map_is_empty m1 then SNone else SIdentity, root m1)) = (rst, root')" by fastforce
  obtain val' vst where V: "option_join_into vji (root_val m1) (root_val m2) = (val', vst)" by fastforce
  have res: "st = merge_status rst vst True True" "m = \<lparr>root = root', root_val = val'\<rparr>"
    using r R V by (simp_all add: map_join_into_def i split: prod.splits)
  have val: "join_opt J (root_val m1) (root_val m2) val' \<and> (vst = SIdentity \<longrightarrow> val' = root_val m1) \<and>
      (vst = SNone \<longrightarrow> root_val m1 = None \<and> root_val m2 = None)"
    using V vji_sound[of "the (root_val m1)" "the (root_val m2)"]
    by (cases "root_val m1"; cases "root_val m2"; cases "vji (the (root_val m1)) (the (root_val m2))") auto
  have rec: "rec_joint (root m1) (root m2) root' \<and> (\<forall>c. root' = Some c \<longrightarrow> full c \<and> c \<noteq> EmptyN) \<and>
      (rst = SIdentity \<longrightarrow> (\<forall>q. q \<noteq> [] \<longrightarrow> rec_den root' q = rec_den (root m1) q)) \<and>
      (rst = SNone \<longrightarrow> (\<forall>q. rec_den (root m1) q = None \<and> rec_den (root m2) q = None \<and> rec_den root' q = None))"
  proof (cases other)
    case None
    have z: "rec_den (root m2) q = None" for q
      using i None f(2) empty_node_den[OF full_wf[OF full_map_root[OF f(2)]]]
      by (cases "root m2") (auto simp: into_root_def split: if_splits)
    have "rec_den (root m1) q = None" if "map_is_empty m1" for q
      using that empty_node_den[OF full_wf[OF full_map_root[OF f(1)]]] by (cases "root m1") (auto simp: map_is_empty_def)
    then show ?thesis using R None z f(1) rec_joint_nothing(2)[of "root m2" "root m1"] by (auto simp: full_map_def split: if_splits)
  next
    case (Some n)
    then have n: "root m2 = Some n" "\<not> node_is_empty n" using i by (auto simp: into_root_def split: option.splits if_splits)
    let ?a = "get_or_init_root m1"
    have a: "full ?a" "den ?a q = rec_den (root m1) q" for q
      using f(1) full_new_list_node
      by (cases "root m1"; auto simp: get_or_init_root_def ensure_root_def full_map_def new_list_node_def)+
    obtain s' n' where o: "join_into_dyn peq vj vji S ?a n = (s', n')" by fastforce
    have "node_joined J ?a n (s', after_join n')"
      using join_dyn_sound[OF S peq a(1) full_map_root[OF f(2) n(1)]] by (simp add: o settled_def)
    then show ?thesis using R o n a unfolding Some node_joined_def by (auto simp: rec_joint_def joint_def)
  qed
  show "full_map m" using rec by (simp add: res full_map_def)
  show "joint J (map_den m1) (map_den m2) (map_den m)" using rec val by (simp add: joint_maps res)
  show "map_den m = map_den m1" if "st = SIdentity"
  proof
    fix q show "map_den m q = map_den m1 q"
      using rec val that unfolding res map_den_rec by (cases rst; cases vst) auto
  qed
  show "map_den m1 = Map.empty \<and> map_den m2 = Map.empty" if "st = SNone"
    using rec val that by (cases rst; cases vst) (auto simp: res map_den_rec fun_eq_iff)
qed

end

subsection \<open>The contract on the crate's value types\<close>

lemma default_join_into:
  assumes "\<And>a b. sound (J a b) False (J a b a) (J a b b) (pjoin a b)"
    and "join_into_default pjoin a b = (c, st)"
  shows "J a b c \<and> (st = SIdentity \<longrightarrow> c = a) \<and> st \<noteq> SNone"
  using assms(1)[of a b] assms(2) by (cases "pjoin a b") (auto simp: join_into_default_def split: if_splits)

interpretation unit_join: join_impl "\<lambda>_ _ _. True" unit_pjoin "join_into_default unit_pjoin"
proof
  show s: "sound (\<lambda>_. True) False True True (unit_pjoin a b)" for a b by (simp add: unit_pjoin_def bit_or_iff)
  show "True \<and> (st = SIdentity \<longrightarrow> c = a) \<and> st \<noteq> SNone" if "join_into_default unit_pjoin a b = (c, st)" for a b c st
    using default_join_into[OF s that] .
qed simp_all

interpretation bool_join: join_impl "\<lambda>a b c. c = (a \<or> b)" bool_pjoin "join_into_default bool_pjoin"
proof
  show s: "sound (\<lambda>c. c = (a \<or> b)) False (a = (a \<or> b)) (b = (a \<or> b)) (bool_pjoin a b)" for a b
    by (auto simp: bool_pjoin_def)
  show "c = (a \<or> b) \<and> (st = SIdentity \<longrightarrow> c = a) \<and> st \<noteq> SNone" if "join_into_default bool_pjoin a b = (c, st)" for a b c st
    using default_join_into[OF s that] .
qed auto

text \<open>The integers answer with the left argument; which argument is the left one depends on the nodes that
  meet, so the contract leaves it open.\<close>

interpretation int_join: join_impl "\<lambda>a b c. c = a \<or> c = b" "int_pjoin :: 'w::len word \<Rightarrow> 'w word \<Rightarrow> 'w word algebraic_result"
  "join_into_default int_pjoin"
proof
  show s: "sound (\<lambda>c. c = a \<or> c = b) False (a = a \<or> a = b) (b = a \<or> b = b) (int_pjoin a b)" for a b :: "'w word"
    by (auto simp: int_pjoin_def left_biased_pjoin_def bit_or_iff)
  show "(c = a \<or> c = b) \<and> (st = SIdentity \<longrightarrow> c = a) \<and> st \<noteq> SNone" if "join_into_default int_pjoin a b = (c, st)" for a b c :: "'w word" and st
    using default_join_into[OF s that] .
qed auto

subsection \<open>Properties\<close>

definition sample_a :: "bool path_map" where
  "sample_a = \<lparr>root = Some (ListN (LN (Some ([1, 2], Val False)) (Some ([3], Val True)))), root_val = None\<rparr>"

definition sample_b :: "bool path_map" where
  "sample_b = \<lparr>root = Some (ListN (LN (Some ([1, 2, 4], Val True)) (Some ([5], Val True)))), root_val = Some True\<rparr>"

lemma sample_full: "full_map sample_a" "full_map sample_b"
  by (auto simp: full_map_def sample_a_def sample_b_def full_simps wf_pair_def KEY_BYTES_CNT_def)

text \<open>C10: \<open>PathMap::join\<close> of two maps without dangling paths keeps them so and is, path by path, the join:
  a path only one of them has keeps its value, a path both have gets a join of the two values.\<close>

theorem map_join_correct:
  assumes "join_impl J vj vji" "slice_utils_ok S" "ptr_eq_ok peq" "full_map m1" "full_map m2"
  shows "full_map (map_join peq vj vji S m1 m2) \<and> joint J (val_at m1) (val_at m2) (val_at (map_join peq vj vji S m1 m2))"
  using join_impl.map_join_sound[OF assms] full_map_wf val_at_map_den assms(4,5) by metis

theorem map_join_correct_witness:
  "val_at (map_join (\<lambda>_ _. False) bool_pjoin (join_into_default bool_pjoin) std_slice_utils sample_a sample_b) [1, 2] = Some False \<and>
   val_at (map_join (\<lambda>_ _. False) bool_pjoin (join_into_default bool_pjoin) std_slice_utils sample_a sample_b) [1, 2, 4] = Some True"
proof -
  have "joint (\<lambda>a b c. c = (a \<or> b)) (val_at sample_a) (val_at sample_b)
      (val_at (map_join (\<lambda>_ _. False) bool_pjoin (join_into_default bool_pjoin) std_slice_utils sample_a sample_b))"
    using map_join_correct[OF bool_join.join_impl_axioms std_slice_utils_ok _ sample_full, of "\<lambda>_ _. False"] by (simp add: ptr_eq_ok_def)
  moreover have "val_at sample_a [1, 2] = Some False" "val_at sample_b [1, 2] = None" "val_at sample_a [1, 2, 4] = None" "val_at sample_b [1, 2, 4] = Some True"
    unfolding val_at_map_den[OF full_map_wf[OF sample_full(1)]] val_at_map_den[OF full_map_wf[OF sample_full(2)]]
    by (simp_all add: map_den_def sample_a_def sample_b_def)
  ultimately show ?thesis unfolding joint_def
    by (auto dest: spec[of _ "[1, 2]"] spec[of _ "[1, 2, 4]"] simp: join_opt_def)
qed

text \<open>C11: \<open>PathMap::join_into\<close> of two maps without dangling paths computes the same in place; the status \<open>Identity\<close> is reported only when no
  path changed, \<open>None\<close> only when neither map held a value.\<close>

theorem map_join_into_correct:
  assumes "join_impl J vj vji" "slice_utils_ok S" "ptr_eq_ok peq" "full_map m1" "full_map m2"
    and "map_join_into peq vj vji S m1 m2 = (st, m)"
  shows "full_map m \<and> joint J (val_at m1) (val_at m2) (val_at m) \<and> (st = SIdentity \<longrightarrow> val_at m = val_at m1) \<and>
    (st = SNone \<longrightarrow> (\<forall>q. val_at m1 q = None \<and> val_at m2 q = None))"
proof -
  note j = join_impl.map_join_into_sound[OF assms]
  have "val_at m1 = map_den m1" "val_at m2 = map_den m2" "val_at m = map_den m"
    using val_at_map_den full_map_wf assms(4,5) j(1) by blast+
  then show ?thesis using j by auto
qed

theorem map_join_into_correct_witness:
  "\<exists>st m. map_join_into (\<lambda>_ _. False) bool_pjoin (join_into_default bool_pjoin) std_slice_utils sample_a sample_b = (st, m) \<and>
     val_at m [3] = Some True"
proof -
  obtain st m where r: "map_join_into (\<lambda>_ _. False) bool_pjoin (join_into_default bool_pjoin) std_slice_utils sample_a sample_b = (st, m)" by fastforce
  have "joint (\<lambda>a b c. c = (a \<or> b)) (val_at sample_a) (val_at sample_b) (val_at m)"
    using map_join_into_correct[OF bool_join.join_impl_axioms std_slice_utils_ok _ sample_full r] by (simp add: ptr_eq_ok_def)
  moreover have "val_at sample_a [3] = Some True" "val_at sample_b [3] = None"
    unfolding val_at_map_den[OF full_map_wf[OF sample_full(1)]] val_at_map_den[OF full_map_wf[OF sample_full(2)]]
    by (simp_all add: map_den_def sample_a_def sample_b_def)
  ultimately have "val_at m [3] = Some True" unfolding joint_def by (auto dest: spec[of _ "[3]"] simp: join_opt_def)
  then show ?thesis using r by blast
qed

text \<open>C12: \<open>pjoin\<close> of two maps without dangling paths answers \<open>None\<close> only when both hold nothing, an identity only for an argument
  that already is the join, and otherwise a map that is.\<close>

theorem map_pjoin_results:
  assumes "join_impl J vj vji" "slice_utils_ok S" "ptr_eq_ok peq" "full_map m1" "full_map m2"
  shows "case map_pjoin peq vj vji S m1 m2 of
      RNone \<Rightarrow> (\<forall>q. val_at m1 q = None \<and> val_at m2 q = None)
    | Identity m \<Rightarrow> (bit m 0 \<or> bit m 1) \<and> (bit m 0 \<longrightarrow> joint J (val_at m1) (val_at m2) (val_at m1)) \<and>
        (bit m 1 \<longrightarrow> joint J (val_at m1) (val_at m2) (val_at m2))
    | Element m \<Rightarrow> full_map m \<and> joint J (val_at m1) (val_at m2) (val_at m)"
proof -
  have "val_at m1 = map_den m1" "val_at m2 = map_den m2" using val_at_map_den full_map_wf assms(4,5) by blast+
  then show ?thesis
    using join_impl.map_pjoin_sound[OF assms] unfolding join_impl.map_joined_def[OF assms(1)]
    by (cases "map_pjoin peq vj vji S m1 m2") (auto simp: val_at_map_den full_map_wf)
qed

theorem map_pjoin_results_witness:
  "map_pjoin (\<lambda>_ _. False) bool_pjoin (join_into_default bool_pjoin) std_slice_utils sample_a sample_b \<noteq> RNone"
  using map_pjoin_results[OF bool_join.join_impl_axioms std_slice_utils_ok _ sample_full, of "\<lambda>_ _. False"]
    val_at_map_den[OF full_map_wf[OF sample_full(2)]]
  by (auto simp: ptr_eq_ok_def map_den_def sample_b_def split: algebraic_result.splits dest: spec[of _ "[]"])

definition dangling_pair :: "u64 path_map" where
  "dangling_pair = \<lparr>root = Some (ListN (LN (Some ([1], Child EmptyN)) (Some ([2], Child EmptyN)))), root_val = None\<rparr>"

definition with_three :: "u64 path_map" where
  "with_three = \<lparr>root = Some (ByteN (snd (set_val 3 7 (snd (set_child 2 EmptyN (snd (set_child 1 EmptyN new_byte_node))))))), root_val = None\<rparr>"

text \<open>C13: \<open>join\<close> with a map that holds nothing but dangling paths can drop every value. The list node has
  two dangling one-byte slots; both meet an entry of the byte node whose link is empty, both slots report
  \<open>None\<close> although the byte node holds a value at another byte, and \<open>pjoin_dyn\<close> turns the merged status
  \<open>None\<close> into "both were empty". Either order of the arguments, and the in-place join reports \<open>None\<close> too.\<close>

theorem join_drops_values:
  "set_val_at std_slice_utils [3] 7 dangling_pair = Ret (None, with_three) \<and> wf_map dangling_pair \<and> wf_map with_three \<and>
   val_at with_three [3] = Some 7 \<and>
   map_join (\<lambda>_ _. False) int_pjoin (join_into_default int_pjoin) std_slice_utils with_three dangling_pair = new_map \<and>
   map_join (\<lambda>_ _. False) int_pjoin (join_into_default int_pjoin) std_slice_utils dangling_pair with_three = new_map \<and>
   fst (map_join_into (\<lambda>_ _. False) int_pjoin (join_into_default int_pjoin) std_slice_utils with_three dangling_pair) = SNone"
proof (intro conjI)
  show set: "set_val_at std_slice_utils [3] 7 dangling_pair = Ret (None, with_three)" by code_simp
  show wf: "wf_map dangling_pair" by (simp add: wf_map_def dangling_pair_def wf_pair_def KEY_BYTES_CNT_def)
  show "wf_map with_three" using set_val_at_den[OF std_slice_utils_ok wf, of "[3]" 7] set by simp
  show "val_at with_three [3] = Some 7" by code_simp
  show "map_join (\<lambda>_ _. False) int_pjoin (join_into_default int_pjoin) std_slice_utils with_three dangling_pair = new_map" by code_simp
  show "map_join (\<lambda>_ _. False) int_pjoin (join_into_default int_pjoin) std_slice_utils dangling_pair with_three = new_map" by code_simp
  show "fst (map_join_into (\<lambda>_ _. False) int_pjoin (join_into_default int_pjoin) std_slice_utils with_three dangling_pair) = SNone" by code_simp
qed

end
