(* ===== verification/Node_Iter.thy ===== *)
theory Node_Iter
  imports Trie_Paths
begin

text \<open>
  The cursors of the nodes: the iteration tokens of \<open>LineListNode\<close>, the token operations the byte
  node and the empty node share with it, the queries a zipper steps with (the nth child, the
  siblings of a child, the onward links of a node), and the dispatch \<open>TaggedNodeRef\<close> does over the
  node kinds.  A token is a 64-bit word.  \<open>key_end_0\<close> and \<open>key_len_1\<close> are the lengths the packed
  header stores.
\<close>

subsection \<open>Tokens\<close>

definition node_iter_token_is_nonexistent :: "u64 \<Rightarrow> bool" where
  "node_iter_token_is_nonexistent token \<longleftrightarrow> token AND NODE_TOKEN_NONEXISTENT_BIT \<noteq> 0"

definition ITER_TOKEN_OFFSET_MASK :: u64 where "ITER_TOKEN_OFFSET_MASK = 0x3f"

type_synonym ('c, 'v) item = "path \<times> 'c option \<times> 'v option"

abbreviation (input) iter_finished :: "(u64 \<times> ('c, 'v) item) outcome" where
  "iter_finished \<equiv> Ret (NODE_ITER_FINISHED, [], None, None)"

subsection \<open>List nodes\<close>

definition ln_new_iter_token :: u64 where "ln_new_iter_token = 0"

definition ln_iter_token_for_path :: "slice_utils \<Rightarrow> ('c, 'v) list_node \<Rightarrow> path \<Rightarrow> u64" where
  "ln_iter_token_for_path S ln key =
     (if length key = 0 then 0
      else
        let (key0, key1) = get_both_keys ln; key_end_0 = word_of_nat (length key0);
            slot_1_used = is_used (slot1 ln) in
        if starts_with S key0 key then
          (if length key < length key0 then word_of_nat (length key)
           else if \<not> slot_1_used \<or> key0 = key1 then TOKEN_LAST else key_end_0)
        else if path_less key key0 then NODE_TOKEN_NONEXISTENT_BIT
        else if slot_1_used \<and> starts_with S key1 key then
          (if length key = length key1 then TOKEN_LAST else key_end_0 + word_of_nat (length key))
        else if slot_1_used \<and> path_less key key1 then key_end_0 OR NODE_TOKEN_NONEXISTENT_BIT
        else TOKEN_AFTER_LAST)"

text \<open>The preconditions the code states with \<open>debug_assert!\<close> (\<open>They may panic when any precondition
  is violated\<close>) are \<open>Panic\<close> here.\<close>

definition ln_ascend_iter_token :: "('c, 'v) list_node \<Rightarrow> u64 \<Rightarrow> nat \<Rightarrow> u64 outcome" where
  "ln_ascend_iter_token ln token byte_count =
     (let (key0, key1) = get_both_keys ln;
          key_end_0 = word_of_nat (length key0);
          key_end_1 = key_end_0 + word_of_nat (length key1);
          offset = (if token = TOKEN_LAST then key_end_1 else token AND ITER_TOKEN_OFFSET_MASK);
          (key, key_offset, key_start) =
            (if offset \<le> key_end_0 then (key0, offset, 0) else (key1, offset - key_end_0, key_end_0)) in
      if token = NODE_ITER_INVALID \<or> token = NODE_ITER_FINISHED \<or> node_iter_token_is_nonexistent token \<or>
         byte_count = 0 \<or> offset = 0 \<or> key_end_1 < offset \<or>
         (token \<noteq> TOKEN_LAST \<and> token AND NOT ITER_TOKEN_OFFSET_MASK \<noteq> 0) \<or> unat key_offset < byte_count then Panic
      else
        let ascended_offset = key_offset - word_of_nat byte_count in
        if ascended_offset = 0 then Ret 0
        else if 0 < key_start \<and> ascended_offset \<le> key_end_0 \<and>
                take (unat ascended_offset) key = take (unat ascended_offset) key0 then Ret ascended_offset
        else Ret (key_start + ascended_offset))"

fun slot_val :: "('c, 'v) slot option \<Rightarrow> 'v option" where
  "slot_val (Some (k, Val v)) = Some v"
| "slot_val _ = None"

definition ln_next_items :: "('c, 'v) list_node \<Rightarrow> u64 \<Rightarrow> bool \<Rightarrow> (u64 \<times> ('c, 'v) item) outcome" where
  "ln_next_items ln token after_focus =
     (let offset = unat (token AND ITER_TOKEN_OFFSET_MASK);
          (key0, key1) = get_both_keys ln;
          key_end_0 = length key0; key_len_1 = length key1; key_end_1 = key_end_0 + key_len_1 in
      if key_end_1 \<le> offset then iter_finished
      else if is_used (slot0 ln) then
        (if offset < key_end_0 \<and> \<not> (after_focus \<and> 0 < offset) then
           let child = slot_child (slot0 ln); value = slot_val (slot0 ln);
               same_path = (is_used (slot1 ln) \<and> key_len_1 = 1 \<and> key0 ! 0 = key1 ! 0) in
           if same_path then
             (if is_used_child (slot1 ln) then Ret (TOKEN_LAST, key0, slot_child (slot1 ln), value)
              else Ret (TOKEN_LAST, key0, child, slot_val (slot1 ln)))
           else if is_used (slot1 ln) then Ret (word_of_nat key_end_0, key0, child, value)
           else Ret (TOKEN_LAST, key0, child, value)
         else if is_used (slot1 ln) \<and> \<not> (after_focus \<and> key_end_0 < offset) then
           (if after_focus \<and> \<not> node_iter_token_is_nonexistent token \<and> key0 ! 0 = key1 ! 0 then iter_finished
            else Ret (TOKEN_LAST, key1, slot_child (slot1 ln), slot_val (slot1 ln)))
         else iter_finished)
      else iter_finished)"

text \<open>\<open>node_goat_val_count\<close>: the values of the node itself, from the four header bits above bit 12.\<close>

definition header_bits :: "('c, 'v) list_node \<Rightarrow> nat" where
  "header_bits ln =
     (if is_used (slot0 ln) then 8 else 0) + (if is_used (slot1 ln) then 4 else 0) +
     (if is_used_child (slot0 ln) then 2 else 0) + (if is_used_child (slot1 ln) then 1 else 0)"

definition ln_goat_val_count :: "('c, 'v) list_node \<Rightarrow> nat" where
  "ln_goat_val_count ln =
     (let h = header_bits ln;
          s0 = drop_bit 3 (h AND 8) AND drop_bit 1 ((h AND 2) XOR 2);
          s1 = drop_bit 2 (h AND 4) AND ((h AND 1) XOR 1)
      in s0 + s1)"

definition ln_nth_child_from_key :: "slice_utils \<Rightarrow> ('c, 'v) list_node \<Rightarrow> path \<Rightarrow> nat \<Rightarrow> u8 option \<times> 'c option" where
  "ln_nth_child_from_key S ln key n =
     (let (key0, key1) = get_both_keys ln; c0 = slot_child (slot0 ln); c1 = slot_child (slot1 ln) in
      if n = 0 then
        (let in_slot_1 =
           (if starts_with S key1 key \<and> length key < length key1 then
              (if length key + 1 = length key1 \<and> c1 \<noteq> None then (Some (key1 ! length key), c1)
               else (Some (key1 ! length key), None))
            else (None, None)) in
         if starts_with S key0 key \<and> length key < length key0 then
           (if key0 \<noteq> key1 then
              (if length key + 1 = length key0 \<and> c0 \<noteq> None then (Some (key0 ! length key), c0)
               else (Some (key0 ! length key), None))
            else if c0 \<noteq> None then (Some (key0 ! length key), c0)
            else if c1 \<noteq> None then (Some (key0 ! length key), c1)
            else in_slot_1)
         else in_slot_1)
      else if n = 1 then
        (if is_used (slot1 ln) \<and> length key = 0 \<and> 0 < length key1 \<and> key0 ! 0 \<noteq> key1 ! 0 then
           (if length key1 = 1 \<and> c1 \<noteq> None then (Some (key1 ! 0), c1) else (Some (key1 ! 0), None))
         else (None, None))
      else (None, None))"

text \<open>\<open>get_sibling_of_child\<close>; \<open>key\<close> is not empty.\<close>

definition sibling_key_byte :: "path \<Rightarrow> path \<Rightarrow> u8 option" where
  "sibling_key_byte key candidate =
     (let i = length key - 1 in
      if i < length candidate \<and> take i candidate = take i key \<and> candidate ! i < key ! i
      then Some (candidate ! i) else None)"

definition ln_get_sibling_of_child :: "slice_utils \<Rightarrow> ('c, 'v) list_node \<Rightarrow> path \<Rightarrow> bool \<Rightarrow> u8 option \<times> 'c option" where
  "ln_get_sibling_of_child S ln key next =
     (let last_key_byte_idx = length key - 1; common_key = take last_key_byte_idx key;
          (key0, key1) = get_both_keys ln in
      if next then
        (if starts_with S key0 key \<and> starts_with S key1 common_key \<and> last_key_byte_idx < length key1 \<and>
            key1 ! last_key_byte_idx \<noteq> last key then
           (Some (key1 ! last_key_byte_idx),
            if length key1 = length key \<and> is_used_child (slot1 ln) then slot_child (slot1 ln) else None)
         else (None, None))
      else
        case (case sibling_key_byte key key1 of Some b \<Rightarrow> Some b | None \<Rightarrow> sibling_key_byte key key0) of
          None \<Rightarrow> (None, None)
        | Some sibling_byte \<Rightarrow>
            (let holds_child = (\<lambda>candidate s. length candidate = length key \<and>
                   candidate ! last_key_byte_idx = sibling_byte \<and>
                   take last_key_byte_idx candidate = common_key \<and> is_used_child s)
             in (Some sibling_byte,
                 if holds_child key1 (slot1 ln) then slot_child (slot1 ln)
                 else if holds_child key0 (slot0 ln) then slot_child (slot0 ln)
                 else None)))"

subsection \<open>Byte nodes and the empty node\<close>

definition bn_ascend_iter_token :: "u64 \<Rightarrow> nat \<Rightarrow> u64 outcome" where
  "bn_ascend_iter_token token byte_count =
     (if token = NODE_ITER_INVALID \<or> byte_count \<noteq> 1 then Panic else Ret bn_new_iter_token)"

definition empty_iter_token_for_path :: "path \<Rightarrow> u64" where
  "empty_iter_token_for_path key = (if length key = 0 then 0 else TOKEN_AFTER_LAST)"

subsection \<open>Dispatch\<close>

fun node_new_iter_token :: "'v node \<Rightarrow> u64" where
  "node_new_iter_token EmptyN = 0"
| "node_new_iter_token (ListN ln) = ln_new_iter_token"
| "node_new_iter_token (ByteN bn) = bn_new_iter_token"

fun node_iter_token_for_path :: "slice_utils \<Rightarrow> 'v node \<Rightarrow> path \<Rightarrow> u64" where
  "node_iter_token_for_path S EmptyN key = empty_iter_token_for_path key"
| "node_iter_token_for_path S (ListN ln) key = ln_iter_token_for_path S ln key"
| "node_iter_token_for_path S (ByteN bn) key = bn_iter_token_for_path bn key"

fun node_ascend_iter_token :: "'v node \<Rightarrow> u64 \<Rightarrow> nat \<Rightarrow> u64 outcome" where
  "node_ascend_iter_token EmptyN token n = Panic"
| "node_ascend_iter_token (ListN ln) token n = ln_ascend_iter_token ln token n"
| "node_ascend_iter_token (ByteN bn) token n = bn_ascend_iter_token token n"

fun node_next_items :: "'v node \<Rightarrow> u64 \<Rightarrow> bool \<Rightarrow> (u64 \<times> ('v node, 'v) item) outcome" where
  "node_next_items EmptyN token after_focus = iter_finished"
| "node_next_items (ListN ln) token after_focus = ln_next_items ln token after_focus"
| "node_next_items (ByteN bn) token after_focus = bn_next_items bn token"

fun node_goat_val_count :: "'v node \<Rightarrow> nat" where
  "node_goat_val_count EmptyN = 0"
| "node_goat_val_count (ListN ln) = ln_goat_val_count ln"
| "node_goat_val_count (ByteN bn) = bn_goat_val_count bn"

fun node_child_iter_start :: "'v node \<Rightarrow> u64 \<times> 'v node option" where
  "node_child_iter_start EmptyN = (0, None)"
| "node_child_iter_start (ListN ln) = ln_child_iter_start ln"
| "node_child_iter_start (ByteN bn) = bn_child_iter_start bn"

fun node_child_iter_next :: "'v node \<Rightarrow> u64 \<Rightarrow> u64 \<times> 'v node option" where
  "node_child_iter_next EmptyN token = (0, None)"
| "node_child_iter_next (ListN ln) token = ln_child_iter_next ln token"
| "node_child_iter_next (ByteN bn) token = bn_child_iter_next bn token"

fun node_nth_child_from_key :: "slice_utils \<Rightarrow> 'v node \<Rightarrow> path \<Rightarrow> nat \<Rightarrow> u8 option \<times> 'v node option" where
  "node_nth_child_from_key S EmptyN key n = (None, None)"
| "node_nth_child_from_key S (ListN ln) key n = ln_nth_child_from_key S ln key n"
| "node_nth_child_from_key S (ByteN bn) key n = bn_nth_child_from_key bn key n"

fun node_first_child_from_key :: "slice_utils \<Rightarrow> 'v node \<Rightarrow> path \<Rightarrow> (path option \<times> 'v node option) outcome" where
  "node_first_child_from_key S EmptyN key = Ret (None, None)"
| "node_first_child_from_key S (ListN ln) key = ln_first_child_from_key S ln key"
| "node_first_child_from_key S (ByteN bn) key = bn_first_child_from_key bn key"

fun node_count_branches :: "slice_utils \<Rightarrow> 'v node \<Rightarrow> path \<Rightarrow> nat" where
  "node_count_branches S EmptyN key = 0"
| "node_count_branches S (ListN ln) key = ln_count_branches S ln key"
| "node_count_branches S (ByteN bn) key = bn_count_branches bn key"

fun node_branches_mask :: "slice_utils \<Rightarrow> 'v node \<Rightarrow> path \<Rightarrow> byte_mask" where
  "node_branches_mask S EmptyN key = EMPTY"
| "node_branches_mask S (ListN ln) key = ln_branches_mask S ln key"
| "node_branches_mask S (ByteN bn) key = bn_branches_mask bn key"

fun node_prior_branch_key :: "'v node \<Rightarrow> path \<Rightarrow> path" where
  "node_prior_branch_key EmptyN key = []"
| "node_prior_branch_key (ListN ln) key = ln_prior_branch_key ln key"
| "node_prior_branch_key (ByteN bn) key = bn_prior_branch_key bn key"

fun node_get_sibling_of_child :: "slice_utils \<Rightarrow> 'v node \<Rightarrow> path \<Rightarrow> bool \<Rightarrow> u8 option \<times> 'v node option" where
  "node_get_sibling_of_child S EmptyN key next = (None, None)"
| "node_get_sibling_of_child S (ListN ln) key next = ln_get_sibling_of_child S ln key next"
| "node_get_sibling_of_child S (ByteN bn) key next = bn_get_sibling_of_child bn key next"

fun node_key_overlap :: "slice_utils \<Rightarrow> 'v node \<Rightarrow> path \<Rightarrow> nat" where
  "node_key_overlap S EmptyN key = 0"
| "node_key_overlap S (ListN ln) key = ln_key_overlap S ln key"
| "node_key_overlap S (ByteN bn) key = bn_key_overlap bn key"

end
