(* ===== verification/Node_Iter_Laws.thy ===== *)
theory Node_Iter_Laws
  imports Node_Iter
begin

text \<open>
  The contract of a node's cursor, as the locale \<open>node_cursor\<close>: the items of a node in the order of
  their paths, the relation between a token and the position it stands for, and what each token
  operation promises.  It is proved for list nodes, byte nodes and, through the dispatch, for every
  node.  What a client needs of it (resuming, completeness of an iteration) is proved once, inside
  the locale.
\<close>

subsection \<open>The order of the paths\<close>

lemma path_less_irrefl [simp]: "\<not> path_less p p"
  by (induction p) auto

lemma path_less_trans: "path_less a b \<Longrightarrow> path_less b c \<Longrightarrow> path_less a c"
  by (induction a b arbitrary: c rule: path_less.induct; case_tac c) auto

lemma path_less_linear: "path_less a b \<or> a = b \<or> path_less b a"
proof (induction a arbitrary: b)
  case Nil
  then show ?case by (cases b) auto
next
  case (Cons x a)
  then show ?case by (cases b) auto
qed

lemma path_less_asym: "path_less a b \<Longrightarrow> \<not> path_less b a"
  using path_less_trans path_less_irrefl by blast

lemma path_less_strict_prefix: "prefix a b \<Longrightarrow> a \<noteq> b \<Longrightarrow> path_less a b"
  using path_less_linear path_less_prefix by blast

lemma path_less_Nil [simp]: "path_less [] p \<longleftrightarrow> p \<noteq> []" "\<not> path_less p []"
  by (cases p; simp)+

lemma path_less_append [simp]: "path_less (p @ a) (p @ b) \<longleftrightarrow> path_less a b"
  by (induction p) auto

text \<open>Between a path and its extensions there are only extensions.\<close>

lemma path_less_between: "prefix a c \<Longrightarrow> path_less a b \<Longrightarrow> path_less b c \<Longrightarrow> prefix a b"
proof (induction a arbitrary: b c)
  case (Cons x a)
  then show ?case by (cases b; cases c) auto
qed simp

subsection \<open>The interface of a node's cursor\<close>

definition after :: "path \<Rightarrow> bool \<Rightarrow> path \<Rightarrow> bool" where
  "after key skip p \<longleftrightarrow> path_less key p \<and> \<not> (skip \<and> key \<noteq> [] \<and> prefix key p)"

definition on_items :: "('c, 'v) item list \<Rightarrow> path \<Rightarrow> bool" where
  "on_items its key \<longleftrightarrow> key = [] \<or> (\<exists>i \<in> set its. prefix key (fst i))"

definition next_item :: "('c, 'v) item list \<Rightarrow> path \<Rightarrow> bool \<Rightarrow> ('c, 'v) item option" where
  "next_item its key skip = find (\<lambda>i. after key skip (fst i)) its"

locale node_cursor =
  fixes ok :: "'n \<Rightarrow> bool"
    and items :: "'n \<Rightarrow> ('c, 'v) item list"
    and at :: "'n \<Rightarrow> path \<Rightarrow> u64 \<Rightarrow> bool"
    and start :: "'n \<Rightarrow> u64"
    and for_path :: "'n \<Rightarrow> path \<Rightarrow> u64"
    and ascend :: "'n \<Rightarrow> u64 \<Rightarrow> nat \<Rightarrow> u64 outcome"
    and nxt :: "'n \<Rightarrow> u64 \<Rightarrow> bool \<Rightarrow> (u64 \<times> ('c, 'v) item) outcome"
  assumes items_sorted: "ok n \<Longrightarrow> sorted_wrt path_less (map fst (items n))"
    and items_nonempty: "ok n \<Longrightarrow> i \<in> set (items n) \<Longrightarrow> fst i \<noteq> []"
    and start_at: "ok n \<Longrightarrow> at n [] (start n)"
    and for_path_at: "ok n \<Longrightarrow> at n key (for_path n key)"
    and at_ordinary: "ok n \<Longrightarrow> at n key t \<Longrightarrow> t \<noteq> NODE_ITER_FINISHED \<and> t \<noteq> NODE_ITER_INVALID"
    and at_exists: "ok n \<Longrightarrow> at n key t \<Longrightarrow> node_iter_token_is_nonexistent t \<longleftrightarrow> \<not> on_items (items n) key"
    and next_finished: "ok n \<Longrightarrow> at n key t \<Longrightarrow> next_item (items n) key skip = None \<Longrightarrow> nxt n t skip = iter_finished"
    and next_found: "ok n \<Longrightarrow> at n key t \<Longrightarrow> next_item (items n) key skip = Some i \<Longrightarrow>
          \<exists>t'. nxt n t skip = Ret (t', i) \<and> at n (fst i) t'"
    and ascend_at: "ok n \<Longrightarrow> at n key t \<Longrightarrow> on_items (items n) key \<Longrightarrow> 0 < m \<Longrightarrow> m \<le> length key \<Longrightarrow>
          \<exists>t'. ascend n t m = Ret t' \<and> at n (take (length key - m) key) t'"
    and at_last: "ok n \<Longrightarrow> at n key t \<Longrightarrow> TOKEN_LAST \<le> t \<Longrightarrow> next_item (items n) key skip = None"

subsection \<open>Tokens as words\<close>

definition tok_offset :: "u64 \<Rightarrow> nat" where
  "tok_offset t = unat (t AND ITER_TOKEN_OFFSET_MASK)"

lemma nonexistent_bit: "node_iter_token_is_nonexistent t \<longleftrightarrow> bit t 62"
proof -
  have "t AND NODE_TOKEN_NONEXISTENT_BIT = 0 \<longleftrightarrow> \<not> bit t 62"
  proof
    assume "t AND NODE_TOKEN_NONEXISTENT_BIT = 0"
    then have "\<not> bit (t AND NODE_TOKEN_NONEXISTENT_BIT) 62" by simp
    then show "\<not> bit t 62" by (simp add: bit_and_iff bit_NONEXISTENT)
  next
    assume "\<not> bit t 62"
    then show "t AND NODE_TOKEN_NONEXISTENT_BIT = 0"
      by (intro bit_word_eqI) (auto simp: bit_and_iff bit_NONEXISTENT)
  qed
  then show ?thesis by (simp add: node_iter_token_is_nonexistent_def)
qed

lemma small_token:
  assumes "n < 64"
  shows "bit (word_of_nat n :: u64) i \<longleftrightarrow> bit n i" "bit n i \<Longrightarrow> i < 6"
proof -
  show six: "bit n i \<Longrightarrow> i < 6"
  proof (rule ccontr)
    assume "bit n i" "\<not> i < 6"
    then have "2 ^ 6 \<le> (2::nat) ^ i" by (intro power_increasing) auto
    then have "n < 2 ^ i" using assms by simp
    then show False using \<open>bit n i\<close> by (simp add: bit_iff_odd)
  qed
  have "bit (word_of_nat n :: u64) i \<longleftrightarrow> i < 64 \<and> bit n i"
    by (simp add: bit_of_nat_iff possible_bit_word)
  then show "bit (word_of_nat n :: u64) i \<longleftrightarrow> bit n i" using six by auto
qed

lemma bit_0x3f: "bit ITER_TOKEN_OFFSET_MASK i \<longleftrightarrow> i < 6"
proof -
  have "ITER_TOKEN_OFFSET_MASK = (push_bit 6 1 - 1 :: u64)" by (simp add: ITER_TOKEN_OFFSET_MASK_def)
  then show ?thesis using bit_low_ones[of 6 i] by auto
qed

lemma tok_offset_small [simp]: "n < 64 \<Longrightarrow> tok_offset (word_of_nat n) = n"
  "n < 64 \<Longrightarrow> tok_offset (word_of_nat n OR NODE_TOKEN_NONEXISTENT_BIT) = n"
proof -
  assume n: "n < 64"
  have a: "word_of_nat n AND ITER_TOKEN_OFFSET_MASK = word_of_nat n"
    "(word_of_nat n OR NODE_TOKEN_NONEXISTENT_BIT) AND ITER_TOKEN_OFFSET_MASK = word_of_nat n"
    using small_token[OF n] by (auto intro!: bit_word_eqI simp: bit_and_iff bit_or_iff bit_0x3f bit_NONEXISTENT)
  then show "tok_offset (word_of_nat n) = n" "tok_offset (word_of_nat n OR NODE_TOKEN_NONEXISTENT_BIT) = n"
    using n by (simp_all add: tok_offset_def unat_of_nat)
qed

lemma tok_offset_consts [simp]:
  "tok_offset TOKEN_LAST = 63" "tok_offset TOKEN_AFTER_LAST = 63" "tok_offset NODE_TOKEN_NONEXISTENT_BIT = 0"
  "tok_offset 0 = 0"
  by (simp_all add: tok_offset_def TOKEN_LAST_def TOKEN_AFTER_LAST_def NODE_TOKEN_NONEXISTENT_BIT_def
      ITER_TOKEN_OFFSET_MASK_def u64_MAX_def)

lemma nonexistent_consts [simp]:
  "\<not> node_iter_token_is_nonexistent TOKEN_LAST" "node_iter_token_is_nonexistent TOKEN_AFTER_LAST"
  "node_iter_token_is_nonexistent NODE_TOKEN_NONEXISTENT_BIT" "\<not> node_iter_token_is_nonexistent 0"
  by (simp_all add: node_iter_token_is_nonexistent_def TOKEN_LAST_def TOKEN_AFTER_LAST_def NODE_TOKEN_NONEXISTENT_BIT_def
      u64_MAX_def)

lemma nonexistent_small [simp]:
  "n < 64 \<Longrightarrow> \<not> node_iter_token_is_nonexistent (word_of_nat n)"
  "node_iter_token_is_nonexistent (t OR NODE_TOKEN_NONEXISTENT_BIT)"
  using small_token(1)[of n 62] small_token(2)[of n 62] by (auto simp: nonexistent_bit bit_or_iff bit_NONEXISTENT)

lemma small_less_last:
  assumes "n < 64"
  shows "(word_of_nat n :: u64) < TOKEN_LAST" "word_of_nat n OR NODE_TOKEN_NONEXISTENT_BIT < TOKEN_LAST"
proof -
  have "unat (word_of_nat n :: u64) = n" using assms by (simp add: unat_of_nat)
  moreover have "(63 :: nat) < unat TOKEN_LAST"
    by (simp add: TOKEN_LAST_def NODE_TOKEN_NONEXISTENT_BIT_def u64_MAX_def)
  ultimately show a: "(word_of_nat n :: u64) < TOKEN_LAST" using assms by (simp add: word_less_nat_alt)
  have "word_of_nat n OR NODE_TOKEN_NONEXISTENT_BIT = word_of_nat n + NODE_TOKEN_NONEXISTENT_BIT"
    using small_token[OF assms, of 62] by (intro disjunctive_add[symmetric]) (auto simp: bit_NONEXISTENT)
  also have "unat \<dots> = n + 2 ^ 62"
    using assms by (simp add: NODE_TOKEN_NONEXISTENT_BIT_def unat_word_ariths unat_of_nat)
  finally have "unat (word_of_nat n OR NODE_TOKEN_NONEXISTENT_BIT) = n + 2 ^ 62" .
  moreover have "63 + 2 ^ 62 < unat TOKEN_LAST"
    by (simp add: TOKEN_LAST_def NODE_TOKEN_NONEXISTENT_BIT_def u64_MAX_def)
  ultimately show "word_of_nat n OR NODE_TOKEN_NONEXISTENT_BIT < TOKEN_LAST"
    using assms by (simp add: word_less_nat_alt)
qed
subsection \<open>List nodes\<close>

fun slots_items :: "('c, 'v) slot option \<Rightarrow> ('c, 'v) slot option \<Rightarrow> ('c, 'v) item list" where
  "slots_items None s1 = []"
| "slots_items (Some (k, p)) None = [(k, slot_child (Some (k, p)), slot_val (Some (k, p)))]"
| "slots_items (Some (k0, p0)) (Some (k1, p1)) =
     (if k0 = k1 then
        [(k0, if is_child p0 then slot_child (Some (k0, p0)) else slot_child (Some (k1, p1)),
          if is_child p0 then slot_val (Some (k1, p1)) else slot_val (Some (k0, p0)))]
      else [(k0, slot_child (Some (k0, p0)), slot_val (Some (k0, p0))),
            (k1, slot_child (Some (k1, p1)), slot_val (Some (k1, p1)))])"

definition ln_items :: "('c, 'v) list_node \<Rightarrow> ('c, 'v) item list" where
  "ln_items ln = slots_items (slot0 ln) (slot1 ln)"

lemma wf_list_cases:
  assumes "wf_list ln"
  obtains (none) "ln = LN None None"
    | (one) k0 p0 where "ln = LN (Some (k0, p0)) None" "k0 \<noteq> []" "length k0 \<le> 42"
    | (diff) b0 r0 p0 b1 r1 p1 where "ln = LN (Some (b0 # r0, p0)) (Some (b1 # r1, p1))"
        "length r0 + length r1 \<le> 40" "b0 < b1"
    | (same) b p0 p1 where "ln = LN (Some ([b], p0)) (Some ([b], p1))" "is_child p0 \<noteq> is_child p1"
    | (below) b p0 r1 p1 where "ln = LN (Some ([b], p0)) (Some (b # r1, p1))" "r1 \<noteq> []" "length r1 \<le> 40" "\<not> is_child p0"
proof (cases ln)
  case (LN s0 s1)
  show ?thesis
  proof (cases "(s0, s1)" rule: wf_slots.cases)
    case (4 k0 p0 k1 p1)
    then obtain b0 r0 b1 r1 where k: "k0 = b0 # r0" "k1 = b1 # r1"
      using assms LN by (cases k0; cases k1) (auto simp: wf_list_def)
    show ?thesis
      using assms 4 LN k that(3,4,5)
      by (cases "b0 = b1"; cases r1) (auto simp: wf_list_def wf_pair_def KEY_BYTES_CNT_def)
  qed (use assms LN that(1,2) in \<open>auto simp: wf_list_def KEY_BYTES_CNT_def\<close>)
qed

lemma tok_offset_suc [simp]: "n < 63 \<Longrightarrow> tok_offset (1 + word_of_nat n) = Suc n"
  "n < 63 \<Longrightarrow> tok_offset ((1 + word_of_nat n) OR NODE_TOKEN_NONEXISTENT_BIT) = Suc n"
  "n < 63 \<Longrightarrow> \<not> node_iter_token_is_nonexistent (1 + word_of_nat n)"
  using tok_offset_small[of "Suc n"] nonexistent_small(1)[of "Suc n"] by simp_all

lemma ln_next_items_alt:
  "ln_next_items ln token after_focus =
     (let offset = tok_offset token;
          (key0, key1) = get_both_keys ln;
          key_end_0 = length key0; key_len_1 = length key1; key_end_1 = key_end_0 + key_len_1 in
      if key_end_1 \<le> offset then iter_finished
      else if is_used (slot0 ln) then
        (if offset < key_end_0 \<and> \<not> (after_focus \<and> 0 < offset) then
           let child = slot_child (slot0 ln); value = slot_val (slot0 ln);
               same_path = (is_used (slot1 ln) \<and> key_len_1 = 1 \<and> key0 ! 0 = key1 ! 0) in
           if same_path then
             (if is_used_child (slot1 ln) then Ret (TOKEN_LAST, key0, slot_child (slot1 ln), value)
              else Ret (TOKEN_LAST, key0, child, slot_val (slot1 ln)))
           else if is_used (slot1 ln) then Ret (word_of_nat key_end_0, key0, child, value)
           else Ret (TOKEN_LAST, key0, child, value)
         else if is_used (slot1 ln) \<and> \<not> (after_focus \<and> key_end_0 < offset) then
           (if after_focus \<and> \<not> node_iter_token_is_nonexistent token \<and> key0 ! 0 = key1 ! 0 then iter_finished
            else Ret (TOKEN_LAST, key1, slot_child (slot1 ln), slot_val (slot1 ln)))
         else iter_finished)
      else iter_finished)"
  unfolding ln_next_items_def tok_offset_def ..

lemma prefix_ConsE: "prefix key (b # r) \<Longrightarrow> key \<noteq> [] \<Longrightarrow> (\<And>z. key = b # z \<Longrightarrow> prefix z r \<Longrightarrow> P) \<Longrightarrow> P"
  by (cases key) auto

lemma path_less_not_prefix: "path_less a b \<Longrightarrow> prefix a b \<or> (\<not> prefix b a)"
  using path_less_prefix by blast

text \<open>The token of a path, by its place among the keys.\<close>

lemma ln_token_one:
  assumes "slice_utils_ok S" "key \<noteq> []"
  shows "ln_iter_token_for_path S (LN (Some (k0, p0)) None) key =
    (if prefix key k0 then if key = k0 then TOKEN_LAST else word_of_nat (length key)
     else if path_less key k0 then NODE_TOKEN_NONEXISTENT_BIT else TOKEN_AFTER_LAST)"
proof -
  have "prefix key k0 \<Longrightarrow> length key < length k0 \<longleftrightarrow> key \<noteq> k0" by (auto simp: prefix_def)
  then show ?thesis
    using assms unfolding ln_iter_token_for_path_def get_both_keys_def is_used_def Let_def by simp
qed

lemma ln_token_same:
  assumes "slice_utils_ok S" "key \<noteq> []"
  shows "ln_iter_token_for_path S (LN (Some ([b], p0)) (Some ([b], p1))) key =
    (if key = [b] then TOKEN_LAST
     else if path_less key [b] then NODE_TOKEN_NONEXISTENT_BIT else TOKEN_AFTER_LAST)"
  using assms by (cases key) (auto simp: ln_iter_token_for_path_def get_both_keys_def is_used_def Let_def)

lemma ln_token_two:
  assumes "slice_utils_ok S" "key \<noteq> []" "k0 \<noteq> k1" "\<not> prefix k1 k0" "path_less k0 k1"
  shows "ln_iter_token_for_path S (LN (Some (k0, p0)) (Some (k1, p1))) key =
    (if prefix key k0 then word_of_nat (length key)
     else if path_less key k0 then NODE_TOKEN_NONEXISTENT_BIT
     else if prefix key k1 then if key = k1 then TOKEN_LAST else word_of_nat (length k0 + length key)
     else if path_less key k1 then word_of_nat (length k0) OR NODE_TOKEN_NONEXISTENT_BIT
     else TOKEN_AFTER_LAST)"
proof -
  have "prefix key k \<Longrightarrow> length key < length k \<longleftrightarrow> key \<noteq> k" "prefix key k \<Longrightarrow> length key = length k \<longleftrightarrow> key = k" for k
    by (auto simp: prefix_def)
  then show ?thesis
    using assms unfolding ln_iter_token_for_path_def get_both_keys_def is_used_def Let_def
    by simp
qed

lemma after_Nil [simp]: "after [] skip p \<longleftrightarrow> p \<noteq> []"
  by (auto simp: after_def)

lemma ln_items_simps [simp]:
  "ln_items (LN None None) = []"
  "ln_items (LN (Some (k, p)) None) = [(k, slot_child (Some (k, p)), slot_val (Some (k, p)))]"
  "ln_items (LN (Some (k0, p0)) (Some (k1, p1))) =
     (if k0 = k1 then
        [(k0, if is_child p0 then slot_child (Some (k0, p0)) else slot_child (Some (k1, p1)),
          if is_child p0 then slot_val (Some (k1, p1)) else slot_val (Some (k0, p0)))]
      else [(k0, slot_child (Some (k0, p0)), slot_val (Some (k0, p0))),
            (k1, slot_child (Some (k1, p1)), slot_val (Some (k1, p1)))])"
  by (simp_all add: ln_items_def)

lemma ln_token_Nil [simp]: "ln_iter_token_for_path S ln [] = 0"
  by (simp add: ln_iter_token_for_path_def)

definition item_result :: "(path \<Rightarrow> u64) \<Rightarrow> ('c, 'v) item option \<Rightarrow> (u64 \<times> ('c, 'v) item) outcome" where
  "item_result tok r = (case r of None \<Rightarrow> iter_finished | Some i \<Rightarrow> Ret (tok (fst i), i))"

lemma prefix_less_len: "prefix key k \<Longrightarrow> key \<noteq> k \<Longrightarrow> length key < length k"
  by (auto simp: prefix_def)

lemma ln_next_one:
  assumes S: "slice_utils_ok S" and k0: "k0 \<noteq> []" "length k0 \<le> 42" and ln: "ln = LN (Some (k0, p0)) None"
  shows "ln_next_items ln (ln_iter_token_for_path S ln key) skip =
    item_result (ln_iter_token_for_path S ln) (next_item (ln_items ln) key skip)"
proof (cases "key = []")
  case True
  then show ?thesis
    using assms ln_token_one[OF S, of k0 k0 p0]
    by (simp add: ln_next_items_alt get_both_keys_def is_used_def next_item_def item_result_def)
next
  case False
  note tok = ln_token_one[OF S False, of k0 p0] ln_token_one[OF S k0(1), of k0 p0]
  consider (inside) "prefix key k0" "key \<noteq> k0" | (eq) "key = k0" | (before) "\<not> prefix key k0" "path_less key k0"
    | (behind) "\<not> prefix key k0" "\<not> path_less key k0" by blast
  then show ?thesis
  proof cases
    case inside
    then have "length key < length k0" "path_less key k0"
      using prefix_less_len path_less_strict_prefix by blast+
    then show ?thesis
      using inside False k0 tok
      by (simp add: ln ln_next_items_alt get_both_keys_def is_used_def next_item_def after_def item_result_def)
  qed (use False k0 tok in \<open>simp_all add: ln ln_next_items_alt get_both_keys_def is_used_def next_item_def after_def item_result_def\<close>)
qed

lemma ln_next_same:
  assumes S: "slice_utils_ok S" and p: "is_child p0 \<noteq> is_child p1" and ln: "ln = LN (Some ([b], p0)) (Some ([b], p1))"
  shows "ln_next_items ln (ln_iter_token_for_path S ln key) skip =
    item_result (ln_iter_token_for_path S ln) (next_item (ln_items ln) key skip)"
proof (cases "key = []")
  case True
  then show ?thesis
    using assms ln_token_same[OF S, of "[b]" b p0 p1]
    by (simp add: ln_next_items_alt get_both_keys_def is_used_def next_item_def item_result_def)
next
  case False
  note tok = ln_token_same[OF S False, of b p0 p1] ln_token_same[OF S, of "[b]" b p0 p1]
  have "prefix key [b] \<longleftrightarrow> key = [b]" using False by (cases key) auto
  then show ?thesis
    using False tok p
    by (simp add: ln ln_next_items_alt get_both_keys_def is_used_def next_item_def after_def item_result_def)
qed

lemma ln_next_two:
  assumes S: "slice_utils_ok S" and ln: "ln = LN (Some (k0, p0)) (Some (k1, p1))"
    and k: "k0 \<noteq> []" "k1 \<noteq> []" "length k0 + length k1 \<le> 42" "path_less k0 k1" "\<not> prefix k1 k0"
    and sh: "hd k0 = hd k1 \<Longrightarrow> length k0 = 1 \<and> k1 \<noteq> k0"
  shows "ln_next_items ln (ln_iter_token_for_path S ln key) skip =
    item_result (ln_iter_token_for_path S ln) (next_item (ln_items ln) key skip)"
proof -
  have ne: "k0 \<noteq> k1" using k(4) by auto
  note tk = ln_token_two[OF S _ ne k(5,4), of _ p0 p1]
  have t01: "ln_iter_token_for_path S ln k0 = word_of_nat (length k0)" "ln_iter_token_for_path S ln k1 = TOKEN_LAST"
    using tk[OF k(1)] tk[OF k(2)] k path_less_asym[OF k(4)] by (simp_all add: ln)
  have same: "\<not> (length k1 = 1 \<and> k0 ! 0 = k1 ! 0)"
  proof
    assume "length k1 = 1 \<and> k0 ! 0 = k1 ! 0"
    moreover from this have "hd k0 = hd k1" using k(1,2) by (simp add: hd_conv_nth)
    ultimately show False using sh k(1,2) by (cases k0; cases k1) auto
  qed
  have items: "ln_items ln = [(k0, slot_child (Some (k0, p0)), slot_val (Some (k0, p0))),
      (k1, slot_child (Some (k1, p1)), slot_val (Some (k1, p1)))]" using ne by (simp add: ln)
  note unf = ln_next_items_alt get_both_keys_def is_used_def next_item_def after_def item_result_def items
  show ?thesis
  proof (cases "key = []")
    case True
    have sl: "slot0 ln = Some (k0, p0)" "slot1 ln = Some (k1, p1)" by (simp_all add: ln)
    show ?thesis using True same k t01 ne unfolding unf sl by (auto simp: Let_def)
  next
    case False
    have pl: "prefix key k0 \<Longrightarrow> path_less key k1"
      using k(4) path_less_trans path_less_strict_prefix by blast
    consider (in0) "prefix key k0" | (before) "\<not> prefix key k0" "path_less key k0"
      | (in1) "\<not> prefix key k0" "\<not> path_less key k0" "prefix key k1"
      | (between) "\<not> prefix key k0" "\<not> path_less key k0" "\<not> prefix key k1" "path_less key k1"
      | (behind) "\<not> prefix key k0" "\<not> path_less key k0" "\<not> prefix key k1" "\<not> path_less key k1" by blast
    then show ?thesis
    proof cases
      case in0
      have le: "length key \<le> length k0" using in0 by (rule prefix_length_le)
      have "key \<noteq> k0 \<Longrightarrow> length key < length k0 \<and> path_less key k0"
        using in0 prefix_less_len path_less_strict_prefix by blast
      moreover have "k0 ! 0 = k1 ! 0 \<longleftrightarrow> prefix key k1"
      proof
        assume "k0 ! 0 = k1 ! 0"
        then have "hd k0 = hd k1" using k(1,2) by (simp add: hd_conv_nth)
        with sh k(1,2) in0 False show "prefix key k1"
          by (cases k0; cases k1; cases key) auto
      next
        assume "prefix key k1"
        then show "k0 ! 0 = k1 ! 0" using in0 False k(1,2) by (cases k0; cases k1; cases key) auto
      qed
      ultimately show ?thesis
        using in0 tk[OF False] k t01 same pl ne False le
        unfolding unf by (cases "key = k0") (auto simp: ln)
    next
      case before
      then have "path_less key k1" using k(4) path_less_trans by blast
      then show ?thesis
        using before tk[OF False] k t01 same ne False
        unfolding unf by (auto simp: ln Let_def)
    next
      case in1
      have "key \<noteq> k1 \<Longrightarrow> length key < length k1 \<and> path_less key k1"
        using in1 prefix_less_len path_less_strict_prefix by blast
      then show ?thesis
        using in1 tk[OF False] k t01 same ne False
        unfolding unf by (cases "key = k1") (auto simp: ln of_nat_add[symmetric] simp del: of_nat_add)
    next
      case between
      then show ?thesis
        using tk[OF False] k t01 same ne False
        unfolding unf by (simp add: ln)
    next
      case behind
      then show ?thesis
        using tk[OF False] k t01 same ne False
        unfolding unf by (simp add: ln)
    qed
  qed
qed

lemma ln_next_items_spec:
  assumes S: "slice_utils_ok S" and wf: "wf_list ln"
  shows "ln_next_items ln (ln_iter_token_for_path S ln key) skip =
    item_result (ln_iter_token_for_path S ln) (next_item (ln_items ln) key skip)"
  using wf
proof (cases rule: wf_list_cases)
  case none
  then show ?thesis
    by (simp add: ln_next_items_alt get_both_keys_def is_used_def next_item_def item_result_def)
next
  case one
  then show ?thesis using ln_next_one[OF S] by blast
next
  case (diff b0 r0 p0 b1 r1 p1)
  then show ?thesis by (intro ln_next_two[OF S diff(1)]) auto
next
  case same
  then show ?thesis using ln_next_same[OF S] by blast
next
  case (below b p0 r1 p1)
  then show ?thesis by (intro ln_next_two[OF S below(1)]) (auto simp: neq_Nil_conv)
qed

lemma ln_token_cases:
  assumes S: "slice_utils_ok S" and wf: "wf_list ln"
  shows "\<exists>n < 64. ln_iter_token_for_path S ln key = word_of_nat n \<or>
      ln_iter_token_for_path S ln key = word_of_nat n OR NODE_TOKEN_NONEXISTENT_BIT \<or>
      ln_iter_token_for_path S ln key \<in> {TOKEN_LAST, TOKEN_AFTER_LAST}"
proof -
  have z: "(word_of_nat 0 OR NODE_TOKEN_NONEXISTENT_BIT :: u64) = NODE_TOKEN_NONEXISTENT_BIT" "(word_of_nat 0 :: u64) = 0" by simp_all
  have two: ?thesis if "ln = LN (Some (k0, p0)) (Some (k1, p1))" "length k0 + length k1 \<le> 42" "k0 \<noteq> k1"
    "\<not> prefix k1 k0" "path_less k0 k1" for k0 p0 k1 p1
  proof (cases "key = []")
    case False
    have "prefix key k0 \<Longrightarrow> length key < 64" "prefix key k1 \<Longrightarrow> length k0 + length key < 64" "length k0 < 64"
      using that(2) prefix_length_le[of key k0] prefix_length_le[of key k1] by auto
    then show ?thesis
      using ln_token_two[OF S False that(3-5), of p0 p1] z unfolding that(1) by (metis insertCI zero_less_numeral)
  qed (use z in \<open>auto intro!: exI[of _ 0]\<close>)
  show ?thesis
  proof (cases "key = []")
    case False
    show ?thesis
      using wf
    proof (cases rule: wf_list_cases)
      case none
      then show ?thesis using False S
        by (auto simp: ln_iter_token_for_path_def get_both_keys_def is_used_def intro!: exI[of _ 0])
    next
      case (one k0 p0)
      then have "prefix key k0 \<Longrightarrow> length key < 64" using prefix_length_le[of key k0] by auto
      then show ?thesis using ln_token_one[OF S False, of k0 p0] z unfolding one(1) by (metis insertCI zero_less_numeral)
    next
      case (same b p0 p1)
      then show ?thesis using ln_token_same[OF S False, of b p0 p1] z unfolding same(1) by (metis insertCI zero_less_numeral)
    next
      case (diff b0 r0 p0 b1 r1 p1)
      then show ?thesis by (intro two[OF diff(1)]) auto
    next
      case (below b p0 r1 p1)
      then show ?thesis by (intro two[OF below(1)]) (auto simp: neq_Nil_conv)
    qed
  qed (use z in \<open>auto intro!: exI[of _ 0]\<close>)
qed

lemma path_less_hdD: "path_less (a # p) (b # q) \<Longrightarrow> a \<le> b"
  by auto

lemma ln_token_exists:
  assumes S: "slice_utils_ok S" and wf: "wf_list ln"
  shows "node_iter_token_is_nonexistent (ln_iter_token_for_path S ln key) \<longleftrightarrow> \<not> on_items (ln_items ln) key"
proof (cases "key = []")
  case False
  have two: ?thesis if "ln = LN (Some (k0, p0)) (Some (k1, p1))" "length k0 + length k1 \<le> 42" "k0 \<noteq> k1"
    "\<not> prefix k1 k0" "path_less k0 k1" for k0 p0 k1 p1
  proof -
    have "prefix key k0 \<Longrightarrow> length key < 64" "prefix key k1 \<Longrightarrow> length k0 + length key < 64"
      using that(2) prefix_length_le[of key k0] prefix_length_le[of key k1] by auto
    note l = nonexistent_small(1)[OF this(1)] nonexistent_small(1)[OF this(2)]
    have "path_less key k0 \<Longrightarrow> \<not> prefix key k0 \<Longrightarrow> \<not> prefix key k1"
      using path_less_between that(5) by blast
    then show ?thesis
      using ln_token_two[OF S False that(3-5), of p0 p1] False that(3) l unfolding that(1) on_items_def
      by (auto simp del: of_nat_add)
  qed
  show ?thesis
    using wf
  proof (cases rule: wf_list_cases)
    case none
    then show ?thesis using False S
      by (auto simp: ln_iter_token_for_path_def get_both_keys_def is_used_def on_items_def)
  next
    case (one k0 p0)
    then have "prefix key k0 \<Longrightarrow> length key < 64" using prefix_length_le[of key k0] by auto
    then show ?thesis using ln_token_one[OF S False, of k0 p0] False unfolding one(1) on_items_def by auto
  next
    case (same b p0 p1)
    have "prefix key [b] \<longleftrightarrow> key = [b]" using False by (cases key) auto
    then show ?thesis using ln_token_same[OF S False, of b p0 p1] False unfolding same(1) on_items_def by auto
  next
    case (diff b0 r0 p0 b1 r1 p1)
    then show ?thesis by (intro two[OF diff(1)]) auto
  next
    case (below b p0 r1 p1)
    then show ?thesis by (intro two[OF below(1)]) (auto simp: neq_Nil_conv)
  qed
qed (simp add: on_items_def)

lemma small_not_special:
  assumes "n < 64"
  shows "word_of_nat n \<noteq> NODE_ITER_FINISHED" "word_of_nat n \<noteq> NODE_ITER_INVALID"
    "word_of_nat n OR NODE_TOKEN_NONEXISTENT_BIT \<noteq> NODE_ITER_FINISHED"
    "word_of_nat n OR NODE_TOKEN_NONEXISTENT_BIT \<noteq> NODE_ITER_INVALID"
    "TOKEN_LAST \<noteq> NODE_ITER_FINISHED" "TOKEN_LAST \<noteq> NODE_ITER_INVALID"
    "TOKEN_AFTER_LAST \<noteq> NODE_ITER_FINISHED" "TOKEN_AFTER_LAST \<noteq> NODE_ITER_INVALID"
proof -
  have b: "bit NODE_ITER_FINISHED 63" "bit NODE_ITER_INVALID 63"
    by (simp_all add: NODE_ITER_FINISHED_def NODE_ITER_INVALID_def NODE_TOKEN_SPECIAL_BIT_def u64_MAX_def)
  have "\<not> bit (word_of_nat n :: u64) 63" using small_token[OF assms, of 63] by auto
  then have "\<not> bit (word_of_nat n OR NODE_TOKEN_NONEXISTENT_BIT) 63" "\<not> bit (word_of_nat n :: u64) 63"
    by (auto simp: bit_or_iff bit_NONEXISTENT)
  with b show "word_of_nat n \<noteq> NODE_ITER_FINISHED" "word_of_nat n \<noteq> NODE_ITER_INVALID"
    "word_of_nat n OR NODE_TOKEN_NONEXISTENT_BIT \<noteq> NODE_ITER_FINISHED"
    "word_of_nat n OR NODE_TOKEN_NONEXISTENT_BIT \<noteq> NODE_ITER_INVALID" by metis+
qed (simp_all add: NODE_ITER_FINISHED_def NODE_ITER_INVALID_def NODE_TOKEN_SPECIAL_BIT_def u64_MAX_def TOKEN_LAST_def
    TOKEN_AFTER_LAST_def NODE_TOKEN_NONEXISTENT_BIT_def)

lemma small_masked:
  assumes "n < 64"
  shows "(word_of_nat n :: u64) AND ITER_TOKEN_OFFSET_MASK = word_of_nat n"
    "(word_of_nat n :: u64) AND NOT ITER_TOKEN_OFFSET_MASK = 0"
    "(word_of_nat n :: u64) \<noteq> TOKEN_LAST"
proof -
  have m: "i < 64 \<Longrightarrow> bit (word_of_nat n :: u64) i \<Longrightarrow> i < 6" for i using small_token[OF assms, of i] by auto
  then show "(word_of_nat n :: u64) AND ITER_TOKEN_OFFSET_MASK = word_of_nat n"
    "(word_of_nat n :: u64) AND NOT ITER_TOKEN_OFFSET_MASK = 0"
    by (auto intro!: bit_word_eqI simp: bit_and_iff bit_not_iff bit_0x3f)
  show "(word_of_nat n :: u64) \<noteq> TOKEN_LAST" using small_less_last(1)[OF assms] by auto
qed

text \<open>Ascending from an offset, in numbers.\<close>

definition ascend_offset :: "path \<Rightarrow> path \<Rightarrow> nat \<Rightarrow> nat \<Rightarrow> nat" where
  "ascend_offset key0 key1 offset m =
     (if offset \<le> length key0 then offset - m
      else
        let a = offset - length key0 - m in
        if a = 0 then 0 else if a \<le> length key0 \<and> take a key1 = take a key0 then a else length key0 + a)"

lemma ln_ascend_spec:
  assumes l: "length key0 + length key1 < 64" and k: "get_both_keys ln = (key0, key1)"
    and t: "t = word_of_nat n \<and> n \<le> length key0 + length key1 \<or> t = TOKEN_LAST \<and> n = length key0 + length key1"
    and m: "0 < m" "m \<le> (if n \<le> length key0 then n else n - length key0)" "0 < n" "key0 \<noteq> []"
  shows "ln_ascend_iter_token ln t m = Ret (word_of_nat (ascend_offset key0 key1 n m))"
proof -
  have n: "n < 64" using l t by auto
  define off :: u64 where "off = word_of_nat n"
  have off: "(if t = TOKEN_LAST then word_of_nat (length key0) + word_of_nat (length key1) else t AND ITER_TOKEN_OFFSET_MASK) = off"
    using t small_masked[OF n] by (auto simp: off_def)
  have u: "unat (word_of_nat i :: u64) = i" if "i < 64" for i using that by (simp add: unat_of_nat)
  have uo: "unat off = n" using u[OF n] by (simp add: off_def)
  have u0: "unat (word_of_nat (length key0) :: u64) = length key0" using u l by simp
  have u1: "unat (word_of_nat (length key0) + word_of_nat (length key1) :: u64) = length key0 + length key1"
    using u[OF l] by simp
  have ok: "\<not> (t = NODE_ITER_INVALID \<or> t = NODE_ITER_FINISHED \<or> node_iter_token_is_nonexistent t)"
    "\<not> (t \<noteq> TOKEN_LAST \<and> t AND NOT ITER_TOKEN_OFFSET_MASK \<noteq> 0)"
    using t small_not_special[OF n] small_masked[OF n] nonexistent_small(1)[OF n] by auto
  have le0: "off \<le> word_of_nat (length key0) \<longleftrightarrow> n \<le> length key0" using uo u0 by (simp add: word_le_nat_alt)
  have le1: "\<not> word_of_nat (length key0) + word_of_nat (length key1) < off"
    using uo u1 t by (auto simp: word_less_nat_alt)
  have pos: "off \<noteq> 0" using uo m(3) by auto
  have k0: "(0 :: u64) < word_of_nat (length key0)" using u0 m(4) by (simp add: word_less_nat_alt)
  have sub: "(word_of_nat i :: u64) - word_of_nat j = word_of_nat (i - j)" if "j \<le> i" for i j
    using that by simp
  have zero: "(word_of_nat i :: u64) = 0 \<longleftrightarrow> i = 0" if "i < 64" for i unfolding unat_eq_zero[symmetric] u[OF that] ..
  show ?thesis
  proof (cases "n \<le> length key0")
    case True
    have a: "off - word_of_nat m = word_of_nat (n - m)" using m True sub[of m n] by (simp add: off_def)
    have nm: "n - m < 64" using n by simp
    have Ret: "ln_ascend_iter_token ln t m =
       (if (word_of_nat (n - m) :: u64) = 0 then Ret 0 else Ret (0 + word_of_nat (n - m)))"
      unfolding ln_ascend_iter_token_def k Let_def off prod.case
      using ok m True le0 le1 pos uo by (simp add: a)
    show ?thesis unfolding Ret zero[OF nm] using True by (simp add: ascend_offset_def)
  next
    case False
    let ?a = "n - length key0 - m"
    define e0 e1 wm wk wa :: u64 where "e0 = word_of_nat (length key0)" and "e1 = word_of_nat (length key1)"
      and "wm = word_of_nat m" and "wk = word_of_nat (n - length key0)" and "wa = word_of_nat ?a"
    note ws = this
    have a: "off - e0 = wk" "wk - wm = wa"
      using m False sub[of "length key0" n] sub[of m "n - length key0"] by (simp_all add: off_def ws)
    have ua: "unat wa = ?a" "unat wk = n - length key0"
      using n unfolding ws by (intro u; simp)+
    have lea: "wa \<le> e0 \<longleftrightarrow> ?a \<le> length key0"
      using ua u0 by (simp add: word_le_nat_alt ws(1))
    have "?a < 64" using n by simp
    note z = zero[OF this, folded ws(5)]
    have mw: "m \<noteq> 0" "\<not> unat wk < m" using m False ua(2) by auto
    have c1: "(off \<le> e0) = False" using le0 False ws(1) by simp
    have c2: "(t = NODE_ITER_INVALID \<or> t = NODE_ITER_FINISHED \<or> node_iter_token_is_nonexistent t \<or> m = 0 \<or> off = 0 \<or>
        e0 + e1 < off \<or> (t \<noteq> TOKEN_LAST \<and> t AND NOT ITER_TOKEN_OFFSET_MASK \<noteq> 0) \<or> unat wk < m) = False"
      using ok mw le1[folded ws(1) ws(2)] pos by blast
    have Ret: "ln_ascend_iter_token ln t m =
       (if wa = 0 then Ret 0
        else if 0 < e0 \<and> wa \<le> e0 \<and> take (unat wa) key1 = take (unat wa) key0 then Ret wa
        else Ret (e0 + wa))"
      unfolding ln_ascend_iter_token_def k Let_def prod.case ws(1,2,3)[symmetric]
      unfolding off[folded ws(1), folded ws(2)]
      unfolding c1 if_False prod.case a c2 by (rule refl)
    show ?thesis
      unfolding Ret lea z ua ascend_offset_def using False k0[folded ws(1)] by (simp add: Let_def ws(1) ws(5))
  qed
qed

lemma ln_ascend_two:
  assumes S: "slice_utils_ok S" and ln: "ln = LN (Some (k0, p0)) (Some (k1, p1))"
    and k: "k0 \<noteq> []" "length k0 + length k1 \<le> 42" "k0 \<noteq> k1" "\<not> prefix k1 k0" "path_less k0 k1"
    and key: "prefix key k0 \<or> prefix key k1" and m: "0 < m" "m \<le> length key"
  shows "ln_ascend_iter_token ln (ln_iter_token_for_path S ln key) m =
    Ret (ln_iter_token_for_path S ln (take (length key - m) key))"
proof -
  have ne: "key \<noteq> []" using m by auto
  note tk = ln_token_two[OF S _ k(3-5), of _ p0 p1, folded ln]
  have both: "get_both_keys ln = (k0, k1)" by (simp add: ln get_both_keys_def)
  let ?key = "take (length key - m) key"
  have len: "length ?key = length key - m" by simp
  note asc = ln_ascend_spec[OF _ both _ m(1) _ _ k(1)]
  show ?thesis
  proof (cases "prefix key k0")
    case True
    have le: "length key \<le> length k0" using True by (rule prefix_length_le)
    have "ln_iter_token_for_path S ln key = word_of_nat (length key)" using tk[OF ne] True by simp
    then have "ln_ascend_iter_token ln (ln_iter_token_for_path S ln key) m =
        Ret (word_of_nat (ascend_offset k0 k1 (length key) m))"
      using k le m ne by (intro asc) auto
    moreover have "prefix ?key k0" using True take_is_prefix prefix_order.trans by blast
    then have "ln_iter_token_for_path S ln ?key = word_of_nat (length key - m)"
      using tk[of ?key] len by (cases "?key = []") auto
    ultimately show ?thesis using le by (simp add: ascend_offset_def)
  next
    case False
    then have k1: "prefix key k1" using key by simp
    have le: "length key \<le> length k1" using k1 by (rule prefix_length_le)
    have npl: "\<not> path_less p k0" if "prefix p k1" "\<not> prefix p k0" for p
      using path_less_between[OF that(1)] k(5) that(2) by blast
    have pos: "0 < length key" using ne by simp
    have "ln_iter_token_for_path S ln key = (if key = k1 then TOKEN_LAST else word_of_nat (length k0 + length key))"
      using tk[OF ne] False k1 npl[OF k1 False] by simp
    then have "ln_ascend_iter_token ln (ln_iter_token_for_path S ln key) m =
        Ret (word_of_nat (ascend_offset k0 k1 (length k0 + length key) m))"
      using k le m pos by (intro asc) auto
    moreover have "word_of_nat (ascend_offset k0 k1 (length k0 + length key) m) = ln_iter_token_for_path S ln ?key"
    proof (cases "length key - m = 0")
      case True
      then show ?thesis using pos by (simp add: ascend_offset_def)
    next
      case a: False
      then have ne': "?key \<noteq> []" using ne by simp
      have p1: "prefix ?key k1" using k1 take_is_prefix prefix_order.trans by blast
      have tk1: "take (length key - m) k1 = ?key"
        using k1 by (auto simp: prefix_def)
      have "length key - m \<le> length k0 \<and> take (length key - m) k1 = take (length key - m) k0 \<longleftrightarrow> prefix ?key k0"
        using a len unfolding tk1 by (metis append_eq_conv_conj prefix_def prefix_length_le)
      moreover have "?key \<noteq> k1" using le m pos len by (metis diff_less leD)
      ultimately show ?thesis
        using tk[OF ne'] p1 npl[OF p1] a pos unfolding ascend_offset_def Let_def
        by (cases "prefix ?key k0") (auto simp: len)
    qed
    ultimately show ?thesis by simp
  qed
qed

lemma ln_ascend_at:
  assumes S: "slice_utils_ok S" and wf: "wf_list ln" and key: "on_items (ln_items ln) key"
    and m: "0 < m" "m \<le> length key"
  shows "ln_ascend_iter_token ln (ln_iter_token_for_path S ln key) m =
    Ret (ln_iter_token_for_path S ln (take (length key - m) key))"
  using wf
proof (cases rule: wf_list_cases)
  case none
  then show ?thesis using key m by (auto simp: on_items_def)
next
  case (one k0 p0)
  have ne: "key \<noteq> []" using m by auto
  have pk: "prefix key k0" using key ne one by (simp add: on_items_def)
  have le: "length key \<le> length k0" using pk by (rule prefix_length_le)
  let ?key = "take (length key - m) key"
  have both: "get_both_keys ln = (k0, [])" by (simp add: one(1) get_both_keys_def)
  have "ln_iter_token_for_path S ln key = (if key = k0 then TOKEN_LAST else word_of_nat (length key))"
    using ln_token_one[OF S ne, of k0 p0] pk by (simp add: one(1))
  then have "ln_ascend_iter_token ln (ln_iter_token_for_path S ln key) m = Ret (word_of_nat (ascend_offset k0 [] (length key) m))"
    using one le m ne by (intro ln_ascend_spec[OF _ both]) auto
  moreover have "prefix ?key k0" using pk take_is_prefix prefix_order.trans by blast
  moreover have "?key \<noteq> k0" using le m ne by (metis diff_less leD length_greater_0_conv length_take min_def)
  ultimately show ?thesis
    using ln_token_one[OF S, of ?key k0 p0] le m ne
    by (cases "length key = m") (simp_all add: one(1) ascend_offset_def)
next
  case (same b p0 p1)
  have key1: "key = [b]" using key m by (cases key) (auto simp: on_items_def same(1))
  have both: "get_both_keys ln = ([b], [b])" by (simp add: same(1) get_both_keys_def)
  have "ln_ascend_iter_token ln TOKEN_LAST m = Ret (word_of_nat (ascend_offset [b] [b] 2 m))"
    using m key1 by (intro ln_ascend_spec[OF _ both]) auto
  then show ?thesis using ln_token_same[OF S, of "[b]" b p0 p1] key1 m by (simp add: same(1) ascend_offset_def)
next
  case (diff b0 r0 p0 b1 r1 p1)
  then show ?thesis using m key by (intro ln_ascend_two[OF S diff(1)]) (auto simp: on_items_def split: if_splits)
next
  case (below b p0 r1 p1)
  then show ?thesis using m key by (intro ln_ascend_two[OF S below(1)]) (auto simp: neq_Nil_conv on_items_def)
qed

interpretation list_cursor: node_cursor "\<lambda>ln. slice_utils_ok S \<and> wf_list ln" ln_items
    "\<lambda>ln key t. t = ln_iter_token_for_path S ln key" "\<lambda>ln. ln_new_iter_token" "ln_iter_token_for_path S"
    ln_ascend_iter_token ln_next_items
proof (unfold_locales, goal_cases)
  case (1 ln)
  then have "wf_list ln" by simp
  then show ?case by (cases rule: wf_list_cases) (auto simp: neq_Nil_conv)
next
  case (2 ln i)
  then have "wf_list ln" by simp
  then show ?case using 2 by (cases rule: wf_list_cases) (auto simp: neq_Nil_conv split: if_splits)
next
  case (3 ln)
  then show ?case by (simp add: ln_new_iter_token_def)
next
  case 4
  show ?case by (rule refl)
next
  case (5 ln key t)
  then show ?case using ln_token_cases[of S ln key] small_not_special by fastforce
next
  case (6 ln key t)
  then show ?case using ln_token_exists by blast
next
  case (7 ln key t skip)
  then show ?case using ln_next_items_spec[of S ln key skip] by (simp add: item_result_def)
next
  case (8 ln key t skip i)
  then show ?case using ln_next_items_spec[of S ln key skip] by (simp add: item_result_def)
next
  case (9 ln key t m)
  then show ?case using ln_ascend_at[of S ln key m] by blast
next
  case (10 ln key t skip)
  then have "t \<in> {TOKEN_LAST, TOKEN_AFTER_LAST}"
    using ln_token_cases[of S ln key] small_less_last by fastforce
  then have "63 \<le> tok_offset t" by auto
  moreover have "length (fst (get_both_keys ln)) + length (snd (get_both_keys ln)) \<le> 42"
    using 10 by (auto elim: wf_list_cases[of ln] simp: get_both_keys_def)
  ultimately have "ln_next_items ln t skip = iter_finished"
    by (simp add: ln_next_items_alt get_both_keys_def)
  then have "item_result (ln_iter_token_for_path S ln) (next_item (ln_items ln) key skip) = iter_finished"
    using ln_next_items_spec[of S ln key skip] 10 by simp
  moreover have "fst i \<noteq> []" if "i \<in> set (ln_items ln)" for i
    using 10 that by (auto elim!: wf_list_cases[of ln] simp: neq_Nil_conv split: if_splits)
  moreover have "next_item (ln_items ln) key skip = Some i \<Longrightarrow> i \<in> set (ln_items ln)" for i
    unfolding next_item_def by (auto simp: find_Some_iff)
  ultimately show ?case
    unfolding item_result_def by (cases "next_item (ln_items ln) key skip") (force, fastforce)
qed

subsection \<open>Byte nodes\<close>

definition byte_at :: "('c, 'v) byte_node \<Rightarrow> path \<Rightarrow> u64 \<Rightarrow> bool" where
  "byte_at bn key t \<longleftrightarrow>
     (case key of
        [] \<Rightarrow> t = token_at bn 0
      | b # rest \<Rightarrow>
          (\<exists>idx. unat idx \<le> 256 \<and> (unat b < 255 \<longrightarrow> idx = word_of_nat (rank (bn_mask bn) (unat b + 1))) \<and>
             t = (if rest = [] \<and> test_bit (bn_mask bn) b then iter_token (ucast b + 1) idx
                  else iter_token (ucast b + 1) idx OR NODE_TOKEN_NONEXISTENT_BIT)))"

abbreviation bn_items :: "('c, 'v) byte_node \<Rightarrow> ('c, 'v) item list" where
  "bn_items bn \<equiv> byte_items bn 0"

definition byte_item :: "('c, 'v) byte_node \<Rightarrow> nat \<Rightarrow> ('c, 'v) item" where
  "byte_item bn n = ([to_u8 n], cf_rec (bn_values bn ! rank (bn_mask bn) n), cf_val (bn_values bn ! rank (bn_mask bn) n))"

definition byte_pos :: "path \<Rightarrow> nat" where
  "byte_pos key = (case key of [] \<Rightarrow> 0 | b # rest \<Rightarrow> unat b + 1)"

lemma byte_pos_le: "byte_pos key \<le> 256"
proof (cases key)
  case (Cons b rest)
  then show ?thesis using unat_u8_less[of b] by (simp add: byte_pos_def)
qed (simp add: byte_pos_def)

lemma byte_items_alt: "byte_items bn s = map (byte_item bn) (filter (mbit (bn_mask bn)) [s..<256])"
  by (simp add: byte_items_def byte_item_def o_def)

lemma after_byte: "n < 256 \<Longrightarrow> after key skip (fst (byte_item bn n)) \<longleftrightarrow> byte_pos key \<le> n"
proof (cases key)
  case (Cons b rest)
  assume n: "n < 256"
  have "b < to_u8 n \<longleftrightarrow> unat b < n" using n by (simp add: word_less_nat_alt)
  then show ?thesis by (cases rest) (auto simp: Cons after_def byte_item_def byte_pos_def)
qed (simp add: byte_item_def byte_pos_def)

lemma find_filter_conj: "find P (filter Q xs) = find (\<lambda>x. Q x \<and> P x) xs"
  by (induction xs) auto

lemma next_byte_item: "next_item (bn_items bn) key skip = map_option (byte_item bn) (find (mbit (bn_mask bn)) [byte_pos key..<256])"
proof -
  let ?s = "byte_pos key"
  have le0: "0 \<le> ?s" by simp
  have "next_item (bn_items bn) key skip =
      map_option (byte_item bn) (find (\<lambda>n. mbit (bn_mask bn) n \<and> after key skip (fst (byte_item bn n))) [0..<256])"
    unfolding next_item_def byte_items_alt find_map_comp find_filter_conj by (simp add: o_def)
  also have "find (\<lambda>n. mbit (bn_mask bn) n \<and> after key skip (fst (byte_item bn n))) [0..<256] =
      find (\<lambda>n. mbit (bn_mask bn) n \<and> ?s \<le> n) ([0..<?s] @ [?s..<256])"
    unfolding upt_split[OF le0 byte_pos_le, symmetric] by (rule find_cong) (auto simp: after_byte)
  also have "\<dots> = find (mbit (bn_mask bn)) [?s..<256]"
  proof -
    have "find (\<lambda>n. mbit (bn_mask bn) n \<and> ?s \<le> n) [0..<?s] = None" by (auto simp: find_None_iff)
    moreover have "find (\<lambda>n. mbit (bn_mask bn) n \<and> ?s \<le> n) [?s..<256] = find (mbit (bn_mask bn)) [?s..<256]"
      by (intro find_cong) auto
    ultimately show ?thesis by (simp add: find_append_opt)
  qed
  finally show ?thesis .
qed

lemma iter_token_bits: "bit (iter_token a b) n \<Longrightarrow> n < 25"
  by (auto simp: iter_token_def bit_or_iff bit_push_bit_iff bit_unsigned_iff dest: bit_imp_le_length)

lemma byte_at_bits: "byte_at bn key t \<Longrightarrow> bit t n \<Longrightarrow> n < 25 \<or> n = 62"
  using iter_token_bits unfolding byte_at_def token_at_def
  by (auto simp: bit_or_iff bit_NONEXISTENT split: list.splits if_splits)

lemma byte_at_token:
  assumes "byte_at bn key t" "byte_pos key < 256"
  shows "t = token_at bn (byte_pos key) \<or> t = token_at bn (byte_pos key) OR NODE_TOKEN_NONEXISTENT_BIT"
proof (cases key)
  case Nil
  then show ?thesis using assms by (simp add: byte_at_def byte_pos_def)
next
  case (Cons b rest)
  have s: "(ucast b :: u16) + 1 = word_of_nat (unat b + 1)"
    using unat_u8_less[of b] by (simp add: word_unat_eq_iff unat_word_ariths unat_ucast_8_16 unat_of_nat)
  then show ?thesis
    using assms by (auto simp: Cons byte_at_def byte_pos_def token_at_def add.commute split: if_splits)
qed

lemma byte_at_last_entry:
  assumes "byte_at bn key t" "byte_pos key = 256"
  shows "bn_next_items bn t = iter_finished"
proof -
  obtain b rest where key: "key = b # rest" using assms(2) by (cases key) (auto simp: byte_pos_def)
  obtain idx :: u16 where idx: "unat idx \<le> 256" "t = iter_token (ucast b + 1) idx \<or> t = iter_token (ucast b + 1) idx OR NODE_TOKEN_NONEXISTENT_BIT"
    using assms(1) by (auto simp: byte_at_def key split: if_splits)
  have b: "unat ((ucast b :: u16) + 1) = 256"
    using assms(2) by (simp add: byte_pos_def key unat_word_ariths unat_ucast_8_16)
  have "iter_token_next_byte (t AND NOT NODE_TOKEN_NONEXISTENT_BIT) = ucast b + 1"
    using token_fields(1)[OF _ idx] b by simp
  then have "next_iter_item_from bn (t AND NOT NODE_TOKEN_NONEXISTENT_BIT) = None"
    using b by (simp add: next_iter_item_from_def)
  then show ?thesis by (simp add: bn_next_items_def)
qed

lemma token_at_byte:
  assumes "n < 256" "mbit (bn_mask bn) n"
  shows "byte_at bn [to_u8 n] (token_at bn (Suc n))"
proof -
  have "(ucast (to_u8 n) :: u16) + 1 = word_of_nat (Suc n)"
    using assms by (simp add: word_unat_eq_iff unat_word_ariths unat_ucast_8_16 unat_of_nat)
  moreover have "unat (word_of_nat (rank (bn_mask bn) (Suc n)) :: u16) \<le> 256"
    using rank_256[of "Suc n" "bn_mask bn"] assms by (simp add: unat_u16)
  ultimately show ?thesis
    using assms unfolding byte_at_def token_at_def
    by (auto simp: test_bit_mbit add.commute intro!: exI[of _ "word_of_nat (rank (bn_mask bn) (Suc n))"])
qed

lemma byte_for_path_at: "byte_at bn key (bn_iter_token_for_path bn key)"
proof (cases key)
  case Nil
  then show ?thesis by (simp add: byte_at_def bn_iter_token_for_path_def bn_new_iter_token_def token_at_def)
next
  case (Cons b rest)
  let ?m = "bn_mask bn"
  let ?idx = "index_of ?m b + (if test_bit ?m b then 1 else 0)"
  have "unat (ucast ?idx :: u16) \<le> 256" using unat_u8_less[of ?idx] by (simp add: unat_ucast_8_16)
  moreover have "(ucast ?idx :: u16) = word_of_nat (rank ?m (unat b + 1))" if "unat b < 255"
  proof -
    have "rank ?m (unat b + 1) < 256" using rank_le[of ?m "unat b + 1"] that by simp
    then have "unat ?idx = rank ?m (unat b + 1)"
      by (auto simp: rank_Suc test_bit_mbit unat_word_ariths unat_index_of)
    then show ?thesis
      using \<open>rank ?m (unat b + 1) < 256\<close> by (simp add: word_unat_eq_iff unat_ucast_8_16 unat_of_nat)
  qed
  ultimately show ?thesis
    unfolding byte_at_def by (auto simp: Cons bn_iter_token_for_path_def Let_def intro!: exI[of _ "ucast ?idx"])
qed

lemma on_byte_items: "on_items (bn_items bn) key \<longleftrightarrow> key = [] \<or> (\<exists>b. key = [b] \<and> test_bit (bn_mask bn) b)"
proof (cases key)
  case (Cons b rest)
  have "\<exists>n. mbit (bn_mask bn) n \<and> b = to_u8 n" if "test_bit (bn_mask bn) b"
    using that by (intro exI[of _ "unat b"]) (simp add: test_bit_mbit)
  then show ?thesis
    by (force simp: Cons on_items_def byte_items_alt byte_item_def test_bit_mbit mbit_less)
qed (simp add: on_items_def)

interpretation byte_cursor: node_cursor bn_ok bn_items byte_at "\<lambda>bn. bn_new_iter_token" bn_iter_token_for_path
    "\<lambda>bn. bn_ascend_iter_token" "\<lambda>bn t skip. bn_next_items bn t"
proof (unfold_locales, goal_cases)
  case (1 bn)
  have "sorted_wrt (\<lambda>i j. path_less (fst (byte_item bn i)) (fst (byte_item bn j))) (filter (mbit (bn_mask bn)) [0..<256])"
    by (rule sorted_wrt_mono_rel[of _ "(<)"])
      (auto simp: byte_item_def word_less_nat_alt intro: sorted_wrt_filter)
  then show ?case by (simp add: byte_items_alt sorted_wrt_map o_def)
next
  case (2 bn i)
  then show ?case by (auto simp: byte_items_alt byte_item_def)
next
  case (3 bn)
  then show ?case by (simp add: byte_at_def bn_new_iter_token_def token_at_def)
next
  case (4 bn key)
  show ?case by (rule byte_for_path_at)
next
  case (5 bn key t)
  have "bit NODE_ITER_FINISHED 63" "bit NODE_ITER_INVALID 63"
    by (simp_all add: NODE_ITER_FINISHED_def NODE_ITER_INVALID_def NODE_TOKEN_SPECIAL_BIT_def u64_MAX_def)
  then show ?case using byte_at_bits[OF 5(2), of 63] by auto
next
  case (6 bn key t)
  have n: "\<not> bit (iter_token a b) 62" for a b using iter_token_bits[of a b 62] by auto
  show ?case
  proof (cases key)
    case Nil
    then show ?thesis using 6(2) n by (simp add: byte_at_def token_at_def on_byte_items nonexistent_bit)
  next
    case (Cons b rest)
    then obtain idx where "t = (if rest = [] \<and> test_bit (bn_mask bn) b then iter_token (ucast b + 1) idx
        else iter_token (ucast b + 1) idx OR NODE_TOKEN_NONEXISTENT_BIT)"
      using 6(2) by (auto simp: byte_at_def)
    then show ?thesis
      using n Cons by (cases "rest = [] \<and> test_bit (bn_mask bn) b")
        (auto simp: on_byte_items nonexistent_bit bit_or_iff bit_NONEXISTENT)
  qed
next
  case (7 bn key t skip)
  show ?case
  proof (cases "byte_pos key < 256")
    case True
    have "find (mbit (bn_mask bn)) [byte_pos key..<256] = None" using 7(3) by (simp add: next_byte_item)
    then show ?thesis using next_items_step(1)[OF 7(1) byte_pos_le byte_at_token[OF 7(2) True]] by simp
  next
    case False
    then show ?thesis using byte_at_last_entry[OF 7(2)] byte_pos_le[of key] by simp
  qed
next
  case (8 bn key t skip i)
  then obtain n where n: "find (mbit (bn_mask bn)) [byte_pos key..<256] = Some n" "i = byte_item bn n"
    by (auto simp: next_byte_item)
  note p = filter_upt_find(1)[OF n(1)]
  then have "byte_pos key < 256" by simp
  from next_items_step(2)[OF 8(1) byte_pos_le byte_at_token[OF 8(2) this] n(1)]
  show ?case using token_at_byte[of n bn] p by (auto simp: n(2) byte_item_def)
next
  case (9 bn key t m)
  then have "m = 1" "length key = 1" by (auto simp: on_byte_items)
  moreover have "t \<noteq> NODE_ITER_INVALID"
  proof -
    have "bit NODE_ITER_INVALID 63" by (simp add: NODE_ITER_INVALID_def NODE_TOKEN_SPECIAL_BIT_def)
    then show ?thesis using byte_at_bits[OF 9(2), of 63] by auto
  qed
  ultimately show ?case by (simp add: bn_ascend_iter_token_def byte_at_def bn_new_iter_token_def token_at_def)
next
  case (10 bn key t skip)
  have "\<not> bit t 63" using byte_at_bits[OF 10(2), of 63] by auto
  have "t < TOKEN_LAST"
  proof -
    have "t = take_bit 63 t"
      using \<open>\<not> bit t 63\<close> by (intro bit_word_eqI) (auto simp: bit_take_bit_iff less_Suc_eq numeral_eq_Suc)
    then have "unat t < 2 ^ 63" by (metis take_bit_nat_less_exp unsigned_take_bit_eq)
    moreover have "2 ^ 63 \<le> unat TOKEN_LAST"
      by (simp add: TOKEN_LAST_def NODE_TOKEN_NONEXISTENT_BIT_def u64_MAX_def)
    ultimately show ?thesis by (simp add: word_less_nat_alt)
  qed
  then show ?case using 10 by simp
qed

subsection \<open>Every node\<close>

fun node_items :: "'v node \<Rightarrow> ('v node, 'v) item list" where
  "node_items EmptyN = []"
| "node_items (ListN ln) = ln_items ln"
| "node_items (ByteN bn) = bn_items bn"

fun node_at :: "slice_utils \<Rightarrow> 'v node \<Rightarrow> path \<Rightarrow> u64 \<Rightarrow> bool" where
  "node_at S EmptyN key t = (t = empty_iter_token_for_path key)"
| "node_at S (ListN ln) key t = (t = ln_iter_token_for_path S ln key)"
| "node_at S (ByteN bn) key t = byte_at bn key t"

definition cursor_ok :: "slice_utils \<Rightarrow> 'v node \<Rightarrow> bool" where
  "cursor_ok S n \<longleftrightarrow> slice_utils_ok S \<and> local_ok n"

lemma cursor_ok_simps [simp]:
  "cursor_ok S (ListN ln) \<longleftrightarrow> slice_utils_ok S \<and> wf_list ln"
  "cursor_ok S (ByteN bn) \<longleftrightarrow> slice_utils_ok S \<and> bn_ok bn"
  by (simp_all add: cursor_ok_def)

interpretation cursor: node_cursor "cursor_ok S" node_items "node_at S" node_new_iter_token
    "node_iter_token_for_path S" node_ascend_iter_token node_next_items
proof (unfold_locales, goal_cases)
  case (1 n)
  then show ?case using list_cursor.items_sorted byte_cursor.items_sorted by (cases n) auto
next
  case (2 n i)
  then show ?case using list_cursor.items_nonempty byte_cursor.items_nonempty by (cases n; simp; blast)
next
  case (3 n)
  then show ?case using list_cursor.start_at byte_cursor.start_at
    by (cases n) (auto simp: empty_iter_token_for_path_def)
next
  case (4 n key)
  then show ?case by (cases n) (auto simp: byte_for_path_at)
next
  case (5 n key t)
  then show ?case using list_cursor.at_ordinary byte_cursor.at_ordinary small_not_special[of 0]
    by (cases n; simp add: empty_iter_token_for_path_def; blast?)
next
  case (6 n key t)
  then show ?case using list_cursor.at_exists byte_cursor.at_exists
    by (cases n; simp add: empty_iter_token_for_path_def on_items_def[of "[]"]; blast?)
next
  case (7 n key t skip)
  then show ?case using list_cursor.next_finished byte_cursor.next_finished
    by (cases n; simp; blast?)
next
  case (8 n key t skip i)
  show ?case
  proof (cases n)
    case EmptyN
    then show ?thesis using 8 by (simp add: next_item_def)
  next
    case (ListN ln)
    then show ?thesis using 8 list_cursor.next_found[where S = S and n = ln and key = key and t = t and skip = skip and i = i] by simp
  next
    case (ByteN bn)
    then show ?thesis using 8 byte_cursor.next_found[of bn key t skip i] by simp
  qed
next
  case (9 n key t m)
  show ?case
  proof (cases n)
    case EmptyN
    then show ?thesis using 9 by (simp add: on_items_def)
  next
    case (ListN ln)
    then show ?thesis using 9 list_cursor.ascend_at[where S = S and n = ln and key = key and t = t and m = m] by simp
  next
    case (ByteN bn)
    then show ?thesis using 9 byte_cursor.ascend_at[of bn key t m] by simp
  qed
next
  case (10 n key t skip)
  show ?case
  proof (cases n)
    case EmptyN
    then show ?thesis by (simp add: next_item_def)
  next
    case (ListN ln)
    then show ?thesis using 10 list_cursor.at_last[where S = S and n = ln and key = key and t = t and skip = skip] by simp
  next
    case (ByteN bn)
    then show ?thesis using 10 byte_cursor.at_last[of bn key t skip] by simp
  qed
qed

subsection \<open>Driving a cursor\<close>

text \<open>From a token until \<open>NODE_ITER_FINISHED\<close>, with at most \<open>fuel\<close> calls.\<close>

fun iterate :: "(u64 \<Rightarrow> (u64 \<times> ('c, 'v) item) outcome) \<Rightarrow> nat \<Rightarrow> u64 \<Rightarrow> ('c, 'v) item list option" where
  "iterate step 0 token = None"
| "iterate step (Suc fuel) token =
     (case step token of
        Panic \<Rightarrow> None
      | Ret (token', i) \<Rightarrow>
          if token' = NODE_ITER_FINISHED then Some []
          else map_option (\<lambda>is. i # is) (iterate step fuel token'))"

lemma after_False: "after key False p \<longleftrightarrow> path_less key p"
  by (simp add: after_def)

lemma next_item_filter:
  assumes "sorted_wrt path_less (map fst its)"
  shows "next_item its key False = None \<Longrightarrow> filter (\<lambda>i. path_less key (fst i)) its = []"
    and "next_item its key False = Some i \<Longrightarrow>
      filter (\<lambda>i. path_less key (fst i)) its = i # filter (\<lambda>j. path_less (fst i) (fst j)) its"
proof -
  show "next_item its key False = None \<Longrightarrow> filter (\<lambda>i. path_less key (fst i)) its = []"
    unfolding next_item_def after_False find_None_iff filter_empty_conv by blast
  show "next_item its key False = Some i \<Longrightarrow>
      filter (\<lambda>i. path_less key (fst i)) its = i # filter (\<lambda>j. path_less (fst i) (fst j)) its"
    using assms
  proof (induction its)
    case (Cons j its)
    have less: "\<forall>x \<in> set its. path_less (fst j) (fst x)" using Cons.prems(2) by auto
    show ?case
    proof (cases "path_less key (fst j)")
      case True
      then have "i = j" using Cons.prems(1) by (simp add: next_item_def after_False)
      moreover have "path_less key (fst x)" if "x \<in> set its" for x
        using True less that path_less_trans by blast
      ultimately show ?thesis using True less by (simp add: filter_id_conv)
    next
      case False
      then have "next_item its key False = Some i" using Cons.prems(1) by (simp add: next_item_def after_False)
      moreover have "\<not> path_less (fst i) (fst j)"
      proof -
        have "i \<in> set its" using \<open>next_item its key False = Some i\<close> by (auto simp: next_item_def find_Some_iff)
        then show ?thesis using less path_less_asym by blast
      qed
      ultimately show ?thesis using Cons False by simp
    qed
  qed (simp add: next_item_def)
qed

context node_cursor
begin

lemma resume:
  assumes "ok n" "at n key t" "length (filter (\<lambda>i. path_less key (fst i)) (items n)) < fuel"
  shows "iterate (\<lambda>t. nxt n t False) fuel t = Some (filter (\<lambda>i. path_less key (fst i)) (items n))"
  using assms(2,3)
proof (induction fuel arbitrary: key t)
  case (Suc fuel)
  note filt = next_item_filter[OF items_sorted[OF assms(1)], of key]
  show ?case
  proof (cases "next_item (items n) key False")
    case None
    then show ?thesis using next_finished[OF assms(1) Suc.prems(1) None] filt(1) by simp
  next
    case (Some i)
    then obtain t' where t': "nxt n t False = Ret (t', i)" "at n (fst i) t'"
      using next_found[OF assms(1) Suc.prems(1) Some] by blast
    then have "t' \<noteq> NODE_ITER_FINISHED" using at_ordinary assms(1) by blast
    then show ?thesis
      using Suc.IH[OF t'(2)] Suc.prems(2) filt(2)[OF Some] t'(1) by simp
  qed
qed simp

lemma iterate_all:
  assumes "ok n" "length (items n) < fuel"
  shows "iterate (\<lambda>t. nxt n t False) fuel (start n) = Some (items n)"
proof -
  have "filter (\<lambda>i. path_less [] (fst i)) (items n) = items n"
    using items_nonempty[OF assms(1)] by (simp add: filter_id_conv)
  then show ?thesis using resume[OF assms(1) start_at[OF assms(1)], of fuel] assms(2) by simp
qed

end

end
