(* ===== verification/Node_Query_Laws.thy ===== *)
theory Node_Query_Laws
  imports Node_Iter_Laws Subtract_List
begin

text \<open>
  The queries a zipper steps with, against the items of the node: which children and values an item
  stands for, the branch bytes below a path, the nth child and the siblings of a child.
\<close>

subsection \<open>Items, children and values\<close>

definition item_of :: "('v node, 'v) item \<Rightarrow> (path \<times> 'v voc) set" where
  "item_of i = {(fst i, Child c) | c. fst (snd i) = Some c} \<union> {(fst i, Val v) | v. snd (snd i) = Some v}"

lemma item_of_simps [simp]:
  "item_of (k, None, None) = {}" "item_of (k, Some c, None) = {(k, Child c)}"
  "item_of (k, None, Some v) = {(k, Val v)}" "item_of (k, Some c, Some v) = {(k, Child c), (k, Val v)}"
  by (auto simp: item_of_def)

lemma ln_items_slots:
  assumes "wf_list ln"
  shows "(\<Union>i \<in> set (ln_items ln). item_of i) = slots_of ln" and "i \<in> set (ln_items ln) \<Longrightarrow> item_of i \<noteq> {}"
proof -
  have "(\<Union>i \<in> set (ln_items ln). item_of i) = slots_of ln \<and> (\<forall>i \<in> set (ln_items ln). item_of i \<noteq> {})"
    using assms
  proof (cases rule: wf_list_cases)
    case (one k0 p0)
    then show ?thesis by (cases p0) auto
  next
    case (diff b0 r0 p0 b1 r1 p1)
    then show ?thesis by (cases p0; cases p1) auto
  next
    case (same b p0 p1)
    then show ?thesis by (cases p0; cases p1) auto
  next
    case (below b p0 r1 p1)
    then show ?thesis by (cases p0; cases p1) auto
  qed simp
  then show "(\<Union>i \<in> set (ln_items ln). item_of i) = slots_of ln" "i \<in> set (ln_items ln) \<Longrightarrow> item_of i \<noteq> {}" by auto
qed

lemma byte_item_mem:
  assumes "bn_ok bn"
  shows "i \<in> set (bn_items bn) \<longleftrightarrow> (\<exists>b cf. bn_get bn b = Some cf \<and> i = ([b], cf_rec cf, cf_val cf))"
proof -
  obtain m cfs where bn: "bn = BN m cfs" by (cases bn)
  have get: "bn_get bn b = (if mbit m (unat b) then Some (cfs ! rank m (unat b)) else None)" for b
    using bn_get_alt[of m cfs b] assms by (simp add: bn)
  show ?thesis
  proof
    assume "i \<in> set (bn_items bn)"
    then obtain n where n: "n < 256" "mbit m n" "i = byte_item bn n" by (auto simp: byte_items_alt bn)
    then have "bn_get bn (to_u8 n) = Some (cfs ! rank m n)" by (simp add: get)
    then show "\<exists>b cf. bn_get bn b = Some cf \<and> i = ([b], cf_rec cf, cf_val cf)"
      using n by (intro exI conjI) (auto simp: byte_item_def bn)
  next
    assume "\<exists>b cf. bn_get bn b = Some cf \<and> i = ([b], cf_rec cf, cf_val cf)"
    then obtain b cf where b: "bn_get bn b = Some cf" "i = ([b], cf_rec cf, cf_val cf)" by blast
    then have m: "mbit m (unat b)" "cf = cfs ! rank m (unat b)" by (auto simp: get split: if_splits)
    then have "i = byte_item bn (unat b)" using b by (simp add: byte_item_def bn)
    then show "i \<in> set (bn_items bn)"
      using m(1) unat_u8_less[of b] by (auto simp: byte_items_alt bn)
  qed
qed

text \<open>An item is what the node answers at its path; every child and every value is in an item.\<close>

lemma node_item_get:
  assumes "wf_node n" "i \<in> set (node_items n)"
  shows "node_get_val n (fst i) = snd (snd i)"
    and "node_get_child n (fst i) = map_option (\<lambda>c. (length (fst i), c)) (fst (snd i))"
proof -
  have "node_get_val n (fst i) = snd (snd i) \<and> node_get_child n (fst i) = map_option (\<lambda>c. (length (fst i), c)) (fst (snd i))"
  proof (cases n)
    case EmptyN
    then show ?thesis using assms by simp
  next
    case (ListN ln)
    then have wf: "wf_node (ListN ln)" using assms by simp
    then have wl: "wf_list ln" by simp
    obtain k c v where i: "i = (k, c, v)" by (cases i)
    have ii: "(k, c, v) \<in> set (ln_items ln)" using assms(2) ListN i by simp
    show ?thesis
      using wl
    proof (cases rule: wf_list_cases)
      case none
      then show ?thesis using ii by simp
    next
      case (one k0 p0)
      then show ?thesis using ii by (cases p0) (auto simp: i ListN ln_get_val_def ln_get_child_def)
    next
      case (diff b0 r0 p0 b1 r1 p1)
      have ne: "b0 \<noteq> b1" using diff by auto
      show ?thesis using ii diff(1) ne by (cases p0; cases p1) (auto simp: i ListN ln_get_val_def ln_get_child_def split: if_splits)
    next
      case (same b p0 p1)
      then show ?thesis using ii by (cases p0; cases p1) (auto simp: i ListN ln_get_val_def ln_get_child_def)
    next
      case (below b p0 r1 p1)
      then show ?thesis using ii by (cases p0; cases p1) (auto simp: i ListN ln_get_val_def ln_get_child_def)
    qed
  next
    case (ByteN bn)
    then show ?thesis using assms byte_item_mem[of bn i]
      by (auto simp: bn_get_val_def bn_get_child_def split: option.splits)
  qed
  then show "node_get_val n (fst i) = snd (snd i)"
    "node_get_child n (fst i) = map_option (\<lambda>c. (length (fst i), c)) (fst (snd i))" by auto
qed

lemma node_child_item:
  assumes "wf_node n" "key \<noteq> []" "node_get_child n key = Some (l, c)"
  shows "\<exists>v. (take l key, Some c, v) \<in> set (node_items n)"
proof (cases n)
  case EmptyN
  then show ?thesis using assms by simp
next
  case (ListN ln)
  then have wf: "wf_node (ListN ln)" using assms by simp
  then have wl: "wf_list ln" by simp
  obtain k where k: "(k, Child c) \<in> slots_of ln" "l = length k" "prefix k key"
    using assms(3) ListN ln_get_child_iff[OF wf] by auto
  then obtain i where i: "i \<in> set (ln_items ln)" "(k, Child c) \<in> item_of i" using ln_items_slots(1)[OF wl] by blast
  then have "i = (take l key, Some c, snd (snd i))"
    using k by (auto simp: item_of_def prefix_def prod_eq_iff)
  then show ?thesis using i(1) ListN by (metis node_items.simps(2))
next
  case (ByteN bn)
  then obtain cf where "bn_get bn (hd key) = Some cf" "cf_rec cf = Some c" "l = 1"
    using assms(3) by (auto simp: bn_get_child_def split: option.splits if_splits)
  then show ?thesis using byte_item_mem[of bn] assms(1,2) by (cases key) (auto simp: ByteN)
qed

lemma node_val_item:
  assumes "wf_node n" "node_get_val n key = Some v"
  shows "\<exists>c. (key, c, Some v) \<in> set (node_items n)"
proof (cases n)
  case EmptyN
  then show ?thesis using assms by simp
next
  case (ListN ln)
  then have wl: "wf_list ln" using assms by simp
  then have "(key, Val v) \<in> slots_of ln" using assms(2) ListN ln_get_val_iff[of ln key v] by simp
  then obtain i where i: "i \<in> set (ln_items ln)" "(key, Val v) \<in> item_of i" using ln_items_slots(1)[OF wl] by blast
  then have "i = (key, fst (snd i), Some v)" by (auto simp: item_of_def prod_eq_iff)
  then show ?thesis using i(1) ListN by (metis node_items.simps(2))
next
  case (ByteN bn)
  then obtain cf where "bn_get bn (hd key) = Some cf" "cf_val cf = Some v" "length key = 1"
    using assms(2) by (auto simp: bn_get_val_def split: option.splits if_splits)
  then show ?thesis using byte_item_mem[of bn] assms(1) by (cases key) (auto simp: ByteN)
qed

lemma node_item_wf: "wf_node n \<Longrightarrow> (k, Some c, v) \<in> set (node_items n) \<Longrightarrow> wf_node c \<and> size c < size n"
  using node_item_get(2)[of n "(k, Some c, v)"] node_get_child_bounds[of n k "length k" c] node_get_child_size[of n k]
    cursor.items_nonempty[of std_slice_utils n "(k, Some c, v)"]
  by (auto simp: cursor_ok_def std_slice_utils_ok wf_node.simps[of n])

lemma node_contains_items:
  assumes "slice_utils_ok S" "wf_node n" "key \<noteq> []"
  shows "node_contains_partial_key S n key \<longleftrightarrow> on_items (node_items n) key"
proof (cases n)
  case EmptyN
  then show ?thesis using assms by (simp add: on_items_def)
next
  case (ListN ln)
  then have wl: "wf_list ln" using assms by simp
  have "node_contains_partial_key S n key \<longleftrightarrow> (\<exists>e \<in> slots_of ln. prefix key (fst e))"
    using assms(1,3) by (cases "slot0 ln"; cases "slot1 ln")
      (auto simp: ListN ln_contains_partial_key_def get_both_keys_def slots_of_def)
  also have "\<dots> \<longleftrightarrow> (\<exists>i \<in> set (ln_items ln). prefix key (fst i))"
  proof -
    have "e \<in> item_of i \<Longrightarrow> fst e = fst i" for e and i :: "('a node, 'a) item" by (auto simp: item_of_def)
    then show ?thesis using ln_items_slots[OF wl] by (metis (no_types, lifting) UN_iff all_not_in_conv)
  qed
  finally show ?thesis using assms(3) by (simp add: on_items_def ListN)
next
  case (ByteN bn)
  then show ?thesis using assms(3) on_byte_items[of bn key]
    by (auto simp: bn_contains_partial_key_def length_Suc_conv)
qed

subsection \<open>The branch bytes below a path\<close>

lemma bits_eqI:
  assumes "sorted_wrt (<) xs" "\<And>b. test_bit m b \<longleftrightarrow> b \<in> set xs"
  shows "bits m = map unat xs"
proof (rule sorted_distinct_set_unique)
  show "sorted (map unat xs)" "distinct (map unat xs)"
    using assms(1) by (induction xs) (auto simp: word_less_nat_alt)
  show "set (bits m) = set (map unat xs)"
  proof -
    have "mbit m n \<longleftrightarrow> n < 256 \<and> to_u8 n \<in> set xs" for n
      using assms(2)[of "to_u8 n"] mbit_less[of m n] by (auto simp: test_bit_mbit)
    then show ?thesis using unat_u8_less by (force simp: set_bits)
  qed
qed simp_all

lemma mask_search_list:
  assumes xs: "sorted_wrt (<) xs" "\<And>b. test_bit m b \<longleftrightarrow> b \<in> set xs"
  shows "next_bit m b = find (\<lambda>c. b < c) xs" "prev_bit m b = find (\<lambda>c. c < b) (rev xs)"
    "indexed_bit True m n = (if n < length xs then Some (xs ! n) else None)"
proof -
  note bits = bits_eqI[OF xs]
  have up: "find (mbit m) [s..<256] = find (\<lambda>n. s \<le> n) (bits m)" if "s \<le> 256" for s
  proof -
    have "find (\<lambda>n. s \<le> n) (bits m) = find (\<lambda>n. mbit m n \<and> s \<le> n) ([0..<s] @ [s..<256])"
      unfolding bits_def find_filter_conj upt_split[OF le0 that, symmetric] ..
    moreover have "find (\<lambda>n. mbit m n \<and> s \<le> n) [0..<s] = None" by (auto simp: find_None_iff)
    moreover have "find (\<lambda>n. mbit m n \<and> s \<le> n) [s..<256] = find (mbit m) [s..<256]" by (intro find_cong) auto
    ultimately show ?thesis by (simp add: find_append_opt)
  qed
  have down: "find (mbit m) (rev [0..<s]) = find (\<lambda>n. n < s) (rev (bits m))" if "s \<le> 256" for s
  proof -
    have "find (\<lambda>n. n < s) (rev (bits m)) = find (\<lambda>n. mbit m n \<and> n < s) (rev [s..<256] @ rev [0..<s])"
      unfolding bits_def rev_filter find_filter_conj rev_append[symmetric] upt_split[OF le0 that, symmetric] ..
    moreover have "find (\<lambda>n. mbit m n \<and> n < s) (rev [s..<256]) = None" by (auto simp: find_None_iff)
    moreover have "find (\<lambda>n. mbit m n \<and> n < s) (rev [0..<s]) = find (mbit m) (rev [0..<s])" by (intro find_cong) auto
    ultimately show ?thesis by (simp add: find_append_opt)
  qed
  have m: "map_option to_u8 (find P (map unat ys)) = find (P \<circ> unat) ys" for P and ys :: "u8 list"
    unfolding find_map_comp option.map_comp by (simp add: o_def option.map_ident)
  have le: "unat b + 1 \<le> 256" "unat b \<le> 256" using unat_u8_less[of b] by auto
  show "next_bit m b = find (\<lambda>c. b < c) xs"
    unfolding next_bit_find up[OF le(1)] bits m by (simp add: o_def word_less_nat_alt Suc_le_eq)
  show "prev_bit m b = find (\<lambda>c. c < b) (rev xs)"
    unfolding prev_bit_find down[OF le(2)] bits rev_map m by (simp add: o_def word_less_nat_alt)
  show "indexed_bit True m n = (if n < length xs then Some (xs ! n) else None)"
    unfolding indexed_bit_forward bits by simp
qed

definition key_branch :: "path \<Rightarrow> path \<Rightarrow> u8 list" where
  "key_branch key k = (if strict_prefix key k then [k ! length key] else [])"

text \<open>The branch bytes of a list node, in ascending order.\<close>

definition ln_branch_bytes :: "('c, 'v) list_node \<Rightarrow> path \<Rightarrow> u8 list" where
  "ln_branch_bytes ln key = remdups (key_branch key (slot_key (slot0 ln)) @ key_branch key (slot_key (slot1 ln)))"

lemma key_branch_simps [simp]:
  "key_branch key [] = []" "key_branch [] (b # k) = [b]"
  "key_branch (a # key) (b # k) = (if a = b then key_branch key k else [])"
  by (auto simp: key_branch_def strict_prefix_def)

lemma key_branch_mem: "b \<in> set (key_branch key k) \<longleftrightarrow> prefix (key @ [b]) k"
proof
  assume "b \<in> set (key_branch key k)"
  then have k: "prefix key k" "key \<noteq> k" "b = k ! length key" by (auto simp: key_branch_def strict_prefix_def split: if_splits)
  then obtain z where "k = key @ z" by (auto simp: prefix_def)
  then show "prefix (key @ [b]) k" using k by (cases z) auto
next
  assume "prefix (key @ [b]) k"
  then show "b \<in> set (key_branch key k)"
    by (auto simp: key_branch_def strict_prefix_def prefix_def)
qed

lemma strict_prefix_obtain:
  assumes "strict_prefix p k"
  obtains c z where "k = p @ c # z"
proof -
  obtain z where "k = p @ z" "z \<noteq> []" using assms by (auto simp: strict_prefix_def prefix_def)
  then show ?thesis using that by (cases z) auto
qed

lemma strict_prefix_append [simp]: "strict_prefix p (p @ c # z)"
  by (simp add: strict_prefix_def)

lemma starts_with_strict: "slice_utils_ok S \<Longrightarrow> starts_with S k key \<and> length key < length k \<longleftrightarrow> strict_prefix key k"
  using prefix_length_less[of key k] by (auto simp: strict_prefix_def)

lemma ln_branch_bytes_sorted: "wf_list ln \<Longrightarrow> sorted_wrt (<) (ln_branch_bytes ln key)"
proof (cases key)
  case Nil
  assume "wf_list ln"
  then show ?thesis by (cases rule: wf_list_cases) (auto simp: Nil ln_branch_bytes_def neq_Nil_conv)
next
  case (Cons a rest)
  assume "wf_list ln"
  then show ?thesis
  proof (cases rule: wf_list_cases)
    case (one k0 p0)
    then show ?thesis by (auto simp: ln_branch_bytes_def key_branch_def)
  qed (auto simp: Cons ln_branch_bytes_def key_branch_def)
qed

lemma ln_branch_bytes_mem:
  assumes "slice_utils_ok S"
  shows "test_bit (ln_branches_mask S ln key) b \<longleftrightarrow> b \<in> set (ln_branch_bytes ln key)"
    and "ln_count_branches S ln key = length (ln_branch_bytes ln key)"
proof -
  have br: "branch_byte S k key = (case key_branch key k of [] \<Rightarrow> None | b # _ \<Rightarrow> Some b)" for k
    using starts_with_strict[OF assms, of k key] by (auto simp: branch_byte_def key_branch_def)
  have two: "\<exists>b. key_branch key k = [b] \<or> key_branch key k = []" for k by (auto simp: key_branch_def)
  obtain b0 b1 where b: "key_branch key (slot_key (slot0 ln)) = [b0] \<or> key_branch key (slot_key (slot0 ln)) = []"
    "key_branch key (slot_key (slot1 ln)) = [b1] \<or> key_branch key (slot_key (slot1 ln)) = []"
    using two by metis
  show "test_bit (ln_branches_mask S ln key) b \<longleftrightarrow> b \<in> set (ln_branch_bytes ln key)"
    using b by (auto simp: ln_branches_mask_def get_both_keys_def br add_branch_def test_bit_set_bit ln_branch_bytes_def)
  show "ln_count_branches S ln key = length (ln_branch_bytes ln key)"
    using b by (auto simp: ln_count_branches_def get_both_keys_def br ln_branch_bytes_def)
qed


definition branch_result :: "(path \<Rightarrow> (nat \<times> 'c) option) \<Rightarrow> path \<Rightarrow> u8 option \<Rightarrow> u8 option \<times> 'c option" where
  "branch_result get_child key r =
     (case r of None \<Rightarrow> (None, None) | Some b \<Rightarrow> (Some b, map_option snd (get_child (key @ [b]))))"

text \<open>What one slot contributes below \<open>key\<close>: the branch byte, and the link if the slot ends there.\<close>

definition slot_branch :: "path \<Rightarrow> ('c, 'v) slot option \<Rightarrow> (u8 \<times> 'c option) option" where
  "slot_branch key s =
     (case key_branch key (slot_key s) of
        [] \<Rightarrow> None
      | c # _ \<Rightarrow> Some (c, if length (slot_key s) = length key + 1 then slot_child s else None))"

lemma slot_branch_None: "slot_branch key s = None \<longleftrightarrow> \<not> strict_prefix key (slot_key s)"
  by (simp add: slot_branch_def key_branch_def)

lemma slot_branch_Some:
  "slot_branch key s = Some (c, r) \<longleftrightarrow> strict_prefix key (slot_key s) \<and> c = slot_key s ! length key \<and>
     r = (if length (slot_key s) = length key + 1 then slot_child s else None)"
  by (auto simp: slot_branch_def key_branch_def)

lemma slot_branch_bytes:
  "key_branch key (slot_key s) = (case slot_branch key s of None \<Rightarrow> [] | Some (c, r) \<Rightarrow> [c])"
  by (simp add: slot_branch_def key_branch_def)

lemma slot_branch_child:
  assumes "slot_branch key s = Some (c, r)"
  shows "map_option snd (child_along s (key @ [c])) = r" "c' \<noteq> c \<Longrightarrow> child_along s (key @ [c']) = None"
    "child_along s (key @ [c]) = None \<longleftrightarrow> r = None"
proof -
  have sp: "strict_prefix key (slot_key s)" "c = slot_key s ! length key" using assms unfolding slot_branch_Some by blast+
  obtain d z where k': "slot_key s = key @ d # z" using sp(1) by (rule strict_prefix_obtain)
  have k: "slot_key s = key @ c # z" using sp(2) by (simp add: k')
  have "r = (if length (slot_key s) = length key + 1 then slot_child s else None)"
    using assms unfolding slot_branch_Some by blast
  then have r: "r = (if z = [] then slot_child s else None)" by (simp add: k)
  obtain p where s: "s = Some (key @ c # z, p)" using k by (cases s) auto
  show "map_option snd (child_along s (key @ [c])) = r" unfolding s r by (cases p; cases z) simp_all
  show "child_along s (key @ [c']) = None" if "c' \<noteq> c" unfolding s using that by (cases p) simp_all
  show "child_along s (key @ [c]) = None \<longleftrightarrow> r = None" unfolding s r by (cases p; cases z) simp_all
qed

text \<open>A link at or above \<open>key\<close> and a branch below it exclude each other.\<close>

definition apart_at :: "path \<Rightarrow> ('c, 'v) list_node \<Rightarrow> bool" where
  "apart_at key ln \<longleftrightarrow>
     (slot_branch key (slot0 ln) = None \<or> (\<forall>c. slot_branch key (slot1 ln) = None \<longrightarrow> child_along (slot1 ln) (key @ [c]) = None)) \<and>
     (slot_branch key (slot1 ln) = None \<or> (\<forall>c. slot_branch key (slot0 ln) = None \<longrightarrow> child_along (slot0 ln) (key @ [c]) = None))"

lemma apart_at_wf: "wf_list ln \<Longrightarrow> apart_at key ln"
proof (cases key)
  case Nil
  assume "wf_list ln"
  then show ?thesis by (cases rule: wf_list_cases) (auto simp: Nil apart_at_def slot_branch_None)
next
  case (Cons a rest)
  assume "wf_list ln"
  then show ?thesis
  proof (cases rule: wf_list_cases)
    case (diff b0 r0 p0 b1 r1 p1)
    then have ne: "b0 \<noteq> b1" by auto
    show ?thesis
      unfolding diff(1) using ne by (cases p0; cases p1; auto simp: Cons apart_at_def slot_branch_None strict_prefix_def)
  next
    case (same b p0 p1)
    show ?thesis
      unfolding same(1) using same(2) by (cases p0; cases p1; auto simp: Cons apart_at_def slot_branch_None strict_prefix_def)
  next
    case (below b p0 r1 p1)
    show ?thesis
      unfolding below(1) using below(2-4) by (cases p0; cases p1; auto simp: Cons apart_at_def slot_branch_None strict_prefix_def)
  qed (auto simp: Cons apart_at_def slot_branch_None)
qed

lemma ln_branch_child:
  assumes "apart_at key ln"
  shows "slot_branch key (slot0 ln) = Some (c, r0) \<Longrightarrow> slot_branch key (slot1 ln) = None \<Longrightarrow>
      map_option snd (ln_get_child ln (key @ [c])) = r0"
    and "slot_branch key (slot1 ln) = Some (c, r1) \<Longrightarrow> slot_branch key (slot0 ln) = None \<Longrightarrow>
      map_option snd (ln_get_child ln (key @ [c])) = r1"
    and "slot_branch key (slot0 ln) = Some (c0, r0) \<Longrightarrow> slot_branch key (slot1 ln) = Some (c1, r1) \<Longrightarrow> c0 \<noteq> c1 \<Longrightarrow>
      map_option snd (ln_get_child ln (key @ [c0])) = r0 \<and> map_option snd (ln_get_child ln (key @ [c1])) = r1"
    and "slot_branch key (slot0 ln) = Some (c, r0) \<Longrightarrow> slot_branch key (slot1 ln) = Some (c, r1) \<Longrightarrow>
      map_option snd (ln_get_child ln (key @ [c])) = (case r0 of Some x \<Rightarrow> Some x | None \<Rightarrow> r1)"
proof -
  show "map_option snd (ln_get_child ln (key @ [c])) = r0"
    if "slot_branch key (slot0 ln) = Some (c, r0)" "slot_branch key (slot1 ln) = None"
    using that assms slot_branch_child[OF that(1)] by (auto simp: ln_get_child_def apart_at_def split: option.splits)
  show "map_option snd (ln_get_child ln (key @ [c])) = r1"
    if "slot_branch key (slot1 ln) = Some (c, r1)" "slot_branch key (slot0 ln) = None"
    using that assms slot_branch_child[OF that(1)] by (auto simp: ln_get_child_def apart_at_def split: option.splits)
  show "map_option snd (ln_get_child ln (key @ [c0])) = r0 \<and> map_option snd (ln_get_child ln (key @ [c1])) = r1"
    if "slot_branch key (slot0 ln) = Some (c0, r0)" "slot_branch key (slot1 ln) = Some (c1, r1)" "c0 \<noteq> c1"
    using that(3) slot_branch_child[OF that(1)] slot_branch_child[OF that(2)]
    by (auto simp: ln_get_child_def split: option.splits)
  show "map_option snd (ln_get_child ln (key @ [c])) = (case r0 of Some x \<Rightarrow> Some x | None \<Rightarrow> r1)"
    if "slot_branch key (slot0 ln) = Some (c, r0)" "slot_branch key (slot1 ln) = Some (c, r1)"
    using slot_branch_child[OF that(1)] slot_branch_child[OF that(2)]
    by (auto simp: ln_get_child_def split: option.splits)
qed

lemma ln_branch_bytes_alt:
  "ln_branch_bytes ln key =
     (case (slot_branch key (slot0 ln), slot_branch key (slot1 ln)) of
        (None, None) \<Rightarrow> []
      | (Some (c, r), None) \<Rightarrow> [c]
      | (None, Some (c, r)) \<Rightarrow> [c]
      | (Some (c, r), Some (d, r')) \<Rightarrow> if c = d then [c] else [c, d])"
  unfolding ln_branch_bytes_def slot_branch_bytes by (auto split: option.splits)

lemma both_branch:
  assumes "wf_list ln" "slot_branch key (slot0 ln) \<noteq> None" "slot_branch key (slot1 ln) \<noteq> None"
  shows "key = []"
  using assms(1)
proof (cases rule: wf_list_cases)
  case (diff b0 r0 p0 b1 r1 p1)
  then show ?thesis using assms(2,3) by (cases key) (auto simp: slot_branch_None strict_prefix_def)
next
  case (same b p0 p1)
  then show ?thesis using assms(2,3) by (cases key) (auto simp: slot_branch_None strict_prefix_def)
next
  case (below b p0 r1 p1)
  then show ?thesis using assms(2,3) by (cases key) (auto simp: slot_branch_None strict_prefix_def)
qed (use assms in \<open>auto simp: slot_branch_None\<close>)

lemma slot_branch_Nil: "slot_branch [] s = (case slot_key s of [] \<Rightarrow> None | b # r \<Rightarrow> Some (b, if r = [] then slot_child s else None))"
  by (cases "slot_key s") (auto simp: slot_branch_def)

lemma ln_nth_alt:
  assumes S: "slice_utils_ok S" and fill: "is_used (slot1 ln) \<longrightarrow> slot_key (slot0 ln) \<noteq> []"
  shows "ln_nth_child_from_key S ln key n =
    (if n = 0 then
       (case slot_branch key (slot0 ln) of
          None \<Rightarrow> (case slot_branch key (slot1 ln) of None \<Rightarrow> (None, None) | Some (c, r) \<Rightarrow> (Some c, r))
        | Some (c, r) \<Rightarrow>
            if slot_key (slot0 ln) \<noteq> slot_key (slot1 ln) then (Some c, r)
            else if slot_child (slot0 ln) \<noteq> None then (Some c, slot_child (slot0 ln))
            else if slot_child (slot1 ln) \<noteq> None then (Some c, slot_child (slot1 ln))
            else (Some c, None))
     else if n = 1 \<and> key = [] then
       (case (slot_branch [] (slot0 ln), slot_branch [] (slot1 ln)) of
          (Some (c, r), Some (d, r')) \<Rightarrow> if c = d then (None, None) else (Some d, r')
        | _ \<Rightarrow> (None, None))
     else (None, None))"
proof -
  have st: "starts_with S k key \<and> length key < length k \<longleftrightarrow> strict_prefix key k" for k by (rule starts_with_strict[OF S])
  have in1: "(if starts_with S k key \<and> length key < length k
      then if length key + 1 = length k \<and> slot_child s \<noteq> None then (Some (k ! length key), slot_child s) else (Some (k ! length key), None)
      else (None, None)) = (case slot_branch key s of None \<Rightarrow> (None, None) | Some (c, r) \<Rightarrow> (Some c, r))"
    if "k = slot_key s" for k and s :: "('a, 'b) slot option"
    unfolding st by (auto simp: slot_branch_def key_branch_def that)
  consider "n = 0" | "n = 1" | "1 < n" by linarith
  then show ?thesis
  proof cases
    case 1
    show ?thesis
      unfolding ln_nth_child_from_key_def get_both_keys_def Let_def prod.case 1 in1[OF refl] st
      by (cases "strict_prefix key (slot_key (slot0 ln))"; cases "strict_prefix key (slot_key (slot1 ln))")
        (auto simp: slot_branch_def key_branch_def)
  next
    case 2
    have u: "is_used s" if "slot_key s \<noteq> []" for s :: "('a, 'b) slot option" using that by (cases s) (auto simp: is_used_def)
    show ?thesis
      using u[of "slot1 ln"] fill
      by (auto simp: 2 ln_nth_child_from_key_def get_both_keys_def Let_def slot_branch_Nil split: list.splits option.splits)
  next
    case 3
    then show ?thesis by (auto simp: ln_nth_child_from_key_def get_both_keys_def Let_def)
  qed
qed

lemma ln_nth_child_list:
  assumes S: "slice_utils_ok S" and wf: "wf_list ln"
  shows "ln_nth_child_from_key S ln key n = branch_result (ln_get_child ln) key
    (if n < length (ln_branch_bytes ln key) then Some (ln_branch_bytes ln key ! n) else None)"
proof -
  note ch = ln_branch_child[OF apart_at_wf[OF wf, of key]]
  have same: "slot_branch key (slot0 ln) = Some (c, r) \<Longrightarrow> slot_branch key (slot1 ln) = Some (c', r') \<Longrightarrow>
      slot_key (slot0 ln) = slot_key (slot1 ln) \<Longrightarrow> c = c' \<and> (length (slot_key (slot0 ln)) = length key + 1)" for c r c' r'
    using wf both_branch[OF wf, of key]
    by (cases rule: wf_list_cases) (auto simp: slot_branch_Nil)
  have unused: "slot_branch key (slot1 ln) = None \<Longrightarrow> slot_branch key (slot0 ln) = Some (c, r) \<Longrightarrow>
      slot_key (slot0 ln) \<noteq> slot_key (slot1 ln)" for c r
    by (auto simp: slot_branch_None slot_branch_Some)
  have fill: "is_used (slot1 ln) \<longrightarrow> slot_key (slot0 ln) \<noteq> []"
    using wf by (cases rule: wf_list_cases) (auto simp: is_used_def)
  note alt = ln_nth_alt[OF S fill] ln_branch_bytes_alt branch_result_def
  show ?thesis
  proof (cases "slot_branch key (slot0 ln)")
    case None
    show ?thesis
    proof (cases "slot_branch key (slot1 ln)")
      case None1: None
      show ?thesis
        unfolding ln_branch_bytes_alt branch_result_def ln_nth_alt[OF S fill] using None None1
        by (cases "n = 0"; cases "n = 1"; cases "key = []"; simp)
    next
      case (Some b)
      then obtain c r where b: "slot_branch key (slot1 ln) = Some (c, r)" by (cases b) auto
      show ?thesis
        unfolding alt using None b ch(2)[OF b None] by (cases "n = 0"; cases "n = 1"; cases "key = []"; simp)
    qed
  next
    case (Some b)
    then obtain c r where b: "slot_branch key (slot0 ln) = Some (c, r)" by (cases b) auto
    have r: "r = (if length (slot_key (slot0 ln)) = length key + 1 then slot_child (slot0 ln) else None)"
      using b unfolding slot_branch_Some by blast
    show ?thesis
    proof (cases "slot_branch key (slot1 ln)")
      case None
      show ?thesis
        unfolding alt using None b ch(1)[OF b None] unused[OF None b]
        by (cases "n = 0"; cases "n = 1"; cases "key = []"; simp)
    next
      case (Some b')
      then obtain d r' where d: "slot_branch key (slot1 ln) = Some (d, r')" by (cases b') auto
      have r': "r' = (if length (slot_key (slot1 ln)) = length key + 1 then slot_child (slot1 ln) else None)"
        using d unfolding slot_branch_Some by blast
      have key: "key = []" using both_branch[OF wf] b d by simp
      show ?thesis
      proof (cases "c = d")
        case True
        note g = ch(4)[OF b d[folded True]]
        show ?thesis
        proof (cases "slot_key (slot0 ln) = slot_key (slot1 ln)")
          case k: True
          have len: "length (slot_key (slot0 ln)) = length key + 1" using same[OF b d k] by simp
          then have rr: "slot_child (slot0 ln) = r" "slot_child (slot1 ln) = r'" using r r' k by simp_all
          show ?thesis
            unfolding alt using b d True g rr k key
            by (cases "n = 0"; cases "n = 1"; cases r; cases r'; auto)
        next
          case k: False
          have "r = None \<longrightarrow> r' = None" 
            using wf by (cases rule: wf_list_cases) (use k b d key True r r' in \<open>auto simp: slot_branch_Nil\<close>)
          then show ?thesis
            unfolding alt using b d True g k key by (cases "n = 0"; cases "n = 1"; cases r; auto)
        qed
      next
        case False
        note g = ch(3)[OF b d False]
        have ne: "slot_key (slot0 ln) \<noteq> slot_key (slot1 ln)" using False same[OF b d] by blast
        consider "n = 0" | "n = 1" | "2 \<le> n" by linarith
        then show ?thesis
          by cases (use b d False g key ne in \<open>simp_all add: alt\<close>)
      qed
    qed
  qed
qed

lemma sibling_key_byte_slot:
  "sibling_key_byte (pre @ [x]) (slot_key s) =
     (case slot_branch pre s of None \<Rightarrow> None | Some (c, r) \<Rightarrow> if c < x then Some c else None)"
proof -
  have "length pre < length (slot_key s) \<and> take (length pre) (slot_key s) = pre \<longleftrightarrow> strict_prefix pre (slot_key s)"
    using prefix_length_less[of pre "slot_key s"] by (auto simp: strict_prefix_def not_prefix_append_same)
  then show ?thesis by (auto simp: sibling_key_byte_def slot_branch_def key_branch_def)
qed

lemma holds_child_slot:
  "length (slot_key s) = Suc (length pre) \<and> slot_key s ! length pre = c \<and> take (length pre) (slot_key s) = pre \<and> is_used_child s \<longleftrightarrow>
     (\<exists>r. slot_branch pre s = Some (c, Some r))"
  "slot_branch pre s = Some (c, Some r) \<Longrightarrow> slot_child s = Some r"
proof -
  have "length pre < length (slot_key s) \<and> take (length pre) (slot_key s) = pre \<longleftrightarrow> strict_prefix pre (slot_key s)"
    using prefix_length_less[of pre "slot_key s"] by (auto simp: strict_prefix_def not_prefix_append_same)
  moreover have "is_used_child s \<longleftrightarrow> (\<exists>r. slot_child s = Some r)" by (cases s rule: slot_child.cases) auto
  ultimately show "length (slot_key s) = Suc (length pre) \<and> slot_key s ! length pre = c \<and> take (length pre) (slot_key s) = pre \<and> is_used_child s \<longleftrightarrow>
     (\<exists>r. slot_branch pre s = Some (c, Some r))"
    by (auto simp: slot_branch_def key_branch_def)
  show "slot_branch pre s = Some (c, Some r) \<Longrightarrow> slot_child s = Some r"
    by (auto simp: slot_branch_Some split: if_splits)
qed

lemma branch_order:
  assumes "wf_list ln" "slot_branch key (slot0 ln) = Some (c, r)" "slot_branch key (slot1 ln) = Some (d, r')"
  shows "c \<le> d" "c = d \<Longrightarrow> r = None \<or> r' = None"
proof -
  have key: "key = []" using both_branch[OF assms(1)] assms(2,3) by simp
  have "c \<le> d \<and> (c = d \<longrightarrow> r = None \<or> r' = None)"
    using assms(1)
    by (cases rule: wf_list_cases) (use assms(2,3) in \<open>auto simp: key slot_branch_Nil elim: is_child.elims split: if_splits\<close>)
  then show "c \<le> d" "c = d \<Longrightarrow> r = None \<or> r' = None" by auto
qed

lemma ln_prev_sibling_list:
  assumes wf: "wf_list ln"
  shows "ln_get_sibling_of_child S ln (pre @ [x]) False = branch_result (ln_get_child ln) pre
      (find (\<lambda>c. c < x) (rev (ln_branch_bytes ln pre)))"
proof -
  note ch = ln_branch_child[OF apart_at_wf[OF wf, of pre]]
  have code: "ln_get_sibling_of_child S ln (pre @ [x]) False =
      (case (case sibling_key_byte (pre @ [x]) (slot_key (slot1 ln)) of Some b \<Rightarrow> Some b
             | None \<Rightarrow> sibling_key_byte (pre @ [x]) (slot_key (slot0 ln))) of
         None \<Rightarrow> (None, None)
       | Some b \<Rightarrow>
           (Some b,
            if \<exists>r. slot_branch pre (slot1 ln) = Some (b, Some r) then slot_child (slot1 ln)
            else if \<exists>r. slot_branch pre (slot0 ln) = Some (b, Some r) then slot_child (slot0 ln) else None))"
  proof -
    have l: "Suc (length pre) - 1 = length pre" "length (pre @ [x]) = Suc (length pre)" "take (length pre) (pre @ [x]) = pre"
      by simp_all
    show ?thesis
      unfolding ln_get_sibling_of_child_def get_both_keys_def Let_def prod.case l holds_child_slot(1)[symmetric]
      by (simp only: if_False)
  qed
  show ?thesis
  proof (cases "slot_branch pre (slot0 ln)")
    case None
    show ?thesis
    proof (cases "slot_branch pre (slot1 ln)")
      case None1: None
      show ?thesis
        unfolding code sibling_key_byte_slot ln_branch_bytes_alt branch_result_def None None1 by simp
    next
      case (Some b)
      then obtain d r' where d: "slot_branch pre (slot1 ln) = Some (d, r')" by (cases b) auto
      show ?thesis
        using ch(2)[OF d None] holds_child_slot(2)[of pre "slot1 ln" d]
        unfolding code sibling_key_byte_slot ln_branch_bytes_alt branch_result_def None d
        by (cases r') auto
    qed
  next
    case (Some b)
    then obtain c r where c: "slot_branch pre (slot0 ln) = Some (c, r)" by (cases b) auto
    show ?thesis
    proof (cases "slot_branch pre (slot1 ln)")
      case None
      show ?thesis
        using ch(1)[OF c None] holds_child_slot(2)[of pre "slot0 ln" c]
        unfolding code sibling_key_byte_slot ln_branch_bytes_alt branch_result_def None c
        by (cases r) auto
    next
      case (Some b')
      then obtain d r' where d: "slot_branch pre (slot1 ln) = Some (d, r')" by (cases b') auto
      note h = holds_child_slot(2)[of pre "slot0 ln" c] holds_child_slot(2)[of pre "slot1 ln" d]
      show ?thesis
      proof (cases "c = d")
        case True
        show ?thesis
          using ch(4)[OF c d[folded True]] h branch_order(2)[OF wf c d True] True
          unfolding code sibling_key_byte_slot ln_branch_bytes_alt branch_result_def c d
          by (cases r; cases r') auto
      next
        case False
        show ?thesis
          using ch(3)[OF c d False] h False
          unfolding code sibling_key_byte_slot ln_branch_bytes_alt branch_result_def c d
          by (cases r; cases r') auto
      qed
    qed
  qed
qed

lemma ln_next_sibling_list:
  assumes S: "slice_utils_ok S" and wf: "wf_list ln" and on: "on_items (ln_items ln) (pre @ [x])"
  shows "ln_get_sibling_of_child S ln (pre @ [x]) True = branch_result (ln_get_child ln) pre
      (find (\<lambda>c. x < c) (ln_branch_bytes ln pre))"
proof -
  note ch = ln_branch_child[OF apart_at_wf[OF wf, of pre]]
  have sp: "starts_with S k pre \<and> length pre < length k \<longleftrightarrow> strict_prefix pre k" for k by (rule starts_with_strict[OF S])
  have px: "prefix (pre @ [x]) (slot_key s) \<longleftrightarrow> (\<exists>r. slot_branch pre s = Some (x, r))" for s :: "('a node, 'a) slot option"
    using key_branch_mem[of x pre "slot_key s"] by (auto simp: slot_branch_def key_branch_def split: if_splits)
  have on': "(\<exists>r. slot_branch pre (slot0 ln) = Some (x, r)) \<or> (\<exists>r. slot_branch pre (slot1 ln) = Some (x, r))"
  proof -
    have "prefix (pre @ [x]) (slot_key (slot0 ln)) \<or> prefix (pre @ [x]) (slot_key (slot1 ln))"
      using wf by (cases rule: wf_list_cases) (use on in \<open>auto simp: on_items_def split: if_splits\<close>)
    then show ?thesis by (simp add: px)
  qed
  have code: "ln_get_sibling_of_child S ln (pre @ [x]) True =
      (case slot_branch pre (slot1 ln) of None \<Rightarrow> (None, None)
       | Some (c, r) \<Rightarrow> if (\<exists>r. slot_branch pre (slot0 ln) = Some (x, r)) \<and> c \<noteq> x then (Some c, r) else (None, None))"
  proof -
    have "ln_get_sibling_of_child S ln (pre @ [x]) True =
      (if prefix (pre @ [x]) (slot_key (slot0 ln)) \<and> strict_prefix pre (slot_key (slot1 ln)) \<and> slot_key (slot1 ln) ! length pre \<noteq> x then
         (Some (slot_key (slot1 ln) ! length pre),
            if length (slot_key (slot1 ln)) = Suc (length pre) \<and> is_used_child (slot1 ln) then slot_child (slot1 ln) else None)
       else (None, None))"
      using sp[of "slot_key (slot1 ln)"] S
      unfolding ln_get_sibling_of_child_def get_both_keys_def Let_def prod.case by (auto split: if_splits)
    moreover have "\<not> is_used_child (slot1 ln) \<longrightarrow> slot_child (slot1 ln) = None"
      by (cases "slot1 ln" rule: slot_child.cases) auto
    ultimately show ?thesis
      unfolding px by (auto simp: slot_branch_def key_branch_def)
  qed
  show ?thesis
  proof (cases "slot_branch pre (slot0 ln)")
    case None
    then obtain r where r: "slot_branch pre (slot1 ln) = Some (x, r)" using on' by auto
    show ?thesis unfolding code ln_branch_bytes_alt branch_result_def None r by simp
  next
    case (Some b)
    then obtain c r where c: "slot_branch pre (slot0 ln) = Some (c, r)" by (cases b) auto
    show ?thesis
    proof (cases "slot_branch pre (slot1 ln)")
      case None
      then have "c = x" using on' c by simp
      then show ?thesis unfolding code ln_branch_bytes_alt branch_result_def None c by simp
    next
      case (Some b')
      then obtain d r' where d: "slot_branch pre (slot1 ln) = Some (d, r')" by (cases b') auto
      have "c \<le> d" "c = x \<or> d = x" using branch_order(1)[OF wf c d] on' c d by auto
      then show ?thesis
        using ch(3)[OF c d] unfolding code ln_branch_bytes_alt branch_result_def c d by auto
    qed
  qed
qed

subsection \<open>Every node\<close>

definition node_branch :: "'v node \<Rightarrow> path \<Rightarrow> u8 option \<Rightarrow> u8 option \<times> 'v node option" where
  "node_branch n key r = branch_result (node_get_child n) key r"

lemma node_branches_iff:
  assumes "slice_utils_ok S" "wf_node n"
  shows "test_bit (node_branches_mask S n key) b \<longleftrightarrow> on_items (node_items n) (key @ [b])"
proof (cases n)
  case EmptyN
  then show ?thesis by (simp add: on_items_def)
next
  case (ListN ln)
  then have wl: "wf_list ln" using assms by simp
  have "b \<in> set (ln_branch_bytes ln key) \<longleftrightarrow> on_items (ln_items ln) (key @ [b])"
    using wl by (cases rule: wf_list_cases) (auto simp: ln_branch_bytes_def key_branch_mem on_items_def split: if_splits)
  then show ?thesis by (simp add: ListN ln_branch_bytes_mem(1)[OF assms(1)])
next
  case (ByteN bn)
  then show ?thesis by (auto simp: bn_branches_mask_def on_byte_items)
qed

lemma bn_mask_get: "bn_ok bn \<Longrightarrow> test_bit (bn_mask bn) b \<longleftrightarrow> bn_get bn b \<noteq> None"
  by (cases bn) (simp add: bn_get_alt test_bit_mbit)

lemma EMPTY_search: "next_bit EMPTY b = None" "prev_bit EMPTY b = None" "indexed_bit True EMPTY i = None"
  using mask_search_list[of "[]" EMPTY] by simp_all

lemma node_nth_child_spec:
  assumes S: "slice_utils_ok S" and wf: "wf_node n"
  shows "node_nth_child_from_key S n key i = node_branch n key (indexed_bit True (node_branches_mask S n key) i)"
proof (cases n)
  case EmptyN
  then show ?thesis by (simp add: node_branch_def branch_result_def EMPTY_search)
next
  case (ListN ln)
  then have wl: "wf_list ln" using wf by simp
  show ?thesis
    using ln_nth_child_list[OF S wl] mask_search_list(3)[OF ln_branch_bytes_sorted[OF wl] ln_branch_bytes_mem(1)[OF S]]
    by (simp add: ListN node_branch_def branch_result_def cong: option.case_cong)
next
  case (ByteN bn)
  obtain m cfs where bn: "bn = BN m cfs" by (cases bn)
  have ok: "bn_ok (BN m cfs)" using wf by (simp add: ByteN bn)
  show ?thesis
  proof (cases "key = [] \<and> i < length cfs")
    case True
    have len: "length (bits m) = length cfs" using ok by (simp add: bn_ok_BN length_bits)
    have il: "i < length (bits m)" using True len by simp
    have mem: "mbit m (bits m ! i)" using nth_mem[of i "bits m"] True len by (simp add: set_bits)
    have "rank m (bits m ! i) = i"
      using nth_rank_bits[OF mem] il nth_eq_iff_index_eq[OF bits_sorted(2)[of m]] by blast
    moreover have "bits m ! i < 256" using mem mbit_less by blast
    ultimately have "bn_get bn (to_u8 (bits m ! i)) = Some (cfs ! i)" using mem by (simp add: bn bn_get_alt[OF ok])
    then show ?thesis
      using True len by (simp add: ByteN bn bn_nth_child_from_key_def bn_branches_mask_def indexed_bit_forward
          node_branch_def branch_result_def bn_get_child_def option.map_comp o_def option.map_ident)
  next
    case False
    have len: "length (bits m) = length cfs" using ok by (simp add: bn_ok_BN length_bits)
    then show ?thesis
      using False by (auto simp: ByteN bn bn_nth_child_from_key_def bn_branches_mask_def indexed_bit_forward EMPTY_search
          node_branch_def branch_result_def)
  qed
qed

lemma node_sibling_spec:
  assumes S: "slice_utils_ok S" and wf: "wf_node n" and key: "key \<noteq> []"
  shows "node_get_sibling_of_child S n key False =
      node_branch n (butlast key) (prev_bit (node_branches_mask S n (butlast key)) (last key))"
    and "on_items (node_items n) key \<Longrightarrow> node_get_sibling_of_child S n key True =
      node_branch n (butlast key) (next_bit (node_branches_mask S n (butlast key)) (last key))"
proof -
  have kx: "butlast key @ [last key] = key" using key by simp
  have byte: "node_get_sibling_of_child S (ByteN bn) key next =
      node_branch (ByteN bn) (butlast key)
        ((if next then next_bit else prev_bit) (node_branches_mask S (ByteN bn) (butlast key)) (last key))"
    if "bn_ok bn" for bn :: "'a bnode" and "next"
  proof (cases key)
    case (Cons b rest)
    have get: "snd (Some sib, case bn_get bn sib of Some cf \<Rightarrow> cf_rec cf | None \<Rightarrow> None) = map_option snd (bn_get_child bn [sib])" for sib
      by (simp add: bn_get_child_def option.map_comp o_def option.map_ident split: option.split)
    show ?thesis
      using get by (cases rest)
        (auto simp: Cons bn_get_sibling_of_child_def bn_branches_mask_def node_branch_def branch_result_def EMPTY_search split: option.split)
  qed (use key in simp)
  show "node_get_sibling_of_child S n key False =
      node_branch n (butlast key) (prev_bit (node_branches_mask S n (butlast key)) (last key))"
  proof (cases n)
    case (ListN ln)
    then have wl: "wf_list ln" using wf by simp
    show ?thesis
      using ln_prev_sibling_list[OF wl, of S "butlast key" "last key"] kx
        mask_search_list(2)[OF ln_branch_bytes_sorted[OF wl] ln_branch_bytes_mem(1)[OF S]]
      by (simp add: ListN node_branch_def branch_result_def cong: option.case_cong)
  next
    case (ByteN bn)
    then show ?thesis using byte[of bn False] wf by simp
  qed (simp add: node_branch_def branch_result_def EMPTY_search)
  assume on: "on_items (node_items n) key"
  show "node_get_sibling_of_child S n key True =
      node_branch n (butlast key) (next_bit (node_branches_mask S n (butlast key)) (last key))"
  proof (cases n)
    case (ListN ln)
    then have wl: "wf_list ln" using wf by simp
    show ?thesis
      using ln_next_sibling_list[OF S wl, of "butlast key" "last key"] kx on
        mask_search_list(1)[OF ln_branch_bytes_sorted[OF wl] ln_branch_bytes_mem(1)[OF S]]
      by (simp add: ListN node_branch_def branch_result_def cong: option.case_cong)
  next
    case (ByteN bn)
    then show ?thesis using byte[of bn True] wf by simp
  qed (simp add: node_branch_def branch_result_def EMPTY_search)
qed

subsection \<open>What a caller relies on\<close>

lemma cursor_ok_wf: "slice_utils_ok S \<Longrightarrow> wf_node n \<Longrightarrow> cursor_ok S n"
  by (cases n) (auto simp: cursor_ok_def)

lemma node_items_length:
  assumes "wf_node n"
  shows "length (node_items n) < 257"
proof (cases n)
  case (ListN ln)
  then have "wf_list ln" using assms by simp
  then show ?thesis by (cases rule: wf_list_cases) (auto simp: ListN)
next
  case (ByteN bn)
  have "length (filter (mbit (bn_mask bn)) [0..<256]) \<le> 256"
    using length_filter_le[of "mbit (bn_mask bn)" "[0..<256]"] by simp
  then show ?thesis by (simp add: ByteN byte_items_alt)
qed simp

lemma node_iterate_from:
  assumes "slice_utils_ok S" "wf_node n" "node_at S n key t"
  shows "iterate (\<lambda>t. node_next_items n t False) 257 t = Some (filter (\<lambda>i. path_less key (fst i)) (node_items n))"
  by (rule cursor.resume[OF cursor_ok_wf[OF assms(1,2)] assms(3)])
    (rule le_less_trans[OF length_filter_le node_items_length[OF assms(2)]])

text \<open>C33: Iterating a node of any kind with its tokens, from \<open>new_iter_token\<close> to
  \<open>NODE_ITER_FINISHED\<close>, ends within 257 calls and yields the paths of the node in ascending order,
  each once; the item at a path has the child and the value the node's getters answer there, and no
  child and no value is left out.\<close>

theorem node_iteration_complete:
  fixes n :: "'v node"
  assumes "slice_utils_ok S" "wf_node n"
  shows "\<exists>is. iterate (\<lambda>t. node_next_items n t False) 257 (node_new_iter_token n) = Some is \<and>
    sorted_wrt path_less (map fst is) \<and>
    (\<forall>k c v. (k, c, v) \<in> set is \<longrightarrow>
       node_get_val n k = v \<and> node_get_child n k = map_option (\<lambda>c. (length k, c)) c) \<and>
    (\<forall>k v. node_get_val n k = Some v \<longrightarrow> (\<exists>c. (k, c, Some v) \<in> set is)) \<and>
    (\<forall>k l c. k \<noteq> [] \<longrightarrow> node_get_child n k = Some (l, c) \<longrightarrow> (\<exists>v. (take l k, Some c, v) \<in> set is))"
proof (intro exI conjI)
  note ok = cursor_ok_wf[OF assms]
  show "iterate (\<lambda>t. node_next_items n t False) 257 (node_new_iter_token n) = Some (node_items n)"
    by (rule cursor.iterate_all[OF ok node_items_length[OF assms(2)]])
  show "sorted_wrt path_less (map fst (node_items n))" by (rule cursor.items_sorted[OF ok])
  show "\<forall>k c v. (k, c, v) \<in> set (node_items n) \<longrightarrow>
       node_get_val n k = v \<and> node_get_child n k = map_option (\<lambda>c. (length k, c)) c"
    using node_item_get[OF assms(2)] by fastforce
  show "\<forall>k v. node_get_val n k = Some v \<longrightarrow> (\<exists>c. (k, c, Some v) \<in> set (node_items n))"
    using node_val_item[OF assms(2)] by blast
  show "\<forall>k l c. k \<noteq> [] \<longrightarrow> node_get_child n k = Some (l, c) \<longrightarrow> (\<exists>v. (take l k, Some c, v) \<in> set (node_items n))"
    using node_child_item[OF assms(2)] by blast
qed

theorem node_iteration_complete_witness:
  "\<exists>is. iterate (\<lambda>t. node_next_items (ListN (LN (Some ([1, 2], Val (7::nat))) (Some ([3], Val 8)))) t False) 257
      (node_new_iter_token (ListN (LN (Some ([1, 2], Val (7::nat))) (Some ([3], Val 8))))) = Some is \<and>
    sorted_wrt path_less (map fst is)"
proof -
  let ?n = "ListN (LN (Some ([1, 2], Val (7::nat))) (Some ([3], Val 8)))"
  have "wf_node ?n" by (simp add: KEY_BYTES_CNT_def wf_pair_def)
  then show ?thesis using node_iteration_complete[OF std_slice_utils_ok, of ?n] by blast
qed

text \<open>C40: A token for a path resumes the iteration after that path, whether or not the node holds it, and
  carries the nonexistent mark exactly when no path of the node continues it.  Where it does not,
  ascending the token by a number of bytes gives a token that resumes after the shortened path.\<close>

theorem node_token_resumes:
  assumes "slice_utils_ok S" "wf_node n" "key \<noteq> []"
  shows "iterate (\<lambda>t. node_next_items n t False) 257 (node_iter_token_for_path S n key) =
      Some (filter (\<lambda>i. path_less key (fst i)) (node_items n)) \<and>
    (node_iter_token_is_nonexistent (node_iter_token_for_path S n key) \<longleftrightarrow> \<not> node_contains_partial_key S n key) \<and>
    (\<forall>m. node_contains_partial_key S n key \<longrightarrow> 0 < m \<longrightarrow> m \<le> length key \<longrightarrow>
      (\<exists>t. node_ascend_iter_token n (node_iter_token_for_path S n key) m = Ret t \<and>
        iterate (\<lambda>t. node_next_items n t False) 257 t =
          Some (filter (\<lambda>i. path_less (take (length key - m) key) (fst i)) (node_items n))))"
proof (intro conjI allI impI)
  note ok = cursor_ok_wf[OF assms(1,2)]
  note at = cursor.for_path_at[OF ok, of key]
  show "iterate (\<lambda>t. node_next_items n t False) 257 (node_iter_token_for_path S n key) =
      Some (filter (\<lambda>i. path_less key (fst i)) (node_items n))"
    by (rule node_iterate_from[OF assms(1,2) at])
  show "node_iter_token_is_nonexistent (node_iter_token_for_path S n key) \<longleftrightarrow> \<not> node_contains_partial_key S n key"
    using cursor.at_exists[OF ok at] node_contains_items[OF assms] by simp
  fix m assume m: "node_contains_partial_key S n key" "0 < m" "m \<le> length key"
  then have "on_items (node_items n) key" using node_contains_items[OF assms] by simp
  from cursor.ascend_at[OF ok at this m(2,3)] obtain t where
    t: "node_ascend_iter_token n (node_iter_token_for_path S n key) m = Ret t"
      "node_at S n (take (length key - m) key) t" by blast
  then show "\<exists>t. node_ascend_iter_token n (node_iter_token_for_path S n key) m = Ret t \<and>
        iterate (\<lambda>t. node_next_items n t False) 257 t =
          Some (filter (\<lambda>i. path_less (take (length key - m) key) (fst i)) (node_items n))"
    using node_iterate_from[OF assms(1,2) t(2)] by blast
qed

theorem node_token_resumes_witness:
  "iterate (\<lambda>t. node_next_items (ListN (LN (Some ([1, 2], Val (7::nat))) (Some ([3], Val 8)))) t False) 257
      (node_iter_token_for_path std_slice_utils (ListN (LN (Some ([1, 2], Val (7::nat))) (Some ([3], Val 8)))) [2]) =
    Some [([3], None, Some 8)]"
proof -
  let ?n = "ListN (LN (Some ([1, 2], Val (7::nat))) (Some ([3], Val 8)))"
  have "wf_node ?n" by (simp add: KEY_BYTES_CNT_def wf_pair_def)
  then show ?thesis using node_token_resumes[OF std_slice_utils_ok, of ?n "[2]"]
    by simp
qed

text \<open>C28: The siblings of a path and the nth branch below it are found in the branch mask: the next and
  previous sibling are the nearest set bits above and below the last byte, the nth branch is the
  nth set bit, and each comes with the node the node's getter finds behind it.\<close>

theorem node_siblings_nearest:
  assumes "slice_utils_ok S" "wf_node n" "key \<noteq> []" "node_contains_partial_key S n key"
  shows "node_get_sibling_of_child S n key True =
      node_branch n (butlast key) (next_bit (node_branches_mask S n (butlast key)) (last key)) \<and>
    node_get_sibling_of_child S n key False =
      node_branch n (butlast key) (prev_bit (node_branches_mask S n (butlast key)) (last key)) \<and>
    node_nth_child_from_key S n (butlast key) i =
      node_branch n (butlast key) (indexed_bit True (node_branches_mask S n (butlast key)) i) \<and>
    (test_bit (node_branches_mask S n (butlast key)) b \<longleftrightarrow> node_contains_partial_key S n (butlast key @ [b]))"
  using node_sibling_spec[OF assms(1-3)] node_nth_child_spec[OF assms(1,2)] assms(4)
    node_branches_iff[OF assms(1,2)] node_contains_items[OF assms(1,2)] assms(3) by simp

theorem node_siblings_nearest_witness:
  "node_get_sibling_of_child std_slice_utils (ListN (LN (Some ([1, 2], Val (7::nat))) (Some ([3], Val 8)))) [1] True =
    (Some 3, None)"
proof -
  let ?n = "ListN (LN (Some ([1, 2], Val (7::nat))) (Some ([3], Val 8)))"
  have "wf_node ?n" by (simp add: KEY_BYTES_CNT_def wf_pair_def)
  then have "node_get_sibling_of_child std_slice_utils ?n [1] True =
      node_branch ?n (butlast [1]) (next_bit (node_branches_mask std_slice_utils ?n (butlast [1])) (last [1]))"
    using node_siblings_nearest[OF std_slice_utils_ok, of ?n "[1]"]
    by (simp add: ln_contains_partial_key_def get_both_keys_def std_slice_utils_ok)
  also have "\<dots> = (Some 3, None)" by code_simp
  finally show ?thesis .
qed

end
