(* ===== verification/Read_Zipper.thy ===== *)
theory Read_Zipper
  imports Node_Query_Laws
begin

text \<open>
  \<open>ReadZipperCore\<close> of \<open>src/zipper.rs\<close>: a cursor into a trie.  The zipper has the nodes from its root
  node down to the focus node on a stack, the bytes from the origin to the focus in a buffer, and an
  iteration token for the focus.  Every operation takes the zipper and returns it changed.  A reference
  to a node is the node; the length subtractions are on \<open>nat\<close>, \<open>Read_Zipper_Laws\<close> shows the buffers
  are long enough.  An observer is the list of the movements it was told about.
\<close>

subsection \<open>The state\<close>

record 'v read_zipper =
  origin_path :: path
  root_key_start :: nat
  root_parent_key_start :: "nat option"
  zroot_val :: "'v option"
  zroot_node :: "'v node option"
  focus_node :: "'v node"
  focus_iter_token :: u64
  prefix_buf :: path
  buffers_allocated :: bool
  ancestors :: "('v node \<times> u64 \<times> nat) list"

text \<open>The movements a \<open>PathObserver\<close> is told about, and the observer for a \<open>Vec<u8>\<close>.\<close>

datatype movement = Descended path | Ascended nat

type_synonym observer = "movement list"

fun observe_vec :: "path \<Rightarrow> movement \<Rightarrow> path" where
  "observe_vec buf (Descended p) = buf @ p"
| "observe_vec buf (Ascended steps) = take (length buf - steps) buf"

subsection \<open>Where the focus is\<close>

definition z_node_key_start :: "'v read_zipper \<Rightarrow> nat" where
  "z_node_key_start z = (case ancestors z of [] \<Rightarrow> root_key_start z | (_, _, i) # _ \<Rightarrow> i)"

definition z_node_key :: "'v read_zipper \<Rightarrow> path" where
  "z_node_key z =
     (if 0 < length (prefix_buf z) then drop (z_node_key_start z) (prefix_buf z)
      else if 0 < length (origin_path z) then drop (z_node_key_start z) (origin_path z)
      else [])"

definition subrange :: "nat \<Rightarrow> nat \<Rightarrow> 'a list \<Rightarrow> 'a list" where
  "subrange a b xs = take (b - a) (drop a xs)"

definition z_parent_key :: "'v read_zipper \<Rightarrow> path" where
  "z_parent_key z =
     (if 0 < length (prefix_buf z) then
        let key_start = (case ancestors z of _ # (_, _, i) # _ \<Rightarrow> i | _ \<Rightarrow> root_key_start z)
        in subrange key_start (z_node_key_start z) (prefix_buf z)
      else
        case root_parent_key_start z of
          None \<Rightarrow> []
        | Some i \<Rightarrow> if length (origin_path z) = 0 then [] else subrange i (root_key_start z) (origin_path z))"

definition z_excess_key_len :: "'v read_zipper \<Rightarrow> nat" where
  "z_excess_key_len z =
     length (prefix_buf z) - (case ancestors z of [] \<Rightarrow> length (origin_path z) | (_, _, i) # _ \<Rightarrow> i)"

definition z_at_root :: "'v read_zipper \<Rightarrow> bool" where
  "z_at_root z \<longleftrightarrow> length (prefix_buf z) \<le> length (origin_path z)"

definition z_depth :: "'v read_zipper \<Rightarrow> nat" where
  "z_depth z = length (prefix_buf z) - length (origin_path z)"

definition z_path :: "'v read_zipper \<Rightarrow> path" where
  "z_path z = (if 0 < length (prefix_buf z) then drop (length (origin_path z)) (prefix_buf z) else [])"

definition z_focus_byte :: "'v read_zipper \<Rightarrow> u8 option" where
  "z_focus_byte z = (if prefix_buf z = [] then None else Some (last (prefix_buf z)))"

text \<open>\<open>path_len\<close>, which may panic: on a zipper without buffers the subtraction underflows.\<close>

definition z_path_len :: "'v read_zipper \<Rightarrow> nat outcome" where
  "z_path_len z =
     (if length (origin_path z) \<le> length (prefix_buf z)
      then Ret (length (prefix_buf z) - length (origin_path z)) else Panic)"

definition z_origin_path :: "'v read_zipper \<Rightarrow> path" where
  "z_origin_path z = (if buffers_allocated z then prefix_buf z else origin_path z)"

definition z_root_prefix_path :: "'v read_zipper \<Rightarrow> path" where
  "z_root_prefix_path z =
     (if buffers_allocated z then take (length (origin_path z)) (prefix_buf z) else origin_path z)"

definition z_is_regularized :: "'v read_zipper \<Rightarrow> bool" where
  "z_is_regularized z \<longleftrightarrow>
     (if z_node_key_start z < length (prefix_buf z)
      then node_get_child (focus_node z) (z_node_key z) = None else True)"

subsection \<open>What the focus holds\<close>

definition z_path_exists :: "slice_utils \<Rightarrow> 'v read_zipper \<Rightarrow> bool" where
  "z_path_exists S z =
     (let key = z_node_key z in
      if 0 < length key then node_contains_partial_key S (focus_node z) key else True)"

definition z_is_val :: "'v read_zipper \<Rightarrow> bool" where
  "z_is_val z =
     (let key = z_node_key z in
      if 0 < length key then node_contains_val (focus_node z) key
      else case ancestors z of
        (parent, _, _) # _ \<Rightarrow> node_contains_val parent (z_parent_key z)
      | [] \<Rightarrow> zroot_val z \<noteq> None)"

definition z_get_val :: "'v read_zipper \<Rightarrow> 'v option" where
  "z_get_val z =
     (let key = z_node_key z in
      if 0 < length key then node_get_val (focus_node z) key
      else case ancestors z of
        (parent, _, _) # _ \<Rightarrow> node_get_val parent (z_parent_key z)
      | [] \<Rightarrow> zroot_val z)"

definition z_child_count :: "slice_utils \<Rightarrow> 'v read_zipper \<Rightarrow> nat" where
  "z_child_count S z = node_count_branches S (focus_node z) (z_node_key z)"

definition z_child_mask :: "slice_utils \<Rightarrow> 'v read_zipper \<Rightarrow> byte_mask" where
  "z_child_mask S z = node_branches_mask S (focus_node z) (z_node_key z)"

subsection \<open>Making a zipper\<close>

text \<open>\<open>new_with_node_and_path_internal_in\<close> on the node \<open>root_node\<close> holds (\<open>None\<close> is \<open>OwnedOrBorrowed::None\<close>).\<close>

definition z_new_internal :: "'v node option \<Rightarrow> path \<Rightarrow> nat \<Rightarrow> 'v option \<Rightarrow> 'v read_zipper" where
  "z_new_internal root_node p key_start rval =
     (let focus = (case root_node of None \<Rightarrow> EmptyN | Some node \<Rightarrow> node);
          (focus', parent_start, key_start') =
            (if key_start < length p then
               (case node_get_child focus (drop key_start p) of
                  Some (consumed_byte_cnt, next_node) \<Rightarrow> (next_node, Some key_start, key_start + consumed_byte_cnt)
                | None \<Rightarrow> (focus, None, key_start))
             else (focus, None, key_start)) in
      \<lparr>origin_path = p, root_key_start = key_start', root_parent_key_start = parent_start, zroot_val = rval,
       zroot_node = root_node, focus_node = focus', focus_iter_token = NODE_ITER_INVALID, prefix_buf = [],
       buffers_allocated = False, ancestors = []\<rparr>)"

definition z_new :: "'v node \<Rightarrow> path \<Rightarrow> nat \<Rightarrow> nat \<Rightarrow> 'v option \<Rightarrow> 'v read_zipper" where
  "z_new root_node p root_prefix_len key_start rval =
     (case node_along_path root_node (drop key_start p) rval False of
        (node, key, val) \<Rightarrow> z_new_internal (Some node) p (root_prefix_len - length key) val)"

definition z_prepare_buffers :: "'v read_zipper \<Rightarrow> 'v read_zipper" where
  "z_prepare_buffers z =
     (if buffers_allocated z then z
      else z\<lparr>prefix_buf := prefix_buf z @ origin_path z, buffers_allocated := True\<rparr>)"

text \<open>\<open>make_static_path\<close>: the path slice becomes a length, the bytes stay in the buffer.  Only the length
  of \<open>origin_path\<close> is read once the buffers are there, so the model keeps the bytes.\<close>

definition z_make_static_path :: "'v read_zipper \<Rightarrow> 'v read_zipper" where
  "z_make_static_path z = (z_prepare_buffers z)\<lparr>focus_iter_token := NODE_ITER_INVALID\<rparr>"

definition z_new_cloned_path :: "'v node \<Rightarrow> path \<Rightarrow> nat \<Rightarrow> nat \<Rightarrow> 'v option \<Rightarrow> 'v read_zipper" where
  "z_new_cloned_path root_node p root_prefix_len key_start rval =
     z_make_static_path ((z_new root_node p root_prefix_len key_start rval)
       \<lparr>prefix_buf := p, buffers_allocated := True, ancestors := []\<rparr>)"

text \<open>A clone of an empty buffer has no capacity.\<close>

definition z_clone :: "'v read_zipper \<Rightarrow> 'v read_zipper" where
  "z_clone z = z\<lparr>focus_iter_token := NODE_ITER_INVALID, buffers_allocated := (prefix_buf z \<noteq> [])\<rparr>"

subsection \<open>Regular form\<close>

definition z_push_node :: "'v node \<Rightarrow> 'v read_zipper \<Rightarrow> 'v read_zipper" where
  "z_push_node node z =
     z\<lparr>ancestors := (focus_node z, focus_iter_token z, length (prefix_buf z)) # ancestors z,
       focus_node := node, focus_iter_token := NODE_ITER_INVALID\<rparr>"

definition z_regularize :: "'v read_zipper \<Rightarrow> 'v read_zipper" where
  "z_regularize z =
     (case node_get_child (focus_node z) (z_node_key z) of
        Some (_, next_node) \<Rightarrow> z_push_node next_node z
      | None \<Rightarrow> z)"

definition z_ascend_across_nodes :: "'v read_zipper \<Rightarrow> 'v read_zipper" where
  "z_ascend_across_nodes z =
     (case ancestors z of
        (node, iter_tok, _) # rest \<Rightarrow> z\<lparr>ancestors := rest, focus_node := node, focus_iter_token := iter_tok\<rparr>
      | [] \<Rightarrow> z\<lparr>focus_iter_token := NODE_ITER_INVALID\<rparr>)"

definition z_deregularize :: "'v read_zipper \<Rightarrow> 'v read_zipper" where
  "z_deregularize z = (if length (prefix_buf z) = z_node_key_start z then z_ascend_across_nodes z else z)"

definition z_reascend_iter_token :: "nat \<Rightarrow> 'v read_zipper \<Rightarrow> 'v read_zipper outcome" where
  "z_reascend_iter_token byte_count z =
     (if focus_iter_token z = NODE_ITER_INVALID then Ret z
      else if node_iter_token_is_nonexistent (focus_iter_token z) then Ret (z\<lparr>focus_iter_token := NODE_ITER_INVALID\<rparr>)
      else bind_outcome (node_ascend_iter_token (focus_node z) (focus_iter_token z) byte_count)
        (\<lambda>tok. Ret (z\<lparr>focus_iter_token := tok\<rparr>)))"

subsection \<open>Descending\<close>

function descend_nodes ::
  "'v node \<Rightarrow> path \<Rightarrow> nat \<Rightarrow> ('v node \<times> u64 \<times> nat) list \<Rightarrow> 'v node \<times> path \<times> ('v node \<times> u64 \<times> nat) list" where
  "descend_nodes focus key key_start anc =
     (case node_get_child focus key of
        Some (consumed_byte_cnt, next_node) \<Rightarrow>
          let key_start' = key_start + consumed_byte_cnt; anc' = (focus, NODE_ITER_INVALID, key_start') # anc in
          if consumed_byte_cnt < length key
          then descend_nodes next_node (drop consumed_byte_cnt key) key_start' anc'
          else (next_node, [], anc')
      | None \<Rightarrow> (focus, key, anc))"
  by pat_completeness auto
termination by (relation "measure (size \<circ> fst)") (auto dest: node_get_child_size)

declare descend_nodes.simps [simp del]

definition z_descend_to_internal :: "path \<Rightarrow> 'v read_zipper \<Rightarrow> path \<times> 'v read_zipper" where
  "z_descend_to_internal k z =
     (let z1 = z\<lparr>focus_iter_token := NODE_ITER_INVALID, prefix_buf := prefix_buf z @ k\<rparr>;
          key_start = z_node_key_start z1;
          (node, key, anc) = descend_nodes (focus_node z1) (drop key_start (prefix_buf z1)) key_start (ancestors z1) in
      (key, z1\<lparr>focus_node := node, ancestors := anc\<rparr>))"

definition z_descend_to :: "path \<Rightarrow> 'v read_zipper \<Rightarrow> 'v read_zipper" where
  "z_descend_to k z = (if length k = 0 then z else snd (z_descend_to_internal k (z_prepare_buffers z)))"

definition z_descend_to_check :: "slice_utils \<Rightarrow> path \<Rightarrow> 'v read_zipper \<Rightarrow> bool \<times> 'v read_zipper" where
  "z_descend_to_check S k z =
     (if length k = 0 then (z_path_exists S z, z)
      else let (key, z') = z_descend_to_internal k (z_prepare_buffers z) in
        (if length key = 0 then True else node_contains_partial_key S (focus_node z') key, z'))"

definition z_descend_to_byte :: "u8 \<Rightarrow> 'v read_zipper \<Rightarrow> 'v read_zipper" where
  "z_descend_to_byte k z =
     (let z0 = z_prepare_buffers z;
          z1 = z0\<lparr>prefix_buf := prefix_buf z0 @ [k], focus_iter_token := NODE_ITER_INVALID\<rparr> in
      case node_get_child (focus_node z1) (z_node_key z1) of
        Some (_, next_node) \<Rightarrow>
          z1\<lparr>ancestors := (focus_node z1, focus_iter_token z1, length (prefix_buf z1)) # ancestors z1,
             focus_node := next_node\<rparr>
      | None \<Rightarrow> z1)"

definition z_descend_to_existing_byte :: "slice_utils \<Rightarrow> u8 \<Rightarrow> 'v read_zipper \<Rightarrow> bool \<times> 'v read_zipper" where
  "z_descend_to_existing_byte S k z =
     (let z0 = z_prepare_buffers z;
          z1 = z0\<lparr>prefix_buf := prefix_buf z0 @ [k]\<rparr>;
          node_key = z_node_key z1 in
      case node_get_child (focus_node z1) node_key of
        Some (_, next_node) \<Rightarrow>
          (True, z1\<lparr>focus_iter_token := NODE_ITER_INVALID,
             ancestors := (focus_node z1, NODE_ITER_INVALID, length (prefix_buf z1)) # ancestors z1,
             focus_node := next_node\<rparr>)
      | None \<Rightarrow>
          if node_contains_partial_key S (focus_node z1) node_key
          then (True, z1\<lparr>focus_iter_token := NODE_ITER_INVALID\<rparr>)
          else (False, z1\<lparr>prefix_buf := butlast (prefix_buf z1)\<rparr>))"

definition z_descend_indexed_byte :: "slice_utils \<Rightarrow> nat \<Rightarrow> 'v read_zipper \<Rightarrow> u8 option \<times> 'v read_zipper" where
  "z_descend_indexed_byte S child_idx z =
     (let z0 = z_prepare_buffers z in
      case node_nth_child_from_key S (focus_node z0) (z_node_key z0) child_idx of
        (Some b, Some child_node) \<Rightarrow>
          (Some b, z_push_node child_node (z0\<lparr>prefix_buf := prefix_buf z0 @ [b], focus_iter_token := NODE_ITER_INVALID\<rparr>))
      | (Some b, None) \<Rightarrow>
          (Some b, z0\<lparr>prefix_buf := prefix_buf z0 @ [b], focus_iter_token := NODE_ITER_INVALID\<rparr>)
      | (None, _) \<Rightarrow> (None, z0))"

text \<open>The focus token, computed when the zipper does not hold one.\<close>

definition z_with_token :: "slice_utils \<Rightarrow> 'v read_zipper \<Rightarrow> 'v read_zipper" where
  "z_with_token S z =
     (if focus_iter_token z = NODE_ITER_INVALID
      then z\<lparr>focus_iter_token := node_iter_token_for_path S (focus_node z) (z_node_key z)\<rparr> else z)"

text \<open>After an item: step into its child, or keep the token.\<close>

definition z_enter_item :: "u64 \<Rightarrow> 'v node option \<Rightarrow> 'v read_zipper \<Rightarrow> 'v read_zipper" where
  "z_enter_item new_tok child_node z =
     (case child_node of
        None \<Rightarrow> z\<lparr>focus_iter_token := new_tok\<rparr>
      | Some rec \<Rightarrow>
          z\<lparr>ancestors := (focus_node z, new_tok, length (prefix_buf z)) # ancestors z, focus_node := rec,
            focus_iter_token := node_new_iter_token rec\<rparr>)"

definition z_descend_first_byte :: "slice_utils \<Rightarrow> 'v read_zipper \<Rightarrow> (u8 option \<times> 'v read_zipper) outcome" where
  "z_descend_first_byte S z =
     (let z1 = z_with_token S (z_prepare_buffers z) in
      if node_iter_token_is_nonexistent (focus_iter_token z1) then Ret (None, z1)
      else bind_outcome (node_next_items (focus_node z1) (focus_iter_token z1) False) (\<lambda>(new_tok, key_bytes, child_node, _).
        if new_tok \<noteq> NODE_ITER_FINISHED then
          let node_key = z_node_key z1; byte_idx = length node_key in
          if length key_bytes \<le> byte_idx \<or> \<not> starts_with S key_bytes node_key then Ret (None, z1)
          else
            let b = key_bytes ! byte_idx; z2 = z1\<lparr>prefix_buf := prefix_buf z1 @ [b]\<rparr> in
            if length key_bytes = byte_idx + 1 then Ret (Some b, z_enter_item new_tok child_node z2)
            else bind_outcome (node_ascend_iter_token (focus_node z2) new_tok (length key_bytes - (byte_idx + 1)))
              (\<lambda>tok. Ret (Some b, z2\<lparr>focus_iter_token := tok\<rparr>))
        else Ret (None, z1)))"

subsection \<open>Descending along existing paths\<close>

definition CHUNK_SIZE :: nat where "CHUNK_SIZE = 64"

function descend_chunks :: "path \<Rightarrow> nat \<Rightarrow> 'v read_zipper \<Rightarrow> nat \<times> 'v read_zipper" where
  "descend_chunks k key_start z =
     (if length k = 0 then (key_start, z)
      else
        let z' = snd (z_descend_to_internal (take CHUNK_SIZE k) z); new_key_start = z_node_key_start z' in
        if new_key_start = key_start then (key_start, z')
        else descend_chunks (drop CHUNK_SIZE k) new_key_start z')"
  by pat_completeness auto
termination by (relation "measure (length \<circ> fst)") (auto simp: CHUNK_SIZE_def)

declare descend_chunks.simps [simp del]

definition z_descend_to_existing :: "slice_utils \<Rightarrow> path \<Rightarrow> 'v read_zipper \<Rightarrow> nat \<times> 'v read_zipper" where
  "z_descend_to_existing S k z =
     (if length k = 0 then (0, z)
      else
        let z0 = z_prepare_buffers z; original_path_len = length (prefix_buf z0); key_start = z_node_key_start z0 in
        if key_start < length (prefix_buf z0) \<and>
           \<not> node_contains_partial_key S (focus_node z0) (drop key_start (prefix_buf z0)) then (0, z0)
        else
          let (key_start', z1) = descend_chunks k key_start z0;
              node_key = drop key_start' (prefix_buf z1);
              overlap = (if 0 < length node_key then node_key_overlap S (focus_node z1) node_key else 0);
              buf = take (key_start' + overlap) (prefix_buf z1) in
          (length buf - original_path_len, z1\<lparr>prefix_buf := buf\<rparr>))"

text \<open>\<open>descend_first\<close>; the recursion steps into the child of an empty key.\<close>

partial_function (option) z_descend_first ::
  "slice_utils \<Rightarrow> 'v read_zipper \<Rightarrow> observer \<Rightarrow> ('v read_zipper \<times> observer) outcome option" where
  "z_descend_first S z obs =
     (let z0 = z_prepare_buffers z in
      case node_first_child_from_key S (focus_node z0) (z_node_key z0) of
        Ret (Some pre, child_node_opt) \<Rightarrow>
          let z1 = z0\<lparr>prefix_buf := prefix_buf z0 @ pre,
                focus_iter_token := (if pre \<noteq> [] then NODE_ITER_INVALID else focus_iter_token z0)\<rparr>;
              obs1 = obs @ [Descended pre] in
          (case child_node_opt of
             Some child_node \<Rightarrow>
               let z2 = z_push_node child_node z1 in
               if length pre = 0 then z_descend_first S z2 obs1 else Some (Ret (z2, obs1))
           | None \<Rightarrow> Some (Ret (z1, obs1)))
      | _ \<Rightarrow> Some Panic)"

partial_function (option) z_descend_until_loop ::
  "slice_utils \<Rightarrow> bool \<Rightarrow> 'v read_zipper \<Rightarrow> observer \<Rightarrow> (bool \<times> 'v read_zipper \<times> observer) outcome option" where
  "z_descend_until_loop S moved z obs =
     (if z_child_count S z = 1 then
        (case z_descend_first S z obs of
           None \<Rightarrow> None
         | Some Panic \<Rightarrow> Some Panic
         | Some (Ret (z', obs')) \<Rightarrow>
             if z_is_val z' then Some (Ret (True, z', obs')) else z_descend_until_loop S True z' obs')
      else Some (Ret (moved, z, obs)))"

definition z_descend_until :: "slice_utils \<Rightarrow> 'v read_zipper \<Rightarrow> observer \<Rightarrow> (bool \<times> 'v read_zipper \<times> observer) outcome option" where
  "z_descend_until S z obs = z_descend_until_loop S False z obs"

partial_function (option) z_descend_max_loop ::
  "slice_utils \<Rightarrow> bool \<Rightarrow> nat \<Rightarrow> 'v read_zipper \<Rightarrow> observer \<Rightarrow> (bool \<times> 'v read_zipper \<times> observer) outcome option" where
  "z_descend_max_loop S moved remaining z obs =
     (if z_child_count S z = 1 \<and> 0 < remaining then
        let z0 = z_prepare_buffers z in
        case node_first_child_from_key S (focus_node z0) (z_node_key z0) of
          Ret (Some pre, child_node_opt) \<Rightarrow>
            if length pre = 0 then
              (case child_node_opt of
                 Some child_node \<Rightarrow> z_descend_max_loop S True remaining (z_push_node child_node z0) obs
               | None \<Rightarrow> Some (Ret (moved, z0, obs)))
            else
              let n = min remaining (length pre);
                  z1 = z0\<lparr>prefix_buf := prefix_buf z0 @ take n pre, focus_iter_token := NODE_ITER_INVALID\<rparr>;
                  obs1 = obs @ [Descended (take n pre)] in
              if n < length pre then Some (Ret (True, z1, obs1))
              else
                let z2 = (case child_node_opt of Some child_node \<Rightarrow> z_push_node child_node z1 | None \<Rightarrow> z1) in
                if z_is_val z2 then Some (Ret (True, z2, obs1))
                else z_descend_max_loop S True (remaining - n) z2 obs1
        | _ \<Rightarrow> Some Panic
      else Some (Ret (moved, z, obs)))"

definition z_descend_until_max_bytes ::
  "slice_utils \<Rightarrow> nat \<Rightarrow> 'v read_zipper \<Rightarrow> observer \<Rightarrow> (bool \<times> 'v read_zipper \<times> observer) outcome option" where
  "z_descend_until_max_bytes S max_bytes z obs =
     (if max_bytes = 0 then Some (Ret (False, z, obs)) else z_descend_max_loop S False max_bytes z obs)"

subsection \<open>Siblings\<close>

definition set_last :: "u8 \<Rightarrow> path \<Rightarrow> path" where
  "set_last b p = butlast p @ [b]"

definition z_to_next_sibling_byte :: "slice_utils \<Rightarrow> 'v read_zipper \<Rightarrow> (u8 option \<times> 'v read_zipper) outcome" where
  "z_to_next_sibling_byte S z =
     (if z_at_root z then Ret (None, z)
      else let z0 = z_prepare_buffers z in
        if length (prefix_buf z0) = 0 then Ret (None, z0)
        else let z1 = z_with_token S (z_deregularize z0) in
          bind_outcome (node_next_items (focus_node z1) (focus_iter_token z1) True) (\<lambda>(new_tok, key_bytes, child_node, _).
            if new_tok = NODE_ITER_FINISHED then Ret (None, z_regularize z1)
            else
              let node_key = z_node_key z1; node_key_len = length node_key in
              if node_key_len = 0 then Ret (None, z1)
              else
                let fixed_len = node_key_len - 1 in
                if length key_bytes \<le> fixed_len \<or> take fixed_len key_bytes \<noteq> take fixed_len node_key \<or>
                   key_bytes ! fixed_len \<le> node_key ! fixed_len then Ret (None, z_regularize z1)
                else
                  let b = key_bytes ! fixed_len in
                  bind_outcome
                    (if length key_bytes = node_key_len then Ret new_tok
                     else node_ascend_iter_token (focus_node z1) new_tok (length key_bytes - node_key_len))
                    (\<lambda>tok.
                      let z2 = z1\<lparr>prefix_buf := set_last b (prefix_buf z1), focus_iter_token := tok\<rparr> in
                      Ret (Some b,
                        if length key_bytes = node_key_len then
                          (case child_node of
                             None \<Rightarrow> z2
                           | Some rec \<Rightarrow>
                               z2\<lparr>ancestors := (focus_node z2, new_tok, length (prefix_buf z2)) # ancestors z2,
                                  focus_node := rec, focus_iter_token := NODE_ITER_INVALID\<rparr>)
                        else z2))))"

definition z_to_sibling :: "slice_utils \<Rightarrow> bool \<Rightarrow> 'v read_zipper \<Rightarrow> u8 option \<times> 'v read_zipper" where
  "z_to_sibling S next z =
     (if z_at_root z then (None, z)
      else let z0 = z_prepare_buffers z in
        if length (z_node_key z0) \<noteq> 0 then
          (case node_get_sibling_of_child S (focus_node z0) (z_node_key z0) next of
             (Some b, Some child_node) \<Rightarrow>
               (Some b, z_push_node child_node (z0\<lparr>prefix_buf := set_last b (prefix_buf z0), focus_iter_token := NODE_ITER_INVALID\<rparr>))
           | (Some b, None) \<Rightarrow>
               (Some b, z0\<lparr>prefix_buf := set_last b (prefix_buf z0), focus_iter_token := NODE_ITER_INVALID\<rparr>)
           | (None, _) \<Rightarrow> (None, z0))
        else
          case ancestors z0 of
            [] \<Rightarrow> (None, z0)
          | (parent, iter_tok, prefix_offset) # rest \<Rightarrow>
              (case node_get_sibling_of_child S parent (z_parent_key z0) next of
                 (Some b, Some child_node) \<Rightarrow>
                   (Some b, z0\<lparr>prefix_buf := set_last b (prefix_buf z0), focus_node := child_node,
                      focus_iter_token := NODE_ITER_INVALID, ancestors := (parent, NODE_ITER_INVALID, prefix_offset) # rest\<rparr>)
               | (Some b, None) \<Rightarrow>
                   (Some b, z0\<lparr>prefix_buf := set_last b (prefix_buf z0), focus_node := parent,
                      focus_iter_token := NODE_ITER_INVALID, ancestors := rest\<rparr>)
               | (None, _) \<Rightarrow> (None, z0)))"

definition z_to_prev_sibling_byte :: "slice_utils \<Rightarrow> 'v read_zipper \<Rightarrow> u8 option \<times> 'v read_zipper" where
  "z_to_prev_sibling_byte S z = z_to_sibling S False z"

subsection \<open>Ascending\<close>

definition z_reset :: "'v read_zipper \<Rightarrow> 'v read_zipper" where
  "z_reset z =
     z\<lparr>focus_node := (case ancestors z of [] \<Rightarrow> focus_node z | as \<Rightarrow> fst (last as)), ancestors := [],
       focus_iter_token := NODE_ITER_INVALID, prefix_buf := take (length (origin_path z)) (prefix_buf z)\<rparr>"

text \<open>The loop of \<open>ascend\<close>: the steps that remain, and the zipper.\<close>

function z_ascend_loop :: "nat \<Rightarrow> 'v read_zipper \<Rightarrow> (nat \<times> 'v read_zipper) outcome" where
  "z_ascend_loop remaining z =
     (if remaining = 0 then Ret (0, z)
      else if z_excess_key_len z = 0 \<and> ancestors z = [] then Ret (remaining, z)
      else
        let z1 = (if z_excess_key_len z = 0 then z_ascend_across_nodes z else z);
            cur_jump = min remaining (z_excess_key_len z1) in
        if 0 < cur_jump then
          (case z_reascend_iter_token cur_jump (z1\<lparr>prefix_buf := take (length (prefix_buf z1) - cur_jump) (prefix_buf z1)\<rparr>) of
             Ret z2 \<Rightarrow> z_ascend_loop (remaining - cur_jump) z2
           | Panic \<Rightarrow> Panic)
        else z_ascend_loop remaining z1)"
  by pat_completeness auto
termination
  by (relation "measure (\<lambda>(remaining, z). remaining + length (ancestors z))")
    (auto simp: z_reascend_iter_token_def z_ascend_across_nodes_def bind_outcome_Ret_iff split: if_splits list.splits)

declare z_ascend_loop.simps [simp del]

definition z_ascend :: "nat \<Rightarrow> 'v read_zipper \<Rightarrow> (nat \<times> 'v read_zipper) outcome" where
  "z_ascend steps z =
     (if z_at_root z then Ret (0, z)
      else bind_outcome (z_ascend_loop steps z) (\<lambda>(remaining, z'). Ret (steps - remaining, z')))"

definition z_ascend_byte :: "'v read_zipper \<Rightarrow> (bool \<times> 'v read_zipper) outcome" where
  "z_ascend_byte z =
     (if z_at_root z then Ret (False, z)
      else if z_excess_key_len z = 0 \<and> ancestors z = [] then Ret (False, z)
      else
        let z1 = (if z_excess_key_len z = 0 then z_ascend_across_nodes z else z) in
        bind_outcome (z_reascend_iter_token 1 (z1\<lparr>prefix_buf := butlast (prefix_buf z1)\<rparr>)) (\<lambda>z2. Ret (True, z2)))"

definition z_ascend_within_node :: "'v read_zipper \<Rightarrow> (nat \<times> 'v read_zipper) outcome" where
  "z_ascend_within_node z =
     (let branch_key = node_prior_branch_key (focus_node z) (z_node_key z);
          new_len = max (length (origin_path z)) (z_node_key_start z + length branch_key);
          old_len = length (prefix_buf z);
          z1 = z\<lparr>prefix_buf := take new_len (prefix_buf z)\<rparr>;
          ascended = old_len - new_len in
      if 0 < ascended then bind_outcome (z_reascend_iter_token ascended z1) (\<lambda>z2. Ret (ascended, z2))
      else Ret (ascended, z1))"

text \<open>The loop of \<open>ascend_until\<close> and \<open>ascend_until_branch\<close>, which stop at a value or do not.\<close>

partial_function (option) z_ascend_until_loop ::
  "slice_utils \<Rightarrow> bool \<Rightarrow> nat \<Rightarrow> 'v read_zipper \<Rightarrow> (nat \<times> 'v read_zipper) outcome option" where
  "z_ascend_until_loop S at_vals ascended z =
     (let z0 = (if length (z_node_key z) = 0 then z_ascend_across_nodes z else z) in
      case z_ascend_within_node z0 of
        Panic \<Rightarrow> Some Panic
      | Ret (n, z1) \<Rightarrow>
          if 1 < z_child_count S z1 \<or> (at_vals \<and> z_is_val z1) \<or> z_at_root z1 then Some (Ret (ascended + n, z1))
          else z_ascend_until_loop S at_vals (ascended + n) z1)"

definition z_ascend_until :: "slice_utils \<Rightarrow> 'v read_zipper \<Rightarrow> (nat \<times> 'v read_zipper) outcome option" where
  "z_ascend_until S z = (if z_at_root z then Some (Ret (0, z)) else z_ascend_until_loop S True 0 z)"

definition z_ascend_until_branch :: "slice_utils \<Rightarrow> 'v read_zipper \<Rightarrow> (nat \<times> 'v read_zipper) outcome option" where
  "z_ascend_until_branch S z = (if z_at_root z then Some (Ret (0, z)) else z_ascend_until_loop S False 0 z)"

subsection \<open>Iterating values\<close>

text \<open>One turn of the loop of \<open>to_next_get_val_observed\<close>: \<open>Inl\<close> is the next turn, \<open>Inr\<close> the value it returns.\<close>

definition z_next_val_ascend ::
  "'v read_zipper \<Rightarrow> observer \<Rightarrow> ('v read_zipper + 'v option \<times> 'v read_zipper) \<times> observer" where
  "z_next_val_ascend z obs =
     (case ancestors z of
        (node, iter_tok, prefix_offset) # rest \<Rightarrow>
          (Inl (z\<lparr>ancestors := rest, focus_node := node, focus_iter_token := iter_tok,
                 prefix_buf := take prefix_offset (prefix_buf z)\<rparr>),
           obs @ [Ascended (length (prefix_buf z) - prefix_offset)])
      | [] \<Rightarrow>
          let new_len = length (origin_path z) in
          (Inr (None, z\<lparr>focus_iter_token := NODE_ITER_INVALID, prefix_buf := take new_len (prefix_buf z)\<rparr>),
           obs @ [Ascended (length (prefix_buf z) - new_len)]))"

definition z_next_val_item ::
  "u64 \<times> ('v node, 'v) item \<Rightarrow> 'v read_zipper \<Rightarrow> observer \<Rightarrow> ('v read_zipper + 'v option \<times> 'v read_zipper) \<times> observer" where
  "z_next_val_item = (\<lambda>(new_tok, key_bytes, child_node, val) z obs.
     let z1 = z\<lparr>focus_iter_token := new_tok\<rparr>;
         key_start = z_node_key_start z1;
         origin_path_len = length (origin_path z1);
         unmodifiable_len = origin_path_len - key_start in
     if key_start < origin_path_len \<and>
        (length key_bytes < unmodifiable_len \<or>
         take unmodifiable_len key_bytes \<noteq> subrange key_start origin_path_len (prefix_buf z1))
     then (Inr (None, z1\<lparr>prefix_buf := take origin_path_len (prefix_buf z1), focus_iter_token := NODE_ITER_INVALID\<rparr>),
           obs @ [Ascended (length (prefix_buf z1) - origin_path_len)])
     else
       let obs_skip = origin_path_len - key_start;
           z2 = z1\<lparr>prefix_buf := take key_start (prefix_buf z1) @ key_bytes\<rparr>;
           obs2 = obs @ Ascended (length (prefix_buf z1) - key_start - obs_skip) #
             (if obs_skip \<le> length key_bytes then [Descended (drop obs_skip key_bytes)] else []);
           z3 = z_enter_item new_tok child_node z2 in
       case val of
         Some v \<Rightarrow> (Inr (Some v, z3), obs2)
       | None \<Rightarrow> (Inl z3, obs2))"

definition z_next_val_step ::
  "slice_utils \<Rightarrow> 'v read_zipper \<Rightarrow> observer \<Rightarrow> (('v read_zipper + 'v option \<times> 'v read_zipper) \<times> observer) outcome" where
  "z_next_val_step S z obs =
     (let z1 = z_with_token S z in
      bind_outcome
        (if focus_iter_token z1 < TOKEN_LAST then node_next_items (focus_node z1) (focus_iter_token z1) False
         else Ret (NODE_ITER_FINISHED, [], None, None))
        (\<lambda>next. if fst next \<noteq> NODE_ITER_FINISHED then Ret (z_next_val_item next z1 obs)
                else Ret (z_next_val_ascend z1 obs)))"

partial_function (option) z_next_val_loop ::
  "slice_utils \<Rightarrow> 'v read_zipper \<Rightarrow> observer \<Rightarrow> (('v option \<times> 'v read_zipper) \<times> observer) outcome option" where
  "z_next_val_loop S z obs =
     (case z_next_val_step S z obs of
        Panic \<Rightarrow> Some Panic
      | Ret (Inl z', obs') \<Rightarrow> z_next_val_loop S z' obs'
      | Ret (Inr r, obs') \<Rightarrow> Some (Ret (r, obs')))"

definition z_to_next_get_val ::
  "slice_utils \<Rightarrow> 'v read_zipper \<Rightarrow> observer \<Rightarrow> (('v option \<times> 'v read_zipper) \<times> observer) outcome option" where
  "z_to_next_get_val S z obs = z_next_val_loop S (z_prepare_buffers z) obs"

subsection \<open>Iterating paths of one length\<close>

definition MIN_EXCESS_TO_AVOID_COPY :: nat where "MIN_EXCESS_TO_AVOID_COPY = 12"

text \<open>What the observer hears when the buffer ends at \<open>len\<close> and is cut to \<open>to\<close>: nothing above the root.\<close>

definition observed_ascent :: "nat \<Rightarrow> nat \<Rightarrow> nat \<Rightarrow> movement" where
  "observed_ascent obs_floor len to = Ascended (len - max to obs_floor)"

definition observed_descent :: "nat \<Rightarrow> path \<Rightarrow> observer" where
  "observed_descent obs_skip p = (if obs_skip \<le> length p then [Descended (drop obs_skip p)] else [])"

text \<open>The branch that ends the search: the buffer is cut back to \<open>base_idx\<close>.\<close>

definition z_k_path_stop ::
  "bool \<Rightarrow> nat \<Rightarrow> 'v read_zipper \<Rightarrow> observer \<Rightarrow> (('v read_zipper + bool \<times> 'v read_zipper) \<times> observer) outcome" where
  "z_k_path_stop always_observed base_idx z obs =
     (let excess = length (prefix_buf z) - base_idx;
          z1 = z\<lparr>prefix_buf := take base_idx (prefix_buf z)\<rparr>;
          obs1 = (if always_observed \<or> 0 < excess then obs @ [Ascended excess] else obs) in
      if 0 < excess then bind_outcome (z_reascend_iter_token excess z1) (\<lambda>z2. Ret (Inr (False, z2), obs1))
      else Ret (Inr (False, z1), obs1))"

definition z_k_path_item ::
  "nat \<Rightarrow> nat \<Rightarrow> u64 \<times> ('v node, 'v) item \<Rightarrow> 'v read_zipper \<Rightarrow> observer \<Rightarrow>
     (('v read_zipper + bool \<times> 'v read_zipper) \<times> observer) outcome" where
  "z_k_path_item k base_idx = (\<lambda>(new_tok, key_bytes, child_node, _) z obs.
     let key_start = z_node_key_start z; target_idx = base_idx + k; base_key_len = base_idx - key_start in
     if key_start < base_idx \<and>
        (length key_bytes < base_key_len \<or> take base_key_len key_bytes \<noteq> subrange key_start base_idx (prefix_buf z))
     then z_k_path_stop False base_idx z obs
     else
       let obs_floor = length (origin_path z); obs_skip = obs_floor - key_start;
           obs1 = obs @ [observed_ascent obs_floor (length (prefix_buf z)) key_start];
           z1 = z\<lparr>focus_iter_token := new_tok, prefix_buf := take key_start (prefix_buf z)\<rparr>;
           remaining = target_idx - key_start in
       if remaining < length key_bytes then
         let excess = length key_bytes - remaining;
             obs2 = (if MIN_EXCESS_TO_AVOID_COPY \<le> excess
                     then obs1 @ observed_descent obs_skip (take remaining key_bytes)
                     else obs1 @ observed_descent obs_skip key_bytes @ [Ascended excess]) in
         bind_outcome (node_ascend_iter_token (focus_node z1) new_tok excess)
           (\<lambda>tok. Ret (Inr (True, z1\<lparr>prefix_buf := prefix_buf z1 @ take remaining key_bytes, focus_iter_token := tok\<rparr>), obs2))
       else
         let z2 = z_enter_item new_tok child_node (z1\<lparr>prefix_buf := prefix_buf z1 @ key_bytes\<rparr>);
             obs2 = obs1 @ observed_descent obs_skip key_bytes in
         if length (prefix_buf z2) = target_idx then Ret (Inr (True, z2), obs2) else Ret (Inl z2, obs2))"

definition z_k_path_step ::
  "slice_utils \<Rightarrow> nat \<Rightarrow> nat \<Rightarrow> bool \<Rightarrow> 'v read_zipper \<Rightarrow> observer \<Rightarrow>
     (('v read_zipper + bool \<times> 'v read_zipper) \<times> observer) outcome" where
  "z_k_path_step S k base_idx continue_from_focus z obs =
     (let z1 = z_with_token S z in
      bind_outcome
        (node_next_items (focus_node z1) (focus_iter_token z1) (continue_from_focus \<or> focus_iter_token z = NODE_ITER_INVALID))
        (\<lambda>next. if fst next \<noteq> NODE_ITER_FINISHED then z_k_path_item k base_idx next z1 obs
                else if z_node_key_start z1 \<le> base_idx then z_k_path_stop True base_idx z1 obs
                else
                  let obs_floor = length (origin_path z1) in
                  case ancestors z1 of
                    (node, iter_tok, prefix_offset) # rest \<Rightarrow>
                      Ret (Inl (z1\<lparr>ancestors := rest, focus_node := node, focus_iter_token := iter_tok,
                                  prefix_buf := take prefix_offset (prefix_buf z1)\<rparr>),
                           obs @ [observed_ascent obs_floor (length (prefix_buf z1)) prefix_offset])
                  | [] \<Rightarrow>
                      Ret (Inr (False, z1\<lparr>focus_iter_token := NODE_ITER_INVALID, prefix_buf := take obs_floor (prefix_buf z1)\<rparr>),
                           obs @ [Ascended (length (prefix_buf z1) - obs_floor)])))"

partial_function (option) z_k_path_internal ::
  "slice_utils \<Rightarrow> nat \<Rightarrow> nat \<Rightarrow> bool \<Rightarrow> 'v read_zipper \<Rightarrow> observer \<Rightarrow> ((bool \<times> 'v read_zipper) \<times> observer) outcome option" where
  "z_k_path_internal S k base_idx continue_from_focus z obs =
     (case z_k_path_step S k base_idx continue_from_focus z obs of
        Panic \<Rightarrow> Some Panic
      | Ret (Inl z', obs') \<Rightarrow> z_k_path_internal S k base_idx False z' obs'
      | Ret (Inr r, obs') \<Rightarrow> Some (Ret (r, obs')))"

definition z_descend_first_k_path ::
  "slice_utils \<Rightarrow> nat \<Rightarrow> 'v read_zipper \<Rightarrow> observer \<Rightarrow> ((bool \<times> 'v read_zipper) \<times> observer) outcome option" where
  "z_descend_first_k_path S k z obs =
     (if k = 0 then Some (Ret ((False, z), obs))
      else
        let z0 = z_prepare_buffers z;
            z1 = z0\<lparr>focus_iter_token := node_iter_token_for_path S (focus_node z0) (z_node_key z0)\<rparr> in
        z_k_path_internal S k (length (prefix_buf z1)) False z1 obs)"

definition z_to_next_k_path ::
  "slice_utils \<Rightarrow> nat \<Rightarrow> 'v read_zipper \<Rightarrow> observer \<Rightarrow> ((bool \<times> 'v read_zipper) \<times> observer) outcome option" where
  "z_to_next_k_path S k z obs =
     (case z_path_len z of
        Panic \<Rightarrow> Some Panic
      | Ret len \<Rightarrow>
          if len < k then Some (Ret ((False, z_reset z), obs @ [Ascended len]))
          else z_k_path_internal S k (length (prefix_buf z) - k) True (z_deregularize z) obs)"

end
