(* ===== verification/Read_Zipper_Laws.thy ===== *)
theory Read_Zipper_Laws
  imports Read_Zipper
begin

text \<open>
  The read zipper against the trie it looks at: the invariant of the node stack, what the focus says
  about the trie, and every movement as a movement of the path.
\<close>

subsection \<open>The chain of nodes above the focus\<close>

text \<open>\<open>chain S base start buf anc focus\<close>: the stack \<open>anc\<close>, innermost first, leads from \<open>base\<close>, which stands
  at offset \<open>start\<close> of \<open>buf\<close>, to \<open>focus\<close>: every entry's node has the next node behind the bytes up to
  its offset, and a token, if it has one, at those bytes.\<close>

definition tok_ok :: "slice_utils \<Rightarrow> 'v node \<Rightarrow> path \<Rightarrow> u64 \<Rightarrow> bool" where
  "tok_ok S n key t \<longleftrightarrow> t = NODE_ITER_INVALID \<or> node_at S n key t"

fun key_start_of :: "nat \<Rightarrow> ('v node \<times> u64 \<times> nat) list \<Rightarrow> nat" where
  "key_start_of start [] = start"
| "key_start_of start ((_, _, i) # _) = i"

fun chain :: "slice_utils \<Rightarrow> 'v node \<Rightarrow> nat \<Rightarrow> path \<Rightarrow> ('v node \<times> u64 \<times> nat) list \<Rightarrow> 'v node \<Rightarrow> bool" where
  "chain S base start buf [] focus \<longleftrightarrow> focus = base"
| "chain S base start buf ((n, t, i) # anc) focus \<longleftrightarrow>
     (let s = key_start_of start anc; key = subrange s i buf in
      s < i \<and> i \<le> length buf \<and> node_get_child n key = Some (length key, focus) \<and> tok_ok S n key t \<and>
      chain S base start buf anc n)"

lemma length_subrange [simp]: "length (subrange a b xs) = min (b - a) (length xs - a)"
  by (simp add: subrange_def min.commute)

lemma subrange_alt: "subrange a b xs = drop a (take b xs)"
  by (simp add: subrange_def drop_take)

lemma subrange_take: "b \<le> m \<Longrightarrow> subrange a b (take m xs) = subrange a b xs"
  by (simp add: subrange_alt min_def)

lemma subrange_split: "a \<le> b \<Longrightarrow> b \<le> c \<Longrightarrow> subrange a c xs = subrange a b xs @ subrange b c xs"
  using take_add[of "b - a" "c - b" "drop a xs"] by (simp add: subrange_def)

lemma subrange_drop: "a \<le> b \<Longrightarrow> b \<le> length xs \<Longrightarrow> subrange a b xs @ drop b xs = drop a xs"
  using subrange_split[of a b "length xs" xs] by (simp add: subrange_alt)

lemma subrange_cong: "take m xs = take m ys \<Longrightarrow> b \<le> m \<Longrightarrow> subrange a b xs = subrange a b ys"
  using subrange_take[of b m a xs] subrange_take[of b m a ys] by simp

lemma chain_start: "chain S base start buf anc focus \<Longrightarrow> start \<le> length buf \<Longrightarrow>
    start \<le> key_start_of start anc \<and> key_start_of start anc \<le> length buf"
proof (induction anc arbitrary: focus)
  case (Cons a anc)
  obtain n t i where a: "a = (n, t, i)" by (cases a)
  then show ?case using Cons.IH[of n] Cons.prems by (simp add: Let_def)
qed simp

lemma chain_cong:
  assumes "chain S base start buf anc focus" "start \<le> length buf"
    "take m buf = take m buf'" "key_start_of start anc \<le> m" "m \<le> length buf'"
  shows "chain S base start buf' anc focus"
  using assms
proof (induction anc arbitrary: focus)
  case (Cons a anc)
  obtain n t i where a: "a = (n, t, i)" by (cases a)
  let ?s = "key_start_of start anc"
  have c: "?s < i" "i \<le> length buf" "node_get_child n (subrange ?s i buf) = Some (length (subrange ?s i buf), focus)"
    "tok_ok S n (subrange ?s i buf) t" "chain S base start buf anc n"
    using Cons.prems(1) by (simp_all add: a Let_def)
  have i: "i \<le> m" using Cons.prems(4) by (simp add: a)
  have eq: "subrange ?s i buf = subrange ?s i buf'" by (rule subrange_cong[OF Cons.prems(3) i])
  have "chain S base start buf' anc n" using Cons.IH[OF c(5)] Cons.prems(2,3,5) c(1) i by simp
  then show ?case using c(1,3,4) i Cons.prems(5) by (simp add: a Let_def eq del: length_subrange)
qed simp

lemma child_below:
  assumes "wf_node n" "key \<noteq> []" "node_get_child n key = Some (length key, c)"
  shows "has_path n (key @ q) \<longleftrightarrow> has_path c q" "q \<noteq> [] \<Longrightarrow> den n (key @ q) = den c q" "wf_node c"
proof -
  have g: "node_get_child n (key @ q) = Some (length key, c)"
    using node_get_child_prefix[OF assms(1), of key "key @ q" "length key" c] assms(2,3) by simp
  show "has_path n (key @ q) \<longleftrightarrow> has_path c q"
    using has_path_descend[OF assms(1) g] assms(2) by simp
  show "q \<noteq> [] \<Longrightarrow> den n (key @ q) = den c q" using node_descend[OF assms(1) g] by simp
  show "wf_node c" using node_get_child_bounds[OF assms] by simp
qed

lemma chain_focus:
  assumes "chain S base start buf anc focus" "wf_node base" "start \<le> length buf"
  shows "wf_node focus \<and>
    (\<forall>q. has_path base (subrange start (key_start_of start anc) buf @ q) = has_path focus q) \<and>
    (\<forall>q. q \<noteq> [] \<longrightarrow> den base (subrange start (key_start_of start anc) buf @ q) = den focus q)"
  using assms
proof (induction anc arbitrary: focus)
  case Nil
  then show ?case by (simp add: subrange_alt)
next
  case (Cons a anc)
  obtain n t i where a: "a = (n, t, i)" by (cases a)
  let ?s = "key_start_of start anc" and ?key = "subrange (key_start_of start anc) i buf"
  have c: "?s < i" "i \<le> length buf" "node_get_child n ?key = Some (length ?key, focus)" "chain S base start buf anc n"
    using Cons.prems(1) by (simp_all add: a Let_def)
  have key: "?key \<noteq> []" using c(1,2) by (simp flip: length_greater_0_conv)
  note ih = Cons.IH[OF c(4) Cons.prems(2,3)]
  note below = child_below[OF conjunct1[OF ih] key c(3)]
  have s: "start \<le> ?s" using chain_start[OF c(4) Cons.prems(3)] by simp
  have split: "subrange start i buf = subrange start ?s buf @ ?key" by (rule subrange_split[OF s less_imp_le[OF c(1)]])
  show ?case using below ih unfolding a key_start_of.simps split append_assoc by simp
qed
subsection \<open>The position of a zipper\<close>

text \<open>The trie a zipper looks at, from its root: the root node, the origin path, where the root node
  stands on it, and the value at the root.  \<open>tv_get\<close> and \<open>tv_has\<close> read it at paths from the zipper's root.\<close>

record 'v trie_view =
  tv_base :: "'v node"
  tv_origin :: path
  tv_start :: nat
  tv_val :: "'v option"

definition tv_key :: "'v trie_view \<Rightarrow> path" where
  "tv_key T = drop (tv_start T) (tv_origin T)"

definition tv_get :: "'v trie_view \<Rightarrow> path \<Rightarrow> 'v option" where
  "tv_get T p = (if tv_key T @ p = [] then tv_val T else den (tv_base T) (tv_key T @ p))"

definition tv_has :: "'v trie_view \<Rightarrow> path \<Rightarrow> bool" where
  "tv_has T p = has_path (tv_base T) (tv_key T @ p)"

definition tv_ok :: "slice_utils \<Rightarrow> 'v trie_view \<Rightarrow> bool" where
  "tv_ok S T \<longleftrightarrow> slice_utils_ok S \<and> wf_node (tv_base T) \<and> tv_start T \<le> length (tv_origin T) \<and>
     (tv_key T \<noteq> [] \<longrightarrow> node_get_child (tv_base T) (tv_key T) = None)"

abbreviation tv_buf :: "'v trie_view \<Rightarrow> path \<Rightarrow> path" where
  "tv_buf T p \<equiv> tv_origin T @ p"

definition focus_key :: "'v trie_view \<Rightarrow> 'v read_zipper \<Rightarrow> path \<Rightarrow> path" where
  "focus_key T z p = drop (key_start_of (tv_start T) (ancestors z)) (tv_buf T p)"

text \<open>\<open>rz_pos\<close>: the zipper is at \<open>p\<close>, its focus node not above the node that holds the end of \<open>p\<close>.
  \<open>rz_at\<close> adds the focus token, \<open>rz_reg\<close> that the zipper is in regular form.\<close>

definition rz_pos :: "slice_utils \<Rightarrow> 'v trie_view \<Rightarrow> 'v read_zipper \<Rightarrow> path \<Rightarrow> bool" where
  "rz_pos S T z p \<longleftrightarrow> tv_ok S T \<and>
     origin_path z = tv_origin T \<and> root_key_start z = tv_start T \<and> zroot_val z = tv_val T \<and>
     root_parent_key_start z = None \<and> zroot_node z = Some (tv_base T) \<and>
     (if buffers_allocated z then prefix_buf z = tv_buf T p else prefix_buf z = [] \<and> p = [] \<and> ancestors z = []) \<and>
     chain S (tv_base T) (tv_start T) (tv_buf T p) (ancestors z) (focus_node z) \<and>
     (\<forall>l c. focus_key T z p \<noteq> [] \<longrightarrow> node_get_child (focus_node z) (focus_key T z p) = Some (l, c) \<longrightarrow>
        l = length (focus_key T z p))"

definition rz_at :: "slice_utils \<Rightarrow> 'v trie_view \<Rightarrow> 'v read_zipper \<Rightarrow> path \<Rightarrow> bool" where
  "rz_at S T z p \<longleftrightarrow> rz_pos S T z p \<and> tok_ok S (focus_node z) (focus_key T z p) (focus_iter_token z)"

definition rz_reg :: "slice_utils \<Rightarrow> 'v trie_view \<Rightarrow> 'v read_zipper \<Rightarrow> path \<Rightarrow> bool" where
  "rz_reg S T z p \<longleftrightarrow> rz_at S T z p \<and>
     (focus_key T z p \<noteq> [] \<longrightarrow> node_get_child (focus_node z) (focus_key T z p) = None)"

lemma rz_node_key:
  assumes "rz_pos S T z p"
  shows "z_node_key_start z = key_start_of (tv_start T) (ancestors z)" "z_node_key z = focus_key T z p"
proof -
  show ks: "z_node_key_start z = key_start_of (tv_start T) (ancestors z)"
    using assms by (cases "ancestors z") (auto simp: z_node_key_start_def rz_pos_def)
  show "z_node_key z = focus_key T z p"
    using assms ks by (auto simp: z_node_key_def focus_key_def rz_pos_def split: if_splits)
qed

lemma rz_bounds:
  assumes "rz_pos S T z p"
  shows "tv_start T \<le> key_start_of (tv_start T) (ancestors z)"
    "key_start_of (tv_start T) (ancestors z) \<le> length (tv_buf T p)"
    "length (focus_key T z p) = length (tv_buf T p) - key_start_of (tv_start T) (ancestors z)"
  using chain_start[of S "tv_base T" "tv_start T" "tv_buf T p" "ancestors z" "focus_node z"] assms
  by (auto simp: rz_pos_def tv_ok_def focus_key_def)

lemma rz_focus:
  assumes "rz_pos S T z p"
  shows "wf_node (focus_node z)"
    "tv_key T @ p = subrange (tv_start T) (key_start_of (tv_start T) (ancestors z)) (tv_buf T p) @ focus_key T z p"
    "tv_has T (p @ q) \<longleftrightarrow> has_path (focus_node z) (focus_key T z p @ q)"
    "focus_key T z p @ q \<noteq> [] \<Longrightarrow> tv_get T (p @ q) = den (focus_node z) (focus_key T z p @ q)"
proof -
  let ?ks = "key_start_of (tv_start T) (ancestors z)"
  have c: "chain S (tv_base T) (tv_start T) (tv_buf T p) (ancestors z) (focus_node z)"
    and T: "wf_node (tv_base T)" "tv_start T \<le> length (tv_buf T p)" "tv_start T \<le> length (tv_origin T)"
    using assms by (auto simp: rz_pos_def tv_ok_def)
  note focus = chain_focus[OF c T(1,2)]
  show "wf_node (focus_node z)" using focus by blast
  show full: "tv_key T @ p = subrange (tv_start T) ?ks (tv_buf T p) @ focus_key T z p"
    using subrange_drop[OF rz_bounds(1,2)[OF assms]] T(3) by (simp add: tv_key_def focus_key_def)
  then have full_q: "tv_key T @ p @ q = subrange (tv_start T) ?ks (tv_buf T p) @ (focus_key T z p @ q)"
    by (metis append_assoc)
  show "tv_has T (p @ q) \<longleftrightarrow> has_path (focus_node z) (focus_key T z p @ q)"
    unfolding tv_has_def full_q using focus by blast
  assume ne: "focus_key T z p @ q \<noteq> []"
  then have "tv_key T @ p @ q \<noteq> []" unfolding full_q by simp
  then have "tv_get T (p @ q) = den (tv_base T) (tv_key T @ p @ q)" by (auto simp: tv_get_def)
  then show "tv_get T (p @ q) = den (focus_node z) (focus_key T z p @ q)"
    unfolding full_q using focus ne by simp
qed

subsection \<open>What the focus says\<close>

lemma contains_partial_key_at:
  assumes "slice_utils_ok S" "wf_node n" "key \<noteq> []" "\<And>l c. node_get_child n key = Some (l, c) \<Longrightarrow> l = length key"
  shows "node_contains_partial_key S n key \<longleftrightarrow> has_path n key"
proof (cases "node_get_child n key")
  case None
  then show ?thesis by (rule contains_partial_key_here[OF assms(1-3)])
next
  case (Some r)
  then obtain c where c: "node_get_child n key = Some (length key, c)" using assms(4) by (cases r) auto
  obtain v where "(key, Some c, v) \<in> set (node_items n)" using node_child_item[OF assms(2,3) c] by auto
  then have "node_contains_partial_key S n key"
    unfolding node_contains_items[OF assms(1-3)] on_items_def by force
  moreover have "has_path n key" using child_below(1)[OF assms(2,3) c, of "[]"] by simp
  ultimately show ?thesis by simp
qed

lemma branch_bit:
  assumes "slice_utils_ok S" "wf_node n" "key \<noteq> [] \<Longrightarrow> node_get_child n key = None"
  shows "test_bit (node_branches_mask S n key) b \<longleftrightarrow> has_path n (key @ [b])"
proof -
  have "l = length (key @ [b])" if g: "node_get_child n (key @ [b]) = Some (l, c)" for l c
  proof -
    have l: "0 < l" "l \<le> length (key @ [b])" using node_get_child_bounds[OF assms(2) _ g] by auto
    have "\<not> l \<le> length key"
    proof
      assume le: "l \<le> length key"
      then have "key \<noteq> []" using l(1) by auto
      then show False
        using node_get_child_prefix[OF assms(2), of key "key @ [b]" l c] g le assms(3) by simp
    qed
    then show ?thesis using l by simp
  qed
  then show ?thesis
    using contains_partial_key_at[OF assms(1,2), of "key @ [b]"] node_contains_items[OF assms(1,2), of "key @ [b]"]
      node_branches_iff[OF assms(1,2)] by simp
qed

lemma node_count_branches_card:
  assumes "slice_utils_ok S" "wf_node n"
  shows "node_count_branches S n key = card {b. test_bit (node_branches_mask S n key) b}"
proof (cases n)
  case EmptyN
  then show ?thesis using mask_search_list(1)[of "[]" EMPTY] by (simp add: test_bit_EMPTY)
next
  case (ListN ln)
  then have "wf_node (ListN ln)" using assms(2) by simp
  from list_branches_spec[OF assms(1) this] show ?thesis by (simp add: ListN)
next
  case (ByteN bn)
  obtain m cfs where bn: "bn = BN m cfs" by (cases bn)
  have ok: "bn_ok (BN m cfs)" using assms(2) by (simp add: ByteN bn)
  have "{b. test_bit m b} = to_u8 ` set (bits m)"
    using mbit_less by (force simp: set_bits test_bit_mbit image_iff intro: exI[of _ "unat _"])
  moreover have "inj_on to_u8 (set (bits m))"
    by (intro inj_onI) (metis mbit_less mem_Collect_eq set_bits unat_to_u8)
  ultimately have "card {b. test_bit m b} = length (bits m)"
    by (simp add: card_image distinct_card bits_sorted)
  also have "\<dots> = length cfs" using ok by (simp add: bn_ok_BN length_bits)
  finally show ?thesis by (simp add: ByteN bn bn_count_branches_def bn_branches_mask_def test_bit_EMPTY)
qed

lemma rz_parent:
  assumes "rz_pos S T z p" "ancestors z = (n, t, i) # anc"
  shows "z_parent_key z = subrange (key_start_of (tv_start T) anc) i (tv_buf T p)"
    "z_parent_key z \<noteq> []" "length (z_parent_key z) = i - key_start_of (tv_start T) anc"
    "key_start_of (tv_start T) anc < i" "i \<le> length (tv_buf T p)"
    "node_get_child n (z_parent_key z) = Some (length (z_parent_key z), focus_node z)"
    "tok_ok S n (z_parent_key z) t" "chain S (tv_base T) (tv_start T) (tv_buf T p) anc n"
proof -
  have c: "key_start_of (tv_start T) anc < i" "i \<le> length (tv_buf T p)"
    and buf: "prefix_buf z = tv_buf T p" and rs: "root_key_start z = tv_start T"
    and chain: "chain S (tv_base T) (tv_start T) (tv_buf T p) (ancestors z) (focus_node z)"
    using assms by (auto simp: rz_pos_def Let_def split: if_splits)
  have "0 < length (prefix_buf z)" unfolding buf using c by linarith
  then show key: "z_parent_key z = subrange (key_start_of (tv_start T) anc) i (tv_buf T p)"
    using assms(2) buf rs rz_node_key(1)[OF assms(1)] by (auto simp: z_parent_key_def Let_def split: list.splits)
  show len: "length (z_parent_key z) = i - key_start_of (tv_start T) anc" using c unfolding key by simp
  show "z_parent_key z \<noteq> []" using len c(1) by auto
  show "node_get_child n (z_parent_key z) = Some (length (z_parent_key z), focus_node z)" "tok_ok S n (z_parent_key z) t"
    "chain S (tv_base T) (tv_start T) (tv_buf T p) anc n"
    using chain unfolding key by (simp_all add: assms(2) Let_def del: length_subrange)
  show "key_start_of (tv_start T) anc < i" "i \<le> length (tv_buf T p)" by (rule c)+
qed

lemma chain_above:
  assumes "chain S base start buf anc focus" "anc \<noteq> []" "wf_node base" "start \<le> m" "m \<le> length buf"
    "subrange start m buf \<noteq> [] \<Longrightarrow> node_get_child base (subrange start m buf) = None"
  shows "m < key_start_of start anc"
  using assms(1,2)
proof (induction anc arbitrary: focus)
  case (Cons a anc)
  obtain n t i where a: "a = (n, t, i)" by (cases a)
  let ?key = "subrange (key_start_of start anc) i buf"
  have c: "key_start_of start anc < i" "i \<le> length buf" "node_get_child n ?key = Some (length ?key, focus)"
    "chain S base start buf anc n"
    using Cons.prems(1) by (simp_all add: a Let_def)
  show ?case
  proof (cases anc)
    case Nil
    have n: "n = base" using c(4) by (simp add: Nil)
    have key: "?key = subrange start i buf" "start < i" using c(1) by (simp_all add: Nil)
    have ne: "?key \<noteq> []" using c(1,2) by (simp flip: length_greater_0_conv)
    have "\<not> i \<le> m"
    proof
      assume "i \<le> m"
      then have split: "subrange start m buf = ?key @ subrange i m buf"
        using subrange_split[of start i m buf] key by simp
      then have "node_get_child base (subrange start m buf) = Some (length ?key, focus)"
        using node_get_child_prefix[OF assms(3), of ?key "subrange start m buf"] c(3) ne by (simp add: n)
      then show False using assms(6) split ne by simp
    qed
    then show ?thesis by (simp add: a)
  next
    case (Cons b as)
    then show ?thesis using Cons.IH[OF c(4)] c(1) by (simp add: a)
  qed
qed simp

lemma tv_key_subrange: "tv_ok S T \<Longrightarrow> subrange (tv_start T) (length (tv_origin T)) (tv_buf T p) = tv_key T"
  by (simp add: subrange_alt tv_key_def)

lemma rz_above_root:
  assumes "rz_pos S T z p" "ancestors z \<noteq> []"
  shows "length (tv_origin T) < key_start_of (tv_start T) (ancestors z)"
proof (rule chain_above)
  have T: "tv_ok S T" using assms(1) by (simp add: rz_pos_def)
  show "chain S (tv_base T) (tv_start T) (tv_buf T p) (ancestors z) (focus_node z)"
    using assms(1) by (simp add: rz_pos_def)
  show "wf_node (tv_base T)" "tv_start T \<le> length (tv_origin T)" using T by (simp_all add: tv_ok_def)
  show "subrange (tv_start T) (length (tv_origin T)) (tv_buf T p) \<noteq> [] \<Longrightarrow>
      node_get_child (tv_base T) (subrange (tv_start T) (length (tv_origin T)) (tv_buf T p)) = None"
    unfolding tv_key_subrange[OF T] using T by (simp add: tv_ok_def)
qed (use assms in simp_all)

lemma node_val_at:
  assumes "wf_node n" "key \<noteq> []" "\<And>l c. node_get_child n key = Some (l, c) \<Longrightarrow> l = length key"
  shows "node_get_val n key = den n key"
  by (rule node_here[OF assms(1,2)]) (use assms(3) in auto)

lemma rz_key_link: "rz_pos S T z p \<Longrightarrow> focus_key T z p \<noteq> [] \<Longrightarrow>
    node_get_child (focus_node z) (focus_key T z p) = Some (l, c) \<Longrightarrow> l = length (focus_key T z p)"
  by (simp add: rz_pos_def)

lemma rz_get_val:
  assumes "rz_pos S T z p"
  shows "z_get_val z = tv_get T p"
proof (cases "focus_key T z p = []")
  case False
  have "z_get_val z = node_get_val (focus_node z) (focus_key T z p)"
    using False by (simp add: z_get_val_def rz_node_key(2)[OF assms])
  also have "\<dots> = den (focus_node z) (focus_key T z p)"
    by (rule node_val_at[OF rz_focus(1)[OF assms] False rz_key_link[OF assms False]])
  finally show ?thesis using rz_focus(4)[OF assms, of "[]"] False by simp
next
  case True
  show ?thesis
  proof (cases "ancestors z")
    case Nil
    have "tv_key T @ p = []"
      using rz_focus(2)[OF assms] True by (simp add: Nil subrange_alt)
    then show ?thesis
      using assms True Nil by (simp add: z_get_val_def rz_node_key(2)[OF assms] tv_get_def rz_pos_def)
  next
    case (Cons a anc)
    obtain n t i where a: "a = (n, t, i)" by (cases a)
    note par = rz_parent[OF assms Cons[unfolded a]]
    let ?s = "key_start_of (tv_start T) anc"
    have T: "wf_node (tv_base T)" "tv_start T \<le> length (tv_buf T p)" "tv_start T \<le> length (tv_origin T)"
      using assms by (auto simp: rz_pos_def tv_ok_def)
    note focus = chain_focus[OF par(8) T(1,2)]
    have s: "tv_start T \<le> ?s" using chain_start[OF par(8) T(2)] by simp
    have "z_get_val z = node_get_val n (z_parent_key z)"
      using True Cons a by (simp add: z_get_val_def rz_node_key(2)[OF assms])
    also have "\<dots> = den n (z_parent_key z)"
      by (rule node_val_at[OF conjunct1[OF focus] par(2)]) (simp add: par(6))
    also have "\<dots> = den (tv_base T) (subrange (tv_start T) ?s (tv_buf T p) @ z_parent_key z)"
      using focus par(2) by simp
    also have full: "subrange (tv_start T) ?s (tv_buf T p) @ z_parent_key z = tv_key T @ p"
    proof -
      have "tv_key T @ p = subrange (tv_start T) i (tv_buf T p)"
        using rz_focus(2)[OF assms] unfolding True Cons a by simp
      also have "\<dots> = subrange (tv_start T) ?s (tv_buf T p) @ subrange ?s i (tv_buf T p)"
        by (rule subrange_split[OF s less_imp_le[OF par(4)]])
      finally show ?thesis unfolding par(1) by (rule sym)
    qed
    also have "den (tv_base T) (tv_key T @ p) = tv_get T p"
      using par(2) full unfolding tv_get_def by force
    finally show ?thesis .
  qed
qed

lemma rz_is_val:
  assumes "rz_pos S T z p"
  shows "z_is_val z \<longleftrightarrow> tv_get T p \<noteq> None"
  unfolding rz_get_val[OF assms, symmetric]
  by (cases "ancestors z") (auto simp: z_is_val_def z_get_val_def Let_def node_contains_val_iff)

lemma rz_path_exists:
  assumes "rz_pos S T z p"
  shows "z_path_exists S z \<longleftrightarrow> tv_has T p"
  using contains_partial_key_at[OF _ rz_focus(1)[OF assms] _ rz_key_link[OF assms]] rz_focus(3)[OF assms, of "[]"] assms
  by (auto simp: z_path_exists_def rz_node_key(2)[OF assms] rz_pos_def tv_ok_def)

lemma rz_child_mask:
  assumes "rz_reg S T z p"
  shows "test_bit (z_child_mask S z) b \<longleftrightarrow> tv_has T (p @ [b])" "z_child_count S z = card {b. tv_has T (p @ [b])}"
proof -
  have pos: "rz_pos S T z p" and S: "slice_utils_ok S" using assms by (auto simp: rz_reg_def rz_at_def rz_pos_def tv_ok_def)
  have bit: "test_bit (node_branches_mask S (focus_node z) (focus_key T z p)) b \<longleftrightarrow> tv_has T (p @ [b])" for b
    using branch_bit[OF S rz_focus(1)[OF pos]] rz_focus(3)[OF pos] assms by (simp add: rz_reg_def)
  show "test_bit (z_child_mask S z) b \<longleftrightarrow> tv_has T (p @ [b])"
    by (simp add: z_child_mask_def rz_node_key(2)[OF pos] bit)
  show "z_child_count S z = card {b. tv_has T (p @ [b])}"
    by (simp add: z_child_count_def rz_node_key(2)[OF pos] node_count_branches_card[OF S rz_focus(1)[OF pos]] bit)
qed

subsection \<open>Making and moving zippers\<close>

definition rz_static :: "slice_utils \<Rightarrow> 'v trie_view \<Rightarrow> 'v read_zipper \<Rightarrow> bool" where
  "rz_static S T z \<longleftrightarrow> tv_ok S T \<and> origin_path z = tv_origin T \<and> root_key_start z = tv_start T \<and>
     zroot_val z = tv_val T \<and> root_parent_key_start z = None \<and> zroot_node z = Some (tv_base T)"

text \<open>\<open>stands\<close>: the node stack and the focus node are right for the buffer.\<close>

definition stands :: "slice_utils \<Rightarrow> 'v trie_view \<Rightarrow> path \<Rightarrow> ('v node \<times> u64 \<times> nat) list \<Rightarrow> 'v node \<Rightarrow> bool" where
  "stands S T p anc focus \<longleftrightarrow> chain S (tv_base T) (tv_start T) (tv_buf T p) anc focus"

definition key_at :: "'v trie_view \<Rightarrow> path \<Rightarrow> ('v node \<times> u64 \<times> nat) list \<Rightarrow> path" where
  "key_at T p anc = drop (key_start_of (tv_start T) anc) (tv_buf T p)"

lemma rz_reg_iff:
  "rz_reg S T z p \<longleftrightarrow> rz_static S T z \<and>
     (if buffers_allocated z then prefix_buf z = tv_buf T p else prefix_buf z = [] \<and> p = [] \<and> ancestors z = []) \<and>
     stands S T p (ancestors z) (focus_node z) \<and>
     tok_ok S (focus_node z) (key_at T p (ancestors z)) (focus_iter_token z) \<and>
     (key_at T p (ancestors z) \<noteq> [] \<longrightarrow> node_get_child (focus_node z) (key_at T p (ancestors z)) = None)"
  by (auto simp: rz_reg_def rz_at_def rz_pos_def rz_static_def stands_def key_at_def focus_key_def)

lemma rz_pos_reg [elim]: "rz_reg S T z p \<Longrightarrow> rz_pos S T z p"
  by (simp add: rz_reg_def rz_at_def)

lemma rz_at_reg [elim]: "rz_reg S T z p \<Longrightarrow> rz_at S T z p"
  by (simp add: rz_reg_def)

lemma rz_is_regularized:
  assumes "rz_reg S T z p"
  shows "z_is_regularized z"
proof -
  note pos = rz_pos_reg[OF assms]
  have "focus_key T z p \<noteq> []" if "z_node_key_start z < length (prefix_buf z)"
    using that pos unfolding rz_node_key(1)[OF pos] by (auto simp: focus_key_def rz_pos_def split: if_splits)
  then show ?thesis using assms by (auto simp: z_is_regularized_def rz_node_key(2)[OF pos] rz_reg_def)
qed

lemma rz_path: "rz_pos S T z p \<Longrightarrow> z_path z = p"
  by (auto simp: z_path_def rz_pos_def split: if_splits)

lemma rz_depth: "rz_pos S T z p \<Longrightarrow> z_depth z = length p" "rz_pos S T z p \<Longrightarrow> z_at_root z \<longleftrightarrow> p = []"
  by (auto simp: z_depth_def z_at_root_def rz_pos_def split: if_splits)

lemma key_start_update [simp]:
  "z_node_key_start (z\<lparr>prefix_buf := buf\<rparr>) = z_node_key_start z"
  "z_node_key_start (z\<lparr>focus_iter_token := t\<rparr>) = z_node_key_start z"
  "z_node_key_start (z\<lparr>focus_node := n\<rparr>) = z_node_key_start z"
  by (simp_all add: z_node_key_start_def cong: list.case_cong)

lemma key_at_Cons: "key_at T p ((n, t, i) # anc) = drop i (tv_buf T p)"
  by (simp add: key_at_def)

text \<open>A zipper with its buffers.\<close>

definition rz_ready :: "slice_utils \<Rightarrow> 'v trie_view \<Rightarrow> 'v read_zipper \<Rightarrow> path \<Rightarrow> bool" where
  "rz_ready S T z p \<longleftrightarrow> rz_reg S T z p \<and> buffers_allocated z"

lemma rz_ready_iff:
  "rz_ready S T z p \<longleftrightarrow> rz_static S T z \<and> buffers_allocated z \<and> prefix_buf z = tv_buf T p \<and>
     stands S T p (ancestors z) (focus_node z) \<and>
     tok_ok S (focus_node z) (key_at T p (ancestors z)) (focus_iter_token z) \<and>
     (key_at T p (ancestors z) \<noteq> [] \<longrightarrow> node_get_child (focus_node z) (key_at T p (ancestors z)) = None)"
  by (auto simp: rz_ready_def rz_reg_iff)

lemma rz_prepare: "rz_reg S T z p \<Longrightarrow> rz_ready S T (z_prepare_buffers z) p"
  by (auto simp: rz_ready_iff rz_reg_iff rz_static_def z_prepare_buffers_def)

lemma rz_ready_reg: "rz_ready S T z p \<Longrightarrow> rz_reg S T z p"
  by (simp add: rz_ready_def)

lemma rz_ready_keys:
  assumes "rz_ready S T z p"
  shows "z_node_key z = key_at T p (ancestors z)" "z_node_key_start z = key_start_of (tv_start T) (ancestors z)"
  using rz_node_key[OF rz_pos_reg[OF conjunct1[OF assms[unfolded rz_ready_def]]]]
  by (simp_all only: key_at_def focus_key_def)

lemma tok_ok_INVALID [simp]: "tok_ok S n key NODE_ITER_INVALID"
  by (simp add: tok_ok_def)

lemma stands_wf: "stands S T p anc f \<Longrightarrow> tv_ok S T \<Longrightarrow> wf_node f"
  using chain_focus by (fastforce simp: stands_def tv_ok_def)

lemma stands_bounds:
  assumes "stands S T p anc f" "tv_ok S T"
  shows "tv_start T \<le> key_start_of (tv_start T) anc" "key_start_of (tv_start T) anc \<le> length (tv_buf T p)"
    "length (key_at T p anc) = length (tv_buf T p) - key_start_of (tv_start T) anc"
  using chain_start[of S "tv_base T" "tv_start T" "tv_buf T p" anc f] assms
  by (auto simp: stands_def tv_ok_def key_at_def)

lemma stands_extend:
  assumes "stands S T p anc f" "tv_ok S T"
  shows "stands S T (p @ k) anc f" "key_at T (p @ k) anc = key_at T p anc @ k"
proof -
  note b = stands_bounds[OF assms]
  show "stands S T (p @ k) anc f"
    unfolding stands_def
  proof (rule chain_cong)
    show "chain S (tv_base T) (tv_start T) (tv_buf T p) anc f" using assms(1) by (simp add: stands_def)
    show "take (length (tv_buf T p)) (tv_buf T p) = take (length (tv_buf T p)) (tv_buf T (p @ k))" by simp
  qed (use b in auto)
  show "key_at T (p @ k) anc = key_at T p anc @ k" using b(2) by (simp add: key_at_def)
qed

lemma stands_replace:
  assumes "stands S T p anc f" "tv_ok S T" "take m (tv_buf T p) = take m (tv_buf T p')"
    "key_start_of (tv_start T) anc \<le> m" "m \<le> length (tv_buf T p')"
  shows "stands S T p' anc f"
  unfolding stands_def
proof (rule chain_cong)
  show "chain S (tv_base T) (tv_start T) (tv_buf T p) anc f" using assms(1) by (simp add: stands_def)
  show "tv_start T \<le> length (tv_buf T p)" using assms(2) by (simp add: tv_ok_def)
qed (use assms in auto)

text \<open>Stepping into the node behind the key.\<close>

lemma stands_enter:
  assumes "stands S T p anc f" "tv_ok S T" "key_at T p anc \<noteq> []"
    "node_get_child f (key_at T p anc) = Some (length (key_at T p anc), c)" "tok_ok S f (key_at T p anc) t"
  shows "stands S T p ((f, t, length (tv_buf T p)) # anc) c"
    "key_at T p ((f, t, length (tv_buf T p)) # anc) = []"
proof -
  note b = stands_bounds[OF assms(1,2)]
  have sub: "subrange (key_start_of (tv_start T) anc) (length (tv_buf T p)) (tv_buf T p) = key_at T p anc"
    by (simp add: subrange_alt key_at_def)
  have less: "key_start_of (tv_start T) anc < length (tv_buf T p)"
    using assms(3) b(2,3) by (metis diff_is_0_eq length_0_conv not_le)
  have c: "chain S (tv_base T) (tv_start T) (tv_buf T p) anc f" using assms(1) by (simp add: stands_def)
  show "stands S T p ((f, t, length (tv_buf T p)) # anc) c"
    unfolding stands_def chain.simps Let_def sub using less c assms(4,5) by blast
  show "key_at T p ((f, t, length (tv_buf T p)) # anc) = []" by (simp add: key_at_def)
qed

lemma link_at_byte:
  assumes "wf_node n" "key \<noteq> [] \<Longrightarrow> node_get_child n key = None" "node_get_child n (key @ [b]) = Some (l, c)"
  shows "l = length (key @ [b])"
proof -
  have l: "0 < l" "l \<le> length (key @ [b])" using node_get_child_bounds[OF assms(1) _ assms(3)] by auto
  have "\<not> l \<le> length key"
  proof
    assume le: "l \<le> length key"
    then have "key \<noteq> []" using l(1) by auto
    then show False
      using node_get_child_prefix[OF assms(1), of key "key @ [b]" l c] assms(2,3) le by simp
  qed
  then show ?thesis using l by simp
qed

lemma descend_nodes_stands:
  assumes "stands S T p anc f" "tv_ok S T" "key_at T p anc \<noteq> []"
    "descend_nodes f (key_at T p anc) (key_start_of (tv_start T) anc) anc = (f', key', anc')"
  shows "stands S T p anc' f' \<and> key' = key_at T p anc' \<and> (key' \<noteq> [] \<longrightarrow> node_get_child f' key' = None)"
  using assms
proof (induction f "key_at T p anc" "key_start_of (tv_start T) anc" anc arbitrary: f' key' anc' rule: descend_nodes.induct)
  case (1 f anc)
  note wf = stands_wf[OF 1(2,3)] and b = stands_bounds[OF 1(2,3)]
  show ?case
  proof (cases "node_get_child f (key_at T p anc)")
    case None
    then show ?thesis using 1(2,5) by (auto simp: descend_nodes.simps[of f])
  next
    case (Some r)
    obtain l c where r: "r = (l, c)" by (cases r)
    have g: "node_get_child f (key_at T p anc) = Some (l, c)" using Some r by simp
    have l: "0 < l" "l \<le> length (key_at T p anc)" using node_get_child_bounds[OF wf 1(4) g] by auto
    let ?ks = "key_start_of (tv_start T) anc"
    let ?anc = "(f, NODE_ITER_INVALID, ?ks + l) # anc"
    have sub: "subrange ?ks (?ks + l) (tv_buf T p) = take l (key_at T p anc)"
      by (simp add: subrange_def key_at_def)
    have short: "node_get_child f (take l (key_at T p anc)) = Some (l, c)"
      using node_get_child_prefix[OF wf take_is_prefix, of l "key_at T p anc" l c] g l 1(4) by simp
    have stands: "stands S T p ?anc c"
      using 1(2) l b(2,3) short unfolding stands_def chain.simps Let_def sub by (simp add: min_def)
    have key: "key_at T p ?anc = drop l (key_at T p anc)"
      unfolding key_at_def drop_drop key_start_of.simps by (simp only: add.commute)
    show ?thesis
    proof (cases "l < length (key_at T p anc)")
      case True
      have d: "descend_nodes c (key_at T p ?anc) (key_start_of (tv_start T) ?anc) ?anc = (f', key', anc')"
        using 1(5) True by (simp add: descend_nodes.simps[of f] g key Let_def)
      have ne: "key_at T p ?anc \<noteq> []" using True by (simp add: key)
      show ?thesis by (rule 1(1)[OF g refl _ _ True _ stands 1(3) ne d]) (simp_all add: key)
    next
      case False
      then have "(f', key', anc') = (c, [], ?anc)" using 1(5) by (simp add: descend_nodes.simps[of f] g)
      then show ?thesis using stands key False by simp
    qed
  qed
qed

subsection \<open>Descending\<close>

lemma descend_nodes_mono:
  assumes "descend_nodes f key key_start anc = (f', key', anc')" "key_start = key_start_of s anc"
  shows "key_start \<le> key_start_of s anc'"
  using assms
proof (induction f key key_start anc arbitrary: s rule: descend_nodes.induct)
  case (1 f key key_start anc)
  show ?case
  proof (cases "node_get_child f key")
    case (Some r)
    obtain l c where r: "r = (l, c)" by (cases r)
    show ?thesis
    proof (cases "l < length key")
      case True
      have "descend_nodes c (drop l key) (key_start + l) ((f, NODE_ITER_INVALID, key_start + l) # anc) = (f', key', anc')"
        using 1(2) Some True by (simp add: descend_nodes.simps[of f] r Let_def)
      from 1(1)[OF Some r[symmetric] refl refl True this] show ?thesis by (metis add_leE key_start_of.simps(2))
    next
      case False
      then have "anc' = (f, NODE_ITER_INVALID, key_start + l) # anc"
        using 1(2) Some by (simp add: descend_nodes.simps[of f] r Let_def)
      then show ?thesis by simp
    qed
  next
    case None
    have "(f', key', anc') = (f, key, anc)" using 1(2) None by (simp add: descend_nodes.simps[of f])
    then show ?thesis using 1(3) by simp
  qed
qed

lemma rz_descend_internal:
  assumes "rz_ready S T z p" "k \<noteq> []"
  obtains key z' where "z_descend_to_internal k z = (key, z')" "rz_ready S T z' (p @ k)" "key = z_node_key z'"
    "key_start_of (tv_start T) (ancestors z) \<le> key_start_of (tv_start T) (ancestors z')"
proof -
  have T: "tv_ok S T" and st: "stands S T p (ancestors z) (focus_node z)" and buf: "prefix_buf z = tv_buf T p"
    using assms(1) by (auto simp: rz_ready_iff rz_static_def)
  note ext = stands_extend[OF st T, of k]
  note ks = rz_ready_keys(2)[OF assms(1)]
  let ?z1 = "z\<lparr>focus_iter_token := NODE_ITER_INVALID, prefix_buf := prefix_buf z @ k\<rparr>"
  have ks1: "z_node_key_start ?z1 = key_start_of (tv_start T) (ancestors z)"
    using ks by simp
  have key1: "drop (z_node_key_start ?z1) (prefix_buf ?z1) = key_at T (p @ k) (ancestors z)"
    unfolding ks1 by (simp add: buf key_at_def)
  obtain f' key' anc' where d: "descend_nodes (focus_node z) (key_at T (p @ k) (ancestors z))
      (key_start_of (tv_start T) (ancestors z)) (ancestors z) = (f', key', anc')"
    by (metis prod_cases3)
  have ne: "key_at T (p @ k) (ancestors z) \<noteq> []" using ext(2) assms(2) by simp
  note r = descend_nodes_stands[OF ext(1) T ne d]
  let ?z' = "?z1\<lparr>focus_node := f', ancestors := anc'\<rparr>"
  have eq: "z_descend_to_internal k z = (key', ?z')"
    using d unfolding z_descend_to_internal_def Let_def key1 unfolding ks1 by simp
  have ready: "rz_ready S T ?z' (p @ k)"
    using r assms(1) by (auto simp: rz_ready_iff rz_static_def buf)
  have "key' = z_node_key ?z'" using r rz_ready_keys(1)[OF ready] by simp
  then show ?thesis using that[OF eq ready] descend_nodes_mono[OF d refl] by simp
qed

lemma rz_descend_to:
  assumes "rz_reg S T z p"
  shows "rz_reg S T (z_descend_to k z) (p @ k)"
proof (cases "k = []")
  case False
  obtain key z' where "z_descend_to_internal k (z_prepare_buffers z) = (key, z')" "rz_ready S T z' (p @ k)"
    using rz_descend_internal[OF rz_prepare[OF assms] False] by metis
  then show ?thesis using False by (simp add: z_descend_to_def rz_ready_def)
qed (use assms in \<open>simp add: z_descend_to_def\<close>)

lemma rz_exists_at_key:
  assumes "rz_ready S T z p"
  shows "(if length (z_node_key z) = 0 then True else node_contains_partial_key S (focus_node z) (z_node_key z)) = tv_has T p"
  using rz_path_exists[OF rz_pos_reg[OF rz_ready_reg[OF assms]]] by (auto simp: z_path_exists_def Let_def)

lemma rz_descend_to_check:
  assumes "rz_reg S T z p"
  obtains z' where "z_descend_to_check S k z = (tv_has T (p @ k), z')" "rz_reg S T z' (p @ k)"
proof (cases "k = []")
  case True
  then show ?thesis using that[of z] assms rz_path_exists[OF rz_pos_reg[OF assms]] by (simp add: z_descend_to_check_def)
next
  case False
  obtain key z' where z': "z_descend_to_internal k (z_prepare_buffers z) = (key, z')" "rz_ready S T z' (p @ k)" "key = z_node_key z'"
    using rz_descend_internal[OF rz_prepare[OF assms] False] by metis
  show ?thesis
    using that[of z'] False z' rz_exists_at_key[OF z'(2)] rz_ready_reg[OF z'(2)] by (simp add: z_descend_to_check_def)
qed

text \<open>One more byte: into the node behind it, or along the key.\<close>

lemma rz_ready_pos: "rz_ready S T z p \<Longrightarrow> rz_pos S T z p"
  by (simp add: rz_ready_def rz_reg_def rz_at_def)

lemma rz_ready_facts:
  assumes "rz_ready S T z p"
  shows "tv_ok S T" "slice_utils_ok S" "rz_static S T z" "buffers_allocated z" "prefix_buf z = tv_buf T p"
    "stands S T p (ancestors z) (focus_node z)" "wf_node (focus_node z)"
    "tok_ok S (focus_node z) (key_at T p (ancestors z)) (focus_iter_token z)"
    "key_at T p (ancestors z) \<noteq> [] \<Longrightarrow> node_get_child (focus_node z) (key_at T p (ancestors z)) = None"
    "z_node_key z = key_at T p (ancestors z)"
  using assms rz_focus(1)[OF rz_ready_pos[OF assms]] rz_ready_keys(1)[OF assms]
  by (auto simp: rz_ready_iff rz_static_def tv_ok_def)

lemma rz_byte_link:
  assumes "rz_ready S T z p" "node_get_child (focus_node z) (key_at T p (ancestors z) @ [b]) = Some (l, c)"
  shows "l = length (key_at T p (ancestors z) @ [b])"
  by (rule link_at_byte[OF rz_ready_facts(7)[OF assms(1)] rz_ready_facts(9)[OF assms(1)] assms(2)])

lemma rz_step_none:
  assumes "rz_ready S T z p" "node_get_child (focus_node z) (key_at T p (ancestors z) @ [b]) = None"
    "tok_ok S (focus_node z) (key_at T p (ancestors z) @ [b]) t"
  shows "rz_ready S T (z\<lparr>prefix_buf := prefix_buf z @ [b], focus_iter_token := t\<rparr>) (p @ [b])"
  using assms stands_extend[OF rz_ready_facts(6,1)[OF assms(1)], of "[b]"]
  by (simp add: rz_ready_iff rz_static_def)

lemma rz_step_some:
  assumes "rz_ready S T z p" "node_get_child (focus_node z) (key_at T p (ancestors z) @ [b]) = Some (l, c)"
    "tok_ok S (focus_node z) (key_at T p (ancestors z) @ [b]) t"
  shows "stands S T (p @ [b]) ((focus_node z, t, Suc (length (tv_origin T) + length p)) # ancestors z) c"
proof -
  note ext = stands_extend[OF rz_ready_facts(6,1)[OF assms(1)], of "[b]"]
  show ?thesis
    using stands_enter(1)[OF ext(1) rz_ready_facts(1)[OF assms(1)], of c t] assms(2,3) rz_byte_link[OF assms(1,2)]
    by (simp add: ext(2))
qed

lemma rz_node_key_snoc:
  assumes "rz_ready S T z p"
  shows "z_node_key (z\<lparr>prefix_buf := prefix_buf z @ [b], focus_iter_token := t\<rparr>) = key_at T p (ancestors z) @ [b]"
    "z_node_key (z\<lparr>prefix_buf := prefix_buf z @ [b]\<rparr>) = key_at T p (ancestors z) @ [b]"
  using rz_ready_keys(2)[OF assms] rz_ready_facts(5)[OF assms] stands_bounds(2)[OF rz_ready_facts(6,1)[OF assms]]
  by (simp_all add: z_node_key_def key_at_def)

lemma rz_descend_to_byte:
  assumes "rz_reg S T z p"
  shows "rz_ready S T (z_descend_to_byte b z) (p @ [b])"
proof -
  note ready = rz_prepare[OF assms]
  show ?thesis
  proof (cases "node_get_child (focus_node (z_prepare_buffers z)) (key_at T p (ancestors (z_prepare_buffers z)) @ [b])")
    case None
    then show ?thesis using rz_step_none[OF ready None, of NODE_ITER_INVALID]
      by (simp add: z_descend_to_byte_def Let_def rz_node_key_snoc[OF ready])
  next
    case (Some r)
    obtain l c where r: "r = (l, c)" by (cases r)
    have "z_descend_to_byte b z = (let z0 = z_prepare_buffers z in
        z0\<lparr>prefix_buf := prefix_buf z0 @ [b], focus_iter_token := NODE_ITER_INVALID,
           ancestors := (focus_node z0, NODE_ITER_INVALID, Suc (length (prefix_buf z0))) # ancestors z0, focus_node := c\<rparr>)"
      using Some by (simp add: z_descend_to_byte_def Let_def rz_node_key_snoc[OF ready] r)
    then show ?thesis using rz_step_some[OF ready Some[unfolded r], of NODE_ITER_INVALID] rz_ready_facts[OF ready]
      by (simp add: Let_def rz_ready_iff rz_static_def key_at_Cons)
  qed
qed

subsection \<open>The branches of a path\<close>

definition all_bytes :: "u8 list" where
  "all_bytes = map word_of_nat [0..<256]"

definition tv_branches :: "'v trie_view \<Rightarrow> path \<Rightarrow> u8 list" where
  "tv_branches T q = filter (\<lambda>b. tv_has T (q @ [b])) all_bytes"

lemma all_bytes: "sorted_wrt (<) all_bytes" "set all_bytes = UNIV"
proof -
  show "sorted_wrt (<) all_bytes"
    unfolding all_bytes_def sorted_wrt_map
    by (rule sorted_wrt_mono_rel[OF _ sorted_wrt_upt]) (auto simp: word_less_nat_alt unat_of_nat)
  show "set all_bytes = UNIV"
  proof -
    have "b \<in> set all_bytes" for b
      unfolding all_bytes_def set_map by (rule image_eqI[of _ _ "unat b"]) (use unat_u8_less[of b] in simp_all)
    then show ?thesis by blast
  qed
qed

lemma tv_branches:
  "sorted_wrt (<) (tv_branches T q)" "b \<in> set (tv_branches T q) \<longleftrightarrow> tv_has T (q @ [b])"
  by (simp_all add: tv_branches_def sorted_wrt_filter all_bytes)

lemma tv_branches_length: "length (tv_branches T q) = card {b. tv_has T (q @ [b])}"
proof -
  have "distinct (tv_branches T q)"
    using tv_branches(1)[of T q] by (simp add: strict_sorted_iff)
  moreover have "set (tv_branches T q) = {b. tv_has T (q @ [b])}" using tv_branches(2) by blast
  ultimately show ?thesis using distinct_card[of "tv_branches T q"] by simp
qed

lemma find_least:
  assumes "sorted_wrt (<) (xs :: u8 list)" "b \<in> set xs" "P b" "\<And>c. c \<in> set xs \<Longrightarrow> P c \<Longrightarrow> b \<le> c"
  shows "find P xs = Some b"
  using assms
proof (induction xs)
  case (Cons x xs)
  show ?case
  proof (cases "P x")
    case True
    then have "b \<le> x" using Cons.prems(4)[of x] by simp
    then have "b = x" using Cons.prems(1,2) by auto
    then show ?thesis using True by simp
  next
    case False
    then show ?thesis using Cons.IH Cons.prems by auto
  qed
qed simp

lemma first_branch:
  assumes "tv_has T (q @ [b])" "\<And>c. tv_has T (q @ [c]) \<Longrightarrow> b \<le> c"
  shows "tv_branches T q \<noteq> [] \<and> hd (tv_branches T q) = b"
proof -
  have "find (\<lambda>_. True) (tv_branches T q) = Some b"
    by (rule find_least[OF tv_branches(1)]) (use assms in \<open>auto simp: tv_branches(2)\<close>)
  then show ?thesis by (cases "tv_branches T q") auto
qed

lemma stands_focus:
  assumes "stands S T p anc f" "tv_ok S T"
  shows "tv_has T (p @ q) \<longleftrightarrow> has_path f (key_at T p anc @ q)"
proof -
  have T: "wf_node (tv_base T)" "tv_start T \<le> length (tv_buf T p)" "tv_start T \<le> length (tv_origin T)"
    using assms(2) by (auto simp: tv_ok_def)
  have c: "chain S (tv_base T) (tv_start T) (tv_buf T p) anc f" using assms(1) by (simp add: stands_def)
  have "tv_key T @ p = subrange (tv_start T) (key_start_of (tv_start T) anc) (tv_buf T p) @ key_at T p anc"
    using subrange_drop[OF stands_bounds(1,2)[OF assms]] T(3) by (simp add: tv_key_def key_at_def)
  then have full: "tv_key T @ p @ q = subrange (tv_start T) (key_start_of (tv_start T) anc) (tv_buf T p) @ key_at T p anc @ q"
    by (metis append_assoc)
  show ?thesis unfolding tv_has_def full using chain_focus[OF c T(1,2)] by blast
qed

text \<open>The branch mask of the focus node, at a key it does not link.\<close>

lemma stands_mask:
  assumes "stands S T p anc f" "tv_ok S T" "key_at T p anc \<noteq> [] \<longrightarrow> node_get_child f (key_at T p anc) = None"
  shows "test_bit (node_branches_mask S f (key_at T p anc)) b \<longleftrightarrow> b \<in> set (tv_branches T p)"
  using branch_bit[OF _ stands_wf[OF assms(1,2)] assms(3)[rule_format]] stands_focus[OF assms(1,2)] assms(2)
  by (simp add: tv_branches(2) tv_ok_def)

lemma stands_search:
  assumes "stands S T p anc f" "tv_ok S T" "key_at T p anc \<noteq> [] \<longrightarrow> node_get_child f (key_at T p anc) = None"
  shows "next_bit (node_branches_mask S f (key_at T p anc)) b = find (\<lambda>c. b < c) (tv_branches T p)"
    "prev_bit (node_branches_mask S f (key_at T p anc)) b = find (\<lambda>c. c < b) (rev (tv_branches T p))"
    "indexed_bit True (node_branches_mask S f (key_at T p anc)) i =
      (if i < length (tv_branches T p) then Some (tv_branches T p ! i) else None)"
  using mask_search_list[OF tv_branches(1) stands_mask[OF assms]] by simp_all

definition nth_opt :: "nat \<Rightarrow> 'a list \<Rightarrow> 'a option" where
  "nth_opt i xs = (if i < length xs then Some (xs ! i) else None)"

definition moved_by :: "path \<Rightarrow> u8 option \<Rightarrow> path" where
  "moved_by p r = (case r of None \<Rightarrow> p | Some b \<Rightarrow> p @ [b])"

lemma moved_by_simps [simp]: "moved_by p None = p" "moved_by p (Some b) = p @ [b]"
  by (simp_all add: moved_by_def)

lemma rz_link:
  "rz_ready S T z p \<Longrightarrow> key_at T p (ancestors z) \<noteq> [] \<longrightarrow> node_get_child (focus_node z) (key_at T p (ancestors z)) = None"
  by (simp add: rz_ready_iff)

lemma rz_descend_indexed_byte:
  assumes "rz_reg S T z p"
  obtains z' where "z_descend_indexed_byte S i z = (nth_opt i (tv_branches T p), z')"
    "rz_ready S T z' (moved_by p (nth_opt i (tv_branches T p)))"
proof -
  let ?z = "z_prepare_buffers z"
  note ready = rz_prepare[OF assms] and facts = rz_ready_facts[OF rz_prepare[OF assms]]
  have nth: "node_nth_child_from_key S (focus_node ?z) (z_node_key ?z) i =
      node_branch (focus_node ?z) (key_at T p (ancestors ?z)) (nth_opt i (tv_branches T p))"
    unfolding node_nth_child_spec[OF facts(2,7)] facts(10) stands_search(3)[OF facts(6,1) rz_link[OF ready]] nth_opt_def ..
  show ?thesis
  proof (cases "nth_opt i (tv_branches T p)")
    case None
    then show ?thesis using that[of ?z] ready nth
      by (simp add: z_descend_indexed_byte_def node_branch_def branch_result_def)
  next
    case (Some b)
    show ?thesis
    proof (cases "node_get_child (focus_node ?z) (key_at T p (ancestors ?z) @ [b])")
      case None
      then show ?thesis using that Some nth rz_step_none[OF ready None tok_ok_INVALID]
        by (simp add: z_descend_indexed_byte_def node_branch_def branch_result_def Let_def)
    next
      case r: (Some r)
      obtain l c where lc: "r = (l, c)" by (cases r)
      let ?z' = "z_push_node c (?z\<lparr>prefix_buf := prefix_buf ?z @ [b], focus_iter_token := NODE_ITER_INVALID\<rparr>)"
      have "z_descend_indexed_byte S i z = (Some b, ?z')"
        using Some nth r by (simp add: z_descend_indexed_byte_def node_branch_def branch_result_def lc Let_def)
      moreover have "rz_ready S T ?z' (p @ [b])"
        using rz_step_some[OF ready r[unfolded lc] tok_ok_INVALID] facts
        by (simp add: z_push_node_def rz_ready_iff rz_static_def key_at_Cons)
      ultimately show ?thesis using that Some by simp
    qed
  qed
qed

lemma rz_descend_to_existing_byte:
  assumes "rz_reg S T z p"
  obtains z' where "z_descend_to_existing_byte S b z = (tv_has T (p @ [b]), z')"
    "rz_ready S T z' (if tv_has T (p @ [b]) then p @ [b] else p)"
proof -
  let ?z = "z_prepare_buffers z"
  note ready = rz_prepare[OF assms] and facts = rz_ready_facts[OF rz_prepare[OF assms]]
  have key: "z_node_key (?z\<lparr>prefix_buf := prefix_buf ?z @ [b]\<rparr>) = key_at T p (ancestors ?z) @ [b]"
    by (rule rz_node_key_snoc(2)[OF ready])
  show ?thesis
  proof (cases "node_get_child (focus_node ?z) (key_at T p (ancestors ?z) @ [b])")
    case None
    let ?z' = "?z\<lparr>prefix_buf := prefix_buf ?z @ [b], focus_iter_token := NODE_ITER_INVALID\<rparr>"
    have r': "rz_ready S T ?z' (p @ [b])" by (rule rz_step_none[OF ready None tok_ok_INVALID])
    have "tv_has T (p @ [b]) = node_contains_partial_key S (focus_node ?z) (key_at T p (ancestors ?z) @ [b])"
      using rz_exists_at_key[OF r'] rz_node_key_snoc(1)[OF ready] by simp
    moreover have "rz_ready S T (?z\<lparr>prefix_buf := prefix_buf ?z\<rparr>) p" using ready by simp
    ultimately show ?thesis using that None key r'
      by (cases "tv_has T (p @ [b])") (simp_all add: z_descend_to_existing_byte_def Let_def)
  next
    case r: (Some r)
    obtain l c where lc: "r = (l, c)" by (cases r)
    let ?z' = "?z\<lparr>prefix_buf := prefix_buf ?z @ [b], focus_iter_token := NODE_ITER_INVALID,
      ancestors := (focus_node ?z, NODE_ITER_INVALID, Suc (length (prefix_buf ?z))) # ancestors ?z, focus_node := c\<rparr>"
    have eq: "z_descend_to_existing_byte S b z = (True, ?z')"
      using r key by (simp add: z_descend_to_existing_byte_def Let_def lc)
    have r': "rz_ready S T ?z' (p @ [b])"
      using rz_step_some[OF ready r[unfolded lc] tok_ok_INVALID] facts
      by (simp add: rz_ready_iff rz_static_def key_at_Cons)
    have "key_at T (p @ [b]) (ancestors ?z') = []" using facts(5) by (simp add: key_at_Cons)
    then have "tv_has T (p @ [b])" using rz_exists_at_key[OF r'] unfolding rz_ready_facts(10)[OF r'] by simp
    then show ?thesis using that eq r' by simp
  qed
qed

subsection \<open>The first branch\<close>

lemma next_item_cases:
  assumes "sorted_wrt path_less (map fst its)"
  shows "next_item its key skip = None \<Longrightarrow> j \<in> set its \<Longrightarrow> \<not> after key skip (fst j)"
    and "next_item its key skip = Some i \<Longrightarrow> i \<in> set its \<and> after key skip (fst i)"
    and "next_item its key skip = Some i \<Longrightarrow> j \<in> set its \<Longrightarrow> after key skip (fst j) \<Longrightarrow> j = i \<or> path_less (fst i) (fst j)"
proof -
  show "next_item its key skip = None \<Longrightarrow> j \<in> set its \<Longrightarrow> \<not> after key skip (fst j)"
    unfolding next_item_def find_None_iff by blast
  show "next_item its key skip = Some i \<Longrightarrow> i \<in> set its \<and> after key skip (fst i)"
    by (auto simp: next_item_def find_Some_iff)
  show "next_item its key skip = Some i \<Longrightarrow> j \<in> set its \<Longrightarrow> after key skip (fst j) \<Longrightarrow> j = i \<or> path_less (fst i) (fst j)"
    using assms
  proof (induction its)
    case (Cons x its)
    show ?case
    proof (cases "after key skip (fst x)")
      case True
      then have "i = x" using Cons.prems(1) by (simp add: next_item_def)
      then show ?thesis using Cons.prems(2,4) by auto
    next
      case False
      then have "next_item its key skip = Some i" "j \<in> set its" using Cons.prems by (auto simp: next_item_def)
      then show ?thesis using Cons by auto
    qed
  qed simp
qed

lemma cursor_sorted: "slice_utils_ok S \<Longrightarrow> wf_node n \<Longrightarrow> sorted_wrt path_less (map fst (node_items n))"
  using cursor.items_sorted[OF cursor_ok_wf] by blast

lemma new_token_ok: "slice_utils_ok S \<Longrightarrow> wf_node c \<Longrightarrow> tok_ok S c [] (node_new_iter_token c)"
  using cursor.start_at[OF cursor_ok_wf, of S c] by (simp add: tok_ok_def)

lemma rz_with_token:
  assumes "rz_ready S T z p"
  shows "rz_ready S T (z_with_token S z) p"
    "node_at S (focus_node z) (key_at T p (ancestors z)) (focus_iter_token (z_with_token S z))"
    "focus_node (z_with_token S z) = focus_node z" "ancestors (z_with_token S z) = ancestors z"
    "prefix_buf (z_with_token S z) = prefix_buf z"
proof -
  note f = rz_ready_facts[OF assms]
  have at: "node_at S (focus_node z) (key_at T p (ancestors z)) (node_iter_token_for_path S (focus_node z) (key_at T p (ancestors z)))"
    by (rule cursor.for_path_at[OF cursor_ok_wf[OF f(2,7)]])
  then show "node_at S (focus_node z) (key_at T p (ancestors z)) (focus_iter_token (z_with_token S z))"
    using f(8,10) by (auto simp: z_with_token_def tok_ok_def)
  then show "rz_ready S T (z_with_token S z) p"
    using assms f(10) at by (auto simp: z_with_token_def rz_ready_iff rz_static_def tok_ok_def)
qed (simp_all add: z_with_token_def)

text \<open>Where an item leads: a node behind its key, and nothing behind a shorter key the item is the
  first to continue.\<close>

lemma item_link:
  assumes "wf_node n" "(k, c, v) \<in> set (node_items n)"
  shows "node_get_child n k = map_option (\<lambda>c. (length k, c)) c"
  using node_item_get(2)[OF assms] by simp

lemma no_link_below_item:
  assumes "slice_utils_ok S" "wf_node n" "key \<noteq> []" "\<And>l c. node_get_child n key = Some (l, c) \<Longrightarrow> l = length key"
    "\<And>c v. (key, Some c, v) \<in> set (node_items n) \<Longrightarrow> False"
  shows "node_get_child n key = None"
proof (rule ccontr)
  assume "node_get_child n key \<noteq> None"
  then obtain c where "node_get_child n key = Some (length key, c)" using assms(4) by force
  then show False using node_child_item[OF assms(2,3)] assms(5) by fastforce
qed

lemma path_less_take: "length q < length p \<Longrightarrow> take (length q) p = q \<Longrightarrow> path_less q p"
  by (metis append_eq_conv_conj append_take_drop_id path_less_strict_prefix prefixI nat_less_le)

lemma path_less_snoc_mono: "path_less (q @ a # u) (q @ b # w) \<Longrightarrow> a \<le> b"
  using path_less_hdD by auto

lemma rz_descend_first_byte:
  assumes "rz_reg S T z p"
  obtains z' where "z_descend_first_byte S z = Ret (nth_opt 0 (tv_branches T p), z')"
    "rz_ready S T z' (moved_by p (nth_opt 0 (tv_branches T p)))"
proof -
  note goal = that
  let ?z1 = "z_with_token S (z_prepare_buffers z)"
  let ?f = "focus_node ?z1" and ?key = "key_at T p (ancestors ?z1)" and ?its = "node_items (focus_node ?z1)"
  note wt = rz_with_token[OF rz_prepare[OF assms]]
  note ready = wt(1) and f = rz_ready_facts[OF wt(1)]
  have at: "node_at S ?f ?key (focus_iter_token ?z1)" using wt by simp
  note ok = cursor_ok_wf[OF f(2,7)] and sorted = cursor_sorted[OF f(2,7)]
  have branch: "tv_has T (p @ [b]) \<longleftrightarrow> (\<exists>i \<in> set ?its. prefix (?key @ [b]) (fst i))" for b
    using stands_mask[OF f(6,1) rz_link[OF ready], of b] node_branches_iff[OF f(2,7), of ?key b]
    by (auto simp: tv_branches(2) on_items_def)
  have none: thesis if "z_descend_first_byte S z = Ret (None, ?z1)" "\<And>b. \<not> tv_has T (p @ [b])"
  proof -
    have "tv_branches T p = []" using that(2) tv_branches(2) by (metis list.set_intros(1) neq_Nil_conv)
    then show thesis using goal[of ?z1] that(1) ready by (simp add: nth_opt_def)
  qed
  show thesis
  proof (cases "node_iter_token_is_nonexistent (focus_iter_token ?z1)")
    case True
    then have "\<not> on_items ?its ?key" using cursor.at_exists[OF ok at] by simp
    then have "\<not> tv_has T (p @ [b])" for b unfolding branch on_items_def by (metis append_prefixD)
    then show ?thesis using none True by (simp add: z_descend_first_byte_def Let_def)
  next
    case exists: False
    show ?thesis
    proof (cases "next_item ?its ?key False")
      case None
      have "\<not> tv_has T (p @ [b])" for b
      proof
        assume "tv_has T (p @ [b])"
        then obtain j where j: "j \<in> set ?its" "prefix (?key @ [b]) (fst j)" unfolding branch by blast
        then have "after ?key False (fst j)" unfolding after_False
          by (intro path_less_strict_prefix) (auto simp: prefix_def)
        then show False using next_item_cases(1)[OF sorted None j(1)] by simp
      qed
      then show ?thesis using none exists cursor.next_finished[OF ok at None]
        by (simp add: z_descend_first_byte_def Let_def)
    next
      case (Some i)
      note least = next_item_cases(2,3)[OF sorted Some]
      obtain t' where t': "node_next_items ?f (focus_iter_token ?z1) False = Ret (t', i)" "node_at S ?f (fst i) t'"
        using cursor.next_found[OF ok at Some] by blast
      have t'_ord: "t' \<noteq> NODE_ITER_FINISHED" "t' \<noteq> NODE_ITER_INVALID" using cursor.at_ordinary[OF ok t'(2)] by simp_all
      have key_less: "path_less ?key (fst i)" using least(1) by (simp add: after_False)
      have first: "path_less (fst i) (fst j) \<or> j = i" if "j \<in> set ?its" "path_less ?key (fst j)" for j
        using least(2)[OF that(1)] that(2) by (auto simp: after_False)
      show ?thesis
      proof (cases "length (fst i) \<le> length ?key \<or> \<not> starts_with S (fst i) ?key")
        case True
        have not_pre: "\<not> prefix ?key (fst i)"
        proof
          assume pre: "prefix ?key (fst i)"
          then have "starts_with S (fst i) ?key" using f(2) by simp
          then have "?key = fst i" using True pre by (auto simp: prefix_def)
          then show False using key_less by simp
        qed
        have "\<not> tv_has T (p @ [b])" for b
        proof
          assume "tv_has T (p @ [b])"
          then obtain j where j: "j \<in> set ?its" "prefix (?key @ [b]) (fst j)" unfolding branch by blast
          then have kj: "prefix ?key (fst j)" "path_less ?key (fst j)"
            by (auto intro: append_prefixD path_less_strict_prefix simp: prefix_def)
          have "path_less (fst i) (fst j) \<or> j = i" by (rule first[OF j(1) kj(2)])
          then show False using path_less_between[OF kj(1) key_less] kj(1) not_pre by blast
        qed
        moreover have "z_descend_first_byte S z = Ret (None, ?z1)"
          using exists t' t'_ord True f(10) by (cases i) (simp add: z_descend_first_byte_def Let_def)
        ultimately show ?thesis using none by blast
      next
        case False
        then have pre: "prefix ?key (fst i)" "length ?key < length (fst i)" using f(2) by auto
        define b where "b = fst i ! length ?key"
        obtain w where w: "fst i = ?key @ b # w"
          using pre by (metis b_def append_eq_conv_conj id_take_nth_drop prefix_def)
        have bT: "tv_has T (p @ [b])" unfolding branch using least(1) w by (intro bexI[of _ i]) (auto simp: prefix_def)
        have "b \<le> c" if cT: "tv_has T (p @ [c])" for c
        proof -
          obtain j where j: "j \<in> set ?its" "prefix (?key @ [c]) (fst j)" using cT unfolding branch by blast
          then obtain u where u: "fst j = ?key @ c # u" by (auto simp: prefix_def)
          have "path_less ?key (fst j)" unfolding u by (rule path_less_strict_prefix) (auto simp: prefix_def)
          from first[OF j(1) this] show ?thesis using path_less_snoc_mono[of ?key b w c u] w u by auto
        qed
        from first_branch[OF bT this] have nth: "nth_opt 0 (tv_branches T p) = Some b"
          by (auto simp: nth_opt_def hd_conv_nth)
        obtain c v where i: "i = (?key @ b # w, c, v)" using w by (cases i) auto
        have link: "node_get_child ?f (?key @ b # w) = map_option (\<lambda>c. (length (?key @ b # w), c)) c"
          using item_link[OF f(7)] least(1) i by blast
        have run: "z_descend_first_byte S z =
          (let z2 = ?z1\<lparr>prefix_buf := prefix_buf ?z1 @ [b]\<rparr> in
            if w = [] then Ret (Some b, z_enter_item t' c z2)
            else bind_outcome (node_ascend_iter_token ?f t' (length w)) (\<lambda>tok. Ret (Some b, z2\<lparr>focus_iter_token := tok\<rparr>)))"
          using exists t'(1) t'_ord f(10) False unfolding z_descend_first_byte_def Let_def i
          by (simp add: i Let_def)
        show ?thesis
        proof (cases "w = []")
          case w0: True
          have tok: "tok_ok S ?f (?key @ [b]) t'" using t'(2) i w0 by (simp add: tok_ok_def)
          show ?thesis
          proof (cases c)
            case None
            have "rz_ready S T (?z1\<lparr>prefix_buf := prefix_buf ?z1 @ [b], focus_iter_token := t'\<rparr>) (p @ [b])"
              by (rule rz_step_none[OF ready _ tok]) (use link None w0 in simp)
            then show ?thesis using run w0 None nth by (intro goal) (simp_all add: z_enter_item_def)
          next
            case (Some c')
            have g: "node_get_child ?f (?key @ [b]) = Some (length (?key @ [b]), c')" using link Some w0 by simp
            have "tok_ok S c' [] (node_new_iter_token c')"
              using new_token_ok[OF f(2) child_below(3)[OF f(7) _ g]] by simp
            then have "rz_ready S T (z_enter_item t' c (?z1\<lparr>prefix_buf := prefix_buf ?z1 @ [b]\<rparr>)) (p @ [b])"
              using rz_step_some[OF ready g tok] f by (simp add: z_enter_item_def Some rz_ready_iff rz_static_def key_at_Cons)
            then show ?thesis using run w0 nth by (intro goal) simp_all
          qed
        next
          case w1: False
          have on: "on_items ?its (fst i)" using least(1) by (auto simp: on_items_def)
          obtain tok where tok: "node_ascend_iter_token ?f t' (length w) = Ret tok"
            "node_at S ?f (take (length (fst i) - length w) (fst i)) tok"
            using cursor.ascend_at[OF ok t'(2) on, of "length w"] w w1 by auto
          have key': "take (length (fst i) - length w) (fst i) = ?key @ [b]" unfolding w by simp
          have "node_get_child ?f (?key @ [b]) = None"
          proof (rule no_link_below_item[OF f(2,7)])
            show "l = length (?key @ [b])" if "node_get_child ?f (?key @ [b]) = Some (l, c)" for l c
              by (rule rz_byte_link[OF ready that])
            fix c v assume j: "(?key @ [b], Some c, v) \<in> set ?its"
            have kj: "path_less ?key (fst (?key @ [b], Some c, v))"
              by (simp add: path_less_strict_prefix)
            have "path_less (?key @ [b]) (fst i)" unfolding w using w1 by (intro path_less_strict_prefix) auto
            then show False using first[OF j kj] w w1 path_less_asym by auto
          qed simp
          from rz_step_none[OF ready this, of tok] have "rz_ready S T (?z1\<lparr>prefix_buf := prefix_buf ?z1 @ [b], focus_iter_token := tok\<rparr>) (p @ [b])"
            using tok(2) unfolding key' by (simp add: tok_ok_def)
          then show ?thesis using run w1 nth tok(1) by (intro goal) simp_all
        qed
      qed
    qed
  qed
qed

subsection \<open>Siblings\<close>

text \<open>A zipper whose focus node is above its focus: the state \<open>deregularize\<close> makes.\<close>

definition rz_open :: "slice_utils \<Rightarrow> 'v trie_view \<Rightarrow> 'v read_zipper \<Rightarrow> path \<Rightarrow> bool" where
  "rz_open S T z p \<longleftrightarrow> rz_static S T z \<and> buffers_allocated z \<and> prefix_buf z = tv_buf T p \<and>
     stands S T p (ancestors z) (focus_node z) \<and>
     tok_ok S (focus_node z) (key_at T p (ancestors z)) (focus_iter_token z) \<and>
     key_at T p (ancestors z) \<noteq> [] \<and>
     (\<forall>l c. node_get_child (focus_node z) (key_at T p (ancestors z)) = Some (l, c) \<longrightarrow> l = length (key_at T p (ancestors z)))"

lemma stands_pop:
  assumes "stands S T p ((n, t, i) # anc) f" "tv_ok S T" "i = length (tv_buf T p)"
  shows "stands S T p anc n" "key_at T p anc \<noteq> []" "tok_ok S n (key_at T p anc) t"
    "node_get_child n (key_at T p anc) = Some (length (key_at T p anc), f)"
proof -
  have key: "subrange (key_start_of (tv_start T) anc) i (tv_buf T p) = key_at T p anc"
    unfolding assms(3) by (simp add: subrange_alt key_at_def)
  have c: "chain S (tv_base T) (tv_start T) (tv_buf T p) ((n, t, i) # anc) f" using assms(1) by (simp add: stands_def)
  note c' = c[unfolded chain.simps Let_def key]
  show "stands S T p anc n" "tok_ok S n (key_at T p anc) t"
    "node_get_child n (key_at T p anc) = Some (length (key_at T p anc), f)"
    using c' by (auto simp: stands_def)
  show "key_at T p anc \<noteq> []" using c' unfolding assms(3) key_at_def by (metis drop_eq_Nil not_le)
qed

lemma rz_key_Nil:
  assumes "rz_ready S T z p" "p \<noteq> []" "key_at T p (ancestors z) = []"
  obtains n t anc where "ancestors z = (n, t, length (tv_buf T p)) # anc"
proof (cases "ancestors z")
  case Nil
  have "tv_start T \<le> length (tv_origin T)" using rz_ready_facts(1)[OF assms(1)] by (simp add: tv_ok_def)
  then show ?thesis using assms(2,3) by (simp add: Nil key_at_def)
next
  case (Cons a anc)
  obtain n t i where a: "a = (n, t, i)" by (cases a)
  have "i \<le> length (tv_buf T p)" using stands_bounds(2)[OF rz_ready_facts(6,1)[OF assms(1)]] by (simp add: Cons a)
  moreover have "length (tv_buf T p) \<le> i" using assms(3) by (simp only: Cons a key_at_Cons drop_eq_Nil)
  ultimately have "i = length (tv_buf T p)" by simp
  then show ?thesis using that Cons a by blast
qed

lemma rz_open_self: "rz_ready S T z p \<Longrightarrow> key_at T p (ancestors z) \<noteq> [] \<Longrightarrow> rz_open S T z p"
  by (simp add: rz_open_def rz_ready_iff)

lemma rz_open_pop:
  assumes "rz_ready S T z p" "p \<noteq> []" "key_at T p (ancestors z) = []"
  shows "rz_open S T (z_ascend_across_nodes z) p"
proof -
  obtain n t anc where anc: "ancestors z = (n, t, length (tv_buf T p)) # anc" using rz_key_Nil[OF assms] .
  note f = rz_ready_facts[OF assms(1)]
  from stands_pop[OF f(6)[unfolded anc] f(1) refl] f show ?thesis
    by (simp add: rz_open_def rz_static_def z_ascend_across_nodes_def anc)
qed

lemma rz_deregularize:
  assumes "rz_ready S T z p" "p \<noteq> []"
  shows "rz_open S T (z_deregularize z) p"
proof -
  have "length (prefix_buf z) = z_node_key_start z \<longleftrightarrow> key_at T p (ancestors z) = []"
    using rz_ready_keys(2)[OF assms(1)] rz_ready_facts(5)[OF assms(1)] stands_bounds(2,3)[OF rz_ready_facts(6,1)[OF assms(1)]]
    by (auto simp flip: length_0_conv)
  then show ?thesis using rz_open_pop[OF assms] rz_open_self[OF assms(1)] by (auto simp: z_deregularize_def)
qed

lemma rz_open_facts:
  assumes "rz_open S T z p"
  shows "tv_ok S T" "slice_utils_ok S" "rz_static S T z" "buffers_allocated z" "prefix_buf z = tv_buf T p"
    "stands S T p (ancestors z) (focus_node z)" "wf_node (focus_node z)"
    "tok_ok S (focus_node z) (key_at T p (ancestors z)) (focus_iter_token z)"
    "key_at T p (ancestors z) \<noteq> []"
    "z_node_key z = key_at T p (ancestors z)" "z_node_key_start z = key_start_of (tv_start T) (ancestors z)"
proof -
  show T: "tv_ok S T" "slice_utils_ok S" "rz_static S T z" "buffers_allocated z" "prefix_buf z = tv_buf T p"
    "stands S T p (ancestors z) (focus_node z)"
    "tok_ok S (focus_node z) (key_at T p (ancestors z)) (focus_iter_token z)"
    "key_at T p (ancestors z) \<noteq> []"
    using assms by (auto simp: rz_open_def rz_static_def tv_ok_def)
  show "wf_node (focus_node z)" by (rule stands_wf[OF T(6,1)])
  show ks: "z_node_key_start z = key_start_of (tv_start T) (ancestors z)"
    using T(3) by (cases "ancestors z") (auto simp: z_node_key_start_def rz_static_def)
  have "0 < length (prefix_buf z)" using T(5,8) by (auto simp: key_at_def)
  then show "z_node_key z = key_at T p (ancestors z)"
    unfolding z_node_key_def ks by (simp add: key_at_def T(5))
qed

lemma rz_open_link:
  assumes "rz_open S T z p" "node_get_child (focus_node z) (key_at T p (ancestors z)) = Some (l, c)"
  shows "l = length (key_at T p (ancestors z))"
  using assms by (simp add: rz_open_def)

lemma rz_regularize:
  assumes "rz_open S T z p"
  shows "rz_ready S T (z_regularize z) p"
proof (cases "node_get_child (focus_node z) (key_at T p (ancestors z))")
  case None
  then show ?thesis using assms rz_open_facts(10)[OF assms]
    by (simp add: z_regularize_def rz_open_def rz_ready_iff)
next
  case (Some r)
  obtain l c where r: "r = (l, c)" by (cases r)
  note f = rz_open_facts[OF assms]
  have "l = length (key_at T p (ancestors z))" by (rule rz_open_link[OF assms Some[unfolded r]])
  from stands_enter[OF f(6,1,9) Some[unfolded r this] f(8)] show ?thesis using f Some
    by (simp add: z_regularize_def z_push_node_def r rz_ready_iff rz_static_def)
qed

lemma rz_open_token:
  assumes "rz_open S T z p"
  shows "rz_open S T (z_with_token S z) p"
    "node_at S (focus_node z) (key_at T p (ancestors z)) (focus_iter_token (z_with_token S z))"
    "focus_node (z_with_token S z) = focus_node z" "ancestors (z_with_token S z) = ancestors z"
proof -
  note f = rz_open_facts[OF assms]
  have at: "node_at S (focus_node z) (key_at T p (ancestors z)) (node_iter_token_for_path S (focus_node z) (key_at T p (ancestors z)))"
    by (rule cursor.for_path_at[OF cursor_ok_wf[OF f(2,7)]])
  then show "node_at S (focus_node z) (key_at T p (ancestors z)) (focus_iter_token (z_with_token S z))"
    using f(8,10) by (auto simp: z_with_token_def tok_ok_def)
  then show "rz_open S T (z_with_token S z) p"
    using assms f(10) at by (auto simp: z_with_token_def rz_open_def rz_static_def tok_ok_def)
qed (simp_all add: z_with_token_def)

text \<open>The same node, at another branch of the last byte.\<close>

lemma stands_sibling:
  assumes "stands S T p anc f" "tv_ok S T" "key_at T p anc \<noteq> []" "p \<noteq> []"
  shows "stands S T (butlast p @ q) anc f" "key_at T (butlast p @ q) anc = butlast (key_at T p anc) @ q"
    "last (key_at T p anc) = last p"
proof -
  note b = stands_bounds[OF assms(1,2)]
  have buf: "tv_buf T p = tv_buf T (butlast p) @ [last p]" using assms(4) by simp
  have ks: "key_start_of (tv_start T) anc \<le> length (tv_buf T (butlast p))"
  proof -
    have "0 < length (key_at T p anc)" using assms(3) by simp
    then have "key_start_of (tv_start T) anc < length (tv_buf T p)" unfolding b(3) by simp
    then show ?thesis unfolding buf by simp
  qed
  show "stands S T (butlast p @ q) anc f"
  proof (rule stands_replace[OF assms(1,2)])
    show "take (length (tv_buf T (butlast p))) (tv_buf T p) = take (length (tv_buf T (butlast p))) (tv_buf T (butlast p @ q))"
      unfolding buf by simp
  qed (use ks in auto)
  have key: "key_at T p anc = drop (key_start_of (tv_start T) anc) (tv_buf T (butlast p)) @ [last p]"
    unfolding key_at_def buf using ks by (simp only: drop_append diff_is_0_eq' drop_0)
  show "key_at T (butlast p @ q) anc = butlast (key_at T p anc) @ q"
    unfolding key butlast_snoc using ks by (simp add: key_at_def)
  show "last (key_at T p anc) = last p" unfolding key by simp
qed

lemma no_link_at_butlast:
  assumes "wf_node n" "key \<noteq> []" "\<And>l c. node_get_child n key = Some (l, c) \<Longrightarrow> l = length key" "butlast key \<noteq> []"
  shows "node_get_child n (butlast key) = None"
proof (rule ccontr)
  assume "node_get_child n (butlast key) \<noteq> None"
  then obtain l c where g: "node_get_child n (butlast key) = Some (l, c)" by auto
  have "prefix (butlast key) key" using assms(2) by (metis append_butlast_last_id prefixI)
  then have "node_get_child n key = Some (l, c)" "l \<le> length (butlast key)"
    using node_get_child_prefix[OF assms(1) _ assms(4)] g by auto
  moreover have "length (butlast key) < length key" using assms(2) by simp
  ultimately show False using assms(3) by fastforce
qed

definition next_branch :: "'v trie_view \<Rightarrow> path \<Rightarrow> u8 option" where
  "next_branch T p = find (\<lambda>c. last p < c) (tv_branches T (butlast p))"

definition prev_branch :: "'v trie_view \<Rightarrow> path \<Rightarrow> u8 option" where
  "prev_branch T p = find (\<lambda>c. c < last p) (rev (tv_branches T (butlast p)))"

definition sibling_by :: "path \<Rightarrow> u8 option \<Rightarrow> path" where
  "sibling_by p r = (case r of None \<Rightarrow> p | Some b \<Rightarrow> butlast p @ [b])"

lemma sibling_by_simps [simp]: "sibling_by p None = p" "sibling_by p (Some b) = butlast p @ [b]"
  by (simp_all add: sibling_by_def)

lemma set_last_buf: "p \<noteq> [] \<Longrightarrow> set_last b (tv_buf T p) = tv_buf T (butlast p @ [b])"
  by (simp add: set_last_def butlast_append)

text \<open>What the items after a key say about its siblings.\<close>

lemma sibling_item:
  assumes S: "slice_utils_ok S" and wf: "wf_node n" and key: "key \<noteq> []"
    and some: "next_item (node_items n) key True = Some i"
    and c: "last key < c" "j \<in> set (node_items n)" "prefix (butlast key @ [c]) (fst j)"
  shows "\<exists>d w. fst i = butlast key @ d # w \<and> last key < d \<and> d \<le> c"
proof -
  note least = next_item_cases(2,3)[OF cursor_sorted[OF S wf] some]
  obtain q l where ql: "key = q @ [l]" using key by (cases key rule: rev_cases) auto
  obtain u where u: "fst j = q @ c # u" using c(3) by (auto simp: ql prefix_def)
  have lc: "l < c" using c(1) by (simp add: ql)
  then have "after key True (fst j)" by (simp add: after_def u ql)
  then have ij: "j = i \<or> path_less (fst i) (fst j)" by (rule least(2)[OF c(2)])
  have i: "path_less key (fst i)" "\<not> prefix key (fst i)" using least(1) key by (auto simp: after_def)
  have "prefix q (fst i)"
  proof (cases "j = i")
    case False
    then have "path_less (fst i) (q @ c # u)" using ij u by simp
    moreover have "path_less q (fst i)"
      using i(1) path_less_strict_prefix[of q key] path_less_trans by (simp add: ql)
    ultimately show ?thesis using path_less_between[of q "q @ c # u" "fst i"] by simp
  qed (use u in simp)
  then obtain r where r: "fst i = q @ r" by (auto simp: prefix_def)
  have r0: "r \<noteq> []" using i(1) path_less_strict_prefix[of q key] path_less_asym by (auto simp: r ql)
  then obtain d w where dw: "r = d # w" by (cases r) auto
  have "l < d"
    using i path_less_hdD[of l "[]" d w] by (auto simp: ql r dw order_less_le)
  moreover have "d \<le> c" using ij path_less_hdD[of d w c u] u by (auto simp: r dw)
  ultimately show ?thesis by (auto simp: r dw ql)
qed

lemma no_sibling_item:
  assumes "slice_utils_ok S" "wf_node n" "key \<noteq> []" "next_item (node_items n) key True = None"
    "last key < c" "j \<in> set (node_items n)"
  shows "\<not> prefix (butlast key @ [c]) (fst j)"
proof
  assume "prefix (butlast key @ [c]) (fst j)"
  moreover obtain q l where ql: "key = q @ [l]" using assms(3) by (cases key rule: rev_cases) auto
  ultimately obtain u where u: "fst j = q @ c # u" by (auto simp: prefix_def)
  have "after key True (fst j)" using assms(5) by (simp add: after_def u ql)
  then show False using next_item_cases(1)[OF cursor_sorted[OF assms(1,2)] assms(4,6)] by simp
qed

lemma rz_open_branches:
  assumes "rz_open S T z p" "p \<noteq> []"
  shows "tv_has T (butlast p @ [c]) \<longleftrightarrow>
    (\<exists>i \<in> set (node_items (focus_node z)). prefix (butlast (key_at T p (ancestors z)) @ [c]) (fst i))"
proof -
  note f = rz_open_facts[OF assms(1)]
  note sib = stands_sibling(1,2)[OF f(6,1,9) assms(2), of "[]"]
  have "test_bit (node_branches_mask S (focus_node z) (butlast (key_at T p (ancestors z)))) c \<longleftrightarrow> tv_has T (butlast p @ [c])"
    using stands_mask[of S T "butlast p" "ancestors z" "focus_node z" c] sib f(1)
      no_link_at_butlast[OF f(7,9) rz_open_link[OF assms(1)]] by (simp add: tv_branches(2))
  then show ?thesis using node_branches_iff[OF f(2,7)] by (auto simp: on_items_def)
qed

lemma sibling_found:
  assumes "tv_has T (butlast p @ [d])" "last p < d" "\<And>c. tv_has T (butlast p @ [c]) \<Longrightarrow> last p < c \<Longrightarrow> d \<le> c"
  shows "next_branch T p = Some d"
  unfolding next_branch_def by (rule find_least[OF tv_branches(1)]) (use assms in \<open>auto simp: tv_branches(2)\<close>)

lemma sibling_not_found:
  "(\<And>c. tv_has T (butlast p @ [c]) \<Longrightarrow> \<not> last p < c) \<Longrightarrow> next_branch T p = None"
  by (auto simp: next_branch_def find_None_iff tv_branches(2))

lemma ready_moved:
  assumes "rz_open S T z p" "p \<noteq> []" "stands S T p' anc f" "tok_ok S f (key_at T p' anc) t"
    "key_at T p' anc \<noteq> [] \<longrightarrow> node_get_child f (key_at T p' anc) = None"
  shows "rz_ready S T (z\<lparr>prefix_buf := tv_buf T p', ancestors := anc, focus_node := f, focus_iter_token := t\<rparr>) p'"
  using assms rz_open_facts(3,4)[OF assms(1)] by (simp add: rz_ready_iff rz_static_def)

lemma rz_to_next_sibling_byte:
  assumes "rz_reg S T z p" "p \<noteq> []"
  obtains z' where "z_to_next_sibling_byte S z = Ret (next_branch T p, z')"
    "rz_ready S T z' (sibling_by p (next_branch T p))"
proof -
  note goal = that
  let ?z0 = "z_prepare_buffers z"
  let ?z1 = "z_with_token S (z_deregularize ?z0)"
  let ?f = "focus_node ?z1" and ?anc = "ancestors ?z1" and ?its = "node_items (focus_node ?z1)"
  let ?key = "key_at T p (ancestors ?z1)"
  note tok = rz_open_token[OF rz_deregularize[OF rz_prepare[OF assms(1)] assms(2)]]
  note op = tok(1) and f = rz_open_facts[OF tok(1)]
  have at: "node_at S ?f ?key (focus_iter_token ?z1)" using tok by simp
  note ok = cursor_ok_wf[OF f(2,7)] and sorted = cursor_sorted[OF f(2,7)]
  note branch = rz_open_branches[OF op assms(2)] and sib = stands_sibling[OF f(6,1,9) assms(2)]
  obtain q l where ql: "?key = q @ [l]" using f(9) by (cases ?key rule: rev_cases) auto
  have l: "l = last p" "butlast ?key = q" using sib(3) by (simp_all add: ql)
  have not_root: "\<not> z_at_root z" "prefix_buf ?z0 \<noteq> []"
    using rz_depth(2)[OF rz_pos_reg[OF assms(1)]] rz_ready_facts(5)[OF rz_prepare[OF assms(1)]] assms(2) by simp_all
  define fixed where "fixed = (\<lambda>(new_tok, key_bytes, child_node, v :: 'a option).
      if new_tok = NODE_ITER_FINISHED then Ret (None, z_regularize ?z1)
      else if length key_bytes \<le> length q \<or> take (length q) key_bytes \<noteq> q \<or> key_bytes ! length q \<le> l
      then Ret (None, z_regularize ?z1)
      else bind_outcome
        (if length key_bytes = length q + 1 then Ret new_tok
         else node_ascend_iter_token ?f new_tok (length key_bytes - (length q + 1)))
        (\<lambda>tok.
          let z2 = ?z1\<lparr>prefix_buf := set_last (key_bytes ! length q) (prefix_buf ?z1), focus_iter_token := tok\<rparr> in
          Ret (Some (key_bytes ! length q),
            if length key_bytes = length q + 1 then
              (case child_node of
                 None \<Rightarrow> z2
               | Some rec \<Rightarrow>
                   z2\<lparr>ancestors := (focus_node z2, new_tok, length (prefix_buf z2)) # ancestors z2,
                      focus_node := rec, focus_iter_token := NODE_ITER_INVALID\<rparr>)
            else z2)))"
  have run: "z_to_next_sibling_byte S z = fixed r" if "node_next_items ?f (focus_iter_token ?z1) True = Ret r" for r
    using not_root that unfolding z_to_next_sibling_byte_def Let_def f(10) ql fixed_def
    by (cases r) (simp cong: if_cong option.case_cong)
  have none: thesis if "z_to_next_sibling_byte S z = Ret (None, z_regularize ?z1)"
      "\<And>c. tv_has T (butlast p @ [c]) \<Longrightarrow> \<not> last p < c"
  proof -
    have "next_branch T p = None" by (rule sibling_not_found) (use that(2) in blast)
    then show thesis using goal[of "z_regularize ?z1"] that(1) rz_regularize[OF op] by simp
  qed
  show thesis
  proof (cases "next_item ?its ?key True")
    case None
    have "\<not> last p < c" if cT: "tv_has T (butlast p @ [c])" for c
    proof -
      obtain j where j: "j \<in> set ?its" "prefix (butlast ?key @ [c]) (fst j)" using cT unfolding branch by blast
      show ?thesis using no_sibling_item[OF f(2,7,9) None _ j(1)] j(2) unfolding sib(3) by blast
    qed
    moreover have "z_to_next_sibling_byte S z = Ret (None, z_regularize ?z1)"
      unfolding run[OF cursor.next_finished[OF ok at None]] by (simp add: fixed_def)
    ultimately show ?thesis using none by blast
  next
    case (Some i)
    note least = next_item_cases(2,3)[OF sorted Some]
    obtain t' where t': "node_next_items ?f (focus_iter_token ?z1) True = Ret (t', i)" "node_at S ?f (fst i) t'"
      using cursor.next_found[OF ok at Some] by blast
    have t'_ord: "t' \<noteq> NODE_ITER_FINISHED" "t' \<noteq> NODE_ITER_INVALID" using cursor.at_ordinary[OF ok t'(2)] by simp_all
    show ?thesis
    proof (cases "\<exists>d w. fst i = q @ d # w \<and> l < d")
      case False
      have "\<not> last p < c" if cT: "tv_has T (butlast p @ [c])" for c
      proof
        assume "last p < c"
        moreover obtain j where "j \<in> set ?its" "prefix (butlast ?key @ [c]) (fst j)" using cT unfolding branch by blast
        ultimately have "\<exists>d w. fst i = butlast ?key @ d # w \<and> last ?key < d \<and> d \<le> c"
          using sibling_item[OF f(2,7,9) Some] sib(3) by simp
        then show False using False by (auto simp: ql)
      qed
      moreover have "z_to_next_sibling_byte S z = Ret (None, z_regularize ?z1)"
      proof -
        have "length (fst i) \<le> length q \<or> take (length q) (fst i) \<noteq> q \<or> fst i ! length q \<le> l"
        proof (rule ccontr)
          assume "\<not> ?thesis"
          then have "fst i = q @ fst i ! length q # drop (Suc (length q)) (fst i)" "l < fst i ! length q"
            using id_take_nth_drop[of "length q" "fst i"] by auto
          then show False using False by blast
        qed
        then show ?thesis unfolding run[OF t'(1)] by (cases i) (auto simp: fixed_def)
      qed
      ultimately show ?thesis using none by blast
    next
      case True
      then obtain d w where dw: "fst i = q @ d # w" "l < d" by blast
      obtain c v where i: "i = (q @ d # w, c, v)" using dw(1) by (cases i) auto
      let ?p' = "butlast p @ [d]"
      have st': "stands S T ?p' ?anc ?f" and key': "key_at T ?p' ?anc = q @ [d]" using sib(1,2)[of "[d]"] l by simp_all
      have dT: "tv_has T ?p'" unfolding branch l(2) using least(1) dw(1) by (intro bexI[of _ i]) (auto simp: prefix_def)
      have "d \<le> e" if eT: "tv_has T (butlast p @ [e])" "last p < e" for e
      proof -
        obtain j where "j \<in> set ?its" "prefix (butlast ?key @ [e]) (fst j)" using eT(1) unfolding branch by blast
        then have "\<exists>d w. fst i = butlast ?key @ d # w \<and> last ?key < d \<and> d \<le> e"
          using sibling_item[OF f(2,7,9) Some] sib(3) eT(2) by simp
        then show ?thesis using dw(1) by (auto simp: ql)
      qed
      from sibling_found[OF dT _ this] dw(2) l(1) have nb: "next_branch T p = Some d" by simp
      have link: "node_get_child ?f (q @ d # w) = map_option (\<lambda>c. (length (q @ d # w), c)) c"
        using item_link[OF f(7)] least(1) i by blast
      have buf': "set_last d (prefix_buf ?z1) = tv_buf T ?p'" unfolding f(5) by (rule set_last_buf[OF assms(2)])
      have run': "z_to_next_sibling_byte S z = bind_outcome
          (if w = [] then Ret t' else node_ascend_iter_token ?f t' (length w))
          (\<lambda>tok. Ret (Some d, case (if w = [] then c else None) of
              None \<Rightarrow> ?z1\<lparr>prefix_buf := tv_buf T ?p', focus_iter_token := tok\<rparr>
            | Some rec \<Rightarrow> ?z1\<lparr>prefix_buf := tv_buf T ?p', focus_iter_token := NODE_ITER_INVALID,
                ancestors := (?f, t', length (tv_buf T ?p')) # ?anc, focus_node := rec\<rparr>))"
        unfolding run[OF t'(1)] i fixed_def using dw(2) t'_ord(1) by (auto simp: buf' Let_def split: option.splits)
      show ?thesis
      proof (cases "w = []")
        case w0: True
        have tok': "tok_ok S ?f (key_at T ?p' ?anc) t'" using t'(2) i w0 key' by (simp add: tok_ok_def)
        show ?thesis
        proof (cases c)
          case None
          have "rz_ready S T (?z1\<lparr>prefix_buf := tv_buf T ?p', focus_iter_token := t'\<rparr>) ?p'"
            using st' tok' link None w0 key' f(3,4) by (simp add: rz_ready_iff rz_static_def)
          then show ?thesis using run' w0 None nb by (intro goal) simp_all
        next
          case (Some c')
          have g: "node_get_child ?f (key_at T ?p' ?anc) = Some (length (key_at T ?p' ?anc), c')"
            using link Some w0 by (simp add: key')
          have ne: "key_at T ?p' ?anc \<noteq> []" by (simp add: key')
          from stands_enter[OF st' f(1) ne g tok'] f(3,4)
          have "rz_ready S T (?z1\<lparr>prefix_buf := tv_buf T ?p', focus_iter_token := NODE_ITER_INVALID,
                ancestors := (?f, t', length (tv_buf T ?p')) # ?anc, focus_node := c'\<rparr>) ?p'"
            by (simp add: rz_ready_iff rz_static_def)
          then show ?thesis using run' w0 Some nb by (intro goal) simp_all
        qed
      next
        case w1: False
        have on: "on_items ?its (fst i)" using least(1) by (auto simp: on_items_def)
        obtain tk where tk: "node_ascend_iter_token ?f t' (length w) = Ret tk"
          "node_at S ?f (take (length (fst i) - length w) (fst i)) tk"
          using cursor.ascend_at[OF ok t'(2) on, of "length w"] dw w1 by auto
        have key_i: "take (length (fst i) - length w) (fst i) = q @ [d]" unfolding dw by simp
        have "node_get_child ?f (q @ [d]) = None"
        proof (rule no_link_below_item[OF f(2,7)])
          fix l' c' assume g: "node_get_child ?f (q @ [d]) = Some (l', c')"
          have "q \<noteq> [] \<Longrightarrow> node_get_child ?f q = None"
            using no_link_at_butlast[OF f(7,9) rz_open_link[OF op]] l(2) by simp
          from link_at_byte[OF f(7) this g] show "l' = length (q @ [d])" .
        next
          fix c' v' assume j: "(q @ [d], Some c', v') \<in> set ?its"
          have "after ?key True (q @ [d])" using dw(2) by (simp add: after_def ql)
          then have "(q @ [d], Some c', v') = i \<or> path_less (fst i) (q @ [d])" using least(2)[OF j] by simp
          moreover have "path_less (q @ [d]) (fst i)" unfolding dw using w1 by (intro path_less_strict_prefix) auto
          ultimately show False using w1 i path_less_asym by auto
        qed simp
        then have "rz_ready S T (?z1\<lparr>prefix_buf := tv_buf T ?p', focus_iter_token := tk\<rparr>) ?p'"
          using st' tk(2) f(3,4) key' by (simp add: rz_ready_iff rz_static_def tok_ok_def key_i)
        then show ?thesis using run' w1 tk(1) nb by (intro goal) simp_all
      qed
    qed
  qed
qed

lemma sibling_link:
  assumes "stands S T p anc f" "tv_ok S T" "key_at T p anc \<noteq> []" "p \<noteq> []"
    "\<forall>l c. node_get_child f (key_at T p anc) = Some (l, c) \<longrightarrow> l = length (key_at T p anc)"
  shows "node_get_sibling_of_child S f (key_at T p anc) False =
      node_branch f (butlast (key_at T p anc)) (prev_branch T p)"
    "node_get_child f (butlast (key_at T p anc) @ [b]) = Some (l, c) \<Longrightarrow> l = length (butlast (key_at T p anc) @ [b])"
proof -
  note wf = stands_wf[OF assms(1,2)] and S = assms(2)[unfolded tv_ok_def, THEN conjunct1]
  note sib = stands_sibling(1,2)[OF assms(1-4), of "[]", unfolded append_Nil2] and last = stands_sibling(3)[OF assms(1-4)]
  have none: "butlast (key_at T p anc) \<noteq> [] \<Longrightarrow> node_get_child f (butlast (key_at T p anc)) = None"
    by (rule no_link_at_butlast[OF wf assms(3)]) (use assms(5) in blast)+
  have link: "key_at T (butlast p) anc \<noteq> [] \<longrightarrow> node_get_child f (key_at T (butlast p) anc) = None"
    unfolding sib(2) using none by blast
  show "node_get_sibling_of_child S f (key_at T p anc) False =
      node_branch f (butlast (key_at T p anc)) (prev_branch T p)"
    unfolding node_sibling_spec(1)[OF S wf assms(3)] prev_branch_def
      stands_search(2)[OF sib(1) assms(2) link, unfolded sib(2)] last ..
  show "node_get_child f (butlast (key_at T p anc) @ [b]) = Some (l, c) \<Longrightarrow> l = length (butlast (key_at T p anc) @ [b])"
    by (rule link_at_byte[OF wf none])
qed

lemma rz_to_prev_sibling_byte:
  assumes "rz_reg S T z p" "p \<noteq> []"
  obtains z' where "z_to_prev_sibling_byte S z = (prev_branch T p, z')"
    "rz_ready S T z' (sibling_by p (prev_branch T p))"
proof -
  note goal = that
  let ?z = "z_prepare_buffers z"
  note ready = rz_prepare[OF assms(1)]
  note f = rz_ready_facts[OF ready]
  have root: "\<not> z_at_root z" using rz_depth(2)[OF rz_pos_reg[OF assms(1)]] assms(2) by simp
  have buf: "set_last d (prefix_buf ?z) = tv_buf T (butlast p @ [d])" for d
    unfolding f(5) by (rule set_last_buf[OF assms(2)])
  show thesis
  proof (cases "key_at T p (ancestors ?z) = []")
    case False
    let ?f = "focus_node ?z" and ?anc = "ancestors ?z" and ?key = "key_at T p (ancestors ?z)"
    have l: "\<forall>l c. node_get_child ?f ?key = Some (l, c) \<longrightarrow> l = length ?key" using f(9)[OF False] by simp
    note link = sibling_link[OF f(6,1) False assms(2) l]
    note sib = stands_sibling(1,2)[OF f(6,1) False assms(2)]
    have run: "z_to_prev_sibling_byte S z =
        (case node_branch ?f (butlast ?key) (prev_branch T p) of
           (Some b, Some child_node) \<Rightarrow>
             (Some b, z_push_node child_node (?z\<lparr>prefix_buf := set_last b (prefix_buf ?z), focus_iter_token := NODE_ITER_INVALID\<rparr>))
         | (Some b, None) \<Rightarrow>
             (Some b, ?z\<lparr>prefix_buf := set_last b (prefix_buf ?z), focus_iter_token := NODE_ITER_INVALID\<rparr>)
         | (None, _) \<Rightarrow> (None, ?z))"
      using root False by (simp add: z_to_prev_sibling_byte_def z_to_sibling_def Let_def f(10) link(1))
    show thesis
    proof (cases "prev_branch T p")
      case None
      then show ?thesis using run ready by (intro goal) (simp_all add: node_branch_def branch_result_def)
    next
      case (Some b)
      show ?thesis
      proof (cases "node_get_child ?f (butlast ?key @ [b])")
        case None
        have "rz_ready S T (?z\<lparr>prefix_buf := tv_buf T (butlast p @ [b]), focus_iter_token := NODE_ITER_INVALID\<rparr>) (butlast p @ [b])"
          using sib[of "[b]"] None f(3,4) by (simp add: rz_ready_iff rz_static_def)
        then show ?thesis using run Some None by (intro goal) (simp_all add: node_branch_def branch_result_def buf)
      next
        case r: (Some r)
        obtain l c where lc: "r = (l, c)" by (cases r)
        have g: "node_get_child ?f (key_at T (butlast p @ [b]) ?anc) = Some (length (key_at T (butlast p @ [b]) ?anc), c)"
          using r link(2)[of b] by (simp add: sib(2) lc)
        have ne: "key_at T (butlast p @ [b]) ?anc \<noteq> []" by (simp add: sib(2))
        from stands_enter[OF sib(1) f(1) ne g tok_ok_INVALID] f(3,4)
        have "rz_ready S T (z_push_node c (?z\<lparr>prefix_buf := tv_buf T (butlast p @ [b]), focus_iter_token := NODE_ITER_INVALID\<rparr>)) (butlast p @ [b])"
          by (simp add: rz_ready_iff rz_static_def z_push_node_def)
        then show ?thesis using run Some r by (intro goal) (simp_all add: node_branch_def branch_result_def buf lc)
      qed
    qed
  next
    case True
    obtain n t rest where anc: "ancestors ?z = (n, t, length (tv_buf T p)) # rest" using rz_key_Nil[OF ready assms(2) True] .
    note pop = stands_pop[OF f(6)[unfolded anc] f(1) refl]
    let ?key = "key_at T p rest"
    have par: "z_parent_key ?z = ?key"
      using rz_parent(1)[OF rz_ready_pos[OF ready] anc] by (simp add: subrange_alt key_at_def)
    have l: "\<forall>l c. node_get_child n ?key = Some (l, c) \<longrightarrow> l = length ?key" using pop(4) by simp
    note link = sibling_link[OF pop(1) f(1) pop(2) assms(2) l]
    note sib = stands_sibling(1,2)[OF pop(1) f(1) pop(2) assms(2)]
    have run: "z_to_prev_sibling_byte S z =
        (case node_branch n (butlast ?key) (prev_branch T p) of
           (Some b, Some child_node) \<Rightarrow>
             (Some b, ?z\<lparr>prefix_buf := set_last b (prefix_buf ?z), focus_node := child_node,
                focus_iter_token := NODE_ITER_INVALID, ancestors := (n, NODE_ITER_INVALID, length (tv_buf T p)) # rest\<rparr>)
         | (Some b, None) \<Rightarrow>
             (Some b, ?z\<lparr>prefix_buf := set_last b (prefix_buf ?z), focus_node := n,
                focus_iter_token := NODE_ITER_INVALID, ancestors := rest\<rparr>)
         | (None, _) \<Rightarrow> (None, ?z))"
      using root True by (simp add: z_to_prev_sibling_byte_def z_to_sibling_def Let_def f(10) link(1) anc par del: length_append)
    show thesis
    proof (cases "prev_branch T p")
      case None
      then show ?thesis using run ready by (intro goal) (simp_all add: node_branch_def branch_result_def)
    next
      case (Some b)
      have len: "length (tv_buf T p) = length (tv_buf T (butlast p @ [b]))" using assms(2) by (cases p rule: rev_cases) auto
      show ?thesis
      proof (cases "node_get_child n (butlast ?key @ [b])")
        case None
        have "rz_ready S T (?z\<lparr>prefix_buf := tv_buf T (butlast p @ [b]), focus_node := n,
                focus_iter_token := NODE_ITER_INVALID, ancestors := rest\<rparr>) (butlast p @ [b])"
          using sib[of "[b]"] None f(3,4) by (simp add: rz_ready_iff rz_static_def)
        then show ?thesis using run Some None by (intro goal) (simp_all add: node_branch_def branch_result_def buf)
      next
        case r: (Some r)
        obtain l' c where lc: "r = (l', c)" by (cases r)
        have g: "node_get_child n (key_at T (butlast p @ [b]) rest) = Some (length (key_at T (butlast p @ [b]) rest), c)"
          using r link(2)[of b] by (simp add: sib(2) lc)
        have ne: "key_at T (butlast p @ [b]) rest \<noteq> []" by (simp add: sib(2))
        from stands_enter[OF sib(1) f(1) ne g tok_ok_INVALID] f(3,4)
        have "rz_ready S T (?z\<lparr>prefix_buf := tv_buf T (butlast p @ [b]), focus_node := c,
                focus_iter_token := NODE_ITER_INVALID,
                ancestors := (n, NODE_ITER_INVALID, length (tv_buf T (butlast p @ [b]))) # rest\<rparr>) (butlast p @ [b])"
          by (simp add: rz_ready_iff rz_static_def)
        then show ?thesis using run Some r unfolding len by (intro goal) (simp_all add: node_branch_def branch_result_def buf lc)
      qed
    qed
  qed
qed

subsection \<open>Ascending\<close>

lemma rz_truncate:
  assumes "rz_open S T z p" "0 < m" "m \<le> length (key_at T p (ancestors z))" "m \<le> length p"
  obtains z' where "z_reascend_iter_token m (z\<lparr>prefix_buf := take (length (prefix_buf z) - m) (prefix_buf z)\<rparr>) = Ret z'"
    "rz_ready S T z' (take (length p - m) p)" "ancestors z' = ancestors z" "focus_node z' = focus_node z"
proof -
  let ?f = "focus_node z" and ?anc = "ancestors z" and ?key = "key_at T p (ancestors z)" and ?p = "take (length p - m) p"
  note f = rz_open_facts[OF assms(1)] and b = stands_bounds[OF rz_open_facts(6,1)[OF assms(1)]]
  have buf: "take (length (prefix_buf z) - m) (prefix_buf z) = tv_buf T ?p" using assms(4) f(5) by simp
  have ks: "key_start_of (tv_start T) ?anc \<le> length (tv_buf T p) - m" using b(2,3) assms(3) by linarith
  have st: "stands S T ?p ?anc ?f"
    by (rule stands_replace[OF f(6,1), where m = "length (tv_buf T p) - m"]) (use ks assms(4) in auto)
  have key: "key_at T ?p ?anc = take (length ?key - m) ?key"
  proof -
    have "key_at T ?p ?anc = drop (key_start_of (tv_start T) ?anc) (take (length (tv_buf T p) - m) (tv_buf T p))"
      using assms(4) by (simp add: key_at_def)
    also have "\<dots> = take (length ?key - m) ?key" unfolding b(3) unfolding key_at_def drop_take by (simp only: diff_commute)
    finally show ?thesis .
  qed
  have link: "key_at T ?p ?anc \<noteq> [] \<longrightarrow> node_get_child ?f (key_at T ?p ?anc) = None"
  proof (intro impI, rule ccontr)
    assume ne: "key_at T ?p ?anc \<noteq> []" and "node_get_child ?f (key_at T ?p ?anc) \<noteq> None"
    then obtain l c where g: "node_get_child ?f (key_at T ?p ?anc) = Some (l, c)" by auto
    have "prefix (key_at T ?p ?anc) ?key" unfolding key by (rule take_is_prefix)
    then have "node_get_child ?f ?key = Some (l, c)" "l \<le> length (key_at T ?p ?anc)"
      using node_get_child_prefix[OF f(7) _ ne] g by auto
    then show False using rz_open_link[OF assms(1)] assms(2,3) unfolding key by fastforce
  qed
  have ready: "rz_ready S T (z\<lparr>prefix_buf := tv_buf T ?p, focus_iter_token := t\<rparr>) ?p"
    if "tok_ok S ?f (key_at T ?p ?anc) t" for t
    using that st link f(3,4) by (simp add: rz_ready_iff rz_static_def)
  consider (inv) "focus_iter_token z = NODE_ITER_INVALID"
    | (non) "focus_iter_token z \<noteq> NODE_ITER_INVALID" "node_iter_token_is_nonexistent (focus_iter_token z)"
    | (at) "focus_iter_token z \<noteq> NODE_ITER_INVALID" "\<not> node_iter_token_is_nonexistent (focus_iter_token z)"
    by blast
  then show thesis
  proof cases
    case inv
    have same: "z\<lparr>prefix_buf := tv_buf T ?p, focus_iter_token := focus_iter_token z\<rparr> = z\<lparr>prefix_buf := tv_buf T ?p\<rparr>"
      by simp
    have "rz_ready S T (z\<lparr>prefix_buf := tv_buf T ?p\<rparr>) ?p"
      using ready[of "focus_iter_token z"] tok_ok_INVALID unfolding same inv[symmetric] by blast
    then show ?thesis using inv by (intro that[of "z\<lparr>prefix_buf := tv_buf T ?p\<rparr>"])
      (simp_all add: z_reascend_iter_token_def buf)
  next
    case non
    then show ?thesis using ready[OF tok_ok_INVALID]
      by (intro that[of "z\<lparr>prefix_buf := tv_buf T ?p, focus_iter_token := NODE_ITER_INVALID\<rparr>"])
        (simp_all add: z_reascend_iter_token_def buf)
  next
    case at
    then have node_at: "node_at S ?f ?key (focus_iter_token z)" using f(8) by (simp add: tok_ok_def)
    note ok = cursor_ok_wf[OF f(2,7)]
    have "on_items (node_items ?f) ?key" using cursor.at_exists[OF ok node_at] at(2) by simp
    from cursor.ascend_at[OF ok node_at this assms(2,3)] obtain t
      where t: "node_ascend_iter_token ?f (focus_iter_token z) m = Ret t" "node_at S ?f (key_at T ?p ?anc) t"
      unfolding key by blast
    have "tok_ok S ?f (key_at T ?p ?anc) t" using t(2) by (simp add: tok_ok_def)
    from ready[OF this] show ?thesis using at t(1)
      by (intro that[of "z\<lparr>prefix_buf := tv_buf T ?p, focus_iter_token := t\<rparr>"])
        (simp_all add: z_reascend_iter_token_def buf)
  qed
qed

lemma rz_excess:
  assumes "rz_ready S T z p"
  shows "ancestors z = [] \<Longrightarrow> z_excess_key_len z = length p"
    "ancestors z \<noteq> [] \<Longrightarrow> z_excess_key_len z = length (key_at T p (ancestors z))"
    "z_excess_key_len z \<le> length p" "z_excess_key_len z \<le> length (key_at T p (ancestors z))"
proof -
  note f = rz_ready_facts[OF assms]
  note b = stands_bounds[OF f(6,1)]
  have s: "tv_start T \<le> length (tv_origin T)" using f(1) by (simp add: tv_ok_def)
  show e1: "ancestors z = [] \<Longrightarrow> z_excess_key_len z = length p"
    using f(3,5) by (simp add: z_excess_key_len_def rz_static_def)
  show e2: "ancestors z \<noteq> [] \<Longrightarrow> z_excess_key_len z = length (key_at T p (ancestors z))"
    using b(3) f(5) by (cases "ancestors z") (auto simp: z_excess_key_len_def)
  show "z_excess_key_len z \<le> length p"
    using e1 e2 b(3) rz_above_root[OF rz_ready_pos[OF assms]] by (cases "ancestors z = []") auto
  show "z_excess_key_len z \<le> length (key_at T p (ancestors z))"
    using e1 e2 b(3) s by (cases "ancestors z = []") auto
qed

lemma rz_open_pos: "rz_open S T z p \<Longrightarrow> rz_pos S T z p"
  by (auto simp: rz_open_def rz_pos_def rz_static_def stands_def key_at_def focus_key_def)

lemma rz_pop_or_stay:
  assumes "rz_ready S T z p" "p \<noteq> []"
  defines "z1 \<equiv> if z_excess_key_len z = 0 then z_ascend_across_nodes z else z"
  shows "rz_open S T z1 p" "\<not> (z_excess_key_len z = 0 \<and> ancestors z = [])" "0 < z_excess_key_len z1"
    "z_excess_key_len z1 \<le> length (key_at T p (ancestors z1))" "z_excess_key_len z1 \<le> length p"
proof -
  note ex = rz_excess[OF assms(1)] and f = rz_ready_facts[OF assms(1)]
  show not_end: "\<not> (z_excess_key_len z = 0 \<and> ancestors z = [])" using ex(1) assms(2) by auto
  have key0: "z_excess_key_len z = 0 \<longleftrightarrow> key_at T p (ancestors z) = []"
  proof
    assume "z_excess_key_len z = 0"
    then show "key_at T p (ancestors z) = []" using ex(2) not_end by auto
  next
    assume "key_at T p (ancestors z) = []"
    then show "z_excess_key_len z = 0" using ex(4) by simp
  qed
  show op: "rz_open S T z1 p"
    using rz_open_pop[OF assms(1,2)] rz_open_self[OF assms(1)] key0 by (auto simp: z1_def)
  note fo = rz_open_facts[OF op]
  note b = stands_bounds[OF fo(6,1)]
  have s: "tv_start T \<le> length (tv_origin T)" using fo(1) by (simp add: tv_ok_def)
  have above: "length (tv_origin T) < key_start_of (tv_start T) (ancestors z1)" if "ancestors z1 \<noteq> []"
    by (rule rz_above_root[OF rz_open_pos[OF op] that])
  have e: "z_excess_key_len z1 = (if ancestors z1 = [] then length p else length (key_at T p (ancestors z1)))"
    using fo(3,5) b(3) by (cases "ancestors z1") (auto simp: z_excess_key_len_def rz_static_def)
  show "0 < z_excess_key_len z1" using e fo(9) assms(2) by simp
  show "z_excess_key_len z1 \<le> length (key_at T p (ancestors z1))" using e b(3) s by (auto split: if_splits)
  show "z_excess_key_len z1 \<le> length p" using e b(3) above by (auto split: if_splits)
qed

lemma rz_ascend_loop:
  assumes "rz_ready S T z p"
  shows "\<exists>z'. z_ascend_loop n z = Ret (n - length p, z') \<and> rz_ready S T z' (take (length p - n) p)"
  using assms
proof (induction "n + length p" arbitrary: n p z rule: less_induct)
  case less
  show ?case
  proof (cases "n = 0 \<or> p = []")
    case True
    have "ancestors z = []" "z_excess_key_len z = 0" if "p = []"
      using that rz_excess(3)[OF less.prems] rz_above_root[OF rz_ready_pos[OF less.prems]]
        stands_bounds(2)[OF rz_ready_facts(6,1)[OF less.prems]] by fastforce+
    then show ?thesis using True less.prems by (cases "n = 0") (simp_all add: z_ascend_loop.simps[of n z] z_ascend_loop.simps[of 0 z])
  next
    case False
    then have n: "0 < n" "p \<noteq> []" by auto
    note po = rz_pop_or_stay[OF less.prems n(2)]
    define z1 where "z1 = (if z_excess_key_len z = 0 then z_ascend_across_nodes z else z)"
    define m where "m = min n (z_excess_key_len z1)"
    have m: "0 < m" "m \<le> length (key_at T p (ancestors z1))" "m \<le> length p" "m \<le> n"
      using po n(1) by (auto simp: m_def z1_def)
    obtain z2 where z2: "z_reascend_iter_token m (z1\<lparr>prefix_buf := take (length (prefix_buf z1) - m) (prefix_buf z1)\<rparr>) = Ret z2"
      "rz_ready S T z2 (take (length p - m) p)"
      using rz_truncate[OF po(1) _ _ m(3)] m(1,2) unfolding z1_def by metis
    have "z_ascend_loop n z = z_ascend_loop (n - m) z2"
      using n(1) po(2) po(3)[folded z1_def] m(1) z2(1) by (auto simp add: z_ascend_loop.simps[of n z] Let_def z1_def[symmetric] m_def[symmetric])
    moreover have "\<exists>z'. z_ascend_loop (n - m) z2 = Ret (n - m - length (take (length p - m) p), z') \<and>
        rz_ready S T z' (take (length (take (length p - m) p) - (n - m)) (take (length p - m) p))"
      by (rule less.hyps[OF _ z2(2)]) (use m n in auto)
    ultimately show ?thesis using m by (auto simp: min_def split: if_splits)
  qed
qed

lemma rz_ascend:
  assumes "rz_reg S T z p"
  obtains z' where "z_ascend n z = Ret (min n (length p), z')" "rz_reg S T z' (take (length p - n) p)"
proof (cases "p = []")
  case True
  then show ?thesis using that[of z] assms rz_depth(2)[OF rz_pos_reg[OF assms]] by (simp add: z_ascend_def)
next
  case False
  then have "rz_ready S T z p" using assms by (auto simp: rz_ready_def rz_reg_iff split: if_splits)
  from rz_ascend_loop[OF this, of n] obtain z' where
    "z_ascend_loop n z = Ret (n - length p, z')" "rz_ready S T z' (take (length p - n) p)" by blast
  then show ?thesis using that[of z'] False rz_depth(2)[OF rz_pos_reg[OF assms]]
    by (simp add: z_ascend_def rz_ready_def min_def)
qed

lemma rz_ascend_byte:
  assumes "rz_reg S T z p"
  obtains z' where "z_ascend_byte z = Ret (p \<noteq> [], z')" "rz_reg S T z' (butlast p)"
proof (cases "p = []")
  case True
  then show ?thesis using that[of z] assms rz_depth(2)[OF rz_pos_reg[OF assms]] by (simp add: z_ascend_byte_def)
next
  case False
  then have ready: "rz_ready S T z p" using assms by (auto simp: rz_ready_def rz_reg_iff split: if_splits)
  note po = rz_pop_or_stay[OF ready False]
  define z1 where "z1 = (if z_excess_key_len z = 0 then z_ascend_across_nodes z else z)"
  obtain z2 where z2: "z_reascend_iter_token 1 (z1\<lparr>prefix_buf := take (length (prefix_buf z1) - 1) (prefix_buf z1)\<rparr>) = Ret z2"
    "rz_ready S T z2 (take (length p - 1) p)"
    by (rule rz_truncate[OF po(1)[folded z1_def], of 1]) (use po(3-5)[folded z1_def] False in \<open>auto simp: Suc_le_eq\<close>)
  then show ?thesis using that[of z2] False po(2) rz_depth(2)[OF rz_pos_reg[OF assms]]
    by (simp add: z_ascend_byte_def z1_def[symmetric] Let_def butlast_conv_take rz_ready_def)
qed

lemma rz_reset:
  assumes "rz_reg S T z p"
  shows "rz_reg S T (z_reset z) []"
proof -
  have chain: "chain S base start buf anc focus \<Longrightarrow>
      (case anc of [] \<Rightarrow> focus | as \<Rightarrow> fst (last as)) = base" for base start buf anc and focus :: "'a node"
  proof (induction anc arbitrary: focus)
    case (Cons a anc)
    then show ?case by (cases a; cases anc) (auto simp: Let_def)
  qed simp
  have st: "stands S T p (ancestors z) (focus_node z)" and T: "tv_ok S T" "rz_static S T z"
    using assms by (auto simp: rz_reg_iff rz_static_def)
  have base: "(case ancestors z of [] \<Rightarrow> focus_node z | as \<Rightarrow> fst (last as)) = tv_base T"
    using chain st by (simp add: stands_def)
  have key: "key_at T [] [] = tv_key T" by (simp add: key_at_def tv_key_def)
  show ?thesis
    using assms T unfolding rz_reg_iff
    by (simp add: z_reset_def base key tv_ok_def rz_static_def stands_def)
qed

subsection \<open>Ascending to a branch or a value\<close>

lemma ln_prior_branch:
  assumes "wf_list ln" "key \<noteq> []"
  shows "prefix (ln_prior_branch_key ln key) key" "length (ln_prior_branch_key ln key) < length key"
    "(q, p) \<in> slots_of ln \<Longrightarrow> strict_prefix q key \<Longrightarrow> length q \<le> length (ln_prior_branch_key ln key)"
proof -
  have len: "0 < length key" using assms(2) by simp
  have pre: "take (length k) key = k \<Longrightarrow> prefix k key" for k by (metis take_is_prefix)
  show "prefix (ln_prior_branch_key ln key) key"
    using pre by (auto simp: ln_prior_branch_key_def Let_def take_is_prefix split: prod.splits)
  show "length (ln_prior_branch_key ln key) < length key"
    using len Suc_lessI[of 0 "length key"] by (auto simp: ln_prior_branch_key_def Let_def min_less_iff_disj split: prod.splits)
  have strict: "strict_prefix k key \<longleftrightarrow> length k < length key \<and> take (length k) key = k" for k
    by (auto simp: strict_prefix_def prefix_def append_eq_conv_conj) (metis append_take_drop_id)
  assume q: "(q, p) \<in> slots_of ln" "strict_prefix q key"
  show "length q \<le> length (ln_prior_branch_key ln key)"
    using assms(1)
  proof (cases rule: wf_list_cases)
    case (one k0 p0)
    then show ?thesis using q strict[of k0] by (auto simp: ln_prior_branch_key_def get_both_keys_def)
  next
    case (diff b0 r0 p0 b1 r1 p1)
    have sq: "length q < length key" "take (length q) key = q" using strict[of q] q(2) by simp_all
    have "q = b0 # r0 \<or> q = b1 # r1" using q(1) diff(1) by auto
    then show ?thesis
    proof
      assume q0: "q = b0 # r0"
      have "hd key = b0" using sq(2) len unfolding q0 by (cases key) auto
      then have "take (length (b1 # r1)) key \<noteq> b1 # r1" using len diff(3) by (cases key) auto
      then show ?thesis using sq by (simp add: ln_prior_branch_key_def get_both_keys_def diff(1) q0)
    next
      assume "q = b1 # r1"
      then show ?thesis using sq by (simp add: ln_prior_branch_key_def get_both_keys_def diff(1))
    qed
  next
    case (same b p0 p1)
    then show ?thesis using q strict[of "[b]"] by (auto simp: ln_prior_branch_key_def get_both_keys_def)
  next
    case (below b p0 r1 p1)
    then show ?thesis using q strict[of "[b]"] strict[of "b # r1"]
      by (auto simp: ln_prior_branch_key_def get_both_keys_def)
  qed (use q in simp)
qed

lemma ln_one_branch:
  assumes "slice_utils_ok S" "wf_list ln" "q \<noteq> []" "test_bit (ln_branches_mask S ln q) b" "test_bit (ln_branches_mask S ln q) c"
  shows "b = c"
  using assms(2)
proof (cases rule: wf_list_cases)
  case (diff b0 r0 p0 b1 r1 p1)
  then show ?thesis using assms(3-5) unfolding ln_branch_bytes_mem(1)[OF assms(1)]
    by (cases q) (auto simp: ln_branch_bytes_def key_branch_mem prefix_def split: if_splits)
next
  case (below b0 p0 r1 p1)
  then show ?thesis using assms(3-5) unfolding ln_branch_bytes_mem(1)[OF assms(1)]
    by (cases q) (auto simp: ln_branch_bytes_def key_branch_mem prefix_def split: if_splits)
qed (use assms(3-5) in \<open>auto simp: ln_branch_bytes_mem(1)[OF assms(1)] ln_branch_bytes_def key_branch_mem prefix_def split: if_splits\<close>)

lemma node_prior_branch:
  assumes "slice_utils_ok S" "wf_node n" "key \<noteq> []"
  defines "k \<equiv> node_prior_branch_key n key"
  shows "prefix k key" "length k < length key"
    "prefix q key \<Longrightarrow> length k < length q \<Longrightarrow> length q < length key \<Longrightarrow>
      node_get_val n q = None \<and> node_count_branches S n q \<le> 1"
proof -
  have strict: "prefix q key \<Longrightarrow> length q < length key \<Longrightarrow> strict_prefix q key" by (auto simp: strict_prefix_def)
  have *: "prefix k key \<and> length k < length key \<and>
    (prefix q key \<longrightarrow> length k < length q \<longrightarrow> length q < length key \<longrightarrow>
      node_get_val n q = None \<and> node_count_branches S n q \<le> 1)"
  proof (cases n)
    case EmptyN
    then show ?thesis using assms(3) by (simp add: k_def)
  next
    case (ListN ln)
    then have wl: "wf_list ln" using assms(2) by simp
    note pr = ln_prior_branch[OF wl assms(3)]
    have "node_get_val n q = None \<and> node_count_branches S n q \<le> 1"
      if q: "prefix q key" "length k < length q" "length q < length key"
    proof
      show "node_get_val n q = None"
        using pr(3)[of q "Val _"] strict[OF q(1,3)] q(2) ln_get_val_iff[of ln q]
        by (cases "ln_get_val ln q") (auto simp: ListN k_def assms(2)[unfolded ListN] wl)
      have "q \<noteq> []" using q(2) by auto
      then have "card {b. test_bit (node_branches_mask S n q) b} \<le> 1"
        using ln_one_branch[OF assms(1) wl] by (simp add: ListN card_le_Suc0_iff_eq)
      then show "node_count_branches S n q \<le> 1" by (simp add: node_count_branches_card[OF assms(1,2)])
    qed
    then show ?thesis using pr(1,2) by (simp add: ListN k_def)
  next
    case (ByteN bn)
    obtain b rest where key: "key = b # rest" using assms(3) by (cases key) auto
    have mask: "\<not> test_bit (bn_mask bn) b \<Longrightarrow> bn_get bn b = None"
      using bn_mask_get[of bn b] assms(2) by (simp add: ByteN)
    show ?thesis using mask
      by (cases q) (auto simp: ByteN k_def bn_prior_branch_key_def key bn_get_val_def bn_count_branches_def)
  qed
  then show "prefix k key" "length k < length key"
    "prefix q key \<Longrightarrow> length k < length q \<Longrightarrow> length q < length key \<Longrightarrow>
      node_get_val n q = None \<and> node_count_branches S n q \<le> 1" by auto
qed

text \<open>A path between the focus and the branch key: no value, and not more than one branch.\<close>

lemma stands_quiet:
  assumes "stands S T p anc f" "tv_ok S T" "key_at T p anc \<noteq> []" "node_get_child f (key_at T p anc) = None"
    "node_get_val f (key_at T p anc) = None" "node_count_branches S f (key_at T p anc) \<le> 1"
  shows "tv_get T p = None \<and> length (tv_branches T p) \<le> 1"
proof
  have T: "wf_node (tv_base T)" "tv_start T \<le> length (tv_buf T p)" "tv_start T \<le> length (tv_origin T)" "slice_utils_ok S"
    using assms(2) by (auto simp: tv_ok_def)
  note wf = stands_wf[OF assms(1,2)]
  have full: "tv_key T @ p = subrange (tv_start T) (key_start_of (tv_start T) anc) (tv_buf T p) @ key_at T p anc"
    using subrange_drop[OF stands_bounds(1,2)[OF assms(1,2)]] T(3) by (simp add: tv_key_def key_at_def)
  have "tv_key T @ p \<noteq> []" using assms(3) unfolding full by simp
  then have "tv_get T p = den (tv_base T) (tv_key T @ p)" by (auto simp: tv_get_def)
  also have "\<dots> = den f (key_at T p anc)"
    unfolding full using chain_focus[OF assms(1)[unfolded stands_def] T(1,2)] assms(3) by blast
  also have "\<dots> = node_get_val f (key_at T p anc)"
    using node_val_at[OF wf assms(3)] assms(4) by simp
  finally show "tv_get T p = None" using assms(5) by simp
  have "length (tv_branches T p) = card {b. test_bit (node_branches_mask S f (key_at T p anc)) b}"
    using stands_mask[OF assms(1,2)] assms(4) by (simp add: tv_branches_length tv_branches(2))
  then show "length (tv_branches T p) \<le> 1" using assms(6) node_count_branches_card[OF T(4) wf] by simp
qed

lemma rz_ascend_within_node:
  assumes "rz_open S T z p" "p \<noteq> []"
  obtains m z' where "z_ascend_within_node z = Ret (m, z')" "0 < m" "m \<le> length p" "rz_ready S T z' (take (length p - m) p)"
    "\<And>j. length p - m < j \<Longrightarrow> j < length p \<Longrightarrow> tv_get T (take j p) = None \<and> length (tv_branches T (take j p)) \<le> 1"
proof -
  let ?f = "focus_node z" and ?anc = "ancestors z" and ?key = "key_at T p (ancestors z)"
  let ?ks = "key_start_of (tv_start T) (ancestors z)" and ?k = "node_prior_branch_key (focus_node z) (key_at T p (ancestors z))"
  note f = rz_open_facts[OF assms(1)] and b = stands_bounds[OF rz_open_facts(6,1)[OF assms(1)]]
  note pr = node_prior_branch[OF f(2,7,9)]
  have org: "origin_path z = tv_origin T" using f(3) by (simp add: rz_static_def)
  define new_len where "new_len = max (length (tv_origin T)) (?ks + length ?k)"
  define m where "m = length (tv_buf T p) - new_len"
  have lt: "new_len < length (tv_buf T p)" using assms(2) pr(2) b(2,3) unfolding new_len_def by (auto simp: max_def)
  have m: "0 < m" "m \<le> length ?key" "m \<le> length p" "new_len = length (tv_buf T p) - m"
    using lt b(3) unfolding m_def by (auto simp: new_len_def)
  obtain z' where z': "z_reascend_iter_token m (z\<lparr>prefix_buf := take (length (prefix_buf z) - m) (prefix_buf z)\<rparr>) = Ret z'"
    "rz_ready S T z' (take (length p - m) p)"
    using rz_truncate[OF assms(1) m(1-3)] by metis
  have "z_ascend_within_node z = Ret (m, z')"
    using z'(1) m(1) unfolding z_ascend_within_node_def Let_def f(10,11) org new_len_def[symmetric]
    by (simp add: f(5) m(4)[symmetric] m_def[symmetric, simplified])
      (simp add: m_def)
  moreover have "tv_get T (take j p) = None \<and> length (tv_branches T (take j p)) \<le> 1"
    if j: "length p - m < j" "j < length p" for j
  proof -
    let ?q = "take j p"
    have len: "length (tv_buf T ?q) = length (tv_origin T) + j" using j(2) by simp
    have above: "?ks + length ?k < length (tv_origin T) + j" using j(1) m(3,4) by (auto simp: new_len_def)
    have st: "stands S T ?q ?anc ?f"
      by (rule stands_replace[OF f(6,1), where m = "length (tv_buf T ?q)"]) (use above len j in auto)
    have key: "key_at T ?q ?anc = take (length (tv_origin T) + j - ?ks) ?key"
    proof -
      have "key_at T ?q ?anc = drop ?ks (take (length (tv_origin T) + j) (tv_buf T p))"
        by (simp add: key_at_def)
      then show ?thesis by (simp only: drop_take key_at_def)
    qed
    have klen: "length (key_at T ?q ?anc) = length (tv_origin T) + j - ?ks"
      using stands_bounds(3)[OF st f(1)] len by simp
    have pre: "prefix (key_at T ?q ?anc) ?key" "length ?k < length (key_at T ?q ?anc)" "length (key_at T ?q ?anc) < length ?key"
      unfolding klen using above b(3) j(2) by (auto simp: key take_is_prefix)
    have ne: "key_at T ?q ?anc \<noteq> []" using pre(2) by auto
    have "node_get_child ?f (key_at T ?q ?anc) = None"
    proof (rule ccontr)
      assume "\<not> ?thesis"
      then obtain l c where g: "node_get_child ?f (key_at T ?q ?anc) = Some (l, c)" by auto
      then have "node_get_child ?f ?key = Some (l, c)" "l \<le> length (key_at T ?q ?anc)"
        using node_get_child_prefix[OF f(7) pre(1) ne] by auto
      then show False using rz_open_link[OF assms(1)] pre(3) by fastforce
    qed
    then show ?thesis by (rule stands_quiet[OF st f(1) ne]) (use pr(3)[OF pre] in simp_all)
  qed
  ultimately show ?thesis using that[OF _ m(1,3) z'(2)] by blast
qed

definition ascend_stop :: "'v trie_view \<Rightarrow> bool \<Rightarrow> path \<Rightarrow> bool" where
  "ascend_stop T at_vals q \<longleftrightarrow> q = [] \<or> 1 < length (tv_branches T q) \<or> at_vals \<and> tv_get T q \<noteq> None"

lemma rz_ascend_until_loop:
  assumes "rz_ready S T z p" "p \<noteq> []"
  shows "\<exists>n z'. z_ascend_until_loop S at_vals a z = Some (Ret (a + n, z')) \<and> 0 < n \<and> n \<le> length p \<and>
    rz_ready S T z' (take (length p - n) p) \<and> ascend_stop T at_vals (take (length p - n) p) \<and>
    (\<forall>j. length p - n < j \<longrightarrow> j < length p \<longrightarrow> \<not> ascend_stop T at_vals (take j p))"
  using assms
proof (induction "length p" arbitrary: p z a rule: less_induct)
  case less
  define z0 where "z0 = (if length (z_node_key z) = 0 then z_ascend_across_nodes z else z)"
  have op: "rz_open S T z0 p"
    using rz_open_pop[OF less.prems] rz_open_self[OF less.prems(1)] rz_ready_facts(10)[OF less.prems(1)] by (auto simp: z0_def)
  obtain m z1 where m: "z_ascend_within_node z0 = Ret (m, z1)" "0 < m" "m \<le> length p" "rz_ready S T z1 (take (length p - m) p)"
    and quiet: "\<And>j. length p - m < j \<Longrightarrow> j < length p \<Longrightarrow> tv_get T (take j p) = None \<and> length (tv_branches T (take j p)) \<le> 1"
    using rz_ascend_within_node[OF op less.prems(2)] by metis
  let ?p = "take (length p - m) p"
  have no_stop: "\<not> ascend_stop T at_vals (take j p)" if "length p - m < j" "j < length p" for j
    using quiet[OF that] that by (auto simp: ascend_stop_def)
  have stop: "1 < z_child_count S z1 \<or> (at_vals \<and> z_is_val z1) \<or> z_at_root z1 \<longleftrightarrow> ascend_stop T at_vals ?p"
    using rz_child_mask(2)[OF rz_ready_reg[OF m(4)]] rz_is_val[OF rz_ready_pos[OF m(4)]] rz_depth(2)[OF rz_ready_pos[OF m(4)]]
    by (auto simp: ascend_stop_def tv_branches_length)
  have step: "z_ascend_until_loop S at_vals a z =
      (if ascend_stop T at_vals ?p then Some (Ret (a + m, z1)) else z_ascend_until_loop S at_vals (a + m) z1)"
    by (subst z_ascend_until_loop.simps) (simp only: z0_def[symmetric] Let_def m(1) outcome.case prod.case stop)
  show ?case
  proof (cases "ascend_stop T at_vals ?p")
    case True
    then show ?thesis using step m no_stop by (intro exI[of _ m] exI[of _ z1]) auto
  next
    case False
    then have ne: "?p \<noteq> []" by (auto simp: ascend_stop_def)
    obtain n z' where n: "z_ascend_until_loop S at_vals (a + m) z1 = Some (Ret (a + m + n, z'))" "0 < n" "n \<le> length ?p"
      "rz_ready S T z' (take (length ?p - n) ?p)" "ascend_stop T at_vals (take (length ?p - n) ?p)"
      and no: "\<And>j. length ?p - n < j \<Longrightarrow> j < length ?p \<Longrightarrow> \<not> ascend_stop T at_vals (take j ?p)"
      using less.hyps[OF _ m(4) ne, of "a + m"] m(2,3) less.prems(2) by auto
    have p': "take (length ?p - n) ?p = take (length p - (m + n)) p" 
    proof -
      have "length ?p = length p - m" by simp
      then show ?thesis unfolding take_take by (simp add: min_absorb1)
    qed
    have "\<not> ascend_stop T at_vals (take j p)" if j: "length p - (m + n) < j" "j < length p" for j
    proof (cases "j \<le> length p - m")
      case True
      show ?thesis
      proof (cases "j = length p - m")
        case j_eq: True
        then show ?thesis using False by simp
      next
        case False
        then show ?thesis using no[of j] True j(1) m(3) n(3) by (simp add: min_def split: if_splits)
      qed
    next
      case False
      then show ?thesis using no_stop j by simp
    qed
    then show ?thesis using step False n(1,2,3) n(4,5)[unfolded p'] m(2,3)
      by (intro exI[of _ "m + n"] exI[of _ z']) (auto simp: add.assoc)
  qed
qed

lemma rz_ascend_until:
  assumes "rz_reg S T z p"
  shows "\<exists>n z'. (if at_vals then z_ascend_until S z else z_ascend_until_branch S z) = Some (Ret (n, z')) \<and>
    (n = 0 \<longleftrightarrow> p = []) \<and> n \<le> length p \<and> rz_reg S T z' (take (length p - n) p) \<and> ascend_stop T at_vals (take (length p - n) p) \<and>
    (\<forall>j. length p - n < j \<longrightarrow> j < length p \<longrightarrow> \<not> ascend_stop T at_vals (take j p))"
proof (cases "p = []")
  case True
  then show ?thesis using assms rz_depth(2)[OF rz_pos_reg[OF assms]]
    by (auto simp: z_ascend_until_def z_ascend_until_branch_def ascend_stop_def)
next
  case False
  then have ready: "rz_ready S T z p" using assms by (auto simp: rz_ready_def rz_reg_iff split: if_splits)
  obtain n z' where n: "z_ascend_until_loop S at_vals 0 z = Some (Ret (0 + n, z'))" "0 < n" "n \<le> length p"
    "rz_ready S T z' (take (length p - n) p)" "ascend_stop T at_vals (take (length p - n) p)"
    "\<forall>j. length p - n < j \<longrightarrow> j < length p \<longrightarrow> \<not> ascend_stop T at_vals (take j p)"
    using rz_ascend_until_loop[OF ready False, of at_vals 0] by blast
  have "(if at_vals then z_ascend_until S z else z_ascend_until_branch S z) = z_ascend_until_loop S at_vals 0 z"
    using False rz_depth(2)[OF rz_pos_reg[OF assms]] by (simp add: z_ascend_until_def z_ascend_until_branch_def)
  then show ?thesis using n False rz_ready_reg[OF n(4)] by (intro exI[of _ n] exI[of _ z']) auto
qed

end
