(* ===== verification/Read_Zipper_Iter.thy ===== *)
theory Read_Zipper_Iter
  imports Read_Zipper_Laws
begin

text \<open>
  Iterating values: \<open>to_next_get_val_observed\<close> moves the zipper to the next path with a value, in the
  order of the paths, and back to its root when there is none; the loop ends; an observer that started
  with the old path holds the new one.
\<close>

subsection \<open>Positions in the middle of an iteration\<close>

text \<open>As \<open>rz_ready\<close>, but the focus node may be above a link at the focus.\<close>

definition rz_any :: "slice_utils \<Rightarrow> 'v trie_view \<Rightarrow> 'v read_zipper \<Rightarrow> path \<Rightarrow> bool" where
  "rz_any S T z p \<longleftrightarrow> rz_static S T z \<and> buffers_allocated z \<and> prefix_buf z = tv_buf T p \<and>
     stands S T p (ancestors z) (focus_node z) \<and>
     tok_ok S (focus_node z) (key_at T p (ancestors z)) (focus_iter_token z) \<and>
     (key_at T p (ancestors z) \<noteq> [] \<longrightarrow>
       (\<forall>l c. node_get_child (focus_node z) (key_at T p (ancestors z)) = Some (l, c) \<longrightarrow> l = length (key_at T p (ancestors z))))"

definition is_open :: "'v trie_view \<Rightarrow> 'v read_zipper \<Rightarrow> path \<Rightarrow> bool" where
  "is_open T z p \<longleftrightarrow> key_at T p (ancestors z) \<noteq> [] \<and> node_get_child (focus_node z) (key_at T p (ancestors z)) \<noteq> None"

text \<open>The values still to come: all after the focus, without those below a link already finished.\<close>

definition todo :: "'v trie_view \<Rightarrow> 'v read_zipper \<Rightarrow> path \<Rightarrow> path set" where
  "todo T z p = {q. tv_get T q \<noteq> None \<and> path_less p q \<and> (is_open T z p \<longrightarrow> \<not> prefix p q)}"

lemma rz_any_ready: "rz_ready S T z p \<Longrightarrow> rz_any S T z p"
  by (auto simp: rz_any_def rz_ready_iff)

lemma todo_ready: "rz_ready S T z p \<Longrightarrow> todo T z p = {q. tv_get T q \<noteq> None \<and> path_less p q}"
  by (auto simp: todo_def is_open_def rz_ready_iff)

lemma rz_any_facts:
  assumes "rz_any S T z p"
  shows "tv_ok S T" "slice_utils_ok S" "rz_static S T z" "buffers_allocated z" "prefix_buf z = tv_buf T p"
    "stands S T p (ancestors z) (focus_node z)" "wf_node (focus_node z)"
    "tok_ok S (focus_node z) (key_at T p (ancestors z)) (focus_iter_token z)"
    "z_node_key z = key_at T p (ancestors z)" "z_node_key_start z = key_start_of (tv_start T) (ancestors z)"
proof -
  show T: "tv_ok S T" "slice_utils_ok S" "rz_static S T z" "buffers_allocated z" "prefix_buf z = tv_buf T p"
    "stands S T p (ancestors z) (focus_node z)"
    "tok_ok S (focus_node z) (key_at T p (ancestors z)) (focus_iter_token z)"
    using assms by (auto simp: rz_any_def rz_static_def tv_ok_def)
  show "wf_node (focus_node z)" by (rule stands_wf[OF T(6,1)])
  have pos: "rz_pos S T z p" using assms
    by (auto simp: rz_any_def rz_pos_def rz_static_def stands_def key_at_def focus_key_def)
  show "z_node_key_start z = key_start_of (tv_start T) (ancestors z)" by (rule rz_node_key(1)[OF pos])
  show "z_node_key z = key_at T p (ancestors z)" unfolding rz_node_key(2)[OF pos] by (simp add: focus_key_def key_at_def)
qed

lemma rz_any_link:
  assumes "rz_any S T z p" "key_at T p (ancestors z) \<noteq> []"
    "node_get_child (focus_node z) (key_at T p (ancestors z)) = Some (l, c)"
  shows "l = length (key_at T p (ancestors z))"
  using assms by (simp add: rz_any_def)

lemma rz_any_token:
  assumes "rz_any S T z p"
  shows "rz_any S T (z_with_token S z) p"
    "node_at S (focus_node z) (key_at T p (ancestors z)) (focus_iter_token (z_with_token S z))"
    "focus_node (z_with_token S z) = focus_node z" "ancestors (z_with_token S z) = ancestors z"
    "todo T (z_with_token S z) p = todo T z p"
proof -
  note f = rz_any_facts[OF assms]
  have at: "node_at S (focus_node z) (key_at T p (ancestors z)) (node_iter_token_for_path S (focus_node z) (key_at T p (ancestors z)))"
    by (rule cursor.for_path_at[OF cursor_ok_wf[OF f(2,7)]])
  then show "node_at S (focus_node z) (key_at T p (ancestors z)) (focus_iter_token (z_with_token S z))"
    using f(8,9) by (auto simp: z_with_token_def tok_ok_def)
  then show "rz_any S T (z_with_token S z) p"
    using assms f(9) at by (auto simp: z_with_token_def rz_any_def rz_static_def tok_ok_def)
qed (simp_all add: z_with_token_def todo_def is_open_def)

text \<open>Paths under the focus node: the same bytes up to its key.\<close>

definition within :: "'v trie_view \<Rightarrow> ('v node \<times> u64 \<times> nat) list \<Rightarrow> path \<Rightarrow> path \<Rightarrow> bool" where
  "within T anc p q \<longleftrightarrow> key_start_of (tv_start T) anc \<le> length (tv_buf T q) \<and>
     take (key_start_of (tv_start T) anc) (tv_buf T p) = take (key_start_of (tv_start T) anc) (tv_buf T q)"

lemma stands_within:
  assumes "stands S T p anc f" "tv_ok S T" "within T anc p q"
  shows "stands S T q anc f"
  by (rule stands_replace[OF assms(1,2)]) (use assms(3) in \<open>auto simp: within_def\<close>)

lemma within_less:
  assumes "within T anc p q"
  shows "path_less p q \<longleftrightarrow> path_less (key_at T p anc) (key_at T q anc)"
    "prefix p q \<longleftrightarrow> prefix (key_at T p anc) (key_at T q anc)" "p = q \<longleftrightarrow> key_at T p anc = key_at T q anc"
proof -
  let ?ks = "key_start_of (tv_start T) anc"
  obtain x where x: "tv_buf T p = x @ key_at T p anc" "tv_buf T q = x @ key_at T q anc"
    using assms append_take_drop_id[of ?ks "tv_buf T p"] append_take_drop_id[of ?ks "tv_buf T q"]
    unfolding within_def key_at_def by metis
  have "path_less p q \<longleftrightarrow> path_less (tv_buf T p) (tv_buf T q)" by simp
  then show "path_less p q \<longleftrightarrow> path_less (key_at T p anc) (key_at T q anc)" unfolding x by simp
  have "prefix p q \<longleftrightarrow> prefix (tv_buf T p) (tv_buf T q)" by simp
  then show "prefix p q \<longleftrightarrow> prefix (key_at T p anc) (key_at T q anc)" unfolding x by simp
  have "p = q \<longleftrightarrow> tv_buf T p = tv_buf T q" by simp
  then show "p = q \<longleftrightarrow> key_at T p anc = key_at T q anc" unfolding x by simp
qed

lemma stands_get:
  assumes "stands S T p anc f" "tv_ok S T" "key_at T p anc \<noteq> []"
  shows "tv_get T p = den f (key_at T p anc)"
proof -
  have T: "wf_node (tv_base T)" "tv_start T \<le> length (tv_buf T p)" "tv_start T \<le> length (tv_origin T)"
    using assms(2) by (auto simp: tv_ok_def)
  have full: "tv_key T @ p = subrange (tv_start T) (key_start_of (tv_start T) anc) (tv_buf T p) @ key_at T p anc"
    using subrange_drop[OF stands_bounds(1,2)[OF assms(1,2)]] T(3) by (simp add: tv_key_def key_at_def)
  have "tv_key T @ p \<noteq> []" using assms(3) unfolding full by simp
  then have "tv_get T p = den (tv_base T) (tv_key T @ p)" by (auto simp: tv_get_def)
  also have "\<dots> = den f (key_at T p anc)"
    unfolding full using chain_focus[OF assms(1)[unfolded stands_def] T(1,2)] assms(3) by blast
  finally show ?thesis .
qed

lemma node_den_item:
  assumes "wf_node n" "den n g = Some v"
  shows "\<exists>i \<in> set (node_items n). prefix (fst i) g \<and> (fst i = g \<or> (\<exists>c. node_get_child n (fst i) = Some (length (fst i), c)))"
proof -
  have g: "g \<noteq> []" using assms wf_den_Nil[of n] by auto
  consider (below) l c where "node_get_child n g = Some (l, c)" "l < length g"
    | (here) "\<And>l c. node_get_child n g = Some (l, c) \<Longrightarrow> \<not> l < length g" by blast
  then show ?thesis
  proof cases
    case below
    obtain w where w: "(take l g, Some c, w) \<in> set (node_items n)" using node_child_item[OF assms(1) g below(1)] by blast
    then show ?thesis using item_link[OF assms(1) w] by (intro bexI[OF _ w]) (auto simp: take_is_prefix)
  next
    case here
    have "node_get_val n g = den n g" by (rule node_here[OF assms(1) g]) (use here in blast)
    then obtain c where c: "(g, c, Some v) \<in> set (node_items n)" using node_val_item[OF assms(1)] assms(2) by metis
    then show ?thesis by (intro bexI[OF _ c]) simp
  qed
qed

text \<open>A value after the key, below the node: it is at or below an item after the key, or below a link at the key.\<close>

lemma value_after_key:
  assumes "wf_node n" "den n g = Some v" "path_less key g"
    "key \<noteq> [] \<longrightarrow> (\<forall>l c. node_get_child n key = Some (l, c) \<longrightarrow> l = length key)"
  shows "(key \<noteq> [] \<and> node_get_child n key \<noteq> None \<and> prefix key g) \<or>
    (\<exists>i \<in> set (node_items n). path_less key (fst i) \<and> prefix (fst i) g)"
proof -
  obtain j where j: "j \<in> set (node_items n)" "prefix (fst j) g"
    "fst j = g \<or> (\<exists>c. node_get_child n (fst j) = Some (length (fst j), c))"
    using node_den_item[OF assms(1,2)] by blast
  have ne: "fst j \<noteq> []" using j(1) cursor.items_nonempty[OF cursor_ok_wf[OF std_slice_utils_ok assms(1)]] by blast
  consider "path_less key (fst j)" | "fst j = key" | "path_less (fst j) key" using path_less_linear by blast
  then show ?thesis
  proof cases
    case 1
    then show ?thesis using j by blast
  next
    case 2
    then have "fst j \<noteq> g" using assms(3) by auto
    then show ?thesis using j 2 ne by auto
  next
    case 3
    then have pre: "prefix (fst j) key" using path_less_between[OF j(2) 3 assms(3)] by simp
    have "fst j \<noteq> g" using 3 assms(3) path_less_trans by fastforce
    then obtain c where c: "node_get_child n (fst j) = Some (length (fst j), c)" using j(3) by blast
    then have "node_get_child n key = Some (length (fst j), c)" using node_get_child_prefix[OF assms(1) pre ne] by simp
    moreover have "key \<noteq> []" using pre ne by auto
    ultimately have "length (fst j) = length key" using assms(4) by blast
    then have "fst j = key" using pre by (auto simp: prefix_def)
    then show ?thesis using 3 by simp
  qed
qed

lemma no_item_below_link:
  assumes "wf_node n" "key \<noteq> []" "node_get_child n key = Some (length key, c)" "i \<in> set (node_items n)" "prefix key (fst i)"
  shows "fst i = key"
proof -
  obtain k c' v where i: "i = (k, c', v)" by (cases i)
  have "node_get_child n k = Some (length key, c)"
    using node_get_child_prefix[OF assms(1,5,2), of "length key" c] assms(3) by (simp add: i)
  then have "length k = length key" using item_link[OF assms(1), of k c' v] assms(4) by (cases c') (auto simp: i)
  then show ?thesis using assms(5) by (auto simp: i prefix_def)
qed

subsection \<open>The work that is left\<close>

function node_work :: "'v node \<Rightarrow> nat" where
  "node_work n = (\<Sum>i \<leftarrow> node_items n. 2 + (case fst (snd i) of Some c \<Rightarrow> if size c < size n then node_work c else 0 | None \<Rightarrow> 0))"
  by pat_completeness auto
termination by (relation "measure size") auto

declare node_work.simps [simp del]

definition item_work :: "'v node \<Rightarrow> ('v node, 'v) item \<Rightarrow> nat" where
  "item_work n i = 2 + (case fst (snd i) of Some c \<Rightarrow> if size c < size n then node_work c else 0 | None \<Rightarrow> 0)"

definition work_after :: "'v node \<Rightarrow> path \<Rightarrow> nat" where
  "work_after n key = sum_list (map (item_work n) (filter (\<lambda>i. path_less key (fst i)) (node_items n)))"

fun anc_work :: "nat \<Rightarrow> path \<Rightarrow> ('v node \<times> u64 \<times> nat) list \<Rightarrow> nat" where
  "anc_work start buf [] = 0"
| "anc_work start buf ((n, _, i) # anc) = Suc (work_after n (subrange (key_start_of start anc) i buf) + anc_work start buf anc)"

definition rz_work :: "'v trie_view \<Rightarrow> 'v read_zipper \<Rightarrow> path \<Rightarrow> nat" where
  "rz_work T z p = work_after (focus_node z) (key_at T p (ancestors z)) + anc_work (tv_start T) (tv_buf T p) (ancestors z)"

lemma node_work_after:
  assumes "slice_utils_ok S" "wf_node n"
  shows "node_work n = work_after n []"
proof -
  have "filter (\<lambda>i. path_less [] (fst i)) (node_items n) = node_items n"
    using cursor.items_nonempty[OF cursor_ok_wf[OF assms]] by (simp add: filter_id_conv)
  moreover have "node_work n = sum_list (map (item_work n) (node_items n))"
    unfolding node_work.simps[of n] by (intro arg_cong[where f = sum_list] map_cong) (simp_all add: item_work_def)
  ultimately show ?thesis unfolding work_after_def by simp
qed

lemma work_after_item:
  assumes "slice_utils_ok S" "wf_node n" "next_item (node_items n) key False = Some i"
  shows "work_after n key = item_work n i + work_after n (fst i)"
  unfolding work_after_def next_item_filter(2)[OF cursor_sorted[OF assms(1,2)] assms(3)] by simp

lemma item_work_child:
  assumes "slice_utils_ok S" "wf_node n" "(k, Some c, v) \<in> set (node_items n)"
  shows "item_work n (k, Some c, v) = 2 + work_after c []"
  using node_item_wf[OF assms(2,3)] node_work_after[OF assms(1), of c] by (simp add: item_work_def)

lemma anc_work_cong:
  assumes "chain S base start buf anc f" "take m buf = take m buf'" "key_start_of start anc \<le> m"
  shows "anc_work start buf anc = anc_work start buf' anc"
  using assms
proof (induction anc arbitrary: f)
  case (Cons a anc)
  obtain n t i where a: "a = (n, t, i)" by (cases a)
  have c: "key_start_of start anc < i" "chain S base start buf anc n" using Cons.prems(1) by (simp_all add: a Let_def)
  have i: "i \<le> m" using Cons.prems(3) by (simp add: a)
  have eq: "subrange (key_start_of start anc) i buf = subrange (key_start_of start anc) i buf'"
    by (rule subrange_cong[OF Cons.prems(2) i])
  have ks: "key_start_of start anc \<le> m" using c(1) i by simp
  show ?case using Cons.IH[OF c(2) Cons.prems(2) ks] by (simp add: a eq)
qed simp

subsection \<open>One turn of the loop\<close>

definition replay :: "observer \<Rightarrow> path \<Rightarrow> path" where
  "replay evs p = foldl observe_vec p evs"

lemma replay_simps [simp]:
  "replay [] p = p" "replay (e # evs) p = replay evs (observe_vec p e)" "replay (a @ b) p = replay b (replay a p)"
  by (simp_all add: replay_def)

text \<open>The root key: an item of the root node that does not continue it is outside the zipper.\<close>

definition outside :: "'v trie_view \<Rightarrow> ('v node \<times> u64 \<times> nat) list \<Rightarrow> path \<Rightarrow> bool" where
  "outside T anc k \<longleftrightarrow> anc = [] \<and> \<not> prefix (tv_key T) k"

definition item_path :: "'v trie_view \<Rightarrow> ('v node \<times> u64 \<times> nat) list \<Rightarrow> path \<Rightarrow> path \<Rightarrow> path" where
  "item_path T anc p k = drop (length (tv_origin T)) (take (key_start_of (tv_start T) anc) (tv_buf T p) @ k)"

lemma rz_any_above:
  assumes "rz_any S T z p" "ancestors z \<noteq> []"
  shows "length (tv_origin T) < key_start_of (tv_start T) (ancestors z)"
  by (rule rz_above_root[OF _ assms(2)])
    (use assms(1) in \<open>auto simp: rz_any_def rz_pos_def rz_static_def stands_def key_at_def focus_key_def\<close>)

lemma item_path:
  assumes "rz_any S T z p" "\<not> outside T (ancestors z) k"
  shows "tv_buf T (item_path T (ancestors z) p k) = take (key_start_of (tv_start T) (ancestors z)) (tv_buf T p) @ k"
    "within T (ancestors z) p (item_path T (ancestors z) p k)"
    "key_at T (item_path T (ancestors z) p k) (ancestors z) = k"
proof -
  let ?ks = "key_start_of (tv_start T) (ancestors z)"
  note f = rz_any_facts[OF assms(1)]
  have b: "?ks \<le> length (tv_buf T p)" by (rule stands_bounds(2)[OF f(6,1)])
  show buf: "tv_buf T (item_path T (ancestors z) p k) = take ?ks (tv_buf T p) @ k"
  proof (cases "ancestors z = []")
    case True
    then obtain w where w: "k = tv_key T @ w" using assms(2) by (auto simp: outside_def prefix_def)
    have s: "tv_start T \<le> length (tv_origin T)" using f(1) by (simp add: tv_ok_def)
    have "take (tv_start T) (tv_origin T) @ tv_key T = tv_origin T" by (simp add: tv_key_def)
    then have "take ?ks (tv_buf T p) @ k = tv_origin T @ w" using s by (simp add: True w)
    then show ?thesis unfolding item_path_def by simp
  next
    case False
    have "length (tv_origin T) < ?ks" by (rule rz_any_above[OF assms(1) False])
    then show ?thesis by (simp add: item_path_def)
  qed
  show "within T (ancestors z) p (item_path T (ancestors z) p k)"
    unfolding within_def buf using b by (simp add: min_def)
  show "key_at T (item_path T (ancestors z) p k) (ancestors z) = k"
    unfolding key_at_def buf using b by (simp add: min_def)
qed

lemma todo_inside:
  assumes "rz_any S T z p" "q \<in> todo T z p" "within T (ancestors z) p q"
  shows "\<exists>i \<in> set (node_items (focus_node z)). path_less (key_at T p (ancestors z)) (fst i) \<and> prefix (fst i) (key_at T q (ancestors z))"
proof -
  note f = rz_any_facts[OF assms(1)] and less = within_less[OF assms(3)]
  have q: "tv_get T q \<noteq> None" "path_less p q" "is_open T z p \<Longrightarrow> \<not> prefix p q" using assms(2) by (auto simp: todo_def)
  have kless: "path_less (key_at T p (ancestors z)) (key_at T q (ancestors z))" using q(2) less(1) by simp
  then have "key_at T q (ancestors z) \<noteq> []" by auto
  then obtain v where "den (focus_node z) (key_at T q (ancestors z)) = Some v"
    using stands_get[OF stands_within[OF f(6,1) assms(3)] f(1)] q(1) by auto
  from value_after_key[OF f(7) this kless] show ?thesis
    using q(3) less(2) assms(1) unfolding is_open_def rz_any_def by blast
qed

text \<open>With no stack, every path of the zipper is under the root node.\<close>

lemma within_root: "tv_ok S T \<Longrightarrow> within T [] p q"
  by (simp add: within_def tv_ok_def)

lemma key_at_root: "tv_ok S T \<Longrightarrow> key_at T q [] = tv_key T @ q"
  by (simp add: key_at_def tv_key_def tv_ok_def)

text \<open>What one turn does: it goes on with less work and the same values to come, or it is at the next
  value, or nothing is left and it is at the root.\<close>

definition turn_ok ::
  "slice_utils \<Rightarrow> 'v trie_view \<Rightarrow> 'v read_zipper \<Rightarrow> path \<Rightarrow> ('v read_zipper + 'v option \<times> 'v read_zipper) \<Rightarrow> observer \<Rightarrow> bool" where
  "turn_ok S T z p r evs \<longleftrightarrow>
     (case r of
        Inl z' \<Rightarrow> rz_any S T z' (replay evs p) \<and> todo T z' (replay evs p) = todo T z p \<and>
          rz_work T z' (replay evs p) < rz_work T z p
      | Inr (None, z') \<Rightarrow> todo T z p = {} \<and> rz_ready S T z' [] \<and> replay evs p = []
      | Inr (Some v, z') \<Rightarrow> rz_ready S T z' (replay evs p) \<and> tv_get T (replay evs p) = Some v \<and>
          replay evs p \<in> todo T z p \<and> (\<forall>q \<in> todo T z p. q = replay evs p \<or> path_less (replay evs p) q))"

lemma less_across:
  assumes "path_less (x @ u) q" "\<not> prefix x q"
  shows "path_less (x @ w) q"
proof (rule ccontr)
  assume "\<not> path_less (x @ w) q"
  then have "path_less q (x @ w)" using assms(2) path_less_linear[of "x @ w" q] by (auto simp: prefix_def)
  moreover have "path_less x q"
  proof (cases "u = []")
    case False
    then have "path_less x (x @ u)" by (intro path_less_strict_prefix) (auto simp: prefix_def)
    then show ?thesis using assms(1) path_less_trans by blast
  qed (use assms(1) in simp)
  ultimately show False using path_less_between[of x "x @ w" q] assms(2) by (simp add: prefix_def)
qed

lemma take_prefix_iff:
  assumes "a \<le> length xs"
  shows "a \<le> length ys \<and> take a xs = take a ys \<longleftrightarrow> prefix (take a xs) ys"
proof
  assume "a \<le> length ys \<and> take a xs = take a ys"
  then show "prefix (take a xs) ys" by (metis take_is_prefix)
next
  assume "prefix (take a xs) ys"
  then obtain w where "ys = take a xs @ w" by (auto simp: prefix_def)
  then show "a \<le> length ys \<and> take a xs = take a ys" using assms by simp
qed

lemma not_within_less:
  assumes "within T anc p p'" "\<not> within T anc p q" "path_less p q" "key_start_of (tv_start T) anc \<le> length (tv_buf T p)"
  shows "path_less p' q"
proof -
  let ?ks = "key_start_of (tv_start T) anc"
  let ?x = "take ?ks (tv_buf T p)"
  have x: "tv_buf T p = ?x @ drop ?ks (tv_buf T p)" "tv_buf T p' = ?x @ drop ?ks (tv_buf T p')"
    using assms(1) unfolding within_def by (metis append_take_drop_id)+
  have "\<not> prefix ?x (tv_buf T q)" using assms(2) unfolding within_def take_prefix_iff[OF assms(4)] .
  moreover have "path_less (?x @ drop ?ks (tv_buf T p)) (tv_buf T q)" using assms(3) x(1) by (metis path_less_append)
  ultimately have "path_less (?x @ drop ?ks (tv_buf T p')) (tv_buf T q)" using less_across by blast
  then show ?thesis using x(2) by (metis path_less_append)
qed

text \<open>Ending at the root.\<close>

lemma rz_ready_root:
  assumes "rz_static S T z" "buffers_allocated z" "prefix_buf z = tv_origin T" "ancestors z = []"
    "focus_node z = tv_base T" "focus_iter_token z = NODE_ITER_INVALID"
  shows "rz_ready S T z []"
  using assms by (auto simp: rz_ready_iff stands_def rz_static_def tv_ok_def key_at_def tv_key_def)

lemma no_items_left:
  assumes "rz_any S T z p" "next_item (node_items (focus_node z)) (key_at T p (ancestors z)) False = None"
  shows "q \<in> todo T z p \<Longrightarrow> \<not> within T (ancestors z) p q"
proof -
  note f = rz_any_facts[OF assms(1)]
  show "q \<in> todo T z p \<Longrightarrow> \<not> within T (ancestors z) p q"
    using todo_inside[OF assms(1)] next_item_cases(1)[OF cursor_sorted[OF f(2,7)] assms(2)] by (auto simp: after_False)
qed

text \<open>Back to the node above: the focus is at its link.\<close>

lemma rz_pop:
  assumes z: "rz_any S T z p" and anc: "ancestors z = (n, t, i) # anc"
  defines "p' \<equiv> take (i - length (tv_origin T)) p"
    and "z' \<equiv> z\<lparr>ancestors := anc, focus_node := n, focus_iter_token := t, prefix_buf := take i (prefix_buf z)\<rparr>"
  shows "rz_any S T z' p'" "is_open T z' p'" "rz_work T z' p' < rz_work T z p" "length (tv_origin T) < i"
    "i \<le> length (tv_buf T p)" "within T (ancestors z) p q \<longleftrightarrow> prefix p' q"
proof -
  note f = rz_any_facts[OF z]
  let ?s = "key_start_of (tv_start T) anc"
  let ?key = "subrange ?s i (tv_buf T p)"
  show up: "length (tv_origin T) < i" using rz_any_above[OF z] anc by simp
  have c: "?s < i" "i \<le> length (tv_buf T p)" "node_get_child n ?key = Some (length ?key, focus_node z)" "tok_ok S n ?key t"
    "chain S (tv_base T) (tv_start T) (tv_buf T p) anc n"
    using f(6) unfolding stands_def anc by (simp_all add: Let_def)
  show "i \<le> length (tv_buf T p)" by (rule c(2))
  have buf: "tv_buf T p' = take i (tv_buf T p)" using up by (simp add: p'_def)
  have s0: "tv_start T \<le> length (tv_buf T p)" using f(1) by (simp add: tv_ok_def)
  have st: "stands S T p' anc n"
    unfolding stands_def buf by (rule chain_cong[OF c(5) s0, of i]) (use c in \<open>simp_all del: take_append length_append\<close>)
  have key: "key_at T p' anc = ?key" unfolding key_at_def buf by (simp add: subrange_alt)
  have "length ?key = i - ?s" using c(2) by simp
  then have key_ne: "?key \<noteq> []" using c(1) by (metis list.size(3) zero_less_diff less_irrefl)
  show "rz_any S T z' p'"
    using f(3,4,5) st c key by (simp add: rz_any_def z'_def rz_static_def buf)
  show "is_open T z' p'" using c(3) key key_ne by (simp add: is_open_def z'_def)
  have "prefix p' q \<longleftrightarrow> prefix (tv_buf T p') (tv_buf T q)" by simp
  also have "\<dots> \<longleftrightarrow> within T (ancestors z) p q" unfolding buf within_def anc
    using take_prefix_iff[OF c(2), of "tv_buf T q"] by (simp del: take_append length_append)
  finally show "within T (ancestors z) p q \<longleftrightarrow> prefix p' q" by simp
  show "rz_work T z' p' < rz_work T z p"
    using anc_work_cong[OF c(5), of i "take i (tv_buf T p)"] c(1) unfolding rz_work_def anc
    by (simp add: z'_def key buf del: take_append)
qed

text \<open>What is still to come when nothing under the focus node is.\<close>

definition ahead :: "'v trie_view \<Rightarrow> 'v read_zipper \<Rightarrow> path \<Rightarrow> path \<Rightarrow> bool" where
  "ahead T z p q \<longleftrightarrow> path_less p q \<and> (is_open T z p \<longrightarrow> \<not> prefix p q)"

lemma pop_ahead:
  assumes "prefix p' p" "is_open T z' p'" "ahead T z p q \<Longrightarrow> \<not> prefix p' q"
  shows "ahead T z' p' q \<longleftrightarrow> ahead T z p q"
proof
  assume q: "ahead T z p q"
  then have "path_less p' q"
    using path_less_strict_prefix[OF assms(1)] path_less_trans unfolding ahead_def by blast
  then show "ahead T z' p' q" using assms(3)[OF q] by (simp add: ahead_def)
next
  assume q: "ahead T z' p' q"
  then have np: "\<not> prefix p' q" using assms(2) by (simp add: ahead_def)
  obtain w where w: "p = p' @ w" using assms(1) by (auto simp: prefix_def)
  have "path_less (p' @ w) q" using less_across[of p' "[]" q w] q np by (simp add: ahead_def)
  then show "ahead T z p q" using w np assms(1) prefix_order.trans unfolding ahead_def by blast
qed

lemma turn_ascend:
  assumes z: "rz_any S T z p"
    and none: "next_item (node_items (focus_node z)) (key_at T p (ancestors z)) False = None"
  shows "\<exists>r evs. z_next_val_ascend z obs = (r, obs @ evs) \<and> turn_ok S T z p r evs"
proof (cases "ancestors z")
  case Nil
  note f = rz_any_facts[OF z]
  have "todo T z p = {}" using no_items_left[OF z none] within_root[OF f(1)] unfolding Nil by blast
  moreover have "focus_node z = tv_base T" using f(6) by (simp add: stands_def Nil)
  then have "rz_ready S T (z\<lparr>focus_iter_token := NODE_ITER_INVALID, prefix_buf := tv_origin T\<rparr>) []"
    using f(3,4) Nil by (intro rz_ready_root) (auto simp: rz_static_def)
  ultimately show ?thesis using f(3,5) Nil
    by (auto simp: z_next_val_ascend_def turn_ok_def Let_def rz_static_def)
next
  case (Cons a anc)
  obtain n t i where a: "a = (n, t, i)" by (cases a)
  note f = rz_any_facts[OF z] and anc = Cons[unfolded a]
  note pop = rz_pop[OF z anc]
  let ?p = "take (i - length (tv_origin T)) p"
  let ?z = "z\<lparr>ancestors := anc, focus_node := n, focus_iter_token := t, prefix_buf := take i (prefix_buf z)\<rparr>"
  have "q \<in> todo T ?z ?p \<longleftrightarrow> q \<in> todo T z p" for q
  proof (cases "tv_get T q")
    case (Some v)
    have "ahead T z p q \<Longrightarrow> \<not> prefix ?p q" using no_items_left[OF z none, of q] pop(6) Some by (simp add: todo_def ahead_def)
    from pop_ahead[OF take_is_prefix pop(2) this] show ?thesis by (simp add: todo_def ahead_def Some)
  qed (simp add: todo_def)
  moreover have "replay [Ascended (length (prefix_buf z) - i)] p = ?p"
    using pop(4,5) unfolding f(5) by (simp add: diff_diff_eq)
  ultimately show ?thesis using pop(1,3)
    by (intro exI[of _ "Inl ?z"] exI[of _ "[Ascended (length (prefix_buf z) - i)]"])
      (auto simp: z_next_val_ascend_def anc turn_ok_def)
qed

lemma sum_filter_item:
  fixes g :: "'a \<Rightarrow> nat"
  assumes "x \<in> set xs" "P x" "\<not> Q x" "\<And>y. Q y \<Longrightarrow> P y"
  shows "g x + sum_list (map g (filter Q xs)) \<le> sum_list (map g (filter P xs))"
  using assms(1)
proof (induction xs)
  case (Cons y xs)
  have "sum_list (map g (filter Q ys)) \<le> sum_list (map g (filter P ys))" for ys
    by (induction ys) (use assms(4) in auto)
  from this[of xs] show ?case using Cons assms(2-4) by (cases "y = x") auto
qed simp

lemma work_after_less:
  assumes "i \<in> set (node_items n)" "path_less key (fst i)"
  shows "item_work n i + work_after n (fst i) \<le> work_after n key"
  unfolding work_after_def
  by (rule sum_filter_item[OF assms(1)]) (use assms(2) path_less_trans path_less_irrefl in blast)+

text \<open>On to an item after the key.\<close>

lemma enter_item:
  assumes z: "rz_any S T z p" and mem: "(k, c, v) \<in> set (node_items (focus_node z))"
    and less: "path_less (key_at T p (ancestors z)) k"
    and t': "node_at S (focus_node z) k t'" and ins: "\<not> outside T (ancestors z) k"
  defines "p' \<equiv> item_path T (ancestors z) p k"
    and "z' \<equiv> z_enter_item t' c (z\<lparr>focus_iter_token := t', prefix_buf := take (z_node_key_start z) (prefix_buf z) @ k\<rparr>)"
  shows "rz_ready S T z' p'" "rz_work T z' p' < rz_work T z p" "tv_get T p' = v" "path_less p p'"
    "stands S T p' (ancestors z) (focus_node z)" "is_open T z p \<Longrightarrow> \<not> prefix p p'"
proof -
  note f = rz_any_facts[OF z] and ip = item_path[OF z ins, folded p'_def]
  let ?f = "focus_node z" and ?anc = "ancestors z"
  have k: "k \<noteq> []" using less by auto
  have link: "node_get_child ?f k = map_option (\<lambda>c. (length k, c)) c" by (rule item_link[OF f(7) mem])
  show st: "stands S T p' ?anc ?f" by (rule stands_within[OF f(6,1) ip(2)])
  have buf: "take (z_node_key_start z) (prefix_buf z) @ k = tv_buf T p'" unfolding ip(1) f(5,10) ..
  show pp: "path_less p p'" using within_less(1)[OF ip(2)] less by (simp add: ip(3))
  show ready: "rz_ready S T z' p'"
  proof (cases c)
    case None
    then show ?thesis using f(3,4) st t' link k by (auto simp: z'_def z_enter_item_def rz_ready_iff buf ip(3) tok_ok_def rz_static_def)
  next
    case (Some ch)
    have wf: "wf_node ch" using node_item_wf[OF f(7)] mem Some by blast
    have key: "key_at T p' ?anc \<noteq> []" "node_get_child ?f (key_at T p' ?anc) = Some (length (key_at T p' ?anc), ch)"
      "tok_ok S ?f (key_at T p' ?anc) t'"
      using k link Some t' by (simp_all add: ip(3) tok_ok_def)
    show ?thesis using f(3,4) stands_enter[OF st f(1) key] new_token_ok[OF f(2) wf] Some
      by (simp add: z'_def z_enter_item_def rz_ready_iff buf rz_static_def del: length_append)
  qed
  have ac: "anc_work (tv_start T) (tv_buf T p) ?anc = anc_work (tv_start T) (tv_buf T p') ?anc"
    by (rule anc_work_cong[OF f(6)[unfolded stands_def], of "key_start_of (tv_start T) ?anc"])
      (use ip(2) in \<open>auto simp: within_def\<close>)
  have wi: "item_work ?f (k, c, v) + work_after ?f k \<le> work_after ?f (key_at T p ?anc)"
    using work_after_less[OF mem, of "key_at T p ?anc"] less by simp
  show "rz_work T z' p' < rz_work T z p"
  proof (cases c)
    case None
    then show ?thesis using wi unfolding rz_work_def ac by (simp add: z'_def z_enter_item_def ip(3) item_work_def)
  next
    case (Some ch)
    have "subrange (key_start_of (tv_start T) ?anc) (length (tv_buf T p')) (tv_buf T p') = k"
      using ip(3) unfolding key_at_def subrange_alt by (simp only: take_all order_refl)
    moreover have "drop (length (tv_buf T p')) (tv_buf T p') = []" by (rule drop_all) simp
    ultimately show ?thesis using wi item_work_child[OF f(2,7) mem[unfolded Some]] Some
      unfolding rz_work_def ac by (simp add: z'_def z_enter_item_def buf key_at_Cons del: length_append drop_append)
  qed
  have "node_get_val ?f k = den ?f k" by (rule node_val_at[OF f(7) k]) (use link in auto)
  moreover have "node_get_val ?f k = v" using node_item_get(1)[OF f(7) mem] by simp
  ultimately show val: "tv_get T p' = v" using stands_get[OF st f(1)] k by (simp add: ip(3))
  show "\<not> prefix p p'" if op: "is_open T z p"
  proof
    assume "prefix p p'"
    then have pk: "prefix (key_at T p ?anc) k" using within_less(2)[OF ip(2)] by (simp add: ip(3))
    obtain l ch where "node_get_child ?f (key_at T p ?anc) = Some (l, ch)" "key_at T p ?anc \<noteq> []" using op by (auto simp: is_open_def)
    then have "k = key_at T p ?anc"
      using no_item_below_link[OF f(7) _ _ mem] rz_any_link[OF z] pk by fastforce
    then show False using less by simp
  qed
qed

lemma turn_item:
  assumes z: "rz_any S T z p" and i: "next_item (node_items (focus_node z)) (key_at T p (ancestors z)) False = Some (k, c, v)"
    and t': "node_at S (focus_node z) k t'" and ins: "\<not> outside T (ancestors z) k"
  defines "p' \<equiv> item_path T (ancestors z) p k"
    and "z' \<equiv> z_enter_item t' c (z\<lparr>focus_iter_token := t', prefix_buf := take (z_node_key_start z) (prefix_buf z) @ k\<rparr>)"
  shows "rz_ready S T z' p'" "rz_work T z' p' < rz_work T z p" "tv_get T p' = v"
    "todo T z p = {q. tv_get T q \<noteq> None \<and> (q = p' \<or> path_less p' q)}"
proof -
  note f = rz_any_facts[OF z] and ip = item_path[OF z ins, folded p'_def]
  let ?f = "focus_node z" and ?anc = "ancestors z"
  note least = next_item_cases(2,3)[OF cursor_sorted[OF f(2,7)] i]
  have mem: "(k, c, v) \<in> set (node_items ?f)" and less: "path_less (key_at T p ?anc) k"
    using least(1) by (auto simp: after_False)
  note en = enter_item[OF z mem less t' ins, folded p'_def z'_def]
  show "rz_ready S T z' p'" "rz_work T z' p' < rz_work T z p" "tv_get T p' = v" by (rule en(1-3))+
  show "todo T z p = {q. tv_get T q \<noteq> None \<and> (q = p' \<or> path_less p' q)}"
  proof (intro set_eqI iffI)
    fix q assume q: "q \<in> todo T z p"
    show "q \<in> {q. tv_get T q \<noteq> None \<and> (q = p' \<or> path_less p' q)}"
    proof (cases "within T ?anc p q")
      case True
      have win': "within T ?anc p' q" using True ip(2) by (simp add: within_def)
      obtain j where j: "j \<in> set (node_items ?f)" "path_less (key_at T p ?anc) (fst j)" "prefix (fst j) (key_at T q ?anc)"
        using todo_inside[OF z q True] by blast
      have "j = (k, c, v) \<or> path_less k (fst j)" using least(2)[OF j(1)] j(2) by (simp add: after_False)
      then have "k = fst j \<or> path_less k (fst j)" by auto
      moreover have "fst j = key_at T q ?anc \<or> path_less (fst j) (key_at T q ?anc)"
        using path_less_strict_prefix[OF j(3)] by blast
      ultimately have "k = key_at T q ?anc \<or> path_less k (key_at T q ?anc)"
        using path_less_trans[of k "fst j" "key_at T q ?anc"] by metis
      then show ?thesis using within_less(1,3)[OF win'] q by (auto simp: ip(3) todo_def)
    next
      case False
      then show ?thesis using not_within_less[OF ip(2) False _ stands_bounds(2)[OF f(6,1)]] q by (auto simp: todo_def)
    qed
  next
    fix q assume q: "q \<in> {q. tv_get T q \<noteq> None \<and> (q = p' \<or> path_less p' q)}"
    have pq: "path_less p q" using en(4) path_less_trans q by blast
    have "\<not> prefix p q" if op: "is_open T z p"
    proof
      assume "prefix p q"
      then have "prefix p p'" using path_less_between[OF _ en(4), of q] q by blast
      then show False using en(6)[OF op] by simp
    qed
    then show "q \<in> todo T z p" using pq q by (auto simp: todo_def)
  qed
qed

lemma outside_done:
  assumes z: "rz_any S T z p" and i: "next_item (node_items (focus_node z)) (key_at T p (ancestors z)) False = Some i"
    and out: "outside T (ancestors z) (fst i)"
  shows "todo T z p = {}"
proof (rule ccontr)
  assume "todo T z p \<noteq> {}"
  then obtain q where q: "q \<in> todo T z p" by blast
  note f = rz_any_facts[OF z] and least = next_item_cases(2,3)[OF cursor_sorted[OF rz_any_facts(2,7)[OF z]] i]
  have anc: "ancestors z = []" "\<not> prefix (tv_key T) (fst i)" using out by (simp_all add: outside_def)
  note key = key_at_root[OF f(1)]
  obtain j where j: "j \<in> set (node_items (focus_node z))" "path_less (key_at T p []) (fst j)" "prefix (fst j) (key_at T q [])"
    using todo_inside[OF z q] within_root[OF f(1)] anc(1) by auto
  have "path_less (key_at T p []) (fst i)" using least(1) anc(1) by (simp add: after_False)
  moreover have "p \<noteq> [] \<Longrightarrow> path_less (tv_key T) (tv_key T @ p)" by (rule path_less_strict_prefix) auto
  ultimately have ki: "path_less (tv_key T) (fst i)" unfolding key using path_less_trans by (cases "p = []") auto
  have "j = i \<or> path_less (fst i) (fst j)" using least(2)[OF j(1)] j(2) anc(1) by (simp add: after_False)
  then have "fst i = fst j \<or> path_less (fst i) (fst j)" by auto
  moreover have "fst j = tv_key T @ q \<or> path_less (fst j) (tv_key T @ q)"
    using path_less_strict_prefix[OF j(3)] unfolding key by blast
  ultimately have "fst i = tv_key T @ q \<or> path_less (fst i) (tv_key T @ q)" using path_less_trans[of "fst i" "fst j" "tv_key T @ q"] by metis
  then show False using path_less_between[OF _ ki, of "tv_key T @ q"] anc(2) by (auto simp: prefix_def)
qed

text \<open>The test of \<open>to_next_get_val\<close> that the item continues the root key.\<close>

lemma outside_test:
  assumes "rz_any S T z p"
  shows "z_node_key_start z < length (origin_path z) \<and>
      (length k < length (origin_path z) - z_node_key_start z \<or>
       take (length (origin_path z) - z_node_key_start z) k \<noteq> subrange (z_node_key_start z) (length (origin_path z)) (prefix_buf z))
    \<longleftrightarrow> outside T (ancestors z) k"
proof -
  note f = rz_any_facts[OF assms]
  have o: "origin_path z = tv_origin T" using f(3) by (simp add: rz_static_def)
  show ?thesis
  proof (cases "ancestors z = []")
    case False
    then show ?thesis using rz_any_above[OF assms] by (simp add: outside_def f(10) o)
  next
    case True
    have l: "length (tv_origin T) - tv_start T = length (tv_key T)" by (simp add: tv_key_def)
    have s: "subrange (tv_start T) (length (tv_origin T)) (prefix_buf z) = tv_key T"
      unfolding f(5) by (rule tv_key_subrange[OF f(1)])
    have t: "tv_start T < length (tv_origin T) \<longleftrightarrow> tv_key T \<noteq> []" by (simp add: tv_key_def not_le)
    have "prefix (tv_key T) k \<longleftrightarrow> length (tv_key T) \<le> length k \<and> take (length (tv_key T)) k = tv_key T"
      using take_prefix_iff[of "length (tv_key T)" "tv_key T" k] by auto
    then show ?thesis unfolding o f(10) True key_start_of.simps l s t by (auto simp: outside_def)
  qed
qed

lemma item_observed:
  assumes "rz_any S T z p" "\<not> outside T (ancestors z) k"
  defines "ks \<equiv> z_node_key_start z" and "skip \<equiv> length (origin_path z) - z_node_key_start z"
  shows "replay (Ascended (length (prefix_buf z) - ks - skip) # (if skip \<le> length k then [Descended (drop skip k)] else [])) p =
    item_path T (ancestors z) p k"
proof -
  note f = rz_any_facts[OF assms(1)]
  have o: "origin_path z = tv_origin T" using f(3) by (simp add: rz_static_def)
  show ?thesis
  proof (cases "ancestors z = []")
    case True
    then obtain w where w: "k = tv_key T @ w" using assms(2) by (auto simp: outside_def prefix_def)
    have st: "tv_start T \<le> length (tv_origin T)" using f(1) by (simp add: tv_ok_def)
    have "length (tv_origin T) - tv_start T = length (tv_key T)" by (simp add: tv_key_def)
    moreover have "take (tv_start T) (tv_origin T) @ tv_key T = tv_origin T" by (simp add: tv_key_def)
    ultimately have "item_path T [] p k = w" "skip = length (tv_key T)" "length (prefix_buf z) - ks - skip = length p"
      unfolding item_path_def w skip_def ks_def f(5,10) o True using st by simp_all
    then show ?thesis by (simp add: w True)
  next
    case False
    have up: "length (tv_origin T) < ks" using rz_any_above[OF assms(1) False] by (simp add: ks_def f(10))
    have b: "ks \<le> length (tv_buf T p)" using stands_bounds(2)[OF f(6,1)] by (simp add: ks_def f(10))
    have "item_path T (ancestors z) p k = take (ks - length (tv_origin T)) p @ k"
      unfolding item_path_def f(10)[symmetric] ks_def[symmetric] using up by simp
    moreover have "skip = 0" using up by (simp add: skip_def ks_def o)
    moreover have "length p - (length (prefix_buf z) - ks) = ks - length (tv_origin T)" using up b by (simp add: f(5))
    ultimately show ?thesis by simp
  qed
qed

lemma turn_next:
  assumes z: "rz_any S T z p"
    and i: "next_item (node_items (focus_node z)) (key_at T p (ancestors z)) False = Some i"
    and t': "node_at S (focus_node z) (fst i) t'"
  shows "\<exists>r evs. z_next_val_item (t', i) z obs = (r, obs @ evs) \<and> turn_ok S T z p r evs"
proof -
  obtain k c v where k: "i = (k, c, v)" by (cases i)
  note f = rz_any_facts[OF z]
  have o: "origin_path z = tv_origin T" using f(3) by (simp add: rz_static_def)
  let ?z1 = "z\<lparr>focus_iter_token := t'\<rparr>"
  show ?thesis
  proof (cases "outside T (ancestors z) k")
    case True
    have "ancestors z = []" "focus_node z = tv_base T" using True f(6) by (auto simp: outside_def stands_def)
    then have "rz_ready S T (?z1\<lparr>prefix_buf := take (length (origin_path z)) (prefix_buf z), focus_iter_token := NODE_ITER_INVALID\<rparr>) []"
      using f(3,4,5) by (intro rz_ready_root) (auto simp: rz_static_def)
    moreover have "todo T z p = {}" using outside_done[OF z i] True by (simp add: k)
    ultimately show ?thesis using True outside_test[OF z, of k]
      by (intro exI[of _ "Inr (None, ?z1\<lparr>prefix_buf := take (length (origin_path z)) (prefix_buf z), focus_iter_token := NODE_ITER_INVALID\<rparr>)"]
          exI[of _ "[Ascended (length p)]"])
        (simp add: z_next_val_item_def k turn_ok_def Let_def o f(5))
  next
    case False
    note ti = turn_item[OF z i[unfolded k] t'[unfolded k fst_conv] False]
    let ?z3 = "z_enter_item t' c (?z1\<lparr>prefix_buf := take (z_node_key_start z) (prefix_buf z) @ k\<rparr>)"
    let ?evs = "Ascended (length (prefix_buf z) - z_node_key_start z - (length (origin_path z) - z_node_key_start z)) #
      (if length (origin_path z) - z_node_key_start z \<le> length k then [Descended (drop (length (origin_path z) - z_node_key_start z) k)] else [])"
    let ?r = "case v of Some x \<Rightarrow> Inr (Some x, ?z3) | None \<Rightarrow> Inl ?z3"
    have "z_next_val_item (t', i) z obs = (?r, obs @ ?evs)"
      unfolding z_next_val_item_def k Let_def split_conv key_start_update
      using outside_test[OF z, of k] False by (cases v) (simp_all del: length_append)
    moreover have "turn_ok S T z p ?r ?evs"
      unfolding turn_ok_def item_observed[OF z False]
      using ti todo_ready[OF ti(1)] rz_any_ready[OF ti(1)] by (cases v) auto
    ultimately show ?thesis by blast
  qed
qed

lemma turn_step:
  assumes "rz_any S T z p"
  shows "\<exists>r evs. z_next_val_step S z obs = Ret (r, obs @ evs) \<and> turn_ok S T z p r evs"
proof -
  let ?z = "z_with_token S z"
  note wt = rz_any_token[OF assms]
  note f = rz_any_facts[OF wt(1)]
  note ok = cursor_ok_wf[OF f(2,7)]
  have at: "node_at S (focus_node ?z) (key_at T p (ancestors ?z)) (focus_iter_token ?z)" using wt by simp
  have same: "turn_ok S T ?z p r evs = turn_ok S T z p r evs" for r evs
    unfolding turn_ok_def wt(5) rz_work_def wt(3,4) ..
  show ?thesis
  proof (cases "next_item (node_items (focus_node ?z)) (key_at T p (ancestors ?z)) False")
    case None
    have "z_next_val_step S z obs = Ret (z_next_val_ascend ?z obs)"
      using cursor.next_finished[OF ok at None] by (simp add: z_next_val_step_def Let_def)
    then show ?thesis using turn_ascend[OF wt(1) None, of obs] same by auto
  next
    case (Some i)
    obtain t' where t': "node_next_items (focus_node ?z) (focus_iter_token ?z) False = Ret (t', i)" "node_at S (focus_node ?z) (fst i) t'"
      using cursor.next_found[OF ok at Some] by blast
    have "\<not> TOKEN_LAST \<le> focus_iter_token ?z" using cursor.at_last[OF ok at, of False] Some by auto
    then have "z_next_val_step S z obs = Ret (z_next_val_item (t', i) ?z obs)"
      using t'(1) cursor.at_ordinary[OF ok t'(2)] by (simp add: z_next_val_step_def Let_def not_le)
    then show ?thesis using turn_next[OF wt(1) Some t'(2), of obs] same by auto
  qed
qed

text \<open>What the loop does from there.\<close>

definition val_ok ::
  "slice_utils \<Rightarrow> 'v trie_view \<Rightarrow> path set \<Rightarrow> 'v option \<Rightarrow> 'v read_zipper \<Rightarrow> path \<Rightarrow> bool" where
  "val_ok S T Q r z' p' \<longleftrightarrow> rz_ready S T z' p' \<and>
     (case r of None \<Rightarrow> Q = {} \<and> p' = []
      | Some v \<Rightarrow> tv_get T p' = Some v \<and> p' \<in> Q \<and> (\<forall>q \<in> Q. q = p' \<or> path_less p' q))"

lemma next_val_loop:
  assumes "rz_any S T z p"
  shows "\<exists>r z' evs. z_next_val_loop S z obs = Some (Ret ((r, z'), obs @ evs)) \<and> val_ok S T (todo T z p) r z' (replay evs p)"
  using assms
proof (induction "rz_work T z p" arbitrary: z p obs rule: less_induct)
  case less
  obtain r evs where step: "z_next_val_step S z obs = Ret (r, obs @ evs)" "turn_ok S T z p r evs"
    using turn_step[OF less.prems, of obs] by blast
  show ?case
  proof (cases r)
    case (Inl z1)
    then have t: "rz_any S T z1 (replay evs p)" "todo T z1 (replay evs p) = todo T z p"
      "rz_work T z1 (replay evs p) < rz_work T z p" using step(2) by (simp_all add: turn_ok_def)
    obtain r' z' evs' where l: "z_next_val_loop S z1 (obs @ evs) = Some (Ret ((r', z'), (obs @ evs) @ evs'))"
      "val_ok S T (todo T z p) r' z' (replay evs' (replay evs p))"
      using less.hyps[OF t(3,1), of "obs @ evs"] unfolding t(2) by blast
    have "z_next_val_loop S z obs = z_next_val_loop S z1 (obs @ evs)"
      by (subst z_next_val_loop.simps) (simp add: step(1) Inl)
    then show ?thesis using l by (intro exI[of _ r'] exI[of _ z'] exI[of _ "evs @ evs'"]) simp
  next
    case (Inr rz)
    obtain r' z' where rz: "rz = (r', z')" by (cases rz)
    have "z_next_val_loop S z obs = Some (Ret ((r', z'), obs @ evs))"
      by (subst z_next_val_loop.simps) (simp add: step(1) Inr rz)
    moreover have "val_ok S T (todo T z p) r' z' (replay evs p)"
      using step(2) unfolding turn_ok_def val_ok_def Inr rz by (cases r') auto
    ultimately show ?thesis by blast
  qed
qed

lemma rz_to_next_get_val:
  assumes "rz_reg S T z p"
  shows "\<exists>r z' evs. z_to_next_get_val S z obs = Some (Ret ((r, z'), obs @ evs)) \<and>
    val_ok S T {q. tv_get T q \<noteq> None \<and> path_less p q} r z' (replay evs p)"
  using next_val_loop[OF rz_any_ready[OF rz_prepare[OF assms]]]
  unfolding z_to_next_get_val_def todo_ready[OF rz_prepare[OF assms]] .

end
