(* ===== verification/Read_Zipper_Paths.thy ===== *)
theory Read_Zipper_Paths
  imports Read_Zipper_Iter
begin

text \<open>
  The movements of the read zipper that follow the paths of the trie: \<open>descend_to_existing\<close> goes as far
  along a path as it exists, \<open>descend_until\<close> and \<open>descend_until_max_bytes\<close> as far as there is one way and no
  value, \<open>descend_first_k_path\<close> and \<open>to_next_k_path\<close> from one path of a length to the next.
\<close>

subsection \<open>Descending along the paths that exist\<close>

lemma stands_has:
  assumes "stands S T p anc f" "tv_ok S T"
  shows "tv_has T p \<longleftrightarrow> has_path f (key_at T p anc)"
proof -
  have T: "wf_node (tv_base T)" "tv_start T \<le> length (tv_buf T p)" "tv_start T \<le> length (tv_origin T)"
    using assms(2) by (auto simp: tv_ok_def)
  have full: "tv_key T @ p = subrange (tv_start T) (key_start_of (tv_start T) anc) (tv_buf T p) @ key_at T p anc"
    using subrange_drop[OF stands_bounds(1,2)[OF assms(1,2)]] T(3) by (simp add: tv_key_def key_at_def)
  show ?thesis
    unfolding tv_has_def full using chain_focus[OF assms(1)[unfolded stands_def] T(1,2)] by blast
qed

lemma stands_take:
  assumes "stands S T p anc f" "tv_ok S T" "m \<le> length (key_at T p anc)" "m \<le> length p"
  shows "stands S T (take (length p - m) p) anc f"
    "key_at T (take (length p - m) p) anc = take (length (key_at T p anc) - m) (key_at T p anc)"
proof -
  let ?p = "take (length p - m) p" and ?key = "key_at T p anc"
  note b = stands_bounds[OF assms(1,2)]
  have ks: "key_start_of (tv_start T) anc \<le> length (tv_buf T p) - m" using b(2,3) assms(3) by linarith
  show "stands S T ?p anc f"
    by (rule stands_replace[OF assms(1,2), where m = "length (tv_buf T p) - m"]) (use ks assms(4) in auto)
  have "key_at T ?p anc = drop (key_start_of (tv_start T) anc) (take (length (tv_buf T p) - m) (tv_buf T p))"
    using assms(4) by (simp add: key_at_def)
  also have "\<dots> = take (length ?key - m) ?key" unfolding b(3) unfolding key_at_def drop_take by (simp only: diff_commute)
  finally show "key_at T ?p anc = take (length ?key - m) ?key" .
qed

lemma no_link_above:
  assumes "wf_node n" "node_get_child n key = None" "prefix k key" "k \<noteq> []"
  shows "node_get_child n k = None"
proof (rule ccontr)
  assume "node_get_child n k \<noteq> None"
  then show False using node_get_child_prefix[OF assms(1,3,4)] assms(2) by auto
qed

lemma prefix_take_lcp: "j \<le> length key \<Longrightarrow> prefix (take j key) k \<longleftrightarrow> j \<le> lcp_len key k"
proof (induction key arbitrary: j k)
  case (Cons x key)
  then show ?case by (cases j; cases k) auto
qed simp

text \<open>The overlap of a key is its longest part that is a path of the node.\<close>

lemma node_key_overlap:
  assumes "slice_utils_ok S" "wf_node n" "key \<noteq> []" "node_get_child n key = None"
  shows "node_key_overlap S n key \<le> length key"
    "j \<le> length key \<Longrightarrow> has_path n (take j key) \<longleftrightarrow> j \<le> node_key_overlap S n key"
proof -
  have part: "has_path n (take j key) \<longleftrightarrow> j = 0 \<or> node_contains_partial_key S n (take j key)" for j
  proof (cases "j = 0")
    case False
    then have ne: "take j key \<noteq> []" using assms(3) by simp
    show ?thesis
      using False contains_partial_key_here[OF assms(1,2) ne no_link_above[OF assms(2,4) take_is_prefix ne]] by simp
  qed simp
  have "node_key_overlap S n key \<le> length key \<and>
    (j \<le> length key \<longrightarrow> j = 0 \<or> node_contains_partial_key S n (take j key) \<longleftrightarrow> j \<le> node_key_overlap S n key)" for j
  proof (cases n)
    case (ListN ln)
    show ?thesis
      using assms(1) prefix_take_lcp[of j key "fst (get_both_keys ln)"] prefix_take_lcp[of j key "snd (get_both_keys ln)"]
        lcp_len_le(1)[of key "fst (get_both_keys ln)"] lcp_len_le(1)[of key "snd (get_both_keys ln)"]
      by (auto simp: ListN ln_key_overlap_def ln_contains_partial_key_def split: prod.splits)
  next
    case (ByteN bn)
    have "j = 0 \<or> j = 1 \<or> 2 \<le> j" by linarith
    then show ?thesis using assms(3)
      by (cases key) (auto simp: ByteN bn_key_overlap_def bn_contains_partial_key_def)
  qed simp
  then show "node_key_overlap S n key \<le> length key"
    "j \<le> length key \<Longrightarrow> has_path n (take j key) \<longleftrightarrow> j \<le> node_key_overlap S n key"
    unfolding part by blast+
qed

lemma path_in_node_short:
  assumes "wf_node n" "node_get_child n key = None" "has_path n key"
  shows "length key \<le> KEY_BYTES_CNT"
proof (cases "key = []")
  case False
  have c: "node_contains_partial_key std_slice_utils n key"
    using contains_partial_key_here[OF std_slice_utils_ok assms(1) False assms(2)] assms(3) by simp
  show ?thesis
  proof (cases n)
    case (ListN ln)
    then have "wf_node (ListN ln)" using assms(1) by simp
    then show ?thesis
      by (cases rule: slots_cases)
        (use c std_slice_utils_ok False in \<open>auto simp: ListN ln_contains_partial_key_def get_both_keys_def dest!: prefix_length_le\<close>)
  qed (use c in \<open>auto simp: bn_contains_partial_key_def KEY_BYTES_CNT_def split: if_splits\<close>)
qed simp

lemma descend_internal_token: "focus_iter_token (snd (z_descend_to_internal k z)) = NODE_ITER_INVALID"
  by (simp add: z_descend_to_internal_def Let_def split: prod.split)

lemma descend_chunks:
  assumes "rz_ready S T z p" "k \<noteq> [] \<or> focus_iter_token z = NODE_ITER_INVALID"
  shows "\<exists>j z'. descend_chunks k (z_node_key_start z) z = (z_node_key_start z', z') \<and> rz_ready S T z' (p @ take j k) \<and>
    focus_iter_token z' = NODE_ITER_INVALID \<and> (j < length k \<longrightarrow> \<not> tv_has T (p @ take j k))"
  using assms
proof (induction "length k" arbitrary: k z p rule: less_induct)
  case less
  show ?case
  proof (cases "k = []")
    case True
    then show ?thesis using less.prems by (intro exI[of _ 0] exI[of _ z]) (simp add: descend_chunks.simps)
  next
    case False
    then have ne: "take CHUNK_SIZE k \<noteq> []" by (simp add: CHUNK_SIZE_def)
    obtain key z1 where z1: "z_descend_to_internal (take CHUNK_SIZE k) z = (key, z1)" "rz_ready S T z1 (p @ take CHUNK_SIZE k)"
      using rz_descend_internal[OF less.prems(1) ne] by metis
    have tok: "focus_iter_token z1 = NODE_ITER_INVALID"
      using descend_internal_token[of "take CHUNK_SIZE k" z] by (simp add: z1(1))
    note f = rz_ready_facts[OF z1(2)] and b = stands_bounds[OF rz_ready_facts(6,1)[OF z1(2)]]
    show ?thesis
    proof (cases "z_node_key_start z1 = z_node_key_start z")
      case True
      have "\<not> tv_has T (p @ take CHUNK_SIZE k)" if long: "CHUNK_SIZE < length k"
      proof
        assume "tv_has T (p @ take CHUNK_SIZE k)"
        then have h: "has_path (focus_node z1) (key_at T (p @ take CHUNK_SIZE k) (ancestors z1))"
          using stands_has[OF f(6,1)] by simp
        have "key_start_of (tv_start T) (ancestors z1) \<le> length (tv_buf T p)"
          using True stands_bounds(2)[OF rz_ready_facts(6,1)[OF less.prems(1)]] rz_ready_keys(2)[OF z1(2)] rz_ready_keys(2)[OF less.prems(1)]
          by simp
        then have l: "64 \<le> length (key_at T (p @ take CHUNK_SIZE k) (ancestors z1))" using b(3) long by (simp add: CHUNK_SIZE_def)
        then have "key_at T (p @ take CHUNK_SIZE k) (ancestors z1) \<noteq> []" by auto
        then show False using path_in_node_short[OF f(7) f(9) h] l by (simp add: KEY_BYTES_CNT_def)
      qed
      moreover have "descend_chunks k (z_node_key_start z) z = (z_node_key_start z1, z1)"
        using False True by (simp add: descend_chunks.simps[of k] z1(1) Let_def)
      ultimately show ?thesis using z1(2) tok by blast
    next
      case diff: False
      have d: "descend_chunks k (z_node_key_start z) z = descend_chunks (drop CHUNK_SIZE k) (z_node_key_start z1) z1"
        using False diff by (simp add: descend_chunks.simps[of k] z1(1) Let_def)
      have short: "length (drop CHUNK_SIZE k) < length k" using False by (simp add: CHUNK_SIZE_def)
      obtain j z2 where j: "descend_chunks (drop CHUNK_SIZE k) (z_node_key_start z1) z1 = (z_node_key_start z2, z2)"
        "rz_ready S T z2 ((p @ take CHUNK_SIZE k) @ take j (drop CHUNK_SIZE k))" "focus_iter_token z2 = NODE_ITER_INVALID"
        "j < length (drop CHUNK_SIZE k) \<longrightarrow> \<not> tv_has T ((p @ take CHUNK_SIZE k) @ take j (drop CHUNK_SIZE k))"
        using less.hyps[OF short z1(2)] tok by blast
      have eq: "(p @ take CHUNK_SIZE k) @ take j (drop CHUNK_SIZE k) = p @ take (CHUNK_SIZE + j) k" by (simp add: take_add)
      show ?thesis using d j unfolding eq by (intro exI[of _ "CHUNK_SIZE + j"] exI[of _ z2]) auto
    qed
  qed
qed

lemma tv_has_prefix: "tv_has T q \<Longrightarrow> prefix p q \<Longrightarrow> tv_has T p"
  using has_path_prefix[of "tv_base T" "tv_key T @ q" "tv_key T @ p"] by (simp add: tv_has_def)

text \<open>How much of the focus key exists, and the zipper cut back to it.\<close>

lemma rz_overlap:
  assumes "rz_ready S T z q"
  defines "key \<equiv> key_at T q (ancestors z)"
  defines "ov \<equiv> (if 0 < length key then node_key_overlap S (focus_node z) key else 0)"
  shows "ov \<le> length key"
    "i \<le> length key \<Longrightarrow> i \<le> length q \<Longrightarrow> tv_has T (take (length q - i) q) \<longleftrightarrow> length key - ov \<le> i"
proof -
  note f = rz_ready_facts[OF assms(1)]
  have o: "ov \<le> length key \<and> (j \<le> length key \<longrightarrow> has_path (focus_node z) (take j key) = (j \<le> ov))" for j
    using node_key_overlap[OF f(2,7), of key] f(9) by (cases "key = []") (auto simp: ov_def key_def)
  then show "ov \<le> length key" by blast
  assume i: "i \<le> length key" "i \<le> length q"
  note st = stands_take[OF f(6,1) i[unfolded key_def]]
  have "tv_has T (take (length q - i) q) \<longleftrightarrow> has_path (focus_node z) (take (length key - i) key)"
    unfolding stands_has[OF st(1) f(1)] st(2) key_def ..
  then show "tv_has T (take (length q - i) q) \<longleftrightarrow> length key - ov \<le> i" using o[of "length key - i"] i(1) by auto
qed

lemma rz_cut_back:
  assumes "rz_ready S T z q" "focus_iter_token z = NODE_ITER_INVALID" "m \<le> length (key_at T q (ancestors z))" "m \<le> length q"
  shows "rz_ready S T (z\<lparr>prefix_buf := take (length (prefix_buf z) - m) (prefix_buf z)\<rparr>) (take (length q - m) q)"
proof (cases "m = 0")
  case False
  then have "key_at T q (ancestors z) \<noteq> []" using assms(3) by auto
  from rz_truncate[OF rz_open_self[OF assms(1) this] _ assms(3,4)] False obtain z' where
    "z_reascend_iter_token m (z\<lparr>prefix_buf := take (length (prefix_buf z) - m) (prefix_buf z)\<rparr>) = Ret z'"
    "rz_ready S T z' (take (length q - m) q)" by blast
  then show ?thesis using assms(2) by (simp add: z_reascend_iter_token_def)
qed (use assms(1) in simp)

lemma rz_descend_to_existing:
  assumes "rz_reg S T z p"
  shows "\<exists>n z'. z_descend_to_existing S k z = (n, z') \<and> rz_reg S T z' (p @ take n k) \<and> n \<le> length k \<and>
    (if tv_has T p then tv_has T (p @ take n k) \<and> (\<forall>j. n < j \<longrightarrow> j \<le> length k \<longrightarrow> \<not> tv_has T (p @ take j k)) else n = 0)"
proof (cases "k = []")
  case True
  then show ?thesis using assms by (simp add: z_descend_to_existing_def)
next
  case False
  let ?z = "z_prepare_buffers z"
  note ready = rz_prepare[OF assms]
  note f = rz_ready_facts[OF ready]
  have buf0: "drop (z_node_key_start ?z) (prefix_buf ?z) = z_node_key ?z"
    unfolding rz_ready_keys(2)[OF ready] f(5,10) key_at_def ..
  then have miss: "z_node_key_start ?z < length (prefix_buf ?z) \<and>
      \<not> node_contains_partial_key S (focus_node ?z) (drop (z_node_key_start ?z) (prefix_buf ?z)) \<longleftrightarrow> \<not> tv_has T p"
    using rz_exists_at_key[OF ready] by (auto simp flip: length_greater_0_conv buf0 split: if_splits)
  show ?thesis
  proof (cases "tv_has T p")
    case none: False
    then show ?thesis using False miss rz_ready_reg[OF ready]
      by (intro exI[of _ 0] exI[of _ ?z]) (simp add: z_descend_to_existing_def Let_def)
  next
    case has: True
    obtain j z1 where c: "descend_chunks k (z_node_key_start ?z) ?z = (z_node_key_start z1, z1)" "rz_ready S T z1 (p @ take j k)"
      "focus_iter_token z1 = NODE_ITER_INVALID" "j < length k \<longrightarrow> \<not> tv_has T (p @ take j k)"
      using descend_chunks[OF ready] False by blast
    define q where "q = p @ take j k"
    define key where "key = key_at T q (ancestors z1)"
    define ov where "ov = (if 0 < length key then node_key_overlap S (focus_node z1) key else 0)"
    define m where "m = length key - ov"
    define n where "n = length (take j k) - m"
    note c2 = c(2)[folded q_def]
    note o = rz_overlap[OF c2, folded key_def, folded ov_def, folded m_def]
    note f1 = rz_ready_facts[OF c2] and b1 = stands_bounds[OF rz_ready_facts(6,1)[OF c2], folded key_def]
    have key: "drop (z_node_key_start z1) (prefix_buf z1) = key"
      unfolding rz_ready_keys(2)[OF c2] f1(5) key_def key_at_def ..
    have m: "m \<le> length key" "m \<le> length (take j k)"
    proof -
      show "m \<le> length key" by (simp add: m_def)
      show "m \<le> length (take j k)"
      proof (cases "length (take j k) \<le> length key")
        case True
        then show ?thesis using o(2)[OF True] has by (simp add: q_def)
      next
        case False
        then show ?thesis unfolding m_def by linarith
      qed
    qed
    have len: "z_node_key_start z1 + ov = length (prefix_buf z1) - m"
      using b1(2,3) o(1) unfolding rz_ready_keys(2)[OF c2] f1(5) m_def by linarith
    have cut: "take (length q - m) q = p @ take n k" using m(2) by (simp add: q_def n_def min_def)
    define z' where "z' = z1\<lparr>prefix_buf := take (z_node_key_start z1 + ov) (prefix_buf z1)\<rparr>"
    have mq: "m \<le> length q" using m(2) by (auto simp: q_def)
    then have z': "rz_ready S T z' (p @ take n k)"
      unfolding z'_def len cut[symmetric] using m(1) unfolding key_def by (intro rz_cut_back[OF c2 c(3)])
    have eq: "z_descend_to_existing S k z = (length (prefix_buf z') - length (prefix_buf ?z), z')"
      unfolding z_descend_to_existing_def Let_def miss c(1) split_conv key ov_def[symmetric] z'_def using False has by simp
    have n: "n \<le> length k" by (simp add: n_def)
    have cnt: "length (prefix_buf z') - length (prefix_buf ?z) = n"
      using rz_ready_facts(5)[OF z'] f(5) n by simp
    have ex: "tv_has T (p @ take n k)" using o(2)[OF m(1) mq] unfolding cut by (simp add: m_def)
    have no: "\<not> tv_has T (p @ take i k)" if i: "n < i" "i \<le> length k" for i
    proof (cases "i \<le> length (take j k)")
      case True
      then have "i \<le> j" by simp
      then have "p @ take i k = take (length q - (length (take j k) - i)) q" using True by (simp add: q_def min.absorb1)
      moreover have "length (take j k) - i < m" using i(1) True m(2) unfolding n_def by linarith
      ultimately show ?thesis using o(2)[of "length (take j k) - i"] m(1) by (simp add: q_def)
    next
      case False
      then have j: "j < length k" "j \<le> i" using i(2) by auto
      have "prefix (take j (take i k)) (take i k)" by (rule take_is_prefix)
      then have "prefix q (p @ take i k)" using j(2) by (simp add: q_def min_def)
      then show ?thesis using c(4) j(1) tv_has_prefix unfolding q_def by blast
    qed
    show ?thesis using eq cnt rz_ready_reg[OF z'] n ex no has by auto
  qed
qed

subsection \<open>The only way on\<close>

lemma list_first_child_item:
  assumes "slice_utils_ok S" "wf_list ln" "i \<in> set (ln_items ln)" "strict_prefix key (fst i)"
    "\<And>c v. (key, Some c, v) \<notin> set (ln_items ln)"
    "\<And>j j'. j \<in> set (ln_items ln) \<Longrightarrow> j' \<in> set (ln_items ln) \<Longrightarrow> strict_prefix key (fst j) \<Longrightarrow> strict_prefix key (fst j') \<Longrightarrow>
      fst j ! length key = fst j' ! length key"
  shows "\<exists>k c v. (k, c, v) \<in> set (ln_items ln) \<and> strict_prefix key k \<and>
    ln_first_child_from_key S ln key = Ret (Some (drop (length key) k), c) \<and>
    (\<forall>j \<in> set (ln_items ln). strict_prefix key (fst j) \<longrightarrow> prefix k (fst j))"
  using assms(2)
proof (cases rule: wf_list_cases)
  case none
  then show ?thesis using assms(3) by simp
next
  case (one k0 p0)
  have "strict_prefix key k0" using assms(3,4) one by simp
  then show ?thesis using assms(1) one(2)
    by (intro exI[of _ k0] exI[of _ "slot_child (Some (k0, p0))"] exI[of _ "slot_val (Some (k0, p0))"])
      (auto simp: one(1) ln_first_child_from_key_def get_both_keys_def Let_def remaining_key_def strict_prefix_def
        dest: prefix_length_less[of key k0, unfolded strict_prefix_def])
next
  case (diff b0 r0 p0 b1 r1 p1)
  let ?i0 = "(b0 # r0, slot_child (Some (b0 # r0, p0)), slot_val (Some (b0 # r0, p0)))"
  let ?i1 = "(b1 # r1, slot_child (Some (b1 # r1, p1)), slot_val (Some (b1 # r1, p1)))"
  have nb: "b0 \<noteq> b1" using diff(3) by auto
  then have "?i0 \<in> set (ln_items ln)" "?i1 \<in> set (ln_items ln)" by (simp_all add: diff(1))
  note both = assms(6)[OF this]
  have "key \<noteq> []" using both diff(3) by auto
  then obtain c ks where key: "key = c # ks" by (cases key) auto
  consider (0) "c = b0" "strict_prefix ks r0" | (1) "c = b1" "strict_prefix ks r1"
    using assms(3,4) nb by (auto simp: diff(1) key)
  then show ?thesis
  proof cases
    case 0
    then show ?thesis using assms(1) nb prefix_length_less[OF 0(2)]
      by (intro exI[of _ "b0 # r0"] exI[of _ "slot_child (Some (b0 # r0, p0))"] exI[of _ "slot_val (Some (b0 # r0, p0))"])
        (auto simp: diff(1) key ln_first_child_from_key_def get_both_keys_def Let_def remaining_key_def strict_prefix_def)
  next
    case 1
    then show ?thesis using assms(1) nb prefix_length_less[OF 1(2)]
      by (intro exI[of _ "b1 # r1"] exI[of _ "slot_child (Some (b1 # r1, p1))"] exI[of _ "slot_val (Some (b1 # r1, p1))"])
        (auto simp: diff(1) key ln_first_child_from_key_def get_both_keys_def Let_def remaining_key_def strict_prefix_def)
  qed
next
  case (same b p0 p1)
  then have "key = []" using assms(3,4) by (auto simp: strict_prefix_def prefix_Cons split: if_splits)
  then show ?thesis using same(2)
    by (cases p0; cases p1) (auto simp: same(1) ln_first_child_from_key_def get_both_keys_def Let_def)
next
  case (below b p0 r1 p1)
  show ?thesis
  proof (cases key)
    case Nil
    have "slot_child (Some ([b], p0)) = None" using below(4) by (cases p0) auto
    then show ?thesis using below(2)
      by (intro exI[of _ "[b]"] exI[of _ None] exI[of _ "slot_val (Some ([b], p0))"])
        (auto simp: below(1) Nil ln_first_child_from_key_def get_both_keys_def Let_def)
  next
    case (Cons c ks)
    then have "c = b" "strict_prefix ks r1" using assms(3,4) by (auto simp: below(1) split: if_splits)
    then show ?thesis using assms(1) below(2) prefix_length_less[of ks r1]
      by (intro exI[of _ "b # r1"] exI[of _ "slot_child (Some (b # r1, p1))"] exI[of _ "slot_val (Some (b # r1, p1))"])
        (auto simp: below(1) Cons ln_first_child_from_key_def get_both_keys_def Let_def remaining_key_def strict_prefix_def
          split: if_splits)
  qed
qed

lemma byte_first_child_item:
  assumes "bn_ok bn" "i \<in> set (bn_items bn)"
  shows "\<exists>k c v. (k, c, v) \<in> set (bn_items bn) \<and> bn_first_child_from_key bn key = Ret (Some k, c)"
proof -
  obtain m cfs where bn: "bn = BN m cfs" by (cases bn)
  have len: "length (bits m) = length cfs" using assms(1) by (simp add: bn bn_ok_BN length_bits)
  have items: "bn_items bn = map (byte_item bn) (bits m)" by (simp add: byte_items_alt bits_def bn)
  then have ne: "0 < length (bits m)" using assms(2) by auto
  have mem: "bits m ! 0 \<in> set (bits m)" by (rule nth_mem[OF ne])
  then have bit: "mbit m (bits m ! 0)" by (simp add: set_bits)
  have "rank m (bits m ! 0) = 0"
    using nth_rank_bits[OF bit] ne nth_eq_iff_index_eq[OF bits_sorted(2)[of m]] by blast
  then have "bn_first_child_from_key bn key = Ret (Some (fst (byte_item bn (bits m ! 0))), fst (snd (byte_item bn (bits m ! 0))))"
    using ne len by (auto simp: bn bn_first_child_from_key_def index_outcome_def indexed_bit_forward byte_item_def)
  moreover have "byte_item bn (bits m ! 0) \<in> set (bn_items bn)" unfolding items using mem by simp
  ultimately show ?thesis by (metis prod.collapse)
qed

lemma strict_prefix_nth: "strict_prefix key k \<Longrightarrow> prefix (key @ [k ! length key]) k"
  by (auto elim!: strict_prefixE')

lemma item_nonempty: "wf_node n \<Longrightarrow> i \<in> set (node_items n) \<Longrightarrow> fst i \<noteq> []"
  by (rule cursor.items_nonempty[OF cursor_ok_wf[OF std_slice_utils_ok]])

lemma has_path_item:
  assumes "wf_node n" "g \<noteq> []" "has_path n g"
  shows "\<exists>j \<in> set (node_items n). prefix g (fst j) \<or> prefix (fst j) g \<and> (\<exists>c. node_get_child n (fst j) = Some (length (fst j), c))"
proof (cases "node_get_child n g")
  case None
  then have "on_items (node_items n) g"
    using contains_partial_key_here[OF std_slice_utils_ok assms(1,2)] node_contains_items[OF std_slice_utils_ok assms(1,2)] assms(3)
    by blast
  then show ?thesis using assms(2) by (auto simp: on_items_def)
next
  case (Some r)
  obtain l c where r: "r = (l, c)" by (cases r)
  obtain v where w: "(take l g, Some c, v) \<in> set (node_items n)" using node_child_item[OF assms(1,2) Some[unfolded r]] by blast
  then show ?thesis using item_link[OF assms(1) w] by (intro bexI[OF _ w]) (auto simp: take_is_prefix)
qed

lemma item_has_path:
  assumes "wf_node n" "i \<in> set (node_items n)"
  shows "has_path n (fst i)"
proof -
  have "node_contains_partial_key std_slice_utils n (fst i)"
    unfolding node_contains_items[OF std_slice_utils_ok assms(1) item_nonempty[OF assms]] on_items_def using assms(2) by auto
  moreover have "l = length (fst i)" if "node_get_child n (fst i) = Some (l, c)" for l c
    using that item_link[OF assms(1), of "fst i" "fst (snd i)" "snd (snd i)"] assms(2) by (auto split: option.splits)
  ultimately show ?thesis
    using contains_partial_key_at[OF std_slice_utils_ok assms(1) item_nonempty[OF assms]] by blast
qed

lemma node_first_child_item:
  assumes "slice_utils_ok S" "wf_node n" "i \<in> set (node_items n)" "strict_prefix key (fst i)"
    "key \<noteq> [] \<Longrightarrow> node_get_child n key = None"
    "\<And>j j'. j \<in> set (node_items n) \<Longrightarrow> j' \<in> set (node_items n) \<Longrightarrow> strict_prefix key (fst j) \<Longrightarrow> strict_prefix key (fst j') \<Longrightarrow>
      fst j ! length key = fst j' ! length key"
  shows "\<exists>k c v. (k, c, v) \<in> set (node_items n) \<and> strict_prefix key k \<and>
    node_first_child_from_key S n key = Ret (Some (drop (length key) k), c) \<and>
    (\<forall>j \<in> set (node_items n). strict_prefix key (fst j) \<longrightarrow> prefix k (fst j))"
proof (cases n)
  case EmptyN
  then show ?thesis using assms(3) by simp
next
  case (ListN ln)
  have "(key, Some c, v) \<notin> set (ln_items ln)" for c v
  proof
    assume "(key, Some c, v) \<in> set (ln_items ln)"
    then have m: "(key, Some c, v) \<in> set (node_items n)" by (simp add: ListN)
    then show False using item_nonempty[OF assms(2) m] item_link[OF assms(2) m] assms(5) by simp
  qed
  moreover have "wf_list ln" using assms(2) by (simp add: ListN)
  ultimately show ?thesis
    using list_first_child_item[OF assms(1) _ _ assms(4)] assms(3,6) unfolding ListN node_items.simps node_first_child_from_key.simps by blast
next
  case (ByteN bn)
  have one: "\<exists>b. fst j = [b]" if "j \<in> set (bn_items bn)" for j using that by (auto simp: byte_items_alt byte_item_def)
  have "i \<in> set (bn_items bn)" using assms(3) by (simp add: ByteN)
  then obtain b where "fst i = [b]" using one by blast
  then have key: "key = []" using assms(4) by (cases key) auto
  have same: "fst j = fst j'" if "j \<in> set (bn_items bn)" "j' \<in> set (bn_items bn)" for j j'
    using assms(6)[of j j'] one[of j] one[of j'] that by (auto simp: ByteN key)
  have "bn_ok bn" "i \<in> set (bn_items bn)" using assms(2,3) by (simp_all add: ByteN)
  then obtain k c v where k: "(k, c, v) \<in> set (bn_items bn)" "bn_first_child_from_key bn key = Ret (Some k, c)"
    using byte_first_child_item by blast
  have "k \<noteq> []" using one[OF k(1)] by auto
  moreover have "prefix k (fst j)" if "j \<in> set (bn_items bn)" for j using same[OF k(1) that] by simp
  ultimately show ?thesis using k
    by (intro exI[of _ k] exI[of _ c] exI[of _ v]) (simp add: ByteN key strict_prefix_def)
qed

text \<open>With one byte to go on, \<open>first_child_from_key\<close> has the bytes up to where the ways part, a value may be
  or the node ends, and the node behind them.\<close>

lemma node_only_way:
  assumes S: "slice_utils_ok S" and wf: "wf_node n" and here: "key \<noteq> [] \<Longrightarrow> node_get_child n key = None"
    and one: "node_count_branches S n key = 1"
  shows "\<exists>pre c. node_first_child_from_key S n key = Ret (Some pre, c) \<and> pre \<noteq> [] \<and> has_path n (key @ pre) \<and>
    node_get_child n (key @ pre) = map_option (\<lambda>c. (length (key @ pre), c)) c \<and>
    (\<forall>q. q \<noteq> [] \<longrightarrow> has_path n (key @ q) \<longrightarrow> prefix q pre \<or> prefix pre q) \<and>
    (\<forall>q. q \<noteq> [] \<longrightarrow> strict_prefix q pre \<longrightarrow> den n (key @ q) = None)"
proof -
  have "card {b. on_items (node_items n) (key @ [b])} = 1"
    using one unfolding node_count_branches_card[OF S wf] node_branches_iff[OF S wf] .
  then obtain b where b: "{b. on_items (node_items n) (key @ [b])} = {b}" using card_1_singletonE by blast
  then have "on_items (node_items n) (key @ [b])" by blast
  then obtain i where "i \<in> set (node_items n)" "prefix (key @ [b]) (fst i)" by (auto simp: on_items_def)
  then have i: "i \<in> set (node_items n)" "strict_prefix key (fst i)"
    by (auto simp: strict_prefix_def prefix_def)
  have byte: "fst j ! length key = b" if "j \<in> set (node_items n)" "strict_prefix key (fst j)" for j
  proof -
    have "on_items (node_items n) (key @ [fst j ! length key])"
      using that strict_prefix_nth[OF that(2)] by (auto simp: on_items_def)
    then show ?thesis using b by blast
  qed
  from node_first_child_item[OF S wf i here] byte obtain k c v where k: "(k, c, v) \<in> set (node_items n)" "strict_prefix key k"
    "node_first_child_from_key S n key = Ret (Some (drop (length key) k), c)"
    "\<And>j. j \<in> set (node_items n) \<Longrightarrow> strict_prefix key (fst j) \<Longrightarrow> prefix k (fst j)" by metis
  define pre where "pre = drop (length key) k"
  have kp: "k = key @ pre" "pre \<noteq> []" using k(2) by (auto simp: pre_def strict_prefix_def prefix_def)
  have below: "strict_prefix key (fst j)"
    if "j \<in> set (node_items n)" "prefix (fst j) (key @ q)" "node_get_child n (fst j) = Some (length (fst j), c')" for j q c'
  proof -
    have "\<not> prefix (fst j) key"
    proof
      assume p: "prefix (fst j) key"
      have ne: "fst j \<noteq> []" by (rule item_nonempty[OF wf that(1)])
      then have "key \<noteq> []" using p by auto
      then show False using node_get_child_prefix[OF wf p ne] that(3) here by fastforce
    qed
    then show ?thesis using prefix_same_cases[OF that(2), of key] by (auto simp: strict_prefix_def)
  qed
  have paths: "prefix q pre \<or> prefix pre q" if q: "q \<noteq> []" "has_path n (key @ q)" for q
  proof -
    obtain j where j: "j \<in> set (node_items n)"
      "prefix (key @ q) (fst j) \<or> prefix (fst j) (key @ q) \<and> (\<exists>c. node_get_child n (fst j) = Some (length (fst j), c))"
      using has_path_item[OF wf _ q(2)] q(1) by blast
    from j(2) show ?thesis
    proof
      assume p: "prefix (key @ q) (fst j)"
      then have "strict_prefix key (fst j)" using q(1) by (auto simp: strict_prefix_def prefix_def)
      then have "prefix (key @ pre) (fst j)" using k(4)[OF j(1)] kp(1) by simp
      from prefix_same_cases[OF p this] show ?thesis by simp
    next
      assume p: "prefix (fst j) (key @ q) \<and> (\<exists>c. node_get_child n (fst j) = Some (length (fst j), c))"
      then have "prefix (key @ pre) (fst j)" using k(4)[OF j(1)] below[OF j(1)] kp(1) by blast
      then have "prefix (key @ pre) (key @ q)" using p prefix_order.trans by blast
      then show ?thesis by simp
    qed
  qed
  have no: "den n (key @ q) = None" if q: "q \<noteq> []" "strict_prefix q pre" for q
  proof (rule ccontr)
    assume "den n (key @ q) \<noteq> None"
    then obtain j where j: "j \<in> set (node_items n)" "prefix (fst j) (key @ q)"
      "fst j = key @ q \<or> (\<exists>c. node_get_child n (fst j) = Some (length (fst j), c))" using node_den_item[OF wf] by blast
    have "strict_prefix key (key @ q)" using q(1) by (simp add: strict_prefix_def)
    then have "strict_prefix key (fst j)" using below[OF j(1,2)] j(3) by metis
    then have "prefix (key @ pre) (key @ q)" using k(4)[OF j(1)] j(2) kp(1) prefix_order.trans by blast
    then show False using q(2) by auto
  qed
  have "has_path n (key @ pre)" using item_has_path[OF wf k(1)] kp(1) by simp
  moreover have "node_get_child n (key @ pre) = map_option (\<lambda>c. (length (key @ pre), c)) c"
    using item_link[OF wf k(1)] kp(1) by simp
  ultimately show ?thesis using k(3) kp paths no unfolding pre_def[symmetric] by blast
qed

text \<open>The paths of the trie below a path: whether there is one byte to go on with, and the bytes of the
  only way on to the next place to stop.\<close>

definition one_way :: "'v trie_view \<Rightarrow> path \<Rightarrow> bool" where
  "one_way T p \<longleftrightarrow> card {b. tv_has T (p @ [b])} = 1"

definition way :: "'v trie_view \<Rightarrow> path \<Rightarrow> path \<Rightarrow> bool" where
  "way T p pre \<longleftrightarrow> pre \<noteq> [] \<and> tv_has T (p @ pre) \<and>
     (\<forall>q. q \<noteq> [] \<longrightarrow> tv_has T (p @ q) \<longrightarrow> prefix q pre \<or> prefix pre q) \<and>
     (\<forall>q. q \<noteq> [] \<longrightarrow> strict_prefix q pre \<longrightarrow> tv_get T (p @ q) = None)"

text \<open>\<open>q\<close> leads on from \<open>p\<close> past no branch and no value.\<close>

definition along :: "'v trie_view \<Rightarrow> path \<Rightarrow> path \<Rightarrow> bool" where
  "along T p q \<longleftrightarrow> (q \<noteq> [] \<longrightarrow> tv_has T (p @ q)) \<and>
     (\<forall>r. strict_prefix r q \<longrightarrow> one_way T (p @ r) \<and> (r \<noteq> [] \<longrightarrow> tv_get T (p @ r) = None))"

lemma along_Nil [simp]: "along T p []"
  by (simp add: along_def)

lemma way_along:
  assumes "way T p pre" "prefix q pre"
  shows "along T p q"
proof -
  have one: "one_way T (p @ r)" if r: "strict_prefix r pre" for r
  proof -
    obtain b w where w: "pre = r @ b # w" using strict_prefixE'[OF r] by blast
    have "tv_has T (p @ r @ [c]) \<longleftrightarrow> c = b" for c
    proof
      assume "tv_has T (p @ r @ [c])"
      then have "prefix (r @ [c]) pre \<or> prefix pre (r @ [c])" using assms(1) unfolding way_def by blast
      then show "c = b" by (auto simp: w prefix_def append_eq_Cons_conv)
    next
      assume "c = b"
      then have "prefix (p @ r @ [c]) (p @ pre)" by (simp add: w)
      then show "tv_has T (p @ r @ [c])" using assms(1) tv_has_prefix unfolding way_def by blast
    qed
    then show ?thesis by (simp add: one_way_def)
  qed
  have "strict_prefix r pre" if "strict_prefix r q" for r using that assms(2) by (rule prefix_order.less_le_trans)
  moreover have "tv_has T (p @ q)" using assms tv_has_prefix[of T "p @ pre" "p @ q"] by (simp add: way_def)
  ultimately show ?thesis using one assms(1) unfolding along_def way_def by blast
qed

lemma along_append:
  assumes "along T p q" "along T (p @ q) r" "q = [] \<or> tv_get T (p @ q) = None"
  shows "along T p (q @ r)"
proof -
  have "one_way T (p @ s) \<and> (s \<noteq> [] \<longrightarrow> tv_get T (p @ s) = None)" if s: "strict_prefix s (q @ r)" for s
  proof (cases "strict_prefix s q")
    case False
    have "s = q \<or> (\<exists>u. s = q @ u \<and> prefix u r)" using s False by (auto simp: strict_prefix_def prefix_append)
    then obtain u where "s = q @ u" "prefix u r" by auto
    then have u: "s = q @ u" "strict_prefix u r" using s by (auto simp: strict_prefix_def)
    then have "one_way T (p @ q @ u) \<and> (u \<noteq> [] \<longrightarrow> tv_get T (p @ q @ u) = None)" using assms(2) by (simp add: along_def)
    then show ?thesis using assms(3) u(1) by (cases "u = []") auto
  qed (use assms(1) in \<open>simp add: along_def\<close>)
  moreover have "tv_has T (p @ q @ r)" if "q @ r \<noteq> []" using assms(1,2) that by (cases "r = []") (auto simp: along_def)
  ultimately show ?thesis by (simp add: along_def)
qed

lemma rz_only_way:
  assumes "rz_ready S T z p" "z_child_count S z = 1"
  shows "\<exists>pre c. node_first_child_from_key S (focus_node z) (z_node_key z) = Ret (Some pre, c) \<and> way T p pre \<and>
    (\<forall>n < length pre. rz_ready S T (z\<lparr>prefix_buf := prefix_buf z @ take n pre, focus_iter_token := NODE_ITER_INVALID\<rparr>) (p @ take n pre)) \<and>
    rz_ready S T (let z1 = z\<lparr>prefix_buf := prefix_buf z @ pre, focus_iter_token := NODE_ITER_INVALID\<rparr>
                  in case c of Some ch \<Rightarrow> z_push_node ch z1 | None \<Rightarrow> z1) (p @ pre)"
proof -
  note f = rz_ready_facts[OF assms(1)]
  let ?f = "focus_node z" and ?key = "key_at T p (ancestors z)"
  have "node_count_branches S ?f ?key = 1" using assms(2) by (simp add: z_child_count_def f(10))
  from node_only_way[OF f(2,7,9) this] obtain pre c where w: "node_first_child_from_key S ?f ?key = Ret (Some pre, c)" "pre \<noteq> []"
    "has_path ?f (?key @ pre)" "node_get_child ?f (?key @ pre) = map_option (\<lambda>c. (length (?key @ pre), c)) c"
    "\<forall>q. q \<noteq> [] \<longrightarrow> has_path ?f (?key @ q) \<longrightarrow> prefix q pre \<or> prefix pre q"
    "\<forall>q. q \<noteq> [] \<longrightarrow> strict_prefix q pre \<longrightarrow> den ?f (?key @ q) = None" by blast
  note ext = stands_extend[OF f(6,1)]
  have has: "tv_has T (p @ q) \<longleftrightarrow> has_path ?f (?key @ q)" for q using stands_has[OF ext(1) f(1)] by (simp add: ext(2))
  have get: "tv_get T (p @ q) = den ?f (?key @ q)" if "q \<noteq> []" for q using stands_get[OF ext(1) f(1)] that by (simp add: ext(2))
  have way: "way T p pre" using w(2,3,5,6) has get by (simp add: way_def)
  have part: "rz_ready S T (z\<lparr>prefix_buf := prefix_buf z @ q, focus_iter_token := NODE_ITER_INVALID\<rparr>) (p @ q)"
    if q: "?key @ q \<noteq> [] \<longrightarrow> node_get_child ?f (?key @ q) = None" for q
    using f(3,4,5) ext(1)[of q] q by (simp add: rz_ready_iff rz_static_def ext(2))
  have inner: "?key @ take n pre \<noteq> [] \<longrightarrow> node_get_child ?f (?key @ take n pre) = None" if n: "n < length pre" for n
  proof (intro impI, rule ccontr)
    assume ne: "?key @ take n pre \<noteq> []" and "node_get_child ?f (?key @ take n pre) \<noteq> None"
    then obtain l c' where g: "node_get_child ?f (?key @ take n pre) = Some (l, c')" by auto
    have "prefix (?key @ take n pre) (?key @ pre)" by (simp add: take_is_prefix)
    from node_get_child_prefix[OF f(7) this ne, of l c'] g have "l \<le> length (?key @ take n pre)"
      "node_get_child ?f (?key @ pre) = Some (l, c')" by blast+
    then show False using w(4) n by (cases c) auto
  qed
  have "rz_ready S T (let z1 = z\<lparr>prefix_buf := prefix_buf z @ pre, focus_iter_token := NODE_ITER_INVALID\<rparr>
      in case c of Some ch \<Rightarrow> z_push_node ch z1 | None \<Rightarrow> z1) (p @ pre)"
  proof (cases c)
    case None
    then show ?thesis using part[of pre] w(4) by simp
  next
    case (Some ch)
    have "key_at T (p @ pre) (ancestors z) \<noteq> []" "tok_ok S ?f (key_at T (p @ pre) (ancestors z)) NODE_ITER_INVALID"
      "node_get_child ?f (key_at T (p @ pre) (ancestors z)) = Some (length (key_at T (p @ pre) (ancestors z)), ch)"
      using w(2,4) Some by (simp_all add: ext(2))
    note en = stands_enter[OF ext(1) f(1) this(1,3,2)]
    show ?thesis using f(3,4,5) en Some
      by (simp add: z_push_node_def rz_ready_iff rz_static_def del: length_append)
  qed
  then show ?thesis using w(1) way part inner unfolding f(10) by blast
qed

lemma rz_count_prepare: "rz_reg S T z p \<Longrightarrow> z_child_count S (z_prepare_buffers z) = z_child_count S z"
  using rz_child_mask(2)[of S T z p] rz_child_mask(2)[of S T "z_prepare_buffers z" p] rz_prepare[of S T z p] rz_ready_reg by metis

lemma rz_one_way: "rz_reg S T z p \<Longrightarrow> z_child_count S z = 1 \<longleftrightarrow> one_way T p"
  by (simp add: rz_child_mask(2) one_way_def)

lemma rz_descend_first:
  assumes "rz_reg S T z p" "z_child_count S z = 1"
  shows "\<exists>pre z'. z_descend_first S z obs = Some (Ret (z', obs @ [Descended pre])) \<and> rz_ready S T z' (p @ pre) \<and> way T p pre"
proof -
  let ?z = "z_prepare_buffers z"
  from rz_only_way[OF rz_prepare[OF assms(1)]] assms(2) rz_count_prepare[OF assms(1)] obtain pre c where
    w: "node_first_child_from_key S (focus_node ?z) (z_node_key ?z) = Ret (Some pre, c)" "way T p pre"
    "rz_ready S T (let z1 = ?z\<lparr>prefix_buf := prefix_buf ?z @ pre, focus_iter_token := NODE_ITER_INVALID\<rparr>
      in case c of Some ch \<Rightarrow> z_push_node ch z1 | None \<Rightarrow> z1) (p @ pre)" by auto
  have ne: "pre \<noteq> []" using w(2) by (simp add: way_def)
  show ?thesis
    using w(2,3) ne by (subst z_descend_first.simps) (cases c; simp add: w(1) Let_def)
qed

lemma has_path_bound:
  assumes "wf_node n"
  shows "\<exists>B. \<forall>q. has_path n q \<longrightarrow> length q \<le> B"
  using assms
proof (induction "size n" arbitrary: n rule: less_induct)
  case less
  have "\<exists>B. \<forall>q. prefix q (fst i) \<or> prefix (fst i) q \<and> (\<exists>c. node_get_child n (fst i) = Some (length (fst i), c)) \<and> has_path n q \<longrightarrow>
      length q \<le> B" if i: "i \<in> set (node_items n)" for i
  proof (cases "fst (snd i)")
    case None
    have "node_get_child n (fst i) = None" using node_item_get(2)[OF less.prems i] None by simp
    then show ?thesis by (intro exI[of _ "length (fst i)"]) (auto dest: prefix_length_le)
  next
    case (Some c)
    then have mem: "(fst i, Some c, snd (snd i)) \<in> set (node_items n)" using i by (metis prod.collapse)
    note ne = item_nonempty[OF less.prems i]
    have g: "node_get_child n (fst i) = Some (length (fst i), c)" using node_item_get(2)[OF less.prems i] Some by simp
    note below = child_below(1,3)[OF less.prems ne g]
    obtain B where B: "\<And>q. has_path c q \<Longrightarrow> length q \<le> B"
      using less.hyps[OF _ below(2)] node_item_wf[OF less.prems mem] by blast
    have "length q \<le> length (fst i) + B" if q: "prefix (fst i) q" "has_path n q" for q
    proof -
      obtain w where w: "q = fst i @ w" using q(1) by (auto simp: prefix_def)
      then show ?thesis using below(1)[of w] B[of w] q(2) by simp
    qed
    then show ?thesis by (intro exI[of _ "length (fst i) + B"]) (auto dest: prefix_length_le)
  qed
  then obtain B where B: "\<And>i q. i \<in> set (node_items n) \<Longrightarrow>
      prefix q (fst i) \<or> prefix (fst i) q \<and> (\<exists>c. node_get_child n (fst i) = Some (length (fst i), c)) \<and> has_path n q \<Longrightarrow>
      length q \<le> B i" by metis
  have "length q \<le> sum_list (map B (node_items n))" if q: "has_path n q" for q
  proof (cases "q = []")
    case False
    then obtain j where j: "j \<in> set (node_items n)" "length q \<le> B j"
      using has_path_item[OF less.prems False q] B q by metis
    then show ?thesis using member_le_sum_list[of "B j" "map B (node_items n)"] by simp
  qed simp
  then show ?case by blast
qed

lemma tv_bound:
  assumes "tv_ok S T"
  obtains B where "\<And>q. tv_has T q \<Longrightarrow> length q \<le> B"
proof -
  obtain B where B: "\<And>q. has_path (tv_base T) q \<Longrightarrow> length q \<le> B"
    using has_path_bound[of "tv_base T"] assms by (auto simp: tv_ok_def)
  show ?thesis by (rule that[of B]) (use B in \<open>fastforce simp: tv_has_def\<close>)
qed

lemma one_way_has: "one_way T p \<Longrightarrow> \<exists>b. tv_has T (p @ [b])"
  unfolding one_way_def using card_1_singletonE by (metis (mono_tags, lifting) mem_Collect_eq singletonI)

text \<open>Where \<open>descend_until\<close> ends: as far along as there is one way and no value.\<close>

definition until_end :: "'v trie_view \<Rightarrow> path \<Rightarrow> path \<Rightarrow> bool" where
  "until_end T p q \<longleftrightarrow> along T p q \<and> (\<not> one_way T (p @ q) \<or> q \<noteq> [] \<and> tv_get T (p @ q) \<noteq> None)"

lemma rz_descend_until_loop:
  assumes "rz_reg S T z p" "\<And>q. tv_has T q \<Longrightarrow> length q \<le> B"
  shows "\<exists>q z' evs. z_descend_until_loop S moved z obs = Some (Ret (moved \<or> q \<noteq> [], z', obs @ evs)) \<and>
    rz_reg S T z' (p @ q) \<and> replay evs p = p @ q \<and> until_end T p q"
  using assms(1)
proof (induction "B - length p" arbitrary: p z moved obs rule: less_induct)
  case less
  show ?case
  proof (cases "one_way T p")
    case False
    then show ?thesis using less.prems rz_one_way[OF less.prems]
      by (intro exI[of _ "[]"] exI[of _ z] exI[of _ "[]"]) (simp add: z_descend_until_loop.simps[of S moved z] until_end_def)
  next
    case True
    then have c: "z_child_count S z = 1" using rz_one_way[OF less.prems] by simp
    obtain pre z1 where d: "z_descend_first S z obs = Some (Ret (z1, obs @ [Descended pre]))" "rz_ready S T z1 (p @ pre)" "way T p pre"
      using rz_descend_first[OF less.prems c] by blast
    note reg = rz_ready_reg[OF d(2)] and al = way_along[OF d(3) prefix_order.refl]
    have ne: "pre \<noteq> []" using d(3) by (simp add: way_def)
    note val = rz_is_val[OF rz_pos_reg[OF reg]]
    show ?thesis
    proof (cases "tv_get T (p @ pre) = None")
      case v: False
      have "z_descend_until_loop S moved z obs = Some (Ret (True, z1, obs @ [Descended pre]))"
        using v val by (subst z_descend_until_loop.simps) (simp add: c d(1))
      then show ?thesis using reg al ne v
        by (intro exI[of _ pre] exI[of _ z1] exI[of _ "[Descended pre]"]) (simp add: until_end_def)
    next
      case nv: True
      have lp: "z_descend_until_loop S moved z obs = z_descend_until_loop S True z1 (obs @ [Descended pre])"
        using nv val by (subst z_descend_until_loop.simps) (simp add: c d(1))
      obtain b where "tv_has T (p @ [b])" using one_way_has[OF True] by blast
      then have "length p < B" using assms(2) by fastforce
      then have less': "B - length (p @ pre) < B - length p" using ne by (cases pre) auto
      obtain q z2 evs where ih: "z_descend_until_loop S True z1 (obs @ [Descended pre]) = Some (Ret (True \<or> q \<noteq> [], z2, (obs @ [Descended pre]) @ evs))"
        "rz_reg S T z2 ((p @ pre) @ q)" "replay evs (p @ pre) = (p @ pre) @ q" "until_end T (p @ pre) q"
        using less.hyps[OF less' reg] by blast
      have "until_end T p (pre @ q)"
        using ih(4) along_append[OF al _ disjI2[OF nv]] nv by (auto simp: until_end_def)
      then show ?thesis using lp ih(1-3) ne
        by (intro exI[of _ "pre @ q"] exI[of _ z2] exI[of _ "Descended pre # evs"]) simp
    qed
  qed
qed

lemma rz_descend_until:
  assumes "rz_reg S T z p"
  shows "\<exists>q z' evs. z_descend_until S z obs = Some (Ret (q \<noteq> [], z', obs @ evs)) \<and>
    rz_reg S T z' (p @ q) \<and> replay evs p = p @ q \<and> until_end T p q"
proof -
  have "tv_ok S T" using assms by (auto simp: rz_reg_iff rz_static_def)
  then obtain B where "\<And>q. tv_has T q \<Longrightarrow> length q \<le> B" using tv_bound by blast
  from rz_descend_until_loop[OF assms this, of False obs] show ?thesis by (simp add: z_descend_until_def)
qed

lemma rz_descend_max_loop:
  assumes "rz_reg S T z p"
  shows "\<exists>q z' evs. z_descend_max_loop S moved n z obs = Some (Ret (moved \<or> q \<noteq> [], z', obs @ evs)) \<and>
    rz_reg S T z' (p @ q) \<and> replay evs p = p @ q \<and> length q \<le> n \<and> along T p q \<and> (length q < n \<longrightarrow> until_end T p q)"
  using assms
proof (induction n arbitrary: p z moved obs rule: less_induct)
  case (less n)
  show ?case
  proof (cases "one_way T p \<and> 0 < n")
    case False
    then show ?thesis using less.prems rz_one_way[OF less.prems]
      by (intro exI[of _ "[]"] exI[of _ z] exI[of _ "[]"]) (auto simp: z_descend_max_loop.simps[of S moved n z] until_end_def)
  next
    case True
    then have c: "z_child_count S z = 1" "0 < n" using rz_one_way[OF less.prems] by simp_all
    let ?z = "z_prepare_buffers z"
    have "z_child_count S ?z = 1" using c(1) rz_count_prepare[OF less.prems] by simp
    from rz_only_way[OF rz_prepare[OF less.prems] this] obtain pre ch where
      w: "node_first_child_from_key S (focus_node ?z) (z_node_key ?z) = Ret (Some pre, ch)" "way T p pre"
      "\<And>i. i < length pre \<Longrightarrow> rz_ready S T (?z\<lparr>prefix_buf := prefix_buf ?z @ take i pre, focus_iter_token := NODE_ITER_INVALID\<rparr>) (p @ take i pre)"
      "rz_ready S T (let z1 = ?z\<lparr>prefix_buf := prefix_buf ?z @ pre, focus_iter_token := NODE_ITER_INVALID\<rparr>
        in case ch of Some cn \<Rightarrow> z_push_node cn z1 | None \<Rightarrow> z1) (p @ pre)" by blast
    have ne: "pre \<noteq> []" using w(2) by (simp add: way_def)
    show ?thesis
    proof (cases "n < length pre")
      case short: True
      have "z_descend_max_loop S moved n z obs = Some (Ret (True,
          ?z\<lparr>prefix_buf := prefix_buf ?z @ take n pre, focus_iter_token := NODE_ITER_INVALID\<rparr>, obs @ [Descended (take n pre)]))"
        using c short ne by (subst z_descend_max_loop.simps) (simp add: w(1) Let_def min_def)
      moreover have "along T p (take n pre)" by (rule way_along[OF w(2) take_is_prefix])
      ultimately show ?thesis using rz_ready_reg[OF w(3)[OF short]] short c(2) ne
        by (intro exI[of _ "take n pre"] exI[of _ "?z\<lparr>prefix_buf := prefix_buf ?z @ take n pre, focus_iter_token := NODE_ITER_INVALID\<rparr>"]
            exI[of _ "[Descended (take n pre)]"]) simp
    next
      case False
      define z2 where "z2 = (let z1 = ?z\<lparr>prefix_buf := prefix_buf ?z @ pre, focus_iter_token := NODE_ITER_INVALID\<rparr>
        in case ch of Some cn \<Rightarrow> z_push_node cn z1 | None \<Rightarrow> z1)"
      have z2: "rz_ready S T z2 (p @ pre)" using w(4) by (simp add: z2_def)
      note reg = rz_ready_reg[OF z2] and al = way_along[OF w(2) prefix_order.refl]
      note val = rz_is_val[OF rz_pos_reg[OF reg]]
      have lp: "z_descend_max_loop S moved n z obs =
          (if z_is_val z2 then Some (Ret (True, z2, obs @ [Descended pre])) else z_descend_max_loop S True (n - length pre) z2 (obs @ [Descended pre]))"
        using c False ne by (subst z_descend_max_loop.simps) (cases ch; simp add: w(1) Let_def z2_def min.absorb2 cong: if_cong)
      show ?thesis
      proof (cases "tv_get T (p @ pre) = None")
        case v: False
        then show ?thesis using lp val reg al ne False
          by (intro exI[of _ pre] exI[of _ z2] exI[of _ "[Descended pre]"]) (simp add: until_end_def)
      next
        case nv: True
        have "n - length pre < n" using ne c(2) by simp
        from less.IH[OF this reg] obtain q z3 evs where
          ih: "z_descend_max_loop S True (n - length pre) z2 (obs @ [Descended pre]) = Some (Ret (True \<or> q \<noteq> [], z3, (obs @ [Descended pre]) @ evs))"
          "rz_reg S T z3 ((p @ pre) @ q)" "replay evs (p @ pre) = (p @ pre) @ q" "length q \<le> n - length pre"
          "along T (p @ pre) q" "length q < n - length pre \<longrightarrow> until_end T (p @ pre) q" by blast
        have app: "along T p (pre @ q)" by (rule along_append[OF al ih(5) disjI2[OF nv]])
        then have "length (pre @ q) < n \<longrightarrow> until_end T p (pre @ q)" using ih(6) nv False by (auto simp: until_end_def)
        then show ?thesis using lp val nv ih(1-4) app ne False
          by (intro exI[of _ "pre @ q"] exI[of _ z3] exI[of _ "Descended pre # evs"]) simp
      qed
    qed
  qed
qed

lemma rz_descend_until_max_bytes:
  assumes "rz_reg S T z p"
  shows "\<exists>q z' evs. z_descend_until_max_bytes S n z obs = Some (Ret (q \<noteq> [], z', obs @ evs)) \<and>
    rz_reg S T z' (p @ q) \<and> replay evs p = p @ q \<and> length q \<le> n \<and> along T p q \<and> (length q < n \<longrightarrow> until_end T p q)"
proof (cases "n = 0")
  case True
  then show ?thesis using assms
    by (intro exI[of _ "[]"] exI[of _ z] exI[of _ "[]"]) (simp add: z_descend_until_max_bytes_def)
next
  case False
  then show ?thesis using rz_descend_max_loop[OF assms, of False n obs] by (simp add: z_descend_until_max_bytes_def)
qed

end
