(* ===== verification/Read_Zipper_K_Paths.thy ===== *)
theory Read_Zipper_K_Paths
  imports Read_Zipper_Paths
begin

text \<open>
  \<open>descend_first_k_path\<close> and \<open>to_next_k_path\<close>: the search for the next path that is \<open>k\<close> bytes below a base
  ends, answers the next such path in the order of the paths or goes back to the base when there is
  none, and leaves the zipper in regular form.
\<close>

subsection \<open>Paths of one length\<close>

text \<open>The paths \<open>k\<close> bytes below \<open>base\<close>, and those of them an iteration has still to come to.\<close>

definition k_paths :: "'v trie_view \<Rightarrow> path \<Rightarrow> nat \<Rightarrow> path set" where
  "k_paths T base k = {q. tv_has T q \<and> length q = length base + k \<and> prefix base q}"

definition k_todo :: "'v trie_view \<Rightarrow> path \<Rightarrow> nat \<Rightarrow> 'v read_zipper \<Rightarrow> path \<Rightarrow> path set" where
  "k_todo T base k z p = {q \<in> k_paths T base k. ahead T z p q}"

text \<open>A zipper between two turns; \<open>skip\<close> says that the paths below its focus are finished.\<close>

definition rz_k :: "slice_utils \<Rightarrow> 'v trie_view \<Rightarrow> path \<Rightarrow> nat \<Rightarrow> bool \<Rightarrow> 'v read_zipper \<Rightarrow> path \<Rightarrow> bool" where
  "rz_k S T base k skip z p \<longleftrightarrow> rz_any S T z p \<and> prefix base p \<and> (p = base \<longrightarrow> rz_ready S T z p) \<and>
     (length p < length base + k \<or> length p = length base + k \<and> skip \<and> key_at T p (ancestors z) \<noteq> []) \<and>
     (skip \<or> focus_iter_token z = NODE_ITER_INVALID \<longrightarrow> is_open T z p \<or> length p = length base + k)"

lemma path_less_take_right:
  "path_less a b \<Longrightarrow> length a \<le> r \<Longrightarrow> a \<noteq> take r b \<Longrightarrow> path_less a (take r b)"
proof (induction a arbitrary: b r)
  case Nil
  then show ?case by (cases "take r b") auto
next
  case (Cons x a)
  then obtain y b' r' where b: "b = y # b'" "r = Suc r'" by (cases b; cases r) auto
  then show ?case using Cons.prems Cons.IH[of b' r'] by auto
qed

lemma path_less_take_mono: "a = b \<or> path_less a b \<Longrightarrow> take r a = take r b \<or> path_less (take r a) (take r b)"
proof (induction a arbitrary: b r)
  case Nil
  then show ?case by (cases "take r b") auto
next
  case (Cons x a)
  then obtain y b' where b: "b = y # b'" by (cases b) auto
  then show ?case using Cons.prems Cons.IH[of b'] by (cases r) auto
qed

lemma path_le_trans: "a = b \<or> path_less a b \<Longrightarrow> b = c \<or> path_less b c \<Longrightarrow> a = c \<or> path_less a c"
  using path_less_trans by blast

lemma path_le_prefix: "prefix a b \<Longrightarrow> a = b \<or> path_less a b"
  using path_less_strict_prefix by blast

text \<open>A path still to come, below the focus node: it is on an item the cursor will come to.\<close>

lemma k_inside:
  assumes z: "rz_any S T z p" and q: "tv_has T q" "ahead T z p q" "within T (ancestors z) p q"
    and skip: "skip \<Longrightarrow> is_open T z p \<or> length q = length p"
  defines "key \<equiv> key_at T p (ancestors z)" and "kq \<equiv> key_at T q (ancestors z)"
  shows "\<exists>j \<in> set (node_items (focus_node z)). after key skip (fst j) \<and> (prefix (fst j) kq \<or> prefix kq (fst j))"
proof -
  note f = rz_any_facts[OF z] and wl = within_less[OF q(3), folded key_def kq_def]
  let ?f = "focus_node z"
  have less: "path_less key kq" using q(2) wl(1) by (simp add: ahead_def)
  have np: "is_open T z p \<Longrightarrow> \<not> prefix key kq" using q(2) wl(2) by (simp add: ahead_def)
  have len: "length kq = length key" if "length q = length p"
    using that stands_bounds(3)[OF f(6,1)] stands_bounds(3)[OF stands_within[OF f(6,1) q(3)] f(1)]
    by (simp add: key_def kq_def)
  have "kq \<noteq> []" using less by auto
  moreover have "has_path ?f kq" using stands_has[OF stands_within[OF f(6,1) q(3)] f(1)] q(1) by (simp add: kq_def)
  ultimately obtain j where j: "j \<in> set (node_items ?f)"
    "prefix kq (fst j) \<or> prefix (fst j) kq \<and> (\<exists>c. node_get_child ?f (fst j) = Some (length (fst j), c))"
    using has_path_item[OF f(7)] by blast
  note ne = item_nonempty[OF f(7) j(1)]
  from j(2) show ?thesis
  proof
    assume pk: "prefix kq (fst j)"
    then have lj: "path_less key (fst j)" using less path_less_strict_prefix[OF pk] path_less_trans by blast
    have "\<not> prefix key (fst j)" if s: skip
    proof
      assume "prefix key (fst j)"
      then consider "prefix key kq" | "prefix kq key" using prefix_same_cases[OF pk] by blast
      then show False
      proof cases
        case 1
        then show ?thesis using skip[OF s] np len less by (auto simp: prefix_def)
      next
        case 2
        then show ?thesis using less path_less_strict_prefix[OF 2] path_less_asym by blast
      qed
    qed
    then show ?thesis using j(1) lj pk by (intro bexI[of _ j]) (auto simp: after_def)
  next
    assume "prefix (fst j) kq \<and> (\<exists>c. node_get_child ?f (fst j) = Some (length (fst j), c))"
    then obtain c where pk: "prefix (fst j) kq" and g: "node_get_child ?f (fst j) = Some (length (fst j), c)" by blast
    have nj: "fst j \<noteq> key"
    proof
      assume "fst j = key"
      then have "is_open T z p" "prefix key kq" using g ne pk by (simp_all add: is_open_def key_def)
      then show False using np by blast
    qed
    have "\<not> path_less (fst j) key"
    proof
      assume lk: "path_less (fst j) key"
      have pre: "prefix (fst j) key" using path_less_between[OF pk lk less] .
      then have "node_get_child ?f key = Some (length (fst j), c)" using node_get_child_prefix[OF f(7) pre ne] g by blast
      moreover have "key \<noteq> []" using pre ne by auto
      ultimately have "length (fst j) = length key" using rz_any_link[OF z] by (simp add: key_def)
      then show False using pre nj by (auto simp: prefix_def)
    qed
    then have lj: "path_less key (fst j)" using nj path_less_linear by blast
    have "\<not> prefix key (fst j)" if s: skip
    proof
      assume pj: "prefix key (fst j)"
      then have "prefix key kq" using pk prefix_order.trans by blast
      then have "length kq = length key" using skip[OF s] np len by blast
      then have "fst j = key" using pj pk prefix_length_le by (fastforce simp: prefix_def)
      then show False using nj by blast
    qed
    then show ?thesis using j(1) lj pk by (intro bexI[of _ j]) (auto simp: after_def)
  qed
qed

lemma rz_k_facts:
  assumes "rz_k S T base k skip z p"
  shows "rz_any S T z p" "prefix base p" "length base \<le> length p" "length p \<le> length base + k"
    "p = base \<Longrightarrow> rz_ready S T z p"
    "length p = length base + k \<Longrightarrow> skip \<and> key_at T p (ancestors z) \<noteq> []"
    "skip \<Longrightarrow> is_open T z p \<or> length p = length base + k"
  using assms prefix_length_le[of base p] by (auto simp: rz_k_def)

lemma rz_k_token:
  assumes "rz_k S T base k skip z p"
  shows "rz_k S T base k (skip \<or> focus_iter_token z = NODE_ITER_INVALID) (z_with_token S z) p"
    "node_at S (focus_node z) (key_at T p (ancestors z)) (focus_iter_token (z_with_token S z))"
    "k_todo T base k (z_with_token S z) p = k_todo T base k z p" "rz_work T (z_with_token S z) p = rz_work T z p"
proof -
  have z: "rz_any S T z p" using assms by (simp add: rz_k_def)
  note f = rz_any_facts[OF z]
  note wt = rz_any_token[OF z]
  have op: "is_open T (z_with_token S z) p = is_open T z p" by (simp add: is_open_def wt(3,4))
  have "focus_iter_token (z_with_token S z) \<noteq> NODE_ITER_INVALID"
    using cursor.at_ordinary[OF cursor_ok_wf[OF f(2,7)] wt(2)] by simp
  then show "rz_k S T base k (skip \<or> focus_iter_token z = NODE_ITER_INVALID) (z_with_token S z) p"
    using assms wt(1) rz_with_token(1)[of S T z p] unfolding rz_k_def op wt(4) by auto
  show "k_todo T base k (z_with_token S z) p = k_todo T base k z p" by (simp add: k_todo_def ahead_def op)
  show "rz_work T (z_with_token S z) p = rz_work T z p" by (simp add: rz_work_def wt(3,4))
qed (use rz_any_token(2)[of S T z p] assms in \<open>simp add: rz_k_def\<close>)

lemma rz_any_open: "rz_any S T z p \<Longrightarrow> key_at T p (ancestors z) \<noteq> [] \<Longrightarrow> rz_open S T z p"
  by (simp add: rz_any_def rz_open_def)

lemma k_base: "prefix base p \<Longrightarrow> take (length (tv_buf T base)) (tv_buf T p) = tv_buf T base"
  by (auto simp: prefix_def)

lemma k_within:
  assumes "prefix base p" "prefix base q" "key_start_of (tv_start T) anc \<le> length (tv_buf T base)"
  shows "within T anc p q"
  using assms unfolding within_def prefix_def by auto

text \<open>The end of the search: back to \<open>base\<close>.\<close>

lemma k_stop:
  assumes z: "rz_k S T base k skip z p" and ks: "z_node_key_start z \<le> length (tv_buf T base)"
  shows "\<exists>z' evs. z_k_path_stop always (length (tv_buf T base)) z obs = Ret (Inr (False, z'), obs @ evs) \<and>
    rz_ready S T z' base \<and> replay evs p = base"
proof -
  note f = rz_any_facts[OF rz_k_facts(1)[OF z]] and k = rz_k_facts[OF z]
  let ?m = "length p - length base"
  have ex: "length (prefix_buf z) - length (tv_buf T base) = ?m" unfolding f(5) by simp
  have base: "take (length p - ?m) p = base" using k(2,3) by (auto simp: prefix_def)
  show ?thesis
  proof (cases "?m = 0")
    case True
    then have p: "p = base" using k(2) by (auto simp: prefix_def)
    have "take (length (tv_buf T base)) (prefix_buf z) = prefix_buf z" unfolding f(5) p by simp
    then have "z\<lparr>prefix_buf := take (length (tv_buf T base)) (prefix_buf z)\<rparr> = z" by simp
    then show ?thesis using k(5)[OF p] True unfolding z_k_path_stop_def Let_def ex
      by (intro exI[of _ z] exI[of _ "if always then [Ascended 0] else []"]) (simp add: p)
  next
    case False
    have len: "?m \<le> length (key_at T p (ancestors z))" "?m \<le> length p"
      using stands_bounds(2,3)[OF f(6,1)] ks k(3) unfolding f(10) by auto
    then have "key_at T p (ancestors z) \<noteq> []" using False by auto
    note op = rz_any_open[OF k(1) this]
    have "0 < ?m" using False by simp
    from rz_truncate[OF op this len] obtain z' where
      z': "z_reascend_iter_token ?m (z\<lparr>prefix_buf := take (length (prefix_buf z) - ?m) (prefix_buf z)\<rparr>) = Ret z'"
      "rz_ready S T z' base" unfolding base by blast
    have "length (prefix_buf z) - ?m = length (tv_buf T base)" using k(3) unfolding f(5) by simp
    moreover have "take (length base) p = base" using k(2) by (auto simp: prefix_def)
    ultimately show ?thesis using z' False unfolding z_k_path_stop_def Let_def ex
      by (intro exI[of _ z'] exI[of _ "[Ascended ?m]"]) simp
  qed
qed

lemma k_none:
  assumes z: "rz_k S T base k skip z p"
    and none: "next_item (node_items (focus_node z)) (key_at T p (ancestors z)) skip = None"
    and q: "q \<in> k_todo T base k z p"
  shows "\<not> within T (ancestors z) p q"
proof
  assume w: "within T (ancestors z) p q"
  note k = rz_k_facts[OF z]
  note f = rz_any_facts[OF k(1)]
  have "skip \<Longrightarrow> is_open T z p \<or> length q = length p" using k(7) q by (auto simp: k_todo_def k_paths_def)
  then obtain j where "j \<in> set (node_items (focus_node z))" "after (key_at T p (ancestors z)) skip (fst j)"
    using k_inside[OF k(1) _ _ w, of skip] q by (auto simp: k_todo_def k_paths_def)
  then show False using next_item_cases(1)[OF cursor_sorted[OF f(2,7)] none] by blast
qed

text \<open>What one turn does.\<close>

definition k_turn_ok ::
  "slice_utils \<Rightarrow> 'v trie_view \<Rightarrow> path \<Rightarrow> nat \<Rightarrow> 'v read_zipper \<Rightarrow> path \<Rightarrow> ('v read_zipper + bool \<times> 'v read_zipper) \<Rightarrow> observer \<Rightarrow> bool" where
  "k_turn_ok S T base k z p r evs \<longleftrightarrow>
     (case r of
        Inl z' \<Rightarrow> rz_k S T base k False z' (replay evs p) \<and> k_todo T base k z' (replay evs p) = k_todo T base k z p \<and>
          rz_work T z' (replay evs p) < rz_work T z p
      | Inr (True, z') \<Rightarrow> rz_ready S T z' (replay evs p) \<and> replay evs p \<in> k_todo T base k z p \<and>
          (\<forall>q \<in> k_todo T base k z p. q = replay evs p \<or> path_less (replay evs p) q)
      | Inr (False, z') \<Rightarrow> rz_ready S T z' base \<and> replay evs p = base \<and> k_todo T base k z p = {})"

lemma k_turn_stop:
  assumes z: "rz_k S T base k skip z p" and ks: "z_node_key_start z \<le> length (tv_buf T base)"
    and none: "k_todo T base k z p = {}"
  shows "\<exists>r evs. z_k_path_stop always (length (tv_buf T base)) z obs = Ret (r, obs @ evs) \<and> k_turn_ok S T base k z p r evs"
proof -
  obtain z' evs where "z_k_path_stop always (length (tv_buf T base)) z obs = Ret (Inr (False, z'), obs @ evs)"
    "rz_ready S T z' base" "replay evs p = base" using k_stop[OF z ks] by blast
  then show ?thesis using none by (intro exI[of _ "Inr (False, z')"] exI[of _ evs]) (simp add: k_turn_ok_def)
qed

lemma k_turn_pop:
  assumes z: "rz_k S T base k skip z p"
    and none: "next_item (node_items (focus_node z)) (key_at T p (ancestors z)) skip = None"
    and ks: "length (tv_buf T base) < z_node_key_start z"
  shows "\<exists>n t i anc. ancestors z = (n, t, i) # anc \<and>
    (let z' = z\<lparr>ancestors := anc, focus_node := n, focus_iter_token := t, prefix_buf := take i (prefix_buf z)\<rparr>
     in k_turn_ok S T base k z p (Inl z') [observed_ascent (length (origin_path z)) (length (prefix_buf z)) i])"
proof -
  note k = rz_k_facts[OF z]
  note f = rz_any_facts[OF k(1)]
  have "ancestors z \<noteq> []"
  proof
    assume a: "ancestors z = []"
    have "tv_start T \<le> length (tv_origin T)" using f(1) by (simp add: tv_ok_def)
    then show False using ks unfolding f(10) a by simp
  qed
  then obtain n t i anc where anc: "ancestors z = (n, t, i) # anc" by (cases "ancestors z") auto
  note pop = rz_pop[OF k(1) anc]
  let ?p = "take (i - length (tv_origin T)) p"
  let ?z = "z\<lparr>ancestors := anc, focus_node := n, focus_iter_token := t, prefix_buf := take i (prefix_buf z)\<rparr>"
  have i: "length (tv_buf T base) < i" using ks unfolding f(10) anc by simp
  have o: "origin_path z = tv_origin T" using f(3) by (simp add: rz_static_def)
  have rep: "replay [observed_ascent (length (origin_path z)) (length (prefix_buf z)) i] p = ?p"
    using pop(4,5) unfolding f(5) o observed_ascent_def by (simp add: diff_diff_eq max_def)
  have len: "length ?p = i - length (tv_origin T)" using pop(4,5) by simp
  have short: "length ?p < length base + k"
  proof (cases "length p < length base + k")
    case False
    then have "key_at T p (ancestors z) \<noteq> []" using k(4,6) by auto
    then have "drop i (tv_buf T p) \<noteq> []" by (simp only: anc key_at_Cons not_False_eq_True)
    then have "i < length (tv_buf T p)" by (metis drop_all not_le)
    then show ?thesis using len pop(4) k(4) by simp
  qed simp
  have base: "prefix base ?p" "?p \<noteq> base"
  proof -
    have "prefix (take (length base) p) ?p" using i by (metis less_imp_le take_take min.absorb1 take_is_prefix length_append le_diff_conv2 add.commute pop(4))
    then show "prefix base ?p" using k(2) by (auto simp: prefix_def)
    show "?p \<noteq> base" using len i by auto
  qed
  have "q \<in> k_todo T base k ?z ?p \<longleftrightarrow> q \<in> k_todo T base k z p" for q
  proof (cases "q \<in> k_paths T base k")
    case True
    have "ahead T z p q \<Longrightarrow> \<not> prefix ?p q" using k_none[OF z none, of q] pop(6)[of q] True by (simp add: k_todo_def)
    from pop_ahead[OF take_is_prefix pop(2) this] show ?thesis by (simp add: k_todo_def)
  qed (simp add: k_todo_def)
  moreover have "rz_k S T base k False ?z ?p" using pop(1,2) base short unfolding rz_k_def by blast
  ultimately have "k_turn_ok S T base k z p (Inl ?z) [observed_ascent (length (origin_path z)) (length (prefix_buf z)) i]"
    using pop(3) unfolding k_turn_ok_def rep by auto
  then show ?thesis using anc by (simp add: Let_def)
qed

lemma k_key_start: "rz_k S T base k skip z p \<Longrightarrow> z_node_key_start z = key_start_of (tv_start T) (ancestors z)"
  by (rule rz_any_facts(10)[OF rz_k_facts(1)])

lemma k_test:
  assumes "rz_k S T base k skip z p"
  defines "ks \<equiv> z_node_key_start z" and "B \<equiv> length (tv_buf T base)"
  shows "ks < B \<and> (length key < B - ks \<or> take (B - ks) key \<noteq> subrange ks B (prefix_buf z)) \<longleftrightarrow>
    ks < B \<and> \<not> prefix (key_at T base (ancestors z)) key"
proof -
  note k = rz_k_facts[OF assms(1)]
  note f = rz_any_facts[OF k(1)]
  have "subrange ks B (prefix_buf z) = key_at T base (ancestors z)"
    unfolding f(5) subrange_alt B_def k_base[OF k(2)] by (simp add: ks_def f(10) key_at_def)
  moreover have "length (key_at T base (ancestors z)) = B - ks" by (simp add: ks_def f(10) key_at_def B_def)
  moreover have "prefix a b \<longleftrightarrow> length a \<le> length b \<and> take (length a) b = a" for a b :: path
    using take_prefix_iff[of "length a" a b] by auto
  ultimately show ?thesis by auto
qed

lemma k_outside:
  assumes z: "rz_k S T base k skip z p"
    and i: "next_item (node_items (focus_node z)) (key_at T p (ancestors z)) skip = Some i"
    and out: "z_node_key_start z < length (tv_buf T base)" "\<not> prefix (key_at T base (ancestors z)) (fst i)"
  shows "k_todo T base k z p = {}"
proof (rule ccontr)
  assume "k_todo T base k z p \<noteq> {}"
  then obtain q where q: "q \<in> k_todo T base k z p" by blast
  note k = rz_k_facts[OF z]
  note f = rz_any_facts[OF k(1)]
  note least = next_item_cases(2,3)[OF cursor_sorted[OF f(2,7)] i]
  let ?kb = "key_at T base (ancestors z)" and ?kq = "key_at T q (ancestors z)"
  have ks: "key_start_of (tv_start T) (ancestors z) \<le> length (tv_buf T base)" using out(1) by (simp add: f(10))
  have qk: "tv_has T q" "ahead T z p q" "prefix base q" "length q = length base + k"
    using q by (auto simp: k_todo_def k_paths_def)
  note w = k_within[OF k(2) qk(3) ks]
  have wb: "within T (ancestors z) base p" "within T (ancestors z) base q"
    using k_within[OF prefix_order.refl _ ks] k(2) qk(3) by blast+
  have kb: "prefix ?kb (key_at T p (ancestors z))" "prefix ?kb ?kq"
    using within_less(2)[OF wb(1)] within_less(2)[OF wb(2)] k(2) qk(3) by auto
  have "skip \<Longrightarrow> is_open T z p \<or> length q = length p" using k(7) qk(4) by auto
  from k_inside[OF k(1) qk(1,2) w this] obtain j where j: "j \<in> set (node_items (focus_node z))"
    "after (key_at T p (ancestors z)) skip (fst j)" "prefix (fst j) ?kq \<or> prefix ?kq (fst j)" by blast
  have "path_less (key_at T p (ancestors z)) (fst i)" using least(1) by (simp add: after_def)
  then have less: "path_less ?kb (fst i)" using path_less_strict_prefix[OF kb(1)] path_less_trans[of ?kb] by metis
  have ij: "fst i = fst j \<or> path_less (fst i) (fst j)" using least(2)[OF j(1,2)] by auto
  have no: False if "prefix ?kb b" "fst i = b \<or> path_less (fst i) b" for b
    using that path_less_between[OF that(1) less] out(2) by blast
  from j(3) show False
  proof
    assume "prefix (fst j) ?kq"
    then have "fst i = ?kq \<or> path_less (fst i) ?kq" by (rule path_le_trans[OF ij path_le_prefix])
    then show False using no[OF kb(2)] by blast
  next
    assume "prefix ?kq (fst j)"
    then have "prefix ?kb (fst j)" using kb(2) prefix_order.trans by blast
    then show False using no ij by blast
  qed
qed

lemma prefix_takeI: "prefix a b \<Longrightarrow> length a \<le> r \<Longrightarrow> prefix a (take r b)"
  by (auto simp: prefix_def)

text \<open>An item that goes on below \<open>base\<close>: its part up to the length looked for is the next path.\<close>

lemma k_next:
  assumes z: "rz_k S T base k skip z p"
    and i: "next_item (node_items (focus_node z)) (key_at T p (ancestors z)) skip = Some (k0, c, v)"
    and acc: "z_node_key_start z < length (tv_buf T base) \<longrightarrow> prefix (key_at T base (ancestors z)) k0"
  defines "r \<equiv> length (tv_buf T base) + k - z_node_key_start z"
  defines "p' \<equiv> item_path T (ancestors z) p (take r k0)"
  shows "\<not> outside T (ancestors z) (take r k0)" "length (key_at T p (ancestors z)) \<le> r" "path_less (key_at T p (ancestors z)) (take r k0)"
    "ahead T z p p'" "prefix base p'" "p' \<noteq> base"
    "q \<in> k_todo T base k z p \<Longrightarrow> q = p' \<or> path_less p' q"
    "tv_has T p'" "length p' + (r - length (take r k0)) = length base + k"
proof -
  note k = rz_k_facts[OF z]
  note f = rz_any_facts[OF k(1)]
  note least = next_item_cases(2,3)[OF cursor_sorted[OF f(2,7)] i]
  let ?f = "focus_node z" and ?anc = "ancestors z" and ?key = "key_at T p (ancestors z)" and ?kk = "take r k0"
  let ?ks = "key_start_of (tv_start T) (ancestors z)" and ?kb = "key_at T base (ancestors z)"
  note b = stands_bounds[OF f(6,1)]
  have mem: "(k0, c, v) \<in> set (node_items ?f)" and aft: "after ?key skip k0" using least(1) by auto
  have less: "path_less ?key k0" using aft by (simp add: after_def)
  have r: "r = length (tv_buf T base) + k - ?ks" by (simp add: r_def f(10))
  have total: "length (tv_buf T p) \<le> length (tv_buf T base) + k" using k(4) by simp
  show lk: "length ?key \<le> r" using b(2,3) total unfolding r by linarith
  have "?key \<noteq> ?kk"
  proof
    assume eq: "?key = ?kk"
    show False
    proof (cases "length k0 \<le> r")
      case True
      then show ?thesis using eq less by simp
    next
      case False
      then have "length ?key = r" unfolding eq by simp
      then have "length (tv_buf T p) = length (tv_buf T base) + k" using b(2,3) total unfolding r by linarith
      then have "skip" "?key \<noteq> []" using k(6) by auto
      then show ?thesis using aft eq take_is_prefix[of r k0] by (simp add: after_def)
    qed
  qed
  then show kl: "path_less ?key ?kk" by (rule path_less_take_right[OF less lk])
  have kb: "prefix ?kb ?kk" if "?ks \<le> length (tv_buf T base)"
  proof (cases "?ks < length (tv_buf T base)")
    case True
    then have "prefix ?kb k0" using acc by (simp add: f(10))
    moreover have "length ?kb \<le> r" unfolding r by (simp add: key_at_def)
    ultimately show ?thesis by (rule prefix_takeI)
  next
    case False
    then show ?thesis by (simp add: key_at_def)
  qed
  show ins: "\<not> outside T ?anc ?kk"
  proof
    assume out: "outside T ?anc ?kk"
    have "tv_start T \<le> length (tv_origin T)" using f(1) by (simp add: tv_ok_def)
    then have "prefix ?kb ?kk" "?kb = tv_key T @ base" using kb out key_at_root[OF f(1)] by (simp_all add: outside_def)
    then show False using out prefix_order.trans[of "tv_key T" "tv_key T @ base" ?kk] by (simp add: outside_def)
  qed
  note ip = item_path[OF k(1) ins, folded p'_def]
  have pp: "path_less p p'" using within_less(1)[OF ip(2)] kl by (simp add: ip(3))
  have "\<not> prefix p p'" if op: "is_open T z p"
  proof
    assume "prefix p p'"
    then have "prefix ?key ?kk" using within_less(2)[OF ip(2)] by (simp add: ip(3))
    then have pk: "prefix ?key k0" using take_is_prefix prefix_order.trans by blast
    obtain l ch where "node_get_child ?f ?key = Some (l, ch)" "?key \<noteq> []" using op by (auto simp: is_open_def)
    then have "k0 = ?key" using no_item_below_link[OF f(7) _ _ mem] rz_any_link[OF k(1)] pk by fastforce
    then show False using less by simp
  qed
  then show "ahead T z p p'" using pp by (simp add: ahead_def)
  show pb: "prefix base p'"
  proof -
    have "prefix (tv_buf T base) (tv_buf T p')"
    proof (cases "?ks \<le> length (tv_buf T base)")
      case True
      have "take ?ks (take (length (tv_buf T base)) (tv_buf T p)) = take ?ks (tv_buf T p)"
        using True by (simp only: take_take min.absorb1)
      then have "take ?ks (tv_buf T p) = take ?ks (tv_buf T base)" unfolding k_base[OF k(2)] by (rule sym)
      moreover have "tv_buf T base = take ?ks (tv_buf T base) @ ?kb" unfolding key_at_def by (rule append_take_drop_id[symmetric])
      ultimately show ?thesis using kb[OF True] unfolding ip(1) by (metis same_prefix_prefix)
    next
      case False
      then have "prefix (take (length (tv_buf T base)) (tv_buf T p)) (take ?ks (tv_buf T p))"
        by (metis less_imp_le not_le min.absorb1 take_is_prefix take_take)
      then show ?thesis unfolding ip(1) k_base[OF k(2)] by (rule prefix_prefix)
    qed
    then show ?thesis by simp
  qed
  show "p' \<noteq> base" using pp path_less_strict_prefix[OF k(2)] path_less_asym by blast
  have st: "stands S T p' ?anc ?f" by (rule stands_within[OF f(6,1) ip(2)])
  have "has_path ?f ?kk" using item_has_path[OF f(7) mem] has_path_prefix take_is_prefix by fastforce
  then show "tv_has T p'" using stands_has[OF st f(1)] by (simp add: ip(3))
  have "length (tv_buf T p') = ?ks + length ?kk" using stands_bounds(2,3)[OF st f(1)] unfolding ip(3) by linarith
  moreover have "length ?kk \<le> r" by simp
  moreover have "?ks \<le> length (tv_buf T base) + k" using b(2) total by linarith
  ultimately have "length (tv_buf T p') + (r - length ?kk) = length (tv_buf T base) + k" unfolding r by linarith
  then show "length p' + (r - length (take r k0)) = length base + k" by simp
  assume q: "q \<in> k_todo T base k z p"
  then have qk: "tv_has T q" "ahead T z p q" "length q = length base + k" by (auto simp: k_todo_def k_paths_def)
  show "q = p' \<or> path_less p' q"
  proof (cases "within T ?anc p q")
    case False
    then show ?thesis using not_within_less[OF ip(2) False _ b(2)] qk(2) by (simp add: ahead_def)
  next
    case w: True
    have win': "within T ?anc p' q" using w ip(2) by (simp add: within_def)
    let ?kq = "key_at T q ?anc"
    have kq: "length ?kq = r" using stands_bounds(3)[OF stands_within[OF f(6,1) w] f(1)] qk(3) unfolding r by simp
    have "skip \<Longrightarrow> is_open T z p \<or> length q = length p" using k(7) qk(3) by auto
    from k_inside[OF k(1) qk(1,2) w this] obtain j where j: "j \<in> set (node_items ?f)" "after ?key skip (fst j)"
      "prefix (fst j) ?kq \<or> prefix ?kq (fst j)" by blast
    have "k0 = fst j \<or> path_less k0 (fst j)" using least(2)[OF j(1,2)] by auto
    then have le: "?kk = take r (fst j) \<or> path_less ?kk (take r (fst j))" by (rule path_less_take_mono)
    have "take r (fst j) = ?kq \<or> path_less (take r (fst j)) ?kq"
      using j(3)
    proof
      assume "prefix (fst j) ?kq"
      then show ?thesis using path_less_strict_prefix[of "fst j" ?kq] prefix_length_le[of "fst j" ?kq] kq by auto
    next
      assume "prefix ?kq (fst j)"
      then show ?thesis using kq by (auto simp: prefix_def)
    qed
    then have "?kk = ?kq \<or> path_less ?kk ?kq" by (rule path_le_trans[OF le])
    then show ?thesis using within_less(1,3)[OF win'] by (auto simp: ip(3))
  qed
qed

lemma k_observed:
  assumes "rz_any S T z p" "\<not> outside T (ancestors z) g"
  shows "replay (observed_ascent (length (origin_path z)) (length (prefix_buf z)) (z_node_key_start z) #
    observed_descent (length (origin_path z) - z_node_key_start z) g) p = item_path T (ancestors z) p g"
proof -
  have "length (prefix_buf z) - max (z_node_key_start z) (length (origin_path z)) =
      length (prefix_buf z) - z_node_key_start z - (length (origin_path z) - z_node_key_start z)" by simp
  then show ?thesis using item_observed[OF assms] unfolding observed_ascent_def observed_descent_def by metis
qed

lemma item_path_take:
  assumes "rz_any S T z p" "\<not> outside T (ancestors z) (take r g)" "r \<le> length g"
  shows "take (length (item_path T (ancestors z) p g) - (length g - r)) (item_path T (ancestors z) p g) =
    item_path T (ancestors z) p (take r g)" "\<not> outside T (ancestors z) g"
proof -
  show out: "\<not> outside T (ancestors z) g"
    using assms(2) prefix_order.trans[OF _ take_is_prefix[of r g]] by (auto simp: outside_def)
  note a = item_path(1)[OF assms(1) out] and b = item_path(1)[OF assms(1,2)]
  let ?x = "take (key_start_of (tv_start T) (ancestors z)) (tv_buf T p)"
  have la: "length (tv_origin T) + length (item_path T (ancestors z) p g) = length ?x + length g"
    using arg_cong[OF a, of length] by (simp only: length_append)
  have lb: "length (tv_origin T) + length (item_path T (ancestors z) p (take r g)) = length ?x + r"
    using arg_cong[OF b, of length] assms(3) by (simp only: length_append length_take min.absorb2)
  have "tv_buf T (item_path T (ancestors z) p (take r g)) = take (length ?x + r) (tv_buf T (item_path T (ancestors z) p g))"
  proof -
    have "y @ take r g = take (length y + r) (y @ g)" for y by simp
    then show ?thesis unfolding a b .
  qed
  also have "\<dots> = tv_buf T (take (length ?x + r - length (tv_origin T)) (item_path T (ancestors z) p g))"
    using lb by simp
  finally have "item_path T (ancestors z) p (take r g) = take (length ?x + r - length (tv_origin T)) (item_path T (ancestors z) p g)"
    by simp
  moreover have "length ?x + r - length (tv_origin T) = length (item_path T (ancestors z) p g) - (length g - r)"
    using la lb assms(3) by linarith
  ultimately show "take (length (item_path T (ancestors z) p g) - (length g - r)) (item_path T (ancestors z) p g) =
    item_path T (ancestors z) p (take r g)" by metis
qed

text \<open>The item goes on beyond the length looked for: the zipper stays in the node.\<close>

lemma k_cut_item:
  assumes z: "rz_any S T z p" and mem: "(k0, c, v) \<in> set (node_items (focus_node z))" and t': "node_at S (focus_node z) k0 t'"
    and ins: "\<not> outside T (ancestors z) (take r k0)" and r: "r < length k0"
  shows "\<exists>tok. node_ascend_iter_token (focus_node z) t' (length k0 - r) = Ret tok \<and>
    rz_ready S T (z\<lparr>prefix_buf := take (z_node_key_start z) (prefix_buf z) @ take r k0, focus_iter_token := tok\<rparr>)
      (item_path T (ancestors z) p (take r k0))"
proof -
  note f = rz_any_facts[OF z] and ip = item_path[OF z ins]
  let ?f = "focus_node z" and ?anc = "ancestors z"
  have on: "on_items (node_items ?f) k0" using mem by (force simp: on_items_def)
  have "0 < length k0 - r" "length k0 - r \<le> length k0" "length k0 - (length k0 - r) = r" using r by auto
  with cursor.ascend_at[OF cursor_ok_wf[OF f(2,7)] t' on this(1,2)] obtain tok where
    tok: "node_ascend_iter_token ?f t' (length k0 - r) = Ret tok" "node_at S ?f (take r k0) tok" by metis
  have link: "node_get_child ?f (take r k0) = None" if ne: "take r k0 \<noteq> []"
  proof (rule ccontr)
    assume "node_get_child ?f (take r k0) \<noteq> None"
    then obtain l c' where g: "node_get_child ?f (take r k0) = Some (l, c')" by auto
    have "node_get_child ?f k0 = Some (l, c')" "l \<le> length (take r k0)"
      using node_get_child_prefix[OF f(7) take_is_prefix ne, of l c'] g by blast+
    then show False using item_link[OF f(7) mem] r by (cases c) auto
  qed
  have st: "stands S T (item_path T ?anc p (take r k0)) ?anc ?f" by (rule stands_within[OF f(6,1) ip(2)])
  have buf: "take (z_node_key_start z) (prefix_buf z) @ take r k0 = tv_buf T (item_path T ?anc p (take r k0))"
    unfolding ip(1) f(5,10) ..
  have "rz_ready S T (z\<lparr>prefix_buf := take (z_node_key_start z) (prefix_buf z) @ take r k0, focus_iter_token := tok\<rparr>)
      (item_path T ?anc p (take r k0))"
    unfolding buf using f(3,4) st link tok(2) by (simp add: rz_ready_iff rz_static_def ip(3) tok_ok_def)
  then show ?thesis using tok(1) by blast
qed

lemma ready_not_open: "rz_ready S T z p \<Longrightarrow> \<not> is_open T z p"
  by (auto simp: is_open_def rz_ready_iff)

lemma k_turn_item:
  assumes z: "rz_k S T base k skip z p"
    and i: "next_item (node_items (focus_node z)) (key_at T p (ancestors z)) skip = Some (k0, c, v)"
    and t': "node_at S (focus_node z) k0 t'"
  shows "\<exists>r evs. z_k_path_item k (length (tv_buf T base)) (t', k0, c, v) z obs = Ret (r, obs @ evs) \<and> k_turn_ok S T base k z p r evs"
proof (cases "z_node_key_start z < length (tv_buf T base) \<and> \<not> prefix (key_at T base (ancestors z)) k0")
  case True
  have none: "k_todo T base k z p = {}" using k_outside[OF z i] True by simp
  have ks: "z_node_key_start z \<le> length (tv_buf T base)" using True by simp
  have "z_k_path_item k (length (tv_buf T base)) (t', k0, c, v) z obs = z_k_path_stop False (length (tv_buf T base)) z obs"
    unfolding z_k_path_item_def split_conv Let_def k_test[OF z] using True by simp
  then show ?thesis using k_turn_stop[OF z ks none, of False obs] by simp
next
  case acc: False
  note k = rz_k_facts[OF z]
  note f = rz_any_facts[OF k(1)]
  have o: "origin_path z = tv_origin T" using f(3) by (simp add: rz_static_def)
  define r where "r = length (tv_buf T base) + k - z_node_key_start z"
  define p' where "p' = item_path T (ancestors z) p (take r k0)"
  have acc': "z_node_key_start z < length (tv_buf T base) \<longrightarrow> prefix (key_at T base (ancestors z)) k0" using acc by blast
  note nx = k_next[OF z i acc', folded r_def, folded p'_def]
  have mem: "(k0, c, v) \<in> set (node_items (focus_node z))" and less: "path_less (key_at T p (ancestors z)) k0"
    using next_item_cases(2)[OF cursor_sorted[OF f(2,7)] i] by (auto simp: after_def)
  let ?up = "observed_ascent (length (origin_path z)) (length (prefix_buf z)) (z_node_key_start z)"
  let ?down = "observed_descent (length (origin_path z) - z_node_key_start z)"
  note seen = k_observed[OF k(1)]
  have found: "p' \<in> k_todo T base k z p" if "length (take r k0) = r"
    using nx(4,5,8,9) that by (simp add: k_todo_def k_paths_def)
  show ?thesis
  proof (cases "r < length k0")
    case True
    obtain tok where tok: "node_ascend_iter_token (focus_node z) t' (length k0 - r) = Ret tok"
      "rz_ready S T (z\<lparr>prefix_buf := take (z_node_key_start z) (prefix_buf z) @ take r k0, focus_iter_token := tok\<rparr>) p'"
      using k_cut_item[OF k(1) mem t' nx(1) True] unfolding p'_def by blast
    let ?z = "z\<lparr>prefix_buf := take (z_node_key_start z) (prefix_buf z) @ take r k0, focus_iter_token := tok\<rparr>"
    let ?evs = "?up # (if MIN_EXCESS_TO_AVOID_COPY \<le> length k0 - r then ?down (take r k0) else ?down k0 @ [Ascended (length k0 - r)])"
    have "z_k_path_item k (length (tv_buf T base)) (t', k0, c, v) z obs = Ret (Inr (True, ?z), obs @ ?evs)"
      unfolding z_k_path_item_def split_conv Let_def k_test[OF z] r_def[symmetric] using acc True by (auto simp: tok(1))
    moreover have "replay ?evs p = p'"
    proof (cases "MIN_EXCESS_TO_AVOID_COPY \<le> length k0 - r")
      case long: True
      then show ?thesis using seen[OF nx(1)] by (simp add: p'_def)
    next
      case False
      have le: "r \<le> length k0" using True by simp
      note tk = item_path_take[OF k(1) nx(1) le]
      have "replay ?evs p = replay [Ascended (length k0 - r)] (replay (?up # ?down k0) p)" using False by simp
      also have "\<dots> = replay [Ascended (length k0 - r)] (item_path T (ancestors z) p k0)" by (rule arg_cong[OF seen[OF tk(2)]])
      also have "\<dots> = p'" using tk(1) by (simp add: p'_def)
      finally show ?thesis .
    qed
    moreover have "length (take r k0) = r" using True by simp
    ultimately show ?thesis using tok(2) found nx(7)
      by (intro exI[of _ "Inr (True, ?z)"] exI[of _ ?evs]) (simp add: k_turn_ok_def del: replay_simps)
  next
    case False
    then have all: "take r k0 = k0" by simp
    note ins = nx(1)[unfolded all]
    have p': "p' = item_path T (ancestors z) p k0" by (simp add: p'_def all)
    note en = enter_item[OF k(1) mem less t' ins, folded p']
    let ?z = "z_enter_item t' c (z\<lparr>focus_iter_token := t', prefix_buf := take (z_node_key_start z) (prefix_buf z) @ k0\<rparr>)"
    let ?res = "if length (prefix_buf ?z) = length (tv_buf T base) + k then Inr (True, ?z) else Inl ?z"
    have code: "z_k_path_item k (length (tv_buf T base)) (t', k0, c, v) z obs = Ret (?res, obs @ ?up # ?down k0)"
      unfolding z_k_path_item_def split_conv Let_def k_test[OF z] r_def[symmetric] using acc False by auto
    have rep: "replay (?up # ?down k0) p = p'" unfolding p' by (rule seen[OF ins])
    have len: "length (prefix_buf ?z) = length (tv_buf T p')" using rz_ready_facts(5)[OF en(1)] by simp
    have "k_turn_ok S T base k z p ?res (?up # ?down k0)"
    proof (cases "length p' = length base + k")
      case True
      then have "length (take r k0) = r" using nx(9) by simp
      then show ?thesis using found nx(7) en(1) True unfolding k_turn_ok_def rep len by simp
    next
      case short: False
      then have "length p' < length base + k" using nx(9) by simp
      moreover have "focus_iter_token ?z \<noteq> NODE_ITER_INVALID"
      proof (cases c)
        case None
        then show ?thesis using cursor.at_ordinary[OF cursor_ok_wf[OF f(2,7)] t'] by (simp add: z_enter_item_def)
      next
        case (Some ch)
        have wf: "wf_node ch" using node_item_wf[OF f(7)] mem Some by blast
        note ok = cursor_ok_wf[OF f(2) wf]
        show ?thesis using cursor.at_ordinary[OF ok cursor.start_at[OF ok]] Some by (simp add: z_enter_item_def)
      qed
      ultimately have "rz_k S T base k False ?z p'"
        using rz_any_ready[OF en(1)] en(1) nx(5) unfolding rz_k_def by blast
      moreover have "k_todo T base k ?z p' = k_todo T base k z p"
      proof (intro set_eqI iffI)
        fix q assume q: "q \<in> k_todo T base k z p"
        then have "path_less p' q" using nx(7) short by (auto simp: k_todo_def k_paths_def)
        then show "q \<in> k_todo T base k ?z p'" using q ready_not_open[OF en(1)] by (simp add: k_todo_def ahead_def)
      next
        fix q assume q: "q \<in> k_todo T base k ?z p'"
        then have pq: "path_less p' q" by (simp add: k_todo_def ahead_def)
        then have "path_less p q" using en(4) path_less_trans by blast
        moreover have "\<not> prefix p q" if "is_open T z p" using path_less_between[OF _ en(4) pq] en(6)[OF that] by blast
        ultimately show "q \<in> k_todo T base k z p" using q by (simp add: k_todo_def ahead_def)
      qed
      ultimately show ?thesis using en(2) short unfolding k_turn_ok_def rep len by simp
    qed
    then show ?thesis using code by blast
  qed
qed

lemma k_turn:
  assumes "rz_k S T base k skip z p"
  shows "\<exists>r evs. z_k_path_step S k (length (tv_buf T base)) skip z obs = Ret (r, obs @ evs) \<and> k_turn_ok S T base k z p r evs"
proof -
  let ?z = "z_with_token S z" and ?skip = "skip \<or> focus_iter_token z = NODE_ITER_INVALID"
  note kt = rz_k_token[OF assms]
  note k = rz_k_facts[OF kt(1)]
  note f = rz_any_facts[OF k(1)]
  note ok = cursor_ok_wf[OF f(2,7)]
  have same_parts: "focus_node ?z = focus_node z" "ancestors ?z = ancestors z" by (simp_all add: z_with_token_def)
  have at: "node_at S (focus_node ?z) (key_at T p (ancestors ?z)) (focus_iter_token ?z)" using kt(2) same_parts by simp
  have same: "k_turn_ok S T base k ?z p r evs = k_turn_ok S T base k z p r evs" for r evs
    unfolding k_turn_ok_def kt(3,4) ..
  show ?thesis
  proof (cases "next_item (node_items (focus_node ?z)) (key_at T p (ancestors ?z)) ?skip")
    case None
    have nx: "node_next_items (focus_node ?z) (focus_iter_token ?z) ?skip = iter_finished"
      by (rule cursor.next_finished[OF ok at None])
    show ?thesis
    proof (cases "z_node_key_start ?z \<le> length (tv_buf T base)")
      case True
      have "k_todo T base k ?z p = {}"
      proof (rule ccontr)
        assume "k_todo T base k ?z p \<noteq> {}"
        then obtain q where q: "q \<in> k_todo T base k ?z p" by blast
        have "prefix base q" using q by (simp add: k_todo_def k_paths_def)
        from k_within[OF k(2) this] True have "within T (ancestors ?z) p q" unfolding f(10) by blast
        then show False using k_none[OF kt(1) None q] by blast
      qed
      moreover have "z_k_path_step S k (length (tv_buf T base)) skip z obs = z_k_path_stop True (length (tv_buf T base)) ?z obs"
        unfolding z_k_path_step_def Let_def nx using True by simp
      ultimately show ?thesis using k_turn_stop[OF kt(1) True, of True obs] unfolding same by simp
    next
      case False
      then obtain n t i anc where pop: "ancestors ?z = (n, t, i) # anc"
        "k_turn_ok S T base k ?z p (Inl (?z\<lparr>ancestors := anc, focus_node := n, focus_iter_token := t, prefix_buf := take i (prefix_buf ?z)\<rparr>))
          [observed_ascent (length (origin_path ?z)) (length (prefix_buf ?z)) i]"
        using k_turn_pop[OF kt(1) None] unfolding Let_def not_le by blast
      have "z_k_path_step S k (length (tv_buf T base)) skip z obs =
          Ret (Inl (?z\<lparr>ancestors := anc, focus_node := n, focus_iter_token := t, prefix_buf := take i (prefix_buf ?z)\<rparr>),
            obs @ [observed_ascent (length (origin_path ?z)) (length (prefix_buf ?z)) i])"
        unfolding z_k_path_step_def Let_def nx using False pop(1) by simp
      then show ?thesis using pop(2) unfolding same by blast
    qed
  next
    case (Some i)
    obtain k0 c v where i: "i = (k0, c, v)" by (cases i)
    obtain t' where t': "node_next_items (focus_node ?z) (focus_iter_token ?z) ?skip = Ret (t', i)" "node_at S (focus_node ?z) (fst i) t'"
      using cursor.next_found[OF ok at Some] by blast
    have "z_k_path_step S k (length (tv_buf T base)) skip z obs = z_k_path_item k (length (tv_buf T base)) (t', k0, c, v) ?z obs"
      unfolding z_k_path_step_def Let_def t'(1) using cursor.at_ordinary[OF ok t'(2)] by (simp add: i)
    then show ?thesis
      using k_turn_item[OF kt(1) Some[unfolded i] t'(2)[unfolded i fst_conv], of obs] unfolding same by simp
  qed
qed

text \<open>What the search answers: the next path of the length, or that there is none and the zipper is at \<open>base\<close>.\<close>

definition k_found :: "slice_utils \<Rightarrow> 'v trie_view \<Rightarrow> path set \<Rightarrow> path \<Rightarrow> bool \<Rightarrow> 'v read_zipper \<Rightarrow> path \<Rightarrow> bool" where
  "k_found S T Q base r z' p' \<longleftrightarrow> rz_ready S T z' p' \<and>
     (if r then p' \<in> Q \<and> (\<forall>q \<in> Q. q = p' \<or> path_less p' q) else p' = base \<and> Q = {})"

lemma k_path_internal:
  assumes "rz_k S T base k skip z p"
  shows "\<exists>r z' evs. z_k_path_internal S k (length (tv_buf T base)) skip z obs = Some (Ret ((r, z'), obs @ evs)) \<and>
    k_found S T (k_todo T base k z p) base r z' (replay evs p)"
  using assms
proof (induction "rz_work T z p" arbitrary: z p skip obs rule: less_induct)
  case less
  obtain r evs where step: "z_k_path_step S k (length (tv_buf T base)) skip z obs = Ret (r, obs @ evs)" "k_turn_ok S T base k z p r evs"
    using k_turn[OF less.prems, of obs] by blast
  show ?case
  proof (cases r)
    case (Inl z1)
    then have t: "rz_k S T base k False z1 (replay evs p)" "k_todo T base k z1 (replay evs p) = k_todo T base k z p"
      "rz_work T z1 (replay evs p) < rz_work T z p" using step(2) by (simp_all add: k_turn_ok_def)
    obtain r' z' evs' where l: "z_k_path_internal S k (length (tv_buf T base)) False z1 (obs @ evs) = Some (Ret ((r', z'), (obs @ evs) @ evs'))"
      "k_found S T (k_todo T base k z p) base r' z' (replay evs' (replay evs p))"
      using less.hyps[OF t(3,1), of "obs @ evs"] unfolding t(2) by blast
    have "z_k_path_internal S k (length (tv_buf T base)) skip z obs = z_k_path_internal S k (length (tv_buf T base)) False z1 (obs @ evs)"
      by (subst z_k_path_internal.simps) (simp add: step(1) Inl del: length_append)
    then show ?thesis using l by (intro exI[of _ r'] exI[of _ z'] exI[of _ "evs @ evs'"]) simp
  next
    case (Inr rz)
    obtain r' z' where rz: "rz = (r', z')" by (cases rz)
    have "z_k_path_internal S k (length (tv_buf T base)) skip z obs = Some (Ret ((r', z'), obs @ evs))"
      by (subst z_k_path_internal.simps) (simp add: step(1) Inr rz del: length_append)
    moreover have "k_found S T (k_todo T base k z p) base r' z' (replay evs p)"
      using step(2) unfolding k_turn_ok_def k_found_def Inr rz by (cases r') auto
    ultimately show ?thesis by blast
  qed
qed

lemma k_todo_start: "rz_ready S T z p \<Longrightarrow> 0 < k \<Longrightarrow> k_todo T p k z p = k_paths T p k"
  using ready_not_open path_less_strict_prefix by (fastforce simp: k_todo_def k_paths_def ahead_def)

lemma k_todo_next: "length p = length base + k \<Longrightarrow> k_todo T base k z p = {q \<in> k_paths T base k. path_less p q}"
  by (auto simp: k_todo_def k_paths_def ahead_def prefix_def)

lemma rz_descend_first_k_path:
  assumes "rz_reg S T z p" "0 < k"
  shows "\<exists>r z' evs. z_descend_first_k_path S k z obs = Some (Ret ((r, z'), obs @ evs)) \<and>
    k_found S T (k_paths T p k) p r z' (replay evs p)"
proof -
  let ?zp = "z_prepare_buffers z"
  let ?z = "?zp\<lparr>focus_iter_token := node_iter_token_for_path S (focus_node ?zp) (z_node_key ?zp)\<rparr>"
  note f = rz_ready_facts[OF rz_prepare[OF assms(1)]]
  note ok = cursor_ok_wf[OF f(2,7)]
  have at: "node_at S (focus_node ?zp) (key_at T p (ancestors ?zp)) (node_iter_token_for_path S (focus_node ?zp) (z_node_key ?zp))"
    unfolding f(10) by (rule cursor.for_path_at[OF ok])
  have ready: "rz_ready S T ?z p" using rz_prepare[OF assms(1)] at by (simp add: rz_ready_iff rz_static_def tok_ok_def)
  have "rz_k S T p k False ?z p"
    using rz_any_ready[OF ready] ready assms(2) cursor.at_ordinary[OF ok at] by (simp add: rz_k_def)
  from k_path_internal[OF this, of obs] show ?thesis
    using assms(2) f(5) unfolding k_todo_start[OF ready assms(2)] by (simp add: z_descend_first_k_path_def Let_def)
qed

lemma rz_to_next_k_path:
  assumes "rz_reg S T z p" "0 < k" "k \<le> length p"
  defines "base \<equiv> take (length p - k) p"
  shows "\<exists>r z' evs. z_to_next_k_path S k z obs = Some (Ret ((r, z'), obs @ evs)) \<and>
    k_found S T {q \<in> k_paths T base k. path_less p q} base r z' (replay evs p)"
proof -
  have ne: "p \<noteq> []" using assms(2,3) by auto
  then have ready: "rz_ready S T z p" using assms(1) by (auto simp: rz_ready_def rz_reg_iff split: if_splits)
  note f = rz_ready_facts[OF ready]
  have o: "origin_path z = tv_origin T" using f(3) by (simp add: rz_static_def)
  note op = rz_deregularize[OF ready ne]
  have len: "length p = length base + k" using assms(3) by (simp add: base_def)
  have "p \<noteq> base" using len assms(2) by auto
  moreover have "rz_any S T (z_deregularize z) p" using op unfolding rz_any_def rz_open_def by blast
  moreover have "prefix base p" unfolding base_def by (rule take_is_prefix)
  ultimately have "rz_k S T base k True (z_deregularize z) p"
    using rz_open_facts(9)[OF op] len unfolding rz_k_def by blast
  from k_path_internal[OF this, of obs] obtain r z' evs where
    k: "z_k_path_internal S k (length (tv_buf T base)) True (z_deregularize z) obs = Some (Ret ((r, z'), obs @ evs))"
    "k_found S T {q \<in> k_paths T base k. path_less p q} base r z' (replay evs p)" unfolding k_todo_next[OF len] by blast
  have "z_path_len z = Ret (length p)" using f(5) o by (simp add: z_path_len_def)
  moreover have "length (prefix_buf z) - k = length (tv_buf T base)" using f(5) len by simp
  ultimately have "z_to_next_k_path S k z obs = Some (Ret ((r, z'), obs @ evs))" using k(1) assms(3) by (simp add: z_to_next_k_path_def)
  then show ?thesis using k(2) by blast
qed

lemma rz_to_next_k_path_short:
  assumes "rz_reg S T z p" "length p < k"
  shows "z_to_next_k_path S k z obs =
    (if buffers_allocated z \<or> tv_origin T = [] then Some (Ret ((False, z_reset z), obs @ [Ascended (length p)])) else Some Panic)"
proof -
  have "origin_path z = tv_origin T" "if buffers_allocated z then prefix_buf z = tv_buf T p else prefix_buf z = [] \<and> p = []"
    using assms(1) by (auto simp: rz_reg_iff rz_static_def split: if_splits)
  then show ?thesis using assms(2) by (cases "buffers_allocated z") (auto simp: z_to_next_k_path_def z_path_len_def)
qed

end
