(* ===== verification/Zipper_Map.thy ===== *)
theory Zipper_Map
  imports Read_Zipper_K_Paths
begin
text \<open>
  The read zippers \<open>PathMap\<close> hands out (\<open>src/trie_map.rs\<close>) and what they show of the map: the zipper
  made at a path is at the root of the part of the map below it.  \<open>ReadZipperIter\<close> and \<open>PathMap::iter\<close>
  list the map.
\<close>

subsection \<open>The zippers of a map\<close>

definition map_read_zipper :: "'v path_map \<Rightarrow> 'v read_zipper" where
  "map_read_zipper m = z_new_internal (Some (get_or_init_root m)) [] 0 (root_val m)"

definition map_read_zipper_at_borrowed_path :: "'v path_map \<Rightarrow> path \<Rightarrow> 'v read_zipper" where
  "map_read_zipper_at_borrowed_path m path =
     z_new (get_or_init_root m) path (length path) 0 (if length path = 0 then root_val m else None)"

definition map_read_zipper_at_path :: "'v path_map \<Rightarrow> path \<Rightarrow> 'v read_zipper" where
  "map_read_zipper_at_path m path =
     z_new_cloned_path (get_or_init_root m) path (length path) 0 (if length path = 0 then root_val m else None)"

text \<open>What such a zipper looks at.\<close>

definition map_view :: "'v path_map \<Rightarrow> path \<Rightarrow> 'v trie_view" where
  "map_view m path =
     (case node_along_path (get_or_init_root m) path (if path = [] then root_val m else None) False of
        (node, key, val) \<Rightarrow>
          \<lparr>tv_base = node, tv_origin = path, tv_start = length path - length key, tv_val = val\<rparr>)"

lemma link_below:
  assumes "wf_node n" "key \<noteq> []" "node_get_child n key = Some (l, c)"
  shows "has_path n (key @ q) \<longleftrightarrow> has_path c (drop l key @ q)" "drop l key @ q \<noteq> [] \<Longrightarrow> den n (key @ q) = den c (drop l key @ q)"
proof -
  have l: "0 < l" "l \<le> length key" using node_get_child_bounds[OF assms] by simp_all
  have pre: "prefix (take l key) key" by (rule take_is_prefix)
  have ne: "take l key \<noteq> []" using l assms(2) by auto
  have g: "node_get_child n (take l key) = Some (length (take l key), c)"
    using node_get_child_prefix[OF assms(1) pre ne, of l c] assms(3) l(2) by (simp add: min_def)
  note below = child_below(1,2)[OF assms(1) ne g, of "drop l key @ q"]
  have eq: "take l key @ drop l key @ q = key @ q" unfolding append_assoc[symmetric] append_take_drop_id ..
  show "has_path n (key @ q) \<longleftrightarrow> has_path c (drop l key @ q)" by (rule below(1)[unfolded eq])
  show "drop l key @ q \<noteq> [] \<Longrightarrow> den n (key @ q) = den c (drop l key @ q)" by (rule below(2)[unfolded eq])
qed

lemma node_along_path_below:
  assumes "wf_node node" "key \<noteq> []" "node_along_path node key val False = (node', key', val')"
  shows "length key' \<le> length key \<and> key' = drop (length key - length key') key \<and>
    (\<forall>q. has_path node (key @ q) = has_path node' (key' @ q)) \<and>
    (\<forall>q. key' @ q \<noteq> [] \<longrightarrow> den node (key @ q) = den node' (key' @ q))"
  using assms
proof (induction node key val False arbitrary: node' rule: node_along_path.induct)
  case (1 node key val)
  show ?case
  proof (cases "node_get_child node key")
    case None
    then show ?thesis using 1(3,4) by (simp add: node_along_path.simps[of node])
  next
    case (Some r)
    then obtain n c where g: "node_get_child node key = Some (n, c)" by (cases r) auto
    note b = node_get_child_bounds[OF 1(2,3) g] and below = link_below[OF 1(2,3) g]
    show ?thesis
    proof (cases "n < length key")
      case True
      have ne: "length key \<noteq> 0" "drop n key \<noteq> []" using 1(3) True by simp_all
      have w: "node_along_path c (drop n key) val False = (node', key', val')"
        using 1(4) True ne by (simp add: node_along_path.simps[of node] g)
      have "length key' \<le> length (drop n key)" "key' = drop (length (drop n key) - length key') (drop n key)"
        "has_path c (drop n key @ q) = has_path node' (key' @ q)"
        "key' @ q \<noteq> [] \<Longrightarrow> den c (drop n key @ q) = den node' (key' @ q)" for q
        using 1(1)[OF ne(1) g refl True _ ne(2) w] b by blast+
      then show ?thesis using below True ne(2) by (simp add: algebra_simps)
    next
      case False
      then show ?thesis using 1(3,4) g b below by (simp add: node_along_path.simps[of node])
    qed
  qed
qed

lemma map_has_path_root: "wf_map m \<Longrightarrow> map_has_path m p = has_path (get_or_init_root m) p"
  by (cases "root m") (auto simp: map_has_path_def get_or_init_root_def ensure_root_def new_list_node_def)

lemma map_view:
  assumes S: "slice_utils_ok S" and m: "wf_map m"
  shows "tv_ok S (map_view m path)" "tv_origin (map_view m path) = path"
    "tv_get (map_view m path) q = map_den m (path @ q)" "tv_has (map_view m path) q = map_has_path m (path @ q)"
proof -
  obtain node key val where w: "node_along_path (get_or_init_root m) path (if path = [] then root_val m else None) False = (node, key, val)"
    by (metis prod_cases3)
  have V: "map_view m path = \<lparr>tv_base = node, tv_origin = path, tv_start = length path - length key, tv_val = val\<rparr>"
    by (simp add: map_view_def w)
  note r = get_or_init_root_spec[OF m]
  then have rwf: "wf_node (get_or_init_root m)" by blast
  show o: "tv_origin (map_view m path) = path" by (simp add: V)
  show "tv_ok S (map_view m path)" "tv_get (map_view m path) q = map_den m (path @ q)"
      "tv_has (map_view m path) q = map_has_path m (path @ q)"
  proof (atomize (full), cases "path = []")
    case True
    then have w': "node = get_or_init_root m" "key = []" "val = root_val m" using w by (simp_all add: node_along_path.simps)
    then have V': "map_view m [] = \<lparr>tv_base = get_or_init_root m, tv_origin = [], tv_start = 0, tv_val = root_val m\<rparr>"
      using V unfolding True w' by simp
    show "tv_ok S (map_view m path) \<and> tv_get (map_view m path) q = map_den m (path @ q) \<and> tv_has (map_view m path) q = map_has_path m (path @ q)"
      using S rwf r[of q] map_has_path_root[OF m, of q]
      unfolding V' True tv_ok_def tv_get_def tv_has_def tv_key_def by (simp add: map_den_def)
  next
    case False
    note val = node_along_path_val[OF rwf False w] and below = node_along_path_below[OF rwf False w]
    have key: "tv_key (map_view m path) = key" using below by (simp add: tv_key_def V)
    have "tv_ok S (map_view m path)" using S val key by (auto simp: tv_ok_def) (auto simp: V)
    moreover have "tv_has (map_view m path) q = map_has_path m (path @ q)"
      using below by (simp add: tv_has_def key map_has_path_root[OF m]) (simp add: V)
    moreover have "tv_get (map_view m path) q = map_den m (path @ q)"
    proof (cases "key @ q = []")
      case True
      then show ?thesis using val r[of path] False by (simp add: tv_get_def key) (simp add: V)
    next
      case ne: False
      have "den (get_or_init_root m) (path @ q) = den node (key @ q)" using below ne by blast
      then show ?thesis using r[of "path @ q"] False ne unfolding tv_get_def key by (auto simp: V)
    qed
    ultimately show "tv_ok S (map_view m path) \<and> tv_get (map_view m path) q = map_den m (path @ q) \<and>
      tv_has (map_view m path) q = map_has_path m (path @ q)" by simp
  qed
qed

lemma map_zippers:
  assumes S: "slice_utils_ok S" and m: "wf_map m"
  shows "rz_reg S (map_view m []) (map_read_zipper m) []"
    "rz_reg S (map_view m path) (map_read_zipper_at_borrowed_path m path) []"
    "rz_reg S (map_view m path) (map_read_zipper_at_path m path) []"
proof -
  have new: "rz_reg S (map_view m path) (map_read_zipper_at_borrowed_path m path) [] \<and>
    rz_reg S (map_view m path) (map_read_zipper_at_path m path) []" for path
  proof -
    obtain node key val where w: "node_along_path (get_or_init_root m) path (if path = [] then root_val m else None) False = (node, key, val)"
      by (metis prod_cases3)
    have V: "map_view m path = \<lparr>tv_base = node, tv_origin = path, tv_start = length path - length key, tv_val = val\<rparr>"
      by (simp add: map_view_def w)
    have ok: "tv_ok S (map_view m path)" by (rule map_view(1)[OF S m])
    then have link: "drop (length path - length key) path \<noteq> [] \<longrightarrow> node_get_child node (drop (length path - length key) path) = None"
      by (simp add: tv_ok_def tv_key_def V)
    define z where "z = z_new (get_or_init_root m) path (length path) 0 (if length path = 0 then root_val m else None)"
    have z: "z = \<lparr>origin_path = path, root_key_start = length path - length key, root_parent_key_start = None, zroot_val = val,
       zroot_node = Some node, focus_node = node, focus_iter_token = NODE_ITER_INVALID, prefix_buf = [],
       buffers_allocated = False, ancestors = []\<rparr>"
      using w link by (simp add: z_def z_new_def z_new_internal_def Let_def)
    have "rz_reg S (map_view m path) z []"
      using ok link unfolding rz_reg_iff z rz_static_def stands_def by (simp add: V key_at_def)
    moreover have "rz_reg S (map_view m path) (z_make_static_path (z\<lparr>prefix_buf := path, buffers_allocated := True, ancestors := []\<rparr>)) []"
      using ok link unfolding rz_reg_iff z z_make_static_path_def z_prepare_buffers_def rz_static_def stands_def by (simp add: V key_at_def)
    ultimately show ?thesis
      by (simp add: map_read_zipper_at_borrowed_path_def map_read_zipper_at_path_def z_new_cloned_path_def z_def)
  qed
  show "rz_reg S (map_view m path) (map_read_zipper_at_borrowed_path m path) []"
    "rz_reg S (map_view m path) (map_read_zipper_at_path m path) []" using new by blast+
  have "map_read_zipper m = map_read_zipper_at_borrowed_path m []"
    by (simp add: map_read_zipper_def map_read_zipper_at_borrowed_path_def z_new_def node_along_path.simps)
  then show "rz_reg S (map_view m []) (map_read_zipper m) []" using new[of "[]"] by simp
qed
subsection \<open>Every way to move a zipper\<close>

text \<open>One call of a movement of \<open>ReadZipperCore\<close> that returns; \<open>z_clone\<close> is the copy a caller goes on with.
  One call is left out, \<open>to_next_k_path\<close> with \<open>k = 0\<close>, which breaks the regular form
  (\<open>to_next_k_path_zero\<close> below).\<close>

inductive zipper_step :: "slice_utils \<Rightarrow> 'v read_zipper \<Rightarrow> 'v read_zipper \<Rightarrow> bool" for S where
  step_clone: "zipper_step S z (z_clone z)"
| step_prepare: "zipper_step S z (z_prepare_buffers z)"
| step_reset: "zipper_step S z (z_reset z)"
| step_descend_to: "zipper_step S z (z_descend_to k z)"
| step_descend_to_check: "z_descend_to_check S k z = (r, z') \<Longrightarrow> zipper_step S z z'"
| step_descend_to_byte: "zipper_step S z (z_descend_to_byte b z)"
| step_existing_byte: "z_descend_to_existing_byte S b z = (r, z') \<Longrightarrow> zipper_step S z z'"
| step_indexed: "z_descend_indexed_byte S i z = (o1, z') \<Longrightarrow> zipper_step S z z'"
| step_first: "z_descend_first_byte S z = Ret (o1, z') \<Longrightarrow> zipper_step S z z'"
| step_next_sibling: "z_to_next_sibling_byte S z = Ret (o1, z') \<Longrightarrow> zipper_step S z z'"
| step_prev_sibling: "z_to_prev_sibling_byte S z = (o1, z') \<Longrightarrow> zipper_step S z z'"
| step_ascend: "z_ascend n z = Ret (m, z') \<Longrightarrow> zipper_step S z z'"
| step_ascend_byte: "z_ascend_byte z = Ret (r, z') \<Longrightarrow> zipper_step S z z'"
| step_ascend_until: "z_ascend_until S z = Some (Ret (m, z')) \<Longrightarrow> zipper_step S z z'"
| step_ascend_until_branch: "z_ascend_until_branch S z = Some (Ret (m, z')) \<Longrightarrow> zipper_step S z z'"
| step_existing: "z_descend_to_existing S k z = (n, z') \<Longrightarrow> zipper_step S z z'"
| step_until: "z_descend_until S z obs = Some (Ret (r, z', obs')) \<Longrightarrow> zipper_step S z z'"
| step_until_max: "z_descend_until_max_bytes S n z obs = Some (Ret (r, z', obs')) \<Longrightarrow> zipper_step S z z'"
| step_first_k_path: "z_descend_first_k_path S k z obs = Some (Ret ((r, z'), obs')) \<Longrightarrow> zipper_step S z z'"
| step_next_k_path: "0 < k \<Longrightarrow> z_to_next_k_path S k z obs = Some (Ret ((r, z'), obs')) \<Longrightarrow> zipper_step S z z'"
| step_next_val: "z_to_next_get_val S z obs = Some (Ret ((v, z'), obs')) \<Longrightarrow> zipper_step S z z'"

inductive zipper_reach :: "slice_utils \<Rightarrow> 'v path_map \<Rightarrow> path \<Rightarrow> 'v read_zipper \<Rightarrow> bool" for S m path where
  reach_root: "path = [] \<Longrightarrow> zipper_reach S m path (map_read_zipper m)"
| reach_borrowed: "zipper_reach S m path (map_read_zipper_at_borrowed_path m path)"
| reach_cloned: "zipper_reach S m path (map_read_zipper_at_path m path)"
| reach_step: "zipper_reach S m path z \<Longrightarrow> zipper_step S z z' \<Longrightarrow> zipper_reach S m path z'"

lemma rz_clone: "rz_reg S T z p \<Longrightarrow> rz_reg S T (z_clone z) p"
proof -
  assume z: "rz_reg S T z p"
  have "ancestors z = []" if "prefix_buf z = []"
  proof -
    have "stands S T p (ancestors z) (focus_node z)" "tv_ok S T" "tv_buf T p = [] \<or> ancestors z = []"
      using z that by (auto simp: rz_reg_iff rz_static_def split: if_splits)
    then show ?thesis by (cases "ancestors z") (auto simp: stands_def Let_def)
  qed
  then show ?thesis using z by (auto simp: z_clone_def rz_reg_iff rz_static_def split: if_splits)
qed

lemma root_sibling:
  assumes "rz_reg S T z []"
  shows "z_to_next_sibling_byte S z = Ret (None, z)" "z_to_prev_sibling_byte S z = (None, z)"
  using rz_depth(2)[OF rz_pos_reg[OF assms]] by (simp_all add: z_to_next_sibling_byte_def z_to_prev_sibling_byte_def z_to_sibling_def)

lemma rz_first_k_reg:
  assumes "rz_reg S T z p"
  shows "\<exists>r z' obs' p'. z_descend_first_k_path S k z obs = Some (Ret ((r, z'), obs')) \<and> rz_reg S T z' p'"
proof (cases "k = 0")
  case True
  then show ?thesis using assms by (auto simp: z_descend_first_k_path_def)
next
  case False
  then show ?thesis using rz_descend_first_k_path[OF assms, of k obs] rz_ready_reg unfolding k_found_def by blast
qed

lemma rz_next_k_reg:
  assumes "rz_reg S T z p" "0 < k"
  shows "z_to_next_k_path S k z obs = Some Panic \<or>
    (\<exists>r z' obs' p'. z_to_next_k_path S k z obs = Some (Ret ((r, z'), obs')) \<and> rz_reg S T z' p')"
proof (cases "k \<le> length p")
  case True
  then show ?thesis using rz_to_next_k_path[OF assms True, of obs] rz_ready_reg unfolding k_found_def by blast
next
  case False
  then show ?thesis using rz_to_next_k_path_short[OF assms(1), of k obs] rz_reset[OF assms(1)] by auto
qed

lemma rz_step:
  assumes "zipper_step S z z'" "rz_reg S T z p"
  shows "\<exists>p'. rz_reg S T z' p'"
  using assms(1)
proof cases
  case step_clone
  then show ?thesis using rz_clone[OF assms(2)] by blast
next
  case step_prepare
  then show ?thesis using rz_ready_reg[OF rz_prepare[OF assms(2)]] by blast
next
  case step_reset
  then show ?thesis using rz_reset[OF assms(2)] by blast
next
  case (step_descend_to k)
  then show ?thesis using rz_descend_to[OF assms(2), of k] by blast
next
  case (step_descend_to_check k r)
  then show ?thesis using rz_descend_to_check[OF assms(2), of k] by (metis prod.inject)
next
  case (step_descend_to_byte b)
  then show ?thesis using rz_descend_to_byte[OF assms(2), of b] rz_ready_reg by blast
next
  case (step_existing_byte b r)
  then show ?thesis using rz_descend_to_existing_byte[OF assms(2), of b] rz_ready_reg by (metis prod.inject)
next
  case (step_indexed i r)
  then show ?thesis using rz_descend_indexed_byte[OF assms(2), of i] rz_ready_reg by (metis prod.inject)
next
  case (step_first r)
  then show ?thesis using rz_descend_first_byte[OF assms(2)] rz_ready_reg by (metis prod.inject outcome.inject)
next
  case (step_next_sibling r)
  then show ?thesis using rz_to_next_sibling_byte[OF assms(2)] root_sibling(1)[of S T z] assms(2) rz_ready_reg
    by (metis prod.inject outcome.inject)
next
  case (step_prev_sibling r)
  then show ?thesis using rz_to_prev_sibling_byte[OF assms(2)] root_sibling(2)[of S T z] assms(2) rz_ready_reg
    by (metis prod.inject)
next
  case (step_ascend n r)
  then show ?thesis using rz_ascend[OF assms(2), of n] by (metis prod.inject outcome.inject)
next
  case (step_ascend_byte r)
  then show ?thesis using rz_ascend_byte[OF assms(2)] by (metis prod.inject outcome.inject)
next
  case (step_ascend_until r)
  then show ?thesis using rz_ascend_until[OF assms(2), of True] by (metis prod.inject outcome.inject option.inject)
next
  case (step_ascend_until_branch r)
  then show ?thesis using rz_ascend_until[OF assms(2), of False] by (metis prod.inject outcome.inject option.inject)
next
  case (step_existing k n)
  then show ?thesis using rz_descend_to_existing[OF assms(2), of k] by (metis prod.inject)
next
  case (step_until obs r obs')
  then show ?thesis using rz_descend_until[OF assms(2), of obs] by auto
next
  case (step_until_max n obs r obs')
  then show ?thesis using rz_descend_until_max_bytes[OF assms(2), of n obs] by auto
next
  case (step_first_k_path k obs r obs')
  then show ?thesis using rz_first_k_reg[OF assms(2), of k obs] by auto
next
  case (step_next_k_path k obs r obs')
  then show ?thesis using rz_next_k_reg[OF assms(2), of k obs] by auto
next
  case (step_next_val obs v obs')
  obtain r z1 evs where "z_to_next_get_val S z obs = Some (Ret ((r, z1), obs @ evs))" "rz_ready S T z1 (replay evs p)"
    using rz_to_next_get_val[OF assms(2), of obs] unfolding val_ok_def by blast
  then show ?thesis using step_next_val rz_ready_reg[of S T z1] by auto
qed

lemma reach_reg:
  assumes "zipper_reach S m path z" "slice_utils_ok S" "wf_map m"
  shows "rz_reg S (map_view m path) z (z_path z)"
proof -
  have "\<exists>p. rz_reg S (map_view m path) z p"
    using assms(1)
    by induction (use map_zippers[OF assms(2,3)] rz_step in blast)+
  then show ?thesis using rz_path[OF rz_pos_reg] by metis
qed
text \<open>The branches of a path of the map, ascending.\<close>

definition map_branches :: "'v path_map \<Rightarrow> path \<Rightarrow> u8 list" where
  "map_branches m p = filter (\<lambda>b. map_has_path m (p @ [b])) all_bytes"

lemma view_branches: "slice_utils_ok S \<Longrightarrow> wf_map m \<Longrightarrow> tv_branches (map_view m path) p = map_branches m (path @ p)"
  by (simp add: tv_branches_def map_branches_def map_view(4))

definition sample_map :: "nat path_map" where
  "sample_map = \<lparr>root = Some (ListN (LN (Some ([1, 2], Val 7)) (Some ([3], Val 8)))), root_val = Some 9\<rparr>"

lemma sample_map_wf: "wf_map sample_map"
  by (simp add: sample_map_def wf_map_def KEY_BYTES_CNT_def wf_pair_def)

subsection \<open>The iterator\<close>

text \<open>\<open>ReadZipperIter\<close>: whether it has started, and its zipper until it ends.\<close>

type_synonym 'v zipper_iter = "bool \<times> 'v read_zipper option"

definition zipper_into_iter :: "'v read_zipper \<Rightarrow> 'v zipper_iter" where
  "zipper_into_iter z = (False, Some z)"

definition zipper_iter_next ::
  "slice_utils \<Rightarrow> 'v zipper_iter \<Rightarrow> ((path \<times> 'v) option \<times> 'v zipper_iter) outcome option" where
  "zipper_iter_next S = (\<lambda>(started, zipper).
     case zipper of
       None \<Rightarrow> Some (Ret (None, (True, None)))
     | Some z \<Rightarrow>
         (case (if \<not> started then z_get_val z else None) of
            Some v \<Rightarrow> Some (Ret (Some (z_path z, v), (True, Some z)))
          | None \<Rightarrow>
              (case z_to_next_get_val S z [] of
                 None \<Rightarrow> None
               | Some Panic \<Rightarrow> Some Panic
               | Some (Ret ((Some v, z'), _)) \<Rightarrow> Some (Ret (Some (z_path z', v), (True, Some z')))
               | Some (Ret ((None, _), _)) \<Rightarrow> Some (Ret (None, (True, None))))))"

definition map_iter :: "'v path_map \<Rightarrow> 'v zipper_iter" where
  "map_iter m = zipper_into_iter (map_read_zipper m)"

text \<open>Calling \<open>next\<close> until it answers \<open>None\<close>.\<close>

partial_function (option) iter_collect :: "slice_utils \<Rightarrow> 'v zipper_iter \<Rightarrow> (path \<times> 'v) list outcome option" where
  "iter_collect S it =
     (case zipper_iter_next S it of
        None \<Rightarrow> None
      | Some Panic \<Rightarrow> Some Panic
      | Some (Ret (None, _)) \<Rightarrow> Some (Ret [])
      | Some (Ret (Some x, it')) \<Rightarrow> Option.bind (iter_collect S it') (\<lambda>r. Some (bind_outcome r (\<lambda>xs. Ret (x # xs)))))"

lemma collect_started:
  assumes "rz_reg S T z p" "finite {q. tv_get T q \<noteq> None}"
  shows "\<exists>kvs. iter_collect S (True, Some z) = Some (Ret kvs) \<and> sorted_wrt path_less (map fst kvs) \<and>
    set kvs = {(q, v). tv_get T q = Some v \<and> path_less p q}"
  using assms(1)
proof (induction "card {q. tv_get T q \<noteq> None \<and> path_less p q}" arbitrary: z p rule: less_induct)
  case less
  obtain r z' evs where n: "z_to_next_get_val S z [] = Some (Ret ((r, z'), evs))"
    "val_ok S T {q. tv_get T q \<noteq> None \<and> path_less p q} r z' (replay evs p)"
    using rz_to_next_get_val[OF less.prems, of "[]"] by auto
  show ?case
  proof (cases r)
    case None
    then have "iter_collect S (True, Some z) = Some (Ret [])"
      by (subst iter_collect.simps) (simp add: zipper_iter_next_def n(1))
    moreover have "{q. tv_get T q \<noteq> None \<and> path_less p q} = {}" using n(2) None by (simp add: val_ok_def)
    then have "{(q, v). tv_get T q = Some v \<and> path_less p q} = {}" by blast
    ultimately show ?thesis by (intro exI[of _ "[]"]) simp
  next
    case (Some v)
    define p' where "p' = replay evs p"
    have v: "rz_ready S T z' p'" "tv_get T p' = Some v" "path_less p p'"
      "\<And>q. tv_get T q \<noteq> None \<Longrightarrow> path_less p q \<Longrightarrow> q = p' \<or> path_less p' q"
      using n(2) Some by (simp_all add: val_ok_def p'_def)
    have sub: "{q. tv_get T q \<noteq> None \<and> path_less p' q} \<subset> {q. tv_get T q \<noteq> None \<and> path_less p q}"
      using v(2,3) path_less_trans path_less_irrefl by (intro psubsetI) (blast, force)
    then have "card {q. tv_get T q \<noteq> None \<and> path_less p' q} < card {q. tv_get T q \<noteq> None \<and> path_less p q}"
      by (intro psubset_card_mono finite_subset[OF _ assms(2)]) auto
    from less.hyps[OF this rz_ready_reg[OF v(1)]] obtain kvs where kvs: "iter_collect S (True, Some z') = Some (Ret kvs)"
      "sorted_wrt path_less (map fst kvs)" "set kvs = {(q, v). tv_get T q = Some v \<and> path_less p' q}" by blast
    have path: "z_path z' = p'" by (rule rz_path[OF rz_pos_reg[OF rz_ready_reg[OF v(1)]]])
    have "iter_collect S (True, Some z) = Some (Ret ((p', v) # kvs))"
      by (subst iter_collect.simps) (simp add: zipper_iter_next_def n(1) Some path kvs(1))
    moreover have "(q, x) \<in> set ((p', v) # kvs) \<longleftrightarrow> tv_get T q = Some x \<and> path_less p q" for q x
      using kvs(3) v(2,3) v(4)[of q] path_less_trans[of p p' q] by auto
    then have "set ((p', v) # kvs) = {(q, v). tv_get T q = Some v \<and> path_less p q}" by blast
    moreover have "sorted_wrt path_less (map fst ((p', v) # kvs))" using kvs(2,3) by auto
    ultimately show ?thesis by blast
  qed
qed

lemma collect_from_root:
  assumes "rz_reg S T z []" "finite {q. tv_get T q \<noteq> None}"
  shows "\<exists>kvs. iter_collect S (zipper_into_iter z) = Some (Ret kvs) \<and> sorted_wrt path_less (map fst kvs) \<and>
    set kvs = {(q, v). tv_get T q = Some v}"
proof -
  obtain kvs where kvs: "iter_collect S (True, Some z) = Some (Ret kvs)" "sorted_wrt path_less (map fst kvs)"
    "set kvs = {(q, v). tv_get T q = Some v \<and> path_less [] q}" using collect_started[OF assms] by blast
  note val = rz_get_val[OF rz_pos_reg[OF assms(1)]] and path = rz_path[OF rz_pos_reg[OF assms(1)]]
  show ?thesis
  proof (cases "tv_get T []")
    case None
    then have "iter_collect S (False, Some z) = iter_collect S (True, Some z)"
      by (subst (1 2) iter_collect.simps) (simp add: zipper_iter_next_def val)
    moreover have "{(q, v). tv_get T q = Some v \<and> path_less [] q} = {(q, v). tv_get T q = Some v}" using None by auto
    ultimately show ?thesis using kvs by (simp add: zipper_into_iter_def)
  next
    case (Some v)
    then have "iter_collect S (False, Some z) = Some (Ret (([], v) # kvs))"
      by (subst iter_collect.simps) (simp add: zipper_iter_next_def val path kvs(1))
    moreover have "set (([], v) # kvs) = {(q, v). tv_get T q = Some v}" using kvs(3) Some by auto
    moreover have "sorted_wrt path_less (map fst (([], v) # kvs))" using kvs(2,3) by auto
    ultimately show ?thesis unfolding zipper_into_iter_def by blast
  qed
qed

lemma view_finite:
  assumes "slice_utils_ok S" "wf_map m"
  shows "finite {q. tv_get (map_view m path) q \<noteq> None}"
proof -
  have "wf_node (get_or_init_root m)" using get_or_init_root_spec[OF assms(2)] by blast
  then have "finite (dom (den (get_or_init_root m)))" using node_val_count_dom by blast
  then have "finite (insert [] (dom (den (get_or_init_root m))))" by simp
  moreover have "dom (map_den m) \<subseteq> insert [] (dom (den (get_or_init_root m)))"
    using get_or_init_root_spec[OF assms(2)] by (force simp: dom_def)
  ultimately have "finite (dom (map_den m))" using finite_subset by blast
  then have "finite ((\<lambda>q. path @ q) -` dom (map_den m))" by (intro finite_vimageI) (auto simp: inj_def)
  moreover have "{q. tv_get (map_view m path) q \<noteq> None} = (\<lambda>q. path @ q) -` dom (map_den m)"
    by (auto simp: map_view(3)[OF assms])
  ultimately show ?thesis by simp
qed
subsection \<open>What the zippers of a map promise\<close>

text \<open>C14: A zipper made from a map at a path, after any sequence of movements (\<open>zipper_step\<close>: every one of
  \<open>ReadZipperCore\<close> but \<open>to_next_k_path\<close> with \<open>k = 0\<close>), shows exactly what the map holds at
  that path followed by its own: the value, whether the path exists, the mask and the number of the
  bytes that continue it; and it is in regular form.\<close>

theorem zipper_reads_map:
  assumes "slice_utils_ok S" "wf_map m" "zipper_reach S m path z"
  shows "z_get_val z = map_den m (path @ z_path z) \<and> (z_is_val z \<longleftrightarrow> map_den m (path @ z_path z) \<noteq> None) \<and>
    (z_path_exists S z \<longleftrightarrow> map_has_path m (path @ z_path z)) \<and>
    (\<forall>b. test_bit (z_child_mask S z) b \<longleftrightarrow> map_has_path m (path @ z_path z @ [b])) \<and>
    z_child_count S z = length (map_branches m (path @ z_path z)) \<and> z_is_regularized z \<and>
    z_origin_path z = path @ z_path z \<and> z_root_prefix_path z = path"
proof -
  note reg = reach_reg[OF assms(3,1,2)] and view = map_view[OF assms(1,2)]
  note pos = rz_pos_reg[OF reg]
  have "origin_path z = path" "if buffers_allocated z then prefix_buf z = path @ z_path z else z_path z = []"
    using pos by (auto simp: rz_pos_def view(2) split: if_splits)
  then have "z_origin_path z = path @ z_path z" "z_root_prefix_path z = path"
    by (auto simp: z_origin_path_def z_root_prefix_path_def split: if_splits)
  then show ?thesis
    using rz_get_val[OF pos] rz_is_val[OF pos] rz_path_exists[OF pos] rz_child_mask[OF reg] rz_is_regularized[OF reg]
      tv_branches_length[of "map_view m path" "z_path z"]
    by (simp add: view view_branches[OF assms(1,2)])
qed

theorem zipper_reads_map_witness:
  "z_get_val (map_read_zipper_at_path sample_map [1, 2]) = Some 7 \<and>
   z_child_count std_slice_utils (map_read_zipper_at_borrowed_path sample_map [1]) = 1"
proof -
  note reg = map_zippers(2,3)[OF std_slice_utils_ok sample_map_wf]
  have path: "z_path (map_read_zipper_at_path sample_map [1, 2]) = []" "z_path (map_read_zipper_at_borrowed_path sample_map [1]) = []"
    using rz_path[OF rz_pos_reg[OF reg(1)]] rz_path[OF rz_pos_reg[OF reg(2)]] by auto
  have "map_branches sample_map [1] = filter (\<lambda>b. b = 2) all_bytes"
    unfolding map_branches_def by (intro filter_cong) (auto simp: map_has_path_def sample_map_def)
  also have "\<dots> = [2]" by (simp add: all_bytes_def upt_rec)
  finally have "length (map_branches sample_map [1]) = 1" by simp
  then show ?thesis
    using zipper_reads_map[OF std_slice_utils_ok sample_map_wf reach_cloned, of "[1, 2]"]
      zipper_reads_map[OF std_slice_utils_ok sample_map_wf reach_borrowed, of "[1]"] path
    by (simp add: map_den_def sample_map_def)
qed

lemma reach_path: "zipper_reach S m path z \<Longrightarrow> slice_utils_ok S \<Longrightarrow> wf_map m \<Longrightarrow> rz_reg S (map_view m path) z p \<Longrightarrow> z_path z = p"
  by (rule rz_path[OF rz_pos_reg])

text \<open>What \<open>descend_until\<close> looks at: the bytes \<open>q\<close> lead on from \<open>p\<close> past no branch and no value, and then
  there is a value, a branch or an end.\<close>

definition map_along :: "'v path_map \<Rightarrow> path \<Rightarrow> path \<Rightarrow> bool" where
  "map_along m p q \<longleftrightarrow> (q \<noteq> [] \<longrightarrow> map_has_path m (p @ q)) \<and>
     (\<forall>r. strict_prefix r q \<longrightarrow> length (map_branches m (p @ r)) = 1 \<and> (r \<noteq> [] \<longrightarrow> map_den m (p @ r) = None))"

definition map_until_end :: "'v path_map \<Rightarrow> path \<Rightarrow> path \<Rightarrow> bool" where
  "map_until_end m p q \<longleftrightarrow>
     map_along m p q \<and> (length (map_branches m (p @ q)) \<noteq> 1 \<or> q \<noteq> [] \<and> map_den m (p @ q) \<noteq> None)"

lemma view_along:
  assumes "slice_utils_ok S" "wf_map m"
  shows "along (map_view m path) p q = map_along m (path @ p) q" "until_end (map_view m path) p q = map_until_end m (path @ p) q"
proof -
  have one: "one_way (map_view m path) r \<longleftrightarrow> length (map_branches m (path @ r)) = 1" for r
    by (simp add: one_way_def flip: tv_branches_length view_branches[OF assms])
  show a: "along (map_view m path) p q = map_along m (path @ p) q"
    by (simp add: along_def map_along_def one map_view(3,4)[OF assms])
  show "until_end (map_view m path) p q = map_until_end m (path @ p) q"
    by (simp add: until_end_def map_until_end_def one map_view(3)[OF assms] a)
qed

lemma zipper_until:
  assumes "slice_utils_ok S" "wf_map m" "zipper_reach S m path z"
  shows "\<exists>q z' evs. z_descend_until S z obs = Some (Ret (q \<noteq> [], z', obs @ evs)) \<and>
      z_path z' = z_path z @ q \<and> foldl observe_vec (z_path z) evs = z_path z' \<and> map_until_end m (path @ z_path z) q"
    "\<exists>q z' evs. z_descend_until_max_bytes S n z obs = Some (Ret (q \<noteq> [], z', obs @ evs)) \<and>
      z_path z' = z_path z @ q \<and> foldl observe_vec (z_path z) evs = z_path z' \<and> length q \<le> n \<and>
      map_along m (path @ z_path z) q \<and> (length q < n \<longrightarrow> map_until_end m (path @ z_path z) q)"
  using rz_descend_until[OF reach_reg[OF assms(3,1,2)], of obs] rz_descend_until_max_bytes[OF reach_reg[OF assms(3,1,2)], of n obs]
    rz_path[OF rz_pos_reg] unfolding view_along[OF assms(1,2)] replay_def by metis+

lemma zipper_existing:
  assumes "slice_utils_ok S" "wf_map m" "zipper_reach S m path z"
  shows "\<exists>n z'. z_descend_to_existing S k z = (n, z') \<and> n \<le> length k \<and> z_path z' = z_path z @ take n k \<and>
    (if map_has_path m (path @ z_path z)
     then map_has_path m (path @ z_path z') \<and> (\<forall>j. n < j \<longrightarrow> j \<le> length k \<longrightarrow> \<not> map_has_path m (path @ z_path z @ take j k))
     else n = 0)"
  using rz_descend_to_existing[OF reach_reg[OF assms(3,1,2)], of k] rz_path[OF rz_pos_reg]
  unfolding map_view(4)[OF assms(1,2)] by metis

text \<open>C15: Descending, from any reachable zipper (\<open>zipper_reach\<close>). \<open>descend_to\<close>
  and \<open>descend_to_byte\<close> add exactly the bytes to the path; \<open>descend_to_check\<close>
  says whether the path exists in the map, \<open>descend_to_existing_byte\<close> moves exactly when the byte continues
  the path, and \<open>descend_to_existing\<close> goes along the longest part of the path that exists.  \<open>descend_until\<close>
  returns, without a panic, at the end of the only way on: where a value is, where the ways part or where
  they end; with a bound it goes that way as far as the bound allows.\<close>

theorem zipper_descends:
  assumes "slice_utils_ok S" "wf_map m" "zipper_reach S m path z"
  shows "z_path (z_descend_to k z) = z_path z @ k \<and> z_path (z_descend_to_byte b z) = z_path z @ [b] \<and>
    fst (z_descend_to_check S k z) = map_has_path m (path @ z_path z @ k) \<and>
    z_path (snd (z_descend_to_check S k z)) = z_path z @ k \<and>
    fst (z_descend_to_existing_byte S b z) = map_has_path m (path @ z_path z @ [b]) \<and>
    z_path (snd (z_descend_to_existing_byte S b z)) =
      (if map_has_path m (path @ z_path z @ [b]) then z_path z @ [b] else z_path z) \<and>
    (\<exists>n z'. z_descend_to_existing S k z = (n, z') \<and> n \<le> length k \<and> z_path z' = z_path z @ take n k \<and>
      (if map_has_path m (path @ z_path z)
       then map_has_path m (path @ z_path z') \<and> (\<forall>j. n < j \<longrightarrow> j \<le> length k \<longrightarrow> \<not> map_has_path m (path @ z_path z @ take j k))
       else n = 0)) \<and>
    (\<exists>q z' evs. z_descend_until S z obs = Some (Ret (q \<noteq> [], z', obs @ evs)) \<and>
      z_path z' = z_path z @ q \<and> foldl observe_vec (z_path z) evs = z_path z' \<and> map_until_end m (path @ z_path z) q) \<and>
    (\<exists>q z' evs. z_descend_until_max_bytes S l z obs = Some (Ret (q \<noteq> [], z', obs @ evs)) \<and>
      z_path z' = z_path z @ q \<and> foldl observe_vec (z_path z) evs = z_path z' \<and> length q \<le> l \<and>
      map_along m (path @ z_path z) q \<and> (length q < l \<longrightarrow> map_until_end m (path @ z_path z) q))"
proof -
  note reg = reach_reg[OF assms(3,1,2)] and view = map_view[OF assms(1,2)]
  note path = rz_path[OF rz_pos_reg] and ready = rz_path[OF rz_pos_reg[OF rz_ready_reg]]
  obtain z1 where z1: "z_descend_to_check S k z = (tv_has (map_view m path) (z_path z @ k), z1)"
    "rz_reg S (map_view m path) z1 (z_path z @ k)" using rz_descend_to_check[OF reg] by blast
  obtain z2 where z2: "z_descend_to_existing_byte S b z = (tv_has (map_view m path) (z_path z @ [b]), z2)"
    "rz_ready S (map_view m path) z2 (if tv_has (map_view m path) (z_path z @ [b]) then z_path z @ [b] else z_path z)"
    using rz_descend_to_existing_byte[OF reg] by blast
  have "z_path (z_descend_to k z) = z_path z @ k" "z_path (z_descend_to_byte b z) = z_path z @ [b]"
    "fst (z_descend_to_check S k z) = map_has_path m (path @ z_path z @ k)" "z_path (snd (z_descend_to_check S k z)) = z_path z @ k"
    "fst (z_descend_to_existing_byte S b z) = map_has_path m (path @ z_path z @ [b])"
    "z_path (snd (z_descend_to_existing_byte S b z)) = (if map_has_path m (path @ z_path z @ [b]) then z_path z @ [b] else z_path z)"
    using path[OF rz_descend_to[OF reg, of k]] ready[OF rz_descend_to_byte[OF reg, of b]] z1(1) path[OF z1(2)] z2(1) ready[OF z2(2)]
    by (simp_all add: view)
  then show ?thesis using zipper_existing[OF assms] zipper_until[OF assms] by (intro conjI) blast+
qed

theorem zipper_descends_witness:
  "fst (z_descend_to_check std_slice_utils [1, 2] (map_read_zipper sample_map)) \<and>
   z_path (snd (z_descend_to_existing_byte std_slice_utils 4 (map_read_zipper sample_map))) = [] \<and>
   fst (z_descend_to_existing std_slice_utils [1, 2, 5] (map_read_zipper sample_map)) = 2"
proof -
  have p: "z_path (map_read_zipper sample_map) = []"
    by (simp add: map_read_zipper_def z_new_internal_def z_path_def split: option.split)
  note d = zipper_descends[OF std_slice_utils_ok sample_map_wf reach_root[OF refl], unfolded p append_Nil]
  have has: "map_has_path sample_map q \<longleftrightarrow> prefix q [1, 2] \<or> prefix q [3]" for q
    by (cases q) (auto simp: map_has_path_def sample_map_def)
  note e = d[of "[1, 2, 5]", THEN conjunct2, THEN conjunct2, THEN conjunct2, THEN conjunct2, THEN conjunct2, THEN conjunct2, THEN conjunct1]
  obtain n z' where n: "z_descend_to_existing std_slice_utils [1, 2, 5] (map_read_zipper sample_map) = (n, z')" "n \<le> 3"
    "map_has_path sample_map (take n [1, 2, 5])" "\<forall>j. n < j \<longrightarrow> j \<le> 3 \<longrightarrow> \<not> map_has_path sample_map (take j [1, 2, 5])"
    using e by (auto simp: has)
  have "n = 0 \<or> n = 1 \<or> n = 2 \<or> n = 3" using n(2) by linarith
  moreover have "map_has_path sample_map (take 2 [1, 2, 5])" "\<not> map_has_path sample_map (take 3 [1, 2, 5])" by (simp_all add: has)
  ultimately have "n = 2" using n(3) n(4)[rule_format, of 2] by fastforce
  then show ?thesis using n(1) d[of "[1, 2]" 4] by (simp add: has)
qed

text \<open>C16: From any reachable zipper the branch movements follow the bytes that continue a path in the
  map, in their order: the one with an index, the first, and from a path below the root the nearest above and
  below its last byte. They return the byte they moved to, and stay where they are when there is none.\<close>

theorem zipper_branches:
  assumes "slice_utils_ok S" "wf_map m" "zipper_reach S m path z"
  shows "(\<exists>z'. z_descend_indexed_byte S i z = (nth_opt i (map_branches m (path @ z_path z)), z') \<and>
      z_path z' = moved_by (z_path z) (nth_opt i (map_branches m (path @ z_path z)))) \<and>
    (\<exists>z'. z_descend_first_byte S z = Ret (nth_opt 0 (map_branches m (path @ z_path z)), z') \<and>
      z_path z' = moved_by (z_path z) (nth_opt 0 (map_branches m (path @ z_path z)))) \<and>
    (\<exists>r z'. z_to_next_sibling_byte S z = Ret (r, z') \<and> z_path z' = sibling_by (z_path z) r \<and>
      r = (if z_path z = [] then None
           else find (\<lambda>c. last (z_path z) < c) (map_branches m (path @ butlast (z_path z))))) \<and>
    (\<exists>r z'. z_to_prev_sibling_byte S z = (r, z') \<and> z_path z' = sibling_by (z_path z) r \<and>
      r = (if z_path z = [] then None
           else find (\<lambda>c. c < last (z_path z)) (rev (map_branches m (path @ butlast (z_path z))))))"
proof -
  note reg = reach_reg[OF assms(3,1,2)] and br = view_branches[OF assms(1,2)]
  note ready = rz_path[OF rz_pos_reg[OF rz_ready_reg]]
  have 1: "\<exists>z'. z_descend_indexed_byte S i z = (nth_opt i (map_branches m (path @ z_path z)), z') \<and>
      z_path z' = moved_by (z_path z) (nth_opt i (map_branches m (path @ z_path z)))"
    using rz_descend_indexed_byte[OF reg, of i] ready unfolding br by metis
  have 2: "\<exists>z'. z_descend_first_byte S z = Ret (nth_opt 0 (map_branches m (path @ z_path z)), z') \<and>
      z_path z' = moved_by (z_path z) (nth_opt 0 (map_branches m (path @ z_path z)))"
    using rz_descend_first_byte[OF reg] ready unfolding br by metis
  show ?thesis
  proof (cases "z_path z = []")
    case True
    then show ?thesis using 1 2 root_sibling[of S "map_view m path" z] reg by auto
  next
    case False
    have 3: "\<exists>z'. z_to_next_sibling_byte S z = Ret (next_branch (map_view m path) (z_path z), z') \<and>
        z_path z' = sibling_by (z_path z) (next_branch (map_view m path) (z_path z))"
      using rz_to_next_sibling_byte[OF reg False] ready by metis
    have 4: "\<exists>z'. z_to_prev_sibling_byte S z = (prev_branch (map_view m path) (z_path z), z') \<and>
        z_path z' = sibling_by (z_path z) (prev_branch (map_view m path) (z_path z))"
      using rz_to_prev_sibling_byte[OF reg False] ready by metis
    show ?thesis using 1 2 3 4 False by (auto simp: next_branch_def prev_branch_def br)
  qed
qed

lemma sample_branches: "map_branches sample_map [] = [1, 3]"
proof -
  have "map_branches sample_map [] = filter (\<lambda>b. b = 1 \<or> b = 3) all_bytes"
    unfolding map_branches_def by (intro filter_cong) (auto simp: map_has_path_def sample_map_def)
  also have "\<dots> = [1, 3]" by (simp add: all_bytes_def upt_rec)
  finally show ?thesis .
qed

theorem zipper_branches_witness:
  "\<exists>z'. z_to_next_sibling_byte std_slice_utils (z_descend_to_byte 1 (map_read_zipper sample_map)) = Ret (Some 3, z') \<and> z_path z' = [3]"
proof -
  let ?z = "z_descend_to_byte 1 (map_read_zipper sample_map)"
  have p: "z_path ?z = [1]"
    using rz_path[OF rz_pos_reg[OF rz_ready_reg[OF rz_descend_to_byte[OF map_zippers(1)[OF std_slice_utils_ok sample_map_wf], of 1]]]] by simp
  have r: "zipper_reach std_slice_utils sample_map [] ?z" by (rule reach_step[OF reach_root[OF refl] step_descend_to_byte])
  show ?thesis
    using zipper_branches[OF std_slice_utils_ok sample_map_wf r, of 0] p by (auto simp: sample_branches)
qed

text \<open>C17: From any reachable zipper \<open>ascend\<close> and \<open>ascend_byte\<close> never panic and
  drop exactly the bytes asked for, or all there are; \<open>reset\<close> goes back to the root.\<close>

theorem zipper_ascends:
  assumes "slice_utils_ok S" "wf_map m" "zipper_reach S m path z"
  shows "(\<exists>z'. z_ascend n z = Ret (min n (length (z_path z)), z') \<and> z_path z' = take (length (z_path z) - n) (z_path z)) \<and>
    (\<exists>z'. z_ascend_byte z = Ret (z_path z \<noteq> [], z') \<and> z_path z' = butlast (z_path z)) \<and>
    z_path (z_reset z) = []"
proof -
  note reg = reach_reg[OF assms(3,1,2)]
  note path = rz_path[OF rz_pos_reg]
  show ?thesis
    using rz_ascend[OF reg, of n] rz_ascend_byte[OF reg] path[OF rz_reset[OF reg]] path by metis
qed

theorem zipper_ascends_witness:
  "\<exists>z'. z_ascend 1 (z_descend_to [1, 2] (map_read_zipper sample_map)) = Ret (1, z') \<and> z_path z' = [1]"
proof -
  let ?z = "z_descend_to [1, 2] (map_read_zipper sample_map)"
  have p: "z_path ?z = [1, 2]"
    using rz_path[OF rz_pos_reg[OF rz_descend_to[OF map_zippers(1)[OF std_slice_utils_ok sample_map_wf], of "[1, 2]"]]] by simp
  have r: "zipper_reach std_slice_utils sample_map [] ?z" by (rule reach_step[OF reach_root[OF refl] step_descend_to])
  show ?thesis using zipper_ascends[OF std_slice_utils_ok sample_map_wf r, of 1] p by simp
qed

definition map_ascend_stop :: "'v path_map \<Rightarrow> path \<Rightarrow> bool \<Rightarrow> path \<Rightarrow> bool" where
  "map_ascend_stop m path at_vals q \<longleftrightarrow>
     q = [] \<or> 1 < length (map_branches m (path @ q)) \<or> at_vals \<and> map_den m (path @ q) \<noteq> None"

lemma view_stop:
  "slice_utils_ok S \<Longrightarrow> wf_map m \<Longrightarrow> ascend_stop (map_view m path) at_vals q = map_ascend_stop m path at_vals q"
  by (simp add: ascend_stop_def map_ascend_stop_def map_view(3) view_branches)

text \<open>C18: From any reachable zipper \<open>ascend_until\<close> and \<open>ascend_until_branch\<close>
  return, without a panic, at the nearest path above the focus that is the root, branches, or (for
  \<open>ascend_until\<close>) has a value, and say how many bytes they ascended.\<close>

theorem zipper_ascends_until:
  assumes "slice_utils_ok S" "wf_map m" "zipper_reach S m path z"
  shows "\<exists>n z'. (if at_vals then z_ascend_until S z else z_ascend_until_branch S z) = Some (Ret (n, z')) \<and>
    (n = 0 \<longleftrightarrow> z_path z = []) \<and> n \<le> length (z_path z) \<and> z_path z' = take (length (z_path z) - n) (z_path z) \<and>
    map_ascend_stop m path at_vals (z_path z') \<and>
    (\<forall>j. length (z_path z) - n < j \<longrightarrow> j < length (z_path z) \<longrightarrow> \<not> map_ascend_stop m path at_vals (take j (z_path z)))"
proof -
  obtain n z' where u: "(if at_vals then z_ascend_until S z else z_ascend_until_branch S z) = Some (Ret (n, z'))"
    "n = 0 \<longleftrightarrow> z_path z = []" "n \<le> length (z_path z)"
    "rz_reg S (map_view m path) z' (take (length (z_path z) - n) (z_path z))"
    "ascend_stop (map_view m path) at_vals (take (length (z_path z) - n) (z_path z))"
    "\<forall>j. length (z_path z) - n < j \<longrightarrow> j < length (z_path z) \<longrightarrow> \<not> ascend_stop (map_view m path) at_vals (take j (z_path z))"
    using rz_ascend_until[OF reach_reg[OF assms(3,1,2)], of at_vals] by blast
  have p: "z_path z' = take (length (z_path z) - n) (z_path z)" by (rule rz_path[OF rz_pos_reg[OF u(4)]])
  show ?thesis
    using u(1,2,3,5,6) unfolding view_stop[OF assms(1,2)] p[symmetric] by (intro exI[of _ n] exI[of _ z']) (simp add: p)
qed

theorem zipper_ascends_until_witness:
  "\<exists>n z'. z_ascend_until std_slice_utils (z_descend_to [1, 2, 5] (map_read_zipper sample_map)) = Some (Ret (n, z')) \<and> n \<le> 3"
proof -
  let ?z = "z_descend_to [1, 2, 5] (map_read_zipper sample_map)"
  have p: "z_path ?z = [1, 2, 5]"
    using rz_path[OF rz_pos_reg[OF rz_descend_to[OF map_zippers(1)[OF std_slice_utils_ok sample_map_wf], of "[1, 2, 5]"]]] by simp
  have r: "zipper_reach std_slice_utils sample_map [] ?z" by (rule reach_step[OF reach_root[OF refl] step_descend_to])
  show ?thesis using zipper_ascends_until[OF std_slice_utils_ok sample_map_wf r, of True] p by auto
qed

text \<open>C19: From any reachable zipper \<open>to_next_get_val\<close> always returns, without a panic. It
  returns the value of the first path after the focus, in the order of the paths, that has one, and is there;
  when there is none it is at the root. What it told the observer leads a buffer with the old path to the new
  one.\<close>

theorem zipper_to_next_val:
  assumes "slice_utils_ok S" "wf_map m" "zipper_reach S m path z"
  shows "\<exists>r z' evs. z_to_next_get_val S z obs = Some (Ret ((r, z'), obs @ evs)) \<and>
    foldl observe_vec (z_path z) evs = z_path z' \<and>
    (case r of
       None \<Rightarrow> z_path z' = [] \<and> (\<forall>q. path_less (z_path z) q \<longrightarrow> map_den m (path @ q) = None)
     | Some v \<Rightarrow> map_den m (path @ z_path z') = Some v \<and> path_less (z_path z) (z_path z') \<and>
         (\<forall>q. path_less (z_path z) q \<and> map_den m (path @ q) \<noteq> None \<longrightarrow> q = z_path z' \<or> path_less (z_path z') q))"
proof -
  obtain r z' evs where n: "z_to_next_get_val S z obs = Some (Ret ((r, z'), obs @ evs))"
    "val_ok S (map_view m path) {q. tv_get (map_view m path) q \<noteq> None \<and> path_less (z_path z) q} r z' (replay evs (z_path z))"
    using rz_to_next_get_val[OF reach_reg[OF assms(3,1,2)], of obs] by blast
  have "z_path z' = replay evs (z_path z)"
    using rz_path[OF rz_pos_reg[OF rz_ready_reg]] n(2) unfolding val_ok_def by blast
  then show ?thesis
    using n unfolding val_ok_def map_view(3)[OF assms(1,2)]
    by (intro exI[of _ r] exI[of _ z'] exI[of _ evs]) (auto simp: replay_def split: option.splits)
qed

theorem zipper_to_next_val_witness:
  "\<exists>z' evs. z_to_next_get_val std_slice_utils (map_read_zipper sample_map) [] = Some (Ret ((Some 7, z'), evs)) \<and> z_path z' = [1, 2]"
proof -
  let ?z = "map_read_zipper sample_map"
  have p: "z_path ?z = []" using rz_path[OF rz_pos_reg[OF map_zippers(1)[OF std_slice_utils_ok sample_map_wf]]] by simp
  have v: "map_den sample_map [1, 2] = Some 7" by (simp add: map_den_def sample_map_def)
  have dom: "map_den sample_map q \<noteq> None \<Longrightarrow> q = [] \<or> q = [1, 2] \<or> q = [3]" for q
    by (auto simp: map_den_def sample_map_def split: if_splits)
  obtain r z' evs where n: "z_to_next_get_val std_slice_utils ?z [] = Some (Ret ((r, z'), evs))"
    "case r of None \<Rightarrow> z_path z' = [] \<and> (\<forall>q. path_less [] q \<longrightarrow> map_den sample_map q = None)
     | Some v \<Rightarrow> map_den sample_map (z_path z') = Some v \<and> path_less [] (z_path z') \<and>
         (\<forall>q. path_less [] q \<and> map_den sample_map q \<noteq> None \<longrightarrow> q = z_path z' \<or> path_less (z_path z') q)"
    using zipper_to_next_val[OF std_slice_utils_ok sample_map_wf reach_root[OF refl], of "[]"] unfolding p append_Nil by blast
  have first: "\<not> path_less [3] [1, 2 :: u8]" by simp
  obtain x where x: "r = Some x" using n(2) v by (cases r) auto
  then have "[1, 2] = z_path z' \<or> path_less (z_path z') [1, 2]" using n(2) v by auto
  then have "z_path z' = [1, 2]" using dom[of "z_path z'"] n(2) x first by auto
  then show ?thesis using n v x by auto
qed

definition map_k_paths :: "'v path_map \<Rightarrow> path \<Rightarrow> path \<Rightarrow> nat \<Rightarrow> path set" where
  "map_k_paths m path base k = {q. map_has_path m (path @ q) \<and> length q = length base + k \<and> prefix base q}"

lemma k_found_at:
  assumes "k_found S T Q base r z' (replay evs p)"
  shows "foldl observe_vec p evs = z_path z' \<and>
    (if r then z_path z' \<in> Q \<and> (\<forall>q \<in> Q. q = z_path z' \<or> path_less (z_path z') q) else z_path z' = base \<and> Q = {})"
proof -
  have "z_path z' = replay evs p" using assms rz_path[OF rz_pos_reg[OF rz_ready_reg]] unfolding k_found_def by blast
  then show ?thesis using assms by (simp add: k_found_def replay_def)
qed

text \<open>C20: Iterating the paths of one length, from any reachable zipper.  \<open>descend_first_k_path\<close> always returns,
  without a panic: at the first path of the map that is \<open>k\<close> bytes below the focus, or \<open>false\<close> and where it
  was when there is none.  \<open>to_next_k_path\<close>, at least \<open>k\<close> bytes below the root, always returns too: at the next
  such path below the point \<open>k\<close> bytes up, or \<open>false\<close> and at that point.  Nearer to the root it resets the zipper,
  but panics when the zipper has no buffers yet and its origin path is not empty.  What the observer was told
  leads to the new path.\<close>

theorem zipper_k_paths:
  assumes "slice_utils_ok S" "wf_map m" "zipper_reach S m path z" "0 < k"
  shows "(\<exists>r z' evs. z_descend_first_k_path S k z obs = Some (Ret ((r, z'), obs @ evs)) \<and> foldl observe_vec (z_path z) evs = z_path z' \<and>
      (let Q = map_k_paths m path (z_path z) k in
       if r then z_path z' \<in> Q \<and> (\<forall>q \<in> Q. q = z_path z' \<or> path_less (z_path z') q) else z_path z' = z_path z \<and> Q = {})) \<and>
    (k \<le> length (z_path z) \<longrightarrow>
      (\<exists>r z' evs. z_to_next_k_path S k z obs = Some (Ret ((r, z'), obs @ evs)) \<and> foldl observe_vec (z_path z) evs = z_path z' \<and>
        (let base = take (length (z_path z) - k) (z_path z); Q = {q \<in> map_k_paths m path base k. path_less (z_path z) q} in
         if r then z_path z' \<in> Q \<and> (\<forall>q \<in> Q. q = z_path z' \<or> path_less (z_path z') q) else z_path z' = base \<and> Q = {}))) \<and>
    (length (z_path z) < k \<longrightarrow>
      z_to_next_k_path S k z obs =
        (if buffers_allocated z \<or> path = [] then Some (Ret ((False, z_reset z), obs @ [Ascended (length (z_path z))])) else Some Panic))"
proof -
  note reg = reach_reg[OF assms(3,1,2)]
  have kp: "k_paths (map_view m path) base k = map_k_paths m path base k" for base
    by (simp add: k_paths_def map_k_paths_def map_view(4)[OF assms(1,2)])
  show ?thesis
    using rz_descend_first_k_path[OF reg assms(4), of obs] rz_to_next_k_path[OF reg assms(4), of obs] k_found_at
      rz_to_next_k_path_short[OF reg, of k obs] map_view(2)[OF assms(1,2)]
    unfolding kp Let_def by (intro conjI impI) (blast, blast, simp)
qed

theorem zipper_k_paths_witness:
  "\<exists>z' evs. z_descend_first_k_path std_slice_utils 2 (map_read_zipper sample_map) [] = Some (Ret ((True, z'), evs)) \<and> z_path z' = [1, 2]"
proof -
  have p: "z_path (map_read_zipper sample_map) = []"
    by (simp add: map_read_zipper_def z_new_internal_def z_path_def split: option.split)
  have has: "map_has_path sample_map q \<longleftrightarrow> prefix q [1, 2] \<or> prefix q [3]" for q
    by (cases q) (auto simp: map_has_path_def sample_map_def)
  have K: "map_k_paths sample_map [] [] 2 = {[1, 2]}"
    by (auto simp: map_k_paths_def has prefix_Cons)
  show ?thesis
    using zipper_k_paths[OF std_slice_utils_ok sample_map_wf reach_root[OF refl], of 2 "[]"] unfolding p K
    by (auto split: if_splits)
qed

text \<open>C21: Iterating a map ends and lists its paths with a value, each once, in their order, with their
  values.\<close>

theorem map_iter_lists_map:
  assumes "slice_utils_ok S" "wf_map m"
  shows "\<exists>kvs. iter_collect S (map_iter m) = Some (Ret kvs) \<and> sorted_wrt path_less (map fst kvs) \<and>
    (\<forall>p v. (p, v) \<in> set kvs \<longleftrightarrow> map_den m p = Some v)"
  using collect_from_root[OF map_zippers(1)[OF assms] view_finite[OF assms]]
  unfolding map_iter_def map_view(3)[OF assms] by auto

theorem map_iter_lists_map_witness:
  "\<exists>kvs. iter_collect std_slice_utils (map_iter sample_map) = Some (Ret kvs) \<and> ([1, 2], 7) \<in> set kvs"
proof -
  have "map_den sample_map [1, 2] = Some 7" by (simp add: map_den_def sample_map_def)
  then show ?thesis using map_iter_lists_map[OF std_slice_utils_ok sample_map_wf] by auto
qed

text \<open>C22: The invariant of a read zipper (its nodes, offsets, tokens and buffers fit the trie and the
  path, and no link hangs at the focus) is kept by every movement, whatever it returns,
  \<open>to_next_k_path\<close> with \<open>k = 0\<close> excepted.\<close>

theorem zipper_step_keeps_invariant:
  assumes "zipper_step S z z'" "rz_reg S T z p"
  shows "rz_reg S T z' (z_path z')"
  using rz_step[OF assms] rz_path[OF rz_pos_reg] by metis

theorem zipper_step_keeps_invariant_witness:
  "rz_reg std_slice_utils (map_view sample_map []) (z_descend_to [1] (map_read_zipper sample_map))
     (z_path (z_descend_to [1] (map_read_zipper sample_map)))"
  by (rule zipper_step_keeps_invariant[OF step_descend_to map_zippers(1)[OF std_slice_utils_ok sample_map_wf]])

subsection \<open>Paths of one length, out of bounds\<close>

definition nested_map :: "nat path_map" where
  "nested_map = \<lparr>root = Some (ListN (LN (Some ([1], Child (ListN (LN (Some ([2], Val 7)) None)))) None)), root_val = None\<rparr>"

text \<open>A zipper made on a borrowed path has no buffers until it moves; \<open>to_next_k_path\<close> computes the length
  of its path before it makes them, and the subtraction underflows for every path but the empty one.\<close>

theorem to_next_k_path_unbuffered:
  assumes "path \<noteq> []"
  shows "z_to_next_k_path S k (map_read_zipper_at_borrowed_path m path) obs = Some Panic"
  using assms
  by (simp add: z_to_next_k_path_def map_read_zipper_at_borrowed_path_def z_new_def z_new_internal_def z_path_len_def Let_def
     split: prod.split option.split)

theorem to_next_k_path_unbuffered_witness:
  "z_to_next_k_path std_slice_utils 1 (map_read_zipper_at_borrowed_path sample_map [1]) [] = Some Panic"
  by (rule to_next_k_path_unbuffered) simp

text \<open>What \<open>to_next_k_path\<close> says, and where the zipper is and how many children it sees then.\<close>

definition k_path_seen ::
  "((bool \<times> 'v read_zipper) \<times> observer) outcome option \<Rightarrow> (bool \<times> path \<times> nat) option" where
  "k_path_seen r = (case r of Some (Ret ((b, z), _)) \<Rightarrow> Some (b, z_path z, z_child_count std_slice_utils z) | _ \<Rightarrow> None)"

text \<open>With \<open>k = 0\<close> there is nowhere to go: at the root \<open>to_next_k_path\<close> still answers that it has moved, and
  at a link it answers that it has not but leaves the zipper out of its regular form, so that the child of
  the focus is no longer seen.\<close>

theorem to_next_k_path_zero:
  "k_path_seen (z_to_next_k_path std_slice_utils 0 (map_read_zipper sample_map) []) = Some (True, [], 2) \<and>
   k_path_seen (z_to_next_k_path std_slice_utils 0 (z_descend_to [1] (map_read_zipper nested_map)) []) = Some (False, [1], 0) \<and>
   z_child_count std_slice_utils (z_descend_to [1] (map_read_zipper nested_map)) = 1"
proof (intro conjI)
  show "k_path_seen (z_to_next_k_path std_slice_utils 0 (map_read_zipper sample_map) []) = Some (True, [], 2)"
    by (code_simp, subst z_k_path_internal.simps, code_simp)
  show "k_path_seen (z_to_next_k_path std_slice_utils 0 (z_descend_to [1] (map_read_zipper nested_map)) []) = Some (False, [1], 0)"
    by (code_simp, subst z_k_path_internal.simps, code_simp)
  show "z_child_count std_slice_utils (z_descend_to [1] (map_read_zipper nested_map)) = 1" by code_simp
qed

end
