(* ===== verification/Spec2Isabelle.thy ===== *)
theory Spec2Isabelle
  imports Ring_Laws Subtract_Laws Join_Laws Zipper_Map
begin

text \<open>
  A verification development beside the crate \<open>pathmap\<close> (Rust, \<open>src/\<close>): a map from byte paths to
  values, stored in a trie of nodes of several layouts.

  \<^bold>\<open>The program's parts and the theories that model them.\<close>

  \<^item> \<open>ring.rs\<close>: \<open>AlgebraicResult\<close>, \<open>AlgebraicStatus\<close>, \<open>FatAlgebraicResult\<close>, \<open>join_all\<close> and the
    lattice instances of \<open>Option\<close>, \<open>()\<close>, \<open>bool\<close> and the integers.  Theory \<open>Ring\<close> has the
    definitions, \<open>Ring_Laws\<close> the laws: a result is read by \<open>resolve\<close>, which expands an identity mask
    against the arguments.
  \<^item> \<open>utils/mod.rs\<close>: the 256-bit \<open>ByteMask\<close> on four \<open>u64\<close> words (\<open>Byte_Mask\<close>), its searches, ranges
    and lattice operations (\<open>Byte_Mask_Search\<close>), its iterators (\<open>Byte_Mask_Iter\<close>).  The abstraction is
    the set of bytes whose bit is set.
  \<^item> \<open>line_list_node.rs\<close>: the node with two inline slots.  \<open>Node_Types\<close> has the slots and the tagged
    nodes of \<open>trie_node.rs\<close>; \<open>List_Node\<close> the slot primitives and \<open>set_payload_abstract\<close> (splitting,
    chaining of long keys, upgrading to a byte node); \<open>Trie_Den\<close> the denotation of a node, the
    invariant and \<open>validate_node\<close>; \<open>List_Set\<close> the correctness of the insertion; \<open>List_Ops\<close> and
    \<open>List_Ops_Laws\<close> the other \<open>TrieNode\<close> methods; \<open>List_Cut\<close> the extraction of subtries.
  \<^item> \<open>dense_byte_node.rs\<close>: the node with a mask and one entry for each set byte: \<open>Byte_Ops\<close> and
    \<open>Byte_Ops_Laws\<close>.
  \<^item> The cursors of the nodes, spread over \<open>line_list_node.rs\<close>, \<open>dense_byte_node.rs\<close>, \<open>empty_node.rs\<close>
    and the dispatch of \<open>trie_node.rs\<close>: \<open>Node_Iter\<close> has the iteration tokens, the nth child, the
    siblings; \<open>Node_Iter_Laws\<close> the contract of a cursor as the locale \<open>node_cursor\<close>, interpreted on
    list nodes, byte nodes and every node; \<open>Node_Query_Laws\<close> the items against the getters and the
    branch masks.
  \<^item> The lattice layer, spread over \<open>line_list_node.rs\<close>, \<open>dense_byte_node.rs\<close>, \<open>empty_node.rs\<close>,
    \<open>trie_node.rs\<close> and \<open>trie_map.rs\<close>. \<open>Node_Subtract\<close> has \<open>psubtract\<close> and \<open>prestrict\<close>, \<open>Subtract_List\<close> the
    walks through the other node, \<open>Subtract_Byte\<close> the loops over the entries of byte nodes,
    \<open>Subtract_Laws\<close> the induction over the nodes and the maps. \<open>Node_Join\<close> has \<open>pjoin\<close> and \<open>join_into\<close>,
    \<open>Join_Slots\<close> the merging of two slots, \<open>Join_List\<close> two list nodes, \<open>Join_Byte\<close> byte nodes and
    their entries, \<open>Join_Laws\<close> the induction over pairs of nodes and the maps.
  \<^item> \<open>trie_node.rs\<close>, \<open>trie_map.rs\<close>, \<open>zipper.rs\<close>: the dispatch over the node kinds, the walk along a
    path, \<open>PathMap\<close> and the start of a read zipper are in \<open>Trie_Map\<close>; \<open>Trie_Walk\<close> proves the walks,
    \<open>Trie_Map_Laws\<close> the map, \<open>Trie_Paths\<close> the existence of paths and the references to values.
  \<^item> \<open>zipper.rs\<close>, the read zipper: \<open>Read_Zipper\<close> has \<open>ReadZipperCore\<close>, the stack of nodes above the focus,
    the path buffer, the iteration token and every movement; \<open>Read_Zipper_Laws\<close> the invariant and each
    movement as a movement of the path; \<open>Read_Zipper_Iter\<close> the loop of \<open>to_next_val\<close>; \<open>Read_Zipper_Paths\<close>
    the movements along the paths of the trie (\<open>descend_to_existing\<close>, \<open>descend_until\<close> and its bounded form);
    \<open>Read_Zipper_K_Paths\<close> the search of \<open>descend_first_k_path\<close> and \<open>to_next_k_path\<close>; \<open>Zipper_Map\<close> the
    zippers of a map, every sequence of movements (\<open>zipper_step\<close>, \<open>zipper_reach\<close>), \<open>ReadZipperIter\<close> and
    \<open>PathMap::iter\<close>.  \<open>zipper_step\<close> has every movement of \<open>ReadZipperCore\<close>; the one call it leaves out is
    \<open>to_next_k_path\<close> with \<open>k = 0\<close>, after which the zipper may not be in regular form
    (\<open>to_next_k_path_zero\<close>), so no theorem about reachable zippers speaks of what follows it.

  \<^bold>\<open>How the state corresponds.\<close>  A list node is a pair of optional slots (the packed 16-bit header of
  \<open>LineListNode\<close> says which slots are used and how long the keys are: \<open>slot0\<close> and \<open>slot1\<close> are \<open>None\<close>
  or a key and a payload, in place of the header and the union).  A byte node is a mask and the vector
  of entries.  A reference-counted pointer is the node it points to: the crate copies a shared node
  before it writes (\<open>make_unique\<close>, \<open>make_mut\<close>), so no reader sees the sharing.  A mutable reference
  into the trie is the value behind it and a function that puts a changed value back.  A panic is the
  value \<open>Panic\<close> of \<open>outcome\<close>, an unreachable branch too.  A read zipper borrows the trie, so its nodes are
  values; whether \<open>prefix_buf\<close> has its capacity is the flag \<open>buffers_allocated\<close>.  What a zipper looks at is a
  \<open>trie_view\<close>: the node its root is in, the origin path, where that node stands on it and the root value;
  \<open>rz_reg S T z p\<close> says that the zipper \<open>z\<close> is at the path \<open>p\<close> of the view \<open>T\<close> in regular form.

  \<^bold>\<open>What the lemmas show.\<close>  \<open>den n\<close> is the partial map from paths to values below the node \<open>n\<close> and
  \<open>wf_node\<close> the invariant (\<open>validate_node\<close> of every list node, one entry for each set bit in every byte
  node).  Every operation is shown to keep \<open>wf_node\<close> and to refine an operation on \<open>den\<close>: an update at
  one path, the removal of one path, the removal or replacement of everything below a path, the map
  below a path.  The locale \<open>map_impl\<close> states what a map built by insertions promises and is
  interpreted on \<open>PathMap\<close>; the locale \<open>counted_map\<close> extends it with a counter.

  The algebraic operations are shown path by path. The value type's own operations are arguments with a
  contract as a locale: \<open>subtract_impl\<close> for \<open>subtract\<close>, \<open>join_impl\<close> for \<open>join\<close> (a relation, because the
  integers answer with either argument), each interpreted on \<open>()\<close>, \<open>bool\<close> and the integers. The join
  needs tries without dangling paths (\<open>full_map\<close>); \<open>join_drops_values\<close> shows what happens otherwise.

  \<^bold>\<open>Bounds.\<close>  A slot key has at most \<open>KEY_BYTES_CNT\<close> (= 42) bytes in both slots together; indices into
  byte nodes and masks are \<open>u8\<close>, iteration tokens \<open>u64\<close>, with their wrap-around.  Recursion over nodes
  ends because children are smaller, so no fuel is used there.  The loops of a read zipper that walk the
  whole trie are \<open>partial_function (option)\<close>; that they return is proved (\<open>zipper_ascends_until\<close>,
  \<open>zipper_descends\<close>, \<open>zipper_to_next_val\<close>, \<open>zipper_k_paths\<close>), for the last two by the work that is left
  (\<open>rz_work\<close>), for \<open>descend_until\<close> by the length of the longest path (\<open>tv_bound\<close>).

  \<^bold>\<open>Parameters.\<close>  The byte-slice functions of the crate \<open>fast_slice_utils\<close> (\<open>starts_with\<close>,
  \<open>find_prefix_overlap\<close>) are the record \<open>slice_utils\<close>; \<open>slice_utils_ok\<close> states their documentation
  and \<open>std_slice_utils\<close> is an instance.  \<open>TrieNodeODRc::ptr_eq\<close> is an argument \<open>peq\<close> of the operations
  that skip shared nodes, the comparison of node identities in \<open>pjoin_dyn\<close> and \<open>psubtract_dyn\<close> included; \<open>ptr_eq_ok\<close> says that equal pointers point to equal nodes.

  \<^bold>\<open>Not modelled.\<close>  Write zippers, trie references, the meet and \<open>drop_head\<close>, \<open>ReadZipperPathIter\<close>, the adapters over
  other zippers; assertions of debug builds that the invariants make idle; formatting, counters and visualisation; allocators; the raw-pointer machinery of
  zipper heads; features that are off by default (bridge nodes, the arena, the old cursor); compressed
  serialisation (a library outside the repository does the compression).
\<close>

end
